(* ===== verification/Prelude.thy ===== *)
theory Prelude imports
  Main "HOL-Library.Word" "HOL-Library.List_Lexorder" "HOL-Library.Char_ord"
begin

section \<open>Prelude: machine types, bytes and the library's automation\<close>

text \<open>
  The types every component of the model shares. A Rust \<open>u8\<close>, \<open>u16\<close>, \<open>u32\<close>, \<open>u64\<close> is a
  word of its width and an \<open>i64\<close> is a 64-bit word read with \<open>sint\<close>; \<open>usize\<close> is 64 bits wide
  on every supported platform and is modelled as \<open>nat\<close> where the code checks for overflow
  itself. A Rust \<open>String\<close> is its UTF-8 bytes, a HOL \<open>string\<close>; the order on strings is the
  byte order, as in Rust. A fixed-size array \<open>[u8; N]\<close> is a byte list whose length is a
  well-formedness condition. A function that panics in Rust returns \<open>None\<close> where the panic
  can be reached.
\<close>

named_theorems byte_simps "rules that evaluate the conversions between numbers and bytes"
named_theorems map_simps "lookup rules of the ordered maps"
named_theorems codec_intros "introduction rules that take a byte parser apart"

type_synonym u8 = "8 word"
type_synonym u16 = "16 word"
type_synonym u32 = "32 word"
type_synonym u64 = "64 word"
type_synonym i64 = "64 word"
type_synonym bytes = "u8 list"

subsection \<open>Results\<close>

text \<open>Rust's \<open>Result\<close>: \<open>Inl\<close> is the error. \<open>and_then\<close> is the \<open>?\<close> operator.\<close>

fun and_then :: "'e + 'a \<Rightarrow> ('a \<Rightarrow> 'e + 'b) \<Rightarrow> 'e + 'b" where
  "and_then (Inl e) f = Inl e"
| "and_then (Inr x) f = f x"

lemma and_then_Inr_iff: "and_then m f = Inr y \<longleftrightarrow> (\<exists>x. m = Inr x \<and> f x = Inr y)"
  by (cases m) auto

lemma and_then_Inl_iff:
  "and_then m f = Inl e \<longleftrightarrow> m = Inl e \<or> (\<exists>x. m = Inr x \<and> f x = Inl e)"
  by (cases m) auto

subsection \<open>Bytes and characters\<close>

definition byte_of_char :: "char \<Rightarrow> u8" where
  "byte_of_char c = word_of_nat (of_char c)"

definition char_of_byte :: "u8 \<Rightarrow> char" where
  "char_of_byte b = char_of (unat b)"

lemma of_char_lt_256 [simp]: "(of_char c :: nat) < 256"
  using of_char_mod_256 [of c, where ?'a = nat] mod_less_divisor [of 256 "of_char c :: nat"]
  by simp

lemma unat_byte_of_char [byte_simps]: "unat (byte_of_char c) = of_char c"
  by (simp add: byte_of_char_def unat_of_nat)

lemma char_of_byte_of_char [simp]: "char_of_byte (byte_of_char c) = c"
  by (simp add: char_of_byte_def unat_byte_of_char)

lemma unat_byte_lt_256 [simp]: "unat (b :: u8) < 256"
proof -
  have "unat b < 2 ^ LENGTH(8)" by (rule unsigned_less)
  then show ?thesis by simp
qed

lemma byte_of_char_of_byte [simp]: "byte_of_char (char_of_byte b) = b"
  by (simp add: byte_of_char_def char_of_byte_def)

definition str_bytes :: "string \<Rightarrow> bytes" where
  "str_bytes s = map byte_of_char s"

definition bytes_str :: "bytes \<Rightarrow> string" where
  "bytes_str bs = map char_of_byte bs"

lemma bytes_str_str_bytes [simp]: "bytes_str (str_bytes s) = s"
  by (simp add: bytes_str_def str_bytes_def o_def)

lemma str_bytes_bytes_str [simp]: "str_bytes (bytes_str bs) = bs"
  by (simp add: bytes_str_def str_bytes_def o_def)

lemma length_str_bytes [simp]: "length (str_bytes s) = length s"
  by (simp add: str_bytes_def)

lemma length_bytes_str [simp]: "length (bytes_str s) = length s"
  by (simp add: bytes_str_def)

subsection \<open>Little-endian and big-endian numbers\<close>

fun le_bytes :: "nat \<Rightarrow> nat \<Rightarrow> bytes" where
  "le_bytes 0 v = []"
| "le_bytes (Suc n) v = word_of_nat v # le_bytes n (v div 256)"

fun le_val :: "bytes \<Rightarrow> nat" where
  "le_val [] = 0"
| "le_val (b # bs) = unat b + 256 * le_val bs"

lemma length_le_bytes [simp]: "length (le_bytes n v) = n"
  by (induction n arbitrary: v) auto

lemma le_val_lt: "le_val bs < 256 ^ length bs"
proof (induction bs)
  case Nil
  then show ?case by simp
next
  case (Cons b bs)
  have step: "u + 256 * v < 256 * p" if "u < 256" and "v < p" for u v p :: nat
    using that by linarith
  have "unat b + 256 * le_val bs < 256 * 256 ^ length bs"
    using unat_byte_lt_256 Cons by (rule step)
  then show ?case by simp
qed

lemma le_val_le_bytes [byte_simps]: "le_val (le_bytes n v) = v mod 256 ^ n"
proof (induction n arbitrary: v)
  case 0
  then show ?case by simp
next
  case (Suc n)
  have "le_val (le_bytes (Suc n) v) = v mod 256 + 256 * (v div 256 mod 256 ^ n)"
    by (simp add: Suc unat_of_nat)
  also have "\<dots> = v mod (256 * 256 ^ n)"
    by (metis add.commute mod_mult2_eq)
  finally show ?case by simp
qed

lemma le_bytes_le_val [byte_simps]: "le_bytes (length bs) (le_val bs) = bs"
proof (induction bs)
  case Nil
  then show ?case by simp
next
  case (Cons b bs)
  have "word_of_nat (unat b + 256 * le_val bs) = b"
    by (simp only: word_unat_eq_iff unat_of_nat) simp
  moreover have "(unat b + 256 * le_val bs) div 256 = le_val bs"
    by simp
  ultimately show ?case using Cons by simp
qed

definition u32_le :: "nat \<Rightarrow> bytes" where
  \<comment> \<open>\<open>(n as u32).to_le_bytes()\<close>: the low 32 bits\<close>
  "u32_le n = le_bytes 4 n"

definition u64_le :: "u64 \<Rightarrow> bytes" where
  "u64_le w = le_bytes 8 (unat w)"

definition u64_of_le :: "bytes \<Rightarrow> u64" where
  "u64_of_le bs = word_of_nat (le_val bs)"

definition u32_be :: "nat \<Rightarrow> bytes" where
  "u32_be n = rev (le_bytes 4 n)"

definition be_val :: "bytes \<Rightarrow> nat" where
  "be_val bs = le_val (rev bs)"

lemma length_u32_le [simp]: "length (u32_le n) = 4"
  by (simp add: u32_le_def)

lemma length_u64_le [simp]: "length (u64_le w) = 8"
  by (simp add: u64_le_def)

lemma length_u32_be [simp]: "length (u32_be n) = 4"
  by (simp add: u32_be_def)

lemma le_val_u32_le [byte_simps]: "n < 2 ^ 32 \<Longrightarrow> le_val (u32_le n) = n"
  by (simp add: u32_le_def le_val_le_bytes)

lemma u64_of_le_u64_le [simp]: "u64_of_le (u64_le w) = w"
proof -
  have "unat w < 2 ^ LENGTH(64)" by (rule unsigned_less)
  then show ?thesis by (simp add: u64_of_le_def u64_le_def le_val_le_bytes)
qed

lemma u64_le_u64_of_le: "length bs = 8 \<Longrightarrow> u64_le (u64_of_le bs) = bs"
proof -
  assume l: "length bs = 8"
  have "le_val bs < 2 ^ 64" using le_val_lt [of bs] l by simp
  then have "unat (u64_of_le bs) = le_val bs"
    by (simp add: u64_of_le_def unat_of_nat)
  then show ?thesis using le_bytes_le_val [of bs] l by (simp add: u64_le_def)
qed

lemma u32_le_le_val: "length bs = 4 \<Longrightarrow> u32_le (le_val bs) = bs"
  using le_bytes_le_val [of bs] by (simp add: u32_le_def)

lemma be_val_u32_be [byte_simps]: "n < 2 ^ 32 \<Longrightarrow> be_val (u32_be n) = n"
  by (simp add: be_val_def u32_be_def le_val_le_bytes)

subsection \<open>Lists\<close>

lemma take_length_append [simp]: "length xs = n \<Longrightarrow> take n (xs @ ys) = xs"
  by simp

lemma drop_length_append [simp]: "length xs = n \<Longrightarrow> drop n (xs @ ys) = ys"
  by simp

end
