(* ===== verification/Ordered_Map.thy ===== *)
theory Ordered_Map imports Prelude
begin

section \<open>Ordered maps: \<open>BTreeMap\<close> and \<open>BTreeSet\<close>\<close>

text \<open>
  A \<open>BTreeMap\<close> is its entries in key order: an association list whose keys strictly
  ascend. Two maps with the same lookups are then equal, as they are in Rust, and iterating
  one is walking the list. \<open>BTreeSet\<close> is the strictly ascending list of its elements.
  The interface is the locale \<open>ordered_map\<close>; the list operations below are its
  interpretation, and the components use its lemmas through the qualifier \<open>bm\<close>.
\<close>

subsection \<open>The operations\<close>

definition bm_ok :: "('k::linorder \<times> 'v) list \<Rightarrow> bool" where
  "bm_ok m \<longleftrightarrow> sorted_wrt (<) (map fst m)"

definition bm_get :: "('k \<times> 'v) list \<Rightarrow> 'k \<Rightarrow> 'v option" where
  "bm_get m k = map_of m k"

fun bm_insert :: "'k::linorder \<Rightarrow> 'v \<Rightarrow> ('k \<times> 'v) list \<Rightarrow> ('k \<times> 'v) list" where
  "bm_insert k v [] = [(k, v)]"
| "bm_insert k v ((k', v') # m) =
     (if k < k' then (k, v) # (k', v') # m
      else if k = k' then (k, v) # m
      else (k', v') # bm_insert k v m)"

definition bm_remove :: "'k \<Rightarrow> ('k \<times> 'v) list \<Rightarrow> ('k \<times> 'v) list" where
  "bm_remove k m = filter (\<lambda>(k', _). k' \<noteq> k) m"

definition bm_keys :: "('k \<times> 'v) list \<Rightarrow> 'k list" where
  "bm_keys m = map fst m"

definition bm_values :: "('k \<times> 'v) list \<Rightarrow> 'v list" where
  "bm_values m = map snd m"

definition bm_collect :: "('k::linorder \<times> 'v) list \<Rightarrow> ('k \<times> 'v) list" where
  \<comment> \<open>\<open>iter.collect()\<close>: entries inserted in turn, a later one replacing an earlier\<close>
  "bm_collect kvs = fold (\<lambda>(k, v). bm_insert k v) kvs []"

fun bs_insert :: "'k::linorder \<Rightarrow> 'k list \<Rightarrow> 'k list" where
  "bs_insert k [] = [k]"
| "bs_insert k (k' # s) =
     (if k < k' then k # k' # s else if k = k' then k' # s else k' # bs_insert k s)"

definition bs_collect :: "'k::linorder list \<Rightarrow> 'k list" where
  "bs_collect ks = fold bs_insert ks []"

definition bs_ok :: "'k::linorder list \<Rightarrow> bool" where
  "bs_ok s \<longleftrightarrow> sorted_wrt (<) s"

subsection \<open>The interface\<close>

locale ordered_map =
  fixes ok :: "'m \<Rightarrow> bool"
    and get :: "'m \<Rightarrow> 'k::linorder \<Rightarrow> 'v option"
    and put :: "'k \<Rightarrow> 'v \<Rightarrow> 'm \<Rightarrow> 'm"
    and del :: "'k \<Rightarrow> 'm \<Rightarrow> 'm"
    and emp :: 'm
  assumes ok_emp: "ok emp"
    and ok_put: "ok m \<Longrightarrow> ok (put k v m)"
    and ok_del: "ok m \<Longrightarrow> ok (del k m)"
    and get_emp: "get emp k = None"
    and get_put: "ok m \<Longrightarrow> get (put k v m) k' = (if k' = k then Some v else get m k')"
    and get_del: "ok m \<Longrightarrow> get (del k m) k' = (if k' = k then None else get m k')"
    and same_lookups: "ok m \<Longrightarrow> ok m' \<Longrightarrow> (\<And>k. get m k = get m' k) \<Longrightarrow> m = m'"
begin

lemma ok_fold: "ok m \<Longrightarrow> ok (fold (\<lambda>(k, v). put k v) kvs m)"
  by (induction kvs arbitrary: m) (auto intro: ok_put)

lemma get_fold:
  "ok m \<Longrightarrow> get (fold (\<lambda>(k, v). put k v) kvs m) k =
     (case map_of (rev kvs) k of Some v \<Rightarrow> Some v | None \<Rightarrow> get m k)"
proof (induction kvs arbitrary: m)
  case Nil
  then show ?case by simp
next
  case (Cons kv kvs)
  then show ?case
    by (cases kv) (auto simp: ok_put get_put map_add_def split: option.splits)
qed

lemma put_put: "ok m \<Longrightarrow> put k v (put k w m) = put k v m"
  by (rule same_lookups) (auto intro: ok_put simp: get_put ok_put)

lemma put_commute: "ok m \<Longrightarrow> k \<noteq> k' \<Longrightarrow> put k v (put k' v' m) = put k' v' (put k v m)"
  by (rule same_lookups) (auto intro: ok_put simp: get_put ok_put)

end

subsection \<open>The sorted list implements it\<close>

lemma bm_insert_keys: "set (map fst (bm_insert k v m)) = insert k (set (map fst m))"
  by (induction k v m rule: bm_insert.induct) auto

lemma bm_ok_insert: "bm_ok m \<Longrightarrow> bm_ok (bm_insert k v m)"
proof (induction k v m rule: bm_insert.induct)
  case (1 k v)
  then show ?case by (simp add: bm_ok_def)
next
  case (2 k v k' v' m)
  then show ?case
    using bm_insert_keys [of k v m]
    by (auto simp: bm_ok_def dest: bspec)
qed

lemma bm_get_insert:
  "bm_ok m \<Longrightarrow> bm_get (bm_insert k v m) k' = (if k' = k then Some v else bm_get m k')"
  by (induction k v m rule: bm_insert.induct) (auto simp: bm_ok_def bm_get_def)

lemma bm_ok_remove: "bm_ok m \<Longrightarrow> bm_ok (bm_remove k m)"
  by (induction m) (auto simp: bm_ok_def bm_remove_def)

lemma bm_get_remove: "bm_get (bm_remove k m) k' = (if k' = k then None else bm_get m k')"
  by (induction m) (auto simp: bm_get_def bm_remove_def)

lemma bm_ok_distinct: "bm_ok m \<Longrightarrow> distinct (map fst m)"
  by (simp add: bm_ok_def strict_sorted_iff)

lemma bm_set_eq: "bm_ok m \<Longrightarrow> set m = {(k, v). bm_get m k = Some v}"
  by (auto simp: bm_get_def bm_ok_distinct)

lemma bm_get_mem: "bm_ok m \<Longrightarrow> (k, v) \<in> set m \<Longrightarrow> bm_get m k = Some v"
  by (auto simp: bm_set_eq)

lemma bm_ext:
  assumes "bm_ok m" and "bm_ok m'" and "\<And>k. bm_get m k = bm_get m' k"
  shows "m = m'"
proof -
  have sets: "set m = set m'" using assms by (simp add: bm_set_eq)
  have "map fst m = map fst m'"
    by (rule strict_sorted_equal) (use assms(1,2) sets in \<open>auto simp: bm_ok_def\<close>)
  moreover have snds: "map snd m = map (\<lambda>k. the (bm_get m k)) (map fst m)"
    if "bm_ok m" for m :: "('a \<times> 'b) list"
    using bm_get_mem [OF that] by auto
  ultimately have "map snd m = map snd m'"
    using snds [OF assms(1)] snds [OF assms(2)] assms(3) by simp
  with \<open>map fst m = map fst m'\<close> show ?thesis by (metis zip_map_fst_snd)
qed

interpretation bm: ordered_map bm_ok bm_get bm_insert bm_remove "[]"
proof unfold_locales
  show "bm_ok []" by (simp add: bm_ok_def)
  show "bm_ok m \<Longrightarrow> bm_ok (bm_insert k v m)" for m k v by (rule bm_ok_insert)
  show "bm_ok m \<Longrightarrow> bm_ok (bm_remove k m)" for m k by (rule bm_ok_remove)
  show "bm_get [] k = None" for k by (simp add: bm_get_def)
  show "bm_ok m \<Longrightarrow> bm_get (bm_insert k v m) k' = (if k' = k then Some v else bm_get m k')"
    for m k v k' by (rule bm_get_insert)
  show "bm_ok m \<Longrightarrow> bm_get (bm_remove k m) k' = (if k' = k then None else bm_get m k')"
    for m k k' by (rule bm_get_remove)
  show "bm_ok m \<Longrightarrow> bm_ok m' \<Longrightarrow> (\<And>k. bm_get m k = bm_get m' k) \<Longrightarrow> m = m'"
    for m m' by (rule bm_ext)
qed

lemmas bm_lookup [map_simps] = bm.get_emp bm.get_put bm.get_del bm.ok_emp bm.ok_put bm.ok_del

lemma bm_ok_collect [map_simps]: "bm_ok (bm_collect kvs)"
  unfolding bm_collect_def by (rule bm.ok_fold) (rule bm.ok_emp)

lemma bm_get_collect: "bm_get (bm_collect kvs) k = map_of (rev kvs) k"
  unfolding bm_collect_def
  by (subst bm.get_fold) (auto simp: bm.ok_emp bm.get_emp split: option.splits)

lemma bm_mem_get: "bm_get m k = Some v \<Longrightarrow> (k, v) \<in> set m"
  unfolding bm_get_def by (rule map_of_SomeD)

lemma bm_get_None_iff: "bm_get m k = None \<longleftrightarrow> k \<notin> set (bm_keys m)"
  by (simp add: bm_get_def bm_keys_def map_of_eq_None_iff)

lemma bm_collect_sorted: "bm_ok kvs \<Longrightarrow> bm_collect kvs = kvs"
proof -
  assume ok: "bm_ok kvs"
  then have "map_of (rev kvs) = map_of kvs"
    by (intro map_of_eqI) (auto simp: bm_ok_distinct rev_map [symmetric] map_of_eq_Some_iff)
  then show ?thesis
    by (intro bm_ext) (simp_all only: ok bm_ok_collect bm_get_collect, simp add: bm_get_def)
qed

subsection \<open>Sets\<close>

lemma bs_insert_set: "set (bs_insert k s) = insert k (set s)"
  by (induction k s rule: bs_insert.induct) auto

lemma bs_ok_insert: "bs_ok s \<Longrightarrow> bs_ok (bs_insert k s)"
proof (induction k s rule: bs_insert.induct)
  case (1 k)
  then show ?case by (simp add: bs_ok_def)
next
  case (2 k k' s)
  then show ?case by (auto simp: bs_ok_def bs_insert_set)
qed

lemma bs_fold_set: "set (fold bs_insert ks s) = set ks \<union> set s"
  by (induction ks arbitrary: s) (auto simp: bs_insert_set)

lemma bs_fold_ok: "bs_ok s \<Longrightarrow> bs_ok (fold bs_insert ks s)"
  by (induction ks arbitrary: s) (auto intro: bs_ok_insert)

lemma bs_collect_set: "set (bs_collect ks) = set ks"
  by (simp add: bs_collect_def bs_fold_set)

lemma bs_collect_ok: "bs_ok (bs_collect ks)"
  unfolding bs_collect_def by (rule bs_fold_ok) (simp add: bs_ok_def)

lemma bs_ext: "bs_ok s \<Longrightarrow> bs_ok t \<Longrightarrow> set s = set t \<Longrightarrow> s = t"
  unfolding bs_ok_def by (rule strict_sorted_equal)

lemma bs_collect_sorted: "bs_ok s \<Longrightarrow> bs_collect s = s"
  by (rule bs_ext) (auto simp: bs_collect_ok bs_collect_set)

lemma bs_collect_cong: "set xs = set ys \<Longrightarrow> bs_collect xs = bs_collect ys"
  by (rule bs_ext) (auto simp: bs_collect_ok bs_collect_set)

end
