(* ===== verification/Rust_Str.thy ===== *)
theory Rust_Str imports Prelude
begin

section \<open>The string operations of the standard library the program uses\<close>

text \<open>
  \<open>str\<close> slicing, searching and splitting, over the UTF-8 bytes of the string. A slice
  whose bounds do not fall between characters panics in Rust (\<open>None\<close> here), and
  \<open>str::get\<close> returns \<open>None\<close> for the same bounds.
\<close>

definition cont_byte :: "char \<Rightarrow> bool" where
  \<comment> \<open>a UTF-8 continuation byte, \<open>0b10xxxxxx\<close>\<close>
  "cont_byte c \<longleftrightarrow> 128 \<le> (of_char c :: nat) \<and> (of_char c :: nat) < 192"

definition char_boundary :: "string \<Rightarrow> nat \<Rightarrow> bool" where
  \<comment> \<open>\<open>str::is_char_boundary\<close>\<close>
  "char_boundary s i \<longleftrightarrow> i = 0 \<or> i = length s \<or> (i < length s \<and> \<not> cont_byte (s ! i))"

definition str_get :: "string \<Rightarrow> nat \<Rightarrow> nat \<Rightarrow> string option" where
  \<comment> \<open>\<open>s.get(a..b)\<close>; indexing \<open>&s[a..b]\<close> panics where this is \<open>None\<close>\<close>
  "str_get s a b =
     (if a \<le> b \<and> b \<le> length s \<and> char_boundary s a \<and> char_boundary s b
      then Some (take (b - a) (drop a s)) else None)"

definition str_from :: "string \<Rightarrow> nat \<Rightarrow> string option" where
  \<comment> \<open>\<open>s.get(a..)\<close>\<close>
  "str_from s a = (if a \<le> length s \<and> char_boundary s a then Some (drop a s) else None)"

definition starts_with :: "string \<Rightarrow> string \<Rightarrow> bool" where
  "starts_with s p \<longleftrightarrow> take (length p) s = p"

definition ends_with :: "string \<Rightarrow> string \<Rightarrow> bool" where
  "ends_with s p \<longleftrightarrow> length p \<le> length s \<and> drop (length s - length p) s = p"

definition strip_prefix :: "string \<Rightarrow> string \<Rightarrow> string option" where
  "strip_prefix s p = (if starts_with s p then Some (drop (length p) s) else None)"

fun rfind :: "string \<Rightarrow> string \<Rightarrow> nat option" where
  \<comment> \<open>\<open>s.rfind(pat)\<close>: the last place \<open>pat\<close> begins\<close>
  "rfind [] pat = (if pat = [] then Some 0 else None)"
| "rfind (c # s) pat =
     (case rfind s pat of
        Some i \<Rightarrow> Some (Suc i)
      | None \<Rightarrow> if starts_with (c # s) pat then Some 0 else None)"

fun split_on :: "char \<Rightarrow> string \<Rightarrow> string list" where
  \<comment> \<open>\<open>s.split(c)\<close>: one component more than there are separators\<close>
  "split_on x [] = [[]]"
| "split_on x (c # s) =
     (if c = x then [] # split_on x s
      else (case split_on x s of [] \<Rightarrow> [[c]] | p # ps \<Rightarrow> (c # p) # ps))"

fun join_on :: "string \<Rightarrow> string list \<Rightarrow> string" where
  "join_on sep [] = []"
| "join_on sep [p] = p"
| "join_on sep (p # q # ps) = p @ sep @ join_on sep (q # ps)"

function replace :: "string \<Rightarrow> string \<Rightarrow> string \<Rightarrow> string" where
  \<comment> \<open>\<open>s.replace(pat, to)\<close>, left to right, for a pattern that is not empty\<close>
  "replace pat to [] = []"
| "replace pat to (c # s) =
     (if pat \<noteq> [] \<and> starts_with (c # s) pat
      then to @ replace pat to (drop (length pat) (c # s))
      else c # replace pat to s)"
  by pat_completeness auto
termination
  by (relation "measure (\<lambda>(pat, to, s). length s)") (auto simp: Suc_le_eq)

declare replace.simps [simp del]

definition is_ascii_digit :: "char \<Rightarrow> bool" where
  "is_ascii_digit c \<longleftrightarrow> 48 \<le> (of_char c :: nat) \<and> (of_char c :: nat) \<le> 57"

definition is_ascii_uppercase :: "char \<Rightarrow> bool" where
  "is_ascii_uppercase c \<longleftrightarrow> 65 \<le> (of_char c :: nat) \<and> (of_char c :: nat) \<le> 90"

definition is_ascii_lowercase :: "char \<Rightarrow> bool" where
  "is_ascii_lowercase c \<longleftrightarrow> 97 \<le> (of_char c :: nat) \<and> (of_char c :: nat) \<le> 122"

definition is_ascii_hexdigit :: "char \<Rightarrow> bool" where
  "is_ascii_hexdigit c \<longleftrightarrow> is_ascii_digit c
     \<or> (65 \<le> (of_char c :: nat) \<and> (of_char c :: nat) \<le> 70)
     \<or> (97 \<le> (of_char c :: nat) \<and> (of_char c :: nat) \<le> 102)"

definition to_ascii_lowercase :: "char \<Rightarrow> char" where
  "to_ascii_lowercase c = (if is_ascii_uppercase c then char_of ((of_char c :: nat) + 32) else c)"

definition to_ascii_uppercase :: "char \<Rightarrow> char" where
  "to_ascii_uppercase c = (if is_ascii_lowercase c then char_of ((of_char c :: nat) - 32) else c)"

definition strip_cr :: "string \<Rightarrow> string" where
  "strip_cr s = (if ends_with s [CHR 0x0D] then butlast s else s)"

definition str_lines :: "string \<Rightarrow> string list" where
  \<comment> \<open>\<open>s.lines()\<close>: no empty last line, and a carriage return before the line feed goes with it\<close>
  "str_lines s =
     (let parts = split_on CHR 0x0A s; rest = last parts
      in map strip_cr (butlast parts) @ (if rest = [] then [] else [rest]))"

definition white :: "string list" where
  \<comment> \<open>the characters of Unicode's White_Space, in UTF-8\<close>
  "white =
     [[CHR 0x09], [CHR 0x0A], [CHR 0x0B], [CHR 0x0C], [CHR 0x0D], [CHR 0x20],
      [CHR 0xC2, CHR 0x85], [CHR 0xC2, CHR 0xA0], [CHR 0xE1, CHR 0x9A, CHR 0x80],
      [CHR 0xE2, CHR 0x80, CHR 0x80], [CHR 0xE2, CHR 0x80, CHR 0x81],
      [CHR 0xE2, CHR 0x80, CHR 0x82], [CHR 0xE2, CHR 0x80, CHR 0x83],
      [CHR 0xE2, CHR 0x80, CHR 0x84], [CHR 0xE2, CHR 0x80, CHR 0x85],
      [CHR 0xE2, CHR 0x80, CHR 0x86], [CHR 0xE2, CHR 0x80, CHR 0x87],
      [CHR 0xE2, CHR 0x80, CHR 0x88], [CHR 0xE2, CHR 0x80, CHR 0x89],
      [CHR 0xE2, CHR 0x80, CHR 0x8A], [CHR 0xE2, CHR 0x80, CHR 0xA8],
      [CHR 0xE2, CHR 0x80, CHR 0xA9], [CHR 0xE2, CHR 0x80, CHR 0xAF],
      [CHR 0xE2, CHR 0x81, CHR 0x9F], [CHR 0xE3, CHR 0x80, CHR 0x80]]"

fun trim_start :: "string list \<Rightarrow> string \<Rightarrow> string" where
  \<comment> \<open>drops the given characters from the front as long as there is one\<close>
  "trim_start ws [] = []"
| "trim_start ws (c # s) =
     (case find (\<lambda>w. starts_with (c # s) w) ws of
        None \<Rightarrow> c # s
      | Some w \<Rightarrow> trim_start ws (drop (length w - 1) s))"

definition trim :: "string \<Rightarrow> string" where
  "trim s = rev (trim_start (map rev white) (rev (trim_start white s)))"

subsection \<open>Validity of UTF-8\<close>

text \<open>\<open>std::str::from_utf8\<close>: no overlong forms, no surrogates, nothing past U+10FFFF.\<close>

definition in_range :: "nat \<Rightarrow> nat \<Rightarrow> u8 \<Rightarrow> bool" where
  "in_range lo hi b \<longleftrightarrow> lo \<le> unat b \<and> unat b \<le> hi"

fun utf8_ok :: "bytes \<Rightarrow> bool" where
  "utf8_ok [] = True"
| "utf8_ok (a # s) =
     (if unat a < 128 then utf8_ok s
      else case s of
        [] \<Rightarrow> False
      | b # s1 \<Rightarrow>
          if in_range 194 223 a then in_range 128 191 b \<and> utf8_ok s1
          else case s1 of
            [] \<Rightarrow> False
          | c # s2 \<Rightarrow>
              if in_range 224 239 a then
                (if unat a = 224 then in_range 160 191 b
                 else if unat a = 237 then in_range 128 159 b
                 else in_range 128 191 b)
                \<and> in_range 128 191 c \<and> utf8_ok s2
              else case s2 of
                [] \<Rightarrow> False
              | d # s3 \<Rightarrow>
                  in_range 240 244 a
                  \<and> (if unat a = 240 then in_range 144 191 b
                     else if unat a = 244 then in_range 128 143 b
                     else in_range 128 191 b)
                  \<and> in_range 128 191 c \<and> in_range 128 191 d \<and> utf8_ok s3)"

definition from_utf8 :: "bytes \<Rightarrow> string option" where
  "from_utf8 bs = (if utf8_ok bs then Some (bytes_str bs) else None)"

definition valid_str :: "string \<Rightarrow> bool" where
  \<comment> \<open>what every Rust \<open>String\<close> is\<close>
  "valid_str s \<longleftrightarrow> utf8_ok (str_bytes s)"

lemma from_utf8_str_bytes [simp]: "valid_str s \<Longrightarrow> from_utf8 (str_bytes s) = Some s"
  by (simp add: from_utf8_def valid_str_def)

lemma from_utf8_SomeD: "from_utf8 bs = Some s \<Longrightarrow> valid_str s \<and> str_bytes s = bs"
  by (auto simp: from_utf8_def valid_str_def split: if_splits)

subsection \<open>Lemmas\<close>

lemma starts_with_append [simp]: "starts_with (p @ s) p"
  by (simp add: starts_with_def)

lemma starts_with_iff: "starts_with s p \<longleftrightarrow> (\<exists>r. s = p @ r)"
  by (metis append_take_drop_id starts_with_def starts_with_append)

lemma strip_prefix_Some_iff: "strip_prefix s p = Some r \<longleftrightarrow> s = p @ r"
  by (auto simp: strip_prefix_def starts_with_iff)

lemma starts_with_single: "starts_with s [c] \<longleftrightarrow> (\<exists>t. s = c # t)"
  by (auto simp: starts_with_iff)

lemma split_on_nonempty [simp]: "split_on x s \<noteq> []"
  by (cases s) (auto split: list.splits)

lemma join_split: "join_on [x] (split_on x s) = s"
proof (induction s)
  case Nil
  then show ?case by simp
next
  case (Cons c s)
  obtain p ps where ps: "split_on x s = p # ps"
    by (cases "split_on x s") auto
  with Cons show ?case by (cases ps) auto
qed

lemma split_on_no_sep: "p \<in> set (split_on x s) \<Longrightarrow> x \<notin> set p"
proof (induction s arbitrary: p)
  case Nil
  then show ?case by simp
next
  case (Cons c s)
  obtain q ps where ps: "split_on x s = q # ps"
    by (cases "split_on x s") auto
  from Cons.IH [unfolded ps] have "x \<notin> set q" and "\<And>p. p \<in> set ps \<Longrightarrow> x \<notin> set p"
    by auto
  with Cons.prems ps show ?case by (auto split: if_splits)
qed

lemma split_on_append_sep:
  "split_on x (s @ x # t) = split_on x s @ split_on x t"
proof (induction s)
  case Nil
  then show ?case by simp
next
  case (Cons c s)
  obtain p ps where "split_on x s = p # ps"
    by (cases "split_on x s") auto
  with Cons show ?case by simp
qed

lemma split_on_absent: "x \<notin> set s \<Longrightarrow> split_on x s = [s]"
  by (induction s) auto

lemma rfind_single_None: "rfind s [c] = None \<longleftrightarrow> c \<notin> set s"
  by (induction s) (auto simp: starts_with_single split: option.splits)

lemma rfind_Some_split:
  "rfind s pat = Some i \<Longrightarrow> i + length pat \<le> length s \<and> s = take i s @ pat @ drop (i + length pat) s"
proof (induction s arbitrary: i)
  case Nil
  then show ?case by (auto split: if_splits)
next
  case (Cons c s)
  show ?case
  proof (cases "rfind s pat")
    case None
    with Cons.prems have "i = 0" and "starts_with (c # s) pat"
      by (auto split: if_splits)
    then obtain r where "c # s = pat @ r" by (auto simp: starts_with_iff)
    then have "length (c # s) = length pat + length r" by simp
    with \<open>i = 0\<close> \<open>c # s = pat @ r\<close> show ?thesis by simp
  next
    case (Some j)
    with Cons show ?thesis by auto
  qed
qed

lemma rfind_single_Some:
  "rfind s [c] = Some i \<Longrightarrow> s = take i s @ c # drop (Suc i) s \<and> c \<notin> set (drop (Suc i) s)"
proof (induction s arbitrary: i)
  case Nil
  then show ?case by simp
next
  case (Cons d s)
  show ?case
  proof (cases "rfind s [c]")
    case None
    with Cons.prems show ?thesis
      by (auto simp: rfind_single_None starts_with_single split: if_splits)
  next
    case (Some j)
    with Cons show ?thesis by auto
  qed
qed

lemma rfind_single_nth:
  "rfind s [c] = Some i \<Longrightarrow> i < length s \<and> s ! i = c \<and> take (Suc i) s = take i s @ [c]"
proof (induction s arbitrary: i)
  case Nil
  then show ?case by simp
next
  case (Cons d s)
  then show ?case
    by (cases "rfind s [c]") (auto simp: starts_with_single split: if_splits)
qed

lemma rfind_last:
  "c \<notin> set t \<Longrightarrow> rfind (s @ c # t) [c] = Some (length s)"
proof (induction s)
  case Nil
  then have "rfind t [c] = None" by (simp add: rfind_single_None)
  then show ?case by (simp add: starts_with_single)
next
  case (Cons d s)
  then show ?case by simp
qed

lemma rfind_beyond:
  "rfind (s @ t) pat = (case rfind t pat of Some i \<Rightarrow> Some (length s + i) | None \<Rightarrow> rfind (s @ t) pat)"
  by (induction s) (auto split: option.splits)

lemma cont_byte_not_ascii: "(of_char c :: nat) < 128 \<Longrightarrow> \<not> cont_byte c"
  by (simp add: cont_byte_def)

lemma split_on_lines:
  "\<forall>p \<in> set ps. x \<notin> set p \<Longrightarrow> split_on x (concat (map (\<lambda>p. p @ [x]) ps)) = ps @ [[]]"
  by (induction ps) (auto simp: split_on_append_sep split_on_absent)

lemma str_lines_of_lines:
  "\<forall>p \<in> set ps. CHR 0x0A \<notin> set p \<and> \<not> ends_with p [CHR 0x0D] \<Longrightarrow>
   str_lines (concat (map (\<lambda>p. p @ [CHR 0x0A]) ps)) = ps"
  by (simp add: str_lines_def split_on_lines Let_def strip_cr_def cong: map_cong)

lemma ends_with_iff: "ends_with s p \<longleftrightarrow> (\<exists>r. s = r @ p)"
proof
  assume "ends_with s p"
  then have "s = take (length s - length p) s @ p"
    by (metis append_take_drop_id ends_with_def)
  then show "\<exists>r. s = r @ p" by blast
qed (auto simp: ends_with_def)

lemma trim_start_plain:
  "\<forall>w \<in> set ws. w \<noteq> [] \<and> hd w \<notin> set s \<Longrightarrow> trim_start ws s = s"
proof (cases s)
  case (Cons c t)
  assume plain: "\<forall>w \<in> set ws. w \<noteq> [] \<and> hd w \<notin> set s"
  have "find (\<lambda>w. starts_with (c # t) w) ws = None"
    using plain Cons by (auto simp: find_None_iff starts_with_iff Cons_eq_append_conv)
  then show ?thesis by (simp add: Cons)
qed simp

lemma trim_ascii_word:
  assumes "\<forall>c \<in> set s. 33 \<le> (of_char c :: nat) \<and> (of_char c :: nat) < 127"
  shows "trim s = s"
proof -
  have out: "\<forall>w \<in> set white \<union> set (map rev white). w \<noteq> [] \<and>
      ((of_char (hd w) :: nat) < 33 \<or> 127 < (of_char (hd w) :: nat))" by code_simp
  have plain: "\<forall>w \<in> set ws. w \<noteq> [] \<and> hd w \<notin> set t"
    if "set ws \<subseteq> set white \<union> set (map rev white)" and "set t = set s" for ws t
  proof
    fix w
    assume "w \<in> set ws"
    with that(1) out have "w \<noteq> []" and "(of_char (hd w) :: nat) < 33 \<or> 127 < (of_char (hd w) :: nat)"
      by blast+
    moreover from this assms that(2) have "hd w \<notin> set t" by force
    ultimately show "w \<noteq> [] \<and> hd w \<notin> set t" by simp
  qed
  have "trim_start white s = s" by (intro trim_start_plain plain) auto
  moreover have "trim_start (map rev white) (rev s) = rev s" by (intro trim_start_plain plain) auto
  ultimately show ?thesis by (simp add: trim_def)
qed

lemma replace_Nil [simp]: "replace pat to [] = []"
  by (simp add: replace.simps)

lemma replace_other: "pat = p # ps \<Longrightarrow> c \<noteq> p \<Longrightarrow> replace pat to (c # s) = c # replace pat to s"
  by (simp add: replace.simps(2) starts_with_iff Cons_eq_append_conv)

lemma replace_hit: "pat \<noteq> [] \<Longrightarrow> replace pat to (pat @ s) = to @ replace pat to s"
proof -
  assume "pat \<noteq> []"
  then obtain c t where ct: "pat @ s = c # t" by (cases pat) auto
  then have "starts_with (c # t) pat" and "drop (length pat) (c # t) = s"
    by (metis starts_with_append) (metis append_eq_conv_conj ct)
  with \<open>pat \<noteq> []\<close> show ?thesis by (simp add: ct replace.simps(2))
qed

lemma replace_char: "replace [x] to s = concat (map (\<lambda>c. if c = x then to else [c]) s)"
  by (induction s) (auto simp: replace.simps(2) starts_with_iff)

end
