(* ===== verification/Device.thy ===== *)
theory Device imports Ordered_Map Rust_Str
begin

section \<open>Device identity (\<open>crates/sync/src/device.rs\<close>)\<close>

text \<open>
  A device is an opaque 32 bytes, ordered as bytes, printed as 64 hex digits and read back
  from them. \<open>u8::from_str_radix\<close> of the standard library is modelled with the leading
  \<open>+\<close> it accepts.
\<close>

datatype device_id = DeviceId (as_bytes: bytes)

definition device_ok :: "device_id \<Rightarrow> bool" where
  \<comment> \<open>the array has its length\<close>
  "device_ok d \<longleftrightarrow> length (as_bytes d) = 32"

text \<open>\<open>derive(PartialOrd, Ord)\<close>: the order of the bytes.\<close>

instantiation device_id :: linorder
begin

definition less_eq_device_id :: "device_id \<Rightarrow> device_id \<Rightarrow> bool" where
  "d \<le> e \<longleftrightarrow> as_bytes d \<le> as_bytes e"

definition less_device_id :: "device_id \<Rightarrow> device_id \<Rightarrow> bool" where
  "d < e \<longleftrightarrow> as_bytes d < as_bytes e"

instance
  by standard
    (auto simp: less_eq_device_id_def less_device_id_def less_le_not_le device_id.expand)

end

subsection \<open>Hex\<close>

definition hex_digit :: "nat \<Rightarrow> char" where
  "hex_digit n = (if n < 10 then char_of (48 + n) else char_of (87 + n))"

definition hex_byte :: "u8 \<Rightarrow> string" where
  \<comment> \<open>\<open>format!("{b:02x}")\<close>\<close>
  "hex_byte b = [hex_digit (unat b div 16), hex_digit (unat b mod 16)]"

definition short :: "device_id \<Rightarrow> string" where
  "short d = concat (map hex_byte (take 4 (as_bytes d)))"

definition fmt :: "device_id \<Rightarrow> string" where
  "fmt d = concat (map hex_byte (as_bytes d))"

definition to_hex :: "device_id \<Rightarrow> string" where
  "to_hex d = fmt d"

definition hex_val :: "char \<Rightarrow> nat option" where
  \<comment> \<open>\<open>char::to_digit(16)\<close>\<close>
  "hex_val c =
     (let n = of_char c in
      if 48 \<le> n \<and> n \<le> 57 then Some (n - 48)
      else if 65 \<le> n \<and> n \<le> 70 then Some (n - 55)
      else if 97 \<le> n \<and> n \<le> 102 then Some (n - 87)
      else None)"

fun radix16 :: "nat \<Rightarrow> string \<Rightarrow> nat option" where
  "radix16 acc [] = Some acc"
| "radix16 acc (c # s) =
     (case hex_val c of
        None \<Rightarrow> None
      | Some d \<Rightarrow> if acc * 16 + d < 256 then radix16 (acc * 16 + d) s else None)"

definition u8_from_str_radix16 :: "string \<Rightarrow> u8 option" where
  \<comment> \<open>an empty string or a lone sign is an error; one leading \<open>+\<close> is skipped\<close>
  "u8_from_str_radix16 s =
     (if s = [] \<or> s = ''+'' \<or> s = ''-'' then None
      else map_option word_of_nat (radix16 0 (if hd s = CHR ''+'' then tl s else s)))"

fun from_hex_at :: "string \<Rightarrow> nat \<Rightarrow> nat \<Rightarrow> bytes option" where
  \<comment> \<open>the loop over the array's bytes, from the \<open>i\<close>th, \<open>n\<close> still to come\<close>
  "from_hex_at text i 0 = Some []"
| "from_hex_at text i (Suc n) =
     (case str_get text (i * 2) (i * 2 + 2) of
        None \<Rightarrow> None
      | Some pair \<Rightarrow>
          (case u8_from_str_radix16 pair of
             None \<Rightarrow> None
           | Some byte \<Rightarrow> map_option ((#) byte) (from_hex_at text (Suc i) n)))"

definition from_hex :: "string \<Rightarrow> device_id option" where
  "from_hex text =
     (if length text \<noteq> 64 then None else map_option DeviceId (from_hex_at text 0 32))"

subsection \<open>Lemmas\<close>

lemma of_char_hex_digit: "n < 16 \<Longrightarrow>
  (of_char (hex_digit n) :: nat) = (if n < 10 then 48 + n else 87 + n)"
  by (auto simp: hex_digit_def)

lemma hex_val_hex_digit: "n < 16 \<Longrightarrow> hex_val (hex_digit n) = Some n"
  by (simp add: hex_val_def of_char_hex_digit Let_def)

lemma hex_digit_not_cont: "n < 16 \<Longrightarrow> \<not> cont_byte (hex_digit n)"
  by (simp add: cont_byte_def of_char_hex_digit)

lemma hex_digit_neq:
  assumes "n < 16"
  shows "hex_digit n \<noteq> CHR ''+''" and "hex_digit n \<noteq> CHR ''-''"
    and "hex_digit n \<noteq> CHR ''.''" and "hex_digit n \<noteq> CHR ''/''"
  using of_char_hex_digit [OF assms] by (auto split: if_splits)

lemma nibbles: "unat (b :: u8) div 16 < 16" "unat b mod 16 < 16"
  using unat_byte_lt_256 [of b] by (simp_all add: less_mult_imp_div_less)

lemma length_hex_byte [simp]: "length (hex_byte b) = 2"
  by (simp add: hex_byte_def)

lemma u8_from_hex_byte [simp]: "u8_from_str_radix16 (hex_byte b) = Some b"
proof -
  have "unat b div 16 * 16 + unat b mod 16 = unat b" by simp
  then show ?thesis
    using nibbles [of b] hex_digit_neq [OF nibbles(1) [of b]] unat_byte_lt_256 [of b]
    by (simp add: u8_from_str_radix16_def hex_byte_def hex_val_hex_digit less_imp_le_nat)
qed

lemma length_concat_hex [simp]: "length (concat (map hex_byte bs)) = 2 * length bs"
  by (induction bs) auto

lemma hex_chars: "c \<in> set (concat (map hex_byte bs)) \<Longrightarrow> \<exists>n < 16. c = hex_digit n"
proof -
  assume "c \<in> set (concat (map hex_byte bs))"
  then obtain b where "c \<in> set (hex_byte b)" by auto
  then have "c = hex_digit (unat b div 16) \<or> c = hex_digit (unat b mod 16)"
    by (auto simp: hex_byte_def)
  then show ?thesis using nibbles [of b] by blast
qed

lemma char_boundary_hex: "char_boundary (concat (map hex_byte bs)) i \<longleftrightarrow> i \<le> 2 * length bs"
proof -
  have "\<not> cont_byte (concat (map hex_byte bs) ! i)" if "i < 2 * length bs"
  proof -
    have "concat (map hex_byte bs) ! i \<in> set (concat (map hex_byte bs))"
      using that by (intro nth_mem) simp
    then show ?thesis using hex_chars hex_digit_not_cont by metis
  qed
  then show ?thesis by (auto simp: char_boundary_def)
qed

lemma drop_concat_hex: "drop (i * 2) (concat (map hex_byte bs)) = concat (map hex_byte (drop i bs))"
proof (induction bs arbitrary: i)
  case Nil
  then show ?case by simp
next
  case (Cons b bs)
  then show ?case by (cases i) (simp_all add: hex_byte_def)
qed

lemma str_get_hex:
  assumes "i < length bs"
  shows "str_get (concat (map hex_byte bs)) (i * 2) (i * 2 + 2) = Some (hex_byte (bs ! i))"
proof -
  have "drop i bs = bs ! i # drop (Suc i) bs"
    using assms by (simp add: Cons_nth_drop_Suc)
  then show ?thesis
    using assms by (simp add: str_get_def char_boundary_hex drop_concat_hex)
qed

lemma from_hex_at_hex:
  "i + n \<le> length bs \<Longrightarrow>
   from_hex_at (concat (map hex_byte bs)) i n = Some (take n (drop i bs))"
proof (induction n arbitrary: i)
  case 0
  then show ?case by simp
next
  case (Suc n)
  then have "str_get (concat (map hex_byte bs)) (i * 2) (i * 2 + 2) = Some (hex_byte (bs ! i))"
    by (intro str_get_hex) simp
  moreover have "bs ! i # take n (drop (Suc i) bs) = take (Suc n) (drop i bs)"
    using Suc.prems by (simp add: Cons_nth_drop_Suc [symmetric])
  ultimately show ?case using Suc by simp
qed

lemma from_hex_to_hex: "device_ok d \<Longrightarrow> from_hex (to_hex d) = Some d"
  by (simp add: from_hex_def to_hex_def fmt_def device_ok_def from_hex_at_hex)

lemma from_hex_at_length: "from_hex_at text i n = Some bs \<Longrightarrow> length bs = n"
  by (induction n arbitrary: i bs) (auto split: option.splits)

lemma from_hex_ok: "from_hex text = Some d \<Longrightarrow> device_ok d"
  by (auto simp: from_hex_def device_ok_def dest: from_hex_at_length split: if_splits)

text \<open>An id's hex form is read back as that id, but the reading is no inverse: it takes the
  pairs \<open>u8::from_str_radix\<close> takes, a sign and a digit among them, for which no id is written.\<close>

theorem device_hex_round_trip:
  "(device_ok d \<longrightarrow> from_hex (to_hex d) = Some d)
   \<and> from_hex (concat (replicate 32 ''+f'')) = Some (DeviceId (replicate 32 15))
   \<and> to_hex (DeviceId (replicate 32 15)) \<noteq> concat (replicate 32 ''+f'')"
proof -
  have "from_hex (concat (replicate 32 ''+f'')) = Some (DeviceId (replicate 32 15))"
    and "to_hex (DeviceId (replicate 32 15)) \<noteq> concat (replicate 32 ''+f'')" by code_simp+
  then show ?thesis using from_hex_to_hex by blast
qed

theorem device_hex_round_trip_witness:
  "from_hex (to_hex (DeviceId (replicate 32 171))) = Some (DeviceId (replicate 32 171))"
proof -
  have "device_ok (DeviceId (replicate 32 171))" by (simp add: device_ok_def)
  with device_hex_round_trip [of "DeviceId (replicate 32 171)"] show ?thesis by blast
qed

lemma to_hex_inject: "device_ok d \<Longrightarrow> device_ok e \<Longrightarrow> to_hex d = to_hex e \<Longrightarrow> d = e"
  by (metis from_hex_to_hex option.inject)

end
