(* ===== verification/Clock.thy ===== *)
theory Clock imports Device
begin

section \<open>Version vectors (\<open>crates/sync/src/clock.rs\<close>)\<close>

text \<open>
  A counter for each device, in device order, and the comparison that says whether one
  version has seen another. The counters are \<open>u64\<close>: \<open>increment\<close> adds one and wraps, as the
  release build does. The lemmas show that \<open>compare\<close>, a loop with an early exit over the
  keys of both maps, decides the pointwise order, that \<open>merge\<close> is its least upper bound, and
  that the encoding is read back exactly.
\<close>

datatype causality = Equal | Before | After | Concurrent

datatype version_vector = VersionVector (counters: "(device_id \<times> u64) list")

definition vv_new :: version_vector where
  "vv_new = VersionVector []"

definition vv_get :: "version_vector \<Rightarrow> device_id \<Rightarrow> u64" where
  "vv_get v device = (case bm_get (counters v) device of Some n \<Rightarrow> n | None \<Rightarrow> 0)"

definition increment :: "version_vector \<Rightarrow> device_id \<Rightarrow> version_vector" where
  "increment v device = VersionVector (bm_insert device (vv_get v device + 1) (counters v))"

definition vv_set :: "version_vector \<Rightarrow> device_id \<Rightarrow> u64 \<Rightarrow> version_vector" where
  "vv_set v device n =
     VersionVector (if n = 0 then bm_remove device (counters v)
                    else bm_insert device n (counters v))"

definition vv_is_empty :: "version_vector \<Rightarrow> bool" where
  "vv_is_empty v \<longleftrightarrow> counters v = []"

definition devices :: "version_vector \<Rightarrow> (device_id \<times> u64) list" where
  "devices v = counters v"

definition merge_entry :: "device_id \<times> u64 \<Rightarrow> version_vector \<Rightarrow> version_vector" where
  \<comment> \<open>one turn of the loop: \<open>entry(device).or_insert(0)\<close>, raised to the count\<close>
  "merge_entry = (\<lambda>(device, count) v.
     let slot = vv_get v device
     in VersionVector (bm_insert device (if count > slot then count else slot) (counters v)))"

definition vv_merge :: "version_vector \<Rightarrow> version_vector \<Rightarrow> version_vector" where
  "vv_merge v other = fold merge_entry (counters other) v"

definition merged :: "version_vector \<Rightarrow> version_vector \<Rightarrow> version_vector" where
  "merged v other = vv_merge v other"

fun compare_loop ::
  "version_vector \<Rightarrow> version_vector \<Rightarrow> device_id list \<Rightarrow> bool \<Rightarrow> bool \<Rightarrow> causality" where
  "compare_loop v other [] self_ahead other_ahead =
     (if \<not> self_ahead \<and> \<not> other_ahead then Equal
      else if self_ahead \<and> \<not> other_ahead then After
      else if \<not> self_ahead \<and> other_ahead then Before
      else Concurrent)"
| "compare_loop v other (device # keys) self_ahead other_ahead =
     (let mine = vv_get v device; theirs = vv_get other device;
          self_ahead = (self_ahead \<or> mine > theirs);
          other_ahead = (other_ahead \<or> (\<not> mine > theirs \<and> theirs > mine))
      in if self_ahead \<and> other_ahead then Concurrent
         else compare_loop v other keys self_ahead other_ahead)"

definition vv_compare :: "version_vector \<Rightarrow> version_vector \<Rightarrow> causality" where
  "vv_compare v other =
     compare_loop v other (bm_keys (counters v) @ bm_keys (counters other)) False False"

definition dominates :: "version_vector \<Rightarrow> version_vector \<Rightarrow> bool" where
  "dominates v other \<longleftrightarrow> vv_compare v other = After \<or> vv_compare v other = Equal"

subsection \<open>Encoding\<close>

datatype decode_error = Truncated | LengthMismatch nat nat

definition vv_encode :: "version_vector \<Rightarrow> bytes" where
  "vv_encode v =
     u32_le (length (counters v))
     @ concat (map (\<lambda>(device, counter). as_bytes device @ u64_le counter) (counters v))"

fun decode_entries :: "bytes \<Rightarrow> nat \<Rightarrow> nat \<Rightarrow> (device_id \<times> u64) list \<Rightarrow> (device_id \<times> u64) list"
where
  \<comment> \<open>the loop over the entries, from the \<open>i\<close>th, \<open>n\<close> still to come\<close>
  "decode_entries bs i 0 m = m"
| "decode_entries bs i (Suc n) m =
     (let at = 4 + i * 40;
          ident = take 32 (drop at bs);
          counter = u64_of_le (take 8 (drop (at + 32) bs))
      in decode_entries bs (Suc i) n
           (if counter > 0 then bm_insert (DeviceId ident) counter m else m))"

definition vv_decode :: "bytes \<Rightarrow> decode_error + version_vector" where
  "vv_decode bs =
     (if length bs < 4 then Inl Truncated
      else let count = le_val (take 4 bs); expected = 4 + count * 40
           in if length bs \<noteq> expected then Inl (LengthMismatch expected (length bs))
              else Inr (VersionVector (decode_entries bs 0 count [])))"

subsection \<open>The invariant\<close>

definition vv_ok :: "version_vector \<Rightarrow> bool" where
  \<comment> \<open>the map's keys ascend and no counter is an explicit zero\<close>
  "vv_ok v \<longleftrightarrow> bm_ok (counters v) \<and> (\<forall>(d, n) \<in> set (counters v). n \<noteq> 0)"

definition vv_wire_ok :: "version_vector \<Rightarrow> bool" where
  \<comment> \<open>and the device ids have their length, and the map fits the encoding's count\<close>
  "vv_wire_ok v \<longleftrightarrow> vv_ok v \<and> (\<forall>(d, n) \<in> set (counters v). device_ok d)
     \<and> length (counters v) < 2 ^ 32"

lemma vv_okI:
  "bm_ok (counters v) \<Longrightarrow> (\<And>d n. bm_get (counters v) d = Some n \<Longrightarrow> n \<noteq> 0) \<Longrightarrow> vv_ok v"
  by (auto simp: vv_ok_def dest: bm_get_mem)

lemma vv_ok_bm: "vv_ok v \<Longrightarrow> bm_ok (counters v)"
  by (simp add: vv_ok_def)

lemma vv_ok_nonzero: "vv_ok v \<Longrightarrow> bm_get (counters v) d = Some n \<Longrightarrow> n \<noteq> 0"
  by (auto simp: vv_ok_def dest: bm_mem_get)

lemma vv_get_lookup:
  "vv_ok v \<Longrightarrow> bm_get (counters v) d = (if vv_get v d = 0 then None else Some (vv_get v d))"
  by (auto simp: vv_get_def dest: vv_ok_nonzero split: option.splits)

lemma vv_ext: "vv_ok v \<Longrightarrow> vv_ok w \<Longrightarrow> (\<And>d. vv_get v d = vv_get w d) \<Longrightarrow> v = w"
  by (metis bm_ext version_vector.expand vv_get_lookup vv_ok_bm)

lemma vv_ok_new: "vv_ok vv_new"
  by (simp add: vv_new_def vv_ok_def map_simps)

lemma vv_get_new [simp]: "vv_get vv_new d = 0"
  by (simp add: vv_new_def vv_get_def map_simps)

lemma vv_get_set: "vv_ok v \<Longrightarrow> vv_get (vv_set v d n) e = (if e = d then n else vv_get v e)"
  by (auto simp: vv_get_def vv_set_def map_simps vv_ok_bm)

lemma vv_ok_set: "vv_ok v \<Longrightarrow> vv_ok (vv_set v d n)"
  by (rule vv_okI)
    (auto simp: vv_set_def map_simps vv_ok_bm dest: vv_ok_nonzero split: if_splits)

lemma vv_get_increment:
  "vv_ok v \<Longrightarrow> vv_get (increment v d) e = (if e = d then vv_get v d + 1 else vv_get v e)"
  by (auto simp: vv_get_def increment_def map_simps vv_ok_bm)

lemma vv_ok_increment: "vv_ok v \<Longrightarrow> vv_get v d + 1 \<noteq> 0 \<Longrightarrow> vv_ok (increment v d)"
  by (rule vv_okI)
    (auto simp: increment_def map_simps vv_ok_bm dest: vv_ok_nonzero split: if_splits)

subsection \<open>Merging is the least upper bound\<close>

lemma vv_get_merge_entry:
  "bm_ok (counters v) \<Longrightarrow>
   vv_get (merge_entry (d, n) v) e = (if e = d then max (vv_get v d) n else vv_get v e)"
  by (auto simp: merge_entry_def vv_get_def map_simps Let_def max_def)

lemma bm_ok_merge_entry: "bm_ok (counters v) \<Longrightarrow> bm_ok (counters (merge_entry kv v))"
  by (cases kv) (simp add: merge_entry_def Let_def map_simps)

lemma vv_ok_merge_entry: "vv_ok v \<Longrightarrow> n \<noteq> 0 \<Longrightarrow> vv_ok (merge_entry (d, n) v)"
  by (rule vv_okI)
    (auto simp: merge_entry_def map_simps vv_ok_bm Let_def word_gt_0 dest: vv_ok_nonzero
      split: if_splits)

lemma vv_get_fold_merge:
  "bm_ok (counters v) \<Longrightarrow> distinct (map fst kvs) \<Longrightarrow>
   vv_get (fold merge_entry kvs v) e =
     max (vv_get v e) (case map_of kvs e of Some n \<Rightarrow> n | None \<Rightarrow> 0)"
proof (induction kvs arbitrary: v)
  case Nil
  then show ?case by simp
next
  case (Cons kv kvs)
  obtain d n where kv: "kv = (d, n)" by (cases kv)
  have none: "map_of kvs d = None"
    using Cons.prems(2) by (simp add: kv map_of_eq_None_iff)
  have "vv_get (fold merge_entry kvs (merge_entry kv v)) e =
      max (vv_get (merge_entry kv v) e) (case map_of kvs e of Some n \<Rightarrow> n | None \<Rightarrow> 0)"
    using Cons.prems by (intro Cons.IH) (auto intro: bm_ok_merge_entry)
  then show ?case using Cons.prems(1) none by (auto simp: kv vv_get_merge_entry)
qed

lemma vv_ok_fold_merge:
  "vv_ok v \<Longrightarrow> \<forall>(d, n) \<in> set kvs. n \<noteq> 0 \<Longrightarrow> vv_ok (fold merge_entry kvs v)"
  by (induction kvs arbitrary: v) (auto intro: vv_ok_merge_entry)

lemma vv_get_merged:
  "vv_ok v \<Longrightarrow> vv_ok w \<Longrightarrow> vv_get (merged v w) d = max (vv_get v d) (vv_get w d)"
  unfolding merged_def vv_merge_def
  by (subst vv_get_fold_merge)
    (auto simp: vv_ok_bm bm_ok_distinct vv_get_def bm_get_def split: option.splits)

lemma vv_ok_merged: "vv_ok v \<Longrightarrow> vv_ok w \<Longrightarrow> vv_ok (merged v w)"
  unfolding merged_def vv_merge_def by (rule vv_ok_fold_merge) (auto simp: vv_ok_def)

lemma merged_commute: "vv_ok v \<Longrightarrow> vv_ok w \<Longrightarrow> merged v w = merged w v"
  by (rule vv_ext) (auto simp: vv_ok_merged vv_get_merged max.commute)

lemma merged_assoc:
  "vv_ok u \<Longrightarrow> vv_ok v \<Longrightarrow> vv_ok w \<Longrightarrow> merged (merged u v) w = merged u (merged v w)"
  by (rule vv_ext) (auto simp: vv_ok_merged vv_get_merged max.assoc)

lemma merged_self: "vv_ok v \<Longrightarrow> merged v v = v"
  by (rule vv_ext) (auto simp: vv_ok_merged vv_get_merged)

subsection \<open>Comparison decides the pointwise order\<close>

definition vv_le :: "version_vector \<Rightarrow> version_vector \<Rightarrow> bool" where
  \<comment> \<open>the specification: every counter of the first is at most the second's\<close>
  "vv_le v w \<longleftrightarrow> (\<forall>d. vv_get v d \<le> vv_get w d)"

definition causality_of :: "bool \<Rightarrow> bool \<Rightarrow> causality" where
  "causality_of self_ahead other_ahead =
     (if self_ahead then (if other_ahead then Concurrent else After)
      else (if other_ahead then Before else Equal))"

lemma compare_loop_eq:
  "\<not> (sa \<and> oa) \<Longrightarrow> compare_loop v w keys sa oa =
     causality_of (sa \<or> (\<exists>d \<in> set keys. vv_get v d > vv_get w d))
                  (oa \<or> (\<exists>d \<in> set keys. vv_get w d > vv_get v d))"
proof (induction keys arbitrary: sa oa)
  case Nil
  then show ?case by (auto simp: causality_of_def)
next
  case (Cons d keys)
  define sa' where "sa' \<longleftrightarrow> sa \<or> vv_get v d > vv_get w d"
  define oa' where "oa' \<longleftrightarrow> oa \<or> (\<not> vv_get v d > vv_get w d \<and> vv_get w d > vv_get v d)"
  have step: "compare_loop v w (d # keys) sa oa =
      (if sa' \<and> oa' then Concurrent else compare_loop v w keys sa' oa')"
    by (simp add: sa'_def oa'_def Let_def)
  show ?case
  proof (cases "sa' \<and> oa'")
    case True
    then show ?thesis unfolding step by (auto simp: sa'_def oa'_def causality_of_def)
  next
    case False
    then have "compare_loop v w (d # keys) sa oa = compare_loop v w keys sa' oa'"
      unfolding step by (rule if_not_P)
    also have "\<dots> = causality_of (sa' \<or> (\<exists>d \<in> set keys. vv_get v d > vv_get w d))
        (oa' \<or> (\<exists>d \<in> set keys. vv_get w d > vv_get v d))"
      by (rule Cons.IH [OF False])
    also have "\<dots> = causality_of (sa \<or> (\<exists>d \<in> set (d # keys). vv_get v d > vv_get w d))
        (oa \<or> (\<exists>d \<in> set (d # keys). vv_get w d > vv_get v d))"
      by (rule arg_cong2 [where f = causality_of])
        (auto simp: sa'_def oa'_def dest: less_not_sym)
    finally show ?thesis .
  qed
qed

lemma vv_get_outside:
  "d \<notin> set (bm_keys (counters v)) \<Longrightarrow> vv_get v d = 0"
  by (simp add: vv_get_def bm_get_None_iff [THEN iffD2])

lemma vv_compare_eq:
  "vv_compare v w = causality_of (\<not> vv_le v w) (\<not> vv_le w v)"
proof -
  define keys where "keys = bm_keys (counters v) @ bm_keys (counters w)"
  have outside: "vv_get v d = 0 \<and> vv_get w d = 0" if "d \<notin> set keys" for d
    using that by (auto simp: keys_def intro: vv_get_outside)
  have "(\<exists>d \<in> set keys. vv_get v d > vv_get w d) \<longleftrightarrow> \<not> vv_le v w"
    and "(\<exists>d \<in> set keys. vv_get w d > vv_get v d) \<longleftrightarrow> \<not> vv_le w v"
    unfolding vv_le_def not_all not_le using outside by (metis less_irrefl)+
  then show ?thesis
    unfolding vv_compare_def keys_def [symmetric] by (subst compare_loop_eq) auto
qed

lemma vv_le_refl [simp]: "vv_le v v"
  by (simp add: vv_le_def)

lemma vv_le_trans: "vv_le u v \<Longrightarrow> vv_le v w \<Longrightarrow> vv_le u w"
  unfolding vv_le_def by (meson order_trans)

lemma vv_le_antisym: "vv_ok v \<Longrightarrow> vv_ok w \<Longrightarrow> vv_le v w \<Longrightarrow> vv_le w v \<Longrightarrow> v = w"
  by (rule vv_ext) (auto simp: vv_le_def intro: antisym)

lemma compare_cases:
  "vv_compare v w = Equal \<longleftrightarrow> vv_le v w \<and> vv_le w v"
  "vv_compare v w = Before \<longleftrightarrow> vv_le v w \<and> \<not> vv_le w v"
  "vv_compare v w = After \<longleftrightarrow> vv_le w v \<and> \<not> vv_le v w"
  "vv_compare v w = Concurrent \<longleftrightarrow> \<not> vv_le v w \<and> \<not> vv_le w v"
  by (auto simp: vv_compare_eq causality_of_def)

lemma compare_Equal_iff: "vv_ok v \<Longrightarrow> vv_ok w \<Longrightarrow> vv_compare v w = Equal \<longleftrightarrow> v = w"
  by (auto simp: compare_cases intro: vv_le_antisym)

lemma dominates_iff: "dominates v w \<longleftrightarrow> vv_le w v"
  by (auto simp: dominates_def compare_cases)

lemma vv_le_merged:
  assumes "vv_ok v" and "vv_ok w"
  shows "vv_le v (merged v w)" and "vv_le w (merged v w)"
    and "vv_le v u \<Longrightarrow> vv_le w u \<Longrightarrow> vv_le (merged v w) u"
  using assms by (auto simp: vv_le_def vv_get_merged)

text \<open>The loop with its early exit decides the pointwise order of the two vectors.\<close>

lemma compare_decides_causality:
  "vv_compare v w =
     (if vv_le v w then (if vv_le w v then Equal else Before)
      else (if vv_le w v then After else Concurrent))"
  by (auto simp: vv_compare_eq causality_of_def)

text \<open>Merging keeps the higher count of each device and is the least vector that has
  seen both sides, so a resolution that carries it supersedes each of them.\<close>

lemma merge_is_least_upper_bound:
  assumes "vv_ok v" and "vv_ok w"
  shows "vv_ok (merged v w) \<and> merged v w = merged w v
    \<and> (\<forall>d. vv_get (merged v w) d = max (vv_get v d) (vv_get w d))
    \<and> (\<forall>u. dominates u (merged v w) = (dominates u v \<and> dominates u w))"
  using assms vv_le_merged [OF assms]
  by (auto simp: dominates_iff vv_get_merged vv_ok_merged merged_commute intro: vv_le_trans)

subsection \<open>The encoding\<close>

definition entry_bytes :: "device_id \<times> u64 \<Rightarrow> bytes" where
  "entry_bytes = (\<lambda>(device, counter). as_bytes device @ u64_le counter)"

lemma length_entry_bytes: "device_ok d \<Longrightarrow> length (entry_bytes (d, n)) = 40"
  by (simp add: entry_bytes_def device_ok_def)

lemma length_entries:
  "\<forall>(d, n) \<in> set kvs. device_ok d \<Longrightarrow> length (concat (map entry_bytes kvs)) = 40 * length kvs"
  by (induction kvs) (auto simp: length_entry_bytes)

lemma decode_entries_app:
  "\<forall>(d, n) \<in> set kvs. device_ok d \<and> n \<noteq> 0 \<Longrightarrow> length pre = 4 + i * 40 \<Longrightarrow>
   decode_entries (pre @ concat (map entry_bytes kvs)) i (length kvs) m =
     fold (\<lambda>(k, v). bm_insert k v) kvs m"
proof (induction kvs arbitrary: pre i m)
  case Nil
  then show ?case by simp
next
  case (Cons kv kvs)
  obtain d n where kv: "kv = (d, n)" by (cases kv)
  from Cons.prems have d: "length (as_bytes d) = 32" and n: "n > 0"
    by (auto simp: kv device_ok_def word_gt_0)
  let ?bs = "pre @ concat (map entry_bytes (kv # kvs))"
  have ident: "take 32 (drop (4 + i * 40) ?bs) = as_bytes d"
    and counter: "take 8 (drop (4 + i * 40 + 32) ?bs) = u64_le n"
    using Cons.prems(2) d by (simp_all add: kv entry_bytes_def)
  have "decode_entries ?bs i (length (kv # kvs)) m
      = decode_entries ?bs (Suc i) (length kvs) (bm_insert d n m)"
    using n by (simp add: ident [simplified] counter [simplified] Let_def)
  also have "?bs = (pre @ entry_bytes kv) @ concat (map entry_bytes kvs)" by simp
  also have "decode_entries \<dots> (Suc i) (length kvs) (bm_insert d n m)
      = fold (\<lambda>(k, v). bm_insert k v) kvs (bm_insert d n m)"
    using Cons.prems d by (intro Cons.IH) (auto simp: kv entry_bytes_def)
  finally show ?case by (simp add: kv)
qed

lemma vv_encode_eq: "vv_encode v = u32_le (length (counters v)) @ concat (map entry_bytes (counters v))"
  by (simp add: vv_encode_def entry_bytes_def)

lemma length_vv_encode: "vv_wire_ok v \<Longrightarrow> length (vv_encode v) = 4 + 40 * length (counters v)"
  by (simp add: vv_encode_eq vv_wire_ok_def length_entries)

lemma vv_decode_encode: "vv_wire_ok v \<Longrightarrow> vv_decode (vv_encode v) = Inr v"
proof -
  assume ok: "vv_wire_ok v"
  let ?kvs = "counters v"
  have kvs: "\<forall>(d, n) \<in> set ?kvs. device_ok d \<and> n \<noteq> 0"
    using ok by (auto simp: vv_wire_ok_def vv_ok_def)
  have "decode_entries (vv_encode v) 0 (length ?kvs) [] = bm_collect ?kvs"
    unfolding vv_encode_eq bm_collect_def using kvs by (intro decode_entries_app) simp_all
  moreover have "bm_collect ?kvs = ?kvs"
    using ok by (intro bm_collect_sorted) (simp add: vv_wire_ok_def vv_ok_def)
  moreover have "le_val (take 4 (vv_encode v)) = length ?kvs"
    using ok by (simp add: vv_encode_eq vv_wire_ok_def le_val_u32_le)
  ultimately show ?thesis
    using length_vv_encode [OF ok] by (simp add: vv_decode_def)
qed

lemma decode_entries_ok:
  "bm_ok m \<Longrightarrow> \<forall>(d, c) \<in> set m. device_ok d \<and> c \<noteq> 0 \<Longrightarrow> 4 + (i + n) * 40 \<le> length bs \<Longrightarrow>
   bm_ok (decode_entries bs i n m)
   \<and> (\<forall>(d, c) \<in> set (decode_entries bs i n m). device_ok d \<and> c \<noteq> 0)
   \<and> length (decode_entries bs i n m) \<le> length m + n"
proof (induction bs i n m rule: decode_entries.induct)
  case (1 bs i m)
  then show ?case by simp
next
  case (2 bs i n m)
  define ident where "ident = DeviceId (take 32 (drop (4 + i * 40) bs))"
  define counter where "counter = u64_of_le (take 8 (drop (4 + i * 40 + 32) bs))"
  define m' where "m' = (if counter > 0 then bm_insert ident counter m else m)"
  have d: "device_ok ident" using "2.prems"(3) by (simp add: ident_def device_ok_def)
  have sub: "set (bm_insert k v m) \<subseteq> insert (k, v) (set m)"
    and len: "length (bm_insert k v m) \<le> Suc (length m)" for k and v :: u64
    by (induction k v m rule: bm_insert.induct) auto
  have "decode_entries bs (Suc i) n m' = decode_entries bs i (Suc n) m"
    by (simp add: m'_def ident_def counter_def Let_def)
  moreover have "bm_ok m'" and "\<forall>(d, c) \<in> set m'. device_ok d \<and> c \<noteq> 0"
    and "length m' \<le> Suc (length m)"
    using "2.prems" d sub len
    by (auto simp: m'_def intro: bm_ok_insert dest!: subsetD [OF sub] split: if_splits)
  moreover have "4 + (Suc i + n) * 40 \<le> length bs" using "2.prems"(3) by simp
  moreover note "2.IH" [OF refl refl refl,
    folded ident_def counter_def, folded m'_def]
  ultimately show ?case by fastforce
qed

lemma vv_decode_ok: "vv_decode bs = Inr v \<Longrightarrow> vv_wire_ok v"
proof -
  assume dec: "vv_decode bs = Inr v"
  define count where "count = le_val (take 4 bs)"
  from dec have v: "v = VersionVector (decode_entries bs 0 count [])"
    and len: "length bs = 4 + count * 40"
    by (auto simp: vv_decode_def count_def Let_def split: if_splits)
  have "count < 2 ^ 32"
    using le_val_lt [of "take 4 bs"] len by (simp add: count_def)
  then show ?thesis
    using decode_entries_ok [of "[]" 0 count bs] len
    by (auto simp: v vv_wire_ok_def vv_ok_def map_simps)
qed

subsection \<open>Sample vectors\<close>

definition sample_vector :: "u8 \<Rightarrow> u64 \<Rightarrow> version_vector" where
  "sample_vector d n = VersionVector [(DeviceId (replicate 32 d), n)]"

lemma sample_vector_ok: "n \<noteq> 0 \<Longrightarrow> vv_wire_ok (sample_vector d n)"
  by (simp add: sample_vector_def vv_wire_ok_def vv_ok_def bm_ok_def device_ok_def)

lemma sample_vector_vv_ok: "n \<noteq> 0 \<Longrightarrow> vv_ok (sample_vector d n)"
  using sample_vector_ok by (simp add: vv_wire_ok_def)

lemma merge_is_least_upper_bound_witness:
  "vv_get (merged (sample_vector 1 5) (sample_vector 1 7)) (DeviceId (replicate 32 1)) = 7
   \<and> dominates (sample_vector 1 9) (merged (sample_vector 1 5) (sample_vector 1 7))"
proof -
  have ok: "vv_ok (sample_vector 1 5)" "vv_ok (sample_vector 1 7)"
    by (simp_all add: sample_vector_vv_ok)
  have lub: "\<forall>d. vv_get (merged (sample_vector 1 5) (sample_vector 1 7)) d =
      max (vv_get (sample_vector 1 5) d) (vv_get (sample_vector 1 7) d)"
    "\<forall>u. dominates u (merged (sample_vector 1 5) (sample_vector 1 7)) =
      (dominates u (sample_vector 1 5) \<and> dominates u (sample_vector 1 7))"
    using merge_is_least_upper_bound [OF ok] by blast+
  have "dominates (sample_vector 1 9) (sample_vector 1 5)"
    and "dominates (sample_vector 1 9) (sample_vector 1 7)"
    and "vv_get (sample_vector 1 5) (DeviceId (replicate 32 1)) = 5"
    and "vv_get (sample_vector 1 7) (DeviceId (replicate 32 1)) = 7" by code_simp+
  with lub show ?thesis by simp
qed

subsection \<open>The device's own counter\<close>

text \<open>Recording a change makes a version that supersedes the one it was made from, and one
  that no version made without it has seen. Past \<open>u64\<close>'s last count the counter wraps to an
  explicit zero and the new version reads as an ancestor of the old.\<close>

lemma increment_supersedes:
  assumes "vv_ok v"
  shows "if vv_get v d = - 1
     then vv_compare (increment v d) v = Before \<and> vv_compare v (increment v d) = After
     else vv_ok (increment v d) \<and> vv_compare (increment v d) v = After
       \<and> (\<forall>w. vv_get w d \<le> vv_get v d \<longrightarrow> \<not> dominates w (increment v d))"
proof -
  have get: "vv_get (increment v d) e = (if e = d then vv_get v d + 1 else vv_get v e)" for e
    by (rule vv_get_increment [OF assms])
  show ?thesis
  proof (cases "vv_get v d = - 1")
    case True
    have le: "vv_le (increment v d) v" by (auto simp: vv_le_def get True)
    have "\<not> vv_le v (increment v d)"
      using get [of d] by (auto simp: vv_le_def True intro!: exI [of _ d])
    with le True show ?thesis by (simp add: vv_compare_eq causality_of_def)
  next
    case False
    then have nz: "vv_get v d + 1 \<noteq> 0" by (metis add_eq_0_iff2 minus_equation_iff)
    then have more: "vv_get v d < vv_get v d + 1"
      using unatSuc [of "vv_get v d"] by (simp add: word_less_nat_alt add.commute)
    have le: "vv_le v (increment v d)" using more by (auto simp: vv_le_def get)
    have "\<not> vv_le (increment v d) w" if "vv_get w d \<le> vv_get v d" for w
      using that more get [of d] by (auto simp: vv_le_def not_le intro!: exI [of _ d])
    then show ?thesis
      using False le vv_ok_increment [OF assms nz]
      by (auto simp: vv_compare_eq causality_of_def dominates_iff)
  qed
qed

lemma increment_supersedes_witness:
  "vv_compare (increment (sample_vector 1 5) (DeviceId (replicate 32 1))) (sample_vector 1 5) = After
   \<and> vv_compare (increment (sample_vector 1 (- 1)) (DeviceId (replicate 32 1)))
       (sample_vector 1 (- 1)) = Before"
proof -
  have "vv_get (sample_vector 1 5) (DeviceId (replicate 32 1)) = 5"
    and "vv_get (sample_vector 1 (- 1)) (DeviceId (replicate 32 1)) = - 1" by code_simp+
  with increment_supersedes [OF sample_vector_vv_ok [of 5 1], of "DeviceId (replicate 32 1)"]
    increment_supersedes [OF sample_vector_vv_ok [of "- 1" 1], of "DeviceId (replicate 32 1)"]
  show ?thesis by simp
qed

text \<open>A vector's encoding is read back as that vector, in 4 bytes and 40 for each device;
  whatever bytes decode give a vector that keeps the invariant and reads back from its own
  encoding; and no proper prefix or extension of an encoding decodes.\<close>

lemma vector_encoding_round_trip:
  assumes "vv_wire_ok v"
  shows "vv_decode (vv_encode v) = Inr v
    \<and> length (vv_encode v) = 4 + 40 * length (counters v)
    \<and> (\<forall>bs w. vv_decode bs = Inr w \<longrightarrow> vv_wire_ok w \<and> vv_decode (vv_encode w) = Inr w)
    \<and> (\<forall>bs. bs \<noteq> [] \<longrightarrow> vv_decode (vv_encode v @ bs)
          = Inl (LengthMismatch (length (vv_encode v)) (length (vv_encode v @ bs))))
    \<and> (\<forall>n < length (vv_encode v). \<exists>e. vv_decode (take n (vv_encode v)) = Inl e)"
proof -
  have count: "le_val (take 4 (vv_encode v @ bs)) = length (counters v)" for bs
    using assms by (simp add: vv_encode_eq vv_wire_ok_def le_val_u32_le)
  have "vv_decode (vv_encode v @ bs)
      = Inl (LengthMismatch (length (vv_encode v)) (length (vv_encode v @ bs)))" if "bs \<noteq> []" for bs
    using that count [of bs] length_vv_encode [OF assms] by (simp add: vv_decode_def Let_def)
  moreover have "\<exists>e. vv_decode (take n (vv_encode v)) = Inl e" if "n < length (vv_encode v)" for n
    using that count [of "[]"] length_vv_encode [OF assms]
    by (auto simp: vv_decode_def Let_def min_def)
  ultimately show ?thesis
    using vv_decode_encode [OF assms] length_vv_encode [OF assms] vv_decode_ok vv_decode_encode
    by blast
qed

lemma vector_encoding_round_trip_witness:
  "vv_decode (vv_encode (sample_vector 1 5)) = Inr (sample_vector 1 5)
   \<and> (\<exists>e. vv_decode (take 43 (vv_encode (sample_vector 1 5))) = Inl e)"
proof -
  have ok: "vv_wire_ok (sample_vector 1 5)" by (rule sample_vector_ok) simp
  have "length (vv_encode (sample_vector 1 5)) = 44" by code_simp
  then have "43 < length (vv_encode (sample_vector 1 5))" by linarith
  with vector_encoding_round_trip [OF ok] show ?thesis by blast
qed

end
