(* ===== verification/Version.thy ===== *)
theory Version imports Clock
begin

section \<open>Paths and versions (\<open>crates/sync/src/path.rs\<close>, \<open>version.rs\<close>)\<close>

text \<open>
  Which paths another device may name, and what a device believes about one file: the
  content a path holds or a tombstone, its version vector, and the area the receiver files
  it under. The specification of a safe path is lexical: joined onto any directory and
  normalised component by component, it stays below that directory.
\<close>

subsection \<open>Safe paths\<close>

definition is_safe_path :: "string \<Rightarrow> bool" where
  "is_safe_path p =
     (if p = [] \<or> starts_with p ''/'' \<or> CHR 0x00 \<in> set p then False
      else list_all (\<lambda>component. component \<notin> {'''', ''.'', ''..''}) (split_on CHR ''/'' p))"

fun walk :: "string list \<Rightarrow> string list \<Rightarrow> string list option" where
  \<comment> \<open>what following the components from a directory comes to; \<open>None\<close> above the root\<close>
  "walk dir [] = Some dir"
| "walk dir (c # cs) =
     (if c = [] \<or> c = ''.'' then walk dir cs
      else if c = ''..'' then (if dir = [] then None else walk (butlast dir) cs)
      else walk (dir @ [c]) cs)"

definition join_path :: "string list \<Rightarrow> string \<Rightarrow> string list option" where
  \<comment> \<open>\<open>Path::join\<close> onto a directory, then followed: an absolute path replaces it\<close>
  "join_path dir p =
     walk (if starts_with p ''/'' then [] else dir) (split_on CHR ''/'' p)"

lemma walk_plain:
  "list_all (\<lambda>c. c \<notin> {'''', ''.'', ''..''}) cs \<Longrightarrow> walk dir cs = Some (dir @ cs)"
  by (induction cs arbitrary: dir) auto

lemma is_safe_pathD:
  assumes "is_safe_path p"
  shows "p \<noteq> []" and "\<not> starts_with p ''/''" and "CHR 0x00 \<notin> set p"
    and "list_all (\<lambda>c. c \<notin> {'''', ''.'', ''..''}) (split_on CHR ''/'' p)"
  using assms by (auto simp: is_safe_path_def split: if_splits)

lemma last_split_on: "split_on x (s @ x # t) = ss \<Longrightarrow> x \<notin> set t \<Longrightarrow> last ss = t"
  using split_on_append_sep [of x s t] by (auto simp: split_on_absent)

text \<open>A path the check lets through, joined onto any directory, names something strictly
  inside it, and exactly the path's own components below it.\<close>

lemma safe_path_stays_inside:
  assumes "is_safe_path p"
  shows "join_path dir p = Some (dir @ split_on CHR ''/'' p) \<and> split_on CHR ''/'' p \<noteq> []
    \<and> join_on ''/'' (split_on CHR ''/'' p) = p"
  using is_safe_pathD [OF assms] by (simp add: join_path_def walk_plain join_split)

lemma safe_path_stays_inside_witness:
  "join_path [''home'', ''u''] ''a/b.txt'' = Some [''home'', ''u'', ''a'', ''b.txt'']"
proof -
  have "is_safe_path ''a/b.txt''" by (simp add: is_safe_path_def starts_with_def)
  from safe_path_stays_inside [OF this, of "[''home'', ''u'']"] show ?thesis by simp
qed

subsection \<open>Content, areas and versions\<close>

datatype content =
    File (file_hash: bytes) (file_size: u64)
  | Deleted

definition content_is_deleted :: "content \<Rightarrow> bool" where
  "content_is_deleted c = (case c of Deleted \<Rightarrow> True | _ \<Rightarrow> False)"

definition content_hash :: "content \<Rightarrow> bytes option" where
  "content_hash c = (case c of File hash _ \<Rightarrow> Some hash | Deleted \<Rightarrow> None)"

datatype area = Shared | Sent | Held | Hold

definition is_private :: "area \<Rightarrow> bool" where
  "is_private a \<longleftrightarrow> a \<noteq> Shared"

fun area_to_byte :: "area \<Rightarrow> u8" where
  "area_to_byte Shared = 0"
| "area_to_byte Sent = 1"
| "area_to_byte Held = 2"
| "area_to_byte Hold = 3"

definition area_from_byte :: "u8 \<Rightarrow> area option" where
  "area_from_byte b =
     (if b = 0 then Some Shared
      else if b = 1 then Some Sent
      else if b = 2 then Some Held
      else if b = 3 then Some Hold
      else None)"

record file_version =
  path :: string
  content :: content
  vector :: version_vector
  modified_by :: device_id
  modified_at :: i64
  area :: area

definition file_of :: "string \<Rightarrow> bytes \<Rightarrow> u64 \<Rightarrow> version_vector \<Rightarrow> device_id \<Rightarrow> i64 \<Rightarrow> file_version" where
  "file_of p hash bytes v by_device at =
     \<lparr>path = p, content = File hash bytes, vector = v, modified_by = by_device,
      modified_at = at, area = Shared\<rparr>"

definition tombstone :: "string \<Rightarrow> version_vector \<Rightarrow> device_id \<Rightarrow> i64 \<Rightarrow> file_version" where
  "tombstone p v by_device at =
     \<lparr>path = p, content = Deleted, vector = v, modified_by = by_device,
      modified_at = at, area = Shared\<rparr>"

definition is_deleted :: "file_version \<Rightarrow> bool" where
  "is_deleted v = content_is_deleted (content v)"

definition same_content :: "file_version \<Rightarrow> file_version \<Rightarrow> bool" where
  "same_content v other \<longleftrightarrow> content v = content other"

definition in_area :: "file_version \<Rightarrow> area \<Rightarrow> file_version" where
  "in_area v a = v\<lparr>area := a\<rparr>"

lemma area_from_to_byte [simp]: "area_from_byte (area_to_byte a) = Some a"
  by (cases a) (simp_all add: area_from_byte_def)

lemma area_to_from_byte: "area_from_byte b = Some a \<Longrightarrow> area_to_byte a = b"
  by (auto simp: area_from_byte_def split: if_splits)

lemma is_deleted_iff: "is_deleted v \<longleftrightarrow> content v = Deleted"
  by (simp add: is_deleted_def content_is_deleted_def split: content.splits)

lemma content_hash_None_iff: "content_hash c = None \<longleftrightarrow> c = Deleted"
  by (cases c) (simp_all add: content_hash_def)

end
