(* ===== verification/Calendar.thy ===== *)
theory Calendar imports Rust_Str
begin

section \<open>Calendar dates for conflict names (\<open>crates/sync/src/resolve.rs\<close>)\<close>

text \<open>
  \<open>format_utc\<close> and Hinnant's \<open>civil_from_days\<close>. An \<open>i64\<close> of seconds gives at most some
  hundred million million days, so nothing in the computation overflows and it is done over \<open>int\<close>.
  The specification counts days the Gregorian way, independently of the algorithm:
  \<open>days_before_year\<close> and \<open>days_before_month\<close>. The closed form for the year of an era is
  checked at the first and last day of each of its 400 years and carried between them by
  monotonicity.
\<close>

subsection \<open>Formatting numbers\<close>

fun show_nat :: "nat \<Rightarrow> string" where
  "show_nat n =
     (if n < 10 then [char_of (48 + n)] else show_nat (n div 10) @ [char_of (48 + n mod 10)])"

declare show_nat.simps [simp del]

definition pad0 :: "nat \<Rightarrow> string \<Rightarrow> string" where
  "pad0 w s = replicate (w - length s) CHR ''0'' @ s"

definition fmt_pad :: "nat \<Rightarrow> int \<Rightarrow> string" where
  \<comment> \<open>\<open>format!("{z:0w}")\<close>: the sign counts towards the width\<close>
  "fmt_pad w z =
     (if z < 0 then CHR ''-'' # pad0 (w - 1) (show_nat (nat (- z)))
      else pad0 w (show_nat (nat z)))"

subsection \<open>The code\<close>

definition civil_from_days :: "int \<Rightarrow> int \<times> int \<times> int" where
  "civil_from_days days =
     (let z = days + 719468;
          era = z div 146097;
          doe = z mod 146097;
          yoe = (doe - doe div 1460 + doe div 36524 - doe div 146096) div 365;
          y = yoe + era * 400;
          doy = doe - (365 * yoe + yoe div 4 - yoe div 100);
          mp = (5 * doy + 2) div 153;
          d = doy - (153 * mp + 2) div 5 + 1;
          m = (if mp < 10 then mp + 3 else mp - 9)
      in (if m \<le> 2 then y + 1 else y, m, d))"

definition format_utc :: "i64 \<Rightarrow> string" where
  "format_utc unix_seconds =
     (let days = sint unix_seconds div 86400;
          secs = sint unix_seconds mod 86400
      in case civil_from_days days of (y, m, d) \<Rightarrow>
           fmt_pad 4 y @ ''-'' @ fmt_pad 2 m @ ''-'' @ fmt_pad 2 d @ ''-''
           @ fmt_pad 2 (secs div 3600) @ fmt_pad 2 (secs mod 3600 div 60)
           @ fmt_pad 2 (secs mod 60))"

subsection \<open>The Gregorian calendar\<close>

definition leap_year :: "int \<Rightarrow> bool" where
  "leap_year y \<longleftrightarrow> y mod 4 = 0 \<and> (y mod 100 \<noteq> 0 \<or> y mod 400 = 0)"

definition days_in_month :: "int \<Rightarrow> int \<Rightarrow> int" where
  "days_in_month y m =
     (if m = 2 then (if leap_year y then 29 else 28)
      else if m \<in> {4, 6, 9, 11} then 30 else 31)"

definition days_before_year :: "int \<Rightarrow> int" where
  \<comment> \<open>days from the first of January of year 1 to that of \<open>y\<close>\<close>
  "days_before_year y =
     365 * (y - 1) + (y - 1) div 4 - (y - 1) div 100 + (y - 1) div 400"

definition days_before_month :: "int \<Rightarrow> int \<Rightarrow> int" where
  "days_before_month y m = (\<Sum>k = 1..m - 1. days_in_month y k)"

definition day_number :: "int \<Rightarrow> int \<Rightarrow> int \<Rightarrow> int" where
  \<comment> \<open>days since the first of January 1970\<close>
  "day_number y m d = days_before_year y - 719162 + days_before_month y m + d - 1"

lemma div_pred:
  assumes "0 < k"
  shows "(y :: int) div k = (y - 1) div k + (if y mod k = 0 then 1 else 0)"
proof (cases "y mod k = 0")
  case True
  then have "k * (y div k) = y" using mult_div_mod_eq [of k y] by simp
  then have "y - 1 = k * (y div k - 1) + (k - 1)" by (simp add: right_diff_distrib)
  then have "(y - 1) div k = y div k - 1"
    using assms by (intro int_div_pos_eq [of _ _ _ "k - 1"]) auto
  with True show ?thesis by simp
next
  case False
  then have "0 < y mod k" using assms pos_mod_sign [of k y] by linarith
  then have "(y - 1) div k = y div k"
    using assms pos_mod_bound [OF assms, of y]
    by (intro int_div_pos_eq [of _ _ _ "y mod k - 1"]) (auto simp: algebra_simps)
  with False show ?thesis by simp
qed

lemma days_before_year_step:
  "days_before_year (y + 1) = days_before_year y + (if leap_year y then 366 else 365)"
proof -
  have "y mod 100 mod 4 = y mod 4" and "y mod 400 mod 100 = y mod 100"
    by (simp_all add: mod_mod_cancel)
  then have down: "y mod 100 = 0 \<longrightarrow> y mod 4 = 0" "y mod 400 = 0 \<longrightarrow> y mod 100 = 0"
    by auto
  have steps: "y div 4 = (y - 1) div 4 + (if y mod 4 = 0 then 1 else 0)"
    "y div 100 = (y - 1) div 100 + (if y mod 100 = 0 then 1 else 0)"
    "y div 400 = (y - 1) div 400 + (if y mod 400 = 0 then 1 else 0)"
    by (rule div_pred, simp)+
  have arith: "365 * y + y4 - y100 + y400
      = 365 * (y - 1) + p4 - p100 + p400 + (if y mod 4 = 0 \<and> (y mod 100 \<noteq> 0 \<or> y mod 400 = 0)
          then 366 else 365)"
    if "y4 = p4 + (if y mod 4 = 0 then 1 else 0)"
      "y100 = p100 + (if y mod 100 = 0 then 1 else 0)"
      "y400 = p400 + (if y mod 400 = 0 then 1 else 0)" for y4 y100 y400 p4 p100 p400 :: int
    using down unfolding that by (cases "y mod 4 = 0"; cases "y mod 100 = 0"; cases "y mod 400 = 0") simp_all
  show ?thesis
    unfolding days_before_year_def leap_year_def add_diff_cancel_right'
    by (rule arith) (rule steps)+
qed

subsection \<open>The year of an era\<close>

definition era_start :: "int \<Rightarrow> int" where
  \<comment> \<open>days of an era before its \<open>yoe\<close>th year, which begins in March\<close>
  "era_start yoe = 365 * yoe + yoe div 4 - yoe div 100"

definition era_num :: "int \<Rightarrow> int" where
  "era_num doe = doe - doe div 1460 + doe div 36524 - doe div 146096"

lemma era_num_mono_step: "0 \<le> doe \<Longrightarrow> doe < 146096 \<Longrightarrow> era_num doe \<le> era_num (doe + 1)"
proof -
  assume "0 \<le> doe" and "doe < 146096"
  have s: "(doe + 1) div k = doe div k + (if (doe + 1) mod k = 0 then 1 else 0)" if "0 < k" for k
    using div_pred [OF that, of "doe + 1"] by simp
  show ?thesis
  proof (cases "(doe + 1) mod 146096 = 0")
    case True
    then have "doe = 146095" using \<open>0 \<le> doe\<close> \<open>doe < 146096\<close>
      by (cases "doe + 1 < 146096") auto
    then show ?thesis by (simp add: era_num_def)
  next
    case False
    have arith: "doe - a + b - c \<le> doe + 1 - a' + b' - c'"
      if "a' = a + (if p then 1 else 0)" "b' = b + (if q then 1 else 0)" "c' = c"
      for a a' b b' c c' :: int and p q
      using that by (auto split: if_splits)
    show ?thesis unfolding era_num_def
      by (rule arith) (rule s, simp, rule s, simp, use s [of 146096] False in simp)
  qed
qed

lemma era_num_mono: "a \<le> b \<Longrightarrow> 0 \<le> a \<Longrightarrow> b \<le> 146096 \<Longrightarrow> era_num a \<le> era_num b"
proof (induction b rule: int_ge_induct)
  case base
  then show ?case by simp
next
  case (step b)
  then show ?case using era_num_mono_step [of b] by linarith
qed

definition era_year_ok :: "int \<Rightarrow> bool" where
  "era_year_ok y \<longleftrightarrow>
     era_num (era_start y) div 365 = y
     \<and> era_num (if y = 399 then 146096 else era_start (y + 1) - 1) div 365 = y"

lemma era_years_checked: "list_all era_year_ok [0..399]"
  by code_simp

lemma era_start_step: "0 \<le> y \<Longrightarrow> era_start y < era_start (y + 1)"
  using div_pred [of 4 "y + 1"] div_pred [of 100 "y + 1"]
  by (auto simp: era_start_def)

lemma era_start_bound: "0 \<le> y \<Longrightarrow> era_start y \<le> 366 * y"
proof -
  assume "0 \<le> y"
  then have "y div 4 \<le> y" and "0 \<le> y div 100" by presburger+
  then show ?thesis by (simp add: era_start_def)
qed

lemma era_year_exists:
  assumes "0 \<le> doe" and "doe \<le> 146096"
  shows "\<exists>y. 0 \<le> y \<and> y \<le> 399 \<and> era_start y \<le> doe \<and> (y = 399 \<or> doe < era_start (y + 1))"
proof -
  have up: "\<exists>y. 0 \<le> y \<and> y \<le> n \<and> era_start y \<le> doe \<and> (y = n \<or> doe < era_start (y + 1))"
    if "0 \<le> n" for n
    using that
  proof (induction n rule: int_ge_induct)
    case base
    then show ?case using assms by (auto simp: era_start_def intro: exI [of _ 0])
  next
    case (step n)
    then obtain y where y: "0 \<le> y" "y \<le> n" "era_start y \<le> doe" "y = n \<or> doe < era_start (y + 1)"
      by blast
    show ?case
    proof (cases "doe < era_start (y + 1)")
      case True
      with y show ?thesis by (intro exI [of _ y]) auto
    next
      case False
      with y show ?thesis by (intro exI [of _ "n + 1"]) auto
    qed
  qed
  from up [of 399] show ?thesis by simp
qed

lemma era_year:
  assumes "0 \<le> doe" and "doe \<le> 146096"
  defines "yoe \<equiv> era_num doe div 365"
  shows "0 \<le> yoe \<and> yoe \<le> 399 \<and> era_start yoe \<le> doe \<and> (yoe = 399 \<or> doe < era_start (yoe + 1))"
proof -
  obtain y where y: "0 \<le> y" "y \<le> 399" "era_start y \<le> doe" "y = 399 \<or> doe < era_start (y + 1)"
    using era_year_exists [OF assms(1,2)] by blast
  define top where "top = (if y = 399 then 146096 else era_start (y + 1) - 1)"
  have ok: "era_num (era_start y) div 365 = y" "era_num top div 365 = y"
    using era_years_checked y by (auto simp: list_all_iff era_year_ok_def top_def)
  have start: "0 \<le> era_start y" using y(1) by (simp add: era_start_def)
  have "doe \<le> top" "top \<le> 146096"
    using y assms(2) era_start_bound [of "y + 1"] by (auto simp: top_def)
  with start y(3) have "era_num (era_start y) \<le> era_num doe" "era_num doe \<le> era_num top"
    using assms by (auto intro: era_num_mono)
  then have "era_num (era_start y) div 365 \<le> yoe" "yoe \<le> era_num top div 365"
    unfolding yoe_def by (auto intro: zdiv_mono1)
  with ok have "yoe = y" by simp
  with y show ?thesis by simp
qed

subsection \<open>The month of a year that begins in March\<close>

definition month_of_doy :: "int \<Rightarrow> int \<times> int \<times> int" where
  \<comment> \<open>months since March, month, day of the month\<close>
  "month_of_doy doy =
     (let mp = (5 * doy + 2) div 153
      in (mp, if mp < 10 then mp + 3 else mp - 9, doy - (153 * mp + 2) div 5 + 1))"

definition days_before_common :: "int \<Rightarrow> int" where
  "days_before_common m = sum_list (map (\<lambda>k. if k = 2 then 28 else
     if k \<in> {4, 6, 9, 11} then 30 else 31) [1..m - 1])"

definition doy_ok :: "int \<Rightarrow> bool" where
  "doy_ok doy =
     (case month_of_doy doy of (mp, m, d) \<Rightarrow>
        1 \<le> d \<and>
        (if mp < 10
         then 3 \<le> m \<and> m \<le> 12 \<and> d \<le> (if m \<in> {4, 6, 9, 11} then 30 else 31)
           \<and> days_before_common m + d - 1 = doy + 59
         else 1 \<le> m \<and> m \<le> 2 \<and> d \<le> (if m = 2 then (if doy = 365 then 29 else 28) else 31)
           \<and> days_before_common m + d - 1 = doy - 306))"

lemma doys_checked: "list_all doy_ok [0..365]"
  by code_simp

lemma days_before_month_step:
  assumes "1 \<le> m"
  shows "days_before_month y (m + 1) = days_before_month y m + days_in_month y m"
proof -
  have "{1..m} = insert m {1..m - 1}" using assms by auto
  then show ?thesis by (simp add: days_before_month_def)
qed

lemma days_before_common_step:
  assumes "1 \<le> m"
  shows "days_before_common (m + 1) =
    days_before_common m + (if m = 2 then 28 else if m \<in> {4, 6, 9, 11} then 30 else 31)"
proof -
  have "[1..m] = [1..m - 1] @ [m]" using assms by (rule upto_rec2)
  then show ?thesis by (simp add: days_before_common_def)
qed

lemma days_before_month_common:
  "1 \<le> m \<Longrightarrow>
   days_before_month y m = days_before_common m + (if 2 < m \<and> leap_year y then 1 else 0)"
proof (induction m rule: int_ge_induct)
  case base
  then show ?case by (simp add: days_before_month_def days_before_common_def)
next
  case (step m)
  then show ?case
    by (simp add: days_before_month_step days_before_common_step days_in_month_def)
qed

lemma leap_year_mod: "leap_year (r + 400 * e) = leap_year r"
proof -
  have "(r + 400 * e) mod 4 = r mod 4" "(r + 400 * e) mod 100 = r mod 100"
    "(r + 400 * e) mod 400 = r mod 400"
    by (simp_all add: mod_add_eq [symmetric] mod_mult_left_eq [symmetric])
  then show ?thesis by (simp add: leap_year_def)
qed

lemma era_year_lengths_checked:
  "list_all (\<lambda>y. era_start (y + 1) = era_start y + 365 + (if leap_year (y + 1) then 1 else 0))
     [0..398]"
  by code_simp

lemma doy_bounds:
  assumes "0 \<le> doe" and "doe \<le> 146096"
  defines "yoe \<equiv> era_num doe div 365"
  defines "doy \<equiv> doe - era_start yoe"
  shows "0 \<le> doy \<and> doy \<le> 365 \<and> (doy = 365 \<longrightarrow> leap_year (yoe + 1))"
proof -
  note y = era_year [OF assms(1,2), folded yoe_def]
  show ?thesis
  proof (cases "yoe = 399")
    case True
    with y assms(2) show ?thesis by (simp add: doy_def era_start_def leap_year_def)
  next
    case False
    with y have "yoe \<in> set [0..398]" by simp
    then have "era_start (yoe + 1) = era_start yoe + 365 + (if leap_year (yoe + 1) then 1 else 0)"
      using era_year_lengths_checked unfolding list_all_iff by blast
    with y False show ?thesis by (auto simp: doy_def split: if_splits)
  qed
qed

lemma days_before_era_year:
  assumes "0 \<le> yoe" and "yoe \<le> 399"
  shows "days_before_year (yoe + era * 400 + 1) = era * 146097 + era_start yoe"
proof -
  have "yoe div 400 = 0" using assms by simp
  have "(yoe + era * 400) div 4 = yoe div 4 + era * 100"
    "(yoe + era * 400) div 100 = yoe div 100 + era * 4"
    using div_mult_self1 [of 4 yoe "era * 100"] div_mult_self1 [of 100 yoe "era * 4"] by simp_all
  then show ?thesis
    using assms by (simp add: days_before_year_def era_start_def)
qed

lemma civil_from_days_parts:
  assumes "z = days + 719468" and "yoe = era_num (z mod 146097) div 365"
    and "doy = z mod 146097 - era_start yoe" and "month_of_doy doy = (mp, m, d)"
  shows "civil_from_days days =
    (if m \<le> 2 then yoe + z div 146097 * 400 + 1 else yoe + z div 146097 * 400, m, d)"
proof -
  have m: "(5 * doy + 2) div 153 = mp" "doy - (153 * mp + 2) div 5 + 1 = d"
    "(if mp < 10 then mp + 3 else mp - 9) = m"
    using assms(4) unfolding month_of_doy_def Let_def prod.inject by blast+
  show ?thesis
    unfolding civil_from_days_def Let_def assms(1) [symmetric] era_num_def [symmetric]
      assms(2) [symmetric] era_start_def [symmetric] assms(3) [symmetric] m
    by (simp only: add.assoc)
qed

text \<open>For every day, the algorithm gives a date of the Gregorian calendar, and it is the
  date of that day: counting days by year lengths and month lengths comes back to it.\<close>

lemma civil_is_gregorian:
  "case civil_from_days days of (y, m, d) \<Rightarrow>
     1 \<le> m \<and> m \<le> 12 \<and> 1 \<le> d \<and> d \<le> days_in_month y m \<and> day_number y m d = days"
proof -
  define z where "z = days + 719468"
  define doe where "doe = z mod 146097"
  define yoe where "yoe = era_num doe div 365"
  define doy where "doy = doe - era_start yoe"
  define y0 where "y0 = yoe + z div 146097 * 400"
  obtain mp m d where md: "month_of_doy doy = (mp, m, d)" by (cases "month_of_doy doy")
  have doe: "0 \<le> doe" "doe \<le> 146096" by (simp_all add: doe_def)
  note y = era_year [OF doe, folded yoe_def]
  note b = doy_bounds [OF doe, folded yoe_def, folded doy_def]
  then have "doy_ok doy" using doys_checked by (auto simp: list_all_iff)
  note ok = this [unfolded doy_ok_def md split]
  have civil: "civil_from_days days = (if m \<le> 2 then y0 + 1 else y0, m, d)"
    using civil_from_days_parts [of z days yoe doy mp m d] md
    by (simp add: z_def doe_def yoe_def doy_def y0_def)
  have start: "days_before_year (y0 + 1) + doy = z"
    using days_before_era_year [of yoe "z div 146097"] y mult_div_mod_eq [of 146097 z]
    by (simp add: y0_def doy_def doe_def)
  have leap: "leap_year (y0 + 1) = leap_year (yoe + 1)"
    using leap_year_mod [of "yoe + 1" "z div 146097"] by (simp add: y0_def algebra_simps)
  show ?thesis
  proof (cases "mp < 10")
    case True
    with ok have m: "3 \<le> m" "m \<le> 12" by auto
    then have "days_before_month y0 m = days_before_common m + (if leap_year y0 then 1 else 0)"
      by (simp add: days_before_month_common)
    then show ?thesis
      using True ok m start days_before_year_step [of y0]
      by (auto simp: civil day_number_def days_in_month_def z_def)
  next
    case False
    with ok have m: "1 \<le> m" "m \<le> 2" by auto
    then have "days_before_month (y0 + 1) m = days_before_common m"
      by (simp add: days_before_month_common)
    then show ?thesis
      using False ok m start leap b
      by (auto simp: civil day_number_def days_in_month_def z_def split: if_splits)
  qed
qed

text \<open>For every day the algorithm gives a date the Gregorian calendar has, and it is the
  date of that day: counting days by the lengths of years and months comes back to it, so
  two days never share a date.\<close>

lemma civil_from_days_is_gregorian:
  "(case civil_from_days days of (y, m, d) \<Rightarrow>
      1 \<le> m \<and> m \<le> 12 \<and> 1 \<le> d \<and> d \<le> days_in_month y m \<and> day_number y m d = days)
   \<and> inj civil_from_days"
proof -
  have "inj civil_from_days"
  proof (rule inj_on_inverseI [of _ "\<lambda>(y, m, d). day_number y m d"])
    show "(\<lambda>(y, m, d). day_number y m d) (civil_from_days x) = x" for x
      using civil_is_gregorian [of x] by (auto split: prod.splits)
  qed
  then show ?thesis using civil_is_gregorian [of days] by blast
qed

end
