(* ===== verification/Resolve.thy ===== *)
theory Resolve imports Version Calendar
begin

section \<open>Deciding between two versions of one path (\<open>crates/sync/src/resolve.rs\<close>)\<close>

text \<open>
  \<open>resolve\<close> compares the two vectors; concurrent versions go to \<open>resolve_concurrent\<close>, which
  keeps both. A losing version is written under a conflict name, made by \<open>decorate\<close> and read
  back by \<open>conflict_origin\<close>. \<open>decorate\<close> slices the name after its first byte, which panics
  when that is not a character boundary; the model returns \<open>None\<close> there, and so do the
  functions that call it.
\<close>

datatype side = Local | Remote

datatype outcome =
    InSync
  | Merge
  | TakeRemote
  | KeepLocal
  | Conflict (keeps_path: side) (renamed_to: string)
  | Resurrect (survivor: side)

record resolution =
  outcome :: outcome
  res_vector :: version_vector

subsection \<open>Conflict names\<close>

definition split_dir :: "string \<Rightarrow> string \<times> string" where
  \<comment> \<open>\<open>match path.rfind('/')\<close>: the directory with its slash, and the name\<close>
  "split_dir p =
     (case rfind p ''/'' of
        Some i \<Rightarrow> (take (Suc i) p, drop (Suc i) p)
      | None \<Rightarrow> ('''', p))"

definition decorate :: "file_version \<Rightarrow> string \<Rightarrow> string option" where
  "decorate version marker =
     (case split_dir (path version) of (dir, name) \<Rightarrow>
        (case str_from name 1 of
           None \<Rightarrow> None
         | Some rest \<Rightarrow>
             (case (case rfind rest ''.'' of
                      Some i \<Rightarrow> (take (i + 1) name, drop (i + 1) name)
                    | None \<Rightarrow> (name, '''')) of (stem, ext) \<Rightarrow>
                Some (dir @ stem @ ''.'' @ marker @ ''-'' @ short (modified_by version) @ ''-''
                      @ format_utc (modified_at version) @ ext))))"

definition conflict_path :: "file_version \<Rightarrow> string option" where
  "conflict_path version = decorate version ''conflict''"

definition received_path :: "file_version \<Rightarrow> string option" where
  "received_path version = decorate version ''from''"

record conflict_name =
  original :: string
  cn_device :: string
  cn_when :: string

definition hex_shaped :: "string \<Rightarrow> bool" where
  "hex_shaped device \<longleftrightarrow> list_all (\<lambda>b. is_ascii_hexdigit b \<and> \<not> is_ascii_uppercase b) device"

definition when_shaped :: "string \<Rightarrow> bool" where
  "when_shaped w \<longleftrightarrow>
     list_all (\<lambda>(i, b). if i \<in> {4, 7, 10} then b = CHR ''-'' else is_ascii_digit b)
       (enumerate 0 w)"

definition ext_shaped :: "string \<Rightarrow> bool" where
  "ext_shaped ext \<longleftrightarrow> ext = [] \<or> (starts_with ext ''.'' \<and> CHR ''.'' \<notin> set (drop 1 ext))"

definition conflict_origin :: "string \<Rightarrow> conflict_name option" where
  "conflict_origin p =
     (case split_dir p of (dir, name) \<Rightarrow>
        Option.bind (rfind name ''.conflict-'') (\<lambda>at.
          let stem = take at name; rest = drop (at + length ''.conflict-'') name in
          Option.bind (str_get rest 0 8) (\<lambda>device.
          Option.bind (str_from rest 8) (\<lambda>rest.
          Option.bind (str_get rest 0 1) (\<lambda>dash.
          Option.bind (str_from rest 1) (\<lambda>rest.
          Option.bind (str_get rest 0 17) (\<lambda>w.
          Option.bind (str_from rest 17) (\<lambda>ext.
            if stem = [] \<or> dash \<noteq> ''-'' \<or> \<not> hex_shaped device \<or> \<not> when_shaped w
               \<or> \<not> ext_shaped ext
            then None
            else Some \<lparr>original = dir @ stem @ ext, cn_device = device, cn_when = w\<rparr>))))))))"

subsection \<open>The decision\<close>

definition wins_path :: "file_version \<Rightarrow> file_version \<Rightarrow> bool" where
  "wins_path local remote =
     (case (content_hash (content local), content_hash (content remote)) of
        (Some l, Some r) \<Rightarrow> l > r
      | _ \<Rightarrow> False)"

definition resolve_concurrent :: "file_version \<Rightarrow> file_version \<Rightarrow> resolution option" where
  "resolve_concurrent local remote =
     (let v = merged (vector local) (vector remote) in
      if same_content local remote then Some \<lparr>outcome = Merge, res_vector = v\<rparr>
      else case (is_deleted local, is_deleted remote) of
          (True, False) \<Rightarrow> Some \<lparr>outcome = Resurrect Remote, res_vector = v\<rparr>
        | (False, True) \<Rightarrow> Some \<lparr>outcome = Resurrect Local, res_vector = v\<rparr>
        | (False, False) \<Rightarrow>
            (let keeps = (if wins_path local remote then Local else Remote);
                 loser = (case keeps of Local \<Rightarrow> remote | Remote \<Rightarrow> local)
             in map_option (\<lambda>name. \<lparr>outcome = Conflict keeps name, res_vector = v\<rparr>)
                  (conflict_path loser))
        | (True, True) \<Rightarrow> None)"

definition resolve :: "file_version \<Rightarrow> file_version \<Rightarrow> resolution option" where
  "resolve local remote =
     (case vv_compare (vector local) (vector remote) of
        Equal \<Rightarrow> Some \<lparr>outcome = InSync, res_vector = vector local\<rparr>
      | After \<Rightarrow> Some \<lparr>outcome = KeepLocal, res_vector = vector local\<rparr>
      | Before \<Rightarrow> Some \<lparr>outcome = TakeRemote, res_vector = vector remote\<rparr>
      | Concurrent \<Rightarrow> resolve_concurrent local remote)"

subsection \<open>When a name can be decorated\<close>

definition plain_name :: "string \<Rightarrow> bool" where
  \<comment> \<open>the last component is not empty and its first character is one byte\<close>
  "plain_name p \<longleftrightarrow> (case snd (split_dir p) of
     [] \<Rightarrow> False | [c] \<Rightarrow> True | c # d # s \<Rightarrow> \<not> cont_byte d)"

lemma split_dir_append: "split_dir p = (dir, name) \<Longrightarrow> dir @ name = p"
  by (auto simp: split_dir_def split: option.splits)

lemma split_dir_name: "split_dir p = (dir, name) \<Longrightarrow> CHR ''/'' \<notin> set name"
  by (auto simp: split_dir_def rfind_single_None dest: rfind_single_Some split: option.splits)

lemma split_dir_dir:
  "split_dir p = (dir, name) \<Longrightarrow> dir = [] \<or> (\<exists>d. dir = d @ ''/'')"
proof -
  assume a: "split_dir p = (dir, name)"
  show ?thesis
  proof (cases "rfind p ''/''")
    case None
    with a show ?thesis by (simp add: split_dir_def)
  next
    case (Some i)
    from rfind_single_nth [OF this] have "take (Suc i) p = take i p @ ''/''" by simp
    moreover from a Some have "dir = take (Suc i) p" by (simp add: split_dir_def)
    ultimately show ?thesis by metis
  qed
qed

lemma split_dir_join:
  "dir = [] \<or> (\<exists>d. dir = d @ ''/'') \<Longrightarrow> CHR ''/'' \<notin> set name \<Longrightarrow> split_dir (dir @ name) = (dir, name)"
  using rfind_last [of "CHR ''/''" name] rfind_single_None [of name "CHR ''/''"]
  by (auto simp: split_dir_def)

lemma str_from_1: "str_from name 1 = (if plain_name name' then Some (drop 1 name) else None)"
  if "snd (split_dir name') = name"
  using that
  by (auto simp: str_from_def plain_name_def char_boundary_def split: list.splits)

definition split_ext :: "string \<Rightarrow> string \<times> string" where
  \<comment> \<open>the name before its last dot past the first character, and from it\<close>
  "split_ext name =
     (case rfind (drop 1 name) ''.'' of
        Some i \<Rightarrow> (take (i + 1) name, drop (i + 1) name)
      | None \<Rightarrow> (name, ''''))"

definition suffix :: "file_version \<Rightarrow> string \<Rightarrow> string" where
  "suffix v marker =
     ''.'' @ marker @ ''-'' @ short (modified_by v) @ ''-'' @ format_utc (modified_at v)"

lemma decorate_eq:
  assumes "split_dir (path v) = (dir, name)" and "split_ext name = (stem, ext)"
  shows "decorate v marker =
    (if plain_name (path v) then Some (dir @ stem @ suffix v marker @ ext) else None)"
  using assms str_from_1 [of "path v" name]
  by (auto simp: decorate_def split_ext_def suffix_def split: option.splits)

lemma split_ext_append: "split_ext name = (stem, ext) \<Longrightarrow> stem @ ext = name"
  by (auto simp: split_ext_def split: option.splits)

lemma split_ext_shape:
  assumes "split_ext name = (stem, ext)" and "name \<noteq> []"
  shows "stem \<noteq> [] \<and> (ext = [] \<or> (\<exists>e. ext = CHR ''.'' # e \<and> CHR ''.'' \<notin> set e))"
proof (cases "rfind (drop 1 name) ''.''")
  case None
  with assms show ?thesis by (simp add: split_ext_def)
next
  case (Some i)
  then have "i < length (drop 1 name)" and "drop 1 name ! i = CHR ''.''"
    using rfind_single_nth by blast+
  then have "drop (i + 1) name = CHR ''.'' # drop (Suc i) (drop 1 name)"
    using Cons_nth_drop_Suc [of i "drop 1 name"] by simp
  moreover have "CHR ''.'' \<notin> set (drop (Suc i) (drop 1 name))"
    using rfind_single_Some [OF Some] by blast
  ultimately show ?thesis using assms Some by (auto simp: split_ext_def)
qed

lemma plain_name_nonempty: "plain_name p \<Longrightarrow> split_dir p = (dir, name) \<Longrightarrow> name \<noteq> []"
  by (auto simp: plain_name_def)

text \<open>A conflict name can be made exactly when the file's own name is not empty and its
  first character is one byte long; for any other name the slice after its first byte panics.\<close>

lemma conflict_path_panics_iff:
  "conflict_path v = None \<longleftrightarrow> \<not> plain_name (path v)"
  by (cases "split_dir (path v)"; cases "split_ext (snd (split_dir (path v)))")
    (simp add: conflict_path_def decorate_eq)

text \<open>A name that begins with an accented letter is two bytes there.\<close>

lemma conflict_path_panics_on_accent:
  "conflict_path (file_of (CHR 0xC3 # CHR 0xA9 # ''t.txt'') [] 0 vv_new (DeviceId []) 0)
     = None"
  by (simp add: conflict_path_def decorate_def file_of_def str_from_def char_boundary_def
      split_dir_def starts_with_def cont_byte_def)

subsection \<open>A date of a four-digit year has one shape\<close>

definition digits_only :: "string \<Rightarrow> bool" where
  "digits_only s \<longleftrightarrow> list_all is_ascii_digit s"

lemma digit_char: "n < 10 \<Longrightarrow> is_ascii_digit (char_of (48 + n :: nat))"
  by (simp add: is_ascii_digit_def)

lemma show_nat_shape: "n < 10 ^ Suc w \<Longrightarrow> length (show_nat n) \<le> Suc w \<and> digits_only (show_nat n)"
proof (induction w arbitrary: n)
  case 0
  then show ?case
    by (subst (1 2) show_nat.simps) (simp add: digits_only_def digit_char)
next
  case (Suc w)
  show ?case
  proof (cases "n < 10")
    case True
    then show ?thesis
      by (subst (1 2) show_nat.simps) (simp add: digits_only_def digit_char)
  next
    case False
    from Suc.prems have "n div 10 < 10 ^ Suc w" by (simp add: less_mult_imp_div_less)
    from Suc.IH [OF this] False show ?thesis
      by (subst (1 2) show_nat.simps) (simp add: digits_only_def digit_char)
  qed
qed

lemma fmt_pad_shape:
  assumes "0 \<le> z" and "z < 10 ^ Suc w"
  shows "length (fmt_pad (Suc w) z) = Suc w \<and> digits_only (fmt_pad (Suc w) z)"
proof -
  from assms have "nat z < 10 ^ Suc w" by (simp add: nat_less_iff)
  from show_nat_shape [OF this] assms(1) show ?thesis
    by (auto simp: fmt_pad_def pad0_def digits_only_def list_all_iff is_ascii_digit_def)
qed

definition year_of :: "i64 \<Rightarrow> int" where
  "year_of t = fst (civil_from_days (sint t div 86400))"

lemma format_utc_shape:
  assumes "0 \<le> year_of t" and "year_of t \<le> 9999"
  obtains y m d time where "format_utc t = y @ ''-'' @ m @ ''-'' @ d @ ''-'' @ time"
    and "length y = 4" "length m = 2" "length d = 2" "length time = 6"
    and "digits_only (y @ m @ d @ time)"
proof -
  obtain y m d where c: "civil_from_days (sint t div 86400) = (y, m, d)"
    by (cases "civil_from_days (sint t div 86400)")
  define secs where "secs = sint t mod 86400"
  have "d \<le> 31" "1 \<le> d" "1 \<le> m" "m \<le> 12"
    using civil_is_gregorian [of "sint t div 86400"]
    by (auto simp: c days_in_month_def split: if_splits)
  moreover have "0 \<le> y" "y \<le> 9999" using assms by (simp_all add: year_of_def c)
  moreover have "0 \<le> secs" "secs < 86400" by (simp_all add: secs_def)
  then have "0 \<le> secs div 3600" "secs div 3600 < 24" "0 \<le> secs mod 3600 div 60"
    "secs mod 3600 div 60 < 60" "0 \<le> secs mod 60" "secs mod 60 < 60"
    by (auto simp: div_less_iff_less_mult pos_imp_zdiv_nonneg_iff)
  ultimately have "length (fmt_pad 4 y) = 4 \<and> digits_only (fmt_pad 4 y)"
    "length (fmt_pad 2 m) = 2 \<and> digits_only (fmt_pad 2 m)"
    "length (fmt_pad 2 d) = 2 \<and> digits_only (fmt_pad 2 d)"
    "length (fmt_pad 2 (secs div 3600)) = 2 \<and> digits_only (fmt_pad 2 (secs div 3600))"
    "length (fmt_pad 2 (secs mod 3600 div 60)) = 2 \<and> digits_only (fmt_pad 2 (secs mod 3600 div 60))"
    "length (fmt_pad 2 (secs mod 60)) = 2 \<and> digits_only (fmt_pad 2 (secs mod 60))"
    using fmt_pad_shape [of _ 3] fmt_pad_shape [of _ 1] by (simp_all add: numeral_eq_Suc)
  then show thesis
    by (intro that [of "fmt_pad 4 y" "fmt_pad 2 m" "fmt_pad 2 d" "fmt_pad 2 (secs div 3600)
        @ fmt_pad 2 (secs mod 3600 div 60) @ fmt_pad 2 (secs mod 60)"])
      (simp_all add: format_utc_def c secs_def Let_def digits_only_def)
qed

lemma digit_facts: "is_ascii_digit c \<Longrightarrow> c \<noteq> CHR ''.'' \<and> c \<noteq> CHR ''/'' \<and> c \<noteq> CHR ''-'' \<and> \<not> cont_byte c"
  by (auto simp: is_ascii_digit_def cont_byte_def)

lemma when_shaped_parts:
  assumes "length y = 4" "length m = 2" "length d = 2" "length t = 6"
    and "digits_only (y @ m @ d @ t)"
  shows "when_shaped (y @ ''-'' @ m @ ''-'' @ d @ ''-'' @ t)"
proof -
  obtain y0 y1 y2 y3 where y: "y = [y0, y1, y2, y3]"
    using assms(1) by (auto simp: numeral_eq_Suc length_Suc_conv)
  obtain m0 m1 where m: "m = [m0, m1]"
    using assms(2) by (auto simp: numeral_eq_Suc length_Suc_conv)
  obtain d0 d1 where d: "d = [d0, d1]"
    using assms(3) by (auto simp: numeral_eq_Suc length_Suc_conv)
  obtain t0 t1 t2 t3 t4 t5 where t: "t = [t0, t1, t2, t3, t4, t5]"
    using assms(4) by (auto simp: numeral_eq_Suc length_Suc_conv)
  show ?thesis
    using assms(5) by (simp add: y m d t when_shaped_def digits_only_def)
qed

subsection \<open>Reading a conflict name back\<close>

lemma rfind_skip:
  "x \<notin> set a \<Longrightarrow> rfind (a @ s) (x # pat) = map_option ((+) (length a)) (rfind s (x # pat))"
proof (induction a)
  case Nil
  then show ?case by (cases "rfind s (x # pat)") simp_all
next
  case (Cons c a)
  then show ?case by (cases "rfind s (x # pat)") (auto simp: starts_with_def)
qed

lemma rfind_append_Some:
  "rfind t pat = Some i \<Longrightarrow> rfind (s @ t) pat = Some (length s + i)"
  using rfind_beyond [of s t pat] by simp

lemma rfind_conflict_marker:
  assumes "CHR ''.'' \<notin> set mid"
    and "ext = [] \<or> (\<exists>e. ext = CHR ''.'' # e \<and> CHR ''.'' \<notin> set e)"
    and "\<not> starts_with ext ''.conflict-''"
  shows "rfind (stem @ ''.conflict-'' @ mid @ ext) ''.conflict-'' = Some (length stem)"
proof -
  have none: "rfind e ''.conflict-'' = None" if "CHR ''.'' \<notin> set e" for e
    using rfind_skip [OF that, of "[]" "''conflict-''"] by simp
  have "rfind ext ''.conflict-'' = None"
    using assms(2,3) none by (auto split: option.splits)
  then have "rfind (''conflict-'' @ mid @ ext) ''.conflict-'' = None"
    using assms(1) rfind_skip [of "CHR ''.''" "''conflict-'' @ mid" ext "''conflict-''"] by simp
  then have "rfind (''.conflict-'' @ mid @ ext) ''.conflict-'' = Some 0"
    by (simp add: starts_with_def)
  from rfind_append_Some [OF this] show ?thesis by simp
qed

lemma short_shape:
  assumes "device_ok dev"
  shows "length (short dev) = 8 \<and> hex_shaped (short dev)
    \<and> (\<forall>c \<in> set (short dev). c \<noteq> CHR ''.'' \<and> c \<noteq> CHR ''/'' \<and> \<not> cont_byte c)"
proof -
  have "length (short dev) = 8" using assms by (simp add: short_def device_ok_def)
  moreover have "is_ascii_hexdigit c \<and> \<not> is_ascii_uppercase c \<and> c \<noteq> CHR ''.''
      \<and> c \<noteq> CHR ''/'' \<and> \<not> cont_byte c" if "c \<in> set (short dev)" for c
  proof -
    from that obtain n where "n < 16" and c: "c = hex_digit n"
      using hex_chars unfolding short_def by blast
    then show ?thesis
      using of_char_hex_digit [of n] hex_digit_neq [of n] hex_digit_not_cont [of n]
      by (auto simp: is_ascii_hexdigit_def is_ascii_digit_def is_ascii_uppercase_def
          split: if_splits)
  qed
  ultimately show ?thesis unfolding hex_shaped_def list_all_iff by blast
qed

lemma str_from_boundary:
  "length a = n \<Longrightarrow> b = [] \<or> \<not> cont_byte (hd b) \<Longrightarrow> str_from (a @ b) n = Some b"
  by (cases b) (auto simp: str_from_def char_boundary_def nth_append)

lemma str_get_boundary:
  "length a = n \<Longrightarrow> b = [] \<or> \<not> cont_byte (hd b) \<Longrightarrow> str_get (a @ b) 0 n = Some a"
  by (cases b) (auto simp: str_get_def char_boundary_def nth_append)

lemma conflict_origin_reads:
  assumes "dir = [] \<or> (\<exists>d. dir = d @ ''/'')" and "stem \<noteq> []"
    and "CHR ''/'' \<notin> set stem" and "CHR ''/'' \<notin> set ext"
    and "length dev = 8" and "hex_shaped dev" and "\<forall>c \<in> set dev. c \<noteq> CHR ''.'' \<and> c \<noteq> CHR ''/''"
    and "length w = 17" and "when_shaped w"
    and "\<forall>c \<in> set w. c \<noteq> CHR ''.'' \<and> c \<noteq> CHR ''/'' \<and> \<not> cont_byte c"
    and "ext = [] \<or> (\<exists>e. ext = CHR ''.'' # e \<and> CHR ''.'' \<notin> set e)"
    and "\<not> starts_with ext ''.conflict-''"
  shows "conflict_origin (dir @ stem @ ''.conflict-'' @ dev @ ''-'' @ w @ ext) =
    Some \<lparr>original = dir @ stem @ ext, cn_device = dev, cn_when = w\<rparr>"
proof -
  let ?name = "stem @ ''.conflict-'' @ dev @ ''-'' @ w @ ext"
  have split: "split_dir (dir @ ?name) = (dir, ?name)"
    using assms(1,3,4,7,10) by (intro split_dir_join) auto
  have "CHR ''.'' \<notin> set (dev @ ''-'' @ w)" using assms(7,10) by auto
  from rfind_conflict_marker [OF this assms(11,12), of stem]
  have find: "rfind ?name ''.conflict-'' = Some (length stem)" by simp
  have cut: "drop (length stem + length ''.conflict-'') ?name = dev @ ''-'' @ w @ ext"
    by simp
  have "w \<noteq> []" using assms(8) by auto
  then have w: "w @ ext \<noteq> []" "\<not> cont_byte (hd (w @ ext))"
    using assms(10) hd_in_set [of w] by auto
  have dash: "\<not> cont_byte CHR ''-''" by (simp add: cont_byte_def)
  have e: "ext = [] \<or> \<not> cont_byte (hd ext)" using assms(11) by (auto simp: cont_byte_def)
  have pieces: "str_get (dev @ ''-'' @ w @ ext) 0 8 = Some dev"
    "str_from (dev @ ''-'' @ w @ ext) 8 = Some (''-'' @ w @ ext)"
    "str_get (''-'' @ w @ ext) 0 1 = Some ''-''"
    "str_from (''-'' @ w @ ext) 1 = Some (w @ ext)"
    "str_get (w @ ext) 0 17 = Some w" "str_from (w @ ext) 17 = Some ext"
    by (rule str_get_boundary str_from_boundary; use assms(5,8) w e dash in simp)+
  have "ext_shaped ext" using assms(11) by (auto simp: ext_shaped_def starts_with_def)
  then show ?thesis
    unfolding conflict_origin_def split prod.case find Option.bind.bind_lunit Let_def cut pieces
    using assms(2,6,9) by simp
qed

definition name_ext :: "string \<Rightarrow> string" where
  "name_ext p = snd (split_ext (snd (split_dir p)))"

text \<open>A conflict copy's name reads back to the path it is a version of, the device that made
  it and when, for every file whose name can be decorated, whose date has a four-digit year
  and whose own extension does not itself begin \<open>.conflict-\<close>.\<close>

lemma conflict_name_reads_back:
  assumes "plain_name (path v)" and "device_ok (modified_by v)"
    and "0 \<le> year_of (modified_at v)" and "year_of (modified_at v) \<le> 9999"
    and "\<not> starts_with (name_ext (path v)) ''.conflict-''"
  shows "Option.bind (conflict_path v) conflict_origin =
    Some \<lparr>original = path v, cn_device = short (modified_by v),
          cn_when = format_utc (modified_at v)\<rparr>"
proof -
  obtain dir name where sd: "split_dir (path v) = (dir, name)" by (cases "split_dir (path v)")
  obtain stem ext where se: "split_ext name = (stem, ext)" by (cases "split_ext name")
  note shape = split_ext_shape [OF se plain_name_nonempty [OF assms(1) sd]]
  note dev = short_shape [OF assms(2)]
  let ?w = "format_utc (modified_at v)"
  have w: "length ?w = 17 \<and> when_shaped ?w
      \<and> (\<forall>c \<in> set ?w. c \<noteq> CHR ''.'' \<and> c \<noteq> CHR ''/'' \<and> \<not> cont_byte c)"
  proof (rule format_utc_shape [OF assms(3,4)])
    fix y m d time
    assume u: "?w = y @ ''-'' @ m @ ''-'' @ d @ ''-'' @ time"
      and l: "length y = 4" "length m = 2" "length d = 2" "length time = 6"
      and digits: "digits_only (y @ m @ d @ time)"
    have "\<not> cont_byte CHR ''-''" by (simp add: cont_byte_def)
    with digits have "\<forall>c \<in> set ?w. c \<noteq> CHR ''.'' \<and> c \<noteq> CHR ''/'' \<and> \<not> cont_byte c"
      unfolding u digits_only_def list_all_iff using digit_facts by auto
    with when_shaped_parts [OF l digits] l show ?thesis by (simp add: u)
  qed
  have "CHR ''/'' \<notin> set (stem @ ext)"
    using split_dir_name [OF sd] split_ext_append [OF se] by simp
  moreover have "\<not> starts_with ext ''.conflict-''" using assms(5) by (simp add: name_ext_def sd se)
  ultimately have "conflict_origin
      (dir @ stem @ ''.conflict-'' @ short (modified_by v) @ ''-'' @ ?w @ ext) =
      Some \<lparr>original = dir @ stem @ ext, cn_device = short (modified_by v), cn_when = ?w\<rparr>"
    using split_dir_dir [OF sd] shape dev w by (intro conflict_origin_reads) auto
  moreover have "conflict_path v =
      Some (dir @ stem @ ''.conflict-'' @ short (modified_by v) @ ''-'' @ ?w @ ext)"
    using assms(1) by (simp add: conflict_path_def decorate_eq [OF sd se] suffix_def)
  moreover have "dir @ stem @ ext = path v"
    using split_dir_append [OF sd] split_ext_append [OF se] by simp
  ultimately show ?thesis by simp
qed

definition sample_device :: device_id where
  "sample_device = DeviceId (replicate 32 161)"

lemma sample_device_ok: "device_ok sample_device"
  by (simp add: sample_device_def device_ok_def)

lemma conflict_name_reads_back_witness:
  "Option.bind (conflict_path (file_of ''work/plan.md'' [] 0 vv_new sample_device 1757462400))
     conflict_origin
   = Some \<lparr>original = ''work/plan.md'', cn_device = ''a1a1a1a1'', cn_when = ''2025-09-10-000000''\<rparr>"
proof -
  let ?v = "file_of ''work/plan.md'' [] 0 vv_new sample_device 1757462400"
  have "plain_name (path ?v)" by code_simp
  moreover have "device_ok (modified_by ?v)" by (simp add: file_of_def sample_device_ok)
  moreover have "0 \<le> year_of (modified_at ?v)" "year_of (modified_at ?v) \<le> 9999" by code_simp+
  moreover have "\<not> starts_with (name_ext (path ?v)) ''.conflict-''" by code_simp
  moreover have "short (modified_by ?v) = ''a1a1a1a1''" by code_simp
  moreover have "format_utc (modified_at ?v) = ''2025-09-10-000000''" by code_simp
  ultimately show ?thesis using conflict_name_reads_back [of ?v] by (simp add: file_of_def)
qed

text \<open>The name of a conflict copy made from a file without an extension that is itself a
  conflict copy does not read back: the copy of a copy of \<open>README\<close> is read as a version
  of the second copy's stem, made by the first copy's device.\<close>

theorem conflict_copy_of_a_copy_is_misread:
  "Option.bind
     (conflict_path (file_of ''README.conflict-b2b2b2b2-2025-09-10-000000'' [] 0 vv_new
        sample_device 1757462400))
     conflict_origin
   = Some \<lparr>original = ''README.conflict-a1a1a1a1-2025-09-10-000000'',
           cn_device = ''b2b2b2b2'', cn_when = ''2025-09-10-000000''\<rparr>"
  by code_simp

subsection \<open>The decision is the same on both sides\<close>

fun flip :: "side \<Rightarrow> side" where
  "flip Local = Remote"
| "flip Remote = Local"

fun mirror_outcome :: "outcome \<Rightarrow> outcome" where
  "mirror_outcome TakeRemote = KeepLocal"
| "mirror_outcome KeepLocal = TakeRemote"
| "mirror_outcome (Conflict s name) = Conflict (flip s) name"
| "mirror_outcome (Resurrect s) = Resurrect (flip s)"
| "mirror_outcome out = out"

definition mirror_resolution :: "resolution \<Rightarrow> resolution" where
  "mirror_resolution res = res\<lparr>outcome := mirror_outcome (outcome res)\<rparr>"

definition hash_names_content :: "file_version \<Rightarrow> file_version \<Rightarrow> bool" where
  \<comment> \<open>what a content hash is for: the same hash is the same content\<close>
  "hash_names_content l r \<longleftrightarrow>
     (content_hash (content l) = content_hash (content r) \<longrightarrow> content l = content r)"

lemma wins_path_asym:
  assumes "content l \<noteq> content r" and "\<not> is_deleted l" and "\<not> is_deleted r"
    and "hash_names_content l r"
  shows "wins_path r l \<longleftrightarrow> \<not> wins_path l r"
  using assms
  by (cases "content l"; cases "content r")
    (auto simp: wins_path_def content_hash_def hash_names_content_def is_deleted_iff)

lemma resolve_concurrent_mirror:
  assumes "vv_ok (vector l)" and "vv_ok (vector r)" and "hash_names_content l r"
  shows "resolve_concurrent r l = map_option mirror_resolution (resolve_concurrent l r)"
proof -
  note v = merged_commute [OF assms(1,2)]
  show ?thesis
  proof (cases "content l = content r")
    case True
    then show ?thesis
      by (simp add: resolve_concurrent_def same_content_def v mirror_resolution_def)
  next
    case False
    then show ?thesis
      using wins_path_asym [OF False _ _ assms(3)]
      by (auto simp: resolve_concurrent_def same_content_def v mirror_resolution_def Let_def
          option.map_comp o_def split: bool.splits)
  qed
qed

lemma resolve_mirror:
  assumes "vv_ok (vector l)" and "vv_ok (vector r)" and "hash_names_content l r"
  shows "resolve r l = map_option mirror_resolution (resolve l r)"
  using resolve_concurrent_mirror [OF assms] compare_Equal_iff [OF assms(1,2)]
    compare_cases [of "vector l" "vector r"] compare_cases [of "vector r" "vector l"]
  by (cases "vv_compare (vector l) (vector r)"; cases "vv_compare (vector r) (vector l)")
    (auto simp: resolve_def mirror_resolution_def)

lemma resolve_vector:
  assumes "vv_ok (vector l)" and "vv_ok (vector r)" and "resolve l r = Some res"
  shows "res_vector res = merged (vector l) (vector r)"
proof -
  have m: "merged (vector l) (vector r) = vector r" if "vv_le (vector l) (vector r)"
    using assms(1,2) that
    by (intro vv_ext) (auto simp: vv_get_merged vv_le_def vv_ok_merged max_absorb2)
  have m': "merged (vector l) (vector r) = vector l" if "vv_le (vector r) (vector l)"
    using assms(1,2) that
    by (intro vv_ext) (auto simp: vv_get_merged vv_le_def vv_ok_merged max_absorb1)
  show ?thesis
    using assms(3) m m'
    by (auto simp: resolve_def resolve_concurrent_def compare_cases Let_def
        split: causality.splits if_splits bool.splits)
qed

text \<open>C3: the two devices decide alike. Swapping the sides mirrors the outcome: the same side
  keeps the path, the loser gets the same name, and the same vector is recorded.\<close>

theorem resolve_is_symmetric:
  assumes "vv_ok (vector l)" and "vv_ok (vector r)" and "hash_names_content l r"
  shows "resolve r l = map_option mirror_resolution (resolve l r)"
  by (rule resolve_mirror [OF assms])

text \<open>C2: no edit is dropped that the surviving version has not seen. Each outcome says what
  became of both versions, and the recorded vector has seen both, so the same two versions
  are never concurrent with their resolution.\<close>

theorem resolve_never_discards_an_edit:
  assumes "vv_ok (vector l)" and "vv_ok (vector r)" and "resolve l r = Some res"
  shows "dominates (res_vector res) (vector l) \<and> dominates (res_vector res) (vector r) \<and>
    (case outcome res of
       InSync \<Rightarrow> vector l = vector r
     | KeepLocal \<Rightarrow> dominates (vector l) (vector r)
     | TakeRemote \<Rightarrow> dominates (vector r) (vector l)
     | Merge \<Rightarrow> content l = content r
     | Resurrect Local \<Rightarrow> \<not> is_deleted l \<and> is_deleted r
     | Resurrect Remote \<Rightarrow> is_deleted l \<and> \<not> is_deleted r
     | Conflict keeps name \<Rightarrow> \<not> is_deleted l \<and> \<not> is_deleted r
         \<and> Some name = conflict_path (case keeps of Local \<Rightarrow> r | Remote \<Rightarrow> l))"
proof -
  have "dominates (res_vector res) (vector l) \<and> dominates (res_vector res) (vector r)"
    using resolve_vector [OF assms] vv_le_merged [OF assms(1,2)] by (simp add: dominates_iff)
  moreover note compare_Equal_iff [OF assms(1,2)]
  ultimately show ?thesis
    using assms(3)
    by (auto simp: resolve_def resolve_concurrent_def same_content_def dominates_def Let_def
        compare_cases split: causality.splits if_splits bool.splits)
qed

subsection \<open>Two concurrent edits\<close>

definition sample_edit :: "u8 \<Rightarrow> u8 \<Rightarrow> file_version" where
  "sample_edit d h = file_of ''a.txt'' (replicate 32 h) 3 (sample_vector d 1)
     (DeviceId (replicate 32 d)) 1757462400"

lemma sample_edit_ok: "vv_ok (vector (sample_edit d h))"
  by (simp add: sample_edit_def file_of_def sample_vector_vv_ok)

lemma sample_edit_hash: "hash_names_content (sample_edit d h) (sample_edit e k)"
  by (simp add: sample_edit_def file_of_def hash_names_content_def content_hash_def)

theorem resolve_is_symmetric_witness:
  "map_option outcome (resolve (sample_edit 1 9) (sample_edit 2 8))
     = Some (Conflict Local ''a.conflict-02020202-2025-09-10-000000.txt'')
   \<and> map_option outcome (resolve (sample_edit 2 8) (sample_edit 1 9))
     = Some (Conflict Remote ''a.conflict-02020202-2025-09-10-000000.txt'')"
proof -
  have out: "map_option outcome (resolve (sample_edit 1 9) (sample_edit 2 8))
     = Some (Conflict Local ''a.conflict-02020202-2025-09-10-000000.txt'')" by code_simp
  then obtain res where "resolve (sample_edit 1 9) (sample_edit 2 8) = Some res"
    and "outcome res = Conflict Local ''a.conflict-02020202-2025-09-10-000000.txt''"
    by (cases "resolve (sample_edit 1 9) (sample_edit 2 8)") auto
  moreover from this resolve_is_symmetric [OF sample_edit_ok sample_edit_ok sample_edit_hash, of 2 8 1 9]
  have "resolve (sample_edit 2 8) (sample_edit 1 9) = Some (mirror_resolution res)" by simp
  ultimately show ?thesis by (simp add: mirror_resolution_def)
qed

theorem resolve_never_discards_an_edit_witness:
  "\<exists>res. resolve (sample_edit 1 9) (sample_edit 2 8) = Some res
     \<and> dominates (res_vector res) (vector (sample_edit 1 9))
     \<and> dominates (res_vector res) (vector (sample_edit 2 8))"
proof -
  have "resolve (sample_edit 1 9) (sample_edit 2 8) \<noteq> None" by code_simp
  then obtain res where res: "resolve (sample_edit 1 9) (sample_edit 2 8) = Some res" by blast
  from resolve_never_discards_an_edit [OF sample_edit_ok sample_edit_ok res] res
  show ?thesis by blast
qed

end
