(* ===== verification/Reconcile.thy ===== *)
theory Reconcile imports Resolve
begin

section \<open>Comparing two devices' trees (\<open>crates/sync/src/reconcile.rs\<close>)\<close>

text \<open>
  Both sides' versions are collected into maps by path, and the paths of either are decided
  one by one, in order. The function returns \<open>None\<close> where deciding a path panics. What
  applying the actions comes to is the specification \<open>apply_actions\<close>: a device takes each
  action's end state. The lemmas show that two devices comparing notes make the same plan,
  that it is ordered with one action a path, and that carrying it out on both sides leaves
  the two trees equal.
\<close>

datatype action =
    Adopt (adopted: file_version)
  | Offer (offered: file_version)
  | AConflict (keeps_path_version: file_version) (renamed: file_version)
  | AResurrect (resurrected: file_version)
  | AMerge (merged_version: file_version)
  | AHold (hold_owner: device_id) (held: file_version)
  | Restored (restored: file_version)

fun action_path :: "action \<Rightarrow> string" where
  "action_path (Adopt remote) = path remote"
| "action_path (Offer local) = path local"
| "action_path (AConflict keeps other) = path keeps"
| "action_path (AResurrect resolved) = path resolved"
| "action_path (AMerge resolved) = path resolved"
| "action_path (AHold owner remote) = path remote"
| "action_path (Restored remote) = path remote"

definition resolve_action :: "file_version \<Rightarrow> file_version \<Rightarrow> action list option" where
  \<comment> \<open>the match on the resolution: at most one action\<close>
  "resolve_action l r =
     map_option (\<lambda>res.
       (case outcome res of
          InSync \<Rightarrow> []
        | Merge \<Rightarrow>
            (let keeper = (if modified_by l \<le> modified_by r then l else r)
             in [AMerge (keeper\<lparr>vector := res_vector res\<rparr>)])
        | KeepLocal \<Rightarrow> [Offer l]
        | TakeRemote \<Rightarrow> [Adopt r]
        | Conflict keeps name \<Rightarrow>
            (case (case keeps of Local \<Rightarrow> (l, r) | Remote \<Rightarrow> (r, l)) of (winner, loser) \<Rightarrow>
               [AConflict (winner\<lparr>vector := res_vector res\<rparr>)
                  (loser\<lparr>path := name, vector := res_vector res\<rparr>)])
        | Resurrect s \<Rightarrow>
            [AResurrect ((case s of Local \<Rightarrow> l | Remote \<Rightarrow> r)\<lparr>vector := res_vector res\<rparr>)]))
     (resolve l r)"

definition path_action ::
  "(string \<times> file_version) list \<Rightarrow> (string \<times> file_version) list \<Rightarrow> string \<Rightarrow> action list option"
where
  "path_action local remote p =
     (case (bm_get local p, bm_get remote p) of
        (Some l, Some r) \<Rightarrow> resolve_action l r
      | (Some l, None) \<Rightarrow> Some [Offer l]
      | (None, Some r) \<Rightarrow> Some [Adopt r]
      | (None, None) \<Rightarrow> None)"

fun reconcile_loop ::
  "(string \<times> file_version) list \<Rightarrow> (string \<times> file_version) list \<Rightarrow> string list
   \<Rightarrow> action list \<Rightarrow> action list option"
where
  "reconcile_loop local remote [] actions = Some actions"
| "reconcile_loop local remote (p # ps) actions =
     (case path_action local remote p of
        None \<Rightarrow> None
      | Some a \<Rightarrow> reconcile_loop local remote ps (actions @ a))"

definition by_path :: "file_version list \<Rightarrow> (string \<times> file_version) list" where
  "by_path vs = bm_collect (map (\<lambda>v. (path v, v)) vs)"

definition all_paths ::
  "(string \<times> file_version) list \<Rightarrow> (string \<times> file_version) list \<Rightarrow> string list" where
  "all_paths local remote = bs_collect (bm_keys local @ bm_keys remote)"

definition reconcile :: "file_version list \<Rightarrow> file_version list \<Rightarrow> action list option" where
  "reconcile local remote =
     (let local = by_path local; remote = by_path remote
      in reconcile_loop local remote (all_paths local remote) [])"

subsection \<open>Lemmas on the maps and the loop\<close>

lemma by_path_ok: "bm_ok (by_path vs)"
  by (simp add: by_path_def bm_ok_collect)

lemma by_path_get: "bm_get (by_path vs) p = Some v \<Longrightarrow> v \<in> set vs \<and> path v = p"
  by (auto simp: by_path_def bm_get_collect rev_map dest!: map_of_SomeD)

lemma all_paths_set:
  "p \<in> set (all_paths lm rm) \<longleftrightarrow> bm_get lm p \<noteq> None \<or> bm_get rm p \<noteq> None"
  by (auto simp: all_paths_def bs_collect_set bm_get_None_iff)

lemma all_paths_ok: "bs_ok (all_paths lm rm)"
  by (simp add: all_paths_def bs_collect_ok)

lemma all_paths_commute: "all_paths lm rm = all_paths rm lm"
  unfolding all_paths_def by (rule bs_collect_cong) auto

lemma reconcile_loop_acc:
  "reconcile_loop lm rm ps (acc @ a) = map_option ((@) acc) (reconcile_loop lm rm ps a)"
  by (induction ps arbitrary: a) (auto split: option.splits)

lemma reconcile_loop_Cons:
  "reconcile_loop lm rm (p # ps) [] =
     Option.bind (path_action lm rm p) (\<lambda>a. map_option ((@) a) (reconcile_loop lm rm ps []))"
proof (cases "path_action lm rm p")
  case None
  then show ?thesis by simp
next
  case (Some a)
  then show ?thesis using reconcile_loop_acc [of lm rm ps a "[]"] by simp
qed

lemma reconcile_eq:
  "reconcile local remote =
     reconcile_loop (by_path local) (by_path remote) (all_paths (by_path local) (by_path remote)) []"
  by (simp add: reconcile_def Let_def)

subsection \<open>One path\<close>

lemma resolve_action_path:
  "resolve_action l r = Some acts \<Longrightarrow> path l = p \<Longrightarrow> path r = p \<Longrightarrow>
   acts = [] \<or> (\<exists>a. acts = [a] \<and> action_path a = p)"
proof -
  assume acts: "resolve_action l r = Some acts" and "path l = p" "path r = p"
  then obtain res where "resolve l r = Some res" by (auto simp: resolve_action_def)
  note simps = acts [unfolded resolve_action_def this option.map option.inject] \<open>path l = p\<close> \<open>path r = p\<close>
  show ?thesis
  proof (cases "outcome res")
    case (Conflict s name)
    with simps show ?thesis by (cases s) auto
  next
    case (Resurrect s)
    with simps show ?thesis by (cases s) auto
  qed (use simps in \<open>auto simp: Let_def\<close>)
qed

lemma path_action_path:
  "path_action (by_path local) (by_path remote) p = Some acts \<Longrightarrow>
   acts = [] \<or> (\<exists>a. acts = [a] \<and> action_path a = p)"
  by (auto simp: path_action_def dest: by_path_get resolve_action_path split: option.splits)

fun mirror_action :: "action \<Rightarrow> action" where
  "mirror_action (Adopt v) = Offer v"
| "mirror_action (Offer v) = Adopt v"
| "mirror_action a = a"

definition same_author_same_version :: "file_version \<Rightarrow> file_version \<Rightarrow> bool" where
  \<comment> \<open>one author's versions of a path with one content are one version, histories aside\<close>
  "same_author_same_version l r \<longleftrightarrow>
     (modified_by l = modified_by r \<and> content l = content r \<longrightarrow>
      modified_at l = modified_at r \<and> area l = area r)"

definition comparable :: "file_version \<Rightarrow> file_version \<Rightarrow> bool" where
  "comparable l r \<longleftrightarrow> vv_ok (vector l) \<and> vv_ok (vector r) \<and> hash_names_content l r
     \<and> same_author_same_version l r"

lemma resolve_Merge_content: "resolve l r = Some res \<Longrightarrow> outcome res = Merge \<Longrightarrow> content l = content r"
  by (auto simp: resolve_def resolve_concurrent_def same_content_def Let_def
      split: causality.splits if_splits bool.splits)

lemma resolve_action_mirror:
  assumes "comparable l r" and "path l = path r"
  shows "resolve_action r l = map_option (map mirror_action) (resolve_action l r)"
proof -
  have m: "resolve r l = map_option mirror_resolution (resolve l r)"
    using assms by (intro resolve_mirror) (auto simp: comparable_def)
  show ?thesis
  proof (cases "resolve l r")
    case None
    then show ?thesis by (simp add: resolve_action_def m)
  next
    case (Some res)
    have same: "content l = content r \<Longrightarrow> modified_by l = modified_by r \<Longrightarrow>
        l\<lparr>vector := v\<rparr> = r\<lparr>vector := v\<rparr>" for v
      using assms by (auto simp: comparable_def same_author_same_version_def)
    show ?thesis
    proof (cases "outcome res")
      case Merge
      with same resolve_Merge_content [OF Some Merge] show ?thesis
        by (auto simp: resolve_action_def m Some mirror_resolution_def Let_def)
    next
      case (Conflict s name)
      then show ?thesis
        by (cases s) (simp_all add: resolve_action_def m Some mirror_resolution_def)
    next
      case (Resurrect s)
      then show ?thesis
        by (cases s) (simp_all add: resolve_action_def m Some mirror_resolution_def)
    qed (simp_all add: resolve_action_def m Some mirror_resolution_def)
  qed
qed

definition trees_comparable :: "file_version list \<Rightarrow> file_version list \<Rightarrow> bool" where
  "trees_comparable local remote \<longleftrightarrow>
     (\<forall>l \<in> set local. \<forall>r \<in> set remote. path l = path r \<longrightarrow> comparable l r)"

lemma path_action_mirror:
  assumes "trees_comparable local remote"
  shows "path_action (by_path remote) (by_path local) p =
    map_option (map mirror_action) (path_action (by_path local) (by_path remote) p)"
  using assms
  by (auto simp: path_action_def trees_comparable_def split: option.splits
      intro!: resolve_action_mirror dest!: by_path_get)

lemma reconcile_loop_mirror:
  assumes "trees_comparable local remote"
  shows "reconcile_loop (by_path remote) (by_path local) ps [] =
    map_option (map mirror_action) (reconcile_loop (by_path local) (by_path remote) ps [])"
proof (induction ps)
  case Nil
  then show ?case by simp
next
  case (Cons p ps)
  then show ?case
    unfolding reconcile_loop_Cons path_action_mirror [OF assms]
    by (cases "path_action (by_path local) (by_path remote) p";
        cases "reconcile_loop (by_path local) (by_path remote) ps []") simp_all
qed

lemma reconcile_mirror:
  "trees_comparable local remote \<Longrightarrow>
   reconcile remote local = map_option (map mirror_action) (reconcile local remote)"
  unfolding reconcile_eq
  by (subst all_paths_commute) (rule reconcile_loop_mirror)

text \<open>C5: two devices comparing notes make the same plan, when their lists are comparable (where one
  author recorded one content of a path on both sides, it did so at one time and in one area; a hash
  names one content; vectors are well formed): what one adopts the other offers, and conflicts, resurrections and merges come out identical on both, in the same order.
  Where a device recorded the same content of a path again, the two plans keep different times
  (\<open>merge_by_one_author_differs\<close> below).\<close>

theorem reconcile_is_symmetric:
  assumes "trees_comparable local remote"
  shows "reconcile remote local = map_option (map mirror_action) (reconcile local remote)"
  by (rule reconcile_mirror [OF assms])

subsection \<open>The plan's order\<close>

lemma reconcile_loop_paths:
  "reconcile_loop (by_path local) (by_path remote) ps [] = Some acts \<Longrightarrow>
   set (map action_path acts) \<subseteq> set ps \<and> (bs_ok ps \<longrightarrow> sorted_wrt (<) (map action_path acts))"
proof (induction ps arbitrary: acts)
  case Nil
  then show ?case by simp
next
  case (Cons p ps)
  then obtain a rest where a: "path_action (by_path local) (by_path remote) p = Some a"
    and rest: "reconcile_loop (by_path local) (by_path remote) ps [] = Some rest"
    and acts: "acts = a @ rest"
    unfolding reconcile_loop_Cons by (auto simp: Option.bind_eq_Some_conv)
  from path_action_path [OF a] Cons.IH [OF rest] show ?case
    by (fastforce simp: acts bs_ok_def)
qed

text \<open>A plan is ordered by path with at most one action for each, and a path only one side
  has heard of is offered or adopted, tombstone included.\<close>

theorem reconcile_orders_by_path:
  assumes "reconcile local remote = Some acts"
  shows "sorted_wrt (<) (map action_path acts)
    \<and> set (map action_path acts) \<subseteq> path ` set local \<union> path ` set remote"
proof -
  have "set (map action_path acts) \<subseteq> set (all_paths (by_path local) (by_path remote))"
    and "sorted_wrt (<) (map action_path acts)"
    using reconcile_loop_paths [OF assms [unfolded reconcile_eq]] all_paths_ok by blast+
  moreover have "set (all_paths (by_path local) (by_path remote)) \<subseteq> path ` set local \<union> path ` set remote"
    by (auto simp: all_paths_set dest!: by_path_get)
  ultimately show ?thesis by blast
qed

text \<open>A tree compared with itself needs no work, whatever it holds.\<close>

theorem reconcile_self: "reconcile vs vs = Some []"
proof -
  have self: "resolve_action v v = Some []" for v
    by (simp add: resolve_action_def resolve_def vv_compare_eq causality_of_def)
  have "reconcile_loop m m ps [] = Some []"
    if "\<forall>p \<in> set ps. bm_get m p \<noteq> None" for m ps
    using that
  proof (induction ps)
    case Nil
    then show ?case by simp
  next
    case (Cons p ps)
    then show ?case
      unfolding reconcile_loop_Cons by (auto simp: path_action_def self)
  qed
  then show ?thesis unfolding reconcile_eq by (simp add: all_paths_set)
qed

subsection \<open>Carrying the plan out on both sides\<close>

type_synonym tree = "string \<Rightarrow> file_version option"

fun apply_action :: "tree \<Rightarrow> action \<Rightarrow> tree" where
  \<comment> \<open>the specification: the end state each action describes\<close>
  "apply_action t (Adopt v) = t(path v \<mapsto> v)"
| "apply_action t (Offer v) = t"
| "apply_action t (AConflict k n) = t(path k \<mapsto> k, path n \<mapsto> n)"
| "apply_action t (AResurrect v) = t(path v \<mapsto> v)"
| "apply_action t (AMerge v) = t(path v \<mapsto> v)"
| "apply_action t (AHold owner v) = t"
| "apply_action t (Restored v) = t(path v \<mapsto> v)"

definition apply_actions :: "tree \<Rightarrow> action list \<Rightarrow> tree" where
  "apply_actions t acts = fold (\<lambda>a t. apply_action t a) acts t"

definition renames_fresh :: "tree \<Rightarrow> tree \<Rightarrow> action list \<Rightarrow> bool" where
  \<comment> \<open>no conflict copy's name is taken on either side\<close>
  "renames_fresh l r acts \<longleftrightarrow>
     (\<forall>k n. AConflict k n \<in> set acts \<longrightarrow> l (path n) = None \<and> r (path n) = None)"

lemma apply_action_other:
  "p \<noteq> action_path a \<Longrightarrow> (\<forall>k n. a = AConflict k n \<longrightarrow> p \<noteq> path n) \<Longrightarrow> apply_action t a p = t p"
  by (cases a) auto

lemma apply_mirror_agrees:
  assumes "t p = t' p" and "\<forall>v. a \<noteq> Offer v" and "\<forall>v. a \<noteq> Adopt v"
  shows "apply_action t a p = apply_action t' (mirror_action a) p"
  using assms by (cases a) auto

lemma resolve_InSync_same:
  "vv_ok (vector l) \<Longrightarrow> vv_ok (vector r) \<Longrightarrow> resolve l r = Some res \<Longrightarrow>
   outcome res = InSync \<Longrightarrow> vector l = vector r"
  by (auto simp: resolve_def resolve_concurrent_def compare_Equal_iff Let_def
      split: causality.splits if_splits bool.splits)

definition vector_names_version :: "file_version \<Rightarrow> file_version \<Rightarrow> bool" where
  \<comment> \<open>what a vector is for: versions of a path with one vector are one version\<close>
  "vector_names_version l r \<longleftrightarrow> (path l = path r \<and> vector l = vector r \<longrightarrow> l = r)"

lemma path_action_settles:
  assumes "path_action (by_path local) (by_path remote) p = Some acts"
    and "trees_comparable local remote"
    and "\<forall>l \<in> set local. \<forall>r \<in> set remote. vector_names_version l r"
    and "t p = bm_get (by_path local) p" and "t' p = bm_get (by_path remote) p"
    and "\<forall>k n. AConflict k n \<in> set acts \<longrightarrow> path n \<noteq> p"
  shows "apply_actions t acts p = apply_actions t' (map mirror_action acts) p"
proof (cases "bm_get (by_path local) p")
  case None
  then obtain r where "bm_get (by_path remote) p = Some r"
    using assms(1) by (auto simp: path_action_def split: option.splits)
  with None assms(1,4,5) by_path_get [OF this] show ?thesis
    by (auto simp: path_action_def apply_actions_def)
next
  case (Some l)
  note l = by_path_get [OF Some]
  show ?thesis
  proof (cases "bm_get (by_path remote) p")
    case None
    with Some assms(1,4,5) l show ?thesis by (auto simp: path_action_def apply_actions_def)
  next
    case r_at: (Some r)
    note r = by_path_get [OF r_at]
    have ra: "resolve_action l r = Some acts"
      using assms(1) Some r_at by (simp add: path_action_def)
    then obtain res where res: "resolve l r = Some res" by (auto simp: resolve_action_def)
    have "comparable l r" using assms(2) l r by (auto simp: trees_comparable_def)
    then have same: "outcome res = InSync \<Longrightarrow> l = r"
      using resolve_InSync_same [OF _ _ res] assms(3) l r
      by (auto simp: comparable_def vector_names_version_def)
    note simps = ra [unfolded resolve_action_def res option.map option.inject] assms(4-6) Some r_at l r
    show ?thesis
    proof (cases "outcome res")
      case (Conflict s name)
      with simps show ?thesis by (cases s) (auto simp: apply_actions_def)
    next
      case (Resurrect s)
      with simps show ?thesis by (cases s) (auto simp: apply_actions_def)
    next
      case InSync
      with simps same show ?thesis by (auto simp: apply_actions_def)
    qed (use simps in \<open>auto simp: apply_actions_def Let_def\<close>)
  qed
qed

lemma apply_action_agrees_elsewhere:
  assumes "t q = t' q" and "q \<noteq> action_path a"
  shows "apply_action t a q = apply_action t' (mirror_action a) q"
  using assms by (cases a) auto

lemma apply_actions_Cons: "apply_actions t (a # acts) = apply_actions (apply_action t a) acts"
  by (simp add: apply_actions_def)

lemma apply_actions_append: "apply_actions t (xs @ ys) = apply_actions (apply_actions t xs) ys"
  by (simp add: apply_actions_def)

lemma reconcile_loop_converges:
  assumes "trees_comparable local remote"
    and "\<forall>l \<in> set local. \<forall>r \<in> set remote. vector_names_version l r"
  shows "\<lbrakk>reconcile_loop (by_path local) (by_path remote) ps [] = Some acts; distinct ps;
    \<forall>k n. AConflict k n \<in> set acts \<longrightarrow> path n \<notin> set ps;
    \<forall>p \<in> set ps. t p = bm_get (by_path local) p \<and> t' p = bm_get (by_path remote) p;
    \<forall>p. p \<notin> set ps \<longrightarrow> t p = t' p\<rbrakk>
    \<Longrightarrow> apply_actions t acts = apply_actions t' (map mirror_action acts)"
proof (induction ps arbitrary: acts t t')
  case Nil
  then show ?case by (auto simp: apply_actions_def)
next
  case (Cons p ps)
  from Cons.prems(1) obtain a rest
    where a: "path_action (by_path local) (by_path remote) p = Some a"
      and rest: "reconcile_loop (by_path local) (by_path remote) ps [] = Some rest"
      and acts: "acts = a @ rest"
    unfolding reconcile_loop_Cons by (auto simp: Option.bind_eq_Some_conv)
  have fresh: "\<forall>k n. AConflict k n \<in> set a \<longrightarrow> path n \<notin> set (p # ps)"
    using Cons.prems(3) acts by simp
  have settled: "apply_actions t a p = apply_actions t' (map mirror_action a) p"
    by (rule path_action_settles [OF a assms]) (use Cons.prems(4) fresh in auto)
  have elsewhere: "apply_actions t a q = apply_actions t' (map mirror_action a) q"
    if "q \<noteq> p" "t q = t' q" for q
    using path_action_path [OF a] that apply_action_agrees_elsewhere [of t q t']
    by (auto simp: apply_actions_def)
  have kept: "apply_actions t a q = t q \<and> apply_actions t' (map mirror_action a) q = t' q"
    if "q \<in> set ps" for q
  proof -
    have "q \<noteq> p" using that Cons.prems(2) by auto
    consider "a = []" | b where "a = [b]" "action_path b = p" using path_action_path [OF a] by auto
    then show ?thesis
    proof cases
      case 2
      with \<open>q \<noteq> p\<close> that fresh show ?thesis by (cases b) (auto simp: apply_actions_def)
    qed (simp add: apply_actions_def)
  qed
  have "apply_actions (apply_actions t a) rest =
      apply_actions (apply_actions t' (map mirror_action a)) (map mirror_action rest)"
  proof (rule Cons.IH [OF rest])
    show "distinct ps" using Cons.prems(2) by simp
    show "\<forall>k n. AConflict k n \<in> set rest \<longrightarrow> path n \<notin> set ps"
      using Cons.prems(3) acts by simp
    show "\<forall>q \<in> set ps. apply_actions t a q = bm_get (by_path local) q \<and>
        apply_actions t' (map mirror_action a) q = bm_get (by_path remote) q"
      using kept Cons.prems(4) by simp
    show "\<forall>q. q \<notin> set ps \<longrightarrow> apply_actions t a q = apply_actions t' (map mirror_action a) q"
      using settled elsewhere Cons.prems(5) by (metis set_ConsD)
  qed
  then show ?case by (simp add: acts apply_actions_append)
qed

lemma reconcile_settles:
  assumes "reconcile local remote = Some acts" and "trees_comparable local remote"
    and "\<forall>l \<in> set local. \<forall>r \<in> set remote. vector_names_version l r"
    and "renames_fresh (bm_get (by_path local)) (bm_get (by_path remote)) acts"
  shows "apply_actions (bm_get (by_path local)) acts = apply_actions (bm_get (by_path remote)) (map mirror_action acts)"
proof (rule reconcile_loop_converges [OF assms(2,3) assms(1) [unfolded reconcile_eq]])
  show "distinct (all_paths (by_path local) (by_path remote))"
    using all_paths_ok [of "by_path local" "by_path remote"]
    by (simp add: bs_ok_def strict_sorted_iff)
  show "\<forall>k n. AConflict k n \<in> set acts \<longrightarrow> path n \<notin> set (all_paths (by_path local) (by_path remote))"
    using assms(4) by (simp add: renames_fresh_def all_paths_set)
qed (auto simp: all_paths_set)

text \<open>C4: one exchange converges. When both devices carry out the plan they made (each its own
  mirror of it), they end with equal trees, provided the two lists are comparable (where one author
  recorded one content of a path on both sides, it did so at one time and in one area; a hash names
  one content; vectors are well formed), one vector names one version of a path, and no conflict
  copy's name is taken. \<open>merge_by_one_author_differs\<close> below is a case
  where the first fails and the trees end unequal.\<close>

theorem one_exchange_converges:
  assumes "reconcile local remote = Some acts" and "trees_comparable local remote"
    and "\<forall>l \<in> set local. \<forall>r \<in> set remote. vector_names_version l r"
    and "renames_fresh (bm_get (by_path local)) (bm_get (by_path remote)) acts"
  shows "\<exists>theirs. reconcile remote local = Some theirs \<and>
    apply_actions (bm_get (by_path local)) acts = apply_actions (bm_get (by_path remote)) theirs"
  using reconcile_settles [OF assms] reconcile_mirror [OF assms(2)] assms(1) by simp

subsection \<open>Two small trees\<close>

definition here :: "file_version list" where
  "here = [sample_edit 1 9, tombstone ''gone'' (sample_vector 1 2) (DeviceId (replicate 32 1)) 7]"

definition there :: "file_version list" where
  "there = [sample_edit 2 8, file_of ''new'' [1] 1 (sample_vector 2 1) (DeviceId (replicate 32 2)) 9]"

lemma here_there_comparable: "trees_comparable here there"
  by (simp add: trees_comparable_def here_def there_def comparable_def sample_edit_ok
      sample_edit_hash) (simp add: sample_edit_def file_of_def tombstone_def same_author_same_version_def)

lemma here_there_plan:
  "map_option (map action_path) (reconcile here there) = Some [''a.txt'', ''gone'', ''new'']"
  by code_simp

lemma here_there_some: obtains acts where "reconcile here there = Some acts"
  using here_there_plan by (cases "reconcile here there") auto

theorem reconcile_is_symmetric_witness:
  "map_option (map action_path) (reconcile there here) = Some [''a.txt'', ''gone'', ''new'']"
proof -
  have same: "action_path (mirror_action a) = action_path a" for a by (cases a) simp_all
  show ?thesis
    by (rule here_there_some)
      (use reconcile_is_symmetric [OF here_there_comparable] here_there_plan in
        \<open>simp add: same o_def\<close>)
qed

theorem reconcile_orders_by_path_witness:
  "\<exists>acts. reconcile here there = Some acts \<and> sorted_wrt (<) (map action_path acts)"
  by (rule here_there_some, drule reconcile_orders_by_path [of here there, OF])
    (use here_there_plan in auto)

theorem one_exchange_converges_witness:
  "\<exists>acts theirs. reconcile here there = Some acts \<and> reconcile there here = Some theirs
     \<and> apply_actions (bm_get (by_path here)) acts = apply_actions (bm_get (by_path there)) theirs
     \<and> apply_actions (bm_get (by_path here)) acts ''a.txt'' \<noteq> bm_get (by_path here) ''a.txt''"
proof -
  let ?name = "''a.conflict-02020202-2025-09-10-000000.txt''"
  let ?renames = "\<lambda>acts. concat (map (\<lambda>a. case a of AConflict k n \<Rightarrow> [path n] | _ \<Rightarrow> []) acts)"
  obtain acts where acts: "reconcile here there = Some acts" by (rule here_there_some)
  have "map_option ?renames (reconcile here there) = Some [?name]" by code_simp
  then have "?renames acts = [?name]" by (simp add: acts)
  then have "path n = ?name" if "AConflict k n \<in> set acts" for k n
  proof -
    from that have "path n \<in> set (?renames acts)" by force
    with \<open>?renames acts = [?name]\<close> show ?thesis by simp
  qed
  moreover have "bm_get (by_path here) ?name = None" and "bm_get (by_path there) ?name = None"
    by code_simp+
  ultimately have fresh: "renames_fresh (bm_get (by_path here)) (bm_get (by_path there)) acts"
    by (auto simp: renames_fresh_def)
  have names: "\<forall>l \<in> set here. \<forall>r \<in> set there. vector_names_version l r"
    by (simp add: here_def there_def vector_names_version_def sample_edit_def file_of_def
        tombstone_def sample_vector_def)
  have "map_option (\<lambda>acts. map_option vector (apply_actions (bm_get (by_path here)) acts ''a.txt'')
      = map_option vector (bm_get (by_path here) ''a.txt'')) (reconcile here there) = Some False"
    by code_simp
  then have "apply_actions (bm_get (by_path here)) acts ''a.txt'' \<noteq> bm_get (by_path here) ''a.txt''"
    by (auto simp: acts)
  with acts one_exchange_converges [OF acts here_there_comparable names fresh] show ?thesis by blast
qed

subsection \<open>Where two copies of one author's edit do not merge alike\<close>

text \<open>
  The device \<open>1\<close> edits, the device \<open>2\<close> has made the same edit and the two are merged under
  \<open>1\<close>'s name. Meanwhile \<open>1\<close> records the same content again, later. Both versions carry one
  author and one content, so the tie break on the author keeps the local one on each side.
\<close>

definition merged_earlier :: file_version where
  "merged_earlier = file_of ''a.txt'' [9] 1
     (VersionVector [(DeviceId [1], 1), (DeviceId [2], 1)]) (DeviceId [1]) 5"

definition recorded_again :: file_version where
  "recorded_again = file_of ''a.txt'' [9] 1 (VersionVector [(DeviceId [1], 2)]) (DeviceId [1]) 6"

text \<open>The merge of two versions by one author does not land on identical metadata: each
  device records its own modification time under the same vector.\<close>

theorem merge_by_one_author_differs:
  "map_option (map (\<lambda>a. modified_at (merged_version a))) (reconcile [merged_earlier] [recorded_again])
     = Some [5]
   \<and> map_option (map (\<lambda>a. modified_at (merged_version a))) (reconcile [recorded_again] [merged_earlier])
     = Some [6]
   \<and> map_option (map (\<lambda>a. vector (merged_version a))) (reconcile [merged_earlier] [recorded_again])
     = map_option (map (\<lambda>a. vector (merged_version a))) (reconcile [recorded_again] [merged_earlier])"
  by code_simp

end
