(* ===== verification/Sharing.thy ===== *)
theory Sharing imports Resolve
begin

section \<open>Which devices a folder is shared with (\<open>crates/sync/src/sharing.rs\<close>)\<close>

text \<open>
  Rules are small files: where a folder's rule file lives, which devices it names, and how a
  set of rules answers whether a device may see a path. Rules are kept by folder in a map,
  their members as an ordered set of devices.
\<close>

definition SHARING_DIR :: string where
  "SHARING_DIR = ''.qurb-sharing''"

definition is_rule_path :: "string \<Rightarrow> bool" where
  "is_rule_path p =
     (case strip_prefix p SHARING_DIR of None \<Rightarrow> False | Some rest \<Rightarrow> starts_with rest ''/'')"

definition rule_path :: "string \<Rightarrow> string" where
  "rule_path folder =
     SHARING_DIR @ ''/'' @ replace ''/'' ''%2F'' (replace ''%'' ''%25'' folder)"

definition valid_folder :: "string \<Rightarrow> bool" where
  "valid_folder folder \<longleftrightarrow>
     folder \<noteq> [] \<and> \<not> starts_with folder ''/'' \<and> \<not> ends_with folder ''/''
     \<and> \<not> is_rule_path folder \<and> folder \<noteq> SHARING_DIR \<and> is_safe_path folder"

definition rule_folder :: "string \<Rightarrow> string option" where
  "rule_folder p =
     (case Option.bind (strip_prefix p SHARING_DIR) (\<lambda>rest. strip_prefix rest ''/'') of
        None \<Rightarrow> None
      | Some name \<Rightarrow>
          if name = [] \<or> CHR ''/'' \<in> set name \<or> conflict_origin p \<noteq> None then None
          else (let folder = replace ''%25'' ''%'' (replace ''%2F'' ''/'' name)
                in if valid_folder folder then Some folder else None))"

definition members_heading :: string where
  "members_heading =
     ''# The devices this folder is shared with. Written by qurb; see decision 0044.''"

definition encode_members :: "device_id list \<Rightarrow> string" where
  "encode_members members =
     fold (\<lambda>device out. (out @ to_hex device) @ [CHR 0x0A]) members (members_heading @ [CHR 0x0A])"

definition parse_members :: "string \<Rightarrow> device_id list" where
  "parse_members text = bs_collect (List.map_filter (\<lambda>line. from_hex (trim line)) (str_lines text))"

datatype rules = Rules (rule_map: "(string \<times> device_id list) list")

definition beneath :: "string \<Rightarrow> string \<Rightarrow> bool" where
  \<comment> \<open>\<open>path.strip_prefix(folder).is_some_and(|rest| rest.starts_with('/'))\<close>\<close>
  "beneath p folder =
     (case strip_prefix p folder of None \<Rightarrow> False | Some rest \<Rightarrow> starts_with rest ''/'')"

definition covering :: "rules \<Rightarrow> string \<Rightarrow> (string \<times> device_id list) option" where
  "covering rs p = find (\<lambda>(folder, _). p = folder \<or> beneath p folder) (rule_map rs)"

definition allows :: "rules \<Rightarrow> string \<Rightarrow> device_id \<Rightarrow> bool" where
  "allows rs p device =
     (case covering rs p of None \<Rightarrow> True | Some (_, members) \<Rightarrow> device \<in> set members)"

definition nests :: "rules \<Rightarrow> string \<Rightarrow> string option" where
  "nests rs folder =
     find (\<lambda>existing. existing \<noteq> folder \<and> (beneath folder existing \<or> beneath existing folder))
       (bm_keys (rule_map rs))"

definition may_change :: "rules \<Rightarrow> string \<Rightarrow> device_id \<Rightarrow> bool" where
  "may_change rs folder device =
     (case bm_get (rule_map rs) folder of None \<Rightarrow> True | Some members \<Rightarrow> device \<in> set members)"

subsection \<open>A rule file's name\<close>

lemma beneath_iff: "beneath p folder \<longleftrightarrow> (\<exists>r. p = folder @ CHR ''/'' # r)"
  by (auto simp: beneath_def strip_prefix_Some_iff starts_with_iff strip_prefix_def split: option.splits)

lemma is_rule_path_iff: "is_rule_path p \<longleftrightarrow> (\<exists>r. p = SHARING_DIR @ CHR ''/'' # r)"
  using beneath_iff [of p SHARING_DIR] by (simp add: beneath_def is_rule_path_def)

definition escape :: "char \<Rightarrow> string" where
  \<comment> \<open>what becomes of each character of the folder\<close>
  "escape c = (if c = CHR ''%'' then ''%25'' else if c = CHR ''/'' then ''%2F'' else [c])"

lemma rule_path_escape: "rule_path folder = SHARING_DIR @ CHR ''/'' # concat (map escape folder)"
proof -
  have "replace ''/'' ''%2F'' (replace ''%'' ''%25'' folder) = concat (map escape folder)"
    unfolding replace_char by (induction folder) (auto simp: escape_def)
  then show ?thesis by (simp add: rule_path_def)
qed

lemma unescape_slash:
  "replace ''%2F'' ''/'' (concat (map escape s)) =
     concat (map (\<lambda>c. if c = CHR ''%'' then ''%25'' else [c]) s)"
proof (induction s)
  case Nil
  then show ?case by simp
next
  case (Cons c s)
  have hit: "replace ''%2F'' ''/'' (''%2F'' @ t) = ''/'' @ replace ''%2F'' ''/'' t" for t
    by (rule replace_hit) simp
  have miss: "replace ''%2F'' ''/'' (''%25'' @ t) = ''%25'' @ replace ''%2F'' ''/'' t" for t
    by (simp add: replace.simps(2) starts_with_def)
  show ?case
    using Cons hit [of "concat (map escape s)"] miss [of "concat (map escape s)"]
    by (auto simp: escape_def [of c] replace_other [OF refl])
qed

lemma unescape_percent:
  "replace ''%25'' ''%'' (concat (map (\<lambda>c. if c = CHR ''%'' then ''%25'' else [c]) s)) = s"
proof (induction s)
  case Nil
  then show ?case by simp
next
  case (Cons c s)
  have hit: "replace ''%25'' ''%'' (''%25'' @ t) = ''%'' @ replace ''%25'' ''%'' t" for t
    by (rule replace_hit) simp
  show ?case using Cons hit by (auto simp: replace_other [OF refl])
qed

lemma escape_no_slash: "CHR ''/'' \<notin> set (concat (map escape s))"
  by (auto simp: escape_def split: if_splits)

lemma escape_nonempty: "s \<noteq> [] \<Longrightarrow> concat (map escape s) \<noteq> []"
  by (cases s) (auto simp: escape_def)

lemma rule_folder_of_rule_path:
  "rule_folder (rule_path folder) =
     (if valid_folder folder \<and> conflict_origin (rule_path folder) = None then Some folder else None)"
proof -
  have "strip_prefix (rule_path folder) SHARING_DIR = Some (CHR ''/'' # concat (map escape folder))"
    by (simp add: strip_prefix_Some_iff rule_path_escape)
  moreover have "strip_prefix (CHR ''/'' # concat (map escape folder)) ''/'' =
      Some (concat (map escape folder))"
    by (simp add: strip_prefix_Some_iff)
  moreover have "valid_folder folder \<Longrightarrow> folder \<noteq> []" by (simp add: valid_folder_def)
  ultimately show ?thesis
    using escape_no_slash [of folder] escape_nonempty [of folder]
    by (auto simp: rule_folder_def unescape_slash unescape_percent Let_def
        simp del: set_concat)
qed

text \<open>A folder's rule file names that folder and no other, and is read as its rule, as long
  as the folder can have a rule and its name does not look like a conflict copy's; whatever file
  is read as a rule is about a folder that can have one.\<close>

lemma rule_file_names_its_folder:
  assumes "valid_folder folder" and "conflict_origin (rule_path folder) = None"
  shows "is_rule_path (rule_path folder) \<and> rule_folder (rule_path folder) = Some folder
    \<and> (\<forall>other. rule_path other = rule_path folder \<longrightarrow> other = folder)
    \<and> (\<forall>p f. rule_folder p = Some f \<longrightarrow> valid_folder f \<and> is_rule_path p)"
proof -
  have "other = folder" if "rule_path other = rule_path folder" for other
  proof -
    from that have "concat (map escape other) = concat (map escape folder)"
      by (simp add: rule_path_escape)
    then have "replace ''%25'' ''%'' (replace ''%2F'' ''/'' (concat (map escape other))) =
        replace ''%25'' ''%'' (replace ''%2F'' ''/'' (concat (map escape folder)))" by simp
    then show ?thesis by (simp only: unescape_slash unescape_percent)
  qed
  moreover have "valid_folder f \<and> is_rule_path p" if "rule_folder p = Some f" for p f
    using that
    by (auto simp: rule_folder_def is_rule_path_iff strip_prefix_Some_iff Let_def
        Option.bind_eq_Some_conv split: option.splits if_splits)
  ultimately show ?thesis
    using assms rule_folder_of_rule_path [of folder] by (simp add: is_rule_path_iff rule_path_escape)
qed

lemma rule_file_names_its_folder_witness:
  "rule_folder (rule_path ''100%/done'') = Some ''100%/done''
   \<and> rule_path ''100%/done'' = ''.qurb-sharing/100%25%2Fdone''"
proof -
  have "valid_folder ''100%/done''" and "conflict_origin (rule_path ''100%/done'') = None"
    and "rule_path ''100%/done'' = ''.qurb-sharing/100%25%2Fdone''" by code_simp+
  with rule_file_names_its_folder [of "''100%/done''"] show ?thesis by blast
qed

text \<open>A folder whose name looks like a conflict copy's is offered a rule file that is never
  read back as a rule, so it stays shared with every device: the rule is dropped in silence.\<close>

theorem conflict_named_folder_has_no_rule:
  "valid_folder ''Trip.conflict-a1a1a1a1-2026-09-28-101502''
   \<and> nests (Rules []) ''Trip.conflict-a1a1a1a1-2026-09-28-101502'' = None
   \<and> rule_folder (rule_path ''Trip.conflict-a1a1a1a1-2026-09-28-101502'') = None"
  by code_simp

subsection \<open>The members a rule file names\<close>

lemma encode_members_eq:
  "encode_members members = concat (map (\<lambda>line. line @ [CHR 0x0A]) (members_heading # map to_hex members))"
proof -
  have "fold (\<lambda>device out. (out @ to_hex device) @ [CHR 0x0A]) ds out
      = out @ concat (map (\<lambda>line. line @ [CHR 0x0A]) (map to_hex ds))" for ds out
    by (induction ds arbitrary: out) simp_all
  then show ?thesis by (simp add: encode_members_def)
qed

lemma to_hex_chars: "c \<in> set (to_hex d) \<Longrightarrow> \<exists>n < 16. c = hex_digit n"
  by (simp add: to_hex_def fmt_def hex_chars del: set_concat)

lemma hex_digit_ascii: "n < 16 \<Longrightarrow> 48 \<le> (of_char (hex_digit n) :: nat) \<and> (of_char (hex_digit n) :: nat) < 127"
  by (simp add: of_char_hex_digit)

lemma to_hex_ascii: "c \<in> set (to_hex d) \<Longrightarrow> 48 \<le> (of_char c :: nat) \<and> (of_char c :: nat) < 127"
  using to_hex_chars hex_digit_ascii by blast

lemma trim_to_hex: "trim (to_hex d) = to_hex d"
  by (rule trim_ascii_word) (use to_hex_ascii in fastforce)

lemma to_hex_line: "CHR 0x0A \<notin> set (to_hex d) \<and> \<not> ends_with (to_hex d) [CHR 0x0D]"
proof -
  have "\<not> 48 \<le> (of_char (CHR 0x0A) :: nat)" "\<not> 48 \<le> (of_char (CHR 0x0D) :: nat)" by code_simp+
  then show ?thesis using to_hex_ascii [of _ d] by (fastforce simp: ends_with_iff)
qed

lemma heading_line: "CHR 0x0A \<notin> set members_heading \<and> \<not> ends_with members_heading [CHR 0x0D]
    \<and> from_hex (trim members_heading) = None"
  by code_simp

text \<open>The members written to a rule file are the members read from it, whatever lines that
  name no device are put between them.\<close>

lemma members_round_trip:
  assumes "bs_ok members" and "\<forall>d \<in> set members. device_ok d"
  shows "parse_members (encode_members members) = members
    \<and> (\<forall>notes. (\<forall>n \<in> set notes. CHR 0x0A \<notin> set n \<and> \<not> ends_with n [CHR 0x0D] \<and> from_hex (trim n) = None)
        \<longrightarrow> parse_members (encode_members members @ concat (map (\<lambda>n. n @ [CHR 0x0A]) notes)) = members)"
proof -
  have main: "parse_members (encode_members members @ concat (map (\<lambda>n. n @ [CHR 0x0A]) ns)) = members"
    if plain: "\<forall>n \<in> set ns. CHR 0x0A \<notin> set n \<and> \<not> ends_with n [CHR 0x0D] \<and> from_hex (trim n) = None"
    for ns
  proof -
    let ?lines = "members_heading # map to_hex members @ ns"
    have "str_lines (concat (map (\<lambda>l. l @ [CHR 0x0A]) ?lines)) = ?lines"
      using plain heading_line to_hex_line by (intro str_lines_of_lines) auto
    moreover have "List.map_filter (\<lambda>l. from_hex (trim l)) ns = []"
      if "\<forall>n \<in> set ns. from_hex (trim n) = None" for ns
      using that by (induction ns) (auto simp: List.map_filter_simps)
    moreover have "List.map_filter (\<lambda>l. from_hex (trim l)) (map to_hex ds @ ns)
        = ds @ List.map_filter (\<lambda>l. from_hex (trim l)) ns" if "\<forall>d \<in> set ds. device_ok d" for ds ns
      using that
      by (induction ds) (auto simp: List.map_filter_simps trim_to_hex from_hex_to_hex)
    ultimately show ?thesis
      using plain heading_line assms
      by (simp add: parse_members_def encode_members_eq List.map_filter_simps bs_collect_sorted)
  qed
  from main [of "[]"] main show ?thesis by simp
qed

theorem members_round_trip_witness:
  "parse_members (encode_members [sample_device] @ ''not a device'' @ [CHR 0x0A]) = [sample_device]"
proof -
  have "bs_ok [sample_device]" and "\<forall>d \<in> set [sample_device]. device_ok d"
    by (simp_all add: bs_ok_def sample_device_ok)
  moreover have "CHR 0x0A \<notin> set ''not a device'' \<and> \<not> ends_with ''not a device'' [CHR 0x0D]
      \<and> from_hex (trim ''not a device'') = None" by code_simp
  ultimately show ?thesis
    using members_round_trip [of "[sample_device]"]
    by (auto dest!: spec [of _ "[''not a device'']"])
qed

subsection \<open>Rules that do not nest\<close>

definition covers :: "string \<Rightarrow> string \<Rightarrow> bool" where
  "covers folder p \<longleftrightarrow> p = folder \<or> beneath p folder"

definition rules_flat :: "rules \<Rightarrow> bool" where
  \<comment> \<open>what \<open>nests\<close> keeps: a map, and no folder with a rule inside another\<close>
  "rules_flat rs \<longleftrightarrow> bm_ok (rule_map rs)
     \<and> (\<forall>f \<in> set (bm_keys (rule_map rs)). \<forall>g \<in> set (bm_keys (rule_map rs)). \<not> beneath f g)"

lemma covers_prefix: "covers f p \<Longrightarrow> \<exists>r. p @ ''/'' = f @ CHR ''/'' # r"
  by (auto simp: covers_def beneath_iff)

lemma covers_comparable:
  assumes "covers f p" and "covers g p"
  shows "f = g \<or> beneath f g \<or> beneath g f"
proof -
  from assms obtain r s where "p @ ''/'' = f @ CHR ''/'' # r" and "p @ ''/'' = g @ CHR ''/'' # s"
    using covers_prefix by meson
  then have "f @ CHR ''/'' # r = g @ CHR ''/'' # s" by simp
  then show ?thesis
    by (auto simp: append_eq_append_conv2 beneath_iff) (metis append_eq_Cons_conv)+
qed

lemma flat_unique:
  assumes "rules_flat rs" and "(f, m) \<in> set (rule_map rs)" and "(g, n) \<in> set (rule_map rs)"
    and "covers f p" and "covers g p"
  shows "f = g \<and> m = n"
proof -
  have "f \<in> set (bm_keys (rule_map rs))" and "g \<in> set (bm_keys (rule_map rs))"
    using assms(2,3) by (force simp: bm_keys_def)+
  with covers_comparable [OF assms(4,5)] assms(1) have "f = g"
    by (auto simp: rules_flat_def)
  moreover have "m = n" if "f = g"
    using that assms(1-3) bm_get_mem by (metis option.inject rules_flat_def)
  ultimately show ?thesis by simp
qed

lemma covering_Some:
  "covering rs p = Some (f, m) \<Longrightarrow> (f, m) \<in> set (rule_map rs) \<and> covers f p"
  by (auto simp: covering_def covers_def find_Some_iff dest: nth_mem)

lemma covering_None: "covering rs p = None \<longleftrightarrow> (\<forall>(f, m) \<in> set (rule_map rs). \<not> covers f p)"
  by (auto simp: covering_def covers_def find_None_iff)

lemma nests_None:
  "nests rs folder = None \<longleftrightarrow> (\<forall>g \<in> set (bm_keys (rule_map rs)).
     g \<noteq> folder \<longrightarrow> \<not> beneath folder g \<and> \<not> beneath g folder)"
  by (auto simp: nests_def find_None_iff)

lemma not_within_self: "\<not> beneath f f"
  by (simp add: beneath_iff)

text \<open>C6: while rules do not nest, a device may see a path exactly when every rule over it names
  the device; a folder \<open>nests\<close> does not object to can be given a rule and rules still do not
  nest; and a device shut out of a folder with a rule may not change that rule.\<close>

theorem rules_shut_out_who_they_leave_out:
  assumes "rules_flat rs"
  shows "(allows rs p d \<longleftrightarrow> (\<forall>(f, m) \<in> set (rule_map rs). covers f p \<longrightarrow> d \<in> set m))
    \<and> (nests rs folder = None \<longrightarrow> rules_flat (Rules (bm_insert folder m (rule_map rs))))
    \<and> (folder \<in> set (bm_keys (rule_map rs)) \<longrightarrow> (may_change rs folder d \<longleftrightarrow> allows rs folder d))"
proof -
  have allows: "allows rs p d \<longleftrightarrow> (\<forall>(f, m) \<in> set (rule_map rs). covers f p \<longrightarrow> d \<in> set m)" for p
  proof (cases "covering rs p")
    case None
    then show ?thesis using None [THEN iffD1 [OF covering_None]] by (auto simp: allows_def)
  next
    case (Some fm)
    obtain f m where fm: "fm = (f, m)" by (cases fm)
    note hit = covering_Some [OF Some [unfolded fm]]
    have "(\<forall>(g, n) \<in> set (rule_map rs). covers g p \<longrightarrow> d \<in> set n) \<longleftrightarrow> d \<in> set m"
      using hit flat_unique [OF assms] by blast
    then show ?thesis by (simp add: allows_def Some fm)
  qed
  have "rules_flat (Rules (bm_insert folder m (rule_map rs)))" if "nests rs folder = None"
    using that assms not_within_self
    by (auto simp: rules_flat_def nests_None bm_keys_def bm_insert_keys bm_ok_insert
        simp flip: set_map)
  moreover have "may_change rs folder d \<longleftrightarrow> allows rs folder d"
    if "folder \<in> set (bm_keys (rule_map rs))"
  proof -
    obtain m where m: "bm_get (rule_map rs) folder = Some m"
      using \<open>folder \<in> set (bm_keys (rule_map rs))\<close> by (metis bm_get_None_iff not_None_eq)
    note mem = bm_mem_get [OF m]
    have "covers folder folder" by (simp add: covers_def)
    then have "(\<forall>(g, n) \<in> set (rule_map rs). covers g folder \<longrightarrow> d \<in> set n) \<longleftrightarrow> d \<in> set m"
      using mem flat_unique [OF assms mem] by blast
    then show ?thesis by (simp add: may_change_def m allows)
  qed
  ultimately show ?thesis using allows by blast
qed

theorem rules_shut_out_who_they_leave_out_witness:
  "\<not> allows (Rules [(''Family'', [sample_device])]) ''Family/beach.jpg'' (DeviceId [])
   \<and> \<not> may_change (Rules [(''Family'', [sample_device])]) ''Family'' (DeviceId [])"
proof -
  have "rules_flat (Rules [(''Family'', [sample_device])])" by code_simp
  from rules_shut_out_who_they_leave_out [OF this, of _ "DeviceId []" "''Family''"]
  have "allows (Rules [(''Family'', [sample_device])]) p (DeviceId []) \<longleftrightarrow> \<not> covers ''Family'' p"
    and "may_change (Rules [(''Family'', [sample_device])]) ''Family'' (DeviceId []) \<longleftrightarrow>
      allows (Rules [(''Family'', [sample_device])]) ''Family'' (DeviceId [])" for p
    by (auto simp: sample_device_def bm_keys_def)
  moreover have "covers ''Family'' ''Family/beach.jpg''" and "covers ''Family'' ''Family''" by code_simp+
  ultimately show ?thesis by blast
qed

end
