(* ===== verification/Reader.thy ===== *)
theory Reader imports Clock
begin

section \<open>Reading a message (\<open>crates/peer/src/wire.rs\<close>, \<open>Reader\<close>)\<close>

text \<open>
  A cursor over a message that refuses to read past its end, and the fields it reads. A
  fallible method of \<open>Reader\<close> is a function from the cursor to an error or a value and the
  cursor moved on; \<open>r_then\<close> is the \<open>?\<close> operator. The second half says exactly what a reading
  accepts: \<open>exact read says\<close> relates a reading to the byte strings it consumes and the values
  it gives for them, with a rule for each way readings are put together, and the locales
  \<open>format\<close> and \<open>codec\<close> carry this to lists of entries.
\<close>

datatype wire_error =
    \<comment> \<open>\<open>Error::Protocol\<close>, by what its detail says\<close>
    LengthOverflows
  | EndsEarly nat nat
  | ExceedsCap nat
  | NotAName nat
  | NameNotUtf8
  | ImplausiblePath nat
  | PathNotUtf8
  | TrailingBytes nat
  | UnknownRequest u8
  | UnknownResponse u8
  | NotACertificate nat
  | TooLargeAPiece nat
  | SearchWithin u8
  | LeavesTheFolder string
  | UnknownContent u8
  | BadVector decode_error
  | UnknownArea u8
  | TooManyParts nat
  | TooManyPlaces nat
  | NoSuchPlace u8
  | NotAPicture nat
  | TooManyFolders nat
  | TooManyChoices nat
  | NotASealedCode nat
  | TooManyFoldersHere nat
  | TooManyFilesHere nat

definition MAX_MESSAGE :: nat where "MAX_MESSAGE = 64 * 2 ^ 20"

definition MAX_PATH :: nat where "MAX_PATH = 4 * 2 ^ 10"

definition MAX_NAME :: nat where "MAX_NAME = 256"

definition SPAKE_LEN :: nat where "SPAKE_LEN = 33"

record reader =
  r_bytes :: bytes
  r_at :: nat

type_synonym 'a reading = "reader \<Rightarrow> wire_error + ('a \<times> reader)"

definition reader_new :: "bytes \<Rightarrow> reader" where
  "reader_new bs = \<lparr>r_bytes = bs, r_at = 0\<rparr>"

definition r_ok :: "'a \<Rightarrow> 'a reading" where
  "r_ok x r = Inr (x, r)"

definition r_err :: "wire_error \<Rightarrow> 'a reading" where
  "r_err e r = Inl e"

definition r_then :: "'a reading \<Rightarrow> ('a \<Rightarrow> 'b reading) \<Rightarrow> 'b reading" where
  "r_then p f r = (case p r of Inl e \<Rightarrow> Inl e | Inr (x, r') \<Rightarrow> f x r')"

definition r_take :: "nat \<Rightarrow> bytes reading" where
  "r_take n r =
     (let to = r_at r + n
      in if to \<ge> 2 ^ 64 then Inl LengthOverflows
         else if to > length (r_bytes r) then Inl (EndsEarly n (r_at r))
         else Inr (take n (drop (r_at r) (r_bytes r)), r\<lparr>r_at := to\<rparr>))"

definition r_u8 :: "u8 reading" where
  "r_u8 = r_then (r_take 1) (\<lambda>b. r_ok (b ! 0))"

definition r_u64 :: "u64 reading" where
  "r_u64 = r_then (r_take 8) (\<lambda>b. r_ok (u64_of_le b))"

definition r_count :: "nat reading" where
  "r_count = r_then (r_take 4) (\<lambda>b.
     let n = le_val b in if n > MAX_MESSAGE then r_err (ExceedsCap n) else r_ok n)"

definition r_name :: "string reading" where
  "r_name = r_then r_count (\<lambda>len.
     if len > MAX_NAME then r_err (NotAName len)
     else r_then (r_take len) (\<lambda>b.
       case from_utf8 b of Some s \<Rightarrow> r_ok s | None \<Rightarrow> r_err NameNotUtf8))"

definition r_path :: "string reading" where
  "r_path = r_then r_count (\<lambda>len.
     if len > MAX_PATH then r_err (ImplausiblePath len)
     else r_then (r_take len) (\<lambda>b.
       case from_utf8 b of Some s \<Rightarrow> r_ok s | None \<Rightarrow> r_err PathNotUtf8))"

definition r_array :: "nat \<Rightarrow> bytes reading" where
  "r_array n = r_take n"

definition r_hash :: "bytes reading" where
  "r_hash = r_array 32"

definition r_finished :: "unit reading" where
  "r_finished r =
     (if r_at r \<noteq> length (r_bytes r) then Inl (TrailingBytes (length (r_bytes r) - r_at r))
      else Inr ((), r))"

fun r_many :: "nat \<Rightarrow> 'a reading \<Rightarrow> 'a list reading" where
  \<comment> \<open>\<open>for _ in 0..count\<close>, pushing what is read\<close>
  "r_many 0 p = r_ok []"
| "r_many (Suc n) p = r_then p (\<lambda>x. r_then (r_many n p) (\<lambda>xs. r_ok (x # xs)))"

definition r_decode :: "'a reading \<Rightarrow> bytes \<Rightarrow> wire_error + 'a" where
  \<comment> \<open>a whole message: the reading, with nothing left over\<close>
  "r_decode p bs =
     (case r_then p (\<lambda>x. r_then r_finished (\<lambda>_. r_ok x)) (reader_new bs) of
        Inl e \<Rightarrow> Inl e | Inr (x, _) \<Rightarrow> Inr x)"

subsection \<open>Writing the fields\<close>

text \<open>The code appends to a buffer; here each writer gives what it appends.\<close>

definition put_u32 :: "nat \<Rightarrow> bytes" where
  "put_u32 n = u32_le n"

definition put_path :: "string \<Rightarrow> bytes" where
  "put_path p = (let capped = take MAX_PATH (str_bytes p) in put_u32 (length capped) @ capped)"

definition put_name :: "string \<Rightarrow> bytes" where
  "put_name n = (let capped = take MAX_NAME (str_bytes n) in put_u32 (length capped) @ capped)"

subsection \<open>What a reading accepts\<close>

definition addressable :: "bytes \<Rightarrow> bool" where
  \<comment> \<open>every Rust slice is shorter\<close>
  "addressable bs \<longleftrightarrow> length bs < 2 ^ 63"

definition exact :: "'a reading \<Rightarrow> (bytes \<Rightarrow> 'a \<Rightarrow> bool) \<Rightarrow> bool" where
  "exact p says \<longleftrightarrow>
     (\<forall>(r :: reader) x r'. addressable (r_bytes r) \<and> r_at r \<le> length (r_bytes r) \<longrightarrow>
        (p r = Inr (x, r') \<longleftrightarrow>
          (\<exists>ws rest. drop (r_at r) (r_bytes r) = ws @ rest \<and> says ws x
             \<and> r' = r\<lparr>r_at := r_at r + length ws\<rparr>)))"

definition then_says :: "(bytes \<Rightarrow> 'a \<Rightarrow> bool) \<Rightarrow> ('a \<Rightarrow> bytes \<Rightarrow> 'b \<Rightarrow> bool) \<Rightarrow> bytes \<Rightarrow> 'b \<Rightarrow> bool" where
  "then_says S T ws y \<longleftrightarrow> (\<exists>a b x. ws = a @ b \<and> S a x \<and> T x b y)"

lemma exactD:
  "exact p S \<Longrightarrow> addressable (r_bytes r) \<Longrightarrow> r_at r \<le> length (r_bytes r) \<Longrightarrow>
   p r = Inr (x, r') \<longleftrightarrow>
     (\<exists>ws rest. drop (r_at r) (r_bytes r) = ws @ rest \<and> S ws x \<and> r' = r\<lparr>r_at := r_at r + length ws\<rparr>)"
  by (simp add: exact_def)

lemma exact_cong: "exact p S \<Longrightarrow> (\<And>ws x. S ws x \<longleftrightarrow> T ws x) \<Longrightarrow> exact p T"
  by (simp add: exact_def)

lemma exact_ok [codec_intros]: "exact (r_ok x) (\<lambda>ws y. ws = [] \<and> y = x)"
  by (auto simp: exact_def r_ok_def)

lemma exact_err [codec_intros]: "exact (r_err e) (\<lambda>ws y. False)"
  by (auto simp: exact_def r_err_def)

lemma exact_if [codec_intros]:
  "exact p S \<Longrightarrow> exact q T \<Longrightarrow>
   exact (if c then p else q) (\<lambda>ws y. (c \<and> S ws y) \<or> (\<not> c \<and> T ws y))"
  by (simp add: exact_def)

lemma exact_then [codec_intros]:
  assumes "exact p S" and "\<And>x. exact (f x) (T x)"
  shows "exact (r_then p f) (then_says S T)"
  unfolding exact_def
proof (intro allI impI)
  fix r :: reader and y r''
  assume r: "addressable (r_bytes r) \<and> r_at r \<le> length (r_bytes r)"
  have step: "f x (r\<lparr>r_at := r_at r + length a\<rparr>) = Inr (y, r'') \<longleftrightarrow>
      (\<exists>b rest'. rest = b @ rest' \<and> T x b y \<and> r'' = r\<lparr>r_at := r_at r + length (a @ b)\<rparr>)"
    if "drop (r_at r) (r_bytes r) = a @ rest" for a rest x
  proof -
    have "length (r_bytes r) - r_at r = length a + length rest"
      using that by (metis length_append length_drop)
    then have "r_at r + length a \<le> length (r_bytes r)" using r by linarith
    moreover have "drop (r_at r + length a) (r_bytes r) = rest"
      using that by (metis add.commute append_eq_conv_conj drop_drop)
    ultimately show ?thesis
      using exactD [OF assms(2) [of x], of "r\<lparr>r_at := r_at r + length a\<rparr>" y r''] r
      by (simp add: ac_simps)
  qed
  have "r_then p f r = Inr (y, r'') \<longleftrightarrow> (\<exists>x r'. p r = Inr (x, r') \<and> f x r' = Inr (y, r''))"
    by (auto simp: r_then_def split: sum.splits)
  also have "\<dots> \<longleftrightarrow> (\<exists>x a rest. drop (r_at r) (r_bytes r) = a @ rest \<and> S a x
      \<and> f x (r\<lparr>r_at := r_at r + length a\<rparr>) = Inr (y, r''))"
    unfolding exactD [OF assms(1) conjunct1 [OF r] conjunct2 [OF r]] by metis
  also have "\<dots> \<longleftrightarrow> (\<exists>x a b rest'. drop (r_at r) (r_bytes r) = a @ b @ rest' \<and> S a x \<and> T x b y
      \<and> r'' = r\<lparr>r_at := r_at r + length (a @ b)\<rparr>)"
    by (simp add: step cong: conj_cong) blast
  also have "\<dots> \<longleftrightarrow> (\<exists>x a b rest'. drop (r_at r) (r_bytes r) = (a @ b) @ rest' \<and> S a x \<and> T x b y
      \<and> r'' = r\<lparr>r_at := r_at r + length (a @ b)\<rparr>)"
    by (simp only: append_assoc)
  finally show "r_then p f r = Inr (y, r'') \<longleftrightarrow> (\<exists>ws rest. drop (r_at r) (r_bytes r) = ws @ rest
      \<and> then_says S T ws y \<and> r'' = r\<lparr>r_at := r_at r + length ws\<rparr>)"
    unfolding then_says_def by blast
qed

lemma exact_take [codec_intros]: "exact (r_take n) (\<lambda>ws x. length ws = n \<and> x = ws)"
  unfolding exact_def
proof (intro allI impI)
  fix r :: reader and x r'
  assume r: "addressable (r_bytes r) \<and> r_at r \<le> length (r_bytes r)"
  have small: "r_at r + n \<le> length (r_bytes r) \<Longrightarrow> \<not> 2 ^ 64 \<le> r_at r + n"
    using r by (simp add: addressable_def)
  have "r_take n r = Inr (x, r') \<longleftrightarrow> r_at r + n \<le> length (r_bytes r)
      \<and> x = take n (drop (r_at r) (r_bytes r)) \<and> r' = r\<lparr>r_at := r_at r + n\<rparr>"
    using small by (auto simp: r_take_def Let_def)
  also have "\<dots> \<longleftrightarrow> (\<exists>ws rest. drop (r_at r) (r_bytes r) = ws @ rest \<and> (length ws = n \<and> x = ws)
      \<and> r' = r\<lparr>r_at := r_at r + length ws\<rparr>)"
  proof
    assume L: "r_at r + n \<le> length (r_bytes r) \<and> x = take n (drop (r_at r) (r_bytes r))
      \<and> r' = r\<lparr>r_at := r_at r + n\<rparr>"
    show "\<exists>ws rest. drop (r_at r) (r_bytes r) = ws @ rest \<and> (length ws = n \<and> x = ws)
      \<and> r' = r\<lparr>r_at := r_at r + length ws\<rparr>"
    proof -
      from L have "n \<le> length (r_bytes r) - r_at r" by linarith
      then show ?thesis
        by - (rule exI [of _ x], rule exI [of _ "drop n (drop (r_at r) (r_bytes r))"],
          use L in \<open>simp del: drop_drop add: min_absorb2\<close>)
    qed
  next
    assume "\<exists>ws rest. drop (r_at r) (r_bytes r) = ws @ rest \<and> (length ws = n \<and> x = ws)
      \<and> r' = r\<lparr>r_at := r_at r + length ws\<rparr>"
    then obtain rest where d: "drop (r_at r) (r_bytes r) = x @ rest" and n: "length x = n"
      and r': "r' = r\<lparr>r_at := r_at r + length x\<rparr>" by blast
    from d have "length (r_bytes r) - r_at r = length x + length rest"
      by (metis length_append length_drop)
    then have "r_at r + n \<le> length (r_bytes r)" using r n by linarith
    with d n r' show "r_at r + n \<le> length (r_bytes r) \<and> x = take n (drop (r_at r) (r_bytes r))
      \<and> r' = r\<lparr>r_at := r_at r + n\<rparr>" by simp
  qed
  finally show "r_take n r = Inr (x, r') \<longleftrightarrow> (\<exists>ws rest. drop (r_at r) (r_bytes r) = ws @ rest
      \<and> (length ws = n \<and> x = ws) \<and> r' = r\<lparr>r_at := r_at r + length ws\<rparr>)" .
qed

lemma decode_exact:
  assumes "exact p S" and "addressable bs"
  shows "r_decode p bs = Inr x \<longleftrightarrow> S bs x"
proof -
  have fin: "r_finished r = Inr (u, r') \<longleftrightarrow> r_at r = length (r_bytes r) \<and> r' = r" for u r r'
    by (auto simp: r_finished_def)
  have "r_decode p bs = Inr x \<longleftrightarrow>
      (\<exists>r'. p (reader_new bs) = Inr (x, r') \<and> r_at r' = length (r_bytes r'))"
    by (auto simp: r_decode_def r_then_def r_ok_def r_finished_def split: sum.splits if_splits)
  also have "\<dots> \<longleftrightarrow> S bs x"
    using exactD [OF assms(1), of "reader_new bs" x] assms(2)
    by (auto simp: reader_new_def intro!: exI [of _ "\<lparr>r_bytes = bs, r_at = length bs\<rparr>"])
  finally show ?thesis .
qed

subsection \<open>The fields\<close>

lemma exact_array [codec_intros]: "exact (r_array n) (\<lambda>ws x. length x = n \<and> ws = x)"
  unfolding r_array_def by (rule exact_cong [OF exact_take]) auto

lemma exact_hash [codec_intros]: "exact r_hash (\<lambda>ws x. length x = 32 \<and> ws = x)"
  unfolding r_hash_def by (rule exact_array)

lemma exact_u8 [codec_intros]: "exact r_u8 (\<lambda>ws x. ws = [x])"
  unfolding r_u8_def
  by (rule exact_cong [OF exact_then [OF exact_take exact_ok]])
    (auto simp: then_says_def length_Suc_conv)

lemma exact_u64 [codec_intros]: "exact r_u64 (\<lambda>ws x. ws = u64_le x)"
  unfolding r_u64_def
  by (rule exact_cong [OF exact_then [OF exact_take exact_ok]])
    (auto simp: then_says_def u64_le_u64_of_le)

lemma MAX_MESSAGE_fits: "n \<le> MAX_MESSAGE \<Longrightarrow> n < 2 ^ 32"
  by (simp add: MAX_MESSAGE_def)

lemma then_says_codec [simp]:
  "then_says (\<lambda>ws x. ok x \<and> ws = put x) T ws y \<longleftrightarrow> (\<exists>x b. ok x \<and> ws = put x @ b \<and> T x b y)"
  by (auto simp: then_says_def)

lemma then_says_total [simp]:
  "then_says (\<lambda>ws x. ws = put x) T ws y \<longleftrightarrow> (\<exists>x b. ws = put x @ b \<and> T x b y)"
  by (auto simp: then_says_def)

lemma prenex:
  "(P \<and> (\<exists>x. Q x)) \<longleftrightarrow> (\<exists>x. P \<and> Q x)" "((\<exists>x. Q x) \<and> P) \<longleftrightarrow> (\<exists>x. Q x \<and> P)"
  by blast+

lemma exact_count [codec_intros]: "exact r_count (\<lambda>ws n. n \<le> MAX_MESSAGE \<and> ws = put_u32 n)"
proof -
  have "then_says (\<lambda>ws x. length ws = 4 \<and> x = ws)
      (\<lambda>b ws n. le_val b > MAX_MESSAGE \<and> False
        \<or> \<not> le_val b > MAX_MESSAGE \<and> ws = [] \<and> n = le_val b) ws n
      \<longleftrightarrow> n \<le> MAX_MESSAGE \<and> ws = put_u32 n" for ws n
    using le_val_u32_le [OF MAX_MESSAGE_fits, of n]
    by (auto simp: then_says_def put_u32_def u32_le_le_val intro!: exI [of _ "u32_le n"])
  with exact_then [OF exact_take exact_if [OF exact_err exact_ok]] show ?thesis
    unfolding r_count_def Let_def by (rule exact_cong)
qed

lemma exact_counted:
  assumes "\<And>n. exact (p n) (S n)"
  shows "exact (r_then r_count (\<lambda>n. if n > cap then r_err (e n) else p n))
    (\<lambda>ws y. \<exists>n b. n \<le> MAX_MESSAGE \<and> n \<le> cap \<and> ws = put_u32 n @ b \<and> S n b y)"
  by (rule exact_cong [OF exact_then [OF exact_count exact_if [OF exact_err assms]]])
    (simp add: not_less, blast)

lemma exact_utf8 [codec_intros]:
  "exact (case from_utf8 b of Some s \<Rightarrow> r_ok s | None \<Rightarrow> r_err e)
     (\<lambda>ws s. ws = [] \<and> valid_str s \<and> b = str_bytes s)"
  by (cases "from_utf8 b")
    (auto intro!: exact_cong [OF exact_err] exact_cong [OF exact_ok] dest: from_utf8_SomeD)

lemma exact_counted_str:
  "exact (r_then r_count (\<lambda>len. if len > cap then r_err (e len)
        else r_then (r_take len) (\<lambda>b. case from_utf8 b of Some s \<Rightarrow> r_ok s | None \<Rightarrow> r_err e')))
     (\<lambda>ws s. valid_str s \<and> length s \<le> cap \<and> length s \<le> MAX_MESSAGE
        \<and> ws = put_u32 (length s) @ str_bytes s)"
  by (rule exact_cong [OF exact_counted [OF exact_then [OF exact_take exact_utf8]]])
    (auto simp: then_says_def)

definition name_ok :: "string \<Rightarrow> bool" where
  "name_ok s \<longleftrightarrow> valid_str s \<and> length s \<le> MAX_NAME"

definition path_ok :: "string \<Rightarrow> bool" where
  "path_ok s \<longleftrightarrow> valid_str s \<and> length s \<le> MAX_PATH"

lemma exact_name [codec_intros]: "exact r_name (\<lambda>ws s. name_ok s \<and> ws = put_name s)"
  unfolding r_name_def
  by (rule exact_cong [OF exact_counted_str])
    (auto simp: name_ok_def put_name_def Let_def MAX_NAME_def MAX_MESSAGE_def)

lemma exact_path [codec_intros]: "exact r_path (\<lambda>ws s. path_ok s \<and> ws = put_path s)"
  unfolding r_path_def
  by (rule exact_cong [OF exact_counted_str])
    (auto simp: path_ok_def put_path_def Let_def MAX_PATH_def MAX_MESSAGE_def)

definition bytes_ok :: "nat \<Rightarrow> bytes \<Rightarrow> bool" where
  "bytes_ok cap bs \<longleftrightarrow> length bs \<le> cap \<and> length bs \<le> MAX_MESSAGE"

definition put_bytes :: "bytes \<Rightarrow> bytes" where
  "put_bytes bs = put_u32 (length bs) @ bs"

lemma exact_counted_bytes:
  "exact (r_then r_count (\<lambda>len. if len > cap then r_err (e len) else r_take len))
     (\<lambda>ws b. bytes_ok cap b \<and> ws = put_bytes b)"
  by (rule exact_cong [OF exact_counted [OF exact_take]])
    (auto simp: bytes_ok_def put_bytes_def)

subsection \<open>Lists of entries\<close>

definition put_list :: "('a \<Rightarrow> bytes) \<Rightarrow> 'a list \<Rightarrow> bytes" where
  \<comment> \<open>a count and the entries\<close>
  "put_list put xs = put_u32 (length xs) @ concat (map put xs)"

definition list_ok :: "('a \<Rightarrow> bool) \<Rightarrow> nat \<Rightarrow> 'a list \<Rightarrow> bool" where
  "list_ok ok cap xs \<longleftrightarrow> length xs \<le> MAX_MESSAGE \<and> length xs \<le> cap \<and> (\<forall>x \<in> set xs. ok x)"

definition list_says :: "(bytes \<Rightarrow> 'a \<Rightarrow> bool) \<Rightarrow> nat \<Rightarrow> bytes \<Rightarrow> 'a list \<Rightarrow> bool" where
  "list_says says cap ws xs \<longleftrightarrow> length xs \<le> MAX_MESSAGE \<and> length xs \<le> cap
     \<and> (\<exists>wss. ws = put_u32 (length xs) @ concat wss \<and> list_all2 says wss xs)"

lemma list_says_ok:
  assumes "list_says says cap ws xs" and "\<And>w x. says w x \<Longrightarrow> ok x"
  shows "list_ok ok cap xs"
proof -
  from assms(1) obtain wss where "list_all2 says wss xs" by (auto simp: list_says_def)
  then have "\<forall>x \<in> set xs. ok x"
    by (induction rule: list_all2_induct) (auto dest: assms(2))
  with assms(1) show ?thesis by (simp add: list_says_def list_ok_def)
qed

locale format =
  fixes read :: "'a reading" and says :: "bytes \<Rightarrow> 'a \<Rightarrow> bool"
  assumes reads: "exact read says"
begin

lemma many:
  "exact (r_many n read) (\<lambda>ws xs. length xs = n \<and> (\<exists>wss. ws = concat wss \<and> list_all2 says wss xs))"
proof (induction n)
  case 0
  show ?case by (auto intro!: exact_cong [OF exact_ok])
next
  case (Suc n)
  have "then_says says (\<lambda>x. then_says
        (\<lambda>ws xs. length xs = n \<and> (\<exists>wss. ws = concat wss \<and> list_all2 says wss xs))
        (\<lambda>xs ws ys. ws = [] \<and> ys = x # xs)) ws ys
      \<longleftrightarrow> length ys = Suc n \<and> (\<exists>wss. ws = concat wss \<and> list_all2 says wss ys)" for ws ys
  proof
    assume "length ys = Suc n \<and> (\<exists>wss. ws = concat wss \<and> list_all2 says wss ys)"
    then obtain y zs a wss where "ys = y # zs" "length zs = n" "ws = a @ concat wss"
      "says a y" "list_all2 says wss zs"
      by (auto simp: length_Suc_conv list_all2_Cons2)
    then show "then_says says (\<lambda>x. then_says
        (\<lambda>ws xs. length xs = n \<and> (\<exists>wss. ws = concat wss \<and> list_all2 says wss xs))
        (\<lambda>xs ws ys. ws = [] \<and> ys = x # xs)) ws ys"
      unfolding then_says_def by auto
  next
    assume "then_says says (\<lambda>x. then_says
        (\<lambda>ws xs. length xs = n \<and> (\<exists>wss. ws = concat wss \<and> list_all2 says wss xs))
        (\<lambda>xs ws ys. ws = [] \<and> ys = x # xs)) ws ys"
    then obtain a x wss xs where "ws = concat (a # wss)" "list_all2 says (a # wss) (x # xs)"
      "length xs = n" "ys = x # xs"
      by (auto simp: then_says_def)
    then show "length ys = Suc n \<and> (\<exists>wss. ws = concat wss \<and> list_all2 says wss ys)"
      by (metis length_Cons)
  qed
  with exact_then [OF reads exact_then [OF Suc exact_ok]] show ?case
    unfolding r_many.simps by (rule exact_cong)
qed

lemma counted:
  "exact (r_then r_count (\<lambda>n. if n > cap then r_err (e n) else r_many n read)) (list_says says cap)"
  by (rule exact_cong [OF exact_counted [OF many]]) (auto simp: list_says_def)

lemma counted_any: "exact (r_then r_count (\<lambda>n. r_many n read)) (list_says says MAX_MESSAGE)"
  by (rule exact_cong [OF exact_then [OF exact_count many]]) (auto simp: list_says_def)

end

locale sending = format read says
  for read :: "'a reading" and says :: "bytes \<Rightarrow> 'a \<Rightarrow> bool" +
  fixes put :: "'b \<Rightarrow> bytes" and ok :: "'b \<Rightarrow> bool" and sent :: "'b \<Rightarrow> 'a"
  assumes says_put: "ok x \<Longrightarrow> says (put x) (sent x)"
begin

lemma says_all: "\<forall>x \<in> set xs. ok x \<Longrightarrow> list_all2 says (map put xs) (map sent xs)"
  by (induction xs) (auto intro: says_put)

lemma says_list:
  "list_ok ok cap xs \<Longrightarrow> list_says says cap (put_list put xs) (map sent xs)"
  using says_all by (auto simp: list_ok_def list_says_def put_list_def)

end

locale codec =
  fixes read :: "'a reading" and put :: "'a \<Rightarrow> bytes" and ok :: "'a \<Rightarrow> bool"
  assumes both_ways: "exact read (\<lambda>ws x. ok x \<and> ws = put x)"

sublocale codec \<subseteq> sending read "\<lambda>ws x. ok x \<and> ws = put x" put ok id
  by unfold_locales (auto intro: both_ways)

context codec begin

lemma all_says:
  "list_all2 (\<lambda>ws x. ok x \<and> ws = put x) wss xs \<longleftrightarrow> (\<forall>x \<in> set xs. ok x) \<and> wss = map put xs"
  by (induction xs arbitrary: wss) (auto simp: list_all2_Cons2)

lemma list_codec: "list_says (\<lambda>ws x. ok x \<and> ws = put x) cap ws xs \<longleftrightarrow> list_ok ok cap xs \<and> ws = put_list put xs"
  by (auto simp: list_says_def list_ok_def put_list_def all_says)

lemma list_counted:
  "exact (r_then r_count (\<lambda>n. if n > cap then r_err (e n) else r_many n read))
     (\<lambda>ws xs. list_ok ok cap xs \<and> ws = put_list put xs)"
  by (rule exact_cong [OF counted]) (rule list_codec)

lemma list_any:
  "exact (r_then r_count (\<lambda>n. r_many n read)) (\<lambda>ws xs. list_ok ok MAX_MESSAGE xs \<and> ws = put_list put xs)"
  by (rule exact_cong [OF counted_any]) (rule list_codec)

end

interpretation hash: codec r_hash "\<lambda>h. h" "\<lambda>h. length h = 32"
  by unfold_locales (rule exact_hash)

interpretation path_field: codec r_path put_path path_ok
  by unfold_locales (rule exact_path)

interpretation name_field: codec r_name put_name name_ok
  by unfold_locales (rule exact_name)

end
