(* ===== verification/Request.thy ===== *)
theory Request imports Reader
begin

section \<open>What one device asks of another (\<open>crates/peer/src/wire.rs\<close>, \<open>Request\<close>)\<close>

text \<open>
  Every request, its encoding and its decoding, in the order the code reads the fields. A fixed
  array is a byte list of its length, a token or nonce of 16, a hash or key of 32. The property
  says decoding accepts exactly the encodings of well-formed requests: one byte string for each.
\<close>

datatype within = InShared | InKept

datatype request =
    RqTree
  | RqManifest bytes
  | RqChunk bytes
  | RqChanges u64
  | RqGot bytes
  | RqPair bytes bytes string string bytes
  | RqJoin bytes string string
  | RqAbout
  | RqVisit bytes bytes string string bytes
  | RqAsks
  | RqUnlock bytes bytes
  | RqFolders
  | RqChosen
  | RqTreeStream
  | RqShort bytes
  | RqShortConfirm bytes
  | RqKept string
  | RqLayout bytes
  | RqTreeDigest
  | RqTreeSince u64
  | RqWho bytes
  | RqProfile i64
  | RqBecome bytes
  | RqPlaces
  | RqInstall
  | RqShared string
  | RqSharedMkdir string
  | RqSharedMove string string
  | RqSharedDelete string
  | RqSharedCopy string string
  | RqStorage
  | RqEmptyDeleted
  | RqConvert bytes string
  | RqUpload bytes u64 bytes
  | RqUploadDone bytes string bytes
  | RqSearch within string

abbreviation (input) TAG_TREE :: u8 where "TAG_TREE \<equiv> 1"
abbreviation (input) TAG_MANIFEST :: u8 where "TAG_MANIFEST \<equiv> 2"
abbreviation (input) TAG_CHUNK :: u8 where "TAG_CHUNK \<equiv> 3"
abbreviation (input) TAG_PAIR :: u8 where "TAG_PAIR \<equiv> 4"
abbreviation (input) TAG_CHANGES :: u8 where "TAG_CHANGES \<equiv> 5"
abbreviation (input) TAG_GOT :: u8 where "TAG_GOT \<equiv> 6"
abbreviation (input) TAG_JOIN :: u8 where "TAG_JOIN \<equiv> 7"
abbreviation (input) TAG_ABOUT :: u8 where "TAG_ABOUT \<equiv> 8"
abbreviation (input) TAG_VISIT :: u8 where "TAG_VISIT \<equiv> 9"
abbreviation (input) TAG_ASKS :: u8 where "TAG_ASKS \<equiv> 10"
abbreviation (input) TAG_UNLOCK :: u8 where "TAG_UNLOCK \<equiv> 11"
abbreviation (input) TAG_FOLDERS :: u8 where "TAG_FOLDERS \<equiv> 12"
abbreviation (input) TAG_CHOSEN :: u8 where "TAG_CHOSEN \<equiv> 13"
abbreviation (input) TAG_TREE_STREAM :: u8 where "TAG_TREE_STREAM \<equiv> 14"
abbreviation (input) TAG_SHORT :: u8 where "TAG_SHORT \<equiv> 15"
abbreviation (input) TAG_SHORT_CONFIRM :: u8 where "TAG_SHORT_CONFIRM \<equiv> 16"
abbreviation (input) TAG_KEPT :: u8 where "TAG_KEPT \<equiv> 17"
abbreviation (input) TAG_LAYOUT :: u8 where "TAG_LAYOUT \<equiv> 18"
abbreviation (input) TAG_TREE_DIGEST :: u8 where "TAG_TREE_DIGEST \<equiv> 19"
abbreviation (input) TAG_TREE_SINCE :: u8 where "TAG_TREE_SINCE \<equiv> 20"
abbreviation (input) TAG_WHO :: u8 where "TAG_WHO \<equiv> 21"
abbreviation (input) TAG_SHARED :: u8 where "TAG_SHARED \<equiv> 22"
abbreviation (input) TAG_SHARED_MKDIR :: u8 where "TAG_SHARED_MKDIR \<equiv> 23"
abbreviation (input) TAG_SHARED_MOVE :: u8 where "TAG_SHARED_MOVE \<equiv> 24"
abbreviation (input) TAG_SHARED_DELETE :: u8 where "TAG_SHARED_DELETE \<equiv> 25"
abbreviation (input) TAG_UPLOAD :: u8 where "TAG_UPLOAD \<equiv> 26"
abbreviation (input) TAG_UPLOAD_DONE :: u8 where "TAG_UPLOAD_DONE \<equiv> 27"
abbreviation (input) TAG_SEARCH :: u8 where "TAG_SEARCH \<equiv> 28"
abbreviation (input) TAG_PROFILE :: u8 where "TAG_PROFILE \<equiv> 29"
abbreviation (input) TAG_INSTALL :: u8 where "TAG_INSTALL \<equiv> 30"
abbreviation (input) TAG_BECOME :: u8 where "TAG_BECOME \<equiv> 31"
abbreviation (input) TAG_PLACES :: u8 where "TAG_PLACES \<equiv> 32"
abbreviation (input) TAG_SHARED_COPY :: u8 where "TAG_SHARED_COPY \<equiv> 33"
abbreviation (input) TAG_STORAGE :: u8 where "TAG_STORAGE \<equiv> 34"
abbreviation (input) TAG_EMPTY_DELETED :: u8 where "TAG_EMPTY_DELETED \<equiv> 35"
abbreviation (input) TAG_CONVERT :: u8 where "TAG_CONVERT \<equiv> 36"

definition MAX_PIECE :: nat where "MAX_PIECE = 4 * 2 ^ 20"



definition MAX_CERT :: nat where "MAX_CERT = 4096"

fun within_byte :: "within \<Rightarrow> u8" where
  "within_byte InShared = 0"
| "within_byte InKept = 1"

fun encode_request :: "request \<Rightarrow> bytes" where
  "encode_request RqTree = [TAG_TREE]"
| "encode_request (RqManifest content) = [TAG_MANIFEST] @ content"
| "encode_request (RqChunk hash) = [TAG_CHUNK] @ hash"
| "encode_request (RqChanges since) = [TAG_CHANGES] @ u64_le since"
| "encode_request (RqGot content) = [TAG_GOT] @ content"
| "encode_request (RqPair token device name kind key_check) =
     [TAG_PAIR] @ token @ device @ put_name name @ put_name kind @ key_check"
| "encode_request RqAsks = [TAG_ASKS]"
| "encode_request (RqUnlock nonce key) = [TAG_UNLOCK] @ nonce @ key"
| "encode_request (RqVisit token device name kind person) =
     [TAG_VISIT] @ token @ device @ put_name name @ put_name kind @ person"
| "encode_request (RqJoin token name kind) = [TAG_JOIN] @ token @ put_name name @ put_name kind"
| "encode_request RqAbout = [TAG_ABOUT]"
| "encode_request RqFolders = [TAG_FOLDERS]"
| "encode_request RqChosen = [TAG_CHOSEN]"
| "encode_request RqTreeStream = [TAG_TREE_STREAM]"
| "encode_request (RqShort spake) = [TAG_SHORT] @ spake"
| "encode_request (RqShortConfirm confirm) = [TAG_SHORT_CONFIRM] @ confirm"
| "encode_request (RqKept dir) = [TAG_KEPT] @ put_path dir"
| "encode_request (RqLayout content) = [TAG_LAYOUT] @ content"
| "encode_request RqTreeDigest = [TAG_TREE_DIGEST]"
| "encode_request (RqTreeSince since) = [TAG_TREE_SINCE] @ u64_le since"
| "encode_request (RqProfile since) = [TAG_PROFILE] @ u64_le since"
| "encode_request RqInstall = [TAG_INSTALL]"
| "encode_request RqPlaces = [TAG_PLACES]"
| "encode_request RqStorage = [TAG_STORAGE]"
| "encode_request RqEmptyDeleted = [TAG_EMPTY_DELETED]"
| "encode_request (RqConvert content name) = [TAG_CONVERT] @ content @ put_name name"
| "encode_request (RqBecome cert) = [TAG_BECOME] @ put_u32 (length cert) @ cert"
| "encode_request (RqWho token) = [TAG_WHO] @ token"
| "encode_request (RqShared dir) = [TAG_SHARED] @ put_path dir"
| "encode_request (RqSharedMkdir p) = [TAG_SHARED_MKDIR] @ put_path p"
| "encode_request (RqSharedMove src to) = [TAG_SHARED_MOVE] @ put_path src @ put_path to"
| "encode_request (RqSharedCopy src to) = [TAG_SHARED_COPY] @ put_path src @ put_path to"
| "encode_request (RqSharedDelete p) = [TAG_SHARED_DELETE] @ put_path p"
| "encode_request (RqUpload ident offset bs) =
     (let bs = take MAX_PIECE bs
      in [TAG_UPLOAD] @ ident @ u64_le offset @ put_u32 (length bs) @ bs)"
| "encode_request (RqUploadDone ident p content) = [TAG_UPLOAD_DONE] @ ident @ put_path p @ content"
| "encode_request (RqSearch within query) = [TAG_SEARCH] @ [within_byte within] @ put_path query"

definition r_token :: "bytes reading" where
  "r_token = r_take 16"

definition r_within :: "within reading" where
  "r_within = r_then r_u8 (\<lambda>b.
     if b = 0 then r_ok InShared else if b = 1 then r_ok InKept else r_err (SearchWithin b))"

definition r_cert :: "bytes reading" where
  "r_cert = r_then r_count (\<lambda>len. if len > MAX_CERT then r_err (NotACertificate len) else r_take len)"

definition r_piece :: "bytes reading" where
  "r_piece = r_then r_count (\<lambda>len. if len > MAX_PIECE then r_err (TooLargeAPiece len) else r_take len)"

definition r_request :: "u8 \<Rightarrow> request reading" where
  "r_request tag =
    (if tag = TAG_TREE then r_ok RqTree
     else if tag = TAG_MANIFEST then r_then r_hash (\<lambda>c. r_ok (RqManifest c))
     else if tag = TAG_CHUNK then r_then r_hash (\<lambda>h. r_ok (RqChunk h))
     else if tag = TAG_CHANGES then r_then r_u64 (\<lambda>s. r_ok (RqChanges s))
     else if tag = TAG_GOT then r_then r_hash (\<lambda>c. r_ok (RqGot c))
     else if tag = TAG_PAIR then r_then r_token (\<lambda>t. r_then r_hash (\<lambda>d. r_then r_name (\<lambda>n. r_then r_name (\<lambda>k.
       r_then r_hash (\<lambda>c. r_ok (RqPair t d n k c))))))
     else if tag = TAG_JOIN then r_then r_token (\<lambda>t. r_then r_name (\<lambda>n. r_then r_name (\<lambda>k. r_ok (RqJoin t n k))))
     else if tag = TAG_ABOUT then r_ok RqAbout
     else if tag = TAG_FOLDERS then r_ok RqFolders
     else if tag = TAG_CHOSEN then r_ok RqChosen
     else if tag = TAG_TREE_STREAM then r_ok RqTreeStream
     else if tag = TAG_SHORT then r_then (r_array SPAKE_LEN) (\<lambda>s. r_ok (RqShort s))
     else if tag = TAG_SHORT_CONFIRM then r_then r_hash (\<lambda>c. r_ok (RqShortConfirm c))
     else if tag = TAG_KEPT then r_then r_path (\<lambda>d. r_ok (RqKept d))
     else if tag = TAG_LAYOUT then r_then r_hash (\<lambda>c. r_ok (RqLayout c))
     else if tag = TAG_TREE_DIGEST then r_ok RqTreeDigest
     else if tag = TAG_TREE_SINCE then r_then r_u64 (\<lambda>s. r_ok (RqTreeSince s))
     else if tag = TAG_PROFILE then r_then r_u64 (\<lambda>s. r_ok (RqProfile s))
     else if tag = TAG_INSTALL then r_ok RqInstall
     else if tag = TAG_PLACES then r_ok RqPlaces
     else if tag = TAG_STORAGE then r_ok RqStorage
     else if tag = TAG_EMPTY_DELETED then r_ok RqEmptyDeleted
     else if tag = TAG_CONVERT then r_then r_hash (\<lambda>c. r_then r_name (\<lambda>n. r_ok (RqConvert c n)))
     else if tag = TAG_BECOME then r_then r_cert (\<lambda>c. r_ok (RqBecome c))
     else if tag = TAG_WHO then r_then r_token (\<lambda>t. r_ok (RqWho t))
     else if tag = TAG_SHARED then r_then r_path (\<lambda>d. r_ok (RqShared d))
     else if tag = TAG_SHARED_MKDIR then r_then r_path (\<lambda>p. r_ok (RqSharedMkdir p))
     else if tag = TAG_SHARED_MOVE then r_then r_path (\<lambda>f. r_then r_path (\<lambda>t. r_ok (RqSharedMove f t)))
     else if tag = TAG_SHARED_COPY then r_then r_path (\<lambda>f. r_then r_path (\<lambda>t. r_ok (RqSharedCopy f t)))
     else if tag = TAG_SHARED_DELETE then r_then r_path (\<lambda>p. r_ok (RqSharedDelete p))
     else if tag = TAG_UPLOAD then r_then r_token (\<lambda>i. r_then r_u64 (\<lambda>off. r_then r_piece (\<lambda>b. r_ok (RqUpload i off b))))
     else if tag = TAG_UPLOAD_DONE then r_then r_token (\<lambda>i. r_then r_path (\<lambda>p. r_then r_hash (\<lambda>c. r_ok (RqUploadDone i p c))))
     else if tag = TAG_SEARCH then r_then r_within (\<lambda>w. r_then r_path (\<lambda>q. r_ok (RqSearch w q)))
     else if tag = TAG_ASKS then r_ok RqAsks
     else if tag = TAG_UNLOCK then r_then r_token (\<lambda>n. r_then r_hash (\<lambda>k. r_ok (RqUnlock n k)))
     else if tag = TAG_VISIT then r_then r_token (\<lambda>t. r_then r_hash (\<lambda>d. r_then r_name (\<lambda>n. r_then r_name (\<lambda>k.
       r_then r_hash (\<lambda>p. r_ok (RqVisit t d n k p))))))
     else r_err (UnknownRequest tag))"

definition decode_request :: "bytes \<Rightarrow> wire_error + request" where
  "decode_request = r_decode (r_then r_u8 r_request)"

subsection \<open>What is accepted\<close>

fun request_ok :: "request \<Rightarrow> bool" where
  "request_ok (RqManifest c) \<longleftrightarrow> length c = 32"
| "request_ok (RqChunk h) \<longleftrightarrow> length h = 32"
| "request_ok (RqGot c) \<longleftrightarrow> length c = 32"
| "request_ok (RqPair t d n k c) \<longleftrightarrow>
     length t = 16 \<and> length d = 32 \<and> name_ok n \<and> name_ok k \<and> length c = 32"
| "request_ok (RqJoin t n k) \<longleftrightarrow> length t = 16 \<and> name_ok n \<and> name_ok k"
| "request_ok (RqVisit t d n k p) \<longleftrightarrow>
     length t = 16 \<and> length d = 32 \<and> name_ok n \<and> name_ok k \<and> length p = 32"
| "request_ok (RqUnlock n k) \<longleftrightarrow> length n = 16 \<and> length k = 32"
| "request_ok (RqShort s) \<longleftrightarrow> length s = SPAKE_LEN"
| "request_ok (RqShortConfirm c) \<longleftrightarrow> length c = 32"
| "request_ok (RqKept d) \<longleftrightarrow> path_ok d"
| "request_ok (RqLayout c) \<longleftrightarrow> length c = 32"
| "request_ok (RqWho t) \<longleftrightarrow> length t = 16"
| "request_ok (RqBecome c) \<longleftrightarrow> length c \<le> MAX_CERT"
| "request_ok (RqShared d) \<longleftrightarrow> path_ok d"
| "request_ok (RqSharedMkdir p) \<longleftrightarrow> path_ok p"
| "request_ok (RqSharedMove f t) \<longleftrightarrow> path_ok f \<and> path_ok t"
| "request_ok (RqSharedDelete p) \<longleftrightarrow> path_ok p"
| "request_ok (RqSharedCopy f t) \<longleftrightarrow> path_ok f \<and> path_ok t"
| "request_ok (RqConvert c n) \<longleftrightarrow> length c = 32 \<and> name_ok n"
| "request_ok (RqUpload i off b) \<longleftrightarrow> length i = 16 \<and> length b \<le> MAX_PIECE"
| "request_ok (RqUploadDone i p c) \<longleftrightarrow> length i = 16 \<and> path_ok p \<and> length c = 32"
| "request_ok (RqSearch w q) \<longleftrightarrow> path_ok q"
| "request_ok _ \<longleftrightarrow> True"

lemma exact_token [codec_intros]: "exact r_token (\<lambda>ws x. length x = 16 \<and> ws = x)"
  unfolding r_token_def by (rule exact_cong [OF exact_take]) auto

lemma exact_within [codec_intros]: "exact r_within (\<lambda>ws w. ws = [within_byte w])"
  unfolding r_within_def
  apply (rule exact_cong [OF exact_then [OF exact_u8 exact_if [OF exact_ok exact_if [OF exact_ok exact_err]]]])
  subgoal for ws x by (cases x) auto
  done

lemma exact_cert [codec_intros]:
  "exact r_cert (\<lambda>ws b. length b \<le> MAX_CERT \<and> ws = put_bytes b)"
  unfolding r_cert_def
  by (rule exact_cong [OF exact_counted_bytes]) (auto simp: bytes_ok_def MAX_CERT_def MAX_MESSAGE_def)

lemma exact_piece [codec_intros]:
  "exact r_piece (\<lambda>ws b. length b \<le> MAX_PIECE \<and> ws = put_bytes b)"
  unfolding r_piece_def
  by (rule exact_cong [OF exact_counted_bytes]) (auto simp: bytes_ok_def MAX_PIECE_def MAX_MESSAGE_def)

lemma exact_request: "exact (r_then r_u8 r_request) (\<lambda>ws x. request_ok x \<and> ws = encode_request x)"
  unfolding r_request_def
  apply (rule exact_cong)
   apply (rule codec_intros)+
  subgoal for ws x
    by (cases x; simp add: prenex put_bytes_def min_def cong: conj_cong del: ex_simps; blast?)
  done

lemma encode_request_addressable: "request_ok rq \<Longrightarrow> addressable (encode_request rq)"
  by (cases rq) (auto simp: addressable_def put_path_def put_name_def put_u32_def Let_def MAX_PATH_def
      MAX_NAME_def MAX_CERT_def MAX_PIECE_def SPAKE_LEN_def min_def)

text \<open>C7: decoding a message accepts exactly the encodings of well-formed requests. So a request
  is read back as it was sent, two requests are never one message, no message with anything
  left over or cut short is taken, and whatever is taken is within the bounds of its fields.\<close>

theorem request_decoding_is_exact:
  assumes "addressable bs"
  shows "decode_request bs = Inr rq \<longleftrightarrow> request_ok rq \<and> bs = encode_request rq"
  unfolding decode_request_def by (rule decode_exact [OF exact_request assms])

theorem request_decoding_is_exact_witness:
  "decode_request (encode_request (RqSearch InKept ''cat'')) = Inr (RqSearch InKept ''cat'')
   \<and> encode_request (RqSearch InKept ''cat'') = [28, 1, 3, 0, 0, 0, 99, 97, 116]
   \<and> decode_request [28, 2, 3, 0, 0, 0, 99, 97, 116] \<noteq> Inr (RqSearch InKept ''cat'')"
proof -
  have ok: "request_ok (RqSearch InKept ''cat'')"
    and enc: "encode_request (RqSearch InKept ''cat'') = [28, 1, 3, 0, 0, 0, 99, 97, 116]" by code_simp+
  have "addressable [28, 1, 3, 0, 0, 0, 99, 97, 116]" and "addressable [28, 2, 3, 0, 0, 0, 99, 97, 116]"
    by (simp_all add: addressable_def)
  from this [THEN request_decoding_is_exact, of "RqSearch InKept ''cat''"] ok enc show ?thesis by simp
qed

end
