(* ===== verification/Entry.thy ===== *)
theory Entry imports Reader Version
begin

section \<open>A file's version on the wire (\<open>crates/peer/src/wire.rs\<close>)\<close>

text \<open>
  \<open>encode_version\<close> and \<open>decode_version\<close>, field by field, with the refusals of the latter: a
  path that leaves the folder, a content or area byte it does not know, a vector that does
  not decode. The writing does not cap the path as the reading does.
\<close>

definition put_content :: "content \<Rightarrow> bytes" where
  "put_content c = (case c of File hash sz \<Rightarrow> [0] @ hash @ u64_le sz | Deleted \<Rightarrow> [1])"

definition put_vector :: "version_vector \<Rightarrow> bytes" where
  "put_vector v = put_u32 (length (vv_encode v)) @ vv_encode v"

definition encode_version :: "file_version \<Rightarrow> bytes" where
  "encode_version v =
     put_u32 (length (str_bytes (path v))) @ str_bytes (path v)
     @ put_content (content v)
     @ put_vector (vector v)
     @ as_bytes (modified_by v)
     @ u64_le (modified_at v)
     @ [area_to_byte (area v)]"

definition r_content :: "content reading" where
  "r_content = r_then r_u8 (\<lambda>kind.
     if kind = 0 then r_then r_hash (\<lambda>hash. r_then r_u64 (\<lambda>sz. r_ok (File hash sz)))
     else if kind = 1 then r_ok Deleted
     else r_err (UnknownContent kind))"

definition r_vector :: "version_vector reading" where
  "r_vector = r_then r_count (\<lambda>n. r_then (r_take n) (\<lambda>b.
     case vv_decode b of Inl e \<Rightarrow> r_err (BadVector e) | Inr v \<Rightarrow> r_ok v))"

definition r_area :: "area reading" where
  "r_area = r_then r_u8 (\<lambda>byte.
     case area_from_byte byte of Some a \<Rightarrow> r_ok a | None \<Rightarrow> r_err (UnknownArea byte))"

definition r_safe_path :: "string reading" where
  "r_safe_path = r_then r_path (\<lambda>p. if \<not> is_safe_path p then r_err (LeavesTheFolder p) else r_ok p)"

definition decode_version :: "file_version reading" where
  "decode_version =
     r_then r_safe_path (\<lambda>p.
     r_then r_content (\<lambda>c.
     r_then r_vector (\<lambda>v.
     r_then r_hash (\<lambda>by_device.
     r_then r_u64 (\<lambda>at.
     r_then r_area (\<lambda>a.
     r_ok \<lparr>path = p, content = c, vector = v, modified_by = DeviceId by_device,
           modified_at = at, area = a\<rparr>))))))"

subsection \<open>What is accepted\<close>

definition safe_path_ok :: "string \<Rightarrow> bool" where
  "safe_path_ok p \<longleftrightarrow> path_ok p \<and> is_safe_path p"

fun content_ok :: "content \<Rightarrow> bool" where
  "content_ok (File hash sz) \<longleftrightarrow> length hash = 32"
| "content_ok Deleted \<longleftrightarrow> True"

definition vector_ok :: "version_vector \<Rightarrow> bool" where
  "vector_ok v \<longleftrightarrow> vv_wire_ok v \<and> 4 + 40 * length (counters v) \<le> MAX_MESSAGE"

definition version_ok :: "file_version \<Rightarrow> bool" where
  \<comment> \<open>what the wire can carry, and what it delivers\<close>
  "version_ok v \<longleftrightarrow> safe_path_ok (path v) \<and> content_ok (content v)
     \<and> vector_ok (vector v) \<and> device_ok (modified_by v)"

definition vector_says :: "bytes \<Rightarrow> version_vector \<Rightarrow> bool" where
  \<comment> \<open>more than one encoding reads as a vector: explicit zeros are dropped, and the last of
    several counters of a device is kept\<close>
  "vector_says ws v \<longleftrightarrow> (\<exists>b. length b \<le> MAX_MESSAGE \<and> ws = put_u32 (length b) @ b \<and> vv_decode b = Inr v)"

definition version_says :: "bytes \<Rightarrow> file_version \<Rightarrow> bool" where
  "version_says ws v \<longleftrightarrow>
     safe_path_ok (path v) \<and> content_ok (content v) \<and> device_ok (modified_by v)
     \<and> (\<exists>b. vector_says b (vector v)
          \<and> ws = put_path (path v) @ put_content (content v) @ b @ as_bytes (modified_by v)
               @ u64_le (modified_at v) @ [area_to_byte (area v)])"

lemma exact_content [codec_intros]: "exact r_content (\<lambda>ws c. content_ok c \<and> ws = put_content c)"
  unfolding r_content_def
  apply (rule exact_cong [OF exact_then [OF exact_u8 exact_if [OF exact_then [OF exact_hash
        exact_then [OF exact_u64 exact_ok]] exact_if [OF exact_ok exact_err]]]])
  subgoal for ws x
    by (cases x) (auto simp: put_content_def)
  done

lemma vv_decode_length: "vv_decode bs = Inr v \<Longrightarrow> 4 + 40 * length (counters v) \<le> length bs"
proof -
  assume dec: "vv_decode bs = Inr v"
  define count where "count = le_val (take 4 bs)"
  from dec have v: "v = VersionVector (decode_entries bs 0 count [])"
    and len: "length bs = 4 + count * 40"
    by (auto simp: vv_decode_def count_def Let_def split: if_splits)
  then show ?thesis using decode_entries_ok [of "[]" 0 count bs] by (auto simp: map_simps)
qed

lemma exact_vector [codec_intros]: "exact r_vector vector_says"
proof -
  have "exact (case vv_decode b of Inl e \<Rightarrow> r_err (BadVector e) | Inr v \<Rightarrow> r_ok v)
      (\<lambda>ws v. ws = [] \<and> vv_decode b = Inr v)" for b
    by (cases "vv_decode b") (auto intro!: exact_cong [OF exact_err] exact_cong [OF exact_ok])
  then show ?thesis
    unfolding r_vector_def
    by (intro exact_cong [OF exact_then [OF exact_count exact_then [OF exact_take]]])
      (auto simp: then_says_def vector_says_def)
qed

lemma exact_area [codec_intros]: "exact r_area (\<lambda>ws a. ws = [area_to_byte a])"
proof -
  have "exact (case area_from_byte k of Some a \<Rightarrow> r_ok a | None \<Rightarrow> r_err (UnknownArea k))
      (\<lambda>ws a. ws = [] \<and> k = area_to_byte a)" for k
    by (cases "area_from_byte k")
      (auto intro!: exact_cong [OF exact_err] exact_cong [OF exact_ok] dest: area_to_from_byte)
  then show ?thesis
    unfolding r_area_def by (intro exact_cong [OF exact_then [OF exact_u8]]) auto
qed

lemma exact_safe_path [codec_intros]:
  "exact r_safe_path (\<lambda>ws p. safe_path_ok p \<and> ws = put_path p)"
  unfolding r_safe_path_def
  by (rule exact_cong [OF exact_then [OF exact_path exact_if [OF exact_err exact_ok]]])
    (auto simp: safe_path_ok_def)

lemma exact_version: "exact decode_version version_says"
proof -
  have ids: "(\<exists>h. length h = 32 \<and> P h) \<longleftrightarrow> (\<exists>d. device_ok d \<and> P (as_bytes d))" for P
    by (metis device_id.sel device_ok_def)
  show ?thesis
    unfolding decode_version_def
    apply (rule exact_cong [OF exact_then [OF exact_safe_path exact_then [OF exact_content
        exact_then [OF exact_vector exact_then [OF exact_hash exact_then [OF exact_u64
        exact_then [OF exact_area exact_ok]]]]]]])
    subgoal for ws x
      by (cases x) (simp add: then_says_def [of vector_says] version_says_def ids prenex del: ex_simps,
        blast?)
    done
qed

interpretation version: format decode_version version_says
  by unfold_locales (rule exact_version)

lemma vector_says_ok: "vector_says ws v \<Longrightarrow> vector_ok v"
  using vv_decode_ok vv_decode_length by (fastforce simp: vector_says_def vector_ok_def)

lemma version_says_ok: "version_says ws v \<Longrightarrow> version_ok v"
  by (auto simp: version_says_def version_ok_def dest: vector_says_ok)

lemma encode_version_says: "version_ok v \<Longrightarrow> version_says (encode_version v) v"
proof -
  assume ok: "version_ok v"
  then have "vector_says (put_vector (vector v)) (vector v)"
    unfolding vector_says_def put_vector_def
    by (intro exI [of _ "vv_encode (vector v)"])
      (auto simp: version_ok_def vector_ok_def length_vv_encode vv_decode_encode)
  with ok show ?thesis
    by (auto simp: version_says_def version_ok_def encode_version_def put_path_def safe_path_ok_def path_ok_def
        Let_def)
qed

interpretation entry: sending decode_version version_says encode_version version_ok id
  by unfold_locales (simp add: encode_version_says)

end
