(* ===== verification/Response.thy ===== *)
theory Response imports Entry Request "HOL-Library.Product_Lexorder" "HOL-Library.Code_Target_Nat"
begin

section \<open>What a device answers (\<open>crates/peer/src/wire.rs\<close>, \<open>Response\<close>)\<close>

text \<open>
  Every response, its encoding and its decoding. Some lists are cut to what the decoder takes
  before they are sent, and a phone's folders sorted so that the deepest are cut: \<open>as_sent\<close>
  says what arrives. Unlike a request, a response may have several encodings: a choice or an
  ask is a byte that is not zero, a kind of storage not known is read as another, and vectors
  drop explicit zeros; \<open>response_says\<close> is exactly what is accepted.
\<close>

datatype place = PlShared | PlMine | PlLocked

fun place_byte :: "place \<Rightarrow> u8" where
  "place_byte PlShared = 0"
| "place_byte PlMine = 1"
| "place_byte PlLocked = 2"

datatype part = PtShared | PtBackups | PtVault | PtGuest | PtDeleted | PtOther

fun part_byte :: "part \<Rightarrow> u8" where
  "part_byte PtShared = 0"
| "part_byte PtBackups = 1"
| "part_byte PtVault = 2"
| "part_byte PtGuest = 3"
| "part_byte PtDeleted = 4"
| "part_byte PtOther = 255"

definition part_from_byte :: "u8 \<Rightarrow> part" where
  "part_from_byte b =
     (if b = 0 then PtShared else if b = 1 then PtBackups else if b = 2 then PtVault
      else if b = 3 then PtGuest else if b = 4 then PtDeleted else PtOther)"

record kept_entry =
  ke_name :: string
  ke_path :: string
  ke_owner :: bytes
  ke_content :: bytes
  ke_size :: u64
  ke_modified_at :: i64

record folder_summary =
  fs_path :: string
  fs_files :: u64
  fs_bytes :: u64

record choice =
  ch_folder :: string
  ch_chosen :: bool
  ch_changed_at :: i64

datatype response =
    RsTree "file_version list"
  | RsManifest "bytes list"
  | RsChunk bytes
  | RsNotFound
  | RsPaired bytes string string bytes
  | RsAbout string
  | RsMismatch
  | RsDeclined
  | RsKey bytes
  | RsNoted
  | RsWelcome bytes string string bytes
  | RsAsks "bytes option"
  | RsChanged u64
  | RsFolders "folder_summary list" "choice list"
  | RsChosen "choice list"
  | RsShort bytes bytes
  | RsSealed bytes
  | RsWithdrawn
  | RsKept "string list" "kept_entry list"
  | RsLayout "(bytes \<times> u32) list"
  | RsDigest bytes
  | RsTreeDelta u64 bytes "file_version list"
  | RsWho string string
  | RsProfile string bytes i64
  | RsInstall bytes
  | RsPlaces "(string \<times> place) list"
  | RsStorage u64 u64 "(part \<times> string \<times> u64) list"
  | RsConverted bytes
  | RsBecame bytes
  | RsRefused string
  | RsPlaced string

abbreviation (input) STATUS_TREE :: u8 where "STATUS_TREE \<equiv> 1"
abbreviation (input) STATUS_MANIFEST :: u8 where "STATUS_MANIFEST \<equiv> 2"
abbreviation (input) STATUS_CHUNK :: u8 where "STATUS_CHUNK \<equiv> 3"
abbreviation (input) STATUS_NOT_FOUND :: u8 where "STATUS_NOT_FOUND \<equiv> 4"
abbreviation (input) STATUS_PAIRED :: u8 where "STATUS_PAIRED \<equiv> 5"
abbreviation (input) STATUS_CHANGED :: u8 where "STATUS_CHANGED \<equiv> 6"
abbreviation (input) STATUS_NOTED :: u8 where "STATUS_NOTED \<equiv> 7"
abbreviation (input) STATUS_KEY :: u8 where "STATUS_KEY \<equiv> 8"
abbreviation (input) STATUS_ABOUT :: u8 where "STATUS_ABOUT \<equiv> 9"
abbreviation (input) STATUS_MISMATCH :: u8 where "STATUS_MISMATCH \<equiv> 10"
abbreviation (input) STATUS_DECLINED :: u8 where "STATUS_DECLINED \<equiv> 11"
abbreviation (input) STATUS_WELCOME :: u8 where "STATUS_WELCOME \<equiv> 12"
abbreviation (input) STATUS_ASKS :: u8 where "STATUS_ASKS \<equiv> 13"
abbreviation (input) STATUS_FOLDERS :: u8 where "STATUS_FOLDERS \<equiv> 14"
abbreviation (input) STATUS_CHOSEN :: u8 where "STATUS_CHOSEN \<equiv> 15"
abbreviation (input) STATUS_SHORT :: u8 where "STATUS_SHORT \<equiv> 16"
abbreviation (input) STATUS_SEALED :: u8 where "STATUS_SEALED \<equiv> 17"
abbreviation (input) STATUS_WITHDRAWN :: u8 where "STATUS_WITHDRAWN \<equiv> 18"
abbreviation (input) STATUS_KEPT :: u8 where "STATUS_KEPT \<equiv> 19"
abbreviation (input) STATUS_LAYOUT :: u8 where "STATUS_LAYOUT \<equiv> 20"
abbreviation (input) STATUS_DIGEST :: u8 where "STATUS_DIGEST \<equiv> 21"
abbreviation (input) STATUS_TREE_DELTA :: u8 where "STATUS_TREE_DELTA \<equiv> 22"
abbreviation (input) STATUS_WHO :: u8 where "STATUS_WHO \<equiv> 23"
abbreviation (input) STATUS_REFUSED :: u8 where "STATUS_REFUSED \<equiv> 24"
abbreviation (input) STATUS_PLACED :: u8 where "STATUS_PLACED \<equiv> 25"
abbreviation (input) STATUS_PROFILE :: u8 where "STATUS_PROFILE \<equiv> 26"
abbreviation (input) STATUS_INSTALL :: u8 where "STATUS_INSTALL \<equiv> 27"
abbreviation (input) STATUS_BECAME :: u8 where "STATUS_BECAME \<equiv> 28"
abbreviation (input) STATUS_PLACES :: u8 where "STATUS_PLACES \<equiv> 29"
abbreviation (input) STATUS_STORAGE :: u8 where "STATUS_STORAGE \<equiv> 30"
abbreviation (input) STATUS_CONVERTED :: u8 where "STATUS_CONVERTED \<equiv> 31"

definition MAX_KEPT :: nat where "MAX_KEPT = 200000"

definition MAX_SEALED :: nat where "MAX_SEALED = 512"

definition MAX_PLACES :: nat where "MAX_PLACES = 256"

definition MAX_PARTS :: nat where "MAX_PARTS = 256"

definition MAX_PICTURE :: nat where "MAX_PICTURE = 256 * 2 ^ 10"

definition MAX_FOLDERS :: nat where "MAX_FOLDERS = 4096"



subsection \<open>Writing\<close>

definition put_choice :: "choice \<Rightarrow> bytes" where
  "put_choice c =
     put_name (ch_folder c) @ [if ch_chosen c then 1 else 0] @ u64_le (ch_changed_at c)"

definition put_choices :: "choice list \<Rightarrow> bytes" where
  "put_choices choices = put_list put_choice (take MAX_FOLDERS choices)"

definition put_folder :: "folder_summary \<Rightarrow> bytes" where
  "put_folder f = put_name (fs_path f) @ u64_le (fs_files f) @ u64_le (fs_bytes f)"

definition sent_folders :: "folder_summary list \<Rightarrow> folder_summary list" where
  \<comment> \<open>the shallowest first, then by path, and what is over the cap cut\<close>
  "sent_folders folders =
     take MAX_FOLDERS (sort_key (\<lambda>f. (count_list (fs_path f) CHR ''/'', fs_path f)) folders)"

definition put_kept_entry :: "kept_entry \<Rightarrow> bytes" where
  "put_kept_entry f =
     put_path (ke_name f) @ put_path (ke_path f) @ ke_owner f @ ke_content f
     @ u64_le (ke_size f) @ u64_le (ke_modified_at f)"

definition put_chunk_size :: "bytes \<times> u32 \<Rightarrow> bytes" where
  "put_chunk_size c = fst c @ u32_le (unat (snd c))"

definition put_place :: "string \<times> place \<Rightarrow> bytes" where
  "put_place p = put_name (fst p) @ [place_byte (snd p)]"

definition put_part :: "part \<times> string \<times> u64 \<Rightarrow> bytes" where
  "put_part p = [part_byte (fst p)] @ put_name (fst (snd p)) @ u64_le (snd (snd p))"

definition put_opening :: "bytes option \<Rightarrow> bytes" where
  "put_opening opening = (case opening of Some nonce \<Rightarrow> [1] @ nonce | None \<Rightarrow> [0])"

definition sent_picture :: "bytes \<Rightarrow> bytes" where
  "sent_picture picture = (if length picture > MAX_PICTURE then [] else picture)"

fun encode_response :: "response \<Rightarrow> bytes" where
  "encode_response RsNotFound = [STATUS_NOT_FOUND]"
| "encode_response (RsShort spake confirm) = [STATUS_SHORT] @ spake @ confirm"
| "encode_response (RsSealed sealed) = [STATUS_SEALED] @ put_bytes sealed"
| "encode_response RsWithdrawn = [STATUS_WITHDRAWN]"
| "encode_response (RsLayout chunks) = [STATUS_LAYOUT] @ put_list put_chunk_size chunks"
| "encode_response (RsDigest digest) = [STATUS_DIGEST] @ digest"
| "encode_response (RsTreeDelta now digest changed) =
     [STATUS_TREE_DELTA] @ u64_le now @ digest @ put_list encode_version changed"
| "encode_response (RsKept folders files) =
     [STATUS_KEPT] @ put_list put_path (take MAX_KEPT folders)
     @ put_list put_kept_entry (take MAX_KEPT files)"
| "encode_response RsNoted = [STATUS_NOTED]"
| "encode_response (RsChanged generation) = [STATUS_CHANGED] @ u64_le generation"
| "encode_response (RsFolders folders choices) =
     [STATUS_FOLDERS] @ put_list put_folder (sent_folders folders) @ put_choices choices"
| "encode_response (RsChosen choices) = [STATUS_CHOSEN] @ put_choices choices"
| "encode_response (RsPaired device name kind key_check) =
     [STATUS_PAIRED] @ device @ put_name name @ put_name kind @ key_check"
| "encode_response (RsAbout kind) = [STATUS_ABOUT] @ put_name kind"
| "encode_response (RsWho name kind) = [STATUS_WHO] @ put_name name @ put_name kind"
| "encode_response (RsProfile name picture changed_at) =
     [STATUS_PROFILE] @ put_name name @ put_bytes (sent_picture picture) @ u64_le changed_at"
| "encode_response (RsInstall marker) = [STATUS_INSTALL] @ marker"
| "encode_response (RsBecame device) = [STATUS_BECAME] @ device"
| "encode_response (RsConverted pdf) = [STATUS_CONVERTED] @ put_bytes pdf"
| "encode_response (RsStorage given used parts) =
     [STATUS_STORAGE] @ u64_le given @ u64_le used @ put_list put_part (take MAX_PARTS parts)"
| "encode_response (RsPlaces places) = [STATUS_PLACES] @ put_list put_place (take MAX_PLACES places)"
| "encode_response (RsRefused why) = [STATUS_REFUSED] @ put_path why"
| "encode_response (RsPlaced p) = [STATUS_PLACED] @ put_path p"
| "encode_response (RsAsks opening) = [STATUS_ASKS] @ put_opening opening"
| "encode_response (RsWelcome device name kind meeting) =
     [STATUS_WELCOME] @ device @ put_name name @ put_name kind @ meeting"
| "encode_response RsMismatch = [STATUS_MISMATCH]"
| "encode_response RsDeclined = [STATUS_DECLINED]"
| "encode_response (RsKey key) = [STATUS_KEY] @ key"
| "encode_response (RsTree versions) = [STATUS_TREE] @ put_list encode_version versions"
| "encode_response (RsManifest hashes) = [STATUS_MANIFEST] @ put_list (\<lambda>h. h) hashes"
| "encode_response (RsChunk bs) = [STATUS_CHUNK] @ put_bytes bs"

subsection \<open>Reading\<close>

definition r_any_bytes :: "bytes reading" where
  "r_any_bytes = r_then r_count (\<lambda>n. r_take n)"

definition r_choice :: "choice reading" where
  "r_choice = r_then r_name (\<lambda>folder. r_then r_u8 (\<lambda>chosen. r_then r_u64 (\<lambda>changed_at.
     r_ok \<lparr>ch_folder = folder, ch_chosen = (chosen \<noteq> 0), ch_changed_at = changed_at\<rparr>)))"

definition read_choices :: "choice list reading" where
  "read_choices = r_then r_count (\<lambda>n.
     if n > MAX_FOLDERS then r_err (TooManyChoices n) else r_many n r_choice)"

definition r_folder :: "folder_summary reading" where
  "r_folder = r_then r_name (\<lambda>p. r_then r_u64 (\<lambda>files. r_then r_u64 (\<lambda>bytes.
     r_ok \<lparr>fs_path = p, fs_files = files, fs_bytes = bytes\<rparr>)))"

definition r_folders :: "folder_summary list reading" where
  "r_folders = r_then r_count (\<lambda>n.
     if n > MAX_FOLDERS then r_err (TooManyFolders n) else r_many n r_folder)"

definition r_kept_entry :: "kept_entry reading" where
  "r_kept_entry = r_then r_path (\<lambda>name. r_then r_path (\<lambda>p. r_then r_hash (\<lambda>owner.
     r_then r_hash (\<lambda>content. r_then r_u64 (\<lambda>sz. r_then r_u64 (\<lambda>at.
     r_ok \<lparr>ke_name = name, ke_path = p, ke_owner = owner, ke_content = content, ke_size = sz,
           ke_modified_at = at\<rparr>))))))"

definition r_kept_folders :: "string list reading" where
  "r_kept_folders = r_then r_count (\<lambda>n.
     if n > MAX_KEPT then r_err (TooManyFoldersHere n) else r_many n r_path)"

definition r_kept_files :: "kept_entry list reading" where
  "r_kept_files = r_then r_count (\<lambda>n.
     if n > MAX_KEPT then r_err (TooManyFilesHere n) else r_many n r_kept_entry)"

definition r_chunk_size :: "(bytes \<times> u32) reading" where
  "r_chunk_size = r_then r_hash (\<lambda>hash. r_then (r_take 4) (\<lambda>b.
     r_ok (hash, word_of_nat (le_val b))))"

definition r_layout :: "(bytes \<times> u32) list reading" where
  "r_layout = r_then r_count (\<lambda>n. r_many n r_chunk_size)"

definition r_versions :: "file_version list reading" where
  "r_versions = r_then r_count (\<lambda>n. r_many n decode_version)"

definition r_hashes :: "bytes list reading" where
  "r_hashes = r_then r_count (\<lambda>n. r_many n r_hash)"

definition r_place :: "(string \<times> place) reading" where
  "r_place = r_then r_name (\<lambda>name. r_then r_u8 (\<lambda>b.
     if b = 0 then r_ok (name, PlShared) else if b = 1 then r_ok (name, PlMine)
     else if b = 2 then r_ok (name, PlLocked) else r_err (NoSuchPlace b)))"

definition r_places :: "(string \<times> place) list reading" where
  "r_places = r_then r_count (\<lambda>n.
     if n > MAX_PLACES then r_err (TooManyPlaces n) else r_many n r_place)"

definition r_part :: "(part \<times> string \<times> u64) reading" where
  "r_part = r_then r_u8 (\<lambda>b. r_then r_name (\<lambda>name. r_then r_u64 (\<lambda>bytes.
     r_ok (part_from_byte b, name, bytes))))"

definition r_parts :: "(part \<times> string \<times> u64) list reading" where
  "r_parts = r_then r_count (\<lambda>n.
     if n > MAX_PARTS then r_err (TooManyParts n) else r_many n r_part)"

definition r_picture :: "bytes reading" where
  "r_picture = r_then r_count (\<lambda>len.
     if len > MAX_PICTURE then r_err (NotAPicture len) else r_take len)"

definition r_sealed :: "bytes reading" where
  "r_sealed = r_then r_count (\<lambda>len.
     if len > MAX_SEALED then r_err (NotASealedCode len) else r_take len)"

definition r_opening :: "bytes option reading" where
  "r_opening = r_then r_u8 (\<lambda>b.
     if b = 0 then r_ok None else r_then (r_take 16) (\<lambda>nonce. r_ok (Some nonce)))"

definition r_response :: "u8 \<Rightarrow> response reading" where
  "r_response status =
    (if status = STATUS_NOT_FOUND then r_ok RsNotFound
     else if status = STATUS_NOTED then r_ok RsNoted
     else if status = STATUS_CHANGED then r_then r_u64 (\<lambda>g. r_ok (RsChanged g))
     else if status = STATUS_PAIRED then r_then r_hash (\<lambda>d. r_then r_name (\<lambda>n. r_then r_name (\<lambda>k.
       r_then r_hash (\<lambda>c. r_ok (RsPaired d n k c)))))
     else if status = STATUS_ABOUT then r_then r_name (\<lambda>k. r_ok (RsAbout k))
     else if status = STATUS_INSTALL then r_then (r_array 16) (\<lambda>m. r_ok (RsInstall m))
     else if status = STATUS_BECAME then r_then r_hash (\<lambda>d. r_ok (RsBecame d))
     else if status = STATUS_CONVERTED then r_then r_any_bytes (\<lambda>b. r_ok (RsConverted b))
     else if status = STATUS_STORAGE then r_then r_u64 (\<lambda>g. r_then r_u64 (\<lambda>u. r_then r_parts (\<lambda>p. r_ok (RsStorage g u p))))
     else if status = STATUS_PLACES then r_then r_places (\<lambda>p. r_ok (RsPlaces p))
     else if status = STATUS_WHO then r_then r_name (\<lambda>n. r_then r_name (\<lambda>k. r_ok (RsWho n k)))
     else if status = STATUS_PROFILE then r_then r_name (\<lambda>n. r_then r_picture (\<lambda>p. r_then r_u64 (\<lambda>t. r_ok (RsProfile n p t))))
     else if status = STATUS_REFUSED then r_then r_path (\<lambda>w. r_ok (RsRefused w))
     else if status = STATUS_PLACED then r_then r_path (\<lambda>p. r_ok (RsPlaced p))
     else if status = STATUS_ASKS then r_then r_opening (\<lambda>opening. r_ok (RsAsks opening))
     else if status = STATUS_WELCOME then r_then r_hash (\<lambda>d. r_then r_name (\<lambda>n. r_then r_name (\<lambda>k.
       r_then r_hash (\<lambda>m. r_ok (RsWelcome d n k m)))))
     else if status = STATUS_MISMATCH then r_ok RsMismatch
     else if status = STATUS_FOLDERS then r_then r_folders (\<lambda>f. r_then read_choices (\<lambda>c. r_ok (RsFolders f c)))
     else if status = STATUS_CHOSEN then r_then read_choices (\<lambda>c. r_ok (RsChosen c))
     else if status = STATUS_DECLINED then r_ok RsDeclined
     else if status = STATUS_KEY then r_then r_hash (\<lambda>k. r_ok (RsKey k))
     else if status = STATUS_TREE then r_then r_versions (\<lambda>v. r_ok (RsTree v))
     else if status = STATUS_MANIFEST then r_then r_hashes (\<lambda>h. r_ok (RsManifest h))
     else if status = STATUS_CHUNK then r_then r_any_bytes (\<lambda>b. r_ok (RsChunk b))
     else if status = STATUS_SHORT then r_then (r_array SPAKE_LEN) (\<lambda>s. r_then r_hash (\<lambda>c. r_ok (RsShort s c)))
     else if status = STATUS_SEALED then r_then r_sealed (\<lambda>b. r_ok (RsSealed b))
     else if status = STATUS_WITHDRAWN then r_ok RsWithdrawn
     else if status = STATUS_LAYOUT then r_then r_layout (\<lambda>c. r_ok (RsLayout c))
     else if status = STATUS_DIGEST then r_then r_hash (\<lambda>d. r_ok (RsDigest d))
     else if status = STATUS_TREE_DELTA then r_then r_u64 (\<lambda>now. r_then r_hash (\<lambda>d. r_then r_versions (\<lambda>c. r_ok (RsTreeDelta now d c))))
     else if status = STATUS_KEPT then r_then r_kept_folders (\<lambda>fo. r_then r_kept_files (\<lambda>fi. r_ok (RsKept fo fi)))
     else r_err (UnknownResponse status))"

definition decode_response :: "bytes \<Rightarrow> wire_error + response" where
  "decode_response = r_decode (r_then r_u8 r_response)"

subsection \<open>What is accepted\<close>

definition choice_ok :: "choice \<Rightarrow> bool" where
  "choice_ok c \<longleftrightarrow> name_ok (ch_folder c)"

definition choice_says :: "bytes \<Rightarrow> choice \<Rightarrow> bool" where
  "choice_says ws c \<longleftrightarrow> choice_ok c
     \<and> (\<exists>b. ch_chosen c = (b \<noteq> 0) \<and> ws = put_name (ch_folder c) @ [b] @ u64_le (ch_changed_at c))"

definition folder_ok :: "folder_summary \<Rightarrow> bool" where
  "folder_ok f \<longleftrightarrow> name_ok (fs_path f)"

definition kept_ok :: "kept_entry \<Rightarrow> bool" where
  "kept_ok f \<longleftrightarrow> path_ok (ke_name f) \<and> path_ok (ke_path f)
     \<and> length (ke_owner f) = 32 \<and> length (ke_content f) = 32"

definition chunk_size_ok :: "bytes \<times> u32 \<Rightarrow> bool" where
  "chunk_size_ok c \<longleftrightarrow> length (fst c) = 32"

definition place_ok :: "string \<times> place \<Rightarrow> bool" where
  "place_ok p \<longleftrightarrow> name_ok (fst p)"

definition part_ok :: "part \<times> string \<times> u64 \<Rightarrow> bool" where
  "part_ok p \<longleftrightarrow> name_ok (fst (snd p))"

definition part_says :: "bytes \<Rightarrow> part \<times> string \<times> u64 \<Rightarrow> bool" where
  "part_says ws p \<longleftrightarrow> part_ok p
     \<and> (\<exists>b. part_from_byte b = fst p \<and> ws = [b] @ put_name (fst (snd p)) @ u64_le (snd (snd p)))"

definition opening_says :: "bytes \<Rightarrow> bytes option \<Rightarrow> bool" where
  "opening_says ws opening \<longleftrightarrow>
     (case opening of None \<Rightarrow> ws = [0] | Some nonce \<Rightarrow> length nonce = 16 \<and> (\<exists>b. b \<noteq> 0 \<and> ws = [b] @ nonce))"

lemma part_from_part_byte [simp]: "part_from_byte (part_byte p) = p"
  by (cases p) (simp_all add: part_from_byte_def)

lemma exact_choice: "exact r_choice choice_says"
  unfolding r_choice_def
  apply (rule exact_cong [OF exact_then [OF exact_name exact_then [OF exact_u8
        exact_then [OF exact_u64 exact_ok]]]])
  subgoal for ws x
    by (cases x) (auto simp: choice_says_def choice_ok_def prenex simp del: ex_simps)
  done

interpretation choice: sending r_choice choice_says put_choice choice_ok id
proof unfold_locales
  show "exact r_choice choice_says" by (rule exact_choice)
  show "choice_says (put_choice x) (id x)" if "choice_ok x" for x
    using that by (auto simp: choice_says_def put_choice_def)
qed

interpretation folder: codec r_folder put_folder folder_ok
  apply unfold_locales
  unfolding r_folder_def
  apply (rule exact_cong [OF exact_then [OF exact_name exact_then [OF exact_u64
        exact_then [OF exact_u64 exact_ok]]]])
  subgoal for ws x
    by (cases x) (auto simp: folder_ok_def put_folder_def prenex simp del: ex_simps)
  done

interpretation kept: codec r_kept_entry put_kept_entry kept_ok
  apply unfold_locales
  unfolding r_kept_entry_def
  apply (rule exact_cong [OF exact_then [OF exact_path exact_then [OF exact_path exact_then [OF exact_hash
        exact_then [OF exact_hash exact_then [OF exact_u64 exact_then [OF exact_u64 exact_ok]]]]]]])
  subgoal for ws x
    by (cases x; simp add: kept_ok_def put_kept_entry_def prenex del: ex_simps; blast?)
  done

interpretation chunk_size: codec r_chunk_size put_chunk_size chunk_size_ok
proof unfold_locales
  have four: "exact (r_take 4) (\<lambda>ws b. length b = 4 \<and> ws = b)" by (rule exact_cong [OF exact_take]) auto
  have size: "(word_of_nat (le_val b) :: u32) = w \<longleftrightarrow> b = u32_le (unat w)" if "length b = 4" for b w
  proof -
    have "le_val b < 2 ^ 32" using le_val_lt [of b] that by simp
    then have "unat (word_of_nat (le_val b) :: u32) = le_val b" by (simp add: unat_of_nat)
    moreover have "unat w < 2 ^ 32" by (rule order_less_le_trans [OF unsigned_less]) simp
    ultimately show ?thesis
      using that by (metis le_val_u32_le u32_le_le_val word_unat_eq_iff)
  qed
  show "exact r_chunk_size (\<lambda>ws x. chunk_size_ok x \<and> ws = put_chunk_size x)"
    unfolding r_chunk_size_def
    apply (rule exact_cong [OF exact_then [OF exact_hash exact_then [OF four exact_ok]]])
    subgoal for ws x
      using size
      by (cases x; simp add: chunk_size_ok_def put_chunk_size_def prenex eq_commute [of _ "snd x"]
          del: ex_simps) (metis length_u32_le)
    done
qed

interpretation place: codec r_place put_place place_ok
  apply unfold_locales
  unfolding r_place_def
  apply (rule exact_cong [OF exact_then [OF exact_name exact_then [OF exact_u8
        exact_if [OF exact_ok exact_if [OF exact_ok exact_if [OF exact_ok exact_err]]]]]])
  subgoal for ws x
    by (cases x; cases "snd x"; simp add: place_ok_def put_place_def prenex del: ex_simps; blast?)
  done

lemma exact_part: "exact r_part part_says"
  unfolding r_part_def
  apply (rule exact_cong [OF exact_then [OF exact_u8 exact_then [OF exact_name
        exact_then [OF exact_u64 exact_ok]]]])
  subgoal for ws x
    by (cases x; simp add: part_says_def part_ok_def prenex del: ex_simps; blast?)
  done

interpretation part: sending r_part part_says put_part part_ok id
proof unfold_locales
  show "exact r_part part_says" by (rule exact_part)
  show "part_says (put_part x) (id x)" if "part_ok x" for x
    using that by (auto simp: part_says_def put_part_def intro: exI [of _ "part_byte (fst x)"])
qed

lemma exact_opening: "exact r_opening opening_says"
  unfolding r_opening_def
  apply (rule exact_cong [OF exact_then [OF exact_u8 exact_if [OF exact_ok
        exact_then [OF exact_token [unfolded r_token_def] exact_ok]]]])
  subgoal for ws x
    by (cases x; simp add: opening_says_def prenex del: ex_simps; blast?)
  done

lemma exact_any_bytes: "exact r_any_bytes (\<lambda>ws b. bytes_ok MAX_MESSAGE b \<and> ws = put_bytes b)"
  unfolding r_any_bytes_def
  by (rule exact_cong [OF exact_then [OF exact_count exact_take]])
    (auto simp: then_says_def bytes_ok_def put_bytes_def)

fun response_says :: "bytes \<Rightarrow> response \<Rightarrow> bool" where
  \<comment> \<open>the messages accepted as a response\<close>
  "response_says ws RsNotFound \<longleftrightarrow> ws = [STATUS_NOT_FOUND]"
| "response_says ws RsNoted \<longleftrightarrow> ws = [STATUS_NOTED]"
| "response_says ws (RsChanged g) \<longleftrightarrow> ws = [STATUS_CHANGED] @ u64_le g"
| "response_says ws (RsPaired d n k c) \<longleftrightarrow> length d = 32 \<and> name_ok n \<and> name_ok k \<and> length c = 32
     \<and> ws = [STATUS_PAIRED] @ d @ put_name n @ put_name k @ c"
| "response_says ws (RsAbout k) \<longleftrightarrow> name_ok k \<and> ws = [STATUS_ABOUT] @ put_name k"
| "response_says ws (RsInstall m) \<longleftrightarrow> length m = 16 \<and> ws = [STATUS_INSTALL] @ m"
| "response_says ws (RsBecame d) \<longleftrightarrow> length d = 32 \<and> ws = [STATUS_BECAME] @ d"
| "response_says ws (RsConverted b) \<longleftrightarrow> bytes_ok MAX_MESSAGE b \<and> ws = [STATUS_CONVERTED] @ put_bytes b"
| "response_says ws (RsStorage g u ps) \<longleftrightarrow>
     (\<exists>w. list_says part_says MAX_PARTS w ps \<and> ws = [STATUS_STORAGE] @ u64_le g @ u64_le u @ w)"
| "response_says ws (RsPlaces ps) \<longleftrightarrow> list_ok place_ok MAX_PLACES ps
     \<and> ws = [STATUS_PLACES] @ put_list put_place ps"
| "response_says ws (RsWho n k) \<longleftrightarrow> name_ok n \<and> name_ok k \<and> ws = [STATUS_WHO] @ put_name n @ put_name k"
| "response_says ws (RsProfile n p t) \<longleftrightarrow> name_ok n \<and> bytes_ok MAX_PICTURE p
     \<and> ws = [STATUS_PROFILE] @ put_name n @ put_bytes p @ u64_le t"
| "response_says ws (RsRefused w) \<longleftrightarrow> path_ok w \<and> ws = [STATUS_REFUSED] @ put_path w"
| "response_says ws (RsPlaced p) \<longleftrightarrow> path_ok p \<and> ws = [STATUS_PLACED] @ put_path p"
| "response_says ws (RsAsks opening) \<longleftrightarrow> (\<exists>w. opening_says w opening \<and> ws = [STATUS_ASKS] @ w)"
| "response_says ws (RsWelcome d n k m) \<longleftrightarrow> length d = 32 \<and> name_ok n \<and> name_ok k \<and> length m = 32
     \<and> ws = [STATUS_WELCOME] @ d @ put_name n @ put_name k @ m"
| "response_says ws RsMismatch \<longleftrightarrow> ws = [STATUS_MISMATCH]"
| "response_says ws (RsFolders fs cs) \<longleftrightarrow> list_ok folder_ok MAX_FOLDERS fs
     \<and> (\<exists>w. list_says choice_says MAX_FOLDERS w cs
          \<and> ws = [STATUS_FOLDERS] @ put_list put_folder fs @ w)"
| "response_says ws (RsChosen cs) \<longleftrightarrow>
     (\<exists>w. list_says choice_says MAX_FOLDERS w cs \<and> ws = [STATUS_CHOSEN] @ w)"
| "response_says ws RsDeclined \<longleftrightarrow> ws = [STATUS_DECLINED]"
| "response_says ws (RsKey k) \<longleftrightarrow> length k = 32 \<and> ws = [STATUS_KEY] @ k"
| "response_says ws (RsTree vs) \<longleftrightarrow>
     (\<exists>w. list_says version_says MAX_MESSAGE w vs \<and> ws = [STATUS_TREE] @ w)"
| "response_says ws (RsManifest hs) \<longleftrightarrow> list_ok (\<lambda>h. length h = 32) MAX_MESSAGE hs
     \<and> ws = [STATUS_MANIFEST] @ put_list (\<lambda>h. h) hs"
| "response_says ws (RsChunk b) \<longleftrightarrow> bytes_ok MAX_MESSAGE b \<and> ws = [STATUS_CHUNK] @ put_bytes b"
| "response_says ws (RsShort s c) \<longleftrightarrow> length s = SPAKE_LEN \<and> length c = 32 \<and> ws = [STATUS_SHORT] @ s @ c"
| "response_says ws (RsSealed b) \<longleftrightarrow> bytes_ok MAX_SEALED b \<and> ws = [STATUS_SEALED] @ put_bytes b"
| "response_says ws RsWithdrawn \<longleftrightarrow> ws = [STATUS_WITHDRAWN]"
| "response_says ws (RsLayout cs) \<longleftrightarrow> list_ok chunk_size_ok MAX_MESSAGE cs
     \<and> ws = [STATUS_LAYOUT] @ put_list put_chunk_size cs"
| "response_says ws (RsDigest d) \<longleftrightarrow> length d = 32 \<and> ws = [STATUS_DIGEST] @ d"
| "response_says ws (RsTreeDelta now d vs) \<longleftrightarrow> length d = 32
     \<and> (\<exists>w. list_says version_says MAX_MESSAGE w vs \<and> ws = [STATUS_TREE_DELTA] @ u64_le now @ d @ w)"
| "response_says ws (RsKept fo fi) \<longleftrightarrow> list_ok path_ok MAX_KEPT fo \<and> list_ok kept_ok MAX_KEPT fi
     \<and> ws = [STATUS_KEPT] @ put_list put_path fo @ put_list put_kept_entry fi"

lemmas exact_lists =
  folder.list_counted kept.list_counted path_field.list_counted place.list_counted
  chunk_size.list_any hash.list_any version.counted_any choice.counted part.counted

lemma exact_response_lists:
  "exact r_folders (\<lambda>ws xs. list_ok folder_ok MAX_FOLDERS xs \<and> ws = put_list put_folder xs)"
  "exact r_kept_files (\<lambda>ws xs. list_ok kept_ok MAX_KEPT xs \<and> ws = put_list put_kept_entry xs)"
  "exact r_kept_folders (\<lambda>ws xs. list_ok path_ok MAX_KEPT xs \<and> ws = put_list put_path xs)"
  "exact r_places (\<lambda>ws xs. list_ok place_ok MAX_PLACES xs \<and> ws = put_list put_place xs)"
  "exact r_layout (\<lambda>ws xs. list_ok chunk_size_ok MAX_MESSAGE xs \<and> ws = put_list put_chunk_size xs)"
  "exact r_hashes (\<lambda>ws xs. list_ok (\<lambda>h. length h = 32) MAX_MESSAGE xs \<and> ws = put_list (\<lambda>h. h) xs)"
  "exact r_versions (list_says version_says MAX_MESSAGE)"
  "exact read_choices (list_says choice_says MAX_FOLDERS)"
  "exact r_parts (list_says part_says MAX_PARTS)"
  "exact r_picture (\<lambda>ws b. bytes_ok MAX_PICTURE b \<and> ws = put_bytes b)"
  "exact r_sealed (\<lambda>ws b. bytes_ok MAX_SEALED b \<and> ws = put_bytes b)"
  unfolding r_folders_def r_kept_files_def r_kept_folders_def r_places_def r_layout_def r_hashes_def
    r_versions_def read_choices_def r_parts_def r_picture_def r_sealed_def
  by (rule exact_lists exact_counted_bytes)+

lemma exact_response: "exact (r_then r_u8 r_response) response_says"
  unfolding r_response_def
  apply (rule exact_cong)
   apply (rule codec_intros exact_response_lists exact_any_bytes exact_opening)+
  subgoal for ws x
    by (cases x; simp add: then_says_def [of "list_says S n" for S n] then_says_def [of opening_says]
        prenex del: ex_simps; blast?)
  done

subsection \<open>What is sent and what arrives\<close>

fun response_ok :: "response \<Rightarrow> bool" where
  "response_ok (RsTree vs) \<longleftrightarrow> list_ok version_ok MAX_MESSAGE vs"
| "response_ok (RsManifest hs) \<longleftrightarrow> list_ok (\<lambda>h. length h = 32) MAX_MESSAGE hs"
| "response_ok (RsChunk b) \<longleftrightarrow> length b \<le> MAX_MESSAGE"
| "response_ok (RsPaired d n k c) \<longleftrightarrow> length d = 32 \<and> name_ok n \<and> name_ok k \<and> length c = 32"
| "response_ok (RsAbout k) \<longleftrightarrow> name_ok k"
| "response_ok (RsKey k) \<longleftrightarrow> length k = 32"
| "response_ok (RsWelcome d n k m) \<longleftrightarrow> length d = 32 \<and> name_ok n \<and> name_ok k \<and> length m = 32"
| "response_ok (RsAsks opening) \<longleftrightarrow> (case opening of None \<Rightarrow> True | Some nonce \<Rightarrow> length nonce = 16)"
| "response_ok (RsFolders fs cs) \<longleftrightarrow> (\<forall>f \<in> set fs. folder_ok f) \<and> (\<forall>c \<in> set cs. choice_ok c)"
| "response_ok (RsChosen cs) \<longleftrightarrow> (\<forall>c \<in> set cs. choice_ok c)"
| "response_ok (RsShort s c) \<longleftrightarrow> length s = SPAKE_LEN \<and> length c = 32"
| "response_ok (RsSealed b) \<longleftrightarrow> length b \<le> MAX_SEALED"
| "response_ok (RsKept fo fi) \<longleftrightarrow> (\<forall>f \<in> set fo. path_ok f) \<and> (\<forall>f \<in> set fi. kept_ok f)"
| "response_ok (RsLayout cs) \<longleftrightarrow> list_ok chunk_size_ok MAX_MESSAGE cs"
| "response_ok (RsDigest d) \<longleftrightarrow> length d = 32"
| "response_ok (RsTreeDelta now d vs) \<longleftrightarrow> length d = 32 \<and> list_ok version_ok MAX_MESSAGE vs"
| "response_ok (RsWho n k) \<longleftrightarrow> name_ok n \<and> name_ok k"
| "response_ok (RsProfile n p t) \<longleftrightarrow> name_ok n"
| "response_ok (RsInstall m) \<longleftrightarrow> length m = 16"
| "response_ok (RsPlaces ps) \<longleftrightarrow> (\<forall>p \<in> set ps. place_ok p)"
| "response_ok (RsStorage g u ps) \<longleftrightarrow> (\<forall>p \<in> set ps. part_ok p)"
| "response_ok (RsConverted b) \<longleftrightarrow> length b \<le> MAX_MESSAGE"
| "response_ok (RsBecame d) \<longleftrightarrow> length d = 32"
| "response_ok (RsRefused w) \<longleftrightarrow> path_ok w"
| "response_ok (RsPlaced p) \<longleftrightarrow> path_ok p"
| "response_ok _ \<longleftrightarrow> True"

fun as_sent :: "response \<Rightarrow> response" where
  \<comment> \<open>what the caps of the encoding leave of a response\<close>
  "as_sent (RsFolders fs cs) = RsFolders (sent_folders fs) (take MAX_FOLDERS cs)"
| "as_sent (RsChosen cs) = RsChosen (take MAX_FOLDERS cs)"
| "as_sent (RsKept fo fi) = RsKept (take MAX_KEPT fo) (take MAX_KEPT fi)"
| "as_sent (RsPlaces ps) = RsPlaces (take MAX_PLACES ps)"
| "as_sent (RsStorage g u ps) = RsStorage g u (take MAX_PARTS ps)"
| "as_sent (RsProfile n p t) = RsProfile n (sent_picture p) t"
| "as_sent rs = rs"

fun within_caps :: "response \<Rightarrow> bool" where
  "within_caps (RsFolders fs cs) \<longleftrightarrow> length fs \<le> MAX_FOLDERS \<and> length cs \<le> MAX_FOLDERS"
| "within_caps (RsChosen cs) \<longleftrightarrow> length cs \<le> MAX_FOLDERS"
| "within_caps (RsKept fo fi) \<longleftrightarrow> length fo \<le> MAX_KEPT \<and> length fi \<le> MAX_KEPT"
| "within_caps (RsPlaces ps) \<longleftrightarrow> length ps \<le> MAX_PLACES"
| "within_caps (RsStorage g u ps) \<longleftrightarrow> length ps \<le> MAX_PARTS"
| "within_caps (RsProfile n p t) \<longleftrightarrow> length p \<le> MAX_PICTURE"
| "within_caps _ \<longleftrightarrow> True"

definition versions_of :: "response \<Rightarrow> file_version list" where
  "versions_of rs = (case rs of RsTree vs \<Rightarrow> vs | RsTreeDelta _ _ vs \<Rightarrow> vs | _ \<Rightarrow> [])"

lemma list_ok_take: "\<forall>x \<in> set xs. ok x \<Longrightarrow> n \<le> MAX_MESSAGE \<Longrightarrow> list_ok ok n (take n xs)"
  by (auto simp: list_ok_def dest: in_set_takeD)

lemma sent_folders_ok: "\<forall>f \<in> set fs. folder_ok f \<Longrightarrow> list_ok folder_ok MAX_FOLDERS (sent_folders fs)"
  unfolding sent_folders_def
  by (rule list_ok_take) (auto simp: MAX_FOLDERS_def MAX_MESSAGE_def)

lemma caps_fit [simp]:
  "MAX_FOLDERS \<le> MAX_MESSAGE" "MAX_KEPT \<le> MAX_MESSAGE" "MAX_PLACES \<le> MAX_MESSAGE"
  "MAX_PARTS \<le> MAX_MESSAGE" "MAX_PICTURE \<le> MAX_MESSAGE" "MAX_SEALED \<le> MAX_MESSAGE"
  by (simp_all add: MAX_FOLDERS_def MAX_KEPT_def MAX_PLACES_def MAX_PARTS_def MAX_PICTURE_def
      MAX_SEALED_def MAX_MESSAGE_def)

lemma encode_says: "response_ok rs \<Longrightarrow> response_says (encode_response rs) (as_sent rs)"
proof -
  assume ok: "response_ok rs"
  have versions: "list_ok version_ok n vs \<Longrightarrow> list_says version_says n (put_list encode_version vs) vs" for n vs
    using entry.says_list [of n vs] by simp
  have choices: "\<forall>c \<in> set cs. choice_ok c \<Longrightarrow>
      list_says choice_says MAX_FOLDERS (put_choices cs) (take MAX_FOLDERS cs)" for cs
    using choice.says_list [OF list_ok_take] by (simp add: put_choices_def)
  have parts: "\<forall>p \<in> set ps. part_ok p \<Longrightarrow>
      list_says part_says MAX_PARTS (put_list put_part (take MAX_PARTS ps)) (take MAX_PARTS ps)" for ps
    using part.says_list [OF list_ok_take] by simp
  have asks: "opening_says (put_opening ask) ask" if "response_ok (RsAsks ask)" for ask
    using that by (auto simp: opening_says_def put_opening_def split: option.splits)
  show ?thesis
    using ok
    by (cases rs; simp add: versions choices parts asks list_ok_take sent_folders_ok bytes_ok_def
        sent_picture_def not_less le_trans [OF _ caps_fit(6)] le_trans [OF _ caps_fit(5)])
qed

text \<open>A well-formed response is read back as what its encoding's caps leave of it: every
  message that fits them arrives whole, and one that does not is cut, not refused.\<close>

lemma response_round_trip:
  assumes "response_ok rs" and "addressable (encode_response rs)"
  shows "decode_response (encode_response rs) = Inr (as_sent rs)
    \<and> (within_caps rs \<and> (\<forall>fs cs. rs = RsFolders fs cs \<longrightarrow> sent_folders fs = fs) \<longrightarrow> as_sent rs = rs)"
proof -
  have "as_sent rs = rs" if "within_caps rs" "\<forall>fs cs. rs = RsFolders fs cs \<longrightarrow> sent_folders fs = fs"
    using that by (cases rs) (auto simp: sent_picture_def)
  with decode_exact [OF exact_response assms(2)] encode_says [OF assms(1)] show ?thesis
    by (simp add: decode_response_def)
qed

lemma list_says_part: "list_says part_says n w ps \<Longrightarrow> list_ok part_ok n ps"
  by (erule list_says_ok) (simp add: part_says_def)

lemma list_says_choice: "list_says choice_says n w cs \<Longrightarrow> list_ok choice_ok n cs"
  by (erule list_says_ok) (simp add: choice_says_def)

lemma list_says_version: "list_says version_says n w vs \<Longrightarrow> list_ok version_ok n vs"
  by (erule list_says_ok) (rule version_says_ok)

lemma list_okD: "list_ok ok n xs \<Longrightarrow> length xs \<le> n \<and> (\<forall>x \<in> set xs. ok x)"
  by (simp add: list_ok_def)

lemma says_response_ok: "response_says ws rs \<Longrightarrow> response_ok rs \<and> within_caps rs"
  by (cases rs)
    (auto simp: bytes_ok_def opening_says_def split: option.splits
      dest: list_okD list_says_part list_says_choice list_says_version
      dest!: list_says_part [THEN list_okD] list_says_choice [THEN list_okD])

text \<open>C8: whatever bytes a peer sends, what is taken as a response is well formed and within the
  caps: every list is as short as its cap, every name and path bounded and valid text, and every
  file version names a path that stays inside the folder, a vector that keeps its invariant and
  an area this build knows.\<close>

theorem decoded_response_is_bounded:
  assumes "addressable bs" and "decode_response bs = Inr rs"
  shows "response_ok rs \<and> within_caps rs \<and> (\<forall>v \<in> set (versions_of rs). version_ok v \<and> is_safe_path (path v))"
proof -
  have ok: "response_ok rs \<and> within_caps rs"
    using assms decode_exact [OF exact_response assms(1)]
    by (auto simp: decode_response_def dest!: says_response_ok)
  then have "\<forall>v \<in> set (versions_of rs). version_ok v"
    by (cases rs) (auto simp: versions_of_def list_ok_def)
  with ok show ?thesis by (auto simp: version_ok_def safe_path_ok_def)
qed

definition sample_version :: file_version where
  "sample_version = file_of ''a/b.txt'' (replicate 32 7) 3 (sample_vector 1 5) (DeviceId (replicate 32 1)) 9"

lemma sample_version_ok: "version_ok sample_version"
proof -
  have "path_ok ''a/b.txt''" and "is_safe_path ''a/b.txt''" by code_simp+
  then show ?thesis
    using sample_vector_ok [of 5 1]
    by (simp add: sample_version_def file_of_def version_ok_def safe_path_ok_def vector_ok_def device_ok_def)
      (simp add: sample_vector_def MAX_MESSAGE_def)
qed

lemma sample_tree_ok: "response_ok (RsTree [sample_version])"
  by (simp add: list_ok_def sample_version_ok MAX_MESSAGE_def)

lemma sample_tree_short: "addressable (encode_response (RsTree [sample_version]))"
proof -
  have "length (encode_response (RsTree [sample_version])) = 146" by code_simp
  then show ?thesis by (simp add: addressable_def)
qed

lemma response_round_trip_witness:
  "decode_response (encode_response (RsTree [sample_version])) = Inr (RsTree [sample_version])"
  using response_round_trip [OF sample_tree_ok sample_tree_short] by simp

theorem decoded_response_is_bounded_witness:
  "\<exists>rs. decode_response [1, 1,0,0,0, 1,0,0,0, 97, 1, 4,0,0,0, 0,0,0,0,
        0,0,0,0,0,0,0,0, 0,0,0,0,0,0,0,0, 0,0,0,0,0,0,0,0, 0,0,0,0,0,0,0,0, 0,0,0,0,0,0,0,0, 2] = Inr rs
     \<and> map path (versions_of rs) = [''a''] \<and> response_ok rs"
proof -
  let ?bs = "[1, 1,0,0,0, 1,0,0,0, 97, 1, 4,0,0,0, 0,0,0,0,
        0,0,0,0,0,0,0,0, 0,0,0,0,0,0,0,0, 0,0,0,0,0,0,0,0, 0,0,0,0,0,0,0,0, 0,0,0,0,0,0,0,0, 2] :: bytes"
  have dec: "decode_response ?bs = Inr (RsTree [\<lparr>path = ''a'', content = Deleted, vector = vv_new,
      modified_by = DeviceId (replicate 32 0), modified_at = 0, area = Held\<rparr>])" by code_simp
  have "addressable ?bs" by (simp add: addressable_def)
  from decoded_response_is_bounded [OF this dec] dec show ?thesis by (simp add: versions_of_def)
qed

subsection \<open>Where the caps change what is said\<close>

text \<open>A folder's path is written as a name, so one longer than 256 bytes arrives as another
  folder's path; and where the cut falls inside a character, the whole answer is refused.\<close>

theorem long_folder_path_is_cut:
  "decode_response (encode_response (RsFolders [\<lparr>fs_path = replicate 300 CHR ''a'', fs_files = 1, fs_bytes = 2\<rparr>] []))
     = Inr (RsFolders [\<lparr>fs_path = replicate 256 CHR ''a'', fs_files = 1, fs_bytes = 2\<rparr>] [])
   \<and> decode_response (encode_response
       (RsFolders [\<lparr>fs_path = replicate 255 CHR ''a'' @ [CHR 0xC3, CHR 0xA9], fs_files = 1, fs_bytes = 2\<rparr>] []))
     = Inl NameNotUtf8"
proof -
  let ?f = "\<lambda>p. \<lparr>fs_path = p, fs_files = 1, fs_bytes = 2\<rparr>"
  let ?cut = "replicate 256 CHR ''a''"
  have ascii: "utf8_ok (replicate n (97 :: u8))" for n by (induction n) simp_all
  have "str_bytes ?cut = replicate 256 97" by (simp add: str_bytes_def byte_of_char_def)
  then have ok: "response_ok (RsFolders [?f ?cut] [])"
    by (simp add: folder_ok_def name_ok_def valid_str_def MAX_NAME_def ascii)
  have "put_name (replicate 300 CHR ''a'') = put_name ?cut"
    by (simp add: put_name_def str_bytes_def MAX_NAME_def Let_def min_def)
  moreover have one: "sent_folders [?f p] = [?f p]" for p
    by (simp add: sent_folders_def MAX_FOLDERS_def)
  ultimately have "encode_response (RsFolders [?f (replicate 300 CHR ''a'')] []) =
      encode_response (RsFolders [?f ?cut] [])"
    by (simp add: one put_list_def put_folder_def)
  moreover have "addressable (encode_response (RsFolders [?f ?cut] []))"
    by (simp add: addressable_def one put_list_def put_folder_def put_name_def put_choices_def
        put_u32_def MAX_NAME_def Let_def)
  ultimately have "decode_response (encode_response (RsFolders [?f (replicate 300 CHR ''a'')] [])) =
      Inr (RsFolders [?f ?cut] [])"
    using decode_exact [OF exact_response] encode_says [OF ok] one by (simp add: decode_response_def)
  moreover have "decode_response (encode_response
      (RsFolders [?f (replicate 255 CHR ''a'' @ [CHR 0xC3, CHR 0xA9])] [])) = Inl NameNotUtf8" by code_simp
  ultimately show ?thesis by blast
qed

end
