(* ===== verification/Tree_List.thy ===== *)
theory Tree_List imports Response "HOL-Library.Multiset"
begin

section \<open>File lists in frames, and their fingerprint (\<open>crates/peer/src/wire.rs\<close>, \<open>trees.rs\<close>, \<open>client.rs\<close>)\<close>

text \<open>
  A file list too long for one message is sent in frames, is fingerprinted in one order
  however it was put together, is kept on disk between syncs and is brought up to date from
  what changed. The hash (BLAKE3) is a parameter; feeding it an entry at a time is hashing
  their concatenation. The other device's answers are parameters of \<open>tree_kept\<close>, and the kept
  file is the bytes of it, if there is one.
\<close>

definition TREE_FRAME_TARGET :: nat where "TREE_FRAME_TARGET = 2 ^ 20"

definition MAX_TREE_FRAME :: nat where "MAX_TREE_FRAME = 4 * 2 ^ 20"

definition MAX_TREE :: nat where "MAX_TREE = 2 ^ 30"

definition flush_frame :: "bytes list \<Rightarrow> bytes \<Rightarrow> nat \<Rightarrow> bytes list" where
  "flush_frame frames body n = frames @ [put_u32 (length body + 4) @ put_u32 n @ body]"

fun frames_loop :: "file_version list \<Rightarrow> bytes list \<Rightarrow> bytes \<Rightarrow> nat \<Rightarrow> bytes list" where
  "frames_loop [] frames body n =
     (if n > 0 then flush_frame frames body n else frames) @ [put_u32 0]"
| "frames_loop (v # vs) frames body n =
     (let body = body @ encode_version v; n = n + 1
      in if length body \<ge> TREE_FRAME_TARGET
         then frames_loop vs (flush_frame frames body n) [] 0
         else frames_loop vs frames body n)"

definition tree_frames :: "file_version list \<Rightarrow> bytes list" where
  "tree_frames vs = frames_loop vs [] [] 0"

definition decode_tree_frame :: "bytes \<Rightarrow> wire_error + file_version list" where
  \<comment> \<open>what is left over after the versions is not looked at\<close>
  "decode_tree_frame bs =
     (case r_then r_count (\<lambda>n. r_many n decode_version) (reader_new bs) of
        Inl e \<Rightarrow> Inl e | Inr (vs, _) \<Rightarrow> Inr vs)"

definition listed_order :: "file_version \<Rightarrow> u8 \<times> string" where
  "listed_order v =
     ((case area v of Shared \<Rightarrow> 0 | Sent \<Rightarrow> 1 | Held \<Rightarrow> 1 | Hold \<Rightarrow> 2), path v)"

definition listing :: "file_version list \<Rightarrow> bytes" where
  \<comment> \<open>what is hashed\<close>
  "listing vs = concat (map encode_version (sort_key listed_order vs))"

definition tree_digest :: "(bytes \<Rightarrow> bytes) \<Rightarrow> file_version list \<Rightarrow> bytes" where
  "tree_digest hash vs = hash (listing vs)"

subsection \<open>Receiving the frames\<close>

datatype stream_error = StreamEnds | FrameTooLarge nat nat | BadFrame wire_error

function recv_tree :: "bytes \<Rightarrow> nat \<Rightarrow> file_version list \<Rightarrow> stream_error + file_version list" where
  \<comment> \<open>the loop of the client's \<open>tree_stream\<close>, over what is left of the stream\<close>
  "recv_tree stream sofar versions =
     (if length stream < 4 then Inl StreamEnds
      else let len = le_val (take 4 stream); stream = drop 4 stream
           in if len = 0 then Inr versions
              else let sofar = sofar + len
                   in if len > MAX_TREE_FRAME \<or> sofar > MAX_TREE then Inl (FrameTooLarge len sofar)
                      else if length stream < len then Inl StreamEnds
                      else case decode_tree_frame (take len stream) of
                             Inl e \<Rightarrow> Inl (BadFrame e)
                           | Inr vs \<Rightarrow> recv_tree (drop len stream) sofar (versions @ vs))"
  by pat_completeness auto
termination by (relation "measure (\<lambda>(stream, sofar, versions). length stream)") auto

declare recv_tree.simps [simp del]

subsection \<open>The list kept on disk\<close>

record kept_list =
  kl_counter :: u64
  kl_digest :: bytes
  kl_versions :: "file_version list"

record list_changes =
  lc_now :: u64
  lc_digest :: bytes
  lc_changed :: "file_version list"

definition HEADER :: nat where "HEADER = 32 + 8"

definition bytes_get :: "bytes \<Rightarrow> nat \<Rightarrow> nat \<Rightarrow> bytes option" where
  \<comment> \<open>\<open>bytes.get(a..b)\<close>\<close>
  "bytes_get bs a b = (if a \<le> b \<and> b \<le> length bs then Some (take (b - a) (drop a bs)) else None)"

function load_frames :: "bytes \<Rightarrow> nat \<Rightarrow> file_version list \<Rightarrow> file_version list option" where
  "load_frames bs at versions =
     (case bytes_get bs at (at + 4) of
        None \<Rightarrow> None
      | Some b \<Rightarrow>
          (let len = le_val b; at = at + 4
           in if len = 0 then Some versions
              else if len > MAX_TREE_FRAME \<or> at > MAX_TREE then None
              else case bytes_get bs at (at + len) of
                     None \<Rightarrow> None
                   | Some frame \<Rightarrow>
                       (case decode_tree_frame frame of
                          Inl e \<Rightarrow> None
                        | Inr vs \<Rightarrow> load_frames bs (at + len) (versions @ vs))))"
  by pat_completeness auto
termination
  by (relation "measure (\<lambda>(bs, at, versions). length bs - at)")
    (auto simp: bytes_get_def split: if_splits)

declare load_frames.simps [simp del]

definition load :: "(bytes \<Rightarrow> bytes) \<Rightarrow> bytes option \<Rightarrow> kept_list option" where
  "load hash file =
     Option.bind file (\<lambda>bs.
     Option.bind (bytes_get bs 0 32) (\<lambda>digest.
     Option.bind (bytes_get bs 32 HEADER) (\<lambda>b.
     Option.bind (load_frames bs HEADER []) (\<lambda>versions.
       if tree_digest hash versions = digest
       then Some \<lparr>kl_counter = u64_of_le b, kl_digest = digest, kl_versions = versions\<rparr>
       else None))))"

definition saved :: "(bytes \<Rightarrow> bytes) \<Rightarrow> u64 \<Rightarrow> file_version list \<Rightarrow> bytes" where
  \<comment> \<open>what \<open>save\<close> writes\<close>
  "saved hash counter vs =
     (let sorted = sort_key listed_order vs
      in tree_digest hash sorted @ u64_le counter @ concat (tree_frames sorted))"

definition save :: "(bytes \<Rightarrow> bytes) \<Rightarrow> bool \<Rightarrow> u64 \<Rightarrow> file_version list \<Rightarrow> bytes option \<Rightarrow> bytes option" where
  \<comment> \<open>written beside and renamed over: the whole file or, when a step fails, the old one\<close>
  "save hash works counter vs file = (if works then Some (saved hash counter vs) else file)"

definition advance :: "bool \<Rightarrow> u64 \<Rightarrow> bytes option \<Rightarrow> bytes option" where
  "advance works counter file =
     (if works then map_option (\<lambda>bs. take 32 (bs @ replicate 32 0) @ u64_le counter @ drop HEADER bs) file
      else file)"

definition rebuilt :: "file_version list \<Rightarrow> file_version list \<Rightarrow> file_version list" where
  "rebuilt kept changed =
     bm_values (fold (\<lambda>v m. bm_insert (listed_order v) v m) changed
       (bm_collect (map (\<lambda>v. (listed_order v, v)) kept)))"

subsection \<open>Bringing the list up to date\<close>

datatype 'e answers =
  \<comment> \<open>what the other device answers: to what changed, its fingerprint, its counter, its list\<close>
  Answers (since_answer: "'e + list_changes option") (digest_answer: "'e + bytes option")
    (mark_answer: "'e + list_changes option") (tree_answer: "'e + file_version list")

definition fetch_whole ::
  "(bytes \<Rightarrow> bytes) \<Rightarrow> bool \<Rightarrow> 'e answers \<Rightarrow> bytes option \<Rightarrow> ('e + file_version list) \<times> bytes option"
where
  "fetch_whole hash works ans file =
     (case mark_answer ans of
        Inl e \<Rightarrow> (Inl e, file)
      | Inr mark \<Rightarrow>
          (case tree_answer ans of
             Inl e \<Rightarrow> (Inl e, file)
           | Inr vs \<Rightarrow>
               (Inr vs, save hash works (case mark of None \<Rightarrow> 0 | Some m \<Rightarrow> lc_now m) vs file)))"

definition tree_kept ::
  "(bytes \<Rightarrow> bytes) \<Rightarrow> bool \<Rightarrow> 'e answers \<Rightarrow> bytes option \<Rightarrow> ('e + file_version list) \<times> bytes option"
where
  "tree_kept hash works ans file =
     (case load hash file of
        None \<Rightarrow> fetch_whole hash works ans file
      | Some kept \<Rightarrow>
          (case since_answer ans of
             Inl e \<Rightarrow> (Inl e, file)
           | Inr (Some changes) \<Rightarrow>
               (if lc_digest changes = kl_digest kept
                then (Inr (kl_versions kept),
                      if lc_now changes \<noteq> kl_counter kept then advance works (lc_now changes) file
                      else file)
                else let vs = rebuilt (kl_versions kept) (lc_changed changes)
                     in if tree_digest hash vs = lc_digest changes
                        then (Inr vs, save hash works (lc_now changes) vs file)
                        else fetch_whole hash works ans file)
           | Inr None \<Rightarrow>
               (case digest_answer ans of
                  Inl e \<Rightarrow> (Inl e, file)
                | Inr d \<Rightarrow>
                    (if d = Some (kl_digest kept) then (Inr (kl_versions kept), file)
                     else fetch_whole hash works ans file))))"

subsection \<open>A list is one string of bytes and one string of bytes is a list\<close>

lemma decode_version_prefix:
  assumes "version_ok v" and "addressable (encode_version v @ rest)"
  shows "decode_version (reader_new (encode_version v @ rest)) =
    Inr (v, \<lparr>r_bytes = encode_version v @ rest, r_at = length (encode_version v)\<rparr>)"
  using exactD [OF exact_version, of "reader_new (encode_version v @ rest)" v] assms
    encode_version_says [OF assms(1)]
  by (auto simp: reader_new_def)

lemma encode_version_nonempty: "encode_version v \<noteq> []"
  by (simp add: encode_version_def)

lemma encode_versions_inject:
  assumes "\<forall>v \<in> set vs. version_ok v" and "\<forall>v \<in> set ws. version_ok v"
    and "concat (map encode_version vs) = concat (map encode_version ws)"
    and "addressable (concat (map encode_version vs))"
  shows "vs = ws"
  using assms
proof (induction vs arbitrary: ws)
  case Nil
  then show ?case using encode_version_nonempty by (cases ws) auto
next
  case (Cons v vs)
  from Cons.prems(3) obtain w ws' where ws: "ws = w # ws'"
    using encode_version_nonempty by (cases ws) auto
  have eq: "encode_version v @ concat (map encode_version vs) =
      encode_version w @ concat (map encode_version ws')"
    using Cons.prems(3) by (simp add: ws)
  have addr: "addressable (encode_version v @ concat (map encode_version vs))"
    using Cons.prems(4) by simp
  have "decode_version (reader_new (encode_version v @ concat (map encode_version vs))) =
      Inr (v, \<lparr>r_bytes = encode_version v @ concat (map encode_version vs), r_at = length (encode_version v)\<rparr>)"
    using decode_version_prefix [OF _ addr] Cons.prems(1) by simp
  moreover have "decode_version (reader_new (encode_version w @ concat (map encode_version ws'))) =
      Inr (w, \<lparr>r_bytes = encode_version w @ concat (map encode_version ws'), r_at = length (encode_version w)\<rparr>)"
    using decode_version_prefix [of w] Cons.prems(2) addr by (simp add: ws eq)
  ultimately have "v = w" by (simp add: eq)
  with eq have "concat (map encode_version vs) = concat (map encode_version ws')" by simp
  moreover have "addressable (concat (map encode_version vs))"
    using addr by (simp add: addressable_def)
  moreover have "\<forall>v \<in> set vs. version_ok v" and "\<forall>v \<in> set ws'. version_ok v"
    using Cons.prems(1,2) by (simp_all add: ws)
  ultimately have "vs = ws'" using Cons.IH by blast
  with \<open>v = w\<close> show ?case by (simp add: ws)
qed

lemma listing_inject:
  assumes "\<forall>v \<in> set vs. version_ok v" and "\<forall>v \<in> set ws. version_ok v"
    and "listing vs = listing ws" and "addressable (listing vs)"
  shows "sort_key listed_order vs = sort_key listed_order ws"
  using encode_versions_inject [of "sort_key listed_order vs" "sort_key listed_order ws"] assms
  by (simp add: listing_def)

subsection \<open>The frames\<close>

definition frame_of :: "file_version list \<Rightarrow> bytes" where
  "frame_of g = (let body = concat (map encode_version g)
     in put_u32 (length body + 4) @ put_u32 (length g) @ body)"

definition group_ok :: "file_version list \<Rightarrow> bool" where
  \<comment> \<open>a frame is not empty, and would be under the target without its last version\<close>
  "group_ok g \<longleftrightarrow> g \<noteq> [] \<and> length (concat (map encode_version (butlast g))) < TREE_FRAME_TARGET"

lemma flush_frame_eq:
  "flush_frame frames (concat (map encode_version g)) (length g) = frames @ [frame_of g]"
  by (simp add: flush_frame_def frame_of_def Let_def)

lemma frames_loop_groups:
  "length (concat (map encode_version g)) < TREE_FRAME_TARGET \<Longrightarrow>
   \<exists>gs. frames_loop vs frames (concat (map encode_version g)) (length g) =
       frames @ map frame_of gs @ [put_u32 0]
     \<and> concat gs = g @ vs \<and> (\<forall>h \<in> set gs. group_ok h)"
proof (induction vs arbitrary: g frames)
  case Nil
  have "g \<noteq> [] \<Longrightarrow> length (concat (map encode_version (butlast g))) < TREE_FRAME_TARGET"
    using Nil by (cases g rule: rev_cases) auto
  then show ?case
    by (cases "g = []")
      (auto simp: flush_frame_eq group_ok_def intro: exI [of _ "[]"] exI [of _ "[g]"])
next
  case (Cons v vs)
  let ?g = "g @ [v]"
  have body: "concat (map encode_version g) @ encode_version v = concat (map encode_version ?g)"
    and count: "length g + 1 = length ?g" by simp_all
  show ?case
  proof (cases "length (concat (map encode_version ?g)) \<ge> TREE_FRAME_TARGET")
    case True
    obtain gs where gs: "frames_loop vs (frames @ [frame_of ?g]) [] 0 =
        (frames @ [frame_of ?g]) @ map frame_of gs @ [put_u32 0]"
      "concat gs = vs" "\<forall>h \<in> set gs. group_ok h"
      using Cons.IH [of "[]" "frames @ [frame_of ?g]"] by (auto simp: TREE_FRAME_TARGET_def)
    have "group_ok ?g" using Cons.prems by (simp add: group_ok_def)
    with gs True show ?thesis
      unfolding frames_loop.simps Let_def body count flush_frame_eq
      by (intro exI [of _ "?g # gs"]) simp
  next
    case False
    then obtain gs where "frames_loop vs frames (concat (map encode_version ?g)) (length ?g) =
        frames @ map frame_of gs @ [put_u32 0]"
      "concat gs = ?g @ vs" "\<forall>h \<in> set gs. group_ok h"
      using Cons.IH [of ?g frames] by (auto simp: not_le)
    with False show ?thesis
      unfolding frames_loop.simps Let_def body count by (intro exI [of _ gs]) simp
  qed
qed

lemma tree_frames_groups:
  obtains gs where "tree_frames vs = map frame_of gs @ [put_u32 0]" and "concat gs = vs"
    and "\<forall>g \<in> set gs. group_ok g"
  using frames_loop_groups [of "[]" vs "[]"] by (auto simp: tree_frames_def TREE_FRAME_TARGET_def)

definition entry_fits :: "file_version \<Rightarrow> bool" where
  \<comment> \<open>an entry that keeps its frame under the cap: a vector of some 65,000 devices fits\<close>
  "entry_fits v \<longleftrightarrow> version_ok v \<and> length (encode_version v) \<le> MAX_TREE_FRAME - TREE_FRAME_TARGET - 4"

lemma group_length:
  assumes "group_ok g" and "\<forall>v \<in> set g. entry_fits v"
  shows "length (concat (map encode_version g)) + 4 < MAX_TREE_FRAME"
    and "length g \<le> length (concat (map encode_version g))"
proof -
  obtain h v where g: "g = h @ [v]" using assms(1) by (cases g rule: rev_cases) (auto simp: group_ok_def)
  then have "length (concat (map encode_version h)) < TREE_FRAME_TARGET"
    and "length (encode_version v) \<le> MAX_TREE_FRAME - TREE_FRAME_TARGET - 4"
    using assms by (auto simp: group_ok_def entry_fits_def)
  then show "length (concat (map encode_version g)) + 4 < MAX_TREE_FRAME"
    by (simp add: g TREE_FRAME_TARGET_def MAX_TREE_FRAME_def)
  show "length g \<le> length (concat (map encode_version g))"
  proof (induction g)
    case (Cons v g)
    have "0 < length (encode_version v)" using encode_version_nonempty by blast
    then have "Suc (length g) \<le> length (encode_version v) + length (concat (map encode_version g))"
      using Cons by linarith
    then show ?case by simp
  qed simp
qed

lemma decode_tree_frame_put:
  assumes "list_ok version_ok MAX_MESSAGE g" and "addressable (put_list encode_version g @ junk)"
  shows "decode_tree_frame (put_list encode_version g @ junk) = Inr g"
proof -
  have "list_says version_says MAX_MESSAGE (put_list encode_version g) g"
    using entry.says_list [OF assms(1)] by simp
  then have "r_versions (reader_new (put_list encode_version g @ junk)) =
      Inr (g, reader_new (put_list encode_version g @ junk)\<lparr>r_at := length (put_list encode_version g)\<rparr>)"
    using exactD [OF exact_response_lists(7), of "reader_new (put_list encode_version g @ junk)" g] assms(2)
    by (auto simp: reader_new_def)
  then show ?thesis by (simp add: decode_tree_frame_def r_versions_def)
qed

lemma frame_of_eq:
  "frame_of g = put_u32 (length (put_list encode_version g)) @ put_list encode_version g"
  by (simp add: frame_of_def put_list_def put_u32_def Let_def add.commute)

lemma group_frame:
  assumes "group_ok g" and "\<forall>v \<in> set g. entry_fits v"
  shows "list_ok version_ok MAX_MESSAGE g"
    and "length (put_list encode_version g) \<le> MAX_TREE_FRAME"
    and "length (put_list encode_version g) \<noteq> 0"
    and "le_val (put_u32 (length (put_list encode_version g))) = length (put_list encode_version g)"
    and "addressable (put_list encode_version g)"
proof -
  have len: "length (put_list encode_version g) = length (concat (map encode_version g)) + 4"
    by (simp add: put_list_def put_u32_def)
  show short: "length (put_list encode_version g) \<le> MAX_TREE_FRAME"
    using group_length(1) [OF assms] len by linarith
  show "length (put_list encode_version g) \<noteq> 0" using len by linarith
  have small: "length (put_list encode_version g) < 2 ^ 32"
    using short by (simp add: MAX_TREE_FRAME_def)
  then show "le_val (put_u32 (length (put_list encode_version g))) = length (put_list encode_version g)"
    unfolding put_u32_def by (rule le_val_u32_le)
  show "addressable (put_list encode_version g)" using small by (simp add: addressable_def)
  have "length g \<le> MAX_MESSAGE"
    using group_length [OF assms] by (simp add: MAX_TREE_FRAME_def MAX_MESSAGE_def)
  then show "list_ok version_ok MAX_MESSAGE g"
    using assms(2) by (auto simp: list_ok_def entry_fits_def)
qed

lemma recv_frames:
  "\<forall>g \<in> set gs. group_ok g \<and> (\<forall>v \<in> set g. entry_fits v) \<Longrightarrow>
   sofar + length (concat (map frame_of gs)) \<le> MAX_TREE \<Longrightarrow>
   recv_tree (concat (map frame_of gs) @ put_u32 0) sofar acc = Inr (acc @ concat gs)"
proof (induction gs arbitrary: sofar acc)
  case Nil
  have "le_val (put_u32 0) = 0" by (simp add: put_u32_def le_val_u32_le)
  then show ?case by (simp, subst recv_tree.simps) (simp add: put_u32_def Let_def)
next
  case (Cons g gs)
  let ?f = "put_list encode_version g"
  let ?rest = "concat (map frame_of gs) @ put_u32 0"
  have g: "group_ok g" "\<forall>v \<in> set g. entry_fits v" using Cons.prems(1) by simp_all
  note frame = group_frame [OF g]
  have stream: "concat (map frame_of (g # gs)) @ put_u32 0 = put_u32 (length ?f) @ ?f @ ?rest"
    by (simp add: frame_of_eq [of g])
  have sum: "sofar + length ?f + length (concat (map frame_of gs)) \<le> MAX_TREE"
    using Cons.prems(2) by (simp add: frame_of_eq [of g])
  then have "sofar + length ?f \<le> MAX_TREE" by linarith
  moreover have "decode_tree_frame ?f = Inr g"
    using decode_tree_frame_put [OF frame(1), of "[]"] frame(5) by simp
  ultimately have "recv_tree (put_u32 (length ?f) @ ?f @ ?rest) sofar acc =
      recv_tree ?rest (sofar + length ?f) (acc @ g)"
    using frame by (subst recv_tree.simps) (simp add: Let_def put_u32_def)
  also have "\<dots> = Inr ((acc @ g) @ concat gs)"
    using Cons.prems(1) sum by (intro Cons.IH) (simp_all)
  finally show ?case unfolding stream by simp
qed

lemma bytes_get_append:
  "a = length pre \<Longrightarrow> b = length pre + length mid \<Longrightarrow> bytes_get (pre @ mid @ post) a b = Some mid"
  by (simp add: bytes_get_def)

lemma load_frames_read:
  "\<forall>g \<in> set gs. group_ok g \<and> (\<forall>v \<in> set g. entry_fits v) \<Longrightarrow>
   length (pre @ concat (map frame_of gs) @ put_u32 0) \<le> MAX_TREE \<Longrightarrow>
   load_frames (pre @ concat (map frame_of gs) @ put_u32 0) (length pre) acc = Some (acc @ concat gs)"
proof (induction gs arbitrary: pre acc)
  case Nil
  have "bytes_get (pre @ put_u32 0) (length pre) (length pre + 4) = Some (put_u32 0)"
    using bytes_get_append [OF refl, of _ pre "put_u32 0" "[]"] by (simp add: put_u32_def)
  moreover have "le_val (put_u32 0) = 0" by (simp add: put_u32_def le_val_u32_le)
  ultimately show ?case by (simp add: load_frames.simps [of "pre @ put_u32 0"] Let_def)
next
  case (Cons g gs)
  let ?f = "put_list encode_version g"
  let ?head = "put_u32 (length ?f)"
  let ?rest = "concat (map frame_of gs) @ put_u32 0"
  let ?bs = "pre @ concat (map frame_of (g # gs)) @ put_u32 0"
  have g: "group_ok g" "\<forall>v \<in> set g. entry_fits v" using Cons.prems(1) by simp_all
  note frame = group_frame [OF g]
  have bs: "?bs = pre @ ?head @ (?f @ ?rest)" "?bs = (pre @ ?head) @ ?f @ ?rest"
    "?bs = (pre @ ?head @ ?f) @ ?rest"
    by (simp_all add: frame_of_eq [of g])
  have "bytes_get ?bs (length pre) (length pre + 4) = Some ?head"
    unfolding bs(1) by (rule bytes_get_append) (simp_all add: put_u32_def)
  moreover have "bytes_get ?bs (length pre + 4) (length pre + 4 + length ?f) = Some ?f"
    unfolding bs(2) by (rule bytes_get_append) (simp_all add: put_u32_def)
  moreover have "decode_tree_frame ?f = Inr g"
    using decode_tree_frame_put [OF frame(1), of "[]"] frame(5) by simp
  moreover have "length pre + 4 \<le> MAX_TREE" using Cons.prems(2) by (simp add: frame_of_eq [of g] put_u32_def)
  ultimately have "load_frames ?bs (length pre) acc =
      load_frames ?bs (length pre + 4 + length ?f) (acc @ g)"
    using frame by (subst load_frames.simps) (simp add: Let_def)
  also have "\<dots> = load_frames ((pre @ ?head @ ?f) @ ?rest) (length (pre @ ?head @ ?f)) (acc @ g)"
    unfolding bs(3) by (simp add: put_u32_def ac_simps)
  also have "\<dots> = Some ((acc @ g) @ concat gs)"
    using Cons.prems by (intro Cons.IH) (simp_all add: frame_of_eq [of g])
  finally show ?case by simp
qed

text \<open>A file list sent in frames is received as it was sent: no frame is over the cap the
  receiver takes, none is empty but the last, and the versions come in order, whole.\<close>

lemma tree_frames_arrive:
  assumes "\<forall>v \<in> set vs. entry_fits v" and "length (concat (tree_frames vs)) \<le> MAX_TREE"
  shows "recv_tree (concat (tree_frames vs)) 0 [] = Inr vs
    \<and> (\<forall>f \<in> set (tree_frames vs). 4 \<le> length f \<and> length f \<le> MAX_TREE_FRAME + 4)"
proof -
  obtain gs where gs: "tree_frames vs = map frame_of gs @ [put_u32 0]" "concat gs = vs"
    "\<forall>g \<in> set gs. group_ok g" by (rule tree_frames_groups)
  have fits: "\<forall>g \<in> set gs. group_ok g \<and> (\<forall>v \<in> set g. entry_fits v)"
    using gs(2,3) assms(1) by auto
  have "recv_tree (concat (map frame_of gs) @ put_u32 0) 0 [] = Inr ([] @ concat gs)"
    using assms(2) by (intro recv_frames fits) (simp add: gs(1))
  moreover have "length (frame_of g) \<le> MAX_TREE_FRAME + 4" if "g \<in> set gs" for g
    using group_frame(2) [of g] fits that by (simp add: frame_of_eq put_u32_def)
  moreover have "4 \<le> length (frame_of g)" for g by (simp add: frame_of_eq put_u32_def)
  ultimately show ?thesis by (auto simp: gs put_u32_def)
qed

lemma sort_key_twice: "sort_key f (sort_key f xs) = sort_key f xs"
  by (rule sort_key_id_if_sorted) simp

lemma tree_digest_sorted: "tree_digest hash (sort_key listed_order vs) = tree_digest hash vs"
  by (simp add: tree_digest_def listing_def sort_key_twice)

lemma load_saved:
  assumes "\<forall>v \<in> set vs. entry_fits v" and "length (saved hash counter vs) \<le> MAX_TREE"
    and "\<And>bs. length (hash bs) = 32"
  shows "load hash (Some (saved hash counter vs)) =
    Some \<lparr>kl_counter = counter, kl_digest = tree_digest hash vs, kl_versions = sort_key listed_order vs\<rparr>"
proof -
  let ?s = "sort_key listed_order vs" and ?d = "tree_digest hash vs"
  obtain gs where gs: "tree_frames ?s = map frame_of gs @ [put_u32 0]" "concat gs = ?s"
    "\<forall>g \<in> set gs. group_ok g" by (rule tree_frames_groups)
  have fits: "\<forall>g \<in> set gs. group_ok g \<and> (\<forall>v \<in> set g. entry_fits v)"
  proof
    fix g
    assume g: "g \<in> set gs"
    then have "set g \<subseteq> set (concat gs)" by auto
    then show "group_ok g \<and> (\<forall>v \<in> set g. entry_fits v)" using gs g assms(1) by auto
  qed
  have d: "length ?d = 32" by (simp add: tree_digest_def assms(3))
  have bs: "saved hash counter vs = (?d @ u64_le counter) @ concat (map frame_of gs) @ put_u32 0"
    by (simp add: saved_def gs(1) tree_digest_sorted Let_def)
  have len: "length (?d @ u64_le counter) = HEADER" using d by (simp add: HEADER_def)
  have "load_frames (saved hash counter vs) HEADER [] = Some ([] @ concat gs)"
    unfolding bs len [symmetric] using assms(2) by (intro load_frames_read fits) (simp add: bs)
  moreover have "bytes_get (saved hash counter vs) 0 32 = Some ?d"
    using bytes_get_append [of 0 "[]" 32 ?d] d by (simp add: bs)
  moreover have "bytes_get (saved hash counter vs) 32 HEADER = Some (u64_le counter)"
    using bytes_get_append [of 32 ?d HEADER "u64_le counter"] d by (simp add: bs HEADER_def)
  ultimately show ?thesis
    by (simp add: load_def gs(2) tree_digest_sorted)
qed

text \<open>A file list kept on disk is loaded again as the same entries, in fingerprint order, at
  the counter it was kept with or moved on to; and whatever the file holds, a list loaded from it
  is one whose fingerprint is the one kept with it.\<close>

lemma kept_list_reads_back:
  assumes "\<forall>v \<in> set vs. entry_fits v" and "length (saved hash counter vs) \<le> MAX_TREE"
    and "\<And>bs. length (hash bs) = 32"
  shows "load hash (save hash True counter vs file) =
      Some \<lparr>kl_counter = counter, kl_digest = tree_digest hash vs, kl_versions = sort_key listed_order vs\<rparr>
    \<and> load hash (advance True later (save hash True counter vs file)) =
      Some \<lparr>kl_counter = later, kl_digest = tree_digest hash vs, kl_versions = sort_key listed_order vs\<rparr>
    \<and> (\<forall>kept. load hash file = Some kept \<longrightarrow> tree_digest hash (kl_versions kept) = kl_digest kept)"
proof -
  have d: "length (tree_digest hash vs) = 32" by (simp add: tree_digest_def assms(3))
  have "advance True later (Some (saved hash counter vs)) = Some (saved hash later vs)"
    using d by (simp add: advance_def saved_def tree_digest_sorted Let_def HEADER_def)
  moreover have "length (saved hash later vs) \<le> MAX_TREE"
    using assms(2) by (simp add: saved_def Let_def)
  moreover have "\<forall>kept. load hash file = Some kept \<longrightarrow> tree_digest hash (kl_versions kept) = kl_digest kept"
    by (auto simp: load_def Option.bind_eq_Some_conv split: if_splits)
  ultimately show ?thesis using load_saved assms by (simp add: save_def)
qed

subsection \<open>Rebuilding a list from what changed\<close>

lemma rebuilt_eq:
  "rebuilt kept changed = bm_values (bm_collect (map (\<lambda>v. (listed_order v, v)) (kept @ changed)))"
  by (simp add: rebuilt_def bm_collect_def fold_map o_def case_prod_beta)

lemma keyed_collect:
  assumes "m = bm_collect (map (\<lambda>v. (f v, v)) vs)"
  shows "m = map (\<lambda>v. (f v, v)) (bm_values m)"
proof -
  have "k = f v" if "(k, v) \<in> set m" for k v
  proof -
    have "bm_get m k = Some v" using that assms by (intro bm_get_mem) (simp_all add: bm_ok_collect)
    then show ?thesis by (auto simp: assms bm_get_collect rev_map dest!: map_of_SomeD)
  qed
  then show ?thesis unfolding bm_values_def by (induction m) auto
qed

lemma rebuilt_set: "set (rebuilt kept changed) \<subseteq> set kept \<union> set changed"
proof
  fix v
  assume "v \<in> set (rebuilt kept changed)"
  then obtain k where "(k, v) \<in> set (bm_collect (map (\<lambda>v. (listed_order v, v)) (kept @ changed)))"
    by (auto simp: rebuilt_eq bm_values_def)
  then have "bm_get (bm_collect (map (\<lambda>v. (listed_order v, v)) (kept @ changed))) k = Some v"
    by (intro bm_get_mem) (simp_all add: bm_ok_collect)
  then show "v \<in> set kept \<union> set changed"
    by (auto simp: bm_get_collect dest!: map_of_SomeD)
qed

text \<open>Rebuilding puts the changed entries in place of the kept ones: an entry is found under
  its place in the list, the last one said of it, each place has one entry, and they come out in
  fingerprint order, so their listing is themselves.\<close>

theorem rebuilt_replaces_entries:
  "map_of (map (\<lambda>v. (listed_order v, v)) (rebuilt kept changed)) =
     map_of (rev (map (\<lambda>v. (listed_order v, v)) (kept @ changed)))
   \<and> sorted_wrt (<) (map listed_order (rebuilt kept changed))
   \<and> sort_key listed_order (rebuilt kept changed) = rebuilt kept changed"
proof -
  let ?m = "bm_collect (map (\<lambda>v. (listed_order v, v)) (kept @ changed))"
  note keyed = keyed_collect [OF refl, of listed_order "kept @ changed"]
  have keys: "map fst ?m = map listed_order (bm_values ?m)"
    by (subst keyed) (simp add: o_def)
  have "map_of ?m = map_of (rev (map (\<lambda>v. (listed_order v, v)) (kept @ changed)))"
    using bm_get_collect [of "map (\<lambda>v. (listed_order v, v)) (kept @ changed)"]
    by (simp add: bm_get_def fun_eq_iff)
  moreover have strict: "sorted_wrt (<) (map listed_order (rebuilt kept changed))"
    using bm_ok_collect [of "map (\<lambda>v. (listed_order v, v)) (kept @ changed)"]
    by (simp add: bm_ok_def keys rebuilt_eq del: map_append)
  moreover have "sort_key listed_order (rebuilt kept changed) = rebuilt kept changed"
    using strict by (intro sort_key_id_if_sorted) (simp add: strict_sorted_iff)
  ultimately show ?thesis using keyed by (simp add: rebuilt_eq)
qed

subsection \<open>The list a sync works from\<close>

lemma decode_tree_frame_ok:
  assumes "decode_tree_frame bs = Inr vs" and "addressable bs"
  shows "\<forall>v \<in> set vs. version_ok v"
proof -
  obtain r where "r_versions (reader_new bs) = Inr (vs, r)"
    using assms(1) by (auto simp: decode_tree_frame_def r_versions_def split: sum.splits)
  then obtain ws where "list_says version_says MAX_MESSAGE ws vs"
    using exactD [OF exact_response_lists(7), of "reader_new bs" vs r] assms(2)
    by (auto simp: reader_new_def)
  then show ?thesis by (auto dest: list_says_version list_okD)
qed

lemma load_frames_ok:
  "load_frames bs at acc = Some vs \<Longrightarrow> \<forall>v \<in> set acc. version_ok v \<Longrightarrow> \<forall>v \<in> set vs. version_ok v"
proof (induction bs at acc rule: load_frames.induct)
  case (1 bs at acc)
  from "1.prems"(1) obtain b where b: "bytes_get bs at (at + 4) = Some b"
    by (subst (asm) load_frames.simps) (auto split: option.splits)
  show ?case
  proof (cases "le_val b = 0")
    case True
    with "1.prems" b show ?thesis by (subst (asm) load_frames.simps) simp
  next
    case False
    with "1.prems"(1) b obtain frame g where small: "\<not> (le_val b > MAX_TREE_FRAME \<or> at + 4 > MAX_TREE)"
      and frame: "bytes_get bs (at + 4) (at + 4 + le_val b) = Some frame"
      and g: "decode_tree_frame frame = Inr g"
      and more: "load_frames bs (at + 4 + le_val b) (acc @ g) = Some vs"
      by (subst (asm) load_frames.simps) (auto simp: Let_def split: option.splits sum.splits if_splits)
    have "length frame = le_val b" using frame by (auto simp: bytes_get_def split: if_splits)
    then have "addressable frame" using small by (simp add: addressable_def MAX_TREE_FRAME_def)
    then have "\<forall>v \<in> set g. version_ok v" by (rule decode_tree_frame_ok [OF g])
    then show ?thesis
      using "1.IH" [OF b refl refl False small frame g more] "1.prems"(2) by auto
  qed
qed

lemma load_ok: "load hash file = Some kept \<Longrightarrow> \<forall>v \<in> set (kl_versions kept). version_ok v"
  by (auto simp: load_def Option.bind_eq_Some_conv split: if_splits dest: load_frames_ok)

definition candidates ::
  "(bytes \<Rightarrow> bytes) \<Rightarrow> 'e answers \<Rightarrow> bytes option \<Rightarrow> file_version list list" where
  \<comment> \<open>the lists whose fingerprint is held against the other device's\<close>
  "candidates hash ans file =
     (case load hash file of
        None \<Rightarrow> []
      | Some kept \<Rightarrow> kl_versions kept #
          (case since_answer ans of Inr (Some c) \<Rightarrow> [rebuilt (kl_versions kept) (lc_changed c)] | _ \<Rightarrow> []))"

definition truthful :: "(bytes \<Rightarrow> bytes) \<Rightarrow> 'e answers \<Rightarrow> file_version list \<Rightarrow> bool" where
  \<comment> \<open>the other device's fingerprints are of the list it has; what it says changed may be anything\<close>
  "truthful hash ans theirs \<longleftrightarrow>
     (\<forall>c. since_answer ans = Inr (Some c) \<longrightarrow> lc_digest c = tree_digest hash theirs
        \<and> (\<forall>v \<in> set (lc_changed c). version_ok v))
     \<and> (\<forall>d. digest_answer ans = Inr (Some d) \<longrightarrow> d = tree_digest hash theirs)
     \<and> (\<forall>vs. tree_answer ans = Inr vs \<longrightarrow> vs = theirs)"

lemma fetch_whole_gives:
  "fst (fetch_whole hash works ans file) = Inr vs \<Longrightarrow> tree_answer ans = Inr vs"
  "fst (fetch_whole hash works ans file) = Inl e \<Longrightarrow> snd (fetch_whole hash works ans file) = file"
  by (auto simp: fetch_whole_def split: sum.splits)

lemma tree_kept_gives:
  assumes "fst (tree_kept hash works ans file) = Inr vs" and "truthful hash ans theirs"
  shows "vs = theirs \<or> (vs \<in> set (candidates hash ans file) \<and> tree_digest hash vs = tree_digest hash theirs)"
proof (cases "load hash file")
  case None
  with assms show ?thesis by (auto simp: tree_kept_def truthful_def dest: fetch_whole_gives)
next
  case (Some kept)
  have kept: "tree_digest hash (kl_versions kept) = kl_digest kept"
    using Some by (auto simp: load_def Option.bind_eq_Some_conv split: if_splits)
  show ?thesis
  proof (cases "since_answer ans")
    case (Inl e)
    with assms(1) Some show ?thesis by (simp add: tree_kept_def)
  next
    case (Inr answer)
    with assms Some kept show ?thesis
      by (cases answer)
        (auto simp: tree_kept_def candidates_def truthful_def Let_def split: if_splits sum.splits
          dest: fetch_whole_gives)
  qed
qed

lemma candidates_ok:
  assumes "vs \<in> set (candidates hash ans file)" and "truthful hash ans theirs"
  shows "\<forall>v \<in> set vs. version_ok v"
proof -
  from assms(1) obtain kept where kept: "load hash file = Some kept"
    and "vs = kl_versions kept \<or>
      (\<exists>c. since_answer ans = Inr (Some c) \<and> vs = rebuilt (kl_versions kept) (lc_changed c))"
    by (cases "load hash file"; cases "since_answer ans")
      (auto simp: candidates_def split: option.splits)
  then show ?thesis
  proof (elim disjE exE conjE)
    fix c
    assume "since_answer ans = Inr (Some c)" and vs: "vs = rebuilt (kl_versions kept) (lc_changed c)"
    then have "\<forall>v \<in> set (lc_changed c). version_ok v" using assms(2) by (auto simp: truthful_def)
    then show ?thesis
      using load_ok [OF kept] rebuilt_set [of "kl_versions kept" "lc_changed c"] vs by blast
  qed (use load_ok [OF kept] in simp)
qed

text \<open>C18: whatever changes the other device says, and whatever the kept file holds, the list a sync
  works from is the other device's own: the same entries, as long as its fingerprints and the list it
  sends whole are of the list it has (\<open>truthful\<close>), and no other list that was compared has that
  fingerprint. A missed change costs a fetch, never a wrong list; and a sync
  that fails leaves the kept file as it was.\<close>

theorem kept_tree_is_theirs:
  assumes "truthful hash ans theirs" and "\<forall>v \<in> set theirs. version_ok v"
    and "addressable (listing theirs)"
    and "\<forall>vs \<in> set (candidates hash ans file). hash (listing vs) = hash (listing theirs) \<longrightarrow> listing vs = listing theirs"
  shows "(\<forall>vs. fst (tree_kept hash works ans file) = Inr vs \<longrightarrow>
        sort_key listed_order vs = sort_key listed_order theirs \<and> mset vs = mset theirs)
    \<and> (\<forall>e. fst (tree_kept hash works ans file) = Inl e \<longrightarrow> snd (tree_kept hash works ans file) = file)"
proof -
  have "sort_key listed_order vs = sort_key listed_order theirs"
    if "fst (tree_kept hash works ans file) = Inr vs" for vs
  proof (cases "vs = theirs")
    case False
    then have cand: "vs \<in> set (candidates hash ans file)" and "hash (listing vs) = hash (listing theirs)"
      using tree_kept_gives [OF that assms(1)] by (auto simp: tree_digest_def)
    then have "listing vs = listing theirs" using assms(4) by blast
    moreover note candidates_ok [OF cand assms(1)]
    ultimately show ?thesis using listing_inject assms(2,3) by metis
  qed simp
  moreover have "mset vs = mset theirs" if "sort_key listed_order vs = sort_key listed_order theirs"
    for vs :: "file_version list"
    using that by (metis mset_sort)
  moreover have "snd (tree_kept hash works ans file) = file"
    if "fst (tree_kept hash works ans file) = Inl e" for e
    using that
    by (auto simp: tree_kept_def Let_def split: option.splits sum.splits if_splits
        dest: fetch_whole_gives(2))
  ultimately show ?thesis by blast
qed

subsection \<open>A list of one file\<close>

definition first_bytes :: "bytes \<Rightarrow> bytes" where
  \<comment> \<open>a fingerprint of 32 bytes, for the examples\<close>
  "first_bytes bs = take 32 (bs @ replicate 32 0)"

lemma length_first_bytes: "length (first_bytes bs) = 32"
  by (simp add: first_bytes_def)

lemma sample_fits: "\<forall>v \<in> set [sample_version]. entry_fits v"
proof -
  have "length (encode_version sample_version) = 141" by code_simp
  then show ?thesis
    by (simp add: entry_fits_def sample_version_ok MAX_TREE_FRAME_def TREE_FRAME_TARGET_def)
qed

theorem tree_frames_arrive_witness:
  "recv_tree (concat (tree_frames [sample_version])) 0 [] = Inr [sample_version]"
proof -
  have "length (concat (tree_frames [sample_version])) = 153" by code_simp
  then have "length (concat (tree_frames [sample_version])) \<le> MAX_TREE" by (simp add: MAX_TREE_def)
  with tree_frames_arrive [OF sample_fits] show ?thesis by blast
qed

lemma kept_list_reads_back_witness:
  "\<exists>kept. load first_bytes (save first_bytes True 7 [sample_version] None) = Some kept
     \<and> kl_versions kept = [sample_version] \<and> kl_counter kept = 7"
proof -
  have "length (saved first_bytes 7 [sample_version]) = 193" by code_simp
  then have "length (saved first_bytes 7 [sample_version]) \<le> MAX_TREE" by (simp add: MAX_TREE_def)
  with kept_list_reads_back [OF sample_fits _ length_first_bytes] show ?thesis by fastforce
qed

definition by_length :: "bytes \<Rightarrow> bytes" where
  \<comment> \<open>another, which tells lists of different lengths apart\<close>
  "by_length bs = replicate 32 (of_nat (length bs))"

definition second_version :: file_version where
  "second_version = sample_version\<lparr>path := ''b.txt''\<rparr>"

lemma second_ok: "version_ok second_version" "addressable (listing [sample_version, second_version])"
  "listing [sample_version, second_version] = encode_version sample_version @ encode_version second_version"
  "length (encode_version sample_version) = 141" "length (encode_version second_version) = 139"
proof -
  have paths: "path_ok ''b.txt''" "is_safe_path ''b.txt''" by code_simp+
  then show "version_ok second_version"
    using sample_version_ok by (simp add: second_version_def version_ok_def safe_path_ok_def)
  show len: "length (encode_version sample_version) = 141" "length (encode_version second_version) = 139" by code_simp+
  have "sort_key listed_order [sample_version, second_version] = [sample_version, second_version]" by code_simp
  then show l: "listing [sample_version, second_version] = encode_version sample_version @ encode_version second_version"
    by (simp add: listing_def)
  show "addressable (listing [sample_version, second_version])" by (simp add: l len addressable_def)
qed

text \<open>The list kept is of one file, the other device says that it has a second one since, and what is
  rebuilt has its fingerprint: its whole list is not asked for.\<close>

theorem kept_tree_is_theirs_witness:
  "\<exists>vs. fst (tree_kept by_length True
      (Answers (Inr (Some \<lparr>lc_now = 9, lc_digest = tree_digest by_length [sample_version, second_version], lc_changed = [second_version]\<rparr>))
        (Inr None) (Inr None) (Inl ''not asked'')) (save by_length True 7 [sample_version] None)) = Inr vs
     \<and> mset vs = {#sample_version, second_version#}"
proof -
  let ?theirs = "[sample_version, second_version]"
  let ?changes = "\<lparr>lc_now = 9, lc_digest = tree_digest by_length ?theirs, lc_changed = [second_version]\<rparr>"
  let ?ans = "Answers (Inr (Some ?changes)) (Inr None) (Inr None) (Inl ''not asked'') :: string answers"
  let ?file = "save by_length True 7 [sample_version] None"
  have "length (saved by_length 7 [sample_version]) = 193" by code_simp
  then have "length (saved by_length 7 [sample_version]) \<le> MAX_TREE" by (simp add: MAX_TREE_def)
  then have kept: "load by_length ?file
      = Some \<lparr>kl_counter = 7, kl_digest = tree_digest by_length [sample_version], kl_versions = [sample_version]\<rparr>"
    using kept_list_reads_back [OF sample_fits, of by_length 7 None 7] by (simp add: by_length_def)
  have rebuilt: "rebuilt [sample_version] [second_version] = ?theirs" by code_simp
  have differ: "by_length (listing [sample_version]) \<noteq> by_length (listing ?theirs)"
    by (simp add: second_ok(3-5)) (simp add: by_length_def listing_def second_ok(4,5))
  have "fst (tree_kept by_length True ?ans ?file) = Inr ?theirs"
    using differ by (simp add: tree_kept_def kept rebuilt tree_digest_def Let_def)
  moreover have "truthful by_length ?ans ?theirs" by (simp add: truthful_def second_ok(1))
  moreover have "\<forall>v \<in> set ?theirs. version_ok v" by (simp add: sample_version_ok second_ok(1))
  moreover have "\<forall>vs \<in> set (candidates by_length ?ans ?file). by_length (listing vs) = by_length (listing ?theirs) \<longrightarrow> listing vs = listing ?theirs"
    using differ by (simp add: candidates_def kept rebuilt)
  ultimately show ?thesis
    using kept_tree_is_theirs [of by_length ?ans ?theirs ?file True] second_ok(2) by auto
qed

end
