(* ===== verification/Relay.thy ===== *)
theory Relay imports Prelude
begin

section \<open>The relay (\<open>crates/relay/src/frame.rs\<close>, \<open>server.rs\<close>, \<open>socket.rs\<close>)\<close>

text \<open>
  The frames between a device and the relay, the relay serving many connections, and the map
  by which a device's socket gives each conversation an address. A connection is a number; the
  outbox the registry holds for an identifier is the connection behind it, with the queue of
  frames to be written to it. A step serves one frame of one connection, opens or ends one, or
  writes one queued frame; steps of different connections interleave freely, and one frame is
  served in one step.
\<close>

type_synonym relay_id = bytes

definition MAX_FRAME :: nat where "MAX_FRAME = 64 * 1024"

datatype frame =
    Register relay_id
  | Forward relay_id bytes
  | Deliver relay_id bytes
  | ForwardAs relay_id relay_id bytes
  | DeliverTo relay_id relay_id bytes

datatype malformed = EmptyFrame | UnknownFrameTag | TooShortForId

abbreviation (input) FRAME_REGISTER :: u8 where "FRAME_REGISTER \<equiv> 1"
abbreviation (input) FRAME_FORWARD :: u8 where "FRAME_FORWARD \<equiv> 2"
abbreviation (input) FRAME_DELIVER :: u8 where "FRAME_DELIVER \<equiv> 3"
abbreviation (input) FRAME_FORWARD_AS :: u8 where "FRAME_FORWARD_AS \<equiv> 4"
abbreviation (input) FRAME_DELIVER_TO :: u8 where "FRAME_DELIVER_TO \<equiv> 5"

fun frame_body :: "frame \<Rightarrow> bytes" where
  "frame_body (Register member) = [FRAME_REGISTER] @ member"
| "frame_body (Forward to payload) = [FRAME_FORWARD] @ to @ payload"
| "frame_body (Deliver src payload) = [FRAME_DELIVER] @ src @ payload"
| "frame_body (ForwardAs src to payload) = [FRAME_FORWARD_AS] @ src @ to @ payload"
| "frame_body (DeliverTo src to payload) = [FRAME_DELIVER_TO] @ src @ to @ payload"

definition frame_encode :: "frame \<Rightarrow> bytes" where
  "frame_encode f = (let body = frame_body f in u32_be (length body) @ body)"

definition take_id :: "bytes \<Rightarrow> malformed + (relay_id \<times> bytes)" where
  "take_id bs = (if length bs < 32 then Inl TooShortForId else Inr (take 32 bs, drop 32 bs))"

fun frame_decode :: "bytes \<Rightarrow> malformed + frame" where
  "frame_decode [] = Inl EmptyFrame"
| "frame_decode (tag # rest) =
     (if tag = FRAME_REGISTER then and_then (take_id rest) (\<lambda>(member, _). Inr (Register member))
      else if tag = FRAME_FORWARD then
        and_then (take_id rest) (\<lambda>(to, payload). Inr (Forward to payload))
      else if tag = FRAME_DELIVER then
        and_then (take_id rest) (\<lambda>(src, payload). Inr (Deliver src payload))
      else if tag = FRAME_FORWARD_AS then
        and_then (take_id rest) (\<lambda>(src, rest). and_then (take_id rest) (\<lambda>(to, payload).
          Inr (ForwardAs src to payload)))
      else if tag = FRAME_DELIVER_TO then
        and_then (take_id rest) (\<lambda>(src, rest). and_then (take_id rest) (\<lambda>(to, payload).
          Inr (DeliverTo src to payload)))
      else Inl UnknownFrameTag)"

subsection \<open>Reading frames off a connection\<close>

datatype next_frame = Ended | Closes | Body bytes bytes

definition read_frame :: "bytes \<Rightarrow> next_frame" where
  \<comment> \<open>the head of both loops: a length, checked, and that many bytes; \<open>Ended\<close> when there are not\<close>
  "read_frame stream =
     (if length stream < 4 then Ended
      else let sz = be_val (take 4 stream); rest = drop 4 stream
           in if sz = 0 \<or> sz > MAX_FRAME then Closes
              else if length rest < sz then Ended
              else Body (take sz rest) (drop sz rest))"

function read_frames :: "relay_id \<Rightarrow> bytes \<Rightarrow> ((relay_id \<times> relay_id) \<times> bytes) list" where
  \<comment> \<open>what a device's socket is handed, until the connection ends\<close>
  "read_frames me stream =
     (case read_frame stream of
        Body body rest \<Rightarrow>
          (case frame_decode body of
             Inr (Deliver src payload) \<Rightarrow> [((src, me), payload)]
           | Inr (DeliverTo src to payload) \<Rightarrow> [((src, to), payload)]
           | _ \<Rightarrow> []) @ read_frames me rest
      | _ \<Rightarrow> [])"
  by pat_completeness auto
termination
  by (relation "measure (\<lambda>(me, stream). length stream)")
    (auto simp: read_frame_def Let_def split: if_splits)

declare read_frames.simps [simp del]

subsection \<open>The relay's state\<close>

definition MAX_IDENTITIES :: nat where "MAX_IDENTITIES = 64"

record relay_stats =
  connections :: u64
  frames_forwarded :: u64
  bytes_forwarded :: u64
  frames_dropped :: u64

record connection =
  identities :: "relay_id list"
  many :: bool
  outgoing :: "frame list"
  writing :: bool

record relay =
  registered :: "relay_id \<Rightarrow> nat option"
  conns :: "nat \<Rightarrow> connection option"
  stats :: relay_stats

definition relay_new :: relay where
  "relay_new =
     \<lparr>registered = (\<lambda>_. None), conns = (\<lambda>_. None),
      stats = \<lparr>connections = 0, frames_forwarded = 0, bytes_forwarded = 0, frames_dropped = 0\<rparr>\<rparr>"

definition drop_frame :: "relay \<Rightarrow> relay" where
  "drop_frame s = s\<lparr>stats := (stats s)\<lparr>frames_dropped := frames_dropped (stats s) + 1\<rparr>\<rparr>"

definition forward :: "relay \<Rightarrow> relay_id \<Rightarrow> relay_id \<Rightarrow> bytes \<Rightarrow> relay" where
  "forward s src to payload =
     (case Option.bind (registered s to) (\<lambda>d. map_option (\<lambda>k. (d, k)) (conns s d)) of
        None \<Rightarrow> drop_frame s
      | Some (d, k) \<Rightarrow>
          (let f = (if many k then DeliverTo src to payload else Deliver src payload)
           in if writing k
              then s\<lparr>conns := (conns s)(d \<mapsto> k\<lparr>outgoing := outgoing k @ [f]\<rparr>),
                     stats := (stats s)\<lparr>frames_forwarded := frames_forwarded (stats s) + 1,
                       bytes_forwarded := bytes_forwarded (stats s) + word_of_nat (length payload)\<rparr>\<rparr>
              else drop_frame s))"

definition register :: "nat \<Rightarrow> connection \<Rightarrow> relay_id \<Rightarrow> relay \<Rightarrow> relay" where
  "register c k member s =
     (if member \<in> set (identities k) then s
      else if length (identities k) \<ge> MAX_IDENTITIES then drop_frame s
      else let ids = identities k @ [member]
           in s\<lparr>registered := (registered s)(member \<mapsto> c),
                conns := (conns s)(c \<mapsto> k\<lparr>identities := ids, many := (many k \<or> length ids > 1)\<rparr>)\<rparr>)"

definition serve_frame :: "nat \<Rightarrow> connection \<Rightarrow> bytes \<Rightarrow> relay \<Rightarrow> relay" where
  "serve_frame c k body s =
     (case frame_decode body of
        Inl _ \<Rightarrow> drop_frame s
      | Inr (Register member) \<Rightarrow> register c k member s
      | Inr (Forward to payload) \<Rightarrow>
          (case identities k of [] \<Rightarrow> drop_frame s | src # _ \<Rightarrow> forward s src to payload)
      | Inr (ForwardAs src to payload) \<Rightarrow>
          (if src \<in> set (identities k) then forward s src to payload else drop_frame s)
      | Inr _ \<Rightarrow> drop_frame s)"

definition open_conn :: "nat \<Rightarrow> relay \<Rightarrow> relay" where
  "open_conn c s =
     s\<lparr>conns := (conns s)(c \<mapsto> \<lparr>identities = [], many = False, outgoing = [], writing = True\<rparr>),
       stats := (stats s)\<lparr>connections := connections (stats s) + 1\<rparr>\<rparr>"

definition end_conn :: "nat \<Rightarrow> connection \<Rightarrow> relay \<Rightarrow> relay" where
  \<comment> \<open>only the names that are still this connection's\<close>
  "end_conn c k s =
     s\<lparr>registered := fold (\<lambda>m reg. if reg m = Some c then reg(m := None) else reg)
         (identities k) (registered s),
       conns := (conns s)(c := None)\<rparr>"

definition write_one :: "nat \<Rightarrow> connection \<Rightarrow> relay \<Rightarrow> relay" where
  "write_one c k s = s\<lparr>conns := (conns s)(c \<mapsto> k\<lparr>outgoing := tl (outgoing k)\<rparr>)\<rparr>"

definition write_fails :: "nat \<Rightarrow> connection \<Rightarrow> relay \<Rightarrow> relay" where
  \<comment> \<open>the writing task ends and its queue with it; the connection is read until it ends\<close>
  "write_fails c k s = s\<lparr>conns := (conns s)(c \<mapsto> k\<lparr>outgoing := [], writing := False\<rparr>)\<rparr>"

inductive relay_step :: "relay \<Rightarrow> relay \<Rightarrow> bool" where
  opens: "conns s c = None \<Longrightarrow> relay_step s (open_conn c s)"
| serves: "conns s c = Some k \<Longrightarrow> 0 < length body \<Longrightarrow> length body \<le> MAX_FRAME \<Longrightarrow>
    relay_step s (serve_frame c k body s)"
| writes: "conns s c = Some k \<Longrightarrow> outgoing k \<noteq> [] \<Longrightarrow> relay_step s (write_one c k s)"
| fails: "conns s c = Some k \<Longrightarrow> relay_step s (write_fails c k s)"
| ends: "conns s c = Some k \<Longrightarrow> relay_step s (end_conn c k s)"

inductive relay_reachable :: "relay \<Rightarrow> bool" where
  start: "relay_reachable relay_new"
| step: "relay_reachable s \<Longrightarrow> relay_step s s' \<Longrightarrow> relay_reachable s'"

inductive_cases relay_stepE: "relay_step s s'"

subsection \<open>Frames\<close>

fun frame_ok :: "frame \<Rightarrow> bool" where
  "frame_ok (Register member) \<longleftrightarrow> length member = 32"
| "frame_ok (Forward to payload) \<longleftrightarrow> length to = 32"
| "frame_ok (Deliver src payload) \<longleftrightarrow> length src = 32"
| "frame_ok (ForwardAs src to payload) \<longleftrightarrow> length src = 32 \<and> length to = 32"
| "frame_ok (DeliverTo src to payload) \<longleftrightarrow> length src = 32 \<and> length to = 32"

lemma take_id_append [simp]: "length i = 32 \<Longrightarrow> take_id (i @ p) = Inr (i, p)"
  by (simp add: take_id_def)

lemma take_id_Inr: "take_id bs = Inr (i, p) \<longleftrightarrow> length i = 32 \<and> bs = i @ p"
proof
  assume "take_id bs = Inr (i, p)"
  then show "length i = 32 \<and> bs = i @ p"
    by (auto simp: take_id_def min_def split: if_splits)
qed auto

lemma frame_decode_body: "frame_ok f \<Longrightarrow> frame_decode (frame_body f) = Inr f"
  using take_id_append [of _ "[]"] by (cases f) auto

lemma frame_decode_Inr:
  "frame_decode body = Inr f \<Longrightarrow> frame_ok f \<and> (\<exists>junk. body = frame_body f @ junk
     \<and> (junk \<noteq> [] \<longrightarrow> (\<exists>m. f = Register m)))"
  by (cases body)
    (auto simp: and_then_Inr_iff take_id_Inr split: if_splits prod.splits)

lemma be_val_lt: "be_val bs < 256 ^ length bs"
  using le_val_lt [of "rev bs"] by (simp add: be_val_def)

lemma read_frame_encode:
  assumes "frame_ok f" and "length (frame_body f) \<le> MAX_FRAME"
  shows "read_frame (frame_encode f @ rest) = Body (frame_body f) rest"
proof -
  have "length (frame_body f) < 2 ^ 32" and "length (frame_body f) \<noteq> 0"
    using assms by (simp_all add: MAX_FRAME_def) (cases f; simp)
  then show ?thesis
    using assms by (simp add: read_frame_def frame_encode_def Let_def be_val_u32_be)
qed

subsection \<open>The registry's invariant\<close>

definition relay_ok :: "relay \<Rightarrow> bool" where
  "relay_ok s \<longleftrightarrow>
     (\<forall>m c. registered s m = Some c \<longrightarrow> (\<exists>k. conns s c = Some k \<and> m \<in> set (identities k)))
     \<and> (\<forall>c k. conns s c = Some k \<longrightarrow> distinct (identities k) \<and> length (identities k) \<le> MAX_IDENTITIES
          \<and> (many k \<longleftrightarrow> length (identities k) > 1))"

lemma relay_ok_held:
  "relay_ok s \<Longrightarrow> registered s m = Some c \<Longrightarrow> \<exists>k. conns s c = Some k \<and> m \<in> set (identities k)"
  by (simp add: relay_ok_def)

lemma relay_ok_holds:
  "relay_ok s \<Longrightarrow> registered s m = Some c \<Longrightarrow> conns s c = Some k \<Longrightarrow> m \<in> set (identities k)"
  using relay_ok_held by fastforce

lemma relay_ok_conn:
  "relay_ok s \<Longrightarrow> conns s c = Some k \<Longrightarrow>
   distinct (identities k) \<and> length (identities k) \<le> MAX_IDENTITIES
     \<and> (many k \<longleftrightarrow> length (identities k) > 1)"
  by (simp add: relay_ok_def)

lemma relay_okI:
  assumes "\<And>m c. registered s m = Some c \<Longrightarrow> \<exists>k. conns s c = Some k \<and> m \<in> set (identities k)"
    and "\<And>c k. conns s c = Some k \<Longrightarrow> distinct (identities k)
      \<and> length (identities k) \<le> MAX_IDENTITIES \<and> (many k \<longleftrightarrow> length (identities k) > 1)"
  shows "relay_ok s"
  using assms by (simp add: relay_ok_def)

lemma relay_ok_new: "relay_ok relay_new"
  by (simp add: relay_ok_def relay_new_def)

lemma relay_ok_drop: "relay_ok s \<Longrightarrow> relay_ok (drop_frame s)"
  by (simp add: relay_ok_def drop_frame_def)

lemma relay_ok_queue:
  assumes "relay_ok s" and "conns s c = Some k" and "identities k' = identities k" and "many k' = many k"
    and "registered s' = registered s" and "conns s' = (conns s)(c \<mapsto> k')"
  shows "relay_ok s'"
proof (rule relay_okI)
  fix m d
  assume "registered s' m = Some d"
  then show "\<exists>k. conns s' d = Some k \<and> m \<in> set (identities k)"
    using relay_ok_held [OF assms(1), of m d] assms(2-6) by (cases "d = c") auto
next
  fix d kd
  assume "conns s' d = Some kd"
  then show "distinct (identities kd) \<and> length (identities kd) \<le> MAX_IDENTITIES
      \<and> (many kd \<longleftrightarrow> length (identities kd) > 1)"
    using relay_ok_conn [OF assms(1)] relay_ok_conn [OF assms(1,2)] assms(3,4,6)
    by (cases "d = c") auto
qed

lemma relay_ok_forward: "relay_ok s \<Longrightarrow> relay_ok (forward s src to payload)"
proof (cases "Option.bind (registered s to) (\<lambda>d. map_option (\<lambda>k. (d, k)) (conns s d))")
  case None
  assume "relay_ok s"
  with None show ?thesis by (simp add: forward_def relay_ok_drop)
next
  case (Some dk)
  assume ok: "relay_ok s"
  from Some obtain d k where dk: "dk = (d, k)" "conns s d = Some k"
    by (auto simp: Option.bind_eq_Some_conv)
  show ?thesis
  proof (cases "writing k")
    case True
    show ?thesis
      unfolding forward_def Some dk(1) option.case prod.case Let_def if_P [OF True]
      by (rule relay_ok_queue [OF ok dk(2)]) simp_all
  next
    case False
    then show ?thesis by (simp add: forward_def Some dk(1) relay_ok_drop ok)
  qed
qed

lemma relay_ok_register: "relay_ok s \<Longrightarrow> conns s c = Some k \<Longrightarrow> relay_ok (register c k member s)"
proof -
  assume ok: "relay_ok s" and k: "conns s c = Some k"
  consider "member \<in> set (identities k)" | "length (identities k) \<ge> MAX_IDENTITIES"
    | "member \<notin> set (identities k)" "\<not> length (identities k) \<ge> MAX_IDENTITIES" by blast
  then show ?thesis
  proof cases
    case 3
    then have s': "register c k member s =
      s\<lparr>registered := (registered s)(member \<mapsto> c), conns := (conns s)(c \<mapsto>
         k\<lparr>identities := identities k @ [member], many := (many k \<or> length (identities k @ [member]) > 1)\<rparr>)\<rparr>"
      by (simp add: register_def Let_def)
    from ok k have kk: "distinct (identities k)" "many k \<longleftrightarrow> length (identities k) > 1"
      by (auto simp: relay_ok_def)
    show ?thesis
      unfolding relay_ok_def
    proof (intro conjI allI impI)
      fix m d
      assume "registered (register c k member s) m = Some d"
      then show "\<exists>k'. conns (register c k member s) d = Some k' \<and> m \<in> set (identities k')"
        using relay_ok_held [OF ok, of m d] k by (cases "m = member"; cases "d = c") (auto simp: s')
    next
      fix d k'
      assume "conns (register c k member s) d = Some k'"
      then show "distinct (identities k')" "length (identities k') \<le> MAX_IDENTITIES"
        "many k' \<longleftrightarrow> length (identities k') > 1"
        using ok 3 kk by (auto simp: s' relay_ok_def split: if_splits)
    qed
  qed (simp_all add: register_def ok relay_ok_drop)
qed

lemma relay_ok_serve: "relay_ok s \<Longrightarrow> conns s c = Some k \<Longrightarrow> relay_ok (serve_frame c k body s)"
  by (auto simp: serve_frame_def relay_ok_drop relay_ok_register relay_ok_forward
      split: sum.splits frame.splits list.splits)

lemma unregister_fold:
  "fold (\<lambda>m reg. if reg m = Some c then reg(m := None) else reg) ids reg m =
     (if m \<in> set ids \<and> reg m = Some c then None else reg m)"
  by (induction ids arbitrary: reg) auto

lemma relay_ok_end: "relay_ok s \<Longrightarrow> conns s c = Some k \<Longrightarrow> relay_ok (end_conn c k s)"
proof -
  assume ok: "relay_ok s" and k: "conns s c = Some k"
  have gone: "registered (end_conn c k s) m \<noteq> Some c" for m
    using relay_ok_holds [OF ok _ k, of m] by (auto simp: end_conn_def unregister_fold)
  have kept: "registered (end_conn c k s) m = Some d \<Longrightarrow> registered s m = Some d" for m d
    by (auto simp: end_conn_def unregister_fold split: if_splits)
  show ?thesis
    unfolding relay_ok_def
  proof (intro conjI allI impI)
    fix m d
    assume d: "registered (end_conn c k s) m = Some d"
    with gone have "d \<noteq> c" by blast
    with kept [OF d] ok show "\<exists>k'. conns (end_conn c k s) d = Some k' \<and> m \<in> set (identities k')"
      by (auto simp: relay_ok_def end_conn_def)
  next
    fix d k'
    assume "conns (end_conn c k s) d = Some k'"
    then have "conns s d = Some k'" by (auto simp: end_conn_def split: if_splits)
    with ok show "distinct (identities k')" "length (identities k') \<le> MAX_IDENTITIES"
      "many k' \<longleftrightarrow> length (identities k') > 1" by (auto simp: relay_ok_def)
  qed
qed

lemma relay_ok_open: "relay_ok s \<Longrightarrow> conns s c = None \<Longrightarrow> relay_ok (open_conn c s)"
proof (rule relay_okI)
  assume ok: "relay_ok s" and c: "conns s c = None"
  fix m d
  assume "registered (open_conn c s) m = Some d"
  then show "\<exists>k. conns (open_conn c s) d = Some k \<and> m \<in> set (identities k)"
    using relay_ok_held [OF ok, of m d] c by (cases "d = c") (auto simp: open_conn_def)
next
  assume ok: "relay_ok s"
  fix d k
  assume "conns (open_conn c s) d = Some k"
  then show "distinct (identities k) \<and> length (identities k) \<le> MAX_IDENTITIES
      \<and> (many k \<longleftrightarrow> length (identities k) > 1)"
    using relay_ok_conn [OF ok, of d k] by (auto simp: open_conn_def split: if_splits)
qed

lemma relay_ok_step: "relay_step s s' \<Longrightarrow> relay_ok s \<Longrightarrow> relay_ok s'"
proof (induction rule: relay_step.induct)
  case (writes s c k)
  then show ?case
    by - (rule relay_ok_queue [of s c k "k\<lparr>outgoing := tl (outgoing k)\<rparr>"], simp_all add: write_one_def)
next
  case (fails s c k)
  then show ?case
    by - (rule relay_ok_queue [of s c k "k\<lparr>outgoing := [], writing := False\<rparr>"],
      simp_all add: write_fails_def)
qed (simp_all add: relay_ok_open relay_ok_serve relay_ok_end)

lemma reachable_ok: "relay_reachable s \<Longrightarrow> relay_ok s"
  by (induction rule: relay_reachable.induct) (auto intro: relay_ok_new relay_ok_step)

text \<open>C19: whatever the devices do, in whatever order, a name in the registry leads to an open
  connection that registered it, no connection holds more than its share of names or one twice,
  and a connection is told which name a packet is for exactly when it holds several. When one
  ends, just the names that still lead to it are gone: a device that has since registered
  elsewhere is not unregistered.\<close>

theorem registry_leads_to_holders:
  assumes "relay_reachable s"
  shows "(\<forall>m c. registered s m = Some c \<longrightarrow> (\<exists>k. conns s c = Some k \<and> m \<in> set (identities k)))
    \<and> (\<forall>c k. conns s c = Some k \<longrightarrow> distinct (identities k) \<and> length (identities k) \<le> MAX_IDENTITIES
          \<and> (many k \<longleftrightarrow> length (identities k) > 1))
    \<and> (\<forall>c k m. conns s c = Some k \<longrightarrow>
          registered (end_conn c k s) m = (if registered s m = Some c then None else registered s m))"
proof -
  have ok: "relay_ok s" by (rule reachable_ok [OF assms])
  have "registered (end_conn c k s) m = (if registered s m = Some c then None else registered s m)"
    if "conns s c = Some k" for c k m
    using relay_ok_holds [OF ok _ that, of m] by (auto simp: end_conn_def unregister_fold)
  with ok show ?thesis by (simp add: relay_ok_def)
qed

definition sent_by :: "connection \<Rightarrow> bytes \<Rightarrow> relay_id \<Rightarrow> relay_id \<Rightarrow> bytes \<Rightarrow> bool" where
  \<comment> \<open>the frame asks for the payload to go to one name from another the connection registered\<close>
  "sent_by k body src to payload \<longleftrightarrow> src \<in> set (identities k)
     \<and> (frame_decode body = Inr (Forward to payload) \<and> src = hd (identities k)
        \<or> frame_decode body = Inr (ForwardAs src to payload))"

definition delivers :: "relay \<Rightarrow> connection \<Rightarrow> bytes \<Rightarrow> nat \<Rightarrow> connection \<Rightarrow> frame \<Rightarrow> bool" where
  "delivers s k body d kd f \<longleftrightarrow> (\<exists>src to payload. sent_by k body src to payload
     \<and> registered s to = Some d
     \<and> f = (if many kd then DeliverTo src to payload else Deliver src payload))"

lemma forward_queue:
  assumes "conns s d = Some kd"
  shows "\<exists>kd'. conns (forward s src to payload) d = Some kd' \<and> identities kd' = identities kd
    \<and> (outgoing kd' = outgoing kd \<or> (\<exists>f. outgoing kd' = outgoing kd @ [f] \<and> registered s to = Some d
         \<and> f = (if many kd then DeliverTo src to payload else Deliver src payload)))"
proof (cases "Option.bind (registered s to) (\<lambda>d. map_option (\<lambda>k. (d, k)) (conns s d))")
  case None
  then show ?thesis using assms by (simp add: forward_def drop_frame_def)
next
  case (Some ek)
  then obtain e k where "ek = (e, k)" "registered s to = Some e" "conns s e = Some k"
    by (auto simp: Option.bind_eq_Some_conv)
  with Some assms show ?thesis
    by (cases "e = d") (auto simp: forward_def drop_frame_def Let_def)
qed

lemma serve_queue:
  assumes "conns s d = Some kd" and that: "conns s c = Some k"
  shows "\<exists>kd'. conns (serve_frame c k body s) d = Some kd' \<and>
    (outgoing kd' = outgoing kd \<or> (\<exists>f. outgoing kd' = outgoing kd @ [f] \<and> delivers s k body d kd f))"
proof (cases "frame_decode body")
  case (Inl e)
  then show ?thesis using assms by (simp add: serve_frame_def drop_frame_def)
next
  case (Inr f)
  have dropped: "\<exists>kd'. conns (drop_frame s) d = Some kd' \<and> outgoing kd' = outgoing kd"
    using assms by (simp add: drop_frame_def)
  show ?thesis
  proof (cases f)
    case (Register m)
    then show ?thesis
      using that assms Inr by (auto simp: serve_frame_def register_def drop_frame_def Let_def)
  next
    case (Forward to payload)
    show ?thesis
    proof (cases "identities k")
      case Nil
      then show ?thesis using dropped by (auto simp: serve_frame_def Inr Forward)
    next
      case (Cons src more)
      then show ?thesis
        using forward_queue [OF assms(1), of src to payload]
        by (fastforce simp: serve_frame_def Inr Forward delivers_def sent_by_def)
    qed
  next
    case (ForwardAs src to payload)
    then show ?thesis
      using forward_queue [OF assms(1), of src to payload] dropped
      by (fastforce simp: serve_frame_def Inr delivers_def sent_by_def)
  qed (use dropped in \<open>auto simp: serve_frame_def Inr\<close>)
qed

text \<open>C20: nobody sends as an identifier they did not register. Serving a frame adds to the frames
  waiting for any connection at most one, which says it is from a name of the connection the
  frame came over, to a name the receiver holds, and carries the payload as it was sent.\<close>

theorem relay_does_not_spoof:
  assumes "relay_reachable s" and "conns s c = Some k" and "conns s d = Some kd"
  shows "\<exists>kd'. conns (serve_frame c k body s) d = Some kd'
    \<and> (outgoing kd' = outgoing kd
       \<or> (\<exists>src to payload. src \<in> set (identities k) \<and> to \<in> set (identities kd)
            \<and> frame_decode body \<in> {Inr (Forward to payload), Inr (ForwardAs src to payload)}
            \<and> outgoing kd' = outgoing kd @
                [if length (identities kd) > 1 then DeliverTo src to payload else Deliver src payload]))"
proof -
  have ok: "relay_ok s" by (rule reachable_ok [OF assms(1)])
  have "many kd \<longleftrightarrow> length (identities kd) > 1" using relay_ok_conn [OF ok assms(3)] by blast
  moreover have "registered s to = Some d \<Longrightarrow> to \<in> set (identities kd)" for to
    using relay_ok_holds [OF ok _ assms(3)] .
  ultimately show ?thesis
    using serve_queue [OF assms(3,2), of body] unfolding delivers_def sent_by_def by fastforce
qed

text \<open>A packet a device may send can come out of the relay larger than any device takes. A
  payload that fills a \<open>Forward\<close> is one name short of fitting the \<open>DeliverTo\<close> it becomes for a
  device of several names, and that device's reading stops at it, for good.\<close>

lemma full_forward_closes_the_receiver:
  assumes "length to = 32" and "length src = 32" and "length payload = MAX_FRAME - 33"
  shows "frame_decode (frame_body (Forward to payload)) = Inr (Forward to payload)
    \<and> length (frame_body (Forward to payload)) = MAX_FRAME
    \<and> read_frame (frame_encode (DeliverTo src to payload) @ rest) = Closes
    \<and> read_frames me (frame_encode (DeliverTo src to payload) @ rest) = []"
proof -
  have len: "length (frame_body (DeliverTo src to payload)) = MAX_FRAME + 32"
    and "length (frame_body (Forward to payload)) = MAX_FRAME"
    using assms by (simp_all add: MAX_FRAME_def)
  moreover have closes: "read_frame (frame_encode (DeliverTo src to payload) @ rest) = Closes"
    using len by (simp add: read_frame_def frame_encode_def Let_def be_val_u32_be MAX_FRAME_def
        del: frame_body.simps)
  moreover have "read_frames me (frame_encode (DeliverTo src to payload) @ rest) = []"
    by (subst read_frames.simps) (simp add: closes)
  ultimately show ?thesis using frame_decode_body [of "Forward to payload"] assms(1) by simp
qed

text \<open>A delivery that fits is read, and what was read goes to the socket.\<close>

lemma read_frames_delivery:
  assumes "frame_ok (DeliverTo src to payload)" and "length (frame_body (DeliverTo src to payload)) \<le> MAX_FRAME"
  shows "read_frames me (frame_encode (DeliverTo src to payload) @ rest) =
    ((src, to), payload) # read_frames me rest"
  using frame_decode_body [OF assms(1)]
  by (subst read_frames.simps) (simp add: read_frame_encode [OF assms] del: frame_body.simps)

subsection \<open>A socket's conversations\<close>

text \<open>An address of the documentation range, \<open>192.0.2.n:9\<close>, is its number \<open>n\<close>.\<close>

type_synonym conversation = "relay_id \<times> relay_id"

definition MAX_PEERS :: nat where "MAX_PEERS = 254"

record peer_map =
  by_address :: "nat \<Rightarrow> conversation option"
  by_pair :: "conversation \<Rightarrow> nat option"
  next_address :: nat

definition peer_map_new :: peer_map where
  "peer_map_new = \<lparr>by_address = (\<lambda>_. None), by_pair = (\<lambda>_. None), next_address = 0\<rparr>"

definition address_for :: "conversation \<Rightarrow> peer_map \<Rightarrow> nat option \<times> peer_map" where
  "address_for p pm =
     (case by_pair pm p of
        Some existing \<Rightarrow> (Some existing, pm)
      | None \<Rightarrow>
          if next_address pm \<ge> MAX_PEERS then (None, pm)
          else (let a = next_address pm + 1
                in (Some a, pm\<lparr>next_address := a, by_address := (by_address pm)(a \<mapsto> p),
                                by_pair := (by_pair pm)(p \<mapsto> a)\<rparr>)))"

definition pair_for :: "nat \<Rightarrow> peer_map \<Rightarrow> conversation option" where
  "pair_for a pm = by_address pm a"

definition try_send :: "relay_id \<Rightarrow> peer_map \<Rightarrow> nat \<Rightarrow> bytes \<Rightarrow> frame option" where
  \<comment> \<open>the frame put on the way to the relay, or \<open>None\<close> for an address that is no peer's\<close>
  "try_send me pm destination contents =
     (case pair_for destination pm of
        None \<Rightarrow> None
      | Some (peer, as_me) \<Rightarrow>
          Some (if as_me = me then Forward peer contents else ForwardAs as_me peer contents))"

inductive pm_reachable :: "peer_map \<Rightarrow> bool" where
  new: "pm_reachable peer_map_new"
| given: "pm_reachable pm \<Longrightarrow> pm_reachable (snd (address_for p pm))"

definition pm_ok :: "peer_map \<Rightarrow> bool" where
  "pm_ok pm \<longleftrightarrow> (\<forall>a p. by_address pm a = Some p \<longleftrightarrow> by_pair pm p = Some a)
     \<and> (\<forall>a. by_address pm a \<noteq> None \<longleftrightarrow> 1 \<le> a \<and> a \<le> next_address pm) \<and> next_address pm \<le> MAX_PEERS"

lemma pm_ok_both: "pm_ok pm \<Longrightarrow> by_address pm a = Some p \<longleftrightarrow> by_pair pm p = Some a"
  unfolding pm_ok_def by blast

lemma pm_ok_dom: "pm_ok pm \<Longrightarrow> by_address pm a \<noteq> None \<longleftrightarrow> 1 \<le> a \<and> a \<le> next_address pm"
  unfolding pm_ok_def by blast

lemma pm_ok_most: "pm_ok pm \<Longrightarrow> next_address pm \<le> MAX_PEERS"
  unfolding pm_ok_def by blast

lemma pm_ok_new: "pm_ok peer_map_new"
  by (simp add: pm_ok_def peer_map_new_def)

lemma pm_ok_address_for: "pm_ok pm \<Longrightarrow> pm_ok (snd (address_for p pm))"
proof (cases "by_pair pm p")
  case (Some a)
  assume "pm_ok pm"
  with Some show ?thesis by (simp add: address_for_def)
next
  case None
  assume ok: "pm_ok pm"
  show ?thesis
  proof (cases "next_address pm \<ge> MAX_PEERS")
    case True
    with ok None show ?thesis by (simp add: address_for_def)
  next
    case False
    let ?a = "next_address pm + 1"
    note dom = pm_ok_dom [OF ok] and both = pm_ok_both [OF ok]
    have "\<not> (1 \<le> ?a \<and> ?a \<le> next_address pm)" by simp
    with dom [of ?a] have fresh: "by_address pm ?a = None" by blast
    have "((by_address pm)(?a \<mapsto> p)) a = Some q \<longleftrightarrow> ((by_pair pm)(p \<mapsto> ?a)) q = Some a" for a q
      using both [of a q] both [of a p] both [of ?a q] fresh None by (cases "a = ?a"; cases "q = p") auto
    moreover have "((by_address pm)(?a \<mapsto> p)) a \<noteq> None \<longleftrightarrow> 1 \<le> a \<and> a \<le> ?a" for a
      using dom [of a] by (cases "a = ?a") auto
    ultimately show ?thesis
      using False None by (simp add: address_for_def pm_ok_def Let_def)
  qed
qed

lemma pm_reachable_ok: "pm_reachable pm \<Longrightarrow> pm_ok pm"
  by (induction rule: pm_reachable.induct) (auto intro: pm_ok_address_for pm_ok_new)

text \<open>An answer goes back to who called, under the name they called: the address a
  conversation is given is its own for good, one of the 254 there are, and what is sent to it is
  a frame from the same one of this device's names to the same peer. A conversation is refused
  an address only when all are given.\<close>

lemma answers_go_back:
  assumes "pm_reachable pm"
  shows "case address_for (src, to) pm of
      (Some a, pm') \<Rightarrow> 1 \<le> a \<and> a \<le> MAX_PEERS
        \<and> try_send me pm' a payload = Some (if to = me then Forward src payload else ForwardAs to src payload)
        \<and> (\<forall>q b. by_pair pm q = Some b \<longrightarrow> by_pair pm' q = Some b \<and> pair_for b pm' = Some q)
        \<and> address_for (src, to) pm' = (Some a, pm')
    | (None, pm') \<Rightarrow> pm' = pm \<and> card (dom (by_address pm)) = MAX_PEERS"
proof -
  have ok: "pm_ok pm" by (rule pm_reachable_ok [OF assms])
  note both = pm_ok_both [OF ok] and dom = pm_ok_dom [OF ok]
  show ?thesis
  proof (cases "by_pair pm (src, to)")
    case (Some a)
    then have at: "by_address pm a = Some (src, to)" using both by simp
    then have "1 \<le> a \<and> a \<le> next_address pm" using dom [of a] by simp
    moreover have "next_address pm \<le> MAX_PEERS" using ok by (simp add: pm_ok_def)
    ultimately show ?thesis
      using Some at by (simp add: address_for_def try_send_def pair_for_def) (use both in blast)
  next
    case None
    have "dom (by_address pm) = {1..next_address pm}" using dom by (auto simp: dom_def)
    then have "next_address pm \<ge> MAX_PEERS \<Longrightarrow> card (dom (by_address pm)) = MAX_PEERS"
      using ok by (simp add: pm_ok_def)
    moreover have "by_pair pm q = Some b \<Longrightarrow> b \<noteq> next_address pm + 1" for q b
      using both [of b q] dom [of b] by auto
    ultimately show ?thesis
      using None both
      by (auto simp: address_for_def try_send_def pair_for_def Let_def split: if_splits)
  qed
qed

subsection \<open>A relay with two devices\<close>

definition id_of :: "u8 \<Rightarrow> relay_id" where
  "id_of b = replicate 32 b"

definition two_devices :: relay where
  "two_devices = fold (\<lambda>(c, m) s. case conns s c of None \<Rightarrow> s
       | Some k \<Rightarrow> serve_frame c k (frame_body (Register m)) s)
     [(2, id_of 1), (3, id_of 2)] (open_conn 3 (open_conn 2 relay_new))"

lemma two_devices_eq:
  "two_devices = \<lparr>registered = [id_of 1 \<mapsto> 2, id_of 2 \<mapsto> 3],
     conns = [2 \<mapsto> \<lparr>identities = [id_of 1], many = False, outgoing = [], writing = True\<rparr>,
              3 \<mapsto> \<lparr>identities = [id_of 2], many = False, outgoing = [], writing = True\<rparr>],
     stats = \<lparr>connections = 2, frames_forwarded = 0, bytes_forwarded = 0, frames_dropped = 0\<rparr>\<rparr>"
  by (simp add: two_devices_def open_conn_def relay_new_def serve_frame_def register_def id_of_def
      take_id_def and_then.simps Let_def MAX_IDENTITIES_def fun_upd_twist)

lemma two_devices_reachable: "relay_reachable two_devices"
proof -
  let ?s0 = "open_conn 3 (open_conn 2 relay_new)"
  let ?k = "\<lparr>identities = [], many = False, outgoing = [], writing = True\<rparr>"
  let ?s1 = "serve_frame 2 ?k (frame_body (Register (id_of 1))) ?s0"
  have "relay_reachable (open_conn 2 relay_new)"
    by (rule relay_reachable.step [OF start opens]) (simp add: relay_new_def)
  then have s0: "relay_reachable ?s0"
    by (rule relay_reachable.step [OF _ opens]) (simp add: relay_new_def open_conn_def)
  have one: "conns ?s0 2 = Some ?k" by (simp add: open_conn_def)
  have size: "0 < length (frame_body (Register (id_of m)))"
    "length (frame_body (Register (id_of m))) \<le> MAX_FRAME" for m
    by (simp_all add: id_of_def MAX_FRAME_def)
  have s1: "relay_reachable ?s1" by (rule relay_reachable.step [OF s0 serves [OF one size]])
  have two: "conns ?s1 3 = Some ?k"
    by (simp add: open_conn_def relay_new_def serve_frame_def register_def id_of_def take_id_def
        Let_def MAX_IDENTITIES_def)
  have eq: "two_devices = serve_frame 3 ?k (frame_body (Register (id_of 2))) ?s1"
    using two by (simp add: two_devices_def one del: frame_body.simps)
  show ?thesis unfolding eq by (rule relay_reachable.step [OF s1 serves [OF two size]])
qed

theorem registry_leads_to_holders_witness:
  "\<exists>k. conns two_devices 3 = Some k \<and> registered (end_conn 3 k two_devices) (id_of 2) = None
     \<and> registered (end_conn 3 k two_devices) (id_of 1) = Some 2"
  using registry_leads_to_holders [OF two_devices_reachable]
  by (simp add: two_devices_eq) (simp add: id_of_def)

theorem relay_does_not_spoof_witness:
  "\<exists>kd'. conns (serve_frame 2 (the (conns two_devices 2)) (frame_body (Forward (id_of 2) [7])) two_devices) 3
      = Some kd' \<and> outgoing kd' = [Deliver (id_of 1) [7]]"
proof -
  have body: "frame_decode (frame_body (Forward (id_of 2) [7])) = Inr (Forward (id_of 2) [7])"
    by (rule frame_decode_body) (simp add: id_of_def)
  have k: "conns two_devices 2 = Some (the (conns two_devices 2))"
    and kd: "conns two_devices 3 = Some (the (conns two_devices 3))" by (simp_all add: two_devices_eq)
  obtain kd' where kd': "conns (serve_frame 2 (the (conns two_devices 2))
        (frame_body (Forward (id_of 2) [7])) two_devices) 3 = Some kd'"
    and q: "outgoing kd' = [] \<or> (\<exists>src. src = id_of 1 \<and> outgoing kd' = [Deliver src [7]])"
    using relay_does_not_spoof [OF two_devices_reachable k kd, of "frame_body (Forward (id_of 2) [7])"]
    unfolding body by (auto simp: two_devices_eq)
  moreover have "outgoing kd' \<noteq> []"
    using kd' unfolding serve_frame_def body
    by (auto simp: two_devices_eq forward_def Let_def id_of_def split: if_splits)
  ultimately show ?thesis by blast
qed

theorem full_forward_closes_the_receiver_witness:
  "read_frames (id_of 1) (frame_encode (DeliverTo (id_of 2) (id_of 1) (replicate 65503 0))) = []"
proof -
  have "length (id_of 1) = 32" "length (id_of 2) = 32" by (simp_all add: id_of_def)
  moreover have "length (replicate 65503 0 :: bytes) = MAX_FRAME - 33" by (simp add: MAX_FRAME_def)
  ultimately show ?thesis
    using full_forward_closes_the_receiver [of "id_of 1" "id_of 2" "replicate 65503 0" "[]" "id_of 1"] by simp
qed

lemma answers_go_back_witness:
  "\<exists>a pm'. address_for (id_of 2, id_of 1) peer_map_new = (Some a, pm')
     \<and> try_send (id_of 1) pm' a [7] = Some (Forward (id_of 2) [7])"
proof -
  have "fst (address_for (id_of 2, id_of 1) peer_map_new) = Some 1"
    by (simp add: address_for_def peer_map_new_def MAX_PEERS_def)
  then obtain pm' where at: "address_for (id_of 2, id_of 1) peer_map_new = (Some 1, pm')"
    by (cases "address_for (id_of 2, id_of 1) peer_map_new") simp
  with answers_go_back [OF pm_reachable.new, where src = "id_of 2" and to = "id_of 1" and me = "id_of 1"
      and payload = "[7]"]
  show ?thesis by simp
qed

end
