(* ===== verification/Debounce.thy ===== *)
theory Debounce imports Ordered_Map
begin

section \<open>Settled changes (\<open>crates/watcher/src/debounce.rs\<close>, \<open>watcher.rs\<close>)\<close>

text \<open>
  Raw events are collected by path and released once the path has been quiet, or held long
  enough; the watcher's loop then looks at the file before it reports it. A path is the list of
  its components, an instant and a duration are numbers of one unit, and the time since a later
  instant is zero, as \<open>duration_since\<close> has it. What the disk holds when the loop looks is a
  parameter, and so is what a walk of a new directory finds.
\<close>

type_synonym fpath = "string list"

datatype change_kind = Upserted | Removed

record change =
  ch_path :: fpath
  ch_kind :: change_kind

definition upserted :: "fpath \<Rightarrow> change" where
  "upserted p = \<lparr>ch_path = p, ch_kind = Upserted\<rparr>"

definition removed :: "fpath \<Rightarrow> change" where
  "removed p = \<lparr>ch_path = p, ch_kind = Removed\<rparr>"

record pending =
  pe_kind :: change_kind
  first_event :: nat
  last_event :: nat

record debouncer =
  quiet :: nat
  max_hold :: nat
  waiting :: "(fpath \<times> pending) list"
  rescan_requested :: bool

definition debouncer_new :: "nat \<Rightarrow> nat \<Rightarrow> debouncer" where
  "debouncer_new q h = \<lparr>quiet = q, max_hold = h, waiting = [], rescan_requested = False\<rparr>"

definition default_config :: debouncer where
  \<comment> \<open>in milliseconds\<close>
  "default_config = debouncer_new 400 5000"

definition observe :: "fpath \<Rightarrow> change_kind \<Rightarrow> nat \<Rightarrow> debouncer \<Rightarrow> debouncer" where
  "observe p kind now d =
     d\<lparr>waiting := bm_insert p
         (case bm_get (waiting d) p of
            Some e \<Rightarrow> e\<lparr>pe_kind := kind, last_event := now\<rparr>
          | None \<Rightarrow> \<lparr>pe_kind = kind, first_event = now, last_event = now\<rparr>) (waiting d)\<rparr>"

definition observe_overflow :: "debouncer \<Rightarrow> debouncer" where
  "observe_overflow d = d\<lparr>rescan_requested := True\<rparr>"

definition take_rescan :: "debouncer \<Rightarrow> bool \<times> debouncer" where
  "take_rescan d = (rescan_requested d, d\<lparr>rescan_requested := False\<rparr>)"

definition eligible :: "debouncer \<Rightarrow> nat \<Rightarrow> pending \<Rightarrow> bool" where
  "eligible d now e \<longleftrightarrow> now - last_event e \<ge> quiet d \<or> now - first_event e \<ge> max_hold d"

definition drain_settled :: "nat \<Rightarrow> debouncer \<Rightarrow> change list \<times> debouncer" where
  "drain_settled now d =
     (let ready = filter (\<lambda>(p, e). eligible d now e) (waiting d)
      in (sort_key ch_path (map (\<lambda>(p, e). \<lparr>ch_path = p, ch_kind = pe_kind e\<rparr>) ready),
          d\<lparr>waiting := fold (\<lambda>(p, e). bm_remove p) ready (waiting d)\<rparr>))"

definition defer_path :: "fpath \<Rightarrow> nat \<Rightarrow> debouncer \<Rightarrow> debouncer" where
  "defer_path p now d =
     d\<lparr>waiting := bm_insert p
         (case bm_get (waiting d) p of
            Some e \<Rightarrow> e\<lparr>last_event := now\<rparr>
          | None \<Rightarrow> \<lparr>pe_kind = Upserted, first_event = now, last_event = now\<rparr>) (waiting d)\<rparr>"

definition next_deadline :: "debouncer \<Rightarrow> nat option" where
  "next_deadline d =
     (case map (\<lambda>e. min (last_event e + quiet d) (first_event e + max_hold d)) (bm_values (waiting d)) of
        [] \<Rightarrow> None
      | t # ts \<Rightarrow> Some (fold min ts t))"

subsection \<open>The watcher's loop\<close>

record snapshot =
  sn_size :: nat
  sn_mtime :: int

datatype on_disk = Gone | Directory "fpath list option" | Ordinary snapshot | Special snapshot
  \<comment> \<open>a directory with what a walk of it finds, or \<open>None\<close> where the walk fails; a socket or a
    device is \<open>Special\<close>\<close>

record watching =
  w_debouncer :: debouncer
  w_snapshots :: "(fpath \<times> snapshot) list"

definition file_snapshot :: "(fpath \<Rightarrow> on_disk) \<Rightarrow> fpath \<Rightarrow> snapshot option" where
  "file_snapshot disk p = (case disk p of Ordinary s \<Rightarrow> Some s | _ \<Rightarrow> None)"

definition note_snapshot :: "(fpath \<Rightarrow> on_disk) \<Rightarrow> fpath \<Rightarrow> (fpath \<times> snapshot) list \<Rightarrow> (fpath \<times> snapshot) list"
where
  "note_snapshot disk p snaps =
     (case file_snapshot disk p of Some s \<Rightarrow> bm_insert p s snaps | None \<Rightarrow> snaps)"

datatype event_kind = Remove | NameFrom | NameBoth | Access | OtherEvent
  \<comment> \<open>what the platform says happened, as far as it is told apart\<close>

definition classify :: "event_kind \<Rightarrow> fpath list \<Rightarrow> (fpath \<times> change_kind) list" where
  "classify kind paths =
     (case kind of
        Remove \<Rightarrow> map (\<lambda>p. (p, Removed)) paths
      | NameFrom \<Rightarrow> map (\<lambda>p. (p, Removed)) paths
      | NameBoth \<Rightarrow>
          (case paths of
             [] \<Rightarrow> []
           | [src] \<Rightarrow> [(src, Removed)]
           | src # to # _ \<Rightarrow> [(src, Removed), (to, Upserted)])
      | Access \<Rightarrow> []
      | OtherEvent \<Rightarrow> map (\<lambda>p. (p, Upserted)) paths)"

datatype raw_event = Notify event_kind "fpath list" | Overflow

definition observed :: "(fpath \<Rightarrow> on_disk) \<Rightarrow> (fpath \<Rightarrow> bool) \<Rightarrow> nat \<Rightarrow> fpath \<times> change_kind \<Rightarrow> watching \<Rightarrow> watching"
where
  "observed disk ignored now = (\<lambda>(p, kind) w.
     if ignored p then w
     else w\<lparr>w_snapshots := (if kind = Upserted then note_snapshot disk p (w_snapshots w) else w_snapshots w),
            w_debouncer := observe p kind now (w_debouncer w)\<rparr>)"

definition handle :: "(fpath \<Rightarrow> on_disk) \<Rightarrow> (fpath \<Rightarrow> bool) \<Rightarrow> nat \<Rightarrow> raw_event \<Rightarrow> watching \<Rightarrow> watching" where
  "handle disk ignored now event w =
     (case event of
        Overflow \<Rightarrow> w\<lparr>w_debouncer := observe_overflow (w_debouncer w)\<rparr>
      | Notify kind paths \<Rightarrow> fold (observed disk ignored now) (classify kind paths) w)"

definition found_in_walk :: "(fpath \<Rightarrow> on_disk) \<Rightarrow> nat \<Rightarrow> fpath \<Rightarrow> watching \<Rightarrow> watching" where
  "found_in_walk disk now p w =
     w\<lparr>w_snapshots := note_snapshot disk p (w_snapshots w), w_debouncer := observe p Upserted now (w_debouncer w)\<rparr>"

definition release_if_stable :: "nat \<Rightarrow> change \<Rightarrow> snapshot \<Rightarrow> watching \<times> change list \<Rightarrow> watching \<times> change list"
where
  "release_if_stable now c current = (\<lambda>(w, settled).
     if bm_get (w_snapshots w) (ch_path c) = Some current
     then (w\<lparr>w_snapshots := bm_remove (ch_path c) (w_snapshots w)\<rparr>, settled @ [c])
     else (w\<lparr>w_snapshots := bm_insert (ch_path c) current (w_snapshots w),
             w_debouncer := defer_path (ch_path c) now (w_debouncer w)\<rparr>, settled))"

definition release_one ::
  "(fpath \<Rightarrow> on_disk) \<Rightarrow> nat \<Rightarrow> change \<Rightarrow> watching \<times> change list \<Rightarrow> watching \<times> change list"
where
  "release_one disk now c = (\<lambda>(w, settled).
     let forget = w\<lparr>w_snapshots := bm_remove (ch_path c) (w_snapshots w)\<rparr>
     in case ch_kind c of
          Removed \<Rightarrow> (forget, settled @ [c])
        | Upserted \<Rightarrow>
            (case disk (ch_path c) of
               Gone \<Rightarrow> (forget, settled @ [removed (ch_path c)])
             | Directory found \<Rightarrow>
                 (case found of
                    Some entries \<Rightarrow>
                      (fold (found_in_walk disk now) entries forget, settled)
                  | None \<Rightarrow> (forget\<lparr>w_debouncer := observe_overflow (w_debouncer forget)\<rparr>, settled))
             | Ordinary current \<Rightarrow> release_if_stable now c current (w, settled)
             | Special current \<Rightarrow> release_if_stable now c current (w, settled)))"

definition watch_turn :: "(fpath \<Rightarrow> on_disk) \<Rightarrow> nat \<Rightarrow> watching \<Rightarrow> bool \<times> change list \<times> watching" where
  \<comment> \<open>one turn of the loop after its events: whether a rescan is asked for, and what settled\<close>
  "watch_turn disk now w =
     (case take_rescan (w_debouncer w) of (rescan, d) \<Rightarrow>
      case drain_settled now d of (changes, d) \<Rightarrow>
      case fold (release_one disk now) changes (w\<lparr>w_debouncer := d\<rparr>, []) of (w, settled) \<Rightarrow>
        (rescan, settled, w))"

definition loop_turn :: "(fpath \<Rightarrow> on_disk) \<Rightarrow> (fpath \<Rightarrow> bool) \<Rightarrow> (raw_event \<times> nat) list \<Rightarrow> nat \<Rightarrow> watching \<Rightarrow>
    bool \<times> change list \<times> watching"
where
  \<comment> \<open>the events taken off the queue, each at its instant, and then the turn\<close>
  "loop_turn disk ignored events now w =
     watch_turn disk now (fold (\<lambda>(e, at). handle disk ignored at e) events w)"

subsection \<open>What is released\<close>

definition debouncer_ok :: "debouncer \<Rightarrow> bool" where
  "debouncer_ok d \<longleftrightarrow> bm_ok (waiting d)"

lemma debouncer_ok_observe: "debouncer_ok d \<Longrightarrow> debouncer_ok (observe p kind now d)"
  by (simp add: debouncer_ok_def observe_def map_simps)

lemma debouncer_ok_defer: "debouncer_ok d \<Longrightarrow> debouncer_ok (defer_path p now d)"
  by (simp add: debouncer_ok_def defer_path_def map_simps)

lemma fold_remove:
  "bm_ok m \<Longrightarrow> bm_ok (fold (\<lambda>(p, e). bm_remove p) xs m)
   \<and> bm_get (fold (\<lambda>(p, e). bm_remove p) xs m) q = (if q \<in> fst ` set xs then None else bm_get m q)"
proof (induction xs arbitrary: m)
  case (Cons x xs)
  obtain p e where x: "x = (p, e)" by (cases x)
  have "bm_ok (bm_remove p m)" using Cons.prems by (simp add: map_simps)
  from Cons.IH [OF this] Cons.prems show ?case by (auto simp: x map_simps)
qed simp

lemma sort_key_paths:
  "bm_ok m \<Longrightarrow> sort_key ch_path (map (\<lambda>(p, e). \<lparr>ch_path = p, ch_kind = pe_kind e\<rparr>) (filter P m)) =
     map (\<lambda>(p, e). \<lparr>ch_path = p, ch_kind = pe_kind e\<rparr>) (filter P m)"
proof (rule sort_key_id_if_sorted)
  assume "bm_ok m"
  then have "sorted (map fst m)" by (simp add: bm_ok_def strict_sorted_iff)
  then have "sorted (map fst (filter P m))"
    by (simp add: sorted_map sorted_wrt_filter)
  then show "sorted (map ch_path (map (\<lambda>(p, e). \<lparr>ch_path = p, ch_kind = pe_kind e\<rparr>) (filter P m)))"
    by (simp add: o_def case_prod_beta)
qed

lemma drain_released:
  "debouncer_ok d \<Longrightarrow> fst (drain_settled now d) =
     map (\<lambda>(p, e). \<lparr>ch_path = p, ch_kind = pe_kind e\<rparr>) (filter (\<lambda>(p, e). eligible d now e) (waiting d))"
  by (simp add: drain_settled_def Let_def debouncer_ok_def sort_key_paths)

lemma drain_left:
  assumes "debouncer_ok d"
  shows "debouncer_ok (snd (drain_settled now d))"
    and "bm_get (waiting (snd (drain_settled now d))) p =
      (case bm_get (waiting d) p of Some e \<Rightarrow> if eligible d now e then None else Some e | None \<Rightarrow> None)"
proof -
  have ok: "bm_ok (waiting d)" using assms by (simp add: debouncer_ok_def)
  show "debouncer_ok (snd (drain_settled now d))"
    using fold_remove [OF ok, of "filter (\<lambda>(p, e). eligible d now e) (waiting d)"]
    by (simp add: debouncer_ok_def drain_settled_def Let_def)
  have mem: "p \<in> fst ` set (filter (\<lambda>(p, e). eligible d now e) (waiting d)) \<longleftrightarrow>
      (\<exists>e. bm_get (waiting d) p = Some e \<and> eligible d now e)"
    using bm_set_eq [OF ok] by force
  show "bm_get (waiting (snd (drain_settled now d))) p =
      (case bm_get (waiting d) p of Some e \<Rightarrow> if eligible d now e then None else Some e | None \<Rightarrow> None)"
    using fold_remove [OF ok, of "filter (\<lambda>(p, e). eligible d now e) (waiting d)" p]
    unfolding mem by (auto simp: drain_settled_def Let_def split: option.splits)
qed

lemma fold_min_le: "fold min ts t \<le> (b :: nat) \<longleftrightarrow> (\<exists>x \<in> set (t # ts). x \<le> b)"
  by (induction ts arbitrary: t) (auto simp: min_le_iff_disj)

text \<open>C21: the loop sleeps exactly long enough. Draining releases something at an instant just when
  the next deadline has come by then, as long as no event lies in the future; what is released
  is every path that has settled and no other, once each and in order, and nothing else is lost.\<close>

theorem deadline_is_when_something_settles:
  assumes "debouncer_ok d" and "\<forall>(p, e) \<in> set (waiting d). first_event e \<le> now \<and> last_event e \<le> now"
  shows "(fst (drain_settled now d) \<noteq> [] \<longleftrightarrow> (\<exists>t. next_deadline d = Some t \<and> t \<le> now))
    \<and> (\<forall>p kind. \<lparr>ch_path = p, ch_kind = kind\<rparr> \<in> set (fst (drain_settled now d)) \<longleftrightarrow>
         (\<exists>e. bm_get (waiting d) p = Some e \<and> eligible d now e \<and> pe_kind e = kind))
    \<and> sorted_wrt (<) (map ch_path (fst (drain_settled now d)))
    \<and> (\<forall>p. bm_get (waiting (snd (drain_settled now d))) p =
         (case bm_get (waiting d) p of Some e \<Rightarrow> if eligible d now e then None else Some e | None \<Rightarrow> None))"
proof -
  have ok: "bm_ok (waiting d)" using assms(1) by (simp add: debouncer_ok_def)
  have due: "eligible d now e \<longleftrightarrow> min (last_event e + quiet d) (first_event e + max_hold d) \<le> now"
    if "(p, e) \<in> set (waiting d)" for p e
  proof -
    have "first_event e \<le> now" "last_event e \<le> now" using that assms(2) by auto
    then show ?thesis by (auto simp: eligible_def min_le_iff_disj le_diff_conv2 add.commute)
  qed
  have "(\<exists>t. next_deadline d = Some t \<and> t \<le> now) \<longleftrightarrow>
      (\<exists>e \<in> set (bm_values (waiting d)). min (last_event e + quiet d) (first_event e + max_hold d) \<le> now)"
    by (cases "bm_values (waiting d)") (auto simp: next_deadline_def fold_min_le)
  also have "\<dots> \<longleftrightarrow> (\<exists>(p, e) \<in> set (waiting d). eligible d now e)"
    using due by (force simp: bm_values_def)
  also have "\<dots> \<longleftrightarrow> fst (drain_settled now d) \<noteq> []"
    using drain_released [OF assms(1)] by (auto simp: filter_empty_conv)
  finally have "fst (drain_settled now d) \<noteq> [] \<longleftrightarrow> (\<exists>t. next_deadline d = Some t \<and> t \<le> now)" by simp
  moreover have "\<lparr>ch_path = p, ch_kind = kind\<rparr> \<in> set (fst (drain_settled now d)) \<longleftrightarrow>
      (\<exists>e. bm_get (waiting d) p = Some e \<and> eligible d now e \<and> pe_kind e = kind)" for p kind
    using bm_set_eq [OF ok] by (force simp: drain_released [OF assms(1)])
  moreover have "sorted_wrt (<) (map ch_path (fst (drain_settled now d)))"
  proof -
    have "sorted_wrt (<) (map fst (filter (\<lambda>(p, e). eligible d now e) (waiting d)))"
      using ok by (simp add: bm_ok_def sorted_wrt_map sorted_wrt_filter)
    then show ?thesis by (simp add: drain_released [OF assms(1)] o_def case_prod_beta)
  qed
  ultimately show ?thesis using drain_left(2) [OF assms(1)] by blast
qed

subsection \<open>The maximum hold\<close>

datatype activity = Seen fpath change_kind nat | Deferred fpath nat

fun act :: "activity \<Rightarrow> debouncer \<Rightarrow> debouncer" where
  "act (Seen p kind now) d = observe p kind now d"
| "act (Deferred p now) d = defer_path p now d"

lemma act_keeps:
  assumes "debouncer_ok d" and "bm_get (waiting d) p = Some e"
  shows "debouncer_ok (act a d)"
    and "\<exists>e'. bm_get (waiting (act a d)) p = Some e' \<and> first_event e' = first_event e"
    and "max_hold (act a d) = max_hold d"
proof -
  have ok: "bm_ok (waiting d)" using assms(1) by (simp add: debouncer_ok_def)
  show "debouncer_ok (act a d)"
    using assms(1) by (cases a) (simp_all add: debouncer_ok_observe debouncer_ok_defer)
  show "\<exists>e'. bm_get (waiting (act a d)) p = Some e' \<and> first_event e' = first_event e"
    using assms(2) ok by (cases a) (auto simp: observe_def defer_path_def map_simps split: option.splits)
  show "max_hold (act a d) = max_hold d" by (cases a) (simp_all add: observe_def defer_path_def)
qed

lemma acts_keep:
  "debouncer_ok d \<Longrightarrow> bm_get (waiting d) p = Some e \<Longrightarrow>
   debouncer_ok (fold act as d) \<and> max_hold (fold act as d) = max_hold d
   \<and> (\<exists>e'. bm_get (waiting (fold act as d)) p = Some e' \<and> first_event e' = first_event e)"
proof (induction as arbitrary: d e)
  case (Cons a as)
  obtain e' where e': "bm_get (waiting (act a d)) p = Some e'" "first_event e' = first_event e"
    using act_keeps(2) [OF Cons.prems] by blast
  from Cons.IH [OF act_keeps(1) [OF Cons.prems] e'(1)] act_keeps(3) [OF Cons.prems] e'(2)
  show ?case by simp
qed simp

text \<open>A path is never held past the maximum: whatever more happens to it, and however often it
  is put off, draining at or after \<open>max_hold\<close> from its first event releases it.\<close>

lemma held_no_longer_than_max_hold:
  assumes "debouncer_ok d" and "bm_get (waiting d) p = Some e" and "now \<ge> first_event e + max_hold d"
  shows "p \<in> ch_path ` set (fst (drain_settled now (fold act as d)))"
proof -
  let ?d = "fold act as d"
  obtain e' where ok: "debouncer_ok ?d" and hold: "max_hold ?d = max_hold d"
    and e': "bm_get (waiting ?d) p = Some e'" "first_event e' = first_event e"
    using acts_keep [OF assms(1,2)] by blast
  have "eligible ?d now e'" using assms(3) by (simp add: eligible_def hold e'(2) le_diff_conv2)
  moreover have "(p, e') \<in> set (waiting ?d)" by (rule bm_mem_get [OF e'(1)])
  ultimately show ?thesis unfolding drain_released [OF ok] by force
qed

subsection \<open>A file that grows each time it is looked at\<close>

definition watching_file :: "fpath \<Rightarrow> snapshot \<Rightarrow> watching \<Rightarrow> bool" where
  \<comment> \<open>a written file waits, and this is what was last noted of it\<close>
  "watching_file p s w \<longleftrightarrow> (\<exists>e. waiting (w_debouncer w) = [(p, e)] \<and> pe_kind e = Upserted)
     \<and> bm_get (w_snapshots w) p = Some s \<and> bm_ok (w_snapshots w)"

definition disk_of :: "fpath \<Rightarrow> snapshot \<Rightarrow> fpath \<Rightarrow> on_disk" where
  "disk_of p s q = (if q = p then Ordinary s else Gone)"

fun turns :: "fpath \<Rightarrow> (snapshot \<times> nat) list \<Rightarrow> watching \<Rightarrow> change list" where
  \<comment> \<open>what the loop reports over some turns, the file as it is at each\<close>
  "turns p [] w = []"
| "turns p ((s, now) # rest) w =
     (case watch_turn (disk_of p s) now w of (rescan, settled, w') \<Rightarrow> settled @ turns p rest w')"

lemma turn_of_growing:
  assumes "watching_file p s w" and "s' \<noteq> s"
  shows "\<exists>rescan w' s''. watch_turn (disk_of p s') now w = (rescan, [], w')
    \<and> watching_file p s'' w' \<and> s'' \<in> {s, s'}"
proof -
  obtain e where e: "waiting (w_debouncer w) = [(p, e)]" "pe_kind e = Upserted"
    and s: "bm_get (w_snapshots w) p = Some s" "bm_ok (w_snapshots w)"
    using assms(1) by (auto simp: watching_file_def)
  let ?d = "snd (take_rescan (w_debouncer w))"
  have d: "waiting ?d = [(p, e)]" by (simp add: take_rescan_def e)
  show ?thesis
  proof (cases "eligible ?d now e")
    case True
    have "drain_settled now ?d = ([\<lparr>ch_path = p, ch_kind = Upserted\<rparr>], ?d\<lparr>waiting := []\<rparr>)"
      using True by (simp add: drain_settled_def d Let_def e bm_remove_def)
    then show ?thesis
      using assms(2) s
      by (auto simp: watch_turn_def take_rescan_def release_one_def release_if_stable_def disk_of_def Let_def
          watching_file_def defer_path_def map_simps split: prod.splits
          intro!: exI [of _ s'])
  next
    case False
    then have "drain_settled now ?d = ([], ?d)" by (simp add: drain_settled_def d Let_def)
    then show ?thesis
      using assms(1) by (auto simp: watch_turn_def take_rescan_def watching_file_def intro!: exI [of _ s])
  qed
qed

lemma turns_of_growing:
  "watching_file p s w \<Longrightarrow> sorted_wrt (<) (sn_size s # map (sn_size \<circ> fst) seen) \<Longrightarrow> turns p seen w = []"
proof (induction seen arbitrary: s w)
  case (Cons x seen)
  obtain s' now where x: "x = (s', now)" by (cases x)
  have "s' \<noteq> s" using Cons.prems(2) by (auto simp: x)
  then obtain rescan w' s'' where turn: "watch_turn (disk_of p s') now w = (rescan, [], w')"
    and w': "watching_file p s'' w'" and s'': "s'' \<in> {s, s'}"
    using turn_of_growing [OF Cons.prems(1)] by blast
  have "sorted_wrt (<) (sn_size s'' # map (sn_size \<circ> fst) seen)"
    using Cons.prems(2) s'' by (auto simp: x o_def)
  with Cons.IH [OF w'] show ?case by (simp add: x turn o_def)
qed simp

text \<open>The maximum hold does not reach a file that is written to all the time. A file larger
  each time the loop looks at it than any time before is never reported, however long that goes
  on and whatever the maximum is: it is released, found changed, and put back as if new.\<close>

lemma growing_file_is_never_reported:
  assumes "watching_file p s w" and "sorted_wrt (<) (sn_size s # map (sn_size \<circ> fst) seen)"
  shows "turns p seen w = []"
  by (rule turns_of_growing [OF assms])

text \<open>Where a new directory cannot be walked, the rescan the turn decides on is not asked for in
  that turn, and with nothing else waiting the loop has no deadline to wake up for it: it is asked
  for when something unrelated happens.\<close>

theorem failed_walk_waits_for_unrelated_activity:
  assumes "waiting (w_debouncer w) = [(p, e)]" and "pe_kind e = Upserted" and "disk p = Directory None"
    and "eligible (w_debouncer w) now e" and "\<not> rescan_requested (w_debouncer w)"
  shows "\<exists>w'. watch_turn disk now w = (False, [], w') \<and> rescan_requested (w_debouncer w')
    \<and> next_deadline (w_debouncer w') = None"
  using assms
  by (auto simp: watch_turn_def take_rescan_def drain_settled_def release_one_def Let_def eligible_def
      observe_overflow_def next_deadline_def bm_remove_def bm_values_def split: prod.splits)

subsection \<open>Examples\<close>

definition one_waiting :: "nat \<Rightarrow> watching" where
  "one_waiting t = \<lparr>w_debouncer = observe [''log''] Upserted t default_config,
     w_snapshots = [([''log''], \<lparr>sn_size = 1, sn_mtime = 0\<rparr>)]\<rparr>"

lemma one_waiting_eq:
  "waiting (w_debouncer (one_waiting t)) =
     [([''log''], \<lparr>pe_kind = Upserted, first_event = t, last_event = t\<rparr>)]"
  by (simp add: one_waiting_def observe_def default_config_def debouncer_new_def bm_get_def)

lemma one_waiting_hold: "max_hold (w_debouncer (one_waiting t)) = 5000"
  by (simp add: one_waiting_def observe_def default_config_def debouncer_new_def)

theorem deadline_is_when_something_settles_witness:
  "fst (drain_settled 410 (w_debouncer (one_waiting 10))) \<noteq> []
   \<and> fst (drain_settled 409 (w_debouncer (one_waiting 10))) = []"
proof -
  have "debouncer_ok (w_debouncer (one_waiting 10))" by (simp add: debouncer_ok_def one_waiting_eq bm_ok_def)
  from this deadline_is_when_something_settles [OF this, of 410]
    deadline_is_when_something_settles [OF this, of 409]
  have "fst (drain_settled 410 (w_debouncer (one_waiting 10))) \<noteq> [] \<longleftrightarrow>
      (\<exists>t. next_deadline (w_debouncer (one_waiting 10)) = Some t \<and> t \<le> 410)"
    and "fst (drain_settled 409 (w_debouncer (one_waiting 10))) \<noteq> [] \<longleftrightarrow>
      (\<exists>t. next_deadline (w_debouncer (one_waiting 10)) = Some t \<and> t \<le> 409)"
    unfolding one_waiting_eq by simp_all
  moreover have "next_deadline (w_debouncer (one_waiting 10)) = Some 410"
    by (simp add: next_deadline_def one_waiting_eq bm_values_def)
      (simp add: one_waiting_def observe_def default_config_def debouncer_new_def)
  ultimately show ?thesis by simp
qed

lemma held_no_longer_than_max_hold_witness:
  "[''log''] \<in> ch_path ` set (fst (drain_settled 5010
     (fold act [Seen [''log''] Upserted 4900, Deferred [''log''] 5000] (w_debouncer (one_waiting 10)))))"
proof -
  have "debouncer_ok (w_debouncer (one_waiting 10))" by (simp add: debouncer_ok_def one_waiting_eq bm_ok_def)
  from held_no_longer_than_max_hold [OF this, of "[''log'']" "\<lparr>pe_kind = Upserted, first_event = 10, last_event = 10\<rparr>" 5010
      "[Seen [''log''] Upserted 4900, Deferred [''log''] 5000]"]
  show ?thesis by (simp add: one_waiting_eq one_waiting_hold bm_get_def del: fold_simps)
qed

lemma growing_file_is_never_reported_witness:
  "turns [''log''] [(\<lparr>sn_size = 2, sn_mtime = 0\<rparr>, 6000), (\<lparr>sn_size = 3, sn_mtime = 0\<rparr>, 12000)]
     (one_waiting 0) = []"
proof -
  have "watching_file [''log''] \<lparr>sn_size = 1, sn_mtime = 0\<rparr> (one_waiting 0)"
    unfolding watching_file_def one_waiting_eq
    by (simp add: one_waiting_def bm_get_def bm_ok_def)
  then show ?thesis by (rule growing_file_is_never_reported) simp
qed

theorem failed_walk_waits_for_unrelated_activity_witness:
  "\<exists>w'. watch_turn (\<lambda>_. Directory None) 500 (one_waiting 0) = (False, [], w')
     \<and> rescan_requested (w_debouncer w') \<and> next_deadline (w_debouncer w') = None"
  by (rule failed_walk_waits_for_unrelated_activity [OF one_waiting_eq])
    (simp_all add: one_waiting_def observe_def default_config_def debouncer_new_def eligible_def)

end
