(* ===== verification/Index.thy ===== *)
theory Index imports Version
begin

section \<open>The index (\<open>crates/storage/src/db.rs\<close>)\<close>

text \<open>
  The tables of the metadata index that hold files and chunks, as lists and maps of rows, the
  statements the store runs on them, and the two triggers that keep the reference counts. A time
  is in Unix seconds and is an argument of the statements that call \<open>unixepoch()\<close>. The columns
  nothing here reads (\<open>created_at\<close>) are left out. What follows the statements shows that the
  counts cannot drift: every statement keeps each chunk's count the number of links to it.
\<close>

type_synonym hash = bytes

record chunk_row =
  c_size :: nat
  c_stored :: nat
  c_refs :: int
  c_since :: "int option"

record file_row =
  f_id :: nat
  f_path :: string
  f_size :: nat
  f_hash :: hash
  f_mtime :: int
  f_updated :: int
  f_deleted :: "int option"
  f_vector :: version_vector
  f_by :: device_id
  f_here :: bool \<comment> \<open>\<open>materialised\<close>\<close>
  f_touched :: int
  f_wanted :: bool
  f_scope :: "device_id option"
  f_held :: bool

record index =
  chunks :: "hash \<Rightarrow> chunk_row option"
  files :: "file_row list"
  links :: "(nat \<times> hash) list" \<comment> \<open>\<open>file_chunks\<close>, each file's in \<open>seq\<close> order\<close>
  me :: device_id
  counter :: u64
  replicas :: "(hash \<times> device_id \<times> bool) list"
  phones :: "device_id list" \<comment> \<open>the \<open>peer_kinds\<close> rows of kind \<open>phone\<close>\<close>
  askable :: "device_id list" \<comment> \<open>the devices \<open>ASKABLE\<close> lets through\<close>

definition index_new :: "device_id \<Rightarrow> index" where
  "index_new d = \<lparr>chunks = (\<lambda>_. None), files = [], links = [], me = d, counter = 0,
     replicas = [], phones = [], askable = []\<rparr>"

subsection \<open>Links and the triggers\<close>

definition link_added :: "hash \<Rightarrow> index \<Rightarrow> index" where
  \<comment> \<open>\<open>file_chunks_after_insert\<close>\<close>
  "link_added h ix =
     ix\<lparr>chunks := (chunks ix)(h := map_option
         (\<lambda>c. c\<lparr>c_refs := c_refs c + 1, c_since := None\<rparr>) (chunks ix h))\<rparr>"

definition link_deleted :: "int \<Rightarrow> hash \<Rightarrow> index \<Rightarrow> index" where
  \<comment> \<open>\<open>file_chunks_after_delete\<close>\<close>
  "link_deleted now h ix =
     ix\<lparr>chunks := (chunks ix)(h := map_option
         (\<lambda>c. c\<lparr>c_refs := c_refs c - 1, c_since := (if c_refs c - 1 \<le> 0 then Some now else None)\<rparr>)
         (chunks ix h))\<rparr>"

definition add_link :: "nat \<Rightarrow> hash \<Rightarrow> index \<Rightarrow> index" where
  "add_link fid h ix = link_added h (ix\<lparr>links := links ix @ [(fid, h)]\<rparr>)"

definition delete_links :: "int \<Rightarrow> (nat \<times> hash \<Rightarrow> bool) \<Rightarrow> index \<Rightarrow> index" where
  \<comment> \<open>\<open>DELETE FROM file_chunks WHERE \<dots>\<close>, the trigger once for each row\<close>
  "delete_links now P ix =
     fold (\<lambda>(_, h). link_deleted now h) (filter P (links ix))
       (ix\<lparr>links := filter (\<lambda>l. \<not> P l) (links ix)\<rparr>)"

definition delete_files :: "int \<Rightarrow> (file_row \<Rightarrow> bool) \<Rightarrow> index \<Rightarrow> index" where
  \<comment> \<open>\<open>DELETE FROM files WHERE \<dots>\<close>, cascading to \<open>file_chunks\<close>\<close>
  "delete_files now P ix =
     (let gone = map f_id (filter P (files ix))
      in delete_links now (\<lambda>(fid, _). fid \<in> set gone) (ix\<lparr>files := filter (\<lambda>f. \<not> P f) (files ix)\<rparr>))"

definition chunk_hashes_for :: "index \<Rightarrow> nat \<Rightarrow> hash list" where
  "chunk_hashes_for ix fid = map snd (filter (\<lambda>(i, _). i = fid) (links ix))"

subsection \<open>Chunks\<close>

definition has_chunk_row :: "index \<Rightarrow> hash \<Rightarrow> bool" where
  "has_chunk_row ix h \<longleftrightarrow> chunks ix h \<noteq> None"

definition insert_chunk :: "int \<Rightarrow> hash \<Rightarrow> nat \<Rightarrow> nat \<Rightarrow> index \<Rightarrow> index" where
  "insert_chunk now h sz stored ix =
     (if has_chunk_row ix h then ix
      else ix\<lparr>chunks := (chunks ix)(h \<mapsto>
             \<lparr>c_size = sz, c_stored = stored, c_refs = 0, c_since = Some now\<rparr>)\<rparr>)"

definition refcount_drift :: "index \<Rightarrow> hash \<Rightarrow> (int \<times> nat) option" where
  \<comment> \<open>\<open>audit_refcounts\<close> for one chunk: the stored and the actual count, where they differ\<close>
  "refcount_drift ix h =
     (case chunks ix h of
        None \<Rightarrow> None
      | Some c \<Rightarrow>
          (let actual = length (filter (\<lambda>(_, h'). h' = h) (links ix))
           in if c_refs c \<noteq> int actual then Some (c_refs c, actual) else None))"

subsection \<open>Files\<close>

definition file_by_path :: "index \<Rightarrow> string \<Rightarrow> file_row option" where
  "file_by_path ix p = find (\<lambda>f. f_path f = p \<and> f_scope f = None) (files ix)"

definition live_row_in :: "index \<Rightarrow> string \<Rightarrow> device_id option \<Rightarrow> file_row option" where
  "live_row_in ix p owner =
     (case owner of
        None \<Rightarrow> (case file_by_path ix p of
                   Some f \<Rightarrow> (if f_deleted f = None then Some f else None)
                 | None \<Rightarrow> None)
      | Some o' \<Rightarrow> find (\<lambda>f. f_path f = p \<and> f_scope f = Some o' \<and> f_deleted f = None) (files ix))"

definition own_vault_row :: "index \<Rightarrow> string \<Rightarrow> file_row option" where
  "own_vault_row ix p = live_row_in ix p (Some (me ix))"

definition folder_row :: "index \<Rightarrow> string \<Rightarrow> (file_row \<times> device_id option) option" where
  "folder_row ix p =
     (case live_row_in ix p None of
        Some f \<Rightarrow> Some (f, None)
      | None \<Rightarrow> map_option (\<lambda>f. (f, Some (me ix))) (own_vault_row ix p))"

definition in_folder :: "index \<Rightarrow> string \<Rightarrow> file_row option" where
  "in_folder ix p = map_option fst (folder_row ix p)"

definition folder_scope :: "index \<Rightarrow> file_row \<Rightarrow> bool" where
  \<comment> \<open>the shared area or this device's own vault\<close>
  "folder_scope ix f \<longleftrightarrow> f_scope f = None \<or> f_scope f = Some (me ix)"

definition is_materialised :: "index \<Rightarrow> string \<Rightarrow> bool option" where
  "is_materialised ix p =
     map_option f_here (find (\<lambda>f. f_path f = p \<and> f_deleted f = None \<and> folder_scope ix f) (files ix))"

definition set_materialised :: "string \<Rightarrow> bool \<Rightarrow> index \<Rightarrow> index" where
  "set_materialised p b ix =
     ix\<lparr>files := map (\<lambda>f. if f_path f = p \<and> f_deleted f = None \<and> folder_scope ix f then f\<lparr>f_here := b\<rparr> else f)
         (files ix)\<rparr>"

definition mark_held :: "string \<Rightarrow> device_id \<Rightarrow> index \<Rightarrow> index" where
  "mark_held p owner ix =
     ix\<lparr>files := map (\<lambda>f. if f_path f = p \<and> f_scope f = Some owner then f\<lparr>f_held := True\<rparr> else f) (files ix)\<rparr>"

definition is_held :: "index \<Rightarrow> string \<Rightarrow> device_id \<Rightarrow> bool" where
  "is_held ix p owner \<longleftrightarrow>
     list_ex (\<lambda>f. f_path f = p \<and> f_scope f = Some owner \<and> f_held f \<and> f_deleted f = None) (files ix)"

definition live_path_anywhere :: "index \<Rightarrow> string \<Rightarrow> bool" where
  "live_path_anywhere ix p \<longleftrightarrow> list_ex (\<lambda>f. f_path f = p \<and> f_deleted f = None) (files ix)"

definition set_version :: "string \<Rightarrow> version_vector \<Rightarrow> device_id \<Rightarrow> int \<Rightarrow> index \<Rightarrow> index" where
  "set_version p v by_device at ix =
     ix\<lparr>files := map (\<lambda>f. if f_path f = p \<and> f_scope f = None
                         then f\<lparr>f_vector := v, f_by := by_device, f_updated := at\<rparr> else f) (files ix)\<rparr>"

definition want :: "string \<Rightarrow> index \<Rightarrow> index" where
  "want p ix = ix\<lparr>files := map (\<lambda>f. if f_path f = p \<and> f_deleted f = None \<and> \<not> f_here f \<and> folder_scope ix f
     then f\<lparr>f_wanted := True\<rparr> else f) (files ix)\<rparr>"

definition touch_path :: "int \<Rightarrow> string \<Rightarrow> index \<Rightarrow> index" where
  "touch_path now p ix =
     ix\<lparr>files := map (\<lambda>f. if f_path f = p \<and> folder_scope ix f then f\<lparr>f_touched := now\<rparr> else f) (files ix)\<rparr>"

definition set_scope :: "string \<Rightarrow> device_id option \<Rightarrow> index \<Rightarrow> (bool \<times> index) option" where
  \<comment> \<open>None: with two rows of the path the statement would give an area two of them, and is refused\<close>
  "set_scope p vault ix =
     (case filter (\<lambda>f. f_path f = p) (files ix) of
        [] \<Rightarrow> Some (False, ix)
      | [_] \<Rightarrow> Some (True, ix\<lparr>files := map (\<lambda>f. if f_path f = p then f\<lparr>f_scope := vault\<rparr> else f) (files ix)\<rparr>)
      | _ \<Rightarrow> None)"

definition forget_row :: "int \<Rightarrow> nat \<Rightarrow> index \<Rightarrow> index" where
  \<comment> \<open>\<open>DELETE FROM files\<close>, which takes the row's links with it\<close>
  "forget_row now i ix = delete_files now (\<lambda>f. f_id f = i) ix"

definition next_local_vector :: "string \<Rightarrow> index \<Rightarrow> version_vector \<times> device_id \<times> index" where
  "next_local_vector p ix =
     (let n = counter ix + 1;
          v = (case file_by_path ix p of Some f \<Rightarrow> f_vector f | None \<Rightarrow> vv_new)
      in (vv_set v (me ix) n, me ix, ix\<lparr>counter := n\<rparr>))"

definition new_file_id :: "index \<Rightarrow> nat" where
  \<comment> \<open>an \<open>INTEGER PRIMARY KEY\<close> left out of an insert is one more than the largest\<close>
  "new_file_id ix = Suc (fold max (map f_id (files ix)) 0)"

definition upsert_file :: "file_row \<Rightarrow> (file_row \<Rightarrow> file_row) \<Rightarrow> index \<Rightarrow> nat \<times> index" where
  \<comment> \<open>\<open>INSERT \<dots> ON CONFLICT (scope, path) DO UPDATE \<dots> RETURNING id\<close>\<close>
  "upsert_file new update ix =
     (case find (\<lambda>f. f_path f = f_path new \<and> f_scope f = f_scope new) (files ix) of
        Some old \<Rightarrow>
          (f_id old, ix\<lparr>files := map (\<lambda>f. if f_id f = f_id old then (update f)\<lparr>f_id := f_id f,
              f_path := f_path f, f_scope := f_scope f\<rparr> else f) (files ix)\<rparr>)
      | None \<Rightarrow> (new_file_id ix, ix\<lparr>files := files ix @ [new\<lparr>f_id := new_file_id ix\<rparr>]\<rparr>))"

subsection \<open>Who else holds it\<close>

definition note_replica :: "hash \<Rightarrow> device_id \<Rightarrow> bool \<Rightarrow> index \<Rightarrow> index" where
  \<comment> \<open>a copy once known to be askable stays so\<close>
  "note_replica h d private ix =
     ix\<lparr>replicas := (if list_ex (\<lambda>(h', d', _). h' = h \<and> d' = d) (replicas ix)
                     then map (\<lambda>(h', d', b). if h' = h \<and> d' = d then (h', d', b \<and> private) else (h', d', b)) (replicas ix)
                     else replicas ix @ [(h, d, private)])\<rparr>"

definition safe_copies_elsewhere :: "index \<Rightarrow> hash \<Rightarrow> nat" where
  "safe_copies_elsewhere ix h =
     length (filter (\<lambda>(h', d, private). h' = h \<and> \<not> private \<and> d \<notin> set (phones ix)) (replicas ix))"

definition row_to_version :: "file_row \<Rightarrow> file_version" where
  "row_to_version f =
     \<lparr>path = f_path f,
      content = (if f_deleted f \<noteq> None then Deleted else File (f_hash f) (word_of_nat (f_size f))),
      vector = f_vector f, modified_by = f_by f, modified_at = word_of_int (f_updated f), area = Shared\<rparr>"

definition shared_versions :: "index \<Rightarrow> file_version list" where
  "shared_versions ix = map row_to_version (sort_key f_path (filter (\<lambda>f. f_scope f = None) (files ix)))"


subsection \<open>The counts and the links\<close>

definition count_in :: "(nat \<times> hash) list \<Rightarrow> hash \<Rightarrow> nat" where
  "count_in ls h = length (filter (\<lambda>(_, h'). h' = h) ls)"

definition chunk_ok :: "(nat \<times> hash) list \<Rightarrow> hash \<Rightarrow> chunk_row option \<Rightarrow> bool" where
  "chunk_ok ls h r =
     (case r of
        None \<Rightarrow> count_in ls h = 0
      | Some c \<Rightarrow> c_refs c = int (count_in ls h) \<and> (c_since c = None \<longleftrightarrow> c_refs c > 0))"

definition index_ok :: "index \<Rightarrow> bool" where
  "index_ok ix \<longleftrightarrow> (\<forall>h. chunk_ok (links ix) h (chunks ix h))
     \<and> (\<forall>(fid, h) \<in> set (links ix). fid \<in> f_id ` set (files ix))
     \<and> distinct (map f_id (files ix)) \<and> distinct (map (\<lambda>f. (f_scope f, f_path f)) (files ix))"

lemma count_in_simps [simp]:
  "count_in [] h = 0"
  "count_in ((fid, h') # ls) h = (if h' = h then Suc (count_in ls h) else count_in ls h)"
  "count_in (ls @ ls') h = count_in ls h + count_in ls' h"
  by (simp_all add: count_in_def)

lemma count_in_zero_iff: "count_in ls h = 0 \<longleftrightarrow> h \<notin> snd ` set ls"
  by (force simp: count_in_def filter_empty_conv)

lemma count_in_filter: "count_in ls h = count_in (filter P ls) h + count_in (filter (\<lambda>l. \<not> P l) ls) h"
  by (induction ls) auto

lemma index_okD:
  assumes "index_ok ix"
  shows "chunk_ok (links ix) h (chunks ix h)"
    and "(fid, h) \<in> set (links ix) \<Longrightarrow> fid \<in> f_id ` set (files ix)"
    and "distinct (map f_id (files ix))"
    and "distinct (map (\<lambda>f. (f_scope f, f_path f)) (files ix))"
  using assms by (auto simp: index_ok_def)

lemma index_ok_new [simp]: "index_ok (index_new d)"
  by (simp add: index_ok_def index_new_def chunk_ok_def)

lemma no_drift: "index_ok ix \<Longrightarrow> refcount_drift ix h = None"
  using index_okD(1) [of ix h]
  by (auto simp: refcount_drift_def chunk_ok_def count_in_def Let_def split: option.splits)

lemma link_has_chunk: "index_ok ix \<Longrightarrow> (fid, h) \<in> set (links ix) \<Longrightarrow> has_chunk_row ix h"
  using index_okD(1) [of ix h]
  by (force simp: chunk_ok_def has_chunk_row_def count_in_zero_iff split: option.splits)

lemma fold_link_deleted_fields [simp]:
  "links (fold (\<lambda>(_, h). link_deleted now h) ls ix) = links ix"
  "files (fold (\<lambda>(_, h). link_deleted now h) ls ix) = files ix"
  "me (fold (\<lambda>(_, h). link_deleted now h) ls ix) = me ix"
  "counter (fold (\<lambda>(_, h). link_deleted now h) ls ix) = counter ix"
  "replicas (fold (\<lambda>(_, h). link_deleted now h) ls ix) = replicas ix"
  "phones (fold (\<lambda>(_, h). link_deleted now h) ls ix) = phones ix"
  by (induction ls arbitrary: ix) (auto simp: link_deleted_def)

lemma fold_link_deleted_chunk:
  "chunks (fold (\<lambda>(_, h). link_deleted now h) ls ix) h =
     map_option (\<lambda>c. if count_in ls h = 0 then c
        else c\<lparr>c_refs := c_refs c - int (count_in ls h),
               c_since := (if c_refs c - int (count_in ls h) \<le> 0 then Some now else None)\<rparr>) (chunks ix h)"
proof (induction ls arbitrary: ix)
  case Nil
  then show ?case by (simp add: option.map_ident)
next
  case (Cons l ls)
  obtain fid h' where l: "l = (fid, h')" by (cases l)
  have step: "chunks (link_deleted now h' ix) h = (if h = h' then map_option
      (\<lambda>c. c\<lparr>c_refs := c_refs c - 1, c_since := (if c_refs c - 1 \<le> 0 then Some now else None)\<rparr>) (chunks ix h)
      else chunks ix h)"
    by (simp add: link_deleted_def)
  show ?case
    by (cases "chunks ix h") (auto simp: l Cons.IH step algebra_simps)
qed

lemma delete_links_fields [simp]:
  "links (delete_links now P ix) = filter (\<lambda>l. \<not> P l) (links ix)"
  "files (delete_links now P ix) = files ix" "me (delete_links now P ix) = me ix"
  "counter (delete_links now P ix) = counter ix" "replicas (delete_links now P ix) = replicas ix"
  "phones (delete_links now P ix) = phones ix"
  by (simp_all add: delete_links_def)

lemma delete_links_chunk:
  "chunks (delete_links now P ix) h =
     map_option (\<lambda>c. if count_in (filter P (links ix)) h = 0 then c
        else c\<lparr>c_refs := c_refs c - int (count_in (filter P (links ix)) h),
               c_since := (if c_refs c - int (count_in (filter P (links ix)) h) \<le> 0 then Some now else None)\<rparr>)
       (chunks ix h)"
  by (simp add: delete_links_def fold_link_deleted_chunk)

lemma chunk_ok_delete_links:
  assumes "chunk_ok (links ix) h (chunks ix h)"
  shows "chunk_ok (filter (\<lambda>l. \<not> P l) (links ix)) h (chunks (delete_links now P ix) h)"
  using assms count_in_filter [of "links ix" h P]
  by (cases "chunks ix h") (auto simp: chunk_ok_def delete_links_chunk)

lemma index_ok_delete_links: "index_ok ix \<Longrightarrow> index_ok (delete_links now P ix)"
  using chunk_ok_delete_links [of ix] by (auto simp: index_ok_def)

lemma index_ok_delete_files:
  assumes "index_ok ix"
  shows "index_ok (delete_files now P ix)"
proof -
  let ?gone = "f_id ` {f \<in> set (files ix). P f}"
  have kept: "fid \<in> f_id ` set (filter (\<lambda>f. \<not> P f) (files ix))"
    if "(fid, h) \<in> set (links ix)" and "fid \<notin> ?gone" for fid h
    using that index_okD(2) [OF assms, of fid h] by auto
  have "chunk_ok (filter (\<lambda>l. \<not> (\<lambda>(fid, _). fid \<in> ?gone) l) (links ix)) h
      (chunks (delete_links now (\<lambda>(fid, _). fid \<in> ?gone) (ix\<lparr>files := filter (\<lambda>f. \<not> P f) (files ix)\<rparr>)) h)" for h
    using chunk_ok_delete_links [of "ix\<lparr>files := filter (\<lambda>f. \<not> P f) (files ix)\<rparr>" h "\<lambda>(fid, _). fid \<in> ?gone" now]
      index_okD(1) [OF assms, of h] by simp
  moreover have "distinct (map f_id (filter (\<lambda>f. \<not> P f) (files ix)))"
    "distinct (map (\<lambda>f. (f_scope f, f_path f)) (filter (\<lambda>f. \<not> P f) (files ix)))"
    using index_okD(3,4) [OF assms] by (simp_all add: distinct_map_filter)
  ultimately show ?thesis
    using kept by (auto simp: index_ok_def delete_files_def Let_def)
qed

lemma index_ok_add_link:
  assumes "index_ok ix" and "has_chunk_row ix h" and "fid \<in> f_id ` set (files ix)"
  shows "index_ok (add_link fid h ix)"
proof -
  have "chunk_ok (links ix @ [(fid, h)]) h' (chunks (add_link fid h ix) h')" for h'
    using assms(2) index_okD(1) [OF assms(1), of h']
    by (cases "chunks ix h'") (auto simp: chunk_ok_def add_link_def link_added_def has_chunk_row_def)
  then show ?thesis
    using assms by (auto simp: index_ok_def add_link_def link_added_def)
qed

lemma index_ok_insert_chunk:
  assumes "index_ok ix"
  shows "index_ok (insert_chunk now h sz stored ix)"
proof -
  have "chunk_ok (links ix) h' (chunks (insert_chunk now h sz stored ix) h')" for h'
    using index_okD(1) [OF assms, of h']
    by (auto simp: insert_chunk_def has_chunk_row_def chunk_ok_def split: option.splits)
  moreover have "links (insert_chunk now h sz stored ix) = links ix"
    "files (insert_chunk now h sz stored ix) = files ix" by (simp_all add: insert_chunk_def)
  ultimately show ?thesis using assms by (simp add: index_ok_def)
qed

lemma index_ok_map_files:
  assumes "index_ok ix" and "\<And>f. f_id (g f) = f_id f" "\<And>f. f_path (g f) = f_path f" "\<And>f. f_scope (g f) = f_scope f"
  shows "index_ok (ix\<lparr>files := map g (files ix)\<rparr>)"
  using assms by (auto simp: index_ok_def image_iff o_def)

lemma index_ok_set_materialised: "index_ok ix \<Longrightarrow> index_ok (set_materialised p b ix)"
  unfolding set_materialised_def by (rule index_ok_map_files) auto

lemma index_ok_mark_held: "index_ok ix \<Longrightarrow> index_ok (mark_held p owner ix)"
  unfolding mark_held_def by (rule index_ok_map_files) auto

lemma index_ok_set_version: "index_ok ix \<Longrightarrow> index_ok (set_version p v d at ix)"
  unfolding set_version_def by (rule index_ok_map_files) auto

lemma index_ok_next_local_vector:
  "next_local_vector p ix = (v, d, ix') \<Longrightarrow> index_ok ix \<Longrightarrow> index_ok ix'"
  by (auto simp: next_local_vector_def Let_def index_ok_def)

lemma index_ok_note_replica: "index_ok ix \<Longrightarrow> index_ok (note_replica h d private ix)"
  by (auto simp: index_ok_def note_replica_def)

lemma index_ok_want: "index_ok ix \<Longrightarrow> index_ok (want p ix)"
  unfolding want_def by (rule index_ok_map_files) auto

lemma index_ok_touch_path: "index_ok ix \<Longrightarrow> index_ok (touch_path now p ix)"
  unfolding touch_path_def by (rule index_ok_map_files) auto

lemma index_ok_forget_row: "index_ok ix \<Longrightarrow> index_ok (forget_row now i ix)"
  unfolding forget_row_def by (rule index_ok_delete_files)

lemma index_ok_set_scope:
  assumes "index_ok ix" and "set_scope p vault ix = Some (b, ix')"
  shows "index_ok ix'"
proof (cases "filter (\<lambda>f. f_path f = p) (files ix)")
  case (Cons r rest)
  let ?g = "\<lambda>f. if f_path f = p then f\<lparr>f_scope := vault\<rparr> else f"
  have only: "filter (\<lambda>f. f_path f = p) (files ix) = [r]" and ix': "ix' = ix\<lparr>files := map ?g (files ix)\<rparr>"
    using assms(2) Cons by (auto simp: set_scope_def split: list.splits)
  have one: "f = r" if "f \<in> set (files ix)" "f_path f = p" for f
  proof -
    have "f \<in> set (filter (\<lambda>f. f_path f = p) (files ix))" using that by simp
    then show ?thesis by (simp add: only)
  qed
  have "distinct (files ix)" using index_okD(3) [OF assms(1)] by (simp add: distinct_map)
  moreover have "inj_on (\<lambda>f. (f_scope (?g f), f_path (?g f))) (set (files ix))"
  proof (rule inj_onI)
    fix f g
    assume f: "f \<in> set (files ix)" and g: "g \<in> set (files ix)"
      and eq: "(f_scope (?g f), f_path (?g f)) = (f_scope (?g g), f_path (?g g))"
    have path: "f_path f = f_path g" using eq by (auto split: if_splits)
    show "f = g"
    proof (cases "f_path f = p")
      case True
      then show ?thesis using one [OF f] one [OF g] path by simp
    next
      case False
      then have "(f_scope f, f_path f) = (f_scope g, f_path g)" using eq path by simp
      then show ?thesis using index_okD(4) [OF assms(1)] f g by (auto simp: distinct_map dest: inj_onD)
    qed
  qed
  ultimately have keys: "distinct (map (\<lambda>f. (f_scope f, f_path f)) (files ix'))"
    by (simp add: ix' distinct_map inj_on_def)
  have ids: "map f_id (files ix') = map f_id (files ix)" by (simp add: ix')
  then have "f_id ` set (files ix') = f_id ` set (files ix)" by (metis set_map)
  moreover have "links ix' = links ix" "chunks ix' = chunks ix" by (simp_all add: ix')
  ultimately show ?thesis using assms(1) keys ids by (simp add: index_ok_def)
qed (use assms in \<open>auto simp: set_scope_def\<close>)

lemma fold_max_ge: "x \<in> set xs \<Longrightarrow> x \<le> fold max xs (a :: nat)" and fold_max_ge0: "a \<le> fold max xs a"
  by (induction xs arbitrary: a) (auto intro: le_trans [OF max.cobounded2] le_trans [OF max.cobounded1])

lemma new_file_id_fresh: "new_file_id ix \<notin> f_id ` set (files ix)"
  using fold_max_ge [of _ "map f_id (files ix)" 0] by (force simp: new_file_id_def)

lemma find_key:
  "distinct (map k xs) \<Longrightarrow> x \<in> set xs \<Longrightarrow> find (\<lambda>y. k y = k x) xs = Some x"
  by (induction xs) force+

lemma index_ok_upsert:
  assumes "index_ok ix" and "upsert_file new update ix = (fid, ix')"
  shows "index_ok ix'" and "fid \<in> f_id ` set (files ix')" and "links ix' = links ix" and "chunks ix' = chunks ix"
proof -
  let ?same = "\<lambda>f. f_path f = f_path new \<and> f_scope f = f_scope new"
  have "index_ok ix' \<and> fid \<in> f_id ` set (files ix') \<and> links ix' = links ix \<and> chunks ix' = chunks ix"
  proof (cases "find ?same (files ix)")
    case (Some old)
    then have "old \<in> set (files ix)" by (auto simp: find_Some_iff)
    let ?g = "\<lambda>f. if f_id f = f_id old
        then (update f)\<lparr>f_id := f_id f, f_path := f_path f, f_scope := f_scope f\<rparr> else f"
    have ix': "ix' = ix\<lparr>files := map ?g (files ix)\<rparr>" and fid: "fid = f_id old"
      using assms(2) Some by (auto simp: upsert_file_def)
    have "index_ok ix'" unfolding ix' by (rule index_ok_map_files [OF assms(1)]) auto
    moreover have "f_id (?g old) \<in> f_id ` set (files ix')"
      unfolding ix' using \<open>old \<in> set (files ix)\<close> by (intro imageI) simp
    then have "fid \<in> f_id ` set (files ix')" by (simp add: fid)
    ultimately show ?thesis by (simp add: ix')
  next
    case None
    then have none: "(f_scope new, f_path new) \<notin> (\<lambda>f. (f_scope f, f_path f)) ` set (files ix)"
      by (auto simp: find_None_iff)
    have ix': "ix' = ix\<lparr>files := files ix @ [new\<lparr>f_id := new_file_id ix\<rparr>]\<rparr>" and fid: "fid = new_file_id ix"
      using assms(2) None by (auto simp: upsert_file_def)
    show ?thesis
      using assms(1) none new_file_id_fresh [of ix] by (auto simp: ix' fid index_ok_def)
  qed
  then show "index_ok ix'" "fid \<in> f_id ` set (files ix')" "links ix' = links ix" "chunks ix' = chunks ix"
    by blast+
qed

lemmas index_ok_intros = index_ok_new index_ok_delete_links index_ok_delete_files index_ok_add_link
  index_ok_insert_chunk index_ok_set_materialised index_ok_mark_held index_ok_set_version
  index_ok_note_replica

lemma find_key_and:
  "distinct (map k xs) \<Longrightarrow> x \<in> set xs \<Longrightarrow> R x \<Longrightarrow> find (\<lambda>y. k y = k x \<and> R y) xs = Some x"
  by (induction xs) force+

lemma index_ok_row:
  assumes "index_ok ix" and "f \<in> set (files ix)"
  shows "find (\<lambda>g. f_path g = f_path f \<and> f_scope g = f_scope f) (files ix) = Some f"
    and "find (\<lambda>g. f_id g = f_id f) (files ix) = Some f"
    and "f_deleted f = None \<Longrightarrow> live_row_in ix (f_path f) (f_scope f) = Some f"
proof -
  let ?k = "\<lambda>f. (f_scope f, f_path f)"
  show by_key: "find (\<lambda>g. f_path g = f_path f \<and> f_scope g = f_scope f) (files ix) = Some f"
    using find_key [OF index_okD(4) [OF assms(1)] assms(2)] by (simp add: conj_commute)
  show "find (\<lambda>g. f_id g = f_id f) (files ix) = Some f"
    by (rule find_key [OF index_okD(3) [OF assms(1)] assms(2)])
  assume live: "f_deleted f = None"
  have "find (\<lambda>g. f_path g = f_path f \<and> f_scope g = f_scope f \<and> f_deleted g = None) (files ix) = Some f"
    using find_key_and [OF index_okD(4) [OF assms(1)] assms(2), of "\<lambda>g. f_deleted g = None"] live
    by (simp add: conj_ac)
  then show "live_row_in ix (f_path f) (f_scope f) = Some f"
    using by_key live by (cases "f_scope f") (auto simp: live_row_in_def file_by_path_def)
qed

lemma upsert_row:
  assumes "upsert_file new update ix = (fid, ix')"
  shows "\<exists>r. r \<in> set (files ix') \<and> f_id r = fid \<and> f_path r = f_path new \<and> f_scope r = f_scope new
    \<and> (r = new\<lparr>f_id := fid\<rparr> \<or> (\<exists>old. r = (update old)\<lparr>f_id := fid, f_path := f_path new, f_scope := f_scope new\<rparr>))"
proof (cases "find (\<lambda>f. f_path f = f_path new \<and> f_scope f = f_scope new) (files ix)")
  case None
  then show ?thesis using assms by (auto simp: upsert_file_def)
next
  case (Some old)
  then have old: "old \<in> set (files ix)" "f_path old = f_path new" "f_scope old = f_scope new"
    by (auto simp: find_Some_iff)
  let ?g = "\<lambda>f. if f_id f = f_id old
      then (update f)\<lparr>f_id := f_id f, f_path := f_path f, f_scope := f_scope f\<rparr> else f"
  have "files ix' = map ?g (files ix)" and fid: "fid = f_id old"
    using assms Some by (auto simp: upsert_file_def)
  then have "?g old \<in> set (files ix')" using old(1) by simp
  then show ?thesis using old(2,3) by (intro exI [of _ "?g old"]) (auto simp: fid)
qed

lemma insort_key_map: "(\<And>x. k (g x) = k x) \<Longrightarrow> insort_key k (g x) (map g xs) = map g (insort_key k x xs)"
  by (induction xs) auto

lemma sort_key_map: "(\<And>x. k (g x) = k x) \<Longrightarrow> sort_key k (map g xs) = map g (sort_key k xs)"
  by (induction xs) (simp_all add: insort_key_map)

lemma shared_versions_map:
  assumes "\<And>f. f_path (g f) = f_path f" and "\<And>f. f_scope (g f) = f_scope f"
    and "\<And>f. row_to_version (g f) = row_to_version f"
  shows "shared_versions (ix\<lparr>files := map g (files ix)\<rparr>) = shared_versions ix"
proof -
  have "filter (\<lambda>f. f_scope f = None) (map g (files ix)) = map g (filter (\<lambda>f. f_scope f = None) (files ix))"
    by (simp add: filter_map o_def assms(2))
  then show ?thesis
    by (simp add: shared_versions_def sort_key_map [of f_path g, OF assms(1)] o_def assms(3))
qed

end
