(* ===== verification/Audience.thy ===== *)
theory Audience imports Index Sharing
begin

section \<open>Who is told what (\<open>crates/storage/src/db.rs\<close>)\<close>

text \<open>
  The paired devices, which of them another one was before it was set up again, the tables the
  sharing rules are kept in, and the three queries that answer another device: the list of
  versions it is shown, the contents it may ask for and the chunks it may fetch. A device's facts
  (its kind, its install marker, what the person said of it) are maps of the state. An SQL
  comparison with a NULL device holds of no row, which is what None stands for here.
\<close>

datatype relation = Own | Guest | Host

definition relation_parse :: "string \<Rightarrow> relation" where
  "relation_parse word = (if word = ''own'' then Own else if word = ''host'' then Host else Guest)"

definition is_other_person :: "relation \<Rightarrow> bool" where
  "is_other_person r \<longleftrightarrow> r \<noteq> Own"

record trusted_peer =
  tp_id :: device_id
  tp_fingerprint :: bytes
  tp_name :: string
  tp_paired :: int
  tp_seen :: "int option"
  tp_relation :: relation

datatype same = Unsaid | Is device_id | Not

record peers_db =
  a_index :: index
  a_peers :: "trusted_peer list"
  a_kind :: "device_id \<Rightarrow> string option"
  a_install :: "device_id \<Rightarrow> bytes option"
  a_said :: "device_id \<Rightarrow> same"
  a_person :: "device_id \<Rightarrow> device_id option"
  a_holders :: "(device_id \<times> bool) list" \<comment> \<open>with whether it keeps the vault's own files\<close>
  a_outside :: bool
  a_shares :: "string list"
  a_members :: "(string \<times> device_id) list"

datatype audience = Ourselves | ToDevice device_id | ToGuest device_id | Unplaced

definition audience_device :: "audience \<Rightarrow> device_id option" where
  "audience_device a = (case a of ToDevice d \<Rightarrow> Some d | ToGuest d \<Rightarrow> Some d | _ \<Rightarrow> None)"

definition peer_by_fingerprint :: "peers_db \<Rightarrow> bytes \<Rightarrow> trusted_peer option" where
  "peer_by_fingerprint db fp = find (\<lambda>p. tp_fingerprint p = fp) (a_peers db)"

definition relation_of :: "peers_db \<Rightarrow> device_id \<Rightarrow> relation option" where
  "relation_of db d = map_option tp_relation (find (\<lambda>p. tp_id p = d) (a_peers db))"

definition is_holder :: "peers_db \<Rightarrow> device_id \<Rightarrow> bool" where
  "is_holder db d \<longleftrightarrow> list_ex (\<lambda>(h, _). h = d) (a_holders db)"

definition holds_vault_files :: "peers_db \<Rightarrow> device_id \<Rightarrow> bool" where
  "holds_vault_files db d = (case find (\<lambda>(h, _). h = d) (a_holders db) of None \<Rightarrow> False | Some (_, v) \<Rightarrow> v)"

definition person_or_self :: "peers_db \<Rightarrow> device_id \<Rightarrow> device_id" where
  \<comment> \<open>\<open>person_of(d)?.unwrap_or(*d)\<close>\<close>
  "person_or_self db d = (case a_person db d of Some p \<Rightarrow> p | None \<Rightarrow> d)"

subsection \<open>A device set up again\<close>

definition fits_as_later :: "peers_db \<Rightarrow> trusted_peer \<Rightarrow> trusted_peer \<Rightarrow> bool" where
  \<comment> \<open>the turn of the loop for \<open>p\<close>: whether it is pushed onto \<open>fits\<close>\<close>
  "fits_as_later db old p \<longleftrightarrow>
     \<not> (tp_id p = tp_id old \<or> tp_relation p \<noteq> Own \<or> tp_paired p \<le> tp_paired old
        \<or> (case tp_seen old of None \<Rightarrow> False | Some seen \<Rightarrow> seen > tp_paired p))
     \<and> a_said db (tp_id p) = Unsaid
     \<and> ((a_install db (tp_id old) \<noteq> None \<and> a_install db (tp_id old) = a_install db (tp_id p))
        \<or> (tp_name p = tp_name old \<and> a_kind db (tp_id old) \<noteq> None \<and> a_kind db (tp_id old) = a_kind db (tp_id p)))"

fun min_by_paired :: "trusted_peer list \<Rightarrow> trusted_peer option" where
  \<comment> \<open>the first of the least\<close>
  "min_by_paired [] = None"
| "min_by_paired (p # ps) =
     (case min_by_paired ps of
        None \<Rightarrow> Some p
      | Some q \<Rightarrow> if tp_paired q < tp_paired p then Some q else Some p)"

definition became :: "peers_db \<Rightarrow> device_id \<Rightarrow> device_id option" where
  "became db older =
     (case find (\<lambda>p. tp_id p = older) (a_peers db) of
        None \<Rightarrow> None
      | Some old \<Rightarrow>
          (case a_said db older of
             Is newer \<Rightarrow> if list_ex (\<lambda>p. tp_id p = newer) (a_peers db) then Some newer else None
           | Not \<Rightarrow> None
           | Unsaid \<Rightarrow>
               (if tp_relation old \<noteq> Own then None
                else map_option tp_id (min_by_paired (filter (fits_as_later db old) (a_peers db))))))"

definition reach_step :: "device_id \<Rightarrow> device_id \<Rightarrow> device_id \<times> int \<times> device_id option \<Rightarrow>
    device_id list \<times> (device_id \<times> int) list \<Rightarrow> device_id list \<times> (device_id \<times> int) list" where
  "reach_step d at = (\<lambda>(i, paired, to) (reaching, earlier).
     if to = Some at \<and> i \<noteq> d \<and> \<not> list_ex (\<lambda>(e, _). e = i) earlier
     then (i # reaching, earlier @ [(i, paired)]) else (reaching, earlier))"

definition unreached :: "(device_id \<times> int \<times> device_id option) list \<Rightarrow> (device_id \<times> int) list \<Rightarrow> nat" where
  \<comment> \<open>what the loop can still add\<close>
  "unreached chain earlier = card (fst ` set chain - fst ` set earlier)"

lemma reach_step_measure:
  assumes "l \<in> set chain" and "reach_step d at l (r, e) = (r', e')"
  shows "2 * unreached chain e' + length r' \<le> 2 * unreached chain e + length r"
proof -
  obtain i paired to where l: "l = (i, paired, to)" by (cases l) auto
  show ?thesis
  proof (cases "to = Some at \<and> i \<noteq> d \<and> \<not> list_ex (\<lambda>(e, _). e = i) e")
    case True
    then have i: "i \<in> fst ` set chain - fst ` set e"
      using assms(1) by (force simp: l list_ex_iff)
    have e': "e' = e @ [(i, paired)]" and r': "r' = i # r"
      using assms(2) True by (auto simp: l reach_step_def)
    have "fst ` set chain - fst ` set e' = (fst ` set chain - fst ` set e) - {i}" by (auto simp: e')
    then have "unreached chain e' = unreached chain e - 1"
      using i by (simp add: unreached_def card_Diff_singleton)
    moreover have "unreached chain e > 0" using i by (auto simp: unreached_def card_gt_0_iff)
    ultimately show ?thesis by (simp add: r')
  next
    case False
    then show ?thesis using assms(2) by (auto simp: l reach_step_def split: if_splits)
  qed
qed

lemma reach_fold_measure:
  assumes "set ls \<subseteq> set chain" and "fold (reach_step d at) ls (r, e) = (r', e')"
  shows "2 * unreached chain e' + length r' \<le> 2 * unreached chain e + length r"
  using assms
proof (induction ls arbitrary: r e)
  case (Cons l ls)
  obtain r1 e1 where s: "reach_step d at l (r, e) = (r1, e1)" by fastforce
  from Cons.prems(1) have "l \<in> set chain" and sub: "set ls \<subseteq> set chain" by auto
  note reach_step_measure [OF this(1) s]
  moreover have "fold (reach_step d at) ls (r1, e1) = (r', e')" using Cons.prems(2) s by simp
  ultimately show ?case using Cons.IH [OF sub] by (meson le_trans)
qed simp

function earlier_loop :: "(device_id \<times> int \<times> device_id option) list \<Rightarrow> device_id \<Rightarrow> device_id list \<Rightarrow>
    (device_id \<times> int) list \<Rightarrow> (device_id \<times> int) list" where
  "earlier_loop chain d [] earlier = earlier"
| "earlier_loop chain d (at # reaching) earlier =
     (case fold (reach_step d at) chain (reaching, earlier) of
        (reaching, earlier) \<Rightarrow> earlier_loop chain d reaching earlier)"
  by pat_completeness auto
termination
  by (relation "measure (\<lambda>(chain, d, r, e). 2 * unreached chain e + length r)")
    (auto split: prod.split dest!: sym [of "(_, _)"] dest: reach_fold_measure [OF subset_refl] simp: less_Suc_eq_le)

definition earlier_selves :: "peers_db \<Rightarrow> device_id \<Rightarrow> device_id list" where
  "earlier_selves db d =
     map fst (sort_key (\<lambda>(_, paired). - paired)
       (earlier_loop (map (\<lambda>p. (tp_id p, tp_paired p, became db (tp_id p))) (a_peers db)) d [d] []))"

subsection \<open>The rules as tables\<close>

definition shared_with :: "peers_db \<Rightarrow> string \<Rightarrow> device_id option \<Rightarrow> bool" where
  "shared_with db p device \<longleftrightarrow>
     \<not> list_ex (\<lambda>s. (p = s \<or> take (length s + 1) p = s @ ''/'')
         \<and> \<not> list_ex (\<lambda>(m, d). m = s \<and> Some d = device) (a_members db)) (a_shares db)"

definition replace_shares :: "rules \<Rightarrow> peers_db \<Rightarrow> peers_db" where
  "replace_shares rs db =
     db\<lparr>a_shares := map fst (rule_map rs),
        a_members := concat (map (\<lambda>(folder, members). map (Pair folder) members) (rule_map rs))\<rparr>"

definition shares :: "peers_db \<Rightarrow> rules" where
  \<comment> \<open>an id the column does not hold 32 bytes of is left out; the model's ids are of any length\<close>
  "shares db =
     Rules (fold (\<lambda>(folder, d) m. case bm_get m folder of
           Some ds \<Rightarrow> bm_insert folder (bs_insert d ds) m | None \<Rightarrow> m) (a_members db)
       (fold (\<lambda>folder. bm_insert folder []) (a_shares db) []))"

subsection \<open>What another device is shown and may fetch\<close>

abbreviation (input) OUTSIDE_DIR :: string where "OUTSIDE_DIR \<equiv> ''.qurb-outside/''"

definition in_order :: "file_row list \<Rightarrow> file_row list" where
  "in_order = sort_key f_path"

definition vault_area :: "file_row \<Rightarrow> area" where
  "vault_area f = (if f_held f then Held else Sent)"

definition offered_to_holder :: "peers_db \<Rightarrow> device_id \<Rightarrow> file_row \<Rightarrow> bool" where
  \<comment> \<open>the condition on the path in the last query for a device\<close>
  "offered_to_holder db d f \<longleftrightarrow>
     (let beneath_outside = starts_with (f_path f) OUTSIDE_DIR
      in if a_outside db
         then (if holds_vault_files db d then True else beneath_outside)
         else (if holds_vault_files db d then \<not> beneath_outside else False))"

definition versions_for :: "peers_db \<Rightarrow> audience \<Rightarrow> file_version list" where
  "versions_for db a =
     (let rows = files (a_index db)
      in case a of
           Ourselves \<Rightarrow> map row_to_version (in_order rows)
         | Unplaced \<Rightarrow>
             map row_to_version (in_order (filter (\<lambda>f. f_scope f = None \<and> shared_with db (f_path f) None) rows))
         | ToGuest d \<Rightarrow>
             map (\<lambda>f. in_area (row_to_version f) (vault_area f))
               (in_order (filter (\<lambda>f. (f_scope f = Some d \<and> \<not> f_held f)
                  \<or> (f_scope f = Some (person_or_self db d) \<and> f_held f)) rows))
         | ToDevice d \<Rightarrow>
             map row_to_version (in_order (filter (\<lambda>f. f_scope f = None \<and> shared_with db (f_path f) (Some d)) rows))
             @ map (\<lambda>f. in_area (row_to_version f) (vault_area f)) (in_order (filter (\<lambda>f. f_scope f = Some d) rows))
             @ (if is_holder db d
                then map (\<lambda>f. in_area (row_to_version f) Hold)
                       (in_order (filter (\<lambda>f. f_scope f = Some (me (a_index db)) \<and> offered_to_holder db d f) rows))
                else []))"

definition uses_chunk :: "index \<Rightarrow> hash \<Rightarrow> file_row \<Rightarrow> bool" where
  "uses_chunk ix h f \<longleftrightarrow> list_ex (\<lambda>(fid, h'). fid = f_id f \<and> h' = h) (links ix)"

definition kept_for_earlier :: "peers_db \<Rightarrow> device_id \<Rightarrow> (file_row \<Rightarrow> bool) \<Rightarrow> bool" where
  \<comment> \<open>\<open>hit\<close>: the row has the content, or uses the chunk, asked for\<close>
  "kept_for_earlier db d hit \<longleftrightarrow>
     list_ex (\<lambda>e. list_ex (\<lambda>f. hit f \<and> f_scope f = Some e \<and> f_held f) (files (a_index db))) (earlier_selves db d)"

definition visible_row :: "peers_db \<Rightarrow> device_id option \<Rightarrow> file_row \<Rightarrow> bool" where
  \<comment> \<open>the condition of both queries on a row, with the device NULL or not\<close>
  "visible_row db owner f \<longleftrightarrow>
     (f_scope f = None \<and> shared_with db (f_path f) owner)
     \<or> (owner \<noteq> None \<and> f_scope f = owner)
     \<or> (f_scope f = Some (me (a_index db)) \<and> (case owner of None \<Rightarrow> False | Some d \<Rightarrow> is_holder db d))"

definition visible_to :: "peers_db \<Rightarrow> (file_row \<Rightarrow> bool) \<Rightarrow> audience \<Rightarrow> bool" where
  "visible_to db hit a =
     (case a of
        Ourselves \<Rightarrow> True
      | ToGuest d \<Rightarrow>
          list_ex (\<lambda>f. hit f \<and> (f_scope f = Some d \<or> f_scope f = Some (person_or_self db d))) (files (a_index db))
      | _ \<Rightarrow>
          list_ex (\<lambda>f. hit f \<and> visible_row db (audience_device a) f) (files (a_index db))
          \<or> (case audience_device a of Some d \<Rightarrow> kept_for_earlier db d hit | None \<Rightarrow> False))"

definition chunk_visible_to :: "peers_db \<Rightarrow> hash \<Rightarrow> audience \<Rightarrow> bool" where
  "chunk_visible_to db h = visible_to db (uses_chunk (a_index db) h)"

definition content_visible_to :: "peers_db \<Rightarrow> hash \<Rightarrow> audience \<Rightarrow> bool" where
  "content_visible_to db h = visible_to db (\<lambda>f. f_hash f = h)"

definition shared_content_reachable :: "peers_db \<Rightarrow> hash \<Rightarrow> device_id \<Rightarrow> bool" where
  "shared_content_reachable db h d \<longleftrightarrow>
     list_ex (\<lambda>f. f_hash f = h \<and> f_scope f = None \<and> f_deleted f = None \<and> shared_with db (f_path f) (Some d))
       (files (a_index db))"

definition shared_chunk_reachable :: "peers_db \<Rightarrow> hash \<Rightarrow> device_id \<Rightarrow> bool" where
  "shared_chunk_reachable db h d \<longleftrightarrow>
     list_ex (\<lambda>f. uses_chunk (a_index db) h f \<and> f_scope f = None \<and> f_deleted f = None
         \<and> shared_with db (f_path f) (Some d)) (files (a_index db))"

subsection \<open>Which devices another one was before\<close>

definition chain_of :: "(device_id \<times> int \<times> device_id option) list \<Rightarrow> (device_id \<times> device_id) set" where
  "chain_of chain = {(i, at). \<exists>paired. (i, paired, Some at) \<in> set chain}"

lemma reach_fold_adds:
  assumes "fold (reach_step d at) ls (r, e) = (r', e')"
  shows "\<exists>new. e' = e @ new \<and> r' = rev (map fst new) @ r
    \<and> (\<forall>(i, p) \<in> set new. (i, p, Some at) \<in> set ls \<and> i \<noteq> d)
    \<and> (\<forall>i p. (i, p, Some at) \<in> set ls \<longrightarrow> i \<noteq> d \<longrightarrow> i \<in> fst ` set e')
    \<and> (distinct (map fst e) \<longrightarrow> distinct (map fst e'))"
  using assms
proof (induction ls arbitrary: r e)
  case (Cons l ls)
  obtain i p to where l: "l = (i, p, to)" by (cases l) auto
  show ?case
  proof (cases "to = Some at \<and> i \<noteq> d \<and> \<not> list_ex (\<lambda>(x, _). x = i) e")
    case True
    then have "fold (reach_step d at) ls (i # r, e @ [(i, p)]) = (r', e')"
      using Cons.prems by (simp add: l reach_step_def)
    from Cons.IH [OF this] obtain new where new: "e' = (e @ [(i, p)]) @ new" "r' = rev (map fst new) @ i # r"
      "\<forall>(i, p) \<in> set new. (i, p, Some at) \<in> set ls \<and> i \<noteq> d"
      "\<forall>i p. (i, p, Some at) \<in> set ls \<longrightarrow> i \<noteq> d \<longrightarrow> i \<in> fst ` set e'"
      "distinct (map fst (e @ [(i, p)])) \<longrightarrow> distinct (map fst e')" by blast
    have "distinct (map fst e) \<longrightarrow> distinct (map fst (e @ [(i, p)]))" using True by (force simp: list_ex_iff)
    then show ?thesis using True new by (intro exI [of _ "(i, p) # new"]) (auto simp: l image_iff)
  next
    case False
    then have "reach_step d at l (r, e) = (r, e)" by (auto simp: l reach_step_def)
    then have "fold (reach_step d at) ls (r, e) = (r', e')"
      using Cons.prems by simp
    from Cons.IH [OF this] obtain new where new: "e' = e @ new" "r' = rev (map fst new) @ r"
      "\<forall>(i, p) \<in> set new. (i, p, Some at) \<in> set ls \<and> i \<noteq> d"
      "\<forall>i p. (i, p, Some at) \<in> set ls \<longrightarrow> i \<noteq> d \<longrightarrow> i \<in> fst ` set e'"
      "distinct (map fst e) \<longrightarrow> distinct (map fst e')" by blast
    have "to = Some at \<longrightarrow> i \<noteq> d \<longrightarrow> i \<in> fst ` set e'"
      using False by (force simp: list_ex_iff new(1))
    then show ?thesis using new by (intro exI [of _ new]) (auto simp: l)
  qed
qed simp

lemma earlier_loop_sound:
  "fst ` set e \<subseteq> S \<Longrightarrow> set r \<subseteq> insert d S \<Longrightarrow>
   (\<And>i a. (i, a) \<in> chain_of chain \<Longrightarrow> a \<in> insert d S \<Longrightarrow> i \<noteq> d \<Longrightarrow> i \<in> S) \<Longrightarrow>
   fst ` set (earlier_loop chain d r e) \<subseteq> S"
proof (induction chain d r e rule: earlier_loop.induct)
  case (2 chain d at r e)
  obtain r' e' where f: "fold (reach_step d at) chain (r, e) = (r', e')" by fastforce
  from reach_fold_adds [OF f] obtain new where new: "e' = e @ new" "r' = rev (map fst new) @ r"
    "\<forall>(i, p) \<in> set new. (i, p, Some at) \<in> set chain \<and> i \<noteq> d" by blast
  have "fst ` set new \<subseteq> S" using new(3) 2(3,4) by (fastforce simp: chain_of_def)
  then have "fst ` set e' \<subseteq> S" and "set r' \<subseteq> insert d S" using 2(2,3) by (auto simp: new)
  then show ?case using 2(1) [OF f [symmetric]] 2(4) by (simp add: f)
qed simp

lemma earlier_loop_closed:
  assumes "\<And>a i. a \<in> insert d (fst ` set e) \<Longrightarrow> a \<notin> set r \<Longrightarrow> (i, a) \<in> chain_of chain \<Longrightarrow> i \<noteq> d \<Longrightarrow>
      i \<in> fst ` set e"
    and "a \<in> insert d (fst ` set (earlier_loop chain d r e))" and "(i, a) \<in> chain_of chain" and "i \<noteq> d"
  shows "i \<in> fst ` set (earlier_loop chain d r e)"
  using assms
proof (induction chain d r e arbitrary: i a rule: earlier_loop.induct)
  case (2 chain d at r e)
  obtain r' e' where f: "fold (reach_step d at) chain (r, e) = (r', e')" by fastforce
  from reach_fold_adds [OF f] obtain new where new: "e' = e @ new" "r' = rev (map fst new) @ r"
    "\<forall>i p. (i, p, Some at) \<in> set chain \<longrightarrow> i \<noteq> d \<longrightarrow> i \<in> fst ` set e'" by blast
  have "j \<in> fst ` set e'"
    if "b \<in> insert d (fst ` set e')" "b \<notin> set r'" "(j, b) \<in> chain_of chain" "j \<noteq> d" for b j
  proof (cases "b = at")
    case True
    then show ?thesis using new(3) that(3,4) by (auto simp: chain_of_def)
  next
    case False
    have "b \<in> insert d (fst ` set e)" and "b \<notin> set (at # r)"
      using that(1,2) False by (auto simp: new(1,2))
    from 2(2) [OF this that(3,4)] show ?thesis by (auto simp: new(1))
  qed
  then show ?case using 2(1) [OF f [symmetric]] 2(3-) by (simp add: f)
qed simp

lemma earlier_loop_distinct: "distinct (map fst e) \<Longrightarrow> distinct (map fst (earlier_loop chain d r e))"
proof (induction chain d r e rule: earlier_loop.induct)
  case (2 chain d at r e)
  obtain r' e' where f: "fold (reach_step d at) chain (r, e) = (r', e')" by fastforce
  from reach_fold_adds [OF f] have "distinct (map fst e')" using 2(2) by blast
  then show ?case using 2(1) [OF f [symmetric]] by (simp add: f)
qed simp

lemma earlier_loop_reaches:
  "fst ` set (earlier_loop chain d [d] []) = {i. i \<noteq> d \<and> (i, d) \<in> (chain_of chain)\<^sup>+}" (is "?E = ?S")
proof
  show "?E \<subseteq> ?S"
    by (rule earlier_loop_sound) (auto intro: trancl_into_trancl2)
  have closed: "i \<in> ?E" if "a \<in> insert d ?E" "(i, a) \<in> chain_of chain" "i \<noteq> d" for a i
    by (rule earlier_loop_closed [OF _ that]) auto
  have "i \<in> insert d ?E" if "(i, d) \<in> (chain_of chain)\<^sup>+" for i
    using that
  proof (induction rule: converse_trancl_induct)
    case (base y)
    then show ?case using closed [of d y] by blast
  next
    case (step y z)
    then show ?case using closed [of z y] by blast
  qed
  then show "?S \<subseteq> ?E" by blast
qed

lemma earlier_loop_peers:
  "set (earlier_loop chain d r e) \<subseteq> set e \<union> {(i, p). \<exists>to. (i, p, to) \<in> set chain}"
proof (induction chain d r e rule: earlier_loop.induct)
  case (2 chain d at r e)
  obtain r' e' where f: "fold (reach_step d at) chain (r, e) = (r', e')" by fastforce
  from reach_fold_adds [OF f] have "set e' \<subseteq> set e \<union> {(i, p). \<exists>to. (i, p, to) \<in> set chain}" by fastforce
  then show ?case using 2(1) [OF f [symmetric]] by (auto simp: f)
qed simp

lemma became_peer: "became db x = Some y \<Longrightarrow> x \<in> tp_id ` set (a_peers db)"
  by (auto simp: became_def find_Some_iff image_iff split: option.splits)

text \<open>C32: the search for the devices another one was before it was set up again ends, whatever
  the pairings are -- also where two devices are each said to have become the other -- and finds
  each of them once: those from which following who became whom leads to it, but not itself. They
  come latest paired first.\<close>

theorem earlier_selves_are_the_chain:
  "set (earlier_selves db d) = {e. e \<noteq> d \<and> (e, d) \<in> {(x, y). became db x = Some y}\<^sup>+}
   \<and> distinct (earlier_selves db d)
   \<and> (\<exists>es. earlier_selves db d = map tp_id es \<and> set es \<subseteq> set (a_peers db)
        \<and> sorted_wrt (\<lambda>p q. tp_paired p \<ge> tp_paired q) es)"
proof -
  let ?chain = "map (\<lambda>p. (tp_id p, tp_paired p, became db (tp_id p))) (a_peers db)"
  define found where "found = earlier_loop ?chain d [d] []"
  let ?found = "sort_key (\<lambda>(_, paired). - paired) found"
  have es: "earlier_selves db d = map fst ?found" by (simp add: earlier_selves_def found_def)
  have "chain_of ?chain = {(x, y). became db x = Some y}"
    using became_peer by (force simp: chain_of_def)
  then have reach: "set (earlier_selves db d) = {e. e \<noteq> d \<and> (e, d) \<in> {(x, y). became db x = Some y}\<^sup>+}"
    using earlier_loop_reaches [of ?chain d, folded found_def] by (simp add: es)
  have "distinct (map fst found)" unfolding found_def by (rule earlier_loop_distinct) simp
  then have dist: "distinct (earlier_selves db d)" unfolding es by (simp add: distinct_map)
  define peer where "peer = (\<lambda>(i, p). SOME q. q \<in> set (a_peers db) \<and> tp_id q = i \<and> tp_paired q = p)"
  have peer: "peer x \<in> set (a_peers db) \<and> (tp_id (peer x), tp_paired (peer x)) = x" if "x \<in> set ?found" for x
  proof -
    from that earlier_loop_peers [of ?chain d "[d]" "[]", folded found_def]
    have "\<exists>q. q \<in> set (a_peers db) \<and> tp_id q = fst x \<and> tp_paired q = snd x" by fastforce
    from someI_ex [OF this] show ?thesis by (simp add: peer_def split_beta prod_eq_iff)
  qed
  have "sorted_wrt (\<lambda>x y. snd x \<ge> snd y) ?found"
    using sorted_sort_key [of "\<lambda>(_, paired). - paired" found]
    by (simp add: sorted_map split_beta del: sorted_sort_key)
  then have "sorted_wrt (\<lambda>x y. tp_paired (peer x) \<ge> tp_paired (peer y)) ?found"
    by (rule sorted_wrt_mono_rel [rotated]) (use peer in \<open>fastforce simp: prod_eq_iff\<close>)
  then have "sorted_wrt (\<lambda>p q. tp_paired p \<ge> tp_paired q) (map peer ?found)" by (simp add: sorted_wrt_map)
  moreover have "map tp_id (map peer ?found) = earlier_selves db d"
    unfolding es list.map_comp by (rule map_cong [OF refl]) (use peer in \<open>fastforce simp: prod_eq_iff\<close>)
  moreover have "set (map peer ?found) \<subseteq> set (a_peers db)" using peer by auto
  ultimately show ?thesis using reach dist by metis
qed

subsection \<open>The tables and the rules\<close>

lemma shared_with_replaced:
  assumes "bm_ok (rule_map rs)"
  shows "shared_with (replace_shares rs db) p device \<longleftrightarrow>
    (\<forall>(g, m) \<in> set (rule_map rs). covers g p \<longrightarrow> (\<exists>d. device = Some d \<and> d \<in> set m))"
proof -
  have under: "take (length g + 1) p = g @ ''/'' \<longleftrightarrow> beneath p g" for g
    by (auto simp: beneath_iff) (metis append_take_drop_id append_assoc append_Cons append_Nil)
  have tables: "set (a_shares (replace_shares rs db)) = fst ` set (rule_map rs)"
    "set (a_members (replace_shares rs db)) = {(g, d). \<exists>m. (g, m) \<in> set (rule_map rs) \<and> d \<in> set m}"
    by (auto simp: replace_shares_def)
  have one: "m = n" if "(g, m) \<in> set (rule_map rs)" "(g, n) \<in> set (rule_map rs)" for g m n
    using that bm_get_mem [OF assms] by (metis option.inject)
  have "list_ex (\<lambda>(f, d). f = g \<and> Some d = device) (a_members (replace_shares rs db)) \<longleftrightarrow>
      (\<exists>d. device = Some d \<and> d \<in> set m)" if "(g, m) \<in> set (rule_map rs)" for g m
    unfolding list_ex_iff tables using that one [OF that] by blast
  then show ?thesis
    unfolding shared_with_def list_ex_iff [of _ "a_shares _"] tables under covers_def by auto
qed

definition rules_read :: "(string \<times> device_id list) list \<Rightarrow> (string \<times> device_id) list \<Rightarrow> (string \<times> device_id list) list" where
  "rules_read m members = fold (\<lambda>(folder, d) m. case bm_get m folder of
           Some ds \<Rightarrow> bm_insert folder (bs_insert d ds) m | None \<Rightarrow> m) members m"

lemma rules_read_get:
  "bm_ok m \<Longrightarrow> bm_ok (rules_read m members) \<and> bm_get (rules_read m members) f =
     map_option (\<lambda>ds. fold bs_insert (map snd (filter (\<lambda>(g, _). g = f) members)) ds) (bm_get m f)"
proof (induction members arbitrary: m)
  case Nil
  then show ?case by (simp add: rules_read_def option.map_ident)
next
  case (Cons gd members)
  obtain g d where gd: "gd = (g, d)" by (cases gd)
  have step: "rules_read m ((g, d) # members) = rules_read
      (case bm_get m g of Some ds \<Rightarrow> bm_insert g (bs_insert d ds) m | None \<Rightarrow> m) members"
    by (simp add: rules_read_def)
  show ?case
    using Cons.prems
    by (cases "bm_get m g") (auto simp: step gd Cons.IH bm_get_insert bm_ok_insert option.map_comp o_def)
qed

lemma fold_insert_empty:
  "bm_ok m \<Longrightarrow> bm_ok (fold (\<lambda>f. bm_insert f []) fs m)
   \<and> bm_get (fold (\<lambda>f. bm_insert f []) fs m) k = (if k \<in> set fs then Some [] else bm_get m k)"
  by (induction fs arbitrary: m) (auto simp: bm_ok_insert bm_get_insert)

lemma shares_replaced:
  assumes "bm_ok (rule_map rs)" and "\<forall>(g, m) \<in> set (rule_map rs). bs_ok m"
  shows "shares (replace_shares rs db) = rs"
proof -
  let ?m = "rule_map rs"
  let ?members = "concat (map (\<lambda>(folder, members). map (Pair folder) members) ?m)"
  let ?read = "rules_read (fold (\<lambda>f. bm_insert f []) (map fst ?m) []) ?members"
  have empty: "bm_ok (fold (\<lambda>f. bm_insert f ([] :: device_id list)) (map fst ?m) [])"
    using fold_insert_empty [OF bm.ok_emp] by blast
  have keys: "bm_get (fold (\<lambda>f. bm_insert f ([] :: device_id list)) (map fst ?m) []) k = (if k \<in> fst ` set ?m then Some [] else None)" for k
  proof -
    have "bm_get ([] :: (string \<times> device_id list) list) k = None" by (simp add: bm_get_def)
    then show ?thesis by (simp add: fold_insert_empty [OF bm.ok_emp, THEN conjunct2])
  qed
  have theirs: "map snd (filter (\<lambda>(g, _). g = k) (concat (map (\<lambda>(f, ms). map (Pair f) ms) xs))) =
      (case map_of xs k of Some ms \<Rightarrow> ms | None \<Rightarrow> [])" if "distinct (map fst xs)" for xs k
    using that
  proof (induction xs)
    case (Cons x xs)
    obtain f ms where x: "x = (f, ms)" by (cases x)
    have "map_of xs f = None" using Cons.prems by (auto simp: x map_of_eq_None_iff)
    then show ?case using Cons by (auto simp: x filter_map o_def filter_empty_conv)
  qed simp
  have "bm_get ?read k = bm_get ?m k" for k
  proof (cases "bm_get ?m k")
    case None
    then have "k \<notin> fst ` set ?m" by (simp add: bm_get_def map_of_eq_None_iff)
    then show ?thesis using rules_read_get [OF empty, of ?members k] None by (simp add: keys)
  next
    case (Some ms)
    then have mem: "(k, ms) \<in> set ?m" by (rule bm_mem_get)
    then have "bs_collect ms = ms" and "k \<in> fst ` set ?m"
      using assms(2) by (auto intro: bs_collect_sorted rev_image_eqI)
    moreover have "map snd (filter (\<lambda>(g, _). g = k) ?members) = ms"
      using theirs [OF bm_ok_distinct [OF assms(1)], of k] Some by (simp add: bm_get_def)
    ultimately show ?thesis
      using rules_read_get [OF empty, of ?members k] Some by (simp add: keys bs_collect_def)
  qed
  then have "?read = ?m" using bm_ext rules_read_get [OF empty] assms(1) by metis
  then show ?thesis by (cases rs) (simp add: shares_def replace_shares_def rules_read_def)
qed

lemma allows_all:
  assumes "rules_flat rs"
  shows "allows rs p d \<longleftrightarrow> (\<forall>(g, m) \<in> set (rule_map rs). covers g p \<longrightarrow> d \<in> set m)"
proof (cases "covering rs p")
  case None
  then show ?thesis using covering_None [of rs p] by (auto simp: allows_def)
next
  case (Some gm)
  obtain g m where gm: "gm = (g, m)" by (cases gm)
  note hit = covering_Some [OF Some [unfolded gm]]
  have "d \<in> set n" if "d \<in> set m" "(h, n) \<in> set (rule_map rs)" "covers h p" for h n
    using flat_unique [OF assms that(2) conjunct1 [OF hit] that(3) conjunct2 [OF hit]] that(1) by blast
  then show ?thesis using hit by (auto simp: allows_def Some gm)
qed

definition row_listing :: "peers_db \<Rightarrow> device_id \<Rightarrow> file_version set" where
  \<comment> \<open>the versions of the shared area among those a device is shown\<close>
  "row_listing db d = {v \<in> set (versions_for db (ToDevice d)). area v = Shared}"

lemma row_listing_eq:
  "row_listing db d =
     row_to_version ` {f \<in> set (files (a_index db)). f_scope f = None \<and> shared_with db (f_path f) (Some d)}"
  by (auto simp: row_listing_def versions_for_def Let_def in_order_def vault_area_def in_area_def
      row_to_version_def image_iff split: if_splits)

text \<open>C31: the share tables implement the rules they are built from, where the rules do not nest:
  the condition every query puts on a path holds for a device exactly when the rules allow it the
  path, and for a device that is not known exactly when no rule covers the path; the tables read
  back as the rules; and of the shared area a device is shown just the rows the rules allow. Where
  one rule's folder lies in another's the two disagree (\<open>nested_rules_are_read_differently\<close>).\<close>

theorem share_tables_implement_rules:
  assumes "rules_flat rs" and "\<forall>(g, m) \<in> set (rule_map rs). bs_ok m"
  shows "(shared_with (replace_shares rs db) p (Some d) \<longleftrightarrow> allows rs p d)
    \<and> (shared_with (replace_shares rs db) p None \<longleftrightarrow> covering rs p = None)
    \<and> shares (replace_shares rs db) = rs
    \<and> row_listing (replace_shares rs db) d =
        row_to_version ` {f \<in> set (files (a_index db)). f_scope f = None \<and> allows rs (f_path f) d}"
proof -
  have ok: "bm_ok (rule_map rs)" using assms(1) by (simp add: rules_flat_def)
  have allows: "shared_with (replace_shares rs db) p (Some d) \<longleftrightarrow> allows rs p d" for p
    by (simp add: shared_with_replaced [OF ok] allows_all [OF assms(1)])
  moreover have "shared_with (replace_shares rs db) p None \<longleftrightarrow> covering rs p = None"
    by (simp add: shared_with_replaced [OF ok] covering_None)
  moreover have "a_index (replace_shares rs db) = a_index db" by (simp add: replace_shares_def)
  ultimately show ?thesis by (simp add: shares_replaced [OF ok assms(2)] row_listing_eq)
qed

subsection \<open>What is entitled to what\<close>

definition entitled :: "peers_db \<Rightarrow> audience \<Rightarrow> file_row \<Rightarrow> bool" where
  \<comment> \<open>the specification: whether an audience may know of a row and have its bytes\<close>
  "entitled db a f =
     (case a of
        Ourselves \<Rightarrow> True
      | Unplaced \<Rightarrow> f_scope f = None \<and> shared_with db (f_path f) None
      | ToGuest d \<Rightarrow> f_scope f \<in> {Some d, Some (person_or_self db d)}
      | ToDevice d \<Rightarrow>
          (case f_scope f of
             None \<Rightarrow> shared_with db (f_path f) (Some d)
           | Some owner \<Rightarrow> owner = d \<or> (owner = me (a_index db) \<and> is_holder db d)
               \<or> (owner \<in> set (earlier_selves db d) \<and> f_held f)))"

lemma visible_to_iff:
  "a \<noteq> Ourselves \<Longrightarrow> visible_to db hit a \<longleftrightarrow> (\<exists>f \<in> set (files (a_index db)). hit f \<and> entitled db a f)"
proof (cases a)
  case (ToDevice d)
  have "entitled db a f \<longleftrightarrow> visible_row db (Some d) f \<or> (\<exists>e \<in> set (earlier_selves db d). f_scope f = Some e \<and> f_held f)" for f
    by (cases "f_scope f") (auto simp: ToDevice entitled_def visible_row_def)
  then show ?thesis
    by (auto simp: ToDevice visible_to_def kept_for_earlier_def list_ex_iff audience_device_def)
next
  case Unplaced
  then show ?thesis
    by (auto simp: visible_to_def visible_row_def entitled_def list_ex_iff audience_device_def)
qed (auto simp: visible_to_def entitled_def list_ex_iff)

lemma in_area_fields: "path (in_area v r) = path v" "content (in_area v r) = content v"
  by (simp_all add: in_area_def)

lemma listed_row:
  assumes "v \<in> set (versions_for db a)"
  shows "\<exists>f \<in> set (files (a_index db)). entitled db a f \<and> (v = row_to_version f \<or> (\<exists>r. v = in_area (row_to_version f) r))"
proof (cases a)
  case Ourselves
  then show ?thesis using assms by (auto simp: versions_for_def entitled_def in_order_def)
next
  case (ToDevice d)
  have "entitled db a f"
    if "f_scope f = None \<and> shared_with db (f_path f) (Some d) \<or> f_scope f = Some d
      \<or> f_scope f = Some (me (a_index db)) \<and> is_holder db d" for f
    using that by (auto simp: ToDevice entitled_def)
  then show ?thesis using assms by (auto simp: ToDevice versions_for_def Let_def in_order_def split: if_splits)
next
  case (ToGuest d)
  have "entitled db a f" if "f_scope f = Some d \<or> f_scope f = Some (person_or_self db d)" for f
    using that by (auto simp: ToGuest entitled_def)
  then show ?thesis using assms by (auto simp: ToGuest versions_for_def Let_def in_order_def)
next
  case Unplaced
  then show ?thesis using assms by (auto simp: versions_for_def Let_def entitled_def in_order_def)
qed

lemma listed_is_entitled:
  assumes "v \<in> set (versions_for db a)"
  shows "\<exists>f \<in> set (files (a_index db)). entitled db a f \<and> path v = f_path f \<and> content v = content (row_to_version f)"
proof -
  have "path (row_to_version f) = f_path f" for f by (simp add: row_to_version_def)
  then show ?thesis using listed_row [OF assms] by (auto simp: in_area_fields)
qed

definition shown_row :: "peers_db \<Rightarrow> audience \<Rightarrow> file_row \<Rightarrow> bool" where
  \<comment> \<open>which of the rows an audience is entitled to its list shows\<close>
  "shown_row db a f \<longleftrightarrow>
     (case a of
        ToDevice d \<Rightarrow> f_scope f = None \<or> f_scope f = Some d
          \<or> (f_scope f = Some (me (a_index db)) \<and> is_holder db d \<and> offered_to_holder db d f)
      | ToGuest d \<Rightarrow> (f_scope f = Some d \<and> \<not> f_held f) \<or> (f_scope f = Some (person_or_self db d) \<and> f_held f)
      | _ \<Rightarrow> True)"

lemma listed_exactly:
  "(\<lambda>v. (path v, content v)) ` set (versions_for db a)
     = (\<lambda>f. (f_path f, content (row_to_version f))) ` {f \<in> set (files (a_index db)). entitled db a f \<and> shown_row db a f}"
proof -
  have row: "path (row_to_version f) = f_path f" for f by (simp add: row_to_version_def)
  show ?thesis
  proof (cases a)
    case (ToDevice d)
    have "{f \<in> set (files (a_index db)). entitled db a f \<and> shown_row db a f}
        = {f \<in> set (files (a_index db)). f_scope f = None \<and> shared_with db (f_path f) (Some d)}
          \<union> {f \<in> set (files (a_index db)). f_scope f = Some d}
          \<union> {f \<in> set (files (a_index db)). is_holder db d \<and> f_scope f = Some (me (a_index db)) \<and> offered_to_holder db d f}"
      unfolding set_eq_iff mem_Collect_eq Un_iff
    proof
      fix f
      show "(f \<in> set (files (a_index db)) \<and> entitled db a f \<and> shown_row db a f) \<longleftrightarrow>
          (f \<in> set (files (a_index db)) \<and> f_scope f = None \<and> shared_with db (f_path f) (Some d)
            \<or> f \<in> set (files (a_index db)) \<and> f_scope f = Some d)
          \<or> f \<in> set (files (a_index db)) \<and> is_holder db d \<and> f_scope f = Some (me (a_index db)) \<and> offered_to_holder db d f"
        by (cases "f_scope f") (auto simp: ToDevice entitled_def shown_row_def)
    qed
    moreover have "set (versions_for db a)
        = row_to_version ` {f \<in> set (files (a_index db)). f_scope f = None \<and> shared_with db (f_path f) (Some d)}
          \<union> (\<lambda>f. in_area (row_to_version f) (vault_area f)) ` {f \<in> set (files (a_index db)). f_scope f = Some d}
          \<union> (\<lambda>f. in_area (row_to_version f) Hold)
              ` {f \<in> set (files (a_index db)). is_holder db d \<and> f_scope f = Some (me (a_index db)) \<and> offered_to_holder db d f}"
      by (auto simp: ToDevice versions_for_def Let_def in_order_def)
    ultimately show ?thesis by (simp add: image_Un image_image in_area_fields row)
  next
    case (ToGuest d)
    have "{f \<in> set (files (a_index db)). entitled db a f \<and> shown_row db a f}
        = {f \<in> set (files (a_index db)). (f_scope f = Some d \<and> \<not> f_held f) \<or> (f_scope f = Some (person_or_self db d) \<and> f_held f)}"
      by (auto simp: ToGuest entitled_def shown_row_def)
    then show ?thesis by (simp add: ToGuest versions_for_def Let_def in_order_def image_image in_area_fields row)
  next
    case Unplaced
    have "{f \<in> set (files (a_index db)). entitled db a f \<and> shown_row db a f}
        = {f \<in> set (files (a_index db)). f_scope f = None \<and> shared_with db (f_path f) None}"
      by (auto simp: Unplaced entitled_def shown_row_def)
    then show ?thesis by (simp add: Unplaced versions_for_def Let_def in_order_def image_image row)
  next
    case Ourselves
    then show ?thesis by (simp add: versions_for_def Let_def in_order_def image_image row entitled_def shown_row_def)
  qed
qed

text \<open>C26: what another device may fetch is decided by one entitlement, and what it is listed is just
  the part of it \<open>shown_row\<close> names. A device may have a content, or a chunk, exactly when some row it is
  entitled to has that content, or uses that chunk. A row of a vault is for the device whose vault it
  is, for one this device lets hold its own vault, and for the device its owner has become -- and for
  a guest only its own and its person's. The list has exactly the paths and contents of those rows,
  without three kinds: the own vault's files towards a device let hold it that is not offered them
  (one that keeps only the backups may fetch the rest, and is not listed it), the files kept for a
  device's earlier selves, and for a guest the kept ones under its own id and the others under its
  person's, where the two ids differ. So what it is shown it may fetch, not the other way round.\<close>

theorem one_entitlement:
  assumes "a \<noteq> Ourselves"
  shows "(content_visible_to db h a \<longleftrightarrow> (\<exists>f \<in> set (files (a_index db)). f_hash f = h \<and> entitled db a f))
    \<and> (chunk_visible_to db h a \<longleftrightarrow>
         (\<exists>f \<in> set (files (a_index db)). (f_id f, h) \<in> set (links (a_index db)) \<and> entitled db a f))
    \<and> (\<lambda>v. (path v, content v)) ` set (versions_for db a)
        = (\<lambda>f. (f_path f, content (row_to_version f)))
            ` {f \<in> set (files (a_index db)). entitled db a f \<and> shown_row db a f}
    \<and> (\<forall>v \<in> set (versions_for db a). \<exists>f \<in> set (files (a_index db)).
         entitled db a f \<and> path v = f_path f \<and> content v = content (row_to_version f))
    \<and> (\<forall>v \<in> set (versions_for db a). case content v of Deleted \<Rightarrow> True | File c _ \<Rightarrow> content_visible_to db c a)"
proof -
  have "uses_chunk (a_index db) h f \<longleftrightarrow> (f_id f, h) \<in> set (links (a_index db))" for f
    by (auto simp: uses_chunk_def list_ex_iff)
  then have chunk: "chunk_visible_to db h a \<longleftrightarrow>
      (\<exists>f \<in> set (files (a_index db)). (f_id f, h) \<in> set (links (a_index db)) \<and> entitled db a f)"
    by (simp add: chunk_visible_to_def visible_to_iff [OF assms])
  have cont: "content_visible_to db h a \<longleftrightarrow> (\<exists>f \<in> set (files (a_index db)). f_hash f = h \<and> entitled db a f)" for h
    by (simp add: content_visible_to_def visible_to_iff [OF assms])
  have "case content v of Deleted \<Rightarrow> True | File c _ \<Rightarrow> content_visible_to db c a"
    if "v \<in> set (versions_for db a)" for v
    using listed_is_entitled [OF that] by (auto simp: cont row_to_version_def split: content.splits if_splits)
  then show ?thesis using chunk cont listed_is_entitled listed_exactly by blast
qed

subsection \<open>A store and its devices\<close>

definition plain_row :: "nat \<Rightarrow> string \<Rightarrow> device_id option \<Rightarrow> bool \<Rightarrow> file_row" where
  "plain_row n p scope held =
     \<lparr>f_id = n, f_path = p, f_size = 1, f_hash = [of_nat n], f_mtime = 0, f_updated = 0, f_deleted = None,
      f_vector = vv_new, f_by = DeviceId [0], f_here = True, f_touched = 0, f_wanted = False,
      f_scope = scope, f_held = held\<rparr>"

definition phone_named :: "nat \<Rightarrow> string \<Rightarrow> int \<Rightarrow> trusted_peer" where
  "phone_named n name paired =
     \<lparr>tp_id = DeviceId [of_nat n], tp_fingerprint = [of_nat n], tp_name = name, tp_paired = paired,
      tp_seen = Some (paired + 1), tp_relation = Own\<rparr>"

definition home_db :: "string \<Rightarrow> peers_db" where
  \<comment> \<open>a computer \<open>0\<close> that keeps a file for the phone \<open>1\<close>; a phone \<open>2\<close> of the given name is paired
    after it; \<open>3\<close> keeps this computer's backups\<close>
  "home_db name =
     \<lparr>a_index = (index_new (DeviceId [0]))\<lparr>files := [plain_row 1 ''Family/beach.jpg'' None False,
          plain_row 2 ''letter'' (Some (DeviceId [2])) False, plain_row 3 ''diary'' (Some (DeviceId [1])) True,
          plain_row 4 ''accounts'' (Some (DeviceId [0])) False]\<rparr>,
      a_peers = [phone_named 1 ''Galaxy'' 10, phone_named 2 name 20, phone_named 3 ''Attic'' 5],
      a_kind = (\<lambda>_. Some ''phone''), a_install = (\<lambda>_. None), a_said = (\<lambda>_. Unsaid), a_person = (\<lambda>_. None),
      a_holders = [(DeviceId [3], False)], a_outside = True, a_shares = [], a_members = []\<rparr>"

theorem share_tables_implement_rules_witness:
  "shared_with (replace_shares (Rules [(''Family'', [DeviceId [2]])]) (home_db ''S23'')) ''Family/beach.jpg'' (Some (DeviceId [2]))
   \<and> \<not> shared_with (replace_shares (Rules [(''Family'', [DeviceId [2]])]) (home_db ''S23'')) ''Family/beach.jpg'' (Some (DeviceId [3]))
   \<and> shares (replace_shares (Rules [(''Family'', [DeviceId [2]])]) (home_db ''S23'')) = Rules [(''Family'', [DeviceId [2]])]"
proof -
  let ?rs = "Rules [(''Family'', [DeviceId [2]])]"
  have "rules_flat ?rs" and "\<forall>(g, m) \<in> set (rule_map ?rs). bs_ok m" by code_simp+
  note t = share_tables_implement_rules [OF this, of "home_db ''S23''" "''Family/beach.jpg''"]
  have "allows ?rs ''Family/beach.jpg'' (DeviceId [2])" and "\<not> allows ?rs ''Family/beach.jpg'' (DeviceId [3])"
    by code_simp+
  then show ?thesis using t [of "DeviceId [2]"] t [of "DeviceId [3]"] by blast
qed

theorem one_entitlement_witness:
  "content_visible_to (home_db ''Galaxy'') [3] (ToDevice (DeviceId [2]))
   \<and> \<not> content_visible_to (home_db ''Galaxy'') [2] (ToDevice (DeviceId [1]))
   \<and> \<not> content_visible_to (home_db ''Galaxy'') [1] (ToGuest (DeviceId [2]))"
proof -
  note t = one_entitlement [THEN conjunct1, of _ "home_db ''Galaxy''"]
  have "list_ex (\<lambda>f. f_hash f = [3] \<and> entitled (home_db ''Galaxy'') (ToDevice (DeviceId [2])) f)
      (files (a_index (home_db ''Galaxy'')))" by code_simp
  moreover have "\<not> list_ex (\<lambda>f. f_hash f = [2] \<and> entitled (home_db ''Galaxy'') (ToDevice (DeviceId [1])) f)
      (files (a_index (home_db ''Galaxy'')))" by code_simp
  moreover have "\<not> list_ex (\<lambda>f. f_hash f = [1] \<and> entitled (home_db ''Galaxy'') (ToGuest (DeviceId [2])) f)
      (files (a_index (home_db ''Galaxy'')))" by code_simp
  ultimately show ?thesis
    unfolding t [of "ToDevice _", OF audience.distinct(2)] t [of "ToGuest _", OF audience.distinct(4)]
    by (simp add: list_ex_iff)
qed

text \<open>What a device is called decides what it may have: named as an older phone of the same kind
  is, a phone paired later may fetch what is kept for the older one.\<close>

lemma name_gives_kept_files:
  "content_visible_to (home_db ''Galaxy'') [3] (ToDevice (DeviceId [2]))
   \<and> \<not> content_visible_to (home_db ''S23'') [3] (ToDevice (DeviceId [2]))"
  by code_simp

text \<open>A device let hold only the backups is shown none of the vault's own files, but may fetch them.\<close>

lemma backups_only_holder_may_fetch_the_vault:
  "versions_for (home_db ''S23'') (ToDevice (DeviceId [3])) = [row_to_version (plain_row 1 ''Family/beach.jpg'' None False)]
   \<and> content_visible_to (home_db ''S23'') [4] (ToDevice (DeviceId [3]))"
  by code_simp

text \<open>Where rules nest, the tables apply both and \<open>allows\<close> only the first.\<close>

lemma nested_rules_are_read_differently:
  "allows (Rules [(''a'', [DeviceId [2]]), (''a/b'', [])]) ''a/b/c'' (DeviceId [2])
   \<and> \<not> shared_with (replace_shares (Rules [(''a'', [DeviceId [2]]), (''a/b'', [])]) (home_db ''S23'')) ''a/b/c'' (Some (DeviceId [2]))"
  by code_simp

end
