(* ===== verification/Store.thy ===== *)
theory Store imports Index
begin

section \<open>The store (\<open>crates/storage/src/store.rs\<close>, \<open>gc.rs\<close>, \<open>chunker.rs\<close>)\<close>

text \<open>
  The index, the chunk store beside it and the folder the store is attached to. A payload is
  kept as the plaintext it opens to: compressing and sealing it, and opening it again, are one
  another's inverses and are left out, but for the length a sealed payload has, which is a
  parameter, as are BLAKE3 and the cuts FastCDC makes. What a send's file or a file outside the
  folder would supply for a chunk is a map of the state. The activity log, which nothing here
  reads, is left out, and so are input and output errors.
\<close>

type_synonym blake3 = "bytes \<Rightarrow> hash"

record chunk_ref =
  ref_hash :: hash
  ref_offset :: nat
  ref_len :: nat

record manifest =
  m_hash :: hash
  m_size :: nat
  m_chunks :: "chunk_ref list"

definition piece :: "bytes \<Rightarrow> nat \<Rightarrow> nat \<Rightarrow> bytes" where
  "piece data off len = take len (drop off data)"

definition chunk_bytes :: "blake3 \<Rightarrow> (bytes \<Rightarrow> (nat \<times> nat) list) \<Rightarrow> bytes \<Rightarrow> manifest" where
  "chunk_bytes H cdc data =
     \<lparr>m_hash = H (concat (map (\<lambda>(off, len). piece data off len) (cdc data))),
      m_size = length data,
      m_chunks = map (\<lambda>(off, len). \<lparr>ref_hash = H (piece data off len), ref_offset = off, ref_len = len\<rparr>) (cdc data)\<rparr>"

record store =
  s_index :: index
  s_cas :: "hash \<Rightarrow> bytes option"
  s_tree :: "(string \<Rightarrow> bytes option) option"
  s_outside :: "hash \<Rightarrow> bytes option"
  s_new_private :: bool
  s_racy :: "string \<Rightarrow> bool"

datatype store_error =
    NotFound string
  | ChunkMissing hash
  | ChunkCorrupt hash
  | OnlyHolder string
  | NoOtherCopy string
  | OnlyAPhoneHasIt string

definition store_new :: "device_id \<Rightarrow> (string \<Rightarrow> bytes option) option \<Rightarrow> store" where
  "store_new d tree = \<lparr>s_index = index_new d, s_cas = (\<lambda>_. None), s_tree = tree,
     s_outside = (\<lambda>_. None), s_new_private = False, s_racy = (\<lambda>_. False)\<rparr>"

definition supplies :: "store \<Rightarrow> string \<Rightarrow> bool" where
  "supplies st p \<longleftrightarrow> (case s_tree st of None \<Rightarrow> False | Some tree \<Rightarrow> tree p \<noteq> None)"

definition cas_put :: "hash \<Rightarrow> bytes \<Rightarrow> store \<Rightarrow> store" where
  "cas_put h payload st =
     (if s_cas st h \<noteq> None then st else st\<lparr>s_cas := (s_cas st)(h \<mapsto> payload)\<rparr>)"

definition cas_remove :: "hash \<Rightarrow> store \<Rightarrow> store" where
  "cas_remove h st = st\<lparr>s_cas := (s_cas st)(h := None)\<rparr>"

subsection \<open>Reading\<close>

definition chunk_offset :: "index \<Rightarrow> nat \<Rightarrow> hash \<Rightarrow> nat" where
  \<comment> \<open>the sizes of the chunks before this one in its file\<close>
  "chunk_offset ix fid h =
     sum_list (map (\<lambda>h. case chunks ix h of Some c \<Rightarrow> c_size c | None \<Rightarrow> 0)
       (takeWhile (\<lambda>h'. h' \<noteq> h) (chunk_hashes_for ix fid)))"

definition locate_chunk :: "index \<Rightarrow> hash \<Rightarrow> (string \<times> nat \<times> nat) option" where
  \<comment> \<open>the query takes any one live file in the folder; here the first linked\<close>
  "locate_chunk ix h =
     (case find (\<lambda>(fid, h'). h' = h \<and> list_ex (\<lambda>f. f_id f = fid \<and> f_deleted f = None \<and> f_here f) (files ix))
         (links ix) of
        None \<Rightarrow> None
      | Some (fid, _) \<Rightarrow>
          (case (find (\<lambda>f. f_id f = fid) (files ix), chunks ix h) of
             (Some f, Some c) \<Rightarrow> Some (f_path f, chunk_offset ix fid h, c_size c)
           | _ \<Rightarrow> None))"

definition chunk_from_tree :: "blake3 \<Rightarrow> store \<Rightarrow> hash \<Rightarrow> bytes option" where
  "chunk_from_tree H st h =
     (case s_tree st of
        None \<Rightarrow> None
      | Some tree \<Rightarrow>
          (case locate_chunk (s_index st) h of
             None \<Rightarrow> None
           | Some (p, off, len) \<Rightarrow>
               (case tree p of
                  None \<Rightarrow> None
                | Some data \<Rightarrow>
                    (if off + len \<le> length data \<and> H (piece data off len) = h
                     then Some (piece data off len) else None))))"

definition chunk_from_outside :: "blake3 \<Rightarrow> store \<Rightarrow> hash \<Rightarrow> bytes option" where
  "chunk_from_outside H st h =
     (case s_outside st h of Some b \<Rightarrow> (if H b = h then Some b else None) | None \<Rightarrow> None)"

definition stored_chunk :: "blake3 \<Rightarrow> store \<Rightarrow> hash \<Rightarrow> store_error + bytes" where
  "stored_chunk H st h =
     (case s_cas st h of
        None \<Rightarrow> Inl (ChunkMissing h)
      | Some b \<Rightarrow> (if H b \<noteq> h then Inl (ChunkCorrupt h) else Inr b))"

definition read_chunk :: "blake3 \<Rightarrow> store \<Rightarrow> hash \<Rightarrow> store_error + bytes" where
  \<comment> \<open>the chunk store alone where it holds the chunk; else the folder, what lies outside it, and
    the chunk store for the error\<close>
  "read_chunk H st h =
     (if s_cas st h \<noteq> None then stored_chunk H st h
      else case chunk_from_tree H st h of
          Some b \<Rightarrow> Inr b
        | None \<Rightarrow> (case chunk_from_outside H st h of Some b \<Rightarrow> Inr b | None \<Rightarrow> stored_chunk H st h))"

fun read_chunks :: "blake3 \<Rightarrow> store \<Rightarrow> hash list \<Rightarrow> store_error + bytes" where
  "read_chunks H st [] = Inr []"
| "read_chunks H st (h # hs) =
     and_then (read_chunk H st h) (\<lambda>b. and_then (read_chunks H st hs) (\<lambda>rest. Inr (b @ rest)))"

definition read_row :: "blake3 \<Rightarrow> store \<Rightarrow> file_row \<Rightarrow> store_error + bytes" where
  "read_row H st f =
     and_then (read_chunks H st (chunk_hashes_for (s_index st) (f_id f)))
       (\<lambda>out. if H out \<noteq> f_hash f then Inl (ChunkCorrupt (f_hash f)) else Inr out)"

definition read_file :: "blake3 \<Rightarrow> store \<Rightarrow> string \<Rightarrow> store_error + bytes" where
  "read_file H st p =
     (case in_folder (s_index st) p of None \<Rightarrow> Inl (NotFound p) | Some f \<Rightarrow> read_row H st f)"

definition read_held :: "blake3 \<Rightarrow> store \<Rightarrow> device_id \<Rightarrow> string \<Rightarrow> store_error + bytes" where
  "read_held H st owner p =
     (case live_row_in (s_index st) p (Some owner) of
        None \<Rightarrow> Inl (NotFound p)
      | Some f \<Rightarrow> (if is_held (s_index st) p owner then read_row H st f else Inl (NotFound p)))"

definition has_chunk :: "blake3 \<Rightarrow> store \<Rightarrow> hash \<Rightarrow> bool" where
  "has_chunk H st h \<longleftrightarrow> has_chunk_row (s_index st) h
     \<and> (s_cas st h \<noteq> None \<or> chunk_from_tree H st h \<noteq> None \<or> chunk_from_outside H st h \<noteq> None)"

subsection \<open>Writing\<close>

datatype stamp = LocalStamp | RemoteStamp file_version

record placement =
  pl_stamp :: stamp
  pl_rewrite :: bool
  pl_vault :: "device_id option"
  pl_held :: bool
  pl_fresh :: bool
  pl_by_reference :: bool

definition pl_local :: placement where
  "pl_local = \<lparr>pl_stamp = LocalStamp, pl_rewrite = False, pl_vault = None, pl_held = False,
     pl_fresh = False, pl_by_reference = False\<rparr>"

definition pl_remote :: "file_version \<Rightarrow> placement" where
  "pl_remote version = \<lparr>pl_stamp = RemoteStamp version, pl_rewrite = False, pl_vault = None,
     pl_held = False, pl_fresh = False, pl_by_reference = False\<rparr>"

record put_stats =
  chunks_total :: nat
  chunks_written :: nat
  bytes_written :: nat
  bytes_deduplicated :: nat
  unchanged :: bool

definition put_stats_default :: put_stats where
  "put_stats_default = \<lparr>chunks_total = 0, chunks_written = 0, bytes_written = 0,
     bytes_deduplicated = 0, unchanged = False\<rparr>"

definition destination :: "string \<Rightarrow> placement \<Rightarrow> store \<Rightarrow> device_id option" where
  \<comment> \<open>whose vault the file goes to\<close>
  "destination p pl st =
     (case pl_vault pl of
        Some owner \<Rightarrow> Some owner
      | None \<Rightarrow>
          (case pl_stamp pl of
             RemoteStamp _ \<Rightarrow> None
           | LocalStamp \<Rightarrow>
               (case folder_row (s_index st) p of
                  Some (_, scope) \<Rightarrow> scope
                | None \<Rightarrow>
                    (if s_new_private st
                        \<and> (case file_by_path (s_index st) p of None \<Rightarrow> True | Some f \<Rightarrow> f_deleted f \<noteq> None)
                     then Some (me (s_index st)) else None))))"

definition backed_by_folder :: "store \<Rightarrow> device_id option \<Rightarrow> bool" where
  "backed_by_folder st vault \<longleftrightarrow> (case vault of None \<Rightarrow> True | Some owner \<Rightarrow> owner = me (s_index st))"

definition merge_version :: "file_version \<Rightarrow> store \<Rightarrow> store" where
  "merge_version version st =
     st\<lparr>s_index := set_version (path version) (vector version) (modified_by version)
         (sint (modified_at version)) (s_index st)\<rparr>"

definition same_as_before :: "string \<Rightarrow> manifest \<Rightarrow> placement \<Rightarrow> device_id option \<Rightarrow> store \<Rightarrow> file_row option" where
  "same_as_before p m pl vault st =
     (if \<not> pl_rewrite pl \<and> \<not> pl_fresh pl
      then case live_row_in (s_index st) p vault of
             Some f \<Rightarrow> (if f_hash f = m_hash m then Some f else None)
           | None \<Rightarrow> None
      else None)"

definition touch_unchanged :: "string \<Rightarrow> int \<Rightarrow> placement \<Rightarrow> device_id option \<Rightarrow> file_row \<Rightarrow> store \<Rightarrow> store" where
  "touch_unchanged p mtime pl vault existing st =
     (let holding = (backed_by_folder st vault \<and> supplies st p) \<or> s_tree st = None;
          ix = (s_index st)\<lparr>files := map (\<lambda>f. if f_id f = f_id existing
              then f\<lparr>f_mtime := mtime, f_here := holding, f_wanted := (if holding then False else f_wanted f)\<rparr>
              else f) (files (s_index st))\<rparr>;
          ix = (case vault of Some owner \<Rightarrow> if pl_held pl then mark_held p owner ix else ix | None \<Rightarrow> ix);
          st = st\<lparr>s_index := ix\<rparr>
      in case (pl_stamp pl, vault) of (RemoteStamp version, None) \<Rightarrow> merge_version version st | _ \<Rightarrow> st)"

definition stamped :: "int \<Rightarrow> string \<Rightarrow> stamp \<Rightarrow> store \<Rightarrow> (version_vector \<times> device_id \<times> int) \<times> store" where
  "stamped now p s st =
     (case s of
        LocalStamp \<Rightarrow> (case next_local_vector p (s_index st) of
            (v, d, ix) \<Rightarrow> ((v, d, now), st\<lparr>s_index := ix\<rparr>))
      | RemoteStamp version \<Rightarrow>
          ((vector version, modified_by version, sint (modified_at version)), st))"

definition write_payload ::
  "(bytes \<Rightarrow> nat) \<Rightarrow> int \<Rightarrow> bool \<Rightarrow> bool \<Rightarrow> bytes \<Rightarrow> chunk_ref \<Rightarrow>
   hash set \<times> put_stats \<times> store \<Rightarrow> hash set \<times> put_stats \<times> store"
where
  \<comment> \<open>a turn of the first loop; \<open>supplied\<close>: the folder or a send's file holds the bytes\<close>
  "write_payload sealed now rewrite supplied data c = (\<lambda>(seen, stats, st).
     let h = ref_hash c;
         known = stats\<lparr>bytes_deduplicated := bytes_deduplicated stats + ref_len c\<rparr>
     in if h \<in> seen then (seen, known, st)
        else if \<not> rewrite \<and> has_chunk_row (s_index st) h \<and> s_cas st h \<noteq> None then (insert h seen, known, st)
        else if supplied
        then (insert h seen, known, st\<lparr>s_index := insert_chunk now h (ref_len c) 0 (s_index st)\<rparr>)
        else let plain = piece data (ref_offset c) (ref_len c);
                 st = cas_put h plain st
             in (insert h seen,
                 stats\<lparr>chunks_written := chunks_written stats + 1,
                       bytes_written := bytes_written stats + sealed plain\<rparr>,
                 st\<lparr>s_index := insert_chunk now h (ref_len c) (sealed plain) (s_index st)\<rparr>))"

definition recheck_payload ::
  "(bytes \<Rightarrow> nat) \<Rightarrow> int \<Rightarrow> bool \<Rightarrow> bytes \<Rightarrow> chunk_ref \<Rightarrow>
   hash set \<times> put_stats \<times> store \<Rightarrow> hash set \<times> put_stats \<times> store"
where
  \<comment> \<open>a turn of the second loop, under the write lock\<close>
  "recheck_payload sealed now supplied data c = (\<lambda>(seen, stats, st).
     let h = ref_hash c
     in if h \<in> seen then (seen, stats, st)
        else if supplied
        then (insert h seen, stats, st\<lparr>s_index := insert_chunk now h (ref_len c) 0 (s_index st)\<rparr>)
        else if has_chunk_row (s_index st) h \<and> s_cas st h \<noteq> None then (insert h seen, stats, st)
        else let plain = piece data (ref_offset c) (ref_len c);
                 st = cas_put h plain st
             in (insert h seen,
                 stats\<lparr>chunks_written := chunks_written stats + 1,
                       bytes_written := bytes_written stats + sealed plain\<rparr>,
                 st\<lparr>s_index := insert_chunk now h (ref_len c) (sealed plain) (s_index st)\<rparr>))"

definition put_row :: "int \<Rightarrow> string \<Rightarrow> manifest \<Rightarrow> int \<Rightarrow> version_vector \<times> device_id \<times> int \<Rightarrow>
    device_id option \<Rightarrow> bool \<Rightarrow> bool \<Rightarrow> file_row" where
  "put_row now p m mtime stamp vault holding held =
     (case stamp of (v, d, at) \<Rightarrow>
       \<lparr>f_id = 0, f_path = p, f_size = m_size m, f_hash = m_hash m, f_mtime = mtime, f_updated = at,
        f_deleted = None, f_vector = v, f_by = d, f_here = holding, f_touched = now, f_wanted = False,
        f_scope = vault, f_held = held\<rparr>)"

definition put_over :: "file_row \<Rightarrow> file_row \<Rightarrow> file_row" where
  \<comment> \<open>the \<open>DO UPDATE\<close> of the statement\<close>
  "put_over new f =
     f\<lparr>f_held := f_held f \<or> f_held new, f_size := f_size new, f_hash := f_hash new,
       f_mtime := f_mtime new, f_updated := f_updated new, f_deleted := None,
       f_vector := f_vector new, f_by := f_by new, f_here := f_here new,
       f_touched := f_touched new, f_wanted := (if f_here new then False else f_wanted f)\<rparr>"

definition link_file ::
  "(bytes \<Rightarrow> nat) \<Rightarrow> int \<Rightarrow> string \<Rightarrow> manifest \<Rightarrow> bytes \<Rightarrow> int \<Rightarrow> placement \<Rightarrow> device_id option \<Rightarrow>
   bool \<Rightarrow> version_vector \<times> device_id \<times> int \<Rightarrow> put_stats \<Rightarrow> store \<Rightarrow> put_stats \<times> store"
where
  \<comment> \<open>the transaction\<close>
  "link_file sealed now p m data mtime pl vault here stamp stats st =
     (case fold (recheck_payload sealed now (here \<or> pl_by_reference pl) data) (m_chunks m) ({}, stats, st) of
        (_, stats, st) \<Rightarrow>
          let new = put_row now p m mtime stamp vault (here \<or> s_tree st = None) (pl_held pl)
          in case upsert_file new (put_over new) (s_index st) of
               (fid, ix) \<Rightarrow>
                 (stats, st\<lparr>s_index := fold (\<lambda>c. add_link fid (ref_hash c)) (m_chunks m)
                     (delete_links now (\<lambda>(i, _). i = fid) ix)\<rparr>))"

definition put_manifest ::
  "(bytes \<Rightarrow> nat) \<Rightarrow> int \<Rightarrow> string \<Rightarrow> manifest \<Rightarrow> bytes \<Rightarrow> int \<Rightarrow> placement \<Rightarrow> store \<Rightarrow> put_stats \<times> store"
where
  "put_manifest sealed now p m data mtime pl st =
     (let stats = put_stats_default\<lparr>chunks_total := length (m_chunks m)\<rparr>;
          vault = destination p pl st
      in case same_as_before p m pl vault st of
           Some existing \<Rightarrow>
             (stats\<lparr>unchanged := True, bytes_deduplicated := m_size m\<rparr>,
              touch_unchanged p mtime pl vault existing st)
         | None \<Rightarrow>
             (case stamped now p (pl_stamp pl) st of (stamp, st) \<Rightarrow>
              let here = backed_by_folder st vault \<and> supplies st p
              in case fold (write_payload sealed now (pl_rewrite pl) (here \<or> pl_by_reference pl) data)
                    (m_chunks m) ({}, stats, st) of
                   (_, stats, st) \<Rightarrow> link_file sealed now p m data mtime pl vault here stamp stats st))"

definition too_recent :: "int \<Rightarrow> int \<Rightarrow> bool" where
  "too_recent now_ns mtime \<longleftrightarrow> \<bar>now_ns - mtime\<bar> < 3 * 10 ^ 9"

definition put_file ::
  "(bytes \<Rightarrow> nat) \<Rightarrow> blake3 \<Rightarrow> (bytes \<Rightarrow> (nat \<times> nat) list) \<Rightarrow> int \<Rightarrow> int \<Rightarrow> string \<Rightarrow> bytes \<Rightarrow> int \<Rightarrow> store \<Rightarrow>
   put_stats \<times> store"
where
  "put_file sealed H cdc now now_ns p data mtime st =
     (let st = st\<lparr>s_racy := (s_racy st)(p := too_recent now_ns mtime)\<rparr>
      in put_manifest sealed now p (chunk_bytes H cdc data) data mtime pl_local st)"

definition store_put_bytes ::
  "(bytes \<Rightarrow> nat) \<Rightarrow> blake3 \<Rightarrow> (bytes \<Rightarrow> (nat \<times> nat) list) \<Rightarrow> int \<Rightarrow> string \<Rightarrow> bytes \<Rightarrow> int \<Rightarrow> store \<Rightarrow> put_stats \<times> store"
where
  "store_put_bytes sealed H cdc now p data mtime st =
     put_manifest sealed now p (chunk_bytes H cdc data) data mtime pl_local st"

definition adopt_file_scoped ::
  "(bytes \<Rightarrow> nat) \<Rightarrow> blake3 \<Rightarrow> (bytes \<Rightarrow> (nat \<times> nat) list) \<Rightarrow> int \<Rightarrow> file_version \<Rightarrow> bytes \<Rightarrow> int \<Rightarrow>
   device_id option \<Rightarrow> store \<Rightarrow> put_stats \<times> store"
where
  "adopt_file_scoped sealed H cdc now version data mtime vault st =
     put_manifest sealed now (path version) (chunk_bytes H cdc data) data mtime
       ((pl_remote version)\<lparr>pl_vault := vault\<rparr>) st"

definition hold_file ::
  "(bytes \<Rightarrow> nat) \<Rightarrow> blake3 \<Rightarrow> (bytes \<Rightarrow> (nat \<times> nat) list) \<Rightarrow> int \<Rightarrow> file_version \<Rightarrow> device_id \<Rightarrow> bytes \<Rightarrow>
   store \<Rightarrow> put_stats \<times> store"
where
  \<comment> \<open>without its entry in Recently deleted, if it has one\<close>
  "hold_file sealed H cdc now version owner data st =
     put_manifest sealed now (path version) (chunk_bytes H cdc data) data 0
       ((pl_remote version)\<lparr>pl_vault := Some owner, pl_held := True\<rparr>) st"

definition rewrite_payloads ::
  "(bytes \<Rightarrow> nat) \<Rightarrow> blake3 \<Rightarrow> (bytes \<Rightarrow> (nat \<times> nat) list) \<Rightarrow> int \<Rightarrow> file_version \<Rightarrow> bytes \<Rightarrow> int \<Rightarrow>
   store \<Rightarrow> put_stats \<times> store"
where
  "rewrite_payloads sealed H cdc now version data mtime st =
     put_manifest sealed now (path version) (chunk_bytes H cdc data) data mtime
       ((pl_remote version)\<lparr>pl_rewrite := True\<rparr>) st"

subsection \<open>Deleting\<close>

definition tombstone_row :: "int \<Rightarrow> string \<Rightarrow> stamp \<Rightarrow> device_id option \<Rightarrow> store \<Rightarrow> store" where
  "tombstone_row now p s scope st =
     (case stamped now p s st of
        ((v, d, at), st) \<Rightarrow>
          let new = \<lparr>f_id = 0, f_path = p, f_size = 0, f_hash = replicate 32 0, f_mtime = 0,
                f_updated = at, f_deleted = Some at, f_vector = v, f_by = d, f_here = True,
                f_touched = 0, f_wanted = False, f_scope = scope, f_held = False\<rparr>
          in st\<lparr>s_index := snd (upsert_file new
                (\<lambda>f. f\<lparr>f_deleted := Some at, f_updated := at, f_vector := v, f_by := d\<rparr>) (s_index st))\<rparr>)"

definition adopt ::
  "(bytes \<Rightarrow> nat) \<Rightarrow> blake3 \<Rightarrow> (bytes \<Rightarrow> (nat \<times> nat) list) \<Rightarrow> int \<Rightarrow> file_version \<Rightarrow> bytes option \<Rightarrow> int \<Rightarrow>
   store \<Rightarrow> store_error + put_stats \<times> store"
where
  "adopt sealed H cdc now version data mtime st =
     (case content version of
        File _ _ \<Rightarrow>
          (case data of
             None \<Rightarrow> Inl (NotFound (path version))
           | Some data \<Rightarrow> Inr (put_manifest sealed now (path version) (chunk_bytes H cdc data) data mtime
                 (pl_remote version) st))
      | Deleted \<Rightarrow> Inr (put_stats_default, tombstone_row now (path version) (RemoteStamp version) None st))"

definition sat_i64 :: "int \<Rightarrow> int" where
  "sat_i64 i = max (- (2 ^ 63)) (min i (2 ^ 63 - 1))"

definition know_elsewhere :: "int \<Rightarrow> file_version \<Rightarrow> store \<Rightarrow> store" where
  \<comment> \<open>listed, and without its bytes\<close>
  "know_elsewhere now version st =
     (case content version of
        Deleted \<Rightarrow> tombstone_row now (path version) (RemoteStamp version) None st
      | File hash sz \<Rightarrow>
          (let at = sint (modified_at version);
               new = \<lparr>f_id = 0, f_path = path version, f_size = unat sz, f_hash = hash, f_mtime = sat_i64 (at * 10 ^ 9), f_updated = at,
                  f_deleted = None, f_vector = vector version, f_by = modified_by version, f_here = False,
                  f_touched = 0, f_wanted = False, f_scope = None, f_held = False\<rparr>;
               upd = (\<lambda>f. f\<lparr>f_size := unat sz, f_hash := hash, f_mtime := sat_i64 (at * 10 ^ 9), f_updated := at, f_deleted := None,
                  f_vector := vector version, f_by := modified_by version, f_here := False\<rparr>)
           in case upsert_file new upd (s_index st) of
                (fid, ix) \<Rightarrow>
                  st\<lparr>s_index := note_replica hash (modified_by version) False (delete_links now (\<lambda>(i, _). i = fid) ix)\<rparr>))"

definition know_kept :: "int \<Rightarrow> file_version \<Rightarrow> device_id \<Rightarrow> index \<Rightarrow> bool option \<times> index" where
  \<comment> \<open>None: a path has one row in each area, a deleted one included, and the statement is refused\<close>
  "know_kept now version holder ix =
     (case content version of
        Deleted \<Rightarrow> (Some False, ix)
      | File h sz \<Rightarrow>
          if own_vault_row ix (path version) \<noteq> None then (Some False, ix)
          else if list_ex (\<lambda>f. f_path f = path version \<and> f_scope f = Some (me ix)) (files ix) then (None, ix)
          else
            (Some True, note_replica h holder False
              (ix\<lparr>files := files ix @ [\<lparr>f_id = new_file_id ix, f_path = path version, f_size = unat sz, f_hash = h,
                 f_mtime = max (- (2 ^ 63)) (min (2 ^ 63 - 1) (sint (modified_at version) * 1000000000)), f_updated = sint (modified_at version), f_deleted = None,
                 f_vector = vector version, f_by = me ix, f_here = False, f_touched = 0, f_wanted = False,
                 f_scope = Some (me ix), f_held = False\<rparr>]\<rparr>)))"

definition release_unbacked :: "int \<Rightarrow> nat \<Rightarrow> store \<Rightarrow> store" where
  \<comment> \<open>every link of the file to a payload the chunk store lacks\<close>
  "release_unbacked now fid st =
     (if s_tree st = None then st
      else st\<lparr>s_index := delete_links now (\<lambda>(i, h). i = fid \<and> s_cas st h = None) (s_index st)\<rparr>)"

definition delete_file :: "int \<Rightarrow> string \<Rightarrow> store \<Rightarrow> store_error + store" where
  "delete_file now p st =
     (case folder_row (s_index st) p of
        None \<Rightarrow> Inl (NotFound p)
      | Some (row, scope) \<Rightarrow> Inr (release_unbacked now (f_id row) (tombstone_row now p LocalStamp scope st)))"

definition restore_file :: "int \<Rightarrow> string \<Rightarrow> store \<Rightarrow> (store_error + unit) \<times> store" where
  \<comment> \<open>the counter is spent whether or not a row is found\<close>
  "restore_file now p st =
     (case next_local_vector p (s_index st) of
        (v, d, ix) \<Rightarrow>
          (if list_ex (\<lambda>f. f_path f = p \<and> f_deleted f \<noteq> None) (files ix) then Inr () else Inl (NotFound p),
           st\<lparr>s_index := ix\<lparr>files := map (\<lambda>f. if f_path f = p \<and> f_deleted f \<noteq> None
               then f\<lparr>f_deleted := None, f_updated := now, f_vector := v, f_by := d\<rparr> else f) (files ix)\<rparr>\<rparr>))"

definition unhold :: "int \<Rightarrow> file_version \<Rightarrow> device_id \<Rightarrow> store \<Rightarrow> store" where
  \<comment> \<open>without its entry in Recently deleted\<close>
  "unhold now version owner st =
     (case live_row_in (s_index st) (path version) (Some owner) of
        None \<Rightarrow> st
      | Some _ \<Rightarrow> tombstone_row now (path version) (RemoteStamp version) (Some owner) st)"

subsection \<open>Reclaiming space\<close>

definition TRASH_RETENTION :: nat where "TRASH_RETENTION = 30 * 24 * 3600"

definition expired :: "int \<Rightarrow> nat \<Rightarrow> file_row \<Rightarrow> bool" where
  "expired now retention f \<longleftrightarrow>
     (let cutoff = now - int retention;
          vault_cutoff = (if retention = 0 then cutoff else now - int (max retention TRASH_RETENTION))
      in case f_deleted f of
           None \<Rightarrow> False
         | Some at \<Rightarrow> at \<le> cutoff \<and> (f_scope f = None \<or> at \<le> vault_cutoff))"

definition collectable :: "int \<Rightarrow> nat \<Rightarrow> chunk_row \<Rightarrow> bool" where
  "collectable now retention c \<longleftrightarrow> c_refs c = 0
     \<and> (case c_since c of None \<Rightarrow> False | Some since \<Rightarrow> since \<le> now - int retention)"

definition drop_chunks :: "(hash \<Rightarrow> bool) \<Rightarrow> store \<Rightarrow> store" where
  \<comment> \<open>a row and its payload, for each of the candidates\<close>
  "drop_chunks gone st =
     st\<lparr>s_index := (s_index st)\<lparr>chunks := (\<lambda>h. if gone h then None else chunks (s_index st) h)\<rparr>,
        s_cas := (\<lambda>h. if gone h then None else s_cas st h)\<rparr>"

definition collect :: "int \<Rightarrow> nat \<Rightarrow> store \<Rightarrow> store" where
  "collect now retention st =
     (let st = st\<lparr>s_index := delete_files now (expired now retention) (s_index st)\<rparr>
      in drop_chunks (\<lambda>h. case chunks (s_index st) h of
             None \<Rightarrow> False | Some c \<Rightarrow> collectable now retention c) st)"

definition sweep_orphans :: "store \<Rightarrow> store" where
  "sweep_orphans st = st\<lparr>s_cas := (\<lambda>h. if has_chunk_row (s_index st) h then s_cas st h else None)\<rparr>"

definition drop_payloads :: "(hash \<Rightarrow> bool) \<Rightarrow> store \<Rightarrow> store" where
  \<comment> \<open>the payload of each of these the chunk store holds; the row stays, its stored size zero\<close>
  "drop_payloads gone st =
     (let drop = (\<lambda>h. gone h \<and> s_cas st h \<noteq> None)
      in st\<lparr>s_index := (s_index st)\<lparr>chunks := (\<lambda>h. if drop h
               then map_option (\<lambda>c. c\<lparr>c_stored := 0\<rparr>) (chunks (s_index st) h) else chunks (s_index st) h)\<rparr>,
            s_cas := (\<lambda>h. if drop h then None else s_cas st h)\<rparr>)"

definition reclaim :: "blake3 \<Rightarrow> store \<Rightarrow> store" where
  "reclaim H st =
     (if s_tree st = None then st else drop_payloads (\<lambda>h. chunk_from_tree H st h \<noteq> None) st)"

definition releasable :: "index \<Rightarrow> hash \<Rightarrow> bool" where
  \<comment> \<open>\<open>releasable_held_chunks\<close>: a chunk of a send its recipient has, needed by no other live file
    that is neither in the folder nor recorded as reachable elsewhere\<close>
  "releasable ix h \<longleftrightarrow>
     list_ex (\<lambda>(fid, h'). h' = h \<and> list_ex (\<lambda>f. f_id f = fid \<and> f_deleted f = None \<and> \<not> f_held f
         \<and> (case f_scope f of None \<Rightarrow> False | Some d \<Rightarrow> d \<noteq> me ix
              \<and> list_ex (\<lambda>(c, r, _). c = f_hash f \<and> r = d) (replicas ix))) (files ix)) (links ix)
     \<and> \<not> list_ex (\<lambda>(fid, h'). h' = h \<and> list_ex (\<lambda>g. f_id g = fid \<and> f_deleted g = None \<and> \<not> f_here g
         \<and> \<not> list_ex (\<lambda>(c, r, private). c = f_hash g \<and> (\<not> private \<or> Some r = f_scope g)) (replicas ix))
         (files ix)) (links ix)"

definition release_held_payloads :: "store \<Rightarrow> store" where
  "release_held_payloads st = drop_payloads (releasable (s_index st)) st"

definition discard_payload :: "hash \<Rightarrow> store \<Rightarrow> store" where
  "discard_payload h st = cas_remove h st"

definition evict :: "string \<Rightarrow> store \<Rightarrow> store_error + store" where
  "evict p st =
     (case s_tree st of
        None \<Rightarrow> Inl (OnlyHolder p)
      | Some tree \<Rightarrow>
          (case in_folder (s_index st) p of
             None \<Rightarrow> Inl (NotFound p)
           | Some row \<Rightarrow>
               (if safe_copies_elsewhere (s_index st) (f_hash row) = 0
                then if list_ex (\<lambda>(h, d, private). h = f_hash row \<and> \<not> private \<and> d \<in> set (askable (s_index st)))
                          (replicas (s_index st))
                     then Inl (OnlyAPhoneHasIt p) else Inl (NoOtherCopy p)
                else Inr (st\<lparr>s_index := set_materialised p False (s_index st),
                             s_tree := Some (tree(p := None))\<rparr>))))"

subsection \<open>What every step keeps\<close>

abbreviation store_ok :: "store \<Rightarrow> bool" where "store_ok st \<equiv> index_ok (s_index st)"

lemma has_chunk_row_insert: "has_chunk_row (insert_chunk now h sz stored ix) h' \<longleftrightarrow> h' = h \<or> has_chunk_row ix h'"
  by (auto simp: insert_chunk_def has_chunk_row_def)

lemma insert_chunk_fields [simp]:
  "links (insert_chunk now h sz stored ix) = links ix" "files (insert_chunk now h sz stored ix) = files ix"
  "me (insert_chunk now h sz stored ix) = me ix"
  by (simp_all add: insert_chunk_def)

lemma has_chunk_row_delete_links [simp]: "has_chunk_row (delete_links now P ix) h = has_chunk_row ix h"
  by (simp add: has_chunk_row_def delete_links_chunk)

lemma has_chunk_row_add_link [simp]: "has_chunk_row (add_link fid h ix) h' = has_chunk_row ix h'"
  by (simp add: has_chunk_row_def add_link_def link_added_def)

lemma add_link_fields [simp]:
  "links (add_link fid h ix) = links ix @ [(fid, h)]" "files (add_link fid h ix) = files ix"
  "me (add_link fid h ix) = me ix"
  by (simp_all add: add_link_def link_added_def)

definition payloads_in :: "bool \<Rightarrow> hash set \<Rightarrow> store \<Rightarrow> bool" where
  \<comment> \<open>each of these has its row, and its payload where nothing else supplies it\<close>
  "payloads_in supplied hs st \<longleftrightarrow>
     (\<forall>h \<in> hs. has_chunk_row (s_index st) h \<and> (\<not> supplied \<longrightarrow> s_cas st h \<noteq> None))"

lemma recheck_payload_step:
  assumes "recheck_payload sealed now supplied data c (seen, stats, st) = (seen', stats', st')"
    and "store_ok st" and "payloads_in supplied seen st"
  shows "store_ok st' \<and> payloads_in supplied seen' st' \<and> seen' = insert (ref_hash c) seen \<and> s_tree st' = s_tree st
    \<and> files (s_index st') = files (s_index st) \<and> links (s_index st') = links (s_index st)
    \<and> me (s_index st') = me (s_index st)"
  using assms
  by (auto simp: recheck_payload_def Let_def cas_put_def payloads_in_def index_ok_insert_chunk
      has_chunk_row_insert insert_absorb split: if_splits)

lemma recheck_payloads:
  assumes "fold (recheck_payload sealed now supplied data) cs (seen, stats, st) = (seen', stats', st')"
    and "store_ok st" and "payloads_in supplied seen st"
  shows "store_ok st' \<and> payloads_in supplied seen' st' \<and> seen' = seen \<union> ref_hash ` set cs \<and> s_tree st' = s_tree st
    \<and> files (s_index st') = files (s_index st) \<and> links (s_index st') = links (s_index st)
    \<and> me (s_index st') = me (s_index st)"
  using assms
proof (induction cs arbitrary: seen stats st)
  case (Cons c cs)
  obtain seen1 stats1 st1 where one:
    "recheck_payload sealed now supplied data c (seen, stats, st) = (seen1, stats1, st1)"
    by (metis prod_cases3)
  note step = recheck_payload_step [OF one Cons.prems(2,3)]
  have "fold (recheck_payload sealed now supplied data) cs (seen1, stats1, st1) = (seen', stats', st')"
    using Cons.prems(1) one by simp
  from Cons.IH [OF this] step show ?case by auto
qed simp

lemma write_payloads:
  assumes "fold (write_payload sealed now rewrite supplied data) cs (seen, stats, st) = (seen', stats', st')"
    and "store_ok st"
  shows "store_ok st' \<and> s_tree st' = s_tree st"
  using assms
proof (induction cs arbitrary: seen stats st)
  case (Cons c cs)
  obtain seen1 stats1 st1 where one:
    "write_payload sealed now rewrite supplied data c (seen, stats, st) = (seen1, stats1, st1)"
    by (metis prod_cases3)
  have "store_ok st1 \<and> s_tree st1 = s_tree st"
    using one Cons.prems(2)
    by (auto simp: write_payload_def Let_def cas_put_def index_ok_insert_chunk split: if_splits)
  moreover have "fold (write_payload sealed now rewrite supplied data) cs (seen1, stats1, st1) = (seen', stats', st')"
    using Cons.prems(1) one by simp
  ultimately show ?case using Cons.IH by fastforce
qed simp

lemma add_links:
  assumes "index_ok ix" and "\<forall>c \<in> set cs. has_chunk_row ix (ref_hash c)" and "fid \<in> f_id ` set (files ix)"
  shows "index_ok (fold (\<lambda>c. add_link fid (ref_hash c)) cs ix)
    \<and> links (fold (\<lambda>c. add_link fid (ref_hash c)) cs ix) = links ix @ map (\<lambda>c. (fid, ref_hash c)) cs
    \<and> files (fold (\<lambda>c. add_link fid (ref_hash c)) cs ix) = files ix
    \<and> (\<forall>h. has_chunk_row (fold (\<lambda>c. add_link fid (ref_hash c)) cs ix) h = has_chunk_row ix h)"
  using assms
proof (induction cs arbitrary: ix)
  case (Cons c cs)
  have "index_ok (add_link fid (ref_hash c) ix)" using Cons.prems by (intro index_ok_add_link) auto
  from Cons.IH [OF this] Cons.prems(2,3) show ?case by simp
qed simp

lemma link_file_gives:
  assumes "store_ok st" and "link_file sealed now p m data mtime pl vault here stamp stats st = (stats', st')"
  shows "store_ok st'"
    and "\<exists>f \<in> set (files (s_index st')). f_path f = p \<and> f_scope f = vault \<and> f_deleted f = None
      \<and> f_hash f = m_hash m \<and> chunk_hashes_for (s_index st') (f_id f) = map ref_hash (m_chunks m)"
    and "payloads_in (here \<or> pl_by_reference pl) (ref_hash ` set (m_chunks m)) st'"
proof -
  obtain seen stats1 st1 where re: "fold (recheck_payload sealed now (here \<or> pl_by_reference pl) data) (m_chunks m)
      ({}, stats, st) = (seen, stats1, st1)" by (metis prod_cases3)
  have inv: "store_ok st1" "payloads_in (here \<or> pl_by_reference pl) (ref_hash ` set (m_chunks m)) st1"
    using recheck_payloads [OF re assms(1)] by (simp_all add: payloads_in_def)
  define new where "new = put_row now p m mtime stamp vault (here \<or> s_tree st1 = None) (pl_held pl)"
  obtain fid ix where up: "upsert_file new (put_over new) (s_index st1) = (fid, ix)" by fastforce
  define ix2 where "ix2 = delete_links now (\<lambda>(i, _). i = fid) ix"
  have st': "st' = st1\<lparr>s_index := fold (\<lambda>c. add_link fid (ref_hash c)) (m_chunks m) ix2\<rparr>"
    using assms(2) by (simp add: link_file_def re up Let_def ix2_def flip: new_def)
  note ix = index_ok_upsert [OF inv(1) up]
  have rows: "has_chunk_row ix2 h = has_chunk_row (s_index st1) h" for h
    using ix(4) by (simp add: ix2_def) (simp add: has_chunk_row_def)
  have ok2: "index_ok ix2" unfolding ix2_def by (rule index_ok_delete_links [OF ix(1)])
  have "fid \<in> f_id ` set (files ix2)" using ix(2) by (simp add: ix2_def)
  moreover have "\<forall>c \<in> set (m_chunks m). has_chunk_row ix2 (ref_hash c)"
    using inv(2) rows by (auto simp: payloads_in_def)
  ultimately have final: "store_ok st'"
    "links (s_index st') = links ix2 @ map (\<lambda>c. (fid, ref_hash c)) (m_chunks m)"
    "files (s_index st') = files ix2" "\<And>h. has_chunk_row (s_index st') h = has_chunk_row ix2 h"
    using add_links [OF ok2] by (auto simp: st')
  show "store_ok st'" by (rule final(1))
  show "payloads_in (here \<or> pl_by_reference pl) (ref_hash ` set (m_chunks m)) st'"
    using inv(2) rows final(4) by (auto simp: payloads_in_def st')
  obtain r where r: "r \<in> set (files ix)" "f_id r = fid" "f_path r = f_path new" "f_scope r = f_scope new"
    and alt: "r = new\<lparr>f_id := fid\<rparr>
      \<or> (\<exists>old. r = (put_over new old)\<lparr>f_id := fid, f_path := f_path new, f_scope := f_scope new\<rparr>)"
    using upsert_row [OF up] by blast
  have put: "f_deleted new = None" "f_hash new = m_hash m" "f_path new = p" "f_scope new = vault"
    by (simp_all add: new_def put_row_def split: prod.splits)
  have live: "f_deleted r = None \<and> f_hash r = m_hash m"
    using alt by (elim disjE exE) (simp_all add: put put_over_def)
  have "chunk_hashes_for (s_index st') fid = map ref_hash (m_chunks m)"
    by (auto simp: chunk_hashes_for_def final(2) ix2_def filter_empty_conv o_def)
  with r show "\<exists>f \<in> set (files (s_index st')). f_path f = p \<and> f_scope f = vault \<and> f_deleted f = None
      \<and> f_hash f = m_hash m \<and> chunk_hashes_for (s_index st') (f_id f) = map ref_hash (m_chunks m)"
    by (intro bexI [of _ r]) (simp_all add: live final(3) ix2_def put)
qed

lemma store_ok_tombstone: "store_ok st \<Longrightarrow> store_ok (tombstone_row now p s scope st)"
  by (auto simp: tombstone_row_def stamped_def Let_def split: stamp.splits prod.splits
      intro!: index_ok_upsert(1) [OF _ surjective_pairing] elim: index_ok_next_local_vector)

lemma store_ok_release: "store_ok st \<Longrightarrow> store_ok (release_unbacked now fid st)"
  by (simp add: release_unbacked_def index_ok_delete_links)

lemma store_ok_delete: "store_ok st \<Longrightarrow> delete_file now p st = Inr st' \<Longrightarrow> store_ok st'"
  by (auto simp: delete_file_def store_ok_release store_ok_tombstone split: option.splits)

lemma store_ok_unhold: "store_ok st \<Longrightarrow> store_ok (unhold now version owner st)"
  by (auto simp: unhold_def store_ok_tombstone split: option.splits)

lemma store_ok_restore: "store_ok st \<Longrightarrow> store_ok (snd (restore_file now p st))"
  by (auto simp: restore_file_def split: prod.splits dest: index_ok_next_local_vector
      intro!: index_ok_map_files)

lemma store_ok_merge: "store_ok st \<Longrightarrow> store_ok (merge_version version st)"
  by (simp add: merge_version_def index_ok_set_version)

lemma store_ok_touch: "store_ok st \<Longrightarrow> store_ok (touch_unchanged p mtime pl vault existing st)"
  by (auto simp: touch_unchanged_def Let_def split: option.splits stamp.splits
      intro!: store_ok_merge index_ok_mark_held index_ok_map_files)

lemma store_ok_drop_chunks:
  assumes "store_ok st" and "\<And>h. gone h \<Longrightarrow> count_in (links (s_index st)) h = 0"
  shows "store_ok (drop_chunks gone st)"
proof -
  have "chunk_ok (links (s_index st)) h (if gone h then None else chunks (s_index st) h)" for h
    using assms(2) [of h] index_okD(1) [OF assms(1), of h] by (auto simp: chunk_ok_def)
  then show ?thesis using assms(1) by (auto simp: drop_chunks_def index_ok_def)
qed

lemma store_ok_collect:
  assumes "store_ok st"
  shows "store_ok (collect now retention st)"
proof -
  let ?ix = "delete_files now (expired now retention) (s_index st)"
  have ok: "index_ok ?ix" by (rule index_ok_delete_files [OF assms])
  have "count_in (links ?ix) h = 0" if "chunks ?ix h = Some c" "collectable now retention c" for h c
    using that index_okD(1) [OF ok, of h] by (auto simp: chunk_ok_def collectable_def)
  then show ?thesis
    unfolding collect_def Let_def by (intro store_ok_drop_chunks) (use ok in \<open>auto split: option.splits\<close>)
qed

lemma store_ok_drop_payloads:
  assumes "store_ok st"
  shows "store_ok (drop_payloads gone st)"
proof -
  have "chunk_ok (links (s_index st)) h (chunks (s_index (drop_payloads gone st)) h)" for h
    using index_okD(1) [OF assms, of h]
    by (cases "chunks (s_index st) h") (auto simp: chunk_ok_def drop_payloads_def Let_def)
  then show ?thesis using assms by (auto simp: index_ok_def drop_payloads_def Let_def)
qed

lemma store_ok_evict: "store_ok st \<Longrightarrow> evict p st = Inr st' \<Longrightarrow> store_ok st'"
  by (auto simp: evict_def index_ok_set_materialised split: option.splits if_splits)

lemma store_ok_stamped: "stamped now p s st = (stamp, st') \<Longrightarrow> store_ok st \<Longrightarrow> store_ok st'"
  by (auto simp: stamped_def split: stamp.splits prod.splits dest: index_ok_next_local_vector)

lemma store_ok_put:
  assumes "store_ok st"
  shows "store_ok (snd (put_manifest sealed now p m data mtime pl st))"
proof (cases "same_as_before p m pl (destination p pl st) st")
  case None
  obtain stamp st1 where s: "stamped now p (pl_stamp pl) st = (stamp, st1)" by fastforce
  let ?here = "backed_by_folder st1 (destination p pl st) \<and> supplies st1 p"
  let ?stats = "put_stats_default\<lparr>chunks_total := length (m_chunks m)\<rparr>"
  obtain seen stats st2 where w: "fold (write_payload sealed now (pl_rewrite pl) (?here \<or> pl_by_reference pl) data)
      (m_chunks m) ({}, ?stats, st1) = (seen, stats, st2)" by (metis prod_cases3)
  have "store_ok st2" using write_payloads [OF w] store_ok_stamped [OF s assms] by simp
  then have "store_ok (snd (link_file sealed now p m data mtime pl (destination p pl st) ?here stamp stats st2))"
    by (metis link_file_gives(1) surjective_pairing)
  then show ?thesis by (simp add: put_manifest_def Let_def None s w)
qed (simp add: put_manifest_def Let_def assms store_ok_touch)

subsection \<open>Everything that can happen to a store\<close>

text \<open>Several connections may be at work: the loops of a write, and its transaction, are steps of
  their own, and anything may come between them. Every statement of the source that writes to the
  files, file_chunks or chunks table is in some step: what is written, adopted, held or learned of,
  deleted, put back, freed, asked back, opened, kept by others, forgotten, put in another area,
  collected or reclaimed. The folder, what lies outside it, and what is known of other devices
  change as they please.\<close>

inductive store_step :: "(bytes \<Rightarrow> nat) \<Rightarrow> blake3 \<Rightarrow> store \<Rightarrow> store \<Rightarrow> bool" for sealed and H where
  step_stamp: "stamped now p s st = (stamp, st') \<Longrightarrow> store_step sealed H st st'"
| step_write: "write_payload sealed now rewrite supplied data c (seen, stats, st) = (seen', stats', st') \<Longrightarrow>
    store_step sealed H st st'"
| step_link: "link_file sealed now p m data mtime pl vault here stamp stats st = (stats', st') \<Longrightarrow>
    store_step sealed H st st'"
| step_touch: "store_step sealed H st (touch_unchanged p mtime pl vault existing st)"
| step_merge: "store_step sealed H st (merge_version version st)"
| step_tombstone: "store_step sealed H st (tombstone_row now p s scope st)"
| step_release: "store_step sealed H st (release_unbacked now fid st)"
| step_restore: "store_step sealed H st (snd (restore_file now p st))"
| step_collect: "store_step sealed H st (collect now retention st)"
| step_sweep: "store_step sealed H st (sweep_orphans st)"
| step_reclaim: "store_step sealed H st (reclaim H st)"
| step_release_held: "store_step sealed H st (release_held_payloads st)"
| step_discard: "store_step sealed H st (discard_payload h st)"
| step_evict: "evict p st = Inr st' \<Longrightarrow> store_step sealed H st st'"
| step_replica: "store_step sealed H st (st\<lparr>s_index := note_replica h d private (s_index st)\<rparr>)"
| step_folder: "s_tree st = Some tree \<Longrightarrow> store_step sealed H st (st\<lparr>s_tree := Some tree'\<rparr>)"
| step_outside: "store_step sealed H st (st\<lparr>s_outside := outside\<rparr>)"
| step_racy: "store_step sealed H st (st\<lparr>s_racy := racy\<rparr>)"
| step_private: "store_step sealed H st (st\<lparr>s_new_private := private\<rparr>)"
| step_elsewhere: "store_step sealed H st (know_elsewhere now version st)"
| step_kept: "store_step sealed H st (st\<lparr>s_index := snd (know_kept now version holder (s_index st))\<rparr>)"
| step_forget: "store_step sealed H st (st\<lparr>s_index := forget_row now i (s_index st)\<rparr>)"
| step_scope: "set_scope p owner (s_index st) = Some (changed, ix) \<Longrightarrow> store_step sealed H st (st\<lparr>s_index := ix\<rparr>)"
| step_here: "store_step sealed H st (st\<lparr>s_index := set_materialised p b (s_index st)\<rparr>)"
| step_held: "store_step sealed H st (st\<lparr>s_index := mark_held p owner (s_index st)\<rparr>)"
| step_want: "store_step sealed H st (st\<lparr>s_index := want p (s_index st)\<rparr>)"
| step_opened: "store_step sealed H st (st\<lparr>s_index := touch_path now p (s_index st)\<rparr>)"
| step_devices: "store_step sealed H st
    (st\<lparr>s_index := (s_index st)\<lparr>replicas := copies, phones := kinds, askable := ask\<rparr>\<rparr>)"

inductive_cases store_stepE: "store_step sealed H st st'"

inductive store_reachable :: "(bytes \<Rightarrow> nat) \<Rightarrow> blake3 \<Rightarrow> store \<Rightarrow> bool" for sealed and H where
  reach_new: "store_reachable sealed H (store_new d tree)"
| reach_step: "store_reachable sealed H st \<Longrightarrow> store_step sealed H st st' \<Longrightarrow> store_reachable sealed H st'"

lemma store_ok_other:
  "store_ok st \<Longrightarrow> store_ok (sweep_orphans st)" "store_ok st \<Longrightarrow> store_ok (discard_payload h st)"
  "store_ok st \<Longrightarrow> store_ok (reclaim H st)" "store_ok st \<Longrightarrow> store_ok (release_held_payloads st)"
  by (simp_all add: sweep_orphans_def discard_payload_def cas_remove_def reclaim_def
      release_held_payloads_def store_ok_drop_payloads)

lemma store_ok_elsewhere: "store_ok st \<Longrightarrow> store_ok (know_elsewhere now version st)"
proof (cases "content version")
  case (File h sz)
  assume ok: "store_ok st"
  show ?thesis
    using index_ok_upsert(1) [OF ok]
    by (auto simp: know_elsewhere_def File Let_def intro!: index_ok_note_replica index_ok_delete_links split: prod.splits)
qed (simp add: know_elsewhere_def store_ok_tombstone)

lemma index_ok_know_kept:
  assumes "index_ok ix"
  shows "index_ok (snd (know_kept now version holder ix))"
proof (cases "content version")
  case (File h sz)
  show ?thesis
  proof (cases "list_ex (\<lambda>f. f_path f = path version \<and> f_scope f = Some (me ix)) (files ix)")
    case False
    then have "find (\<lambda>f. f_path f = path version \<and> f_scope f = Some (me ix)) (files ix) = None"
      by (auto simp: find_None_iff list_ex_iff)
    then have "index_ok (ix\<lparr>files := files ix @ [new\<lparr>f_id := new_file_id ix\<rparr>]\<rparr>)"
      if "f_path new = path version" "f_scope new = Some (me ix)" for new
      using index_ok_upsert(1) [OF assms, of new id] that by (simp add: upsert_file_def)
    from this [of "\<lparr>f_id = 0, f_path = path version, f_size = unat sz, f_hash = h,
        f_mtime = max (- (2 ^ 63)) (min (2 ^ 63 - 1) (sint (modified_at version) * 1000000000)),
        f_updated = sint (modified_at version), f_deleted = None, f_vector = vector version, f_by = me ix, f_here = False,
        f_touched = 0, f_wanted = False, f_scope = Some (me ix), f_held = False\<rparr>"]
    show ?thesis using assms by (simp add: know_kept_def File index_ok_note_replica)
  qed (simp add: know_kept_def File assms)
qed (simp add: know_kept_def assms)

lemma index_ok_devices: "index_ok ix \<Longrightarrow> index_ok (ix\<lparr>replicas := copies, phones := kinds, askable := ask\<rparr>)"
  by (simp add: index_ok_def)

lemmas index_ok_steps = index_ok_note_replica index_ok_know_kept index_ok_forget_row index_ok_set_materialised
  index_ok_mark_held index_ok_want index_ok_touch_path index_ok_devices

lemmas store_ok_intros = store_ok_elsewhere store_ok_touch store_ok_merge store_ok_tombstone store_ok_release
  store_ok_restore store_ok_collect store_ok_other

lemma store_step_keeps: "store_step sealed H st st' \<Longrightarrow> store_ok st \<Longrightarrow> store_ok st'"
proof (induction rule: store_step.induct)
  case (step_write now rewrite supplied data c seen stats st seen' stats' st')
  then show ?case
    using write_payloads [of sealed now rewrite supplied data "[c]" seen stats st seen' stats' st'] by simp
next
  case step_stamp
  then show ?case by (rule store_ok_stamped)
next
  case step_link
  then show ?case by (metis link_file_gives(1))
next
  case step_evict
  then show ?case by (metis store_ok_evict)
next
  case (step_scope p owner st changed ix)
  then show ?case using index_ok_set_scope by simp
qed (assumption | rule store_ok_intros | simp add: index_ok_steps)+

lemma store_reachable_ok: "store_reachable sealed H st \<Longrightarrow> store_ok st"
  by (induction rule: store_reachable.induct) (auto simp: store_new_def store_step_keeps)

lemma reachable_trans:
  "(store_step sealed H)\<^sup>*\<^sup>* st st' \<Longrightarrow> store_reachable sealed H st \<Longrightarrow> store_reachable sealed H st'"
  by (induction rule: rtranclp_induct) (auto intro: reach_step)

lemma writes_are_steps:
  "fold (write_payload sealed now rewrite supplied data) cs (seen, stats, st) = (seen', stats', st') \<Longrightarrow>
   (store_step sealed H)\<^sup>*\<^sup>* st st'"
proof (induction cs arbitrary: seen stats st)
  case (Cons c cs)
  obtain seen1 stats1 st1 where one:
    "write_payload sealed now rewrite supplied data c (seen, stats, st) = (seen1, stats1, st1)"
    by (metis prod_cases3)
  have "(store_step sealed H)\<^sup>*\<^sup>* st1 st'" using Cons one by simp
  with step_write [OF one] show ?case by (rule converse_rtranclp_into_rtranclp)
qed simp

lemma put_is_steps: "(store_step sealed H)\<^sup>*\<^sup>* st (snd (put_manifest sealed now p m data mtime pl st))"
proof (cases "same_as_before p m pl (destination p pl st) st")
  case None
  obtain stamp st1 where s: "stamped now p (pl_stamp pl) st = (stamp, st1)" by fastforce
  let ?here = "backed_by_folder st1 (destination p pl st) \<and> supplies st1 p"
  let ?stats = "put_stats_default\<lparr>chunks_total := length (m_chunks m)\<rparr>"
  obtain seen stats st2 where w: "fold (write_payload sealed now (pl_rewrite pl) (?here \<or> pl_by_reference pl) data)
      (m_chunks m) ({}, ?stats, st1) = (seen, stats, st2)" by (metis prod_cases3)
  obtain stats3 st3 where l: "link_file sealed now p m data mtime pl (destination p pl st) ?here stamp stats st2
      = (stats3, st3)" by fastforce
  from step_stamp [OF s] writes_are_steps [OF w] step_link [OF l] show ?thesis
    by (simp add: put_manifest_def Let_def None s w l)
      (meson converse_rtranclp_into_rtranclp rtranclp.rtrancl_into_rtrancl)
qed (auto simp: put_manifest_def Let_def intro: step_touch)

text \<open>C22: reference counts cannot drift. In every state the operations on the files, file_chunks and
  chunks tables bring a new store to (the steps of \<open>store_step\<close>: every statement of the source that
  writes to these tables), in whatever order and however a write by one connection is cut by
  another's, each chunk's stored count is the number of links to it and its retention clock runs just
  while that is zero; every link leads from a file to a chunk the index has; and no path has two rows
  in one area.\<close>

theorem refcounts_never_drift:
  assumes "store_reachable sealed H st"
  shows "refcount_drift (s_index st) h = None
    \<and> (\<forall>c. chunks (s_index st) h = Some c \<longrightarrow> (c_since c \<noteq> None \<longleftrightarrow> h \<notin> snd ` set (links (s_index st))))
    \<and> (\<forall>(fid, h) \<in> set (links (s_index st)). has_chunk_row (s_index st) h \<and> fid \<in> f_id ` set (files (s_index st)))
    \<and> distinct (map (\<lambda>f. (f_scope f, f_path f)) (files (s_index st)))"
proof -
  have ok: "store_ok st" by (rule store_reachable_ok [OF assms])
  have "c_since c \<noteq> None \<longleftrightarrow> h \<notin> snd ` set (links (s_index st))" if "chunks (s_index st) h = Some c" for c
    using index_okD(1) [OF ok, of h] that by (simp add: chunk_ok_def flip: count_in_zero_iff)
  then show ?thesis
    using no_drift [OF ok] link_has_chunk [OF ok] index_okD(2,4) [OF ok] by auto
qed

subsection \<open>What is written is read back\<close>

definition cdc_ok :: "(bytes \<Rightarrow> (nat \<times> nat) list) \<Rightarrow> bool" where
  \<comment> \<open>the cuts cover the data, in order\<close>
  "cdc_ok cdc \<longleftrightarrow> (\<forall>data. concat (map (\<lambda>(off, len). piece data off len) (cdc data)) = data)"

definition pieces :: "(bytes \<Rightarrow> (nat \<times> nat) list) \<Rightarrow> bytes \<Rightarrow> bytes set" where
  "pieces cdc data = (\<lambda>(off, len). piece data off len) ` set (cdc data)"

definition intact :: "blake3 \<Rightarrow> store \<Rightarrow> bool" where
  "intact H st \<longleftrightarrow> (\<forall>h b. s_cas st h = Some b \<longrightarrow> H b = h)"

lemma recheck_cas:
  assumes "fold (recheck_payload sealed now supplied data) cs (seen, stats, st) = (seen', stats', st')"
    and "s_cas st' h = Some b"
  shows "s_cas st h = Some b \<or> (\<exists>c \<in> set cs. h = ref_hash c \<and> b = piece data (ref_offset c) (ref_len c))"
  using assms
proof (induction cs arbitrary: seen stats st)
  case (Cons c cs)
  obtain seen1 stats1 st1 where one:
    "recheck_payload sealed now supplied data c (seen, stats, st) = (seen1, stats1, st1)"
    by (metis prod_cases3)
  have "s_cas st1 h = Some b \<Longrightarrow>
      s_cas st h = Some b \<or> h = ref_hash c \<and> b = piece data (ref_offset c) (ref_len c)"
    using one by (auto simp: recheck_payload_def Let_def cas_put_def split: if_splits)
  moreover have "fold (recheck_payload sealed now supplied data) cs (seen1, stats1, st1) = (seen', stats', st')"
    using Cons.prems(1) one by simp
  ultimately show ?case using Cons.IH [of seen1 stats1 st1] Cons.prems(2) by auto
qed simp

lemma link_file_cas:
  assumes "link_file sealed now p m data mtime pl vault here stamp stats st = (stats', st')"
    and "s_cas st' h = Some b"
  shows "s_cas st h = Some b
    \<or> (\<exists>c \<in> set (m_chunks m). h = ref_hash c \<and> b = piece data (ref_offset c) (ref_len c))"
proof -
  obtain seen stats1 st1 where re: "fold (recheck_payload sealed now (here \<or> pl_by_reference pl) data) (m_chunks m)
      ({}, stats, st) = (seen, stats1, st1)" by (metis prod_cases3)
  have "s_cas st' = s_cas st1" using assms(1) by (auto simp: link_file_def re Let_def split: prod.splits)
  then show ?thesis using recheck_cas [OF re] assms(2) by simp
qed

lemma write_cas:
  assumes "fold (write_payload sealed now rewrite supplied data) cs (seen, stats, st) = (seen', stats', st')"
    and "s_cas st' h = Some b"
  shows "s_cas st h = Some b \<or> (\<exists>c \<in> set cs. h = ref_hash c \<and> b = piece data (ref_offset c) (ref_len c))"
  using assms
proof (induction cs arbitrary: seen stats st)
  case (Cons c cs)
  obtain seen1 stats1 st1 where one:
    "write_payload sealed now rewrite supplied data c (seen, stats, st) = (seen1, stats1, st1)"
    by (metis prod_cases3)
  have "s_cas st1 h = Some b \<Longrightarrow>
      s_cas st h = Some b \<or> h = ref_hash c \<and> b = piece data (ref_offset c) (ref_len c)"
    using one by (auto simp: write_payload_def Let_def cas_put_def split: if_splits)
  moreover have "fold (write_payload sealed now rewrite supplied data) cs (seen1, stats1, st1) = (seen', stats', st')"
    using Cons.prems(1) one by simp
  ultimately show ?case using Cons.IH [of seen1 stats1 st1] Cons.prems(2) by auto
qed simp

lemma put_manifest_cas:
  assumes "s_cas (snd (put_manifest sealed now p m data mtime pl st)) h = Some b"
  shows "s_cas st h = Some b
    \<or> (\<exists>c \<in> set (m_chunks m). h = ref_hash c \<and> b = piece data (ref_offset c) (ref_len c))"
proof (cases "same_as_before p m pl (destination p pl st) st")
  case None
  obtain stamp st1 where s: "stamped now p (pl_stamp pl) st = (stamp, st1)" by fastforce
  let ?here = "backed_by_folder st1 (destination p pl st) \<and> supplies st1 p"
  let ?stats = "put_stats_default\<lparr>chunks_total := length (m_chunks m)\<rparr>"
  obtain seen stats st2 where w: "fold (write_payload sealed now (pl_rewrite pl) (?here \<or> pl_by_reference pl) data)
      (m_chunks m) ({}, ?stats, st1) = (seen, stats, st2)" by (metis prod_cases3)
  obtain stats3 st3 where l: "link_file sealed now p m data mtime pl (destination p pl st) ?here stamp stats st2
      = (stats3, st3)" by fastforce
  have "s_cas st1 = s_cas st" using s by (auto simp: stamped_def split: stamp.splits prod.splits)
  with assms link_file_cas [OF l, of h b] write_cas [OF w, of h b] show ?thesis
    by (auto simp: put_manifest_def Let_def None s w l)
next
  case (Some existing)
  then have "s_cas (snd (put_manifest sealed now p m data mtime pl st)) = s_cas st"
    by (auto simp: put_manifest_def Let_def touch_unchanged_def merge_version_def split: stamp.splits option.splits)
  with assms show ?thesis by simp
qed

lemma read_chunks_stored:
  "\<forall>(h, b) \<in> set hbs. s_cas st h = Some b \<and> H b = h \<Longrightarrow> read_chunks H st (map fst hbs) = Inr (concat (map snd hbs))"
  by (induction hbs) (auto simp: read_chunk_def stored_chunk_def)

lemma linked_file_reads:
  assumes "store_ok st" and "intact H st" and "cdc_ok cdc" and "inj_on H (pieces cdc data \<union> ran (s_cas st))"
    and "\<not> here" and "\<not> pl_by_reference pl"
    and "link_file sealed now p (chunk_bytes H cdc data) data mtime pl vault here stamp stats st = (stats', st')"
  shows "\<exists>f. live_row_in (s_index st') p vault = Some f \<and> read_row H st' f = Inr data"
proof -
  let ?m = "chunk_bytes H cdc data"
  let ?piece = "\<lambda>(off, len). piece data off len"
  note link = link_file_gives [OF assms(1,7)]
  from link(2) obtain f where f: "f \<in> set (files (s_index st'))" "f_path f = p" "f_scope f = vault" "f_deleted f = None"
    "f_hash f = m_hash ?m" and hs: "chunk_hashes_for (s_index st') (f_id f) = map ref_hash (m_chunks ?m)"
    by blast
  have stored: "s_cas st' (H (?piece x)) = Some (?piece x)" if x: "x \<in> set (cdc data)" for x
  proof -
    let ?h = "H (?piece x)"
    have "?h \<in> ref_hash ` set (m_chunks ?m)"
      using x by (auto simp: chunk_bytes_def image_image case_prod_beta)
    then obtain b where b: "s_cas st' ?h = Some b"
      using link(3) assms(5,6) by (auto simp: payloads_in_def)
    have "H b = ?h \<and> b \<in> pieces cdc data \<union> ran (s_cas st)"
      using link_file_cas [OF assms(7) b]
    proof
      assume "s_cas st ?h = Some b"
      then show ?thesis using assms(2) by (auto simp: intact_def intro: ranI)
    next
      assume "\<exists>c \<in> set (m_chunks ?m). ?h = ref_hash c \<and> b = piece data (ref_offset c) (ref_len c)"
      then show ?thesis by (force simp: chunk_bytes_def pieces_def)
    qed
    moreover have "?piece x \<in> pieces cdc data" using x by (auto simp: pieces_def)
    ultimately have "b = ?piece x" using inj_onD [OF assms(4), of b "?piece x"] by blast
    with b show ?thesis by simp
  qed
  let ?hbs = "map (\<lambda>x. (H (?piece x), ?piece x)) (cdc data)"
  have "read_chunks H st' (map fst ?hbs) = Inr (concat (map snd ?hbs))"
    by (rule read_chunks_stored) (use stored in auto)
  moreover have "map fst ?hbs = map ref_hash (m_chunks ?m)"
    by (simp add: chunk_bytes_def o_def case_prod_beta)
  moreover have whole: "concat (map snd ?hbs) = data"
    using spec [OF assms(3) [unfolded cdc_ok_def], of data] by (simp add: o_def)
  moreover have "m_hash ?m = H data" using assms(3) by (simp add: chunk_bytes_def cdc_ok_def)
  ultimately have "read_row H st' f = Inr data" by (simp add: read_row_def hs f(5))
  moreover have "live_row_in (s_index st') p vault = Some f"
    using index_ok_row(3) [OF link(1) f(1,4)] f(2,3) by simp
  ultimately show ?thesis by blast
qed

text \<open>C23: a write whose payloads go to the chunk store -- not backed by the folder and not by
  reference -- survives a collection that runs in the middle of it. Whatever other connections did to
  the store between the loop that writes a file's payloads and the transaction that links them -- a
  collection or a sweep taking every one of them again included -- the file then reads back as the
  bytes written, chunk by chunk from the chunk store, as long as no two pieces at hand have one hash
  and the payloads in the chunk store at that time are undamaged.\<close>

theorem write_survives_collection:
  assumes "store_reachable sealed H st" and "(store_step sealed H)\<^sup>*\<^sup>* st1 st2"
    and "fold (write_payload sealed now rewrite False data) (m_chunks (chunk_bytes H cdc data)) ({}, stats0, st)
      = (seen, stats1, st1)"
    and "intact H st2" and "cdc_ok cdc" and "inj_on H (pieces cdc data \<union> ran (s_cas st2))"
    and "\<not> pl_by_reference pl"
    and "link_file sealed now2 p (chunk_bytes H cdc data) data mtime pl vault False stamp stats2 st2 = (stats', st')"
  shows "\<exists>f. live_row_in (s_index st') p vault = Some f \<and> read_row H st' f = Inr data"
proof -
  have "store_reachable sealed H st2"
    using reachable_trans [OF assms(2)] reachable_trans [OF writes_are_steps [OF assms(3)] assms(1)] by blast
  from linked_file_reads [OF store_reachable_ok [OF this] assms(4,5,6) _ assms(7,8)] show ?thesis by simp
qed

subsection \<open>What a collection takes\<close>

lemma find_filter: "(\<And>x. x \<in> set xs \<Longrightarrow> P x \<Longrightarrow> Q x) \<Longrightarrow> find P (filter Q xs) = find P xs"
  by (induction xs) auto

lemma find_SomeD: "find P xs = Some x \<Longrightarrow> x \<in> set xs \<and> P x"
  by (induction xs) (auto split: if_splits)

lemma read_row_cong:
  assumes "chunk_hashes_for (s_index st') (f_id f) = chunk_hashes_for (s_index st) (f_id f)"
    and "\<And>h. h \<in> set (chunk_hashes_for (s_index st) (f_id f)) \<Longrightarrow> read_chunk H st' h = read_chunk H st h"
  shows "read_row H st' f = read_row H st f"
proof -
  have "read_chunks H st' hs = read_chunks H st hs"
    if "set hs \<subseteq> set (chunk_hashes_for (s_index st) (f_id f))" for hs
    using that assms(2) by (induction hs) auto
  then show ?thesis by (simp add: read_row_def assms(1))
qed

lemma collect_fields:
  "files (s_index (collect now retention st)) = filter (\<lambda>f. \<not> expired now retention f) (files (s_index st))"
  "links (s_index (collect now retention st)) = filter (\<lambda>l.
     fst l \<notin> f_id ` {f \<in> set (files (s_index st)). expired now retention f}) (links (s_index st))"
  "s_tree (collect now retention st) = s_tree st" "s_outside (collect now retention st) = s_outside st"
  by (simp_all add: collect_def drop_chunks_def delete_files_def Let_def case_prod_beta)

lemma live_not_expired: "f_deleted f = None \<Longrightarrow> \<not> expired now retention f"
  by (simp add: expired_def Let_def)

lemma collect_keeps_chunk:
  assumes "store_ok st" and "(fid, h) \<in> set (links (s_index (collect now retention st)))"
  shows "s_cas (collect now retention st) h = s_cas st h"
    and "map_option c_size (chunks (s_index (collect now retention st)) h) = map_option c_size (chunks (s_index st) h)"
proof -
  let ?ix = "delete_files now (expired now retention) (s_index st)"
  have ok: "index_ok ?ix" by (rule index_ok_delete_files [OF assms(1)])
  have "(fid, h) \<in> set (links ?ix)" using assms(2) by (simp add: collect_def drop_chunks_def Let_def)
  then have "count_in (links ?ix) h \<noteq> 0" by (metis count_in_zero_iff image_eqI snd_conv)
  then have kept: "\<not> (case chunks ?ix h of None \<Rightarrow> False | Some c \<Rightarrow> collectable now retention c)"
    using index_okD(1) [OF ok, of h] by (auto simp: chunk_ok_def collectable_def split: option.splits)
  show "s_cas (collect now retention st) h = s_cas st h"
    using kept by (simp add: collect_def drop_chunks_def Let_def)
  show "map_option c_size (chunks (s_index (collect now retention st)) h) = map_option c_size (chunks (s_index st) h)"
    using kept by (cases "chunks (s_index st) h")
      (auto simp: collect_def drop_chunks_def Let_def delete_files_def delete_links_chunk split: if_splits)
qed

lemma live_id_kept:
  assumes "store_ok st" and "f \<in> set (files (s_index st))" and "f_deleted f = None"
  shows "f_id f \<notin> f_id ` {g \<in> set (files (s_index st)). expired now retention g}"
proof
  assume "f_id f \<in> f_id ` {g \<in> set (files (s_index st)). expired now retention g}"
  then obtain g where "g \<in> set (files (s_index st))" "expired now retention g" "f_id f = f_id g" by auto
  then have "f = g" using index_okD(3) [OF assms(1)] assms(2) by (auto simp: distinct_map inj_on_def)
  with \<open>expired now retention g\<close> show False using live_not_expired [OF assms(3)] by simp
qed

lemma chunk_hashes_collect:
  assumes "store_ok st" and "f \<in> set (files (s_index st))" and "f_deleted f = None"
  shows "chunk_hashes_for (s_index (collect now retention st)) (f_id f) = chunk_hashes_for (s_index st) (f_id f)"
  using live_id_kept [OF assms, of now retention]
  by (auto simp: chunk_hashes_for_def collect_fields intro!: arg_cong [of _ _ "map snd"] filter_cong)

lemma locate_collect:
  assumes "store_ok st"
  shows "locate_chunk (s_index (collect now retention st)) h = locate_chunk (s_index st) h"
proof -
  let ?ix = "s_index st" and ?ix' = "s_index (collect now retention st)"
  let ?gone = "f_id ` {f \<in> set (files ?ix). expired now retention f}"
  let ?holds = "\<lambda>ix (fid, h'). h' = h \<and> list_ex (\<lambda>f. f_id f = fid \<and> f_deleted f = None \<and> f_here f) (files ix)"
  have same: "?holds ?ix' l = ?holds ?ix l" for l
    by (cases l) (auto simp: collect_fields list_ex_iff live_not_expired)
  have "fst l \<notin> ?gone" if holds: "?holds ?ix l" for l
  proof -
    obtain f where "f \<in> set (files ?ix)" "f_id f = fst l" "f_deleted f = None"
      using holds by (auto simp: list_ex_iff split: prod.splits)
    then show ?thesis using live_id_kept [OF assms, of f] by simp
  qed
  then have find: "find (?holds ?ix') (links ?ix') = find (?holds ?ix) (links ?ix)"
    unfolding same collect_fields(2) by (rule find_filter)
  show ?thesis
  proof (cases "find (?holds ?ix) (links ?ix)")
    case None
    then show ?thesis using find by (simp add: locate_chunk_def)
  next
    case (Some l)
    obtain fid where l: "l = (fid, h)" and "(fid, h) \<in> set (links ?ix)"
      and "list_ex (\<lambda>f. f_id f = fid \<and> f_deleted f = None \<and> f_here f) (files ?ix)"
      using find_SomeD [OF Some] by (cases l) auto
    then obtain f where f: "f \<in> set (files ?ix)" "f_id f = fid" "f_deleted f = None" by (auto simp: list_ex_iff)
    have f': "f \<in> set (files ?ix')" using f by (simp add: collect_fields live_not_expired)
    have row: "find (\<lambda>f. f_id f = fid) (files ?ix) = Some f" "find (\<lambda>f. f_id f = fid) (files ?ix') = Some f"
      using index_ok_row(2) [OF assms f(1)] index_ok_row(2) [OF store_ok_collect [OF assms] f'] f(2) by simp_all
    have hashes: "chunk_hashes_for ?ix' fid = chunk_hashes_for ?ix fid"
      using chunk_hashes_collect [OF assms f(1,3)] f(2) by simp
    have sizes: "map_option c_size (chunks ?ix' h') = map_option c_size (chunks ?ix h')"
      if "h' \<in> set (chunk_hashes_for ?ix fid)" for h'
      using that collect_keeps_chunk(2) [OF assms, of fid h'] unfolding hashes [symmetric]
      by (auto simp: chunk_hashes_for_def)
    have "chunk_offset ?ix' fid h = chunk_offset ?ix fid h"
      unfolding chunk_offset_def hashes
      by (intro arg_cong [of _ _ sum_list] map_cong refl)
        (auto dest!: set_takeWhileD sizes split: option.splits)
    moreover have "h \<in> set (chunk_hashes_for ?ix fid)"
      using \<open>(fid, h) \<in> set (links ?ix)\<close> by (force simp: chunk_hashes_for_def)
    ultimately show ?thesis
      using find sizes [of h] row
      by (cases "chunks ?ix h"; cases "chunks ?ix' h") (simp_all add: locate_chunk_def Some l)
  qed
qed

text \<open>C24: a collection takes nothing a file still needs. Every live file keeps its row and its
  chunks and reads, or fails to read, exactly as before; and a payload is taken only where no file
  is left that links to it, and, but for a collection with no retention, only where none did
  through the whole of it.\<close>

theorem collection_spares_live_files:
  assumes "store_reachable sealed H st" and "f \<in> set (files (s_index st))" and "f_deleted f = None"
    and "retention > 0"
  shows "f \<in> set (files (s_index (collect now retention st)))
    \<and> read_row H (collect now retention st) f = read_row H st f
    \<and> (s_cas st h \<noteq> None \<and> s_cas (collect now retention st) h = None \<longrightarrow>
         h \<notin> snd ` set (links (s_index st))
         \<and> (\<exists>c since. chunks (s_index st) h = Some c \<and> c_since c = Some since \<and> since \<le> now - int retention))"
proof -
  let ?st' = "collect now retention st"
  have ok: "store_ok st" by (rule store_reachable_ok [OF assms(1)])
  have hashes: "chunk_hashes_for (s_index ?st') (f_id f) = chunk_hashes_for (s_index st) (f_id f)"
    by (rule chunk_hashes_collect [OF ok assms(2,3)])
  have "read_chunk H ?st' h = read_chunk H st h" if "h \<in> set (chunk_hashes_for (s_index st) (f_id f))" for h
  proof -
    have "(f_id f, h) \<in> set (links (s_index ?st'))"
      using that unfolding hashes [symmetric] by (auto simp: chunk_hashes_for_def)
    moreover have "chunk_from_tree H ?st' h = chunk_from_tree H st h"
      by (simp add: chunk_from_tree_def collect_fields locate_collect [OF ok] cong: option.case_cong)
    moreover have "stored_chunk H ?st' h = stored_chunk H st h"
      using collect_keeps_chunk(1) [OF ok \<open>(f_id f, h) \<in> set (links (s_index ?st'))\<close>] by (simp add: stored_chunk_def)
    ultimately show ?thesis
      using collect_keeps_chunk(1) [OF ok \<open>(f_id f, h) \<in> set (links (s_index ?st'))\<close>]
      by (simp add: read_chunk_def chunk_from_outside_def collect_fields cong: option.case_cong)
  qed
  from read_row_cong [OF hashes this] have read: "read_row H ?st' f = read_row H st f" by blast
  have "h \<notin> snd ` set (links (s_index st))
      \<and> (\<exists>c since. chunks (s_index st) h = Some c \<and> c_since c = Some since \<and> since \<le> now - int retention)"
    if taken: "s_cas st h \<noteq> None" "s_cas ?st' h = None"
  proof -
    let ?P = "\<lambda>(fid, h'). fid \<in> f_id ` {f \<in> set (files (s_index st)). expired now retention f}"
    let ?ix = "delete_files now (expired now retention) (s_index st)"
    obtain c where c: "chunks ?ix h = Some c" "collectable now retention c"
      using taken by (auto simp: collect_def drop_chunks_def Let_def split: if_splits option.splits)
    obtain c0 where c0: "chunks (s_index st) h = Some c0"
      using c(1) by (auto simp: delete_files_def Let_def delete_links_chunk)
    have since: "\<exists>since. c_since c = Some since \<and> since \<le> now - int retention" and "c_refs c = 0"
      using c(2) by (auto simp: collectable_def split: option.splits)
    have zero: "count_in (filter ?P (links (s_index st))) h = 0"
      using c(1) c0 since assms(4)
      by (auto simp: delete_files_def Let_def delete_links_chunk split: if_splits)
    then have "c = c0" using c(1) c0 by (auto simp: delete_files_def Let_def delete_links_chunk)
    moreover have "count_in (links (s_index st)) h = 0"
      using index_okD(1) [OF ok, of h] c0 \<open>c_refs c = 0\<close> \<open>c = c0\<close> by (simp add: chunk_ok_def)
    ultimately show ?thesis using c0 since by (simp add: count_in_zero_iff)
  qed
  then show ?thesis using read assms(2) by (auto simp: collect_fields live_not_expired [OF assms(3)])
qed

subsection \<open>Freeing a file\<close>

lemma find_map_same: "(\<And>x. x \<in> set xs \<Longrightarrow> P (g x) = P x) \<Longrightarrow> find P (map g xs) = map_option g (find P xs)"
  by (induction xs) auto

lemma in_folder_row:
  "in_folder ix p = Some f \<Longrightarrow> f \<in> set (files ix) \<and> f_path f = p \<and> f_deleted f = None \<and> folder_scope ix f"
  by (auto simp: in_folder_def folder_row_def live_row_in_def file_by_path_def own_vault_row_def folder_scope_def
      split: option.splits if_splits dest!: find_SomeD)

lemma is_materialised_set:
  assumes "f \<in> set (files ix)" and "f_path f = p" and "f_deleted f = None" and "folder_scope ix f"
  shows "is_materialised (set_materialised p b ix) p = Some b"
proof -
  let ?P = "\<lambda>f. f_path f = p \<and> f_deleted f = None \<and> folder_scope ix f"
  have scope: "folder_scope (set_materialised p b ix) f = folder_scope ix f" for f
    by (simp add: folder_scope_def set_materialised_def)
  have set_here: "?P (if ?P f then f\<lparr>f_here := b\<rparr> else f) = ?P f" for f
    by (simp add: folder_scope_def)
  obtain g where g: "find ?P (files ix) = Some g"
    using assms by (cases "find ?P (files ix)") (auto simp: find_None_iff)
  then show ?thesis
    unfolding is_materialised_def scope using find_SomeD [OF g]
    by (simp add: set_materialised_def find_map_same [of "files ix" ?P, OF set_here])
qed

subsection \<open>A deletion learned late\<close>

text \<open>How long a deletion is remembered depends on when it was made, not on when it was
  learned. A deletion that arrives from another device already older than the retention is gone
  with the next collection: the index then knows nothing of the path in the shared area.\<close>

lemma late_deletion_is_forgotten_at_once:
  assumes "store_reachable sealed H st" and "content version = Deleted"
    and "sint (modified_at version) \<le> now - int retention"
  shows "\<exists>st'. adopt sealed H cdc now version None mtime st = Inr (put_stats_default, st')
    \<and> (\<exists>f. file_by_path (s_index st') (path version) = Some f \<and> f_vector f = vector version \<and> f_deleted f \<noteq> None)
    \<and> file_by_path (s_index (collect now retention st')) (path version) = None"
proof -
  define at where "at = sint (modified_at version)"
  define new where "new = \<lparr>f_id = 0, f_path = path version, f_size = 0, f_hash = replicate 32 0, f_mtime = 0,
      f_updated = at, f_deleted = Some at, f_vector = vector version, f_by = modified_by version, f_here = True,
      f_touched = 0, f_wanted = False, f_scope = None, f_held = False\<rparr>"
  let ?over = "\<lambda>f. f\<lparr>f_deleted := Some at, f_updated := at, f_vector := vector version, f_by := modified_by version\<rparr>"
  let ?st' = "tombstone_row now (path version) (RemoteStamp version) None st"
  obtain fid ix where up: "upsert_file new ?over (s_index st) = (fid, ix)" by fastforce
  have st': "s_index ?st' = ix"
    by (simp add: tombstone_row_def stamped_def Let_def up at_def [symmetric] flip: new_def)
  obtain r where r: "r \<in> set (files ix)" "f_path r = path version" "f_scope r = None"
    "f_deleted r = Some at" "f_vector r = vector version"
  proof -
    from upsert_row [OF up] obtain r where in_files: "r \<in> set (files ix)"
      and key: "f_path r = f_path new" "f_scope r = f_scope new" and alt: "r = new\<lparr>f_id := fid\<rparr>
        \<or> (\<exists>old. r = (?over old)\<lparr>f_id := fid, f_path := f_path new, f_scope := f_scope new\<rparr>)" by blast
    have "f_deleted r = Some at \<and> f_vector r = vector version"
      using alt by (elim disjE exE) (simp_all add: new_def)
    with in_files key show thesis by (intro that [of r]) (simp_all add: new_def)
  qed
  have ok: "index_ok ix" by (rule index_ok_upsert(1) [OF store_reachable_ok [OF assms(1)] up])
  have row: "file_by_path ix (path version) = Some r"
    using index_ok_row(1) [OF ok r(1)] r(2,3) by (simp add: file_by_path_def)
  have "expired now retention r" using assms(3) r(3,4) by (simp add: expired_def Let_def flip: at_def)
  moreover have "x = r" if "x \<in> set (files ix)" "f_path x = path version" "f_scope x = None" for x
    using index_ok_row(1) [OF ok that(1)] that(2,3) row by (simp add: file_by_path_def)
  ultimately have "file_by_path (s_index (collect now retention ?st')) (path version) = None"
    by (auto simp: file_by_path_def collect_fields st' find_None_iff)
  then show ?thesis using row r(4,5) assms(2) by (simp add: adopt_def st')
qed

end
