(* ===== verification/Store_Cases.thy ===== *)
theory Store_Cases imports Store
begin

section \<open>The store on concrete inputs\<close>

text \<open>
  A laptop with one report in its folder that also keeps the same bytes for a phone: the case in
  which the store loses a kept file, and the inputs at which the store's theorems are applied. The
  hash of a chunk is here the chunk itself, and every file is one chunk.
\<close>

subsection \<open>A copy kept for another device leans on the folder\<close>

definition whole_file :: "bytes \<Rightarrow> (nat \<times> nat) list" where
  "whole_file data = (if data = [] then [] else [(0, length data)])"

definition laptop :: device_id where "laptop = DeviceId [1]"
definition phone :: device_id where "phone = DeviceId [2]"
definition desktop :: device_id where "desktop = DeviceId [3]"
definition report :: bytes where "report = [7, 8, 9]"

definition kept_version :: file_version where
  "kept_version = \<lparr>path = ''backup/r'', content = File report 3, vector = VersionVector [(phone, 1)],
     modified_by = phone, modified_at = 50, area = Hold\<rparr>"

definition with_report :: store where
  "with_report = snd (store_put_bytes length (\<lambda>b. b) whole_file 100 ''r'' report 0
     (store_new laptop (Some [''r'' \<mapsto> report])))"

definition keeping :: store where
  "keeping = snd (hold_file length (\<lambda>b. b) whole_file 100 kept_version phone report with_report)"

definition report_deleted :: "store \<Rightarrow> store" where
  \<comment> \<open>the person deletes the report from the folder, and the engine records it\<close>
  "report_deleted st =
     (case delete_file 200 ''r'' (st\<lparr>s_tree := Some (\<lambda>_. None)\<rparr>) of Inr st \<Rightarrow> st | Inl _ \<Rightarrow> st)"

lemma chunk_of_report: "m_chunks (chunk_bytes (\<lambda>b. b) whole_file report) =
    [\<lparr>ref_hash = report, ref_offset = 0, ref_len = 3\<rparr>]"
  by (simp add: chunk_bytes_def whole_file_def report_def piece_def)

lemma piece_of_report: "piece report 0 3 = report"
  by (simp add: piece_def report_def)

lemma keeping_cas: "s_cas keeping h = Some b \<Longrightarrow> h = report \<and> b = report"
  by (auto simp: keeping_def with_report_def hold_file_def store_put_bytes_def chunk_of_report store_new_def
      piece_of_report dest!: put_manifest_cas)

text \<open>The store \<open>reclaim\<close> leaves, written out.\<close>

definition reclaimed :: store where
  "reclaimed = keeping\<lparr>s_index := (s_index keeping)\<lparr>chunks := (chunks (s_index keeping))
       (report := map_option (\<lambda>c. c\<lparr>c_stored := 0\<rparr>) (chunks (s_index keeping) report))\<rparr>,
     s_cas := (s_cas keeping)(report := None)\<rparr>"

lemma reclaim_keeping: "reclaim (\<lambda>b. b) keeping = reclaimed"
proof -
  have "isl (case s_tree keeping of None \<Rightarrow> Inl () | Some _ \<Rightarrow> Inr ()) = False" by code_simp
  then obtain tree where tree: "s_tree keeping = Some tree" by (auto split: option.splits)
  have "chunk_from_tree (\<lambda>b. b) keeping report = Some report" "s_cas keeping report = Some report" by code_simp+
  then have drop: "(\<lambda>h. chunk_from_tree (\<lambda>b. b) keeping h \<noteq> None \<and> s_cas keeping h \<noteq> None) = (\<lambda>h. h = report)"
    using keeping_cas by (intro ext iffI) auto
  have upd: "(\<lambda>h. if h = report then f (g h) else g h) = g(report := f (g report))" for f and g :: "hash \<Rightarrow> 'a"
    by (rule ext) simp
  show ?thesis
    using tree unfolding reclaim_def drop_payloads_def Let_def drop by (simp add: reclaimed_def upd [of "\<lambda>_. None"] upd)
qed

text \<open>A copy kept for another device can be lost with a file of this one. The laptop has a
  report in its folder and keeps the same bytes for a phone, under another name; deleting the
  report leaves the phone's copy readable, as it should. But \<open>reclaim\<close>, which runs with every
  housekeeping, drops any payload the folder supplies, also one a kept file was given so as not to
  depend on the folder: after it, deleting the report loses the phone's copy, whose row stays live.\<close>

lemma reclaim_then_delete_loses_a_kept_file:
  "read_held (\<lambda>b. b) (report_deleted keeping) phone ''backup/r'' = Inr report
   \<and> read_held (\<lambda>b. b) (reclaim (\<lambda>b. b) keeping) phone ''backup/r'' = Inr report
   \<and> read_held (\<lambda>b. b) (report_deleted (reclaim (\<lambda>b. b) keeping)) phone ''backup/r'' = Inl (ChunkMissing report)
   \<and> is_held (s_index (report_deleted (reclaim (\<lambda>b. b) keeping))) ''backup/r'' phone"
  unfolding reclaim_keeping by (intro conjI) code_simp+

subsection \<open>Examples\<close>

lemma keeping_reachable: "store_reachable length (\<lambda>b. b) keeping"
  unfolding keeping_def with_report_def hold_file_def store_put_bytes_def
  by (rule reachable_trans [OF put_is_steps reachable_trans [OF put_is_steps reach_new]])

theorem refcounts_never_drift_witness:
  "refcount_drift (s_index keeping) report = None
   \<and> map_option c_refs (chunks (s_index keeping) report) = Some 2"
proof -
  have "map_option c_refs (chunks (s_index keeping) report) = Some 2" by code_simp
  with refcounts_never_drift [OF keeping_reachable, of report] show ?thesis by blast
qed

definition half_written :: store where
  "half_written = snd (snd (fold (write_payload length 100 False False report)
     (m_chunks (chunk_bytes (\<lambda>b. b) whole_file report)) ({}, put_stats_default, store_new laptop None)))"

lemma half_written_cas: "s_cas half_written h = Some b \<Longrightarrow> b = h"
  by (auto simp: half_written_def write_payload_def chunk_bytes_def whole_file_def report_def piece_def
      store_new_def index_new_def cas_put_def has_chunk_row_def Let_def split: if_splits)

lemma whole_file_ok: "cdc_ok whole_file"
  by (simp add: cdc_ok_def whole_file_def piece_def)

theorem write_survives_collection_witness:
  "\<exists>f. live_row_in (s_index (snd (link_file length 102 ''r'' (chunk_bytes (\<lambda>b. b) whole_file report) report 0
       pl_local None False (VersionVector [(laptop, 1)], laptop, 102) put_stats_default (collect 101 0 half_written))))
     ''r'' None = Some f
   \<and> read_row (\<lambda>b. b) (snd (link_file length 102 ''r'' (chunk_bytes (\<lambda>b. b) whole_file report) report 0
       pl_local None False (VersionVector [(laptop, 1)], laptop, 102) put_stats_default (collect 101 0 half_written))) f
     = Inr report"
proof (rule write_survives_collection [where st = "store_new laptop None" and ?st1.0 = half_written
    and H = "\<lambda>b. b" and sealed = length and cdc = whole_file and pl = pl_local and rewrite = False and ?stats0.0 = put_stats_default])
  show "store_reachable length (\<lambda>b. b) (store_new laptop None)" by (rule reach_new)
  show "(store_step length (\<lambda>b. b))\<^sup>*\<^sup>* half_written (collect 101 0 half_written)"
    by (rule r_into_rtranclp) (rule step_collect)
  show "fold (write_payload length 100 False False report) (m_chunks (chunk_bytes (\<lambda>b. b) whole_file report))
      ({}, put_stats_default, store_new laptop None)
    = (fst (fold (write_payload length 100 False False report) (m_chunks (chunk_bytes (\<lambda>b. b) whole_file report))
         ({}, put_stats_default, store_new laptop None)),
       fst (snd (fold (write_payload length 100 False False report) (m_chunks (chunk_bytes (\<lambda>b. b) whole_file report))
         ({}, put_stats_default, store_new laptop None))), half_written)"
    by (simp add: half_written_def)
  show "intact (\<lambda>b. b) (collect 101 0 half_written)"
    by (auto simp: intact_def collect_def drop_chunks_def Let_def split: if_splits dest: half_written_cas)
  show "cdc_ok whole_file" by (rule whole_file_ok)
  show "inj_on (\<lambda>b. b) (pieces whole_file report \<union> ran (s_cas (collect 101 0 half_written)))" by simp
  show "\<not> pl_by_reference pl_local" by (simp add: pl_local_def)
qed (rule surjective_pairing)

theorem collection_spares_live_files_witness:
  "read_row (\<lambda>b. b) (collect 1000000 604800 keeping) (hd (files (s_index keeping)))
     = read_row (\<lambda>b. b) keeping (hd (files (s_index keeping)))
   \<and> f_path (hd (files (s_index keeping))) = ''r''"
proof -
  have "hd (files (s_index keeping)) \<in> set (files (s_index keeping))" "f_deleted (hd (files (s_index keeping))) = None"
    "f_path (hd (files (s_index keeping))) = ''r''"
    by code_simp+
  with collection_spares_live_files [OF keeping_reachable this(1,2), of 604800 1000000 report] show ?thesis by simp
qed

definition with_copy :: store where
  "with_copy = with_report\<lparr>s_index := note_replica report desktop False (s_index with_report)\<rparr>"

lemma late_deletion_is_forgotten_at_once_witness:
  "\<exists>st'. adopt length (\<lambda>b. b) whole_file 1000000 (tombstone ''r'' (VersionVector [(desktop, 4)]) desktop 10) None 0 keeping
      = Inr (put_stats_default, st')
    \<and> (\<exists>f. file_by_path (s_index st') ''r'' = Some f \<and> f_vector f = VersionVector [(desktop, 4)] \<and> f_deleted f \<noteq> None)
    \<and> file_by_path (s_index (collect 1000000 604800 st')) ''r'' = None"
  using late_deletion_is_forgotten_at_once [OF keeping_reachable,
      of "tombstone ''r'' (VersionVector [(desktop, 4)]) desktop 10" 1000000 604800 whole_file 0]
  by (simp add: tombstone_def)

end
