(* ===== verification/Scan.thy ===== *)
theory Scan imports Rust_Str Ordered_Map "HOL-Library.List_Lexorder" "HOL-Library.Char_ord" "HOL-Library.Product_Lexorder"
begin

section \<open>What of the folder is looked at (\<open>crates/watcher/src/ignore.rs\<close>, \<open>scan.rs\<close>)\<close>

text \<open>
  A path of this machine is the list of its normal components, absolute and with the platform's
  separators taken out, as \<open>Path::components\<close> gives them; a component need not be text. The walk
  of a directory (\<open>walkdir\<close>) is a parameter: every entry under the root, directories included,
  with what \<open>metadata\<close> says of it. So are Unicode's normal form C and its lower case.
\<close>

type_synonym os_path = "string list"

definition to_str :: "string \<Rightarrow> string option" where
  \<comment> \<open>\<open>OsStr::to_str\<close>\<close>
  "to_str c = (if valid_str c then Some c else None)"

definition path_starts_with :: "os_path \<Rightarrow> os_path \<Rightarrow> bool" where
  "path_starts_with p root \<longleftrightarrow> take (length root) p = root"

subsection \<open>Ignored names\<close>

abbreviation (input) IGNORED_DIRS :: "string list" where
  "IGNORED_DIRS \<equiv> [''.git'', ''.svn'', ''.hg'', ''.bzr'', ''node_modules'', ''__pycache__'']"

abbreviation (input) IGNORED_NAMES :: "string list" where
  "IGNORED_NAMES \<equiv> [''.DS_Store'', ''Thumbs.db'', ''desktop.ini'']"

abbreviation (input) IGNORED_SUFFIXES :: "string list" where
  "IGNORED_SUFFIXES \<equiv> [''.tmp'', ''.temp'', ''.swp'', ''.swx'', ''.part'', ''.partial'', ''.crdownload'',
     ''.download'', ''.incoming'', ''~'']"

abbreviation (input) IGNORED_PREFIXES :: "string list" where
  "IGNORED_PREFIXES \<equiv> [''.#'', ''~$'', ''.~lock.'']"

record ignore_rules =
  store_dir :: "os_path option"
  extra_dirs :: "string list"

definition ignore_new :: ignore_rules where
  "ignore_new = \<lparr>store_dir = None, extra_dirs = []\<rparr>"

definition with_store_dir :: "os_path \<Rightarrow> ignore_rules \<Rightarrow> ignore_rules" where
  "with_store_dir dir r = r\<lparr>store_dir := Some dir\<rparr>"

definition ignoring_dir :: "string \<Rightarrow> ignore_rules \<Rightarrow> ignore_rules" where
  "ignoring_dir name r = r\<lparr>extra_dirs := extra_dirs r @ [name]\<rparr>"

definition is_ignored_name :: "string \<Rightarrow> bool" where
  "is_ignored_name name \<longleftrightarrow>
     name \<in> set IGNORED_NAMES \<or> list_ex (starts_with name) IGNORED_PREFIXES
     \<or> list_ex (ends_with (map to_ascii_lowercase name)) IGNORED_SUFFIXES"

definition is_ignored :: "ignore_rules \<Rightarrow> os_path \<Rightarrow> bool" where
  "is_ignored r p \<longleftrightarrow>
     (case store_dir r of None \<Rightarrow> False | Some dir \<Rightarrow> path_starts_with p dir)
     \<or> list_ex (\<lambda>c. case to_str c of None \<Rightarrow> False
         | Some name \<Rightarrow> name \<in> set IGNORED_DIRS \<or> name \<in> set (extra_dirs r)) p
     \<or> (if p = [] then False else case to_str (last p) of None \<Rightarrow> False | Some name \<Rightarrow> is_ignored_name name)"

subsection \<open>The walk\<close>

record dir_entry =
  de_path :: os_path
  de_file :: bool
  de_size :: nat
  de_mtime :: int

record scan_entry =
  se_path :: os_path
  se_logical :: string
  se_size :: nat
  se_mtime :: int

definition logical_path :: "(string \<Rightarrow> string) \<Rightarrow> os_path \<Rightarrow> os_path \<Rightarrow> string option" where
  "logical_path nfc root p =
     (if \<not> path_starts_with p root then None
      else let parts = map to_str (drop (length root) p)
           in if None \<in> set parts \<or> parts = [] then None
              else Some (nfc (join_on ''/'' (map the parts))))"

definition passes :: "ignore_rules \<Rightarrow> os_path \<Rightarrow> os_path \<Rightarrow> bool" where
  \<comment> \<open>\<open>filter_entry\<close>: neither the entry nor a directory it was reached through, from the root on,
    is ignored\<close>
  "passes r root p \<longleftrightarrow> list_all (\<lambda>n. \<not> is_ignored r (take n p)) [length root..<Suc (length p)]"

definition preferred :: "(string \<Rightarrow> string) \<Rightarrow> scan_entry \<Rightarrow> bool \<times> os_path" where
  \<comment> \<open>\<open>prefer\<close>\<close>
  "preferred nfc e =
     (let name = (if se_path e = [] then [] else case to_str (last (se_path e)) of None \<Rightarrow> [] | Some n \<Rightarrow> n)
      in (nfc name \<noteq> name, se_path e))"

definition scan_entries :: "(string \<Rightarrow> string) \<Rightarrow> os_path \<Rightarrow> ignore_rules \<Rightarrow> dir_entry list \<Rightarrow> scan_entry list" where
  "scan_entries nfc root r walk =
     List.map_filter (\<lambda>e. if de_file e
         then map_option (\<lambda>l. \<lparr>se_path = de_path e, se_logical = l, se_size = de_size e, se_mtime = de_mtime e\<rparr>)
                (logical_path nfc root (de_path e))
         else None)
       (filter (\<lambda>e. passes r root (de_path e)) walk)"

definition scan :: "(string \<Rightarrow> string) \<Rightarrow> os_path \<Rightarrow> ignore_rules \<Rightarrow> dir_entry list \<Rightarrow> scan_entry list" where
  "scan nfc root r walk =
     sort_key (\<lambda>e. (se_logical e, preferred nfc e)) (scan_entries nfc root r walk)"

subsection \<open>Names that collide\<close>

fun chunk_by :: "('a \<Rightarrow> 'a \<Rightarrow> bool) \<Rightarrow> 'a list \<Rightarrow> 'a list list" where
  "chunk_by eq [] = []"
| "chunk_by eq [x] = [[x]]"
| "chunk_by eq (x # y # ys) =
     (if eq x y then (case chunk_by eq (y # ys) of g # gs \<Rightarrow> (x # g) # gs | [] \<Rightarrow> [[x]])
      else [x] # chunk_by eq (y # ys))"

definition distinct_paths :: "scan_entry list \<Rightarrow> scan_entry list" where
  \<comment> \<open>the filter that keeps the first entry of each path\<close>
  "distinct_paths es =
     snd (fold (\<lambda>e (seen, out). if se_path e \<in> set seen then (seen, out) else (seen @ [se_path e], out @ [e]))
       es ([], []))"

definition normalization_collisions :: "scan_entry list \<Rightarrow> scan_entry list list" where
  "normalization_collisions es =
     filter (\<lambda>g. length g > 1) (map distinct_paths (chunk_by (\<lambda>a b. se_logical a = se_logical b) es))"

definition case_collisions :: "(string \<Rightarrow> string) \<Rightarrow> string list \<Rightarrow> string list list" where
  "case_collisions lower ps =
     filter (\<lambda>g. length g > 1)
       (bm_values (fold (\<lambda>p m. bm_insert (lower p)
            ((case bm_get m (lower p) of Some g \<Rightarrow> g | None \<Rightarrow> []) @ [p]) m) ps []))"

definition without_collisions :: "scan_entry list \<Rightarrow> nat \<times> scan_entry list" where
  \<comment> \<open>what \<open>Engine::reconcile\<close> keeps of a scan, and how many it skips\<close>
  "without_collisions es =
     (let skip = concat (map (\<lambda>g. map se_path (tl g)) (normalization_collisions es))
      in (length skip, filter (\<lambda>e. se_path e \<notin> set skip) es))"

subsection \<open>What is kept\<close>

lemma chunk_by_concat: "concat (chunk_by eq xs) = xs"
  by (induction eq xs rule: chunk_by.induct) (auto split: list.splits)

lemma chunk_by_nonempty: "[] \<notin> set (chunk_by eq xs)"
  by (induction eq xs rule: chunk_by.induct) (auto split: list.splits)

lemma chunk_by_hd: "xs \<noteq> [] \<Longrightarrow> \<exists>g gs. chunk_by eq xs = (hd xs # g) # gs"
  by (induction eq xs rule: chunk_by.induct) (auto split: list.splits)

lemma chunk_by_heads:
  assumes "sorted (map k xs)"
  shows "distinct (map (k \<circ> hd) (chunk_by (\<lambda>a b. k a = k b) xs))
    \<and> (\<forall>g \<in> set (chunk_by (\<lambda>a b. k a = k b) xs). \<forall>x \<in> set g. k x = k (hd g))"
  using assms
proof (induction "\<lambda>a b. k a = k b" xs rule: chunk_by.induct)
  case (3 x y ys)
  let ?eq = "\<lambda>a b. k a = k b"
  obtain g gs where c: "chunk_by ?eq (y # ys) = (y # g) # gs" using chunk_by_hd [of "y # ys" ?eq] by auto
  have sorted: "sorted (map k (y # ys))" using 3(3) by simp
  show ?case
  proof (cases "k x = k y")
    case True
    have "distinct (map (k \<circ> hd) ((y # g) # gs))" and "\<forall>g' \<in> set ((y # g) # gs). \<forall>z \<in> set g'. k z = k (hd g')"
      using 3(1) [OF True sorted] unfolding c by blast+
    moreover have "chunk_by ?eq (x # y # ys) = (x # y # g) # gs" using True by (simp add: c)
    ultimately show ?thesis using True by simp
  next
    case False
    then have "k x < k y" and "\<forall>z \<in> set ys. k y \<le> k z" using 3(3) by auto
  then have less: "k x < k z" if "z \<in> set (y # ys)" for z using that by (auto intro: less_le_trans)
    have "k x < k (hd g')" if g': "g' \<in> set (chunk_by ?eq (y # ys))" for g'
    proof -
      have "g' \<noteq> []" using g' chunk_by_nonempty [of ?eq "y # ys"] by auto
      then have "hd g' \<in> set (concat (chunk_by ?eq (y # ys)))" using g' by (auto intro: bexI [of _ g'])
      then show ?thesis using less by (simp only: chunk_by_concat)
    qed
    then have "k x \<notin> (k \<circ> hd) ` set (chunk_by ?eq (y # ys))" by fastforce
    moreover obtain c where c: "c = chunk_by ?eq (y # ys)" by blast
    moreover have "chunk_by ?eq (x # y # ys) = [x] # c" using False by (simp add: c)
    ultimately show ?thesis using 3(2) [OF False sorted] unfolding c [symmetric] by simp
  qed
qed auto

lemma filter_heads:
  "distinct (map f (concat gs)) \<Longrightarrow> [] \<notin> set gs \<Longrightarrow>
   filter (\<lambda>e. f e \<notin> f ` set (concat (map tl gs))) (concat gs) = map hd gs"
proof (induction gs)
  case (Cons g gs)
  obtain x xs where g: "g = x # xs" using Cons.prems(2) by (cases g) auto
  have sub: "f ` set (concat (map tl gs)) \<subseteq> f ` set (concat gs)"
    by (auto simp: image_iff) (metis list.sel(2) list.set_sel(2))
  have apart: "f ` set g \<inter> f ` set (concat gs) = {}" and dist: "distinct (map f (concat gs))"
    using Cons.prems(1) by auto
  have "filter (\<lambda>e. f e \<notin> f ` set (concat (map tl (g # gs)))) (concat gs) =
      filter (\<lambda>e. f e \<notin> f ` set (concat (map tl gs))) (concat gs)"
  proof (intro filter_cong refl)
    fix e assume "e \<in> set (concat gs)"
    then have "f e \<notin> f ` set g" using apart by (meson disjoint_iff imageI)
    then have "f e \<notin> f ` set xs" by (auto simp: g)
    then show "(f e \<notin> f ` set (concat (map tl (g # gs)))) = (f e \<notin> f ` set (concat (map tl gs)))"
      by (auto simp: g)
  qed
  also have "\<dots> = map hd gs" using Cons.IH [OF dist] Cons.prems(2) by simp
  finally have rest: "filter (\<lambda>e. f e \<notin> f ` set (concat (map tl (g # gs)))) (concat gs) = map hd gs" .
  have "f x \<notin> f ` set xs" using Cons.prems(1) by (auto simp: g)
  then have "f x \<notin> f ` set (concat (map tl (g # gs)))" using apart sub by (auto simp: g)
  moreover have "filter (\<lambda>e. f e \<notin> f ` set (concat (map tl (g # gs)))) xs = []"
    by (auto simp: g filter_empty_conv)
  ultimately show ?case using rest by (simp add: g)
qed simp

lemma distinct_paths_same: "distinct (map se_path es) \<Longrightarrow> distinct_paths es = es"
proof -
  have "distinct (seen @ map se_path es) \<Longrightarrow>
      fold (\<lambda>e (seen, out). if se_path e \<in> set seen then (seen, out) else (seen @ [se_path e], out @ [e])) es (seen, out)
        = (seen @ map se_path es, out @ es)" for seen out
    by (induction es arbitrary: seen out) auto
  from this [of "[]" "[]"] show "distinct (map se_path es) \<Longrightarrow> distinct_paths es = es"
    by (simp add: distinct_paths_def)
qed

lemma without_collisions_heads:
  assumes "distinct (map se_path es)"
  shows "snd (without_collisions es) = map hd (chunk_by (\<lambda>a b. se_logical a = se_logical b) es)"
proof -
  let ?gs = "chunk_by (\<lambda>a b. se_logical a = se_logical b) es"
  have es: "concat ?gs = es" by (rule chunk_by_concat)
  have "distinct (concat (map (map se_path) ?gs))" using assms es by (metis map_concat)
  then have "\<forall>ps \<in> set (map (map se_path) ?gs). distinct ps" by (simp add: distinct_concat_iff)
  then have "distinct (map se_path g)" if "g \<in> set ?gs" for g using that by simp
  then have same: "map distinct_paths ?gs = ?gs" by (intro map_idI distinct_paths_same)
  have skip: "concat (map (\<lambda>g. map se_path (tl g)) (filter (\<lambda>g. length g > 1) gs)) = map se_path (concat (map tl gs))" for gs
  proof (induction gs)
    case (Cons g gs)
    then show ?case by (cases g; cases "tl g") auto
  qed simp
  have "snd (without_collisions es) = filter (\<lambda>e. se_path e \<notin> se_path ` set (concat (map tl ?gs))) es"
    by (simp only: without_collisions_def normalization_collisions_def same Let_def snd_conv skip set_map)
  also have "\<dots> = map hd ?gs"
    using filter_heads [of se_path ?gs] assms chunk_by_nonempty [of _ es] by (simp add: es)
  finally show ?thesis .
qed

lemma scan_paths: "set (map se_path (scan_entries nfc root r walk)) \<subseteq> set (map de_path walk)"
  by (auto simp: scan_entries_def map_filter_def split: if_splits)

lemma scan_distinct:
  "distinct (map de_path walk) \<Longrightarrow> distinct (map se_path (scan_entries nfc root r walk))"
proof (induction walk)
  case (Cons e walk)
  have "de_path e \<notin> set (map se_path (scan_entries nfc root r walk))"
    using Cons.prems scan_paths [of nfc root r walk] by auto
  then show ?case using Cons
    by (auto simp: scan_entries_def map_filter_simps split: option.splits if_splits)
qed (simp add: scan_entries_def map_filter_simps)

lemma sort_key_unique:
  fixes k :: "'a \<Rightarrow> 'b::linorder"
  assumes "distinct xs" and "distinct ys" and "set xs = set ys" and "inj_on k (set xs)"
  shows "sort_key k xs = sort_key k ys"
proof -
  have "map k (sort_key k xs) = map k (sort_key k ys)"
  proof (rule sorted_distinct_set_unique)
    show "distinct (map k (sort_key k xs))" "distinct (map k (sort_key k ys))"
      using assms by (auto simp: distinct_map)
  qed (use assms in auto)
  then show ?thesis using assms(3,4) by (auto intro: map_inj_on simp: inj_on_Un)
qed

lemma chunk_head_first:
  assumes "sorted (map k xs)" and "g \<in> set (chunk_by eq xs)" and "x \<in> set g"
  shows "k (hd g) \<le> k x"
proof -
  obtain as bs where "chunk_by eq xs = as @ g # bs" using assms(2) by (auto simp: in_set_conv_decomp)
  then have "sorted (map k (concat (as @ g # bs)))" using chunk_by_concat [of eq xs] assms(1) by simp
  then have "sorted (map k g)" by (simp add: sorted_append)
  then show ?thesis using assms(3) by (cases g) auto
qed

text \<open>What a scan finds does not depend on the order the directory is read in. Of the files
  whose names come to one path of the index one is kept, each path of the scan has the one, and it
  is the first by a rule that looks at the names only: the spelling already in normal form, then
  the least. So two devices that hold the same files keep the same ones.\<close>

lemma collisions_are_decided_alike:
  assumes "distinct (map de_path walk)" and "distinct (map de_path walk')" and "set walk' = set walk"
  shows "scan nfc root r walk' = scan nfc root r walk
    \<and> distinct (map se_logical (snd (without_collisions (scan nfc root r walk))))
    \<and> se_logical ` set (snd (without_collisions (scan nfc root r walk))) = se_logical ` set (scan nfc root r walk)
    \<and> (\<forall>e \<in> set (snd (without_collisions (scan nfc root r walk))). \<forall>e' \<in> set (scan nfc root r walk).
         se_logical e' = se_logical e \<longrightarrow> preferred nfc e \<le> preferred nfc e')"
proof -
  let ?k = "\<lambda>e. (se_logical e, preferred nfc e)" and ?es = "scan_entries nfc root r"
  let ?s = "scan nfc root r walk"
  let ?gs = "chunk_by (\<lambda>a b. se_logical a = se_logical b) ?s"
  have "set (?es walk') = set (?es walk)" using assms(3) by (auto simp: scan_entries_def map_filter_def)
  moreover have dist: "distinct (map se_path (?es walk))" "distinct (map se_path (?es walk'))"
    using scan_distinct assms(1,2) by auto
  moreover have inj: "inj_on ?k (set (?es walk))"
    using dist(1) by (auto simp: distinct_map inj_on_def preferred_def Let_def)
  ultimately have "scan nfc root r walk' = ?s"
    unfolding scan_def by (intro sort_key_unique) (auto simp: distinct_map)
  moreover have sorted: "sorted (map ?k ?s)" unfolding scan_def by (rule sorted_sort_key)
  then have "sorted (map se_logical ?s)" by (auto simp: sorted_wrt_map less_eq_prod_def elim!: sorted_wrt_mono_rel [rotated])
  note heads = chunk_by_heads [OF this]
  have "distinct (map se_path ?s)" using dist(1) by (simp add: scan_def distinct_map)
  note kept = without_collisions_heads [OF this]
  have es: "set ?s = (\<Union>g \<in> set ?gs. set g)" by (metis chunk_by_concat set_concat)
  have hd_in: "hd g \<in> set g" if "g \<in> set ?gs" for g
    using that chunk_by_nonempty [of _ ?s] by (metis hd_in_set)
  have "se_logical ` hd ` set ?gs = se_logical ` set ?s"
  proof
    show "se_logical ` hd ` set ?gs \<subseteq> se_logical ` set ?s" unfolding es using hd_in by blast
    show "se_logical ` set ?s \<subseteq> se_logical ` hd ` set ?gs"
    proof
      fix l assume "l \<in> se_logical ` set ?s"
      then obtain g e where g: "g \<in> set ?gs" "e \<in> set g" "l = se_logical e" unfolding es by blast
      then have "l = se_logical (hd g)" using conjunct2 [OF heads] by blast
      then show "l \<in> se_logical ` hd ` set ?gs" using g(1) by blast
    qed
  qed
  moreover have "preferred nfc (hd g) \<le> preferred nfc e'"
    if g: "g \<in> set ?gs" and e': "e' \<in> set ?s" and same: "se_logical e' = se_logical (hd g)" for g e'
  proof -
    obtain g' where g': "g' \<in> set ?gs" "e' \<in> set g'" using e' es by auto
    have "se_logical e' = se_logical (hd g')" using conjunct2 [OF heads] g' by blast
    then have "(se_logical \<circ> hd) g' = (se_logical \<circ> hd) g" using same by simp
    moreover have "inj_on (se_logical \<circ> hd) (set ?gs)" using conjunct1 [OF heads] by (simp only: distinct_map)
    ultimately have "g' = g" using g g'(1) by (meson inj_onD)
    then have "?k (hd g) \<le> ?k e'" using chunk_head_first [OF sorted g] g'(2) by simp
    then show ?thesis using same by (simp add: less_eq_prod_def)
  qed
  ultimately show ?thesis
    unfolding kept set_map list.map_comp using conjunct1 [OF heads] by blast
qed

definition two_spellings :: "dir_entry list" where
  \<comment> \<open>\<open>e'\<close> stands for the letter in its other spelling\<close>
  "two_spellings =
     [\<lparr>de_path = [''home'', ''caf'' @ ''e'' @ [CHR 0x27]], de_file = True, de_size = 1, de_mtime = 0\<rparr>,
      \<lparr>de_path = [''home'', ''cafe''], de_file = True, de_size = 2, de_mtime = 0\<rparr>,
      \<lparr>de_path = [''home'', ''notes.tmp''], de_file = True, de_size = 3, de_mtime = 0\<rparr>]"

definition drop_marks :: "string \<Rightarrow> string" where
  "drop_marks = filter (\<lambda>c. c \<noteq> CHR 0x27)"

lemma collisions_are_decided_alike_witness:
  "scan drop_marks [''home''] ignore_new (rev two_spellings) = scan drop_marks [''home''] ignore_new two_spellings
   \<and> map se_path (snd (without_collisions (scan drop_marks [''home''] ignore_new (rev two_spellings)))) = [[''home'', ''cafe'']]"
proof -
  have "distinct (map de_path two_spellings)" and "distinct (map de_path (rev two_spellings))" by code_simp+
  from collisions_are_decided_alike [OF this, of drop_marks "[''home'']" ignore_new]
  have "scan drop_marks [''home''] ignore_new (rev two_spellings) = scan drop_marks [''home''] ignore_new two_spellings"
    by simp
  moreover have "map se_path (snd (without_collisions (scan drop_marks [''home''] ignore_new two_spellings))) =
      [[''home'', ''cafe'']]"
    by code_simp
  ultimately show ?thesis by simp
qed

text \<open>The names of the directories above the root count, and so does the root's own name: inside a
  directory called \<open>node_modules\<close>, or with a root called \<open>sync.tmp\<close>, a scan finds nothing.\<close>

lemma ignored_root_hides_everything:
  assumes "is_ignored r root"
  shows "scan nfc root r walk = []"
proof -
  have "logical_path nfc root p = None \<or> \<not> passes r root p" for p
    using assms by (auto simp: passes_def logical_path_def path_starts_with_def list_all_iff Let_def
        intro!: bexI [of _ "length root"] dest: arg_cong [where f = length])
  then have "scan_entries nfc root r walk = []"
    by (auto simp: scan_entries_def map_filter_def filter_empty_conv split: option.splits)
  then show ?thesis by (simp add: scan_def)
qed

text \<open>Only the file's own name is looked at to prefer the composed spelling. Where two directories
  differ in spelling, the byte order of the whole path decides, in which the decomposed letter comes
  first: of \<open>caf\<close> with a composed last letter and with a decomposed one, the file under the
  decomposed name is kept.\<close>

fun compose_e :: "string \<Rightarrow> string" where
  \<comment> \<open>normal form C on the letter e with an acute accent\<close>
  "compose_e (a # b # c # s) =
     (if [a, b, c] = [CHR ''e'', CHR 0xCC, CHR 0x81] then CHR 0xC3 # CHR 0xA9 # compose_e s
      else a # compose_e (b # c # s))"
| "compose_e s = s"

abbreviation (input) "composed_dir \<equiv> [''home'', [CHR ''c'', CHR 0xC3, CHR 0xA9], ''n'']"
abbreviation (input) "decomposed_dir \<equiv> [''home'', [CHR ''c'', CHR ''e'', CHR 0xCC, CHR 0x81], ''n'']"

definition two_directories :: "dir_entry list" where
  "two_directories = map (\<lambda>p. \<lparr>de_path = p, de_file = True, de_size = 1, de_mtime = 0\<rparr>) [composed_dir, decomposed_dir]"

lemma decomposed_directory_is_kept:
  "map se_path (snd (without_collisions (scan compose_e [''home''] ignore_new two_directories))) = [decomposed_dir]
   \<and> compose_e (hd (tl composed_dir)) = hd (tl composed_dir)"
  by code_simp

end
