(* ===== verification/Rows.thy ===== *)
theory Rows imports Store
begin

section \<open>What the store's operations do to the rows\<close>

text \<open>
  Lemmas the components that write to the store share. A path has at most one row in each area;
  writing a file, or deleting one, touches the one row of its path in one area, and this theory says
  what that row is afterwards.
\<close>

subsection \<open>The row of a path in an area\<close>

definition row_at :: "index \<Rightarrow> device_id option \<Rightarrow> string \<Rightarrow> file_row option" where
  "row_at ix s p = find (\<lambda>f. f_path f = p \<and> f_scope f = s) (files ix)"

lemma row_at_SomeD: "row_at ix s p = Some f \<Longrightarrow> f \<in> set (files ix) \<and> f_path f = p \<and> f_scope f = s"
  unfolding row_at_def by (drule find_SomeD) simp

lemma row_at_mem: "index_ok ix \<Longrightarrow> f \<in> set (files ix) \<Longrightarrow> row_at ix (f_scope f) (f_path f) = Some f"
  unfolding row_at_def by (rule index_ok_row(1))

lemma row_at_None: "row_at ix s p = None \<longleftrightarrow> (\<forall>f \<in> set (files ix). f_path f = p \<longrightarrow> f_scope f \<noteq> s)"
  by (auto simp: row_at_def find_None_iff)

lemma row_at_files: "files ix' = files ix \<Longrightarrow> row_at ix' s p = row_at ix s p"
  by (simp add: row_at_def)

lemma row_at_map:
  assumes "\<And>f. f_path (g f) = f_path f" and "\<And>f. f_scope (g f) = f_scope f"
  shows "row_at (ix\<lparr>files := map g (files ix)\<rparr>) s p = map_option g (row_at ix s p)"
  using assms by (simp add: row_at_def find_map_same)

definition live :: "file_row option \<Rightarrow> file_row option" where
  "live r = (case r of None \<Rightarrow> None | Some f \<Rightarrow> if f_deleted f = None then Some f else None)"

definition tombstoned :: "file_row option \<Rightarrow> bool" where
  "tombstoned r = (case r of None \<Rightarrow> False | Some f \<Rightarrow> f_deleted f \<noteq> None)"

lemma tombstoned_live: "tombstoned r \<Longrightarrow> live r = None"
  by (auto simp: tombstoned_def live_def split: option.splits)

lemma live_row_row_at: "index_ok ix \<Longrightarrow> live_row_in ix p s = live (row_at ix s p)"
proof (cases s)
  case (Some d)
  assume ok: "index_ok ix"
  show ?thesis
  proof (cases "live (row_at ix s p)")
    case (Some f)
    then have f: "f \<in> set (files ix)" "f_path f = p" "f_scope f = s" "f_deleted f = None"
      using row_at_SomeD [of ix s p] by (auto simp: live_def split: option.splits if_splits)
    then show ?thesis using index_ok_row(3) [OF ok f(1)] Some by simp
  next
    case None
    then have "f_deleted f \<noteq> None" if "f \<in> set (files ix)" "f_path f = p" "f_scope f = s" for f
      using row_at_mem [OF ok that(1)] that by (auto simp: live_def split: if_splits)
    then have "live_row_in ix p s = None" by (auto simp: live_row_in_def Some find_None_iff)
    then show ?thesis using None by simp
  qed
qed (simp add: live_row_in_def file_by_path_def row_at_def live_def split: option.splits)

lemma row_id_inj:
  "index_ok ix \<Longrightarrow> f \<in> set (files ix) \<Longrightarrow> g \<in> set (files ix) \<Longrightarrow> f_id f = f_id g \<Longrightarrow> f = g"
  using index_okD(3) [of ix] by (auto simp: distinct_map dest: inj_onD)

lemma row_at_upsert:
  assumes "index_ok ix" and "upsert_file new update ix = (fid, ix')"
  shows "row_at ix' s p =
    (if (s, p) = (f_scope new, f_path new)
     then Some (case row_at ix s p of
           None \<Rightarrow> new\<lparr>f_id := new_file_id ix\<rparr>
         | Some old \<Rightarrow> (update old)\<lparr>f_id := f_id old, f_path := f_path old, f_scope := f_scope old\<rparr>)
     else row_at ix s p)" and "me ix' = me ix"
proof -
  have key: "row_at ix (f_scope new) (f_path new) =
      find (\<lambda>f. f_path f = f_path new \<and> f_scope f = f_scope new) (files ix)" by (simp add: row_at_def)
  have "row_at ix' s p =
    (if (s, p) = (f_scope new, f_path new)
     then Some (case row_at ix s p of
           None \<Rightarrow> new\<lparr>f_id := new_file_id ix\<rparr>
         | Some old \<Rightarrow> (update old)\<lparr>f_id := f_id old, f_path := f_path old, f_scope := f_scope old\<rparr>)
     else row_at ix s p) \<and> me ix' = me ix"
  proof (cases "row_at ix (f_scope new) (f_path new)")
    case None
    then have ix': "ix' = ix\<lparr>files := files ix @ [new\<lparr>f_id := new_file_id ix\<rparr>]\<rparr>"
      using assms(2) by (auto simp: upsert_file_def key)
    have "find P (xs @ [x]) = (case find P xs of None \<Rightarrow> (if P x then Some x else None) | Some y \<Rightarrow> Some y)"
      for P :: "file_row \<Rightarrow> bool" and xs x by (induction xs) auto
    then show ?thesis using None by (auto simp: ix' row_at_def split: option.splits)
  next
    case (Some old)
    let ?g = "\<lambda>f. if f_id f = f_id old
        then (update f)\<lparr>f_id := f_id f, f_path := f_path f, f_scope := f_scope f\<rparr> else f"
    have ix': "ix' = ix\<lparr>files := map ?g (files ix)\<rparr>" using assms(2) Some by (auto simp: upsert_file_def key)
    note old = row_at_SomeD [OF Some]
    have "?g f = f" if "row_at ix s p = Some f" "(s, p) \<noteq> (f_scope new, f_path new)" for f
    proof -
      note f = row_at_SomeD [OF that(1)]
      have "f_id f \<noteq> f_id old"
        using row_id_inj [OF assms(1), of f old] f old that(2) by metis
      then show ?thesis by simp
    qed
    moreover have "row_at ix' s p = map_option ?g (row_at ix s p)" unfolding ix' by (rule row_at_map) auto
    ultimately show ?thesis using Some by (cases "row_at ix s p") (auto simp: ix')
  qed
  then show "row_at ix' s p =
    (if (s, p) = (f_scope new, f_path new)
     then Some (case row_at ix s p of
           None \<Rightarrow> new\<lparr>f_id := new_file_id ix\<rparr>
         | Some old \<Rightarrow> (update old)\<lparr>f_id := f_id old, f_path := f_path old, f_scope := f_scope old\<rparr>)
     else row_at ix s p)" and "me ix' = me ix" by blast+
qed

definition path_rows :: "index \<Rightarrow> string \<Rightarrow> file_row list" where
  "path_rows ix p = filter (\<lambda>f. f_path f = p) (files ix)"

lemma row_at_path_rows: "row_at ix s p = find (\<lambda>f. f_scope f = s) (path_rows ix p)"
proof -
  have "find (\<lambda>f. f_path f = p \<and> f_scope f = s) xs = find (\<lambda>f. f_scope f = s) (filter (\<lambda>f. f_path f = p) xs)"
    for xs :: "file_row list" by (induction xs) auto
  then show ?thesis by (simp add: row_at_def path_rows_def)
qed

lemma path_rows_map:
  assumes "\<And>f. f_path (g f) = f_path f" and "\<And>f. f \<in> set (files ix) \<Longrightarrow> f_path f = p \<Longrightarrow> g f = f"
  shows "path_rows (ix\<lparr>files := map g (files ix)\<rparr>) p = path_rows ix p"
proof -
  have "filter (\<lambda>f. f_path f = p) (map g xs) = filter (\<lambda>f. f_path f = p) xs"
    if "set xs \<subseteq> set (files ix)" for xs
    using that assms by (induction xs) auto
  then show ?thesis by (simp add: path_rows_def)
qed

lemma path_rows_upsert:
  assumes "index_ok ix" and "upsert_file new update ix = (fid, ix')" and "p \<noteq> f_path new"
  shows "path_rows ix' p = path_rows ix p"
proof (cases "find (\<lambda>f. f_path f = f_path new \<and> f_scope f = f_scope new) (files ix)")
  case None
  then show ?thesis using assms(2,3) by (auto simp: upsert_file_def path_rows_def)
next
  case (Some old)
  then have old: "old \<in> set (files ix)" "f_path old = f_path new" using find_SomeD by fastforce+
  let ?g = "\<lambda>f. if f_id f = f_id old
      then (update f)\<lparr>f_id := f_id f, f_path := f_path f, f_scope := f_scope f\<rparr> else f"
  have ix': "ix' = ix\<lparr>files := map ?g (files ix)\<rparr>" using assms(2) Some by (auto simp: upsert_file_def)
  have "?g f = f" if "f \<in> set (files ix)" "f_path f = p" for f
    using row_id_inj [OF assms(1) that(1) old(1)] old(2) assms(3) that(2) by auto
  then show ?thesis unfolding ix' by (intro path_rows_map) auto
qed

subsection \<open>What a write and a deletion do to the rows\<close>

lemma write_payloads_rows:
  assumes "fold (write_payload sealed now rewrite supplied data) cs (seen, stats, st) = (seen', stats', st')"
  shows "files (s_index st') = files (s_index st) \<and> me (s_index st') = me (s_index st)
    \<and> s_new_private st' = s_new_private st \<and> s_racy st' = s_racy st"
  using assms
proof (induction cs arbitrary: seen stats st)
  case (Cons c cs)
  obtain seen1 stats1 st1 where one:
    "write_payload sealed now rewrite supplied data c (seen, stats, st) = (seen1, stats1, st1)"
    by (metis prod_cases3)
  have "files (s_index st1) = files (s_index st) \<and> me (s_index st1) = me (s_index st)
    \<and> s_new_private st1 = s_new_private st \<and> s_racy st1 = s_racy st"
    using one by (auto simp: write_payload_def Let_def cas_put_def split: if_splits)
  moreover have "fold (write_payload sealed now rewrite supplied data) cs (seen1, stats1, st1) = (seen', stats', st')"
    using Cons.prems(1) one by simp
  ultimately show ?case using Cons.IH by fastforce
qed simp

lemma recheck_payloads_flags:
  assumes "fold (recheck_payload sealed now supplied data) cs (seen, stats, st) = (seen', stats', st')"
  shows "s_new_private st' = s_new_private st \<and> s_racy st' = s_racy st"
  using assms
proof (induction cs arbitrary: seen stats st)
  case (Cons c cs)
  obtain seen1 stats1 st1 where one:
    "recheck_payload sealed now supplied data c (seen, stats, st) = (seen1, stats1, st1)"
    by (metis prod_cases3)
  have "s_new_private st1 = s_new_private st \<and> s_racy st1 = s_racy st"
    using one by (auto simp: recheck_payload_def Let_def cas_put_def split: if_splits)
  moreover have "fold (recheck_payload sealed now supplied data) cs (seen1, stats1, st1) = (seen', stats', st')"
    using Cons.prems(1) one by simp
  ultimately show ?case using Cons.IH by fastforce
qed simp

definition rows_but :: "device_id option \<Rightarrow> string \<Rightarrow> store \<Rightarrow> store \<Rightarrow> bool" where
  \<comment> \<open>only the row of that key may differ\<close>
  "rows_but s p st st' \<longleftrightarrow>
     (\<forall>p'. p' \<noteq> p \<longrightarrow> path_rows (s_index st') p' = path_rows (s_index st) p')
     \<and> (\<forall>s'. s' \<noteq> s \<longrightarrow> row_at (s_index st') s' p = row_at (s_index st) s' p)
     \<and> me (s_index st') = me (s_index st) \<and> s_new_private st' = s_new_private st \<and> s_tree st' = s_tree st"

definition row_says :: "manifest \<Rightarrow> placement \<Rightarrow> device_id option \<Rightarrow> version_vector \<times> device_id \<times> int \<Rightarrow> bool \<Rightarrow> nat \<Rightarrow>
    file_row option \<Rightarrow> bool" where
  \<comment> \<open>the row of a file just written\<close>
  "row_says m pl vault stamp here sz r \<longleftrightarrow>
     (case r of
        None \<Rightarrow> False
      | Some f \<Rightarrow>
          f_deleted f = None \<and> f_hash f = m_hash m \<and> f_size f = sz \<and> (f_here f \<longleftrightarrow> here)
          \<and> (pl_held pl \<and> vault \<noteq> None \<longrightarrow> f_held f)
          \<and> (pl_stamp pl \<noteq> LocalStamp \<and> vault = None \<longrightarrow> (f_vector f, f_by f, f_updated f) = stamp))"

lemma row_says_live: "row_says m pl vault stamp here sz r \<Longrightarrow> live r = r \<and> r \<noteq> None"
  by (auto simp: row_says_def live_def split: option.splits)

lemma rows_but_trans: "rows_but s p st st1 \<Longrightarrow> rows_but s p st1 st2 \<Longrightarrow> rows_but s p st st2"
  by (simp add: rows_but_def)

lemma map_rows_but:
  assumes "\<And>f. f_path (g f) = f_path f" and "\<And>f. f_scope (g f) = f_scope f"
    and "\<And>f. f \<in> set (files (s_index st)) \<Longrightarrow> (f_scope f, f_path f) \<noteq> (s, p) \<Longrightarrow> g f = f"
  shows "rows_but s p st (st\<lparr>s_index := (s_index st)\<lparr>files := map g (files (s_index st))\<rparr>\<rparr>)"
proof -
  have "path_rows ((s_index st)\<lparr>files := map g (files (s_index st))\<rparr>) p' = path_rows (s_index st) p'" if "p' \<noteq> p" for p'
    using that assms(3) by (intro path_rows_map) (auto simp: assms(1))
  moreover have "row_at ((s_index st)\<lparr>files := map g (files (s_index st))\<rparr>) s' p = row_at (s_index st) s' p" if "s' \<noteq> s" for s'
    using that assms(3) row_at_SomeD [of "s_index st" s' p]
    by (cases "row_at (s_index st) s' p") (auto simp: row_at_map [OF assms(1,2)])
  ultimately show ?thesis by (simp add: rows_but_def)
qed

lemma link_file_rows:
  assumes "store_ok st" and "link_file sealed now p m data mtime pl vault here stamp stats st = (stats', st')"
  shows "rows_but vault p st st' \<and> s_racy st' = s_racy st
    \<and> row_says m pl vault stamp (here \<or> s_tree st = None) (m_size m) (row_at (s_index st') vault p)
    \<and> map_option (\<lambda>f. (f_vector f, f_by f, f_updated f)) (row_at (s_index st') vault p) = Some stamp"
proof -
  obtain seen stats1 st1 where re: "fold (recheck_payload sealed now (here \<or> pl_by_reference pl) data) (m_chunks m)
      ({}, stats, st) = (seen, stats1, st1)" by (metis prod_cases3)
  have inv: "store_ok st1" "files (s_index st1) = files (s_index st)" "me (s_index st1) = me (s_index st)"
    "s_tree st1 = s_tree st"
    using recheck_payloads [OF re assms(1)] by (simp_all add: payloads_in_def)
  define new where "new = put_row now p m mtime stamp vault (here \<or> s_tree st1 = None) (pl_held pl)"
  obtain fid ix where up: "upsert_file new (put_over new) (s_index st1) = (fid, ix)" by fastforce
  define st2 where "st2 = st1\<lparr>s_index := fold (\<lambda>c. add_link fid (ref_hash c)) (m_chunks m)
      (delete_links now (\<lambda>(i, _). i = fid) ix)\<rparr>"
  have st': "st' = st2"
    using assms(2) by (simp add: link_file_def re up Let_def st2_def flip: new_def)
  have linked: "files (fold (\<lambda>c. add_link fid (ref_hash c)) cs ix0) = files ix0
      \<and> me (fold (\<lambda>c. add_link fid (ref_hash c)) cs ix0) = me ix0" for cs ix0
    by (induction cs arbitrary: ix0) auto
  have put: "f_scope new = vault" "f_path new = p" "f_deleted new = None"
    by (simp_all add: new_def put_row_def split: prod.splits)
  have files: "files (s_index st') = files ix" by (simp add: st' st2_def linked)
  have rows: "row_at (s_index st') s' p' = row_at ix s' p'" for s' p'
    by (rule row_at_files) (rule files)
  have old: "row_at (s_index st1) s' p' = row_at (s_index st) s' p'" for s' p'
    by (rule row_at_files) (rule inv(2))
  have paths: "path_rows (s_index st') p' = path_rows (s_index st) p'" if "p' \<noteq> p" for p'
    using path_rows_upsert [OF inv(1) up] that inv(2) by (simp add: put path_rows_def files)
  have "row_says m pl vault stamp (here \<or> s_tree st = None) (m_size m) (row_at ix vault p)
      \<and> map_option (\<lambda>f. (f_vector f, f_by f, f_updated f)) (row_at ix vault p) = Some stamp"
    by (cases stamp) (auto simp: row_at_upsert(1) [OF inv(1) up] put row_says_def put_over_def new_def put_row_def inv(4)
        split: option.splits stamp.splits)
  moreover have "rows_but vault p st st' \<and> s_racy st' = s_racy st"
    using recheck_payloads_flags [OF re] inv(3,4) row_at_upsert(2) [OF inv(1) up]
    by (simp add: rows_but_def paths rows old row_at_upsert(1) [OF inv(1) up] put) (simp add: st' st2_def linked)
  ultimately show ?thesis by (simp add: rows)
qed

definition put_stamp :: "int \<Rightarrow> string \<Rightarrow> placement \<Rightarrow> store \<Rightarrow> version_vector \<times> device_id \<times> int" where
  "put_stamp now p pl st = fst (stamped now p (pl_stamp pl) st)"

definition here_after :: "device_id option \<Rightarrow> string \<Rightarrow> store \<Rightarrow> bool" where
  \<comment> \<open>whether a file just written is materialised\<close>
  "here_after vault p st \<longleftrightarrow> (backed_by_folder st vault \<and> supplies st p) \<or> s_tree st = None"

definition about :: "string \<Rightarrow> placement \<Rightarrow> bool" where
  \<comment> \<open>a version recorded for a path is a version of that path\<close>
  "about p pl \<longleftrightarrow> (case pl_stamp pl of RemoteStamp v \<Rightarrow> path v = p | LocalStamp \<Rightarrow> True)"

lemma touch_rows:
  assumes "store_ok st" and "live_row_in (s_index st) p vault = Some old" and "f_hash old = m_hash m" and "about p pl"
  shows "rows_but vault p st (touch_unchanged p mtime pl vault old st)
    \<and> s_racy (touch_unchanged p mtime pl vault old st) = s_racy st
    \<and> row_says m pl vault (put_stamp now p pl st) (here_after vault p st) (f_size old)
        (row_at (s_index (touch_unchanged p mtime pl vault old st)) vault p)"
proof -
  have row: "row_at (s_index st) vault p = Some old" and alive: "f_deleted old = None"
    using assms(2) by (auto simp: live_row_row_at [OF assms(1)] live_def split: option.splits if_splits)
  note mem = row_at_SomeD [OF row]
  define touch where "touch = (\<lambda>f :: file_row. if f_id f = f_id old
      then f\<lparr>f_mtime := mtime, f_here := here_after vault p st,
             f_wanted := (if here_after vault p st then False else f_wanted f)\<rparr> else f)"
  define hold where "hold = (\<lambda>f :: file_row. if vault \<noteq> None \<and> pl_held pl \<and> f_path f = p \<and> f_scope f = vault
      then f\<lparr>f_held := True\<rparr> else f)"
  define merge where "merge = (\<lambda>f :: file_row. case pl_stamp pl of
      RemoteStamp v \<Rightarrow> (if vault = None \<and> f_path f = p \<and> f_scope f = None
         then f\<lparr>f_vector := vector v, f_by := modified_by v, f_updated := sint (modified_at v)\<rparr> else f)
    | LocalStamp \<Rightarrow> f)"
  define g where "g f = merge (hold (touch f))" for f
  have keys: "f_path (g f) = f_path f" "f_scope (g f) = f_scope f" for f
    by (simp_all add: g_def merge_def hold_def touch_def split: stamp.splits)
  have touched: "touch_unchanged p mtime pl vault old st =
      st\<lparr>s_index := (s_index st)\<lparr>files := map g (files (s_index st))\<rparr>\<rparr>"
  proof -
    have "touch_unchanged p mtime pl vault old st =
        st\<lparr>s_index := (s_index st)\<lparr>files := map merge (map hold (map touch (files (s_index st))))\<rparr>\<rparr>"
      using assms(4)
      by (cases vault; cases "pl_stamp pl"; cases "pl_held pl")
        (simp_all only: touch_unchanged_def Let_def mark_held_def merge_version_def set_version_def merge_def
          hold_def touch_def here_after_def about_def stamp.case prod.case option.case option.simps refl simp_thms if_True
          if_False list.map_id0 id_def store.simps index.simps store.surjective index.surjective list.map_ident, simp_all)
    then show ?thesis by (simp add: g_def o_def)
  qed
  have "g f = f" if f: "f \<in> set (files (s_index st))" "(f_scope f, f_path f) \<noteq> (vault, p)" for f
  proof -
    have "f_id f \<noteq> f_id old" using row_id_inj [OF assms(1) f(1) conjunct1 [OF mem]] f(2) mem by auto
    then show ?thesis using f(2) by (auto simp: g_def merge_def hold_def touch_def split: stamp.splits)
  qed
  then have "rows_but vault p st (touch_unchanged p mtime pl vault old st)"
    unfolding touched by (intro map_rows_but) (auto simp: keys)
  moreover have "row_says m pl vault (put_stamp now p pl st) (here_after vault p st) (f_size old) (Some (g old))"
    using mem alive assms(3)
    by (auto simp: row_says_def g_def merge_def hold_def touch_def put_stamp_def stamped_def split: stamp.splits)
  ultimately show ?thesis by (simp add: touched row_at_map keys row)
qed

lemma put_rows:
  fixes pl p st
  defines "vault \<equiv> destination p pl st"
  assumes "store_ok st" and "about p pl" and "put_manifest sealed now p m data mtime pl st = (stats, st')"
  shows "rows_but vault p st st' \<and> s_racy st' = s_racy st
    \<and> row_says m pl vault (put_stamp now p pl st) (here_after vault p st)
        (case same_as_before p m pl vault st of None \<Rightarrow> m_size m | Some old \<Rightarrow> f_size old)
        (row_at (s_index st') vault p)
    \<and> (same_as_before p m pl vault st = None \<longrightarrow>
         map_option (\<lambda>f. (f_vector f, f_by f, f_updated f)) (row_at (s_index st') vault p) = Some (put_stamp now p pl st))"
proof (cases "same_as_before p m pl vault st")
  case None
  obtain stamp st1 where s: "stamped now p (pl_stamp pl) st = (stamp, st1)" by fastforce
  let ?here = "backed_by_folder st1 vault \<and> supplies st1 p"
  let ?stats = "put_stats_default\<lparr>chunks_total := length (m_chunks m)\<rparr>"
  obtain seen stats2 st2 where w: "fold (write_payload sealed now (pl_rewrite pl) (?here \<or> pl_by_reference pl) data)
      (m_chunks m) ({}, ?stats, st1) = (seen, stats2, st2)" by (metis prod_cases3)
  obtain stats3 st3 where l: "link_file sealed now p m data mtime pl vault ?here stamp stats2 st2 = (stats3, st3)"
    by fastforce
  have st1: "files (s_index st1) = files (s_index st)" "me (s_index st1) = me (s_index st)"
    "s_new_private st1 = s_new_private st" "s_tree st1 = s_tree st" "s_racy st1 = s_racy st"
    using s by (auto simp: stamped_def next_local_vector_def Let_def split: stamp.splits)
  have ok: "store_ok st2" and tree: "s_tree st2 = s_tree st1"
    using write_payloads [OF w store_ok_stamped [OF s assms(2)]] by simp_all
  have same: "row_at (s_index st2) s' p' = row_at (s_index st) s' p'"
    "path_rows (s_index st2) p' = path_rows (s_index st) p'" for s' p'
    using write_payloads_rows [OF w] st1(1) by (simp_all add: row_at_def path_rows_def)
  have "st' = st3"
    using assms(4) by (simp add: put_manifest_def Let_def None [unfolded vault_def] s w [unfolded vault_def] l [unfolded vault_def])
  then show ?thesis
    using link_file_rows [OF ok l] write_payloads_rows [OF w] st1 tree s
    by (simp add: rows_but_def same here_after_def backed_by_folder_def supplies_def put_stamp_def None cong: option.case_cong)
next
  case (Some old)
  then have old: "live_row_in (s_index st) p vault = Some old" "f_hash old = m_hash m"
    by (auto simp: same_as_before_def split: option.splits if_splits)
  have "st' = touch_unchanged p mtime pl vault old st"
    using assms(4) Some by (simp add: put_manifest_def Let_def vault_def)
  then show ?thesis using touch_rows [OF assms(2) old assms(3)] Some by simp
qed

lemma folder_row_eq:
  assumes "index_ok ix"
  shows "folder_row ix p =
    (case live (row_at ix None p) of
       Some f \<Rightarrow> Some (f, None)
     | None \<Rightarrow> map_option (\<lambda>f. (f, Some (me ix))) (live (row_at ix (Some (me ix)) p)))"
  by (simp add: folder_row_def own_vault_row_def live_row_row_at [OF assms] cong: option.case_cong)

definition tombstone_says :: "version_vector \<times> device_id \<times> int \<Rightarrow> file_row option \<Rightarrow> bool" where
  "tombstone_says stamp r \<longleftrightarrow>
     (case r of None \<Rightarrow> False
      | Some f \<Rightarrow> f_deleted f \<noteq> None \<and> (f_vector f, f_by f, f_updated f) = stamp)"

lemma tombstone_says_tombstoned: "tombstone_says stamp r \<Longrightarrow> tombstoned r"
  by (auto simp: tombstone_says_def tombstoned_def split: option.splits)

lemma tombstone_rows:
  assumes "store_ok st"
  shows "rows_but s p st (tombstone_row now p stmp s st)
    \<and> tombstone_says (fst (stamped now p stmp st)) (row_at (s_index (tombstone_row now p stmp s st)) s p)"
proof -
  obtain v d at st1 where s: "stamped now p stmp st = ((v, d, at), st1)" by (metis surj_pair)
  have st1: "files (s_index st1) = files (s_index st)" "me (s_index st1) = me (s_index st)"
    "s_new_private st1 = s_new_private st" "s_tree st1 = s_tree st"
    using s by (auto simp: stamped_def next_local_vector_def Let_def split: stamp.splits)
  have same: "row_at (s_index st1) s' p' = row_at (s_index st) s' p'"
    "path_rows (s_index st1) p' = path_rows (s_index st) p'" for s' p'
    using st1(1) by (simp_all add: row_at_def path_rows_def)
  have ok: "store_ok st1" by (rule store_ok_stamped [OF s assms])
  define new where "new = \<lparr>f_id = 0, f_path = p, f_size = 0, f_hash = replicate 32 0, f_mtime = 0,
    f_updated = at, f_deleted = Some at, f_vector = v, f_by = d, f_here = True,
    f_touched = 0, f_wanted = False, f_scope = s, f_held = False\<rparr>"
  define upd where "upd = (\<lambda>f :: file_row. f\<lparr>f_deleted := Some at, f_updated := at, f_vector := v, f_by := d\<rparr>)"
  obtain fid ix where up: "upsert_file new upd (s_index st1) = (fid, ix)" by fastforce
  have t: "tombstone_row now p stmp s st = st1\<lparr>s_index := ix\<rparr>"
    using up by (simp add: tombstone_row_def s Let_def new_def upd_def)
  have key: "f_scope new = s" "f_path new = p" by (simp_all add: new_def)
  have "tombstone_says (v, d, at) (row_at ix s p)"
    by (simp add: row_at_upsert(1) [OF ok up] key tombstone_says_def split: option.splits) (simp add: new_def upd_def)
  then show ?thesis
    using st1 path_rows_upsert [OF ok up] row_at_upsert(2) [OF ok up]
    by (simp add: t s rows_but_def row_at_upsert(1) [OF ok up] key same)
qed

lemma delete_file_rows:
  assumes "store_ok st" and "folder_row (s_index st) p = Some (row, s)"
  shows "\<exists>st'. delete_file now p st = Inr st' \<and> store_ok st' \<and> rows_but s p st st'
    \<and> tombstoned (row_at (s_index st') s p) \<and> s \<in> {None, Some (me (s_index st))}"
proof -
  let ?t = "tombstone_row now p LocalStamp s st"
  let ?st' = "release_unbacked now (f_id row) ?t"
  have d: "delete_file now p st = Inr ?st'" using assms(2) by (simp add: delete_file_def)
  have "files (s_index ?st') = files (s_index ?t)" "me (s_index ?st') = me (s_index ?t)"
    "s_new_private ?st' = s_new_private ?t" "s_tree ?st' = s_tree ?t" by (simp_all add: release_unbacked_def)
  moreover from this have "row_at (s_index ?st') s' p' = row_at (s_index ?t) s' p'"
    "path_rows (s_index ?st') p' = path_rows (s_index ?t) p'" for s' p' by (simp_all add: row_at_def path_rows_def)
  ultimately have "rows_but s p st ?st' \<and> tombstoned (row_at (s_index ?st') s p)"
    using tombstone_rows [OF assms(1), of s p now LocalStamp] tombstone_says_tombstoned
      [OF conjunct2 [OF tombstone_rows [OF assms(1), of s p now LocalStamp]]] by (simp add: rows_but_def)
  moreover have "s \<in> {None, Some (me (s_index st))}"
    using assms(2) by (auto simp: folder_row_def own_vault_row_def split: option.splits)
  ultimately show ?thesis using d store_ok_delete [OF assms(1) d] by blast
qed

lemma rows_but_row: "rows_but s p st st' \<Longrightarrow> (s', p') \<noteq> (s, p) \<Longrightarrow> row_at (s_index st') s' p' = row_at (s_index st) s' p'"
  by (cases "p' = p") (auto simp: rows_but_def row_at_path_rows)

lemma is_materialised_path_rows:
  "is_materialised ix p = map_option f_here (find (\<lambda>f. f_deleted f = None \<and> folder_scope ix f) (path_rows ix p))"
proof -
  have "find (\<lambda>f. f_path f = p \<and> f_deleted f = None \<and> folder_scope ix f) xs =
      find (\<lambda>f. f_deleted f = None \<and> folder_scope ix f) (filter (\<lambda>f. f_path f = p) xs)" for xs
    by (induction xs) auto
  then show ?thesis by (simp add: is_materialised_def path_rows_def)
qed

lemma rows_but_materialised:
  "rows_but s p st st' \<Longrightarrow> p' \<noteq> p \<Longrightarrow> is_materialised (s_index st') p' = is_materialised (s_index st) p'"
  by (simp add: is_materialised_path_rows rows_but_def folder_scope_def)

end
