(* ===== verification/Folder.thy ===== *)
theory Folder imports Store_Cases Scan Rows
begin

section \<open>The folder and the index (\<open>crates/engine/src/lib.rs\<close>, \<open>role.rs\<close>)\<close>

text \<open>
  Comparing the whole folder with the index, and acting on what the watcher reports. The disk is
  a parameter: what a path holds when it is opened, with its modification time. The store, with
  the folder it is attached to by logical path, is the one of \<open>Store\<close>. A run reads the clock
  once; a file that cannot be opened is a failure of the run, which goes on.
\<close>

subsection \<open>Roles\<close>

definition trim_slashes :: "string \<Rightarrow> string" where
  \<comment> \<open>\<open>trim_end_matches('/')\<close>\<close>
  "trim_slashes p = rev (dropWhile (\<lambda>c. c = CHR ''/'') (rev p))"

definition pins_under :: "string list \<Rightarrow> string list" where
  "pins_under prefixes = filter (\<lambda>p. p \<noteq> []) (map trim_slashes prefixes)"

definition pins_everything :: "string list" where "pins_everything = []"

definition pins_want :: "string list \<Rightarrow> string \<Rightarrow> bool" where
  "pins_want pins p \<longleftrightarrow>
     (if pins = [] then True
      else list_ex (\<lambda>prefix. p = prefix
        \<or> (case strip_prefix p prefix of None \<Rightarrow> False | Some rest \<Rightarrow> starts_with rest ''/'')) pins)"

datatype role = Syncing | Replica "string list"

definition is_replica :: "role \<Rightarrow> bool" where
  "is_replica r = (case r of Syncing \<Rightarrow> False | Replica _ \<Rightarrow> True)"

definition role_wants :: "role \<Rightarrow> string \<Rightarrow> bool" where
  "role_wants r p = (case r of Syncing \<Rightarrow> True | Replica pins \<Rightarrow> pins_want pins p)"

subsection \<open>The engine\<close>

record codec =
  k_sealed :: "bytes \<Rightarrow> nat"
  k_hash :: blake3
  k_cdc :: "bytes \<Rightarrow> (nat \<times> nat) list"
  k_nfc :: "string \<Rightarrow> string"

record engine =
  e_root :: os_path
  e_store :: store
  e_ignore :: ignore_rules
  e_role :: role
  e_workers :: nat

datatype failure = CannotRead os_path | StoreFailed string store_error

record sync_stats =
  ss_stored :: nat
  ss_unchanged :: nat
  ss_deleted :: nat
  ss_bytes :: nat
  ss_collided :: nat
  ss_failures :: "failure list"

definition stats_default :: sync_stats where
  "stats_default = \<lparr>ss_stored = 0, ss_unchanged = 0, ss_deleted = 0, ss_bytes = 0, ss_collided = 0, ss_failures = []\<rparr>"

definition stats_record :: "failure \<Rightarrow> sync_stats \<Rightarrow> sync_stats" where
  "stats_record e s = s\<lparr>ss_failures := ss_failures s @ [e]\<rparr>"

definition stats_merge :: "sync_stats \<Rightarrow> sync_stats \<Rightarrow> sync_stats" where
  "stats_merge s other =
     s\<lparr>ss_stored := ss_stored s + ss_stored other, ss_unchanged := ss_unchanged s + ss_unchanged other,
       ss_deleted := ss_deleted s + ss_deleted other, ss_bytes := ss_bytes s + ss_bytes other,
       ss_failures := ss_failures s @ ss_failures other\<rparr>"

definition record_put :: "put_stats \<Rightarrow> sync_stats \<Rightarrow> sync_stats" where
  "record_put put s =
     (if unchanged put then s\<lparr>ss_unchanged := ss_unchanged s + 1\<rparr>
      else s\<lparr>ss_stored := ss_stored s + 1, ss_bytes := ss_bytes s + bytes_written put\<rparr>)"

definition set_workers :: "nat \<Rightarrow> engine \<Rightarrow> engine" where
  "set_workers n en = en\<lparr>e_workers := max n 1\<rparr>"

type_synonym disk = "os_path \<Rightarrow> (bytes \<times> int) option"

definition put_found :: "codec \<Rightarrow> int \<Rightarrow> int \<Rightarrow> disk \<Rightarrow> string \<Rightarrow> os_path \<Rightarrow> store \<Rightarrow> (failure + put_stats) \<times> store" where
  \<comment> \<open>\<open>Store::put_file\<close> on the file at a path of this machine\<close>
  "put_found k now now_ns disk logical p st =
     (case disk p of
        None \<Rightarrow> (Inl (CannotRead p), st)
      | Some (data, mtime) \<Rightarrow>
          (case put_file (k_sealed k) (k_hash k) (k_cdc k) now now_ns logical data mtime st of
             (put, st) \<Rightarrow> (Inr put, st)))"

definition store_one :: "codec \<Rightarrow> int \<Rightarrow> int \<Rightarrow> disk \<Rightarrow> scan_entry \<Rightarrow> sync_stats \<times> store \<Rightarrow> sync_stats \<times> store" where
  "store_one k now now_ns disk e = (\<lambda>(stats, st).
     case put_found k now now_ns disk (se_logical e) (se_path e) st of
       (Inr put, st) \<Rightarrow> (record_put put stats, st)
     | (Inl f, st) \<Rightarrow> (stats_record f stats, st))"

definition worker_store :: "store \<Rightarrow> store" where
  \<comment> \<open>a worker's own handle, \<open>Store::open\<close> and \<open>in_tree\<close>: new files are not private\<close>
  "worker_store st = st\<lparr>s_new_private := False\<rparr>"

definition store_many :: "codec \<Rightarrow> int \<Rightarrow> int \<Rightarrow> disk \<Rightarrow> nat \<Rightarrow> scan_entry list \<Rightarrow> store \<Rightarrow> sync_stats \<times> store" where
  \<comment> \<open>with several workers the files are taken from the queue in this order; how their writes
    interleave is the subject of the steps of \<open>Store\<close>\<close>
  "store_many k now now_ns disk wanted entries st =
     (let workers = max (min wanted (length entries)) 1
      in if workers = 1 then fold (store_one k now now_ns disk) entries (stats_default, st)
         else case fold (store_one k now now_ns disk) entries (stats_default, worker_store st) of
                (stats, st') \<Rightarrow> (stats, st'\<lparr>s_new_private := s_new_private st\<rparr>))"

definition looks_unchanged :: "store \<Rightarrow> string \<Rightarrow> nat \<Rightarrow> int \<Rightarrow> bool" where
  "looks_unchanged st logical sz mtime \<longleftrightarrow>
     \<not> s_racy st logical
     \<and> (case in_folder (s_index st) logical of
          None \<Rightarrow> False
        | Some f \<Rightarrow> f_deleted f = None \<and> f_size f = sz \<and> f_mtime f = mtime)"

definition folder_paths :: "index \<Rightarrow> string list" where
  "folder_paths ix =
     remdups_adj (sort (map f_path (filter (\<lambda>f. f_deleted f = None \<and> folder_scope ix f
         \<and> take 14 (f_path f) \<noteq> ''.qurb-outside/'') (files ix))))"

definition delete_gone :: "int \<Rightarrow> string list \<Rightarrow> string \<Rightarrow> sync_stats \<times> store \<Rightarrow> sync_stats \<times> store" where
  \<comment> \<open>a turn of the loop over \<open>folder_paths\<close>\<close>
  "delete_gone now on_disk logical = (\<lambda>(stats, st).
     if logical \<in> set on_disk then (stats, st)
     else if is_materialised (s_index st) logical = Some False then (stats, st)
     else case delete_file now logical st of
            Inr st \<Rightarrow> (stats\<lparr>ss_deleted := ss_deleted stats + 1\<rparr>, st)
          | Inl e \<Rightarrow> (stats_record (StoreFailed logical e) stats, st))"

definition reconcile_folder :: "codec \<Rightarrow> int \<Rightarrow> int \<Rightarrow> disk \<Rightarrow> dir_entry list \<Rightarrow> engine \<Rightarrow> sync_stats \<times> engine" where
  \<comment> \<open>\<open>Engine::reconcile\<close>\<close>
  "reconcile_folder k now now_ns disk found en =
     (if is_replica (e_role en) then (stats_default, en)
      else case without_collisions (scan (k_nfc k) (e_root en) (e_ignore en) found) of
        (collided, entries) \<Rightarrow>
          let st = e_store en;
              same = (\<lambda>e. looks_unchanged st (se_logical e) (se_size e) (se_mtime e));
              stats = stats_default\<lparr>ss_collided := collided, ss_unchanged := length (filter same entries)\<rparr>;
              changed = filter (\<lambda>e. \<not> same e) entries;
              (stored, st) = (if changed \<noteq> [] then store_many k now now_ns disk (e_workers en) changed st
                              else (stats_default, st));
              (stats, st) = fold (delete_gone now (map se_logical entries)) (folder_paths (s_index st))
                (stats_merge stats stored, st)
          in (stats, en\<lparr>e_store := st\<rparr>))"

subsection \<open>What the watcher reports\<close>

fun like :: "string \<Rightarrow> string \<Rightarrow> bool" where
  \<comment> \<open>SQLite's \<open>LIKE \<dots> ESCAPE '\'\<close>, which takes the case of ASCII letters for the same\<close>
  "like [] t \<longleftrightarrow> t = []"
| "like (c # ps) t \<longleftrightarrow>
     (if c = CHR 0x5C
      then (case (ps, t) of (e # ps', x # xs) \<Rightarrow> to_ascii_lowercase e = to_ascii_lowercase x \<and> like ps' xs | _ \<Rightarrow> False)
      else if c = CHR ''%''
      then like ps t \<or> (case t of [] \<Rightarrow> False | x # xs \<Rightarrow> like (c # ps) xs)
      else if c = CHR ''_'' then (case t of [] \<Rightarrow> False | x # xs \<Rightarrow> like ps (dropWhile cont_byte xs))
      else (case t of [] \<Rightarrow> False | x # xs \<Rightarrow> to_ascii_lowercase c = to_ascii_lowercase x \<and> like ps xs))"

definition escape_chars :: "string \<Rightarrow> string" where
  "escape_chars s = concat (map (\<lambda>c. if c \<in> {CHR ''%'', CHR ''_'', CHR 0x5C} then [CHR 0x5C, c] else [c]) s)"

definition escape_like :: "string \<Rightarrow> string" where
  "escape_like pattern =
     (if ends_with pattern ''/%'' then escape_chars (take (length pattern - 2) pattern) @ ''/%''
      else escape_chars pattern)"

definition folder_paths_under :: "index \<Rightarrow> string \<Rightarrow> string list" where
  "folder_paths_under ix prefix =
     (let prefix = trim_slashes prefix; pattern = escape_like (prefix @ ''/%'')
      in remdups_adj (sort (map f_path (filter (\<lambda>f. f_deleted f = None \<and> folder_scope ix f
          \<and> (f_path f = prefix \<or> like pattern (f_path f))) (files ix)))))"

definition removal_step :: "int \<Rightarrow> string \<Rightarrow> (failure + sync_stats) \<times> store \<Rightarrow> (failure + sync_stats) \<times> store" where
  "removal_step now p = (\<lambda>(r, st).
     case r of
       Inl f \<Rightarrow> (Inl f, st)
     | Inr stats \<Rightarrow>
         (if is_materialised (s_index st) p = Some False then (Inr stats, st)
          else case delete_file now p st of
                 Inr st \<Rightarrow> (Inr (stats\<lparr>ss_deleted := ss_deleted stats + 1\<rparr>), st)
               | Inl (NotFound _) \<Rightarrow> (Inr stats, st)
               | Inl e \<Rightarrow> (Inl (StoreFailed p e), st)))"

definition apply_removal :: "int \<Rightarrow> string \<Rightarrow> store \<Rightarrow> (failure + sync_stats) \<times> store" where
  "apply_removal now logical st =
     fold (removal_step now) (folder_paths_under (s_index st) logical) (Inr stats_default, st)"

definition store_if_changed ::
  "codec \<Rightarrow> int \<Rightarrow> int \<Rightarrow> disk \<Rightarrow> os_path \<Rightarrow> string \<Rightarrow> nat \<Rightarrow> int \<Rightarrow> store \<Rightarrow> (failure + sync_stats) \<times> store"
where
  "store_if_changed k now now_ns disk p logical sz mtime st =
     (if looks_unchanged st logical sz mtime
      then (Inr (stats_default\<lparr>ss_unchanged := 1\<rparr>), st)
      else case put_found k now now_ns disk logical p st of
             (Inl f, st) \<Rightarrow> (Inl f, st)
           | (Inr put, st) \<Rightarrow> (Inr (record_put put stats_default), st))"

definition apply_upsert ::
  "codec \<Rightarrow> int \<Rightarrow> int \<Rightarrow> disk \<Rightarrow> os_path \<Rightarrow> string \<Rightarrow> store \<Rightarrow> (failure + sync_stats) \<times> store"
where
  \<comment> \<open>gone, or a directory now: as if removed\<close>
  "apply_upsert k now now_ns disk p logical st =
     (case disk p of
        None \<Rightarrow> apply_removal now logical st
      | Some (data, mtime) \<Rightarrow> store_if_changed k now now_ns disk p logical (length data) mtime st)"

datatype reported = Upserted os_path | Removed os_path

definition apply_change ::
  "codec \<Rightarrow> int \<Rightarrow> int \<Rightarrow> disk \<Rightarrow> os_path \<Rightarrow> reported \<Rightarrow> sync_stats \<times> store \<Rightarrow> sync_stats \<times> store"
where
  "apply_change k now now_ns disk root change = (\<lambda>(stats, st).
     let p = (case change of Upserted p \<Rightarrow> p | Removed p \<Rightarrow> p)
     in case logical_path (k_nfc k) root p of
          None \<Rightarrow> (stats, st)
        | Some logical \<Rightarrow>
            (case (case change of Upserted _ \<Rightarrow> apply_upsert k now now_ns disk p logical st
                   | Removed _ \<Rightarrow> apply_removal now logical st) of
               (Inr outcome, st) \<Rightarrow> (stats_merge stats outcome, st)
             | (Inl e, st) \<Rightarrow> (stats_record e stats, st)))"

definition apply_changes :: "codec \<Rightarrow> int \<Rightarrow> int \<Rightarrow> disk \<Rightarrow> reported list \<Rightarrow> engine \<Rightarrow> sync_stats \<times> engine" where
  \<comment> \<open>\<open>Engine::apply\<close>\<close>
  "apply_changes k now now_ns disk changes en =
     (case fold (apply_change k now now_ns disk (e_root en)) changes (stats_default, e_store en) of
        (stats, st) \<Rightarrow> (stats, en\<lparr>e_store := st\<rparr>))"

subsection \<open>A run over the folder\<close>

definition ours :: "index \<Rightarrow> device_id option set" where
  \<comment> \<open>the areas the folder holds\<close>
  "ours ix = {None, Some (me ix)}"

definition written :: "string set \<Rightarrow> store \<Rightarrow> store \<Rightarrow> bool" where
  \<comment> \<open>what writing files of the folder keeps\<close>
  "written ps st st' \<longleftrightarrow>
     store_ok st' \<and> me (s_index st') = me (s_index st) \<and> s_new_private st' = s_new_private st
     \<and> (\<forall>p. p \<notin> ps \<longrightarrow> path_rows (s_index st') p = path_rows (s_index st) p)
     \<and> (\<forall>s p. s \<notin> ours (s_index st) \<longrightarrow> row_at (s_index st') s p = row_at (s_index st) s p)
     \<and> (\<forall>s p. live (row_at (s_index st) s p) \<noteq> None \<longrightarrow> live (row_at (s_index st') s p) \<noteq> None)"

lemma written_refl: "store_ok st \<Longrightarrow> written ps st st"
  by (simp add: written_def)

lemma written_trans: "written ps st st1 \<Longrightarrow> written qs st1 st2 \<Longrightarrow> written (ps \<union> qs) st st2"
  by (simp add: written_def ours_def)

lemma written_in_folder:
  "written ps st st' \<Longrightarrow> store_ok st \<Longrightarrow> in_folder (s_index st) p \<noteq> None \<Longrightarrow> in_folder (s_index st') p \<noteq> None"
  by (auto simp: in_folder_def folder_row_eq written_def split: option.splits) (metis option.distinct(1))+

lemma destination_ours: "destination p pl_local st \<in> ours (s_index st)"
  by (auto simp: destination_def pl_local_def ours_def folder_row_def own_vault_row_def split: option.splits)

lemma put_found_rows:
  assumes "store_ok st" and "put_found k now now_ns disk logical p st = (r, st')"
  shows "written {logical} st st' \<and> (disk p \<noteq> None \<longrightarrow> in_folder (s_index st') logical \<noteq> None)
    \<and> (disk p \<noteq> None \<longrightarrow> live (row_at (s_index st') (destination logical pl_local st) logical) \<noteq> None)
    \<and> rows_but (destination logical pl_local st) logical st st'"
proof (cases "disk p")
  case None
  then show ?thesis using assms by (simp add: put_found_def written_refl rows_but_def)
next
  case (Some dm)
  obtain data mtime where dm: "dm = (data, mtime)" by (cases dm)
  let ?st = "st\<lparr>s_racy := (s_racy st)(logical := too_recent now_ns mtime)\<rparr>"
  let ?put = "put_manifest (k_sealed k) now logical (chunk_bytes (k_hash k) (k_cdc k) data) data mtime pl_local ?st"
  have st': "st' = snd ?put" using assms(2) Some by (auto simp: put_found_def dm put_file_def Let_def split: prod.splits)
  have ok: "store_ok ?st" using assms(1) by simp
  have dest: "destination logical pl_local ?st = destination logical pl_local st"
    by (simp add: destination_def pl_local_def cong: option.case_cong)
  have "?put = (fst ?put, st')" using st' by simp
  note put = put_rows [OF ok _ this, unfolded dest]
  have rows: "rows_but (destination logical pl_local st) logical ?st st'"
    "live (row_at (s_index st') (destination logical pl_local st) logical) \<noteq> None"
    using put row_says_live [OF conjunct1 [OF conjunct2 [OF conjunct2 [OF put]]]] by (auto simp: about_def pl_local_def)
  have ok': "store_ok st'" unfolding st' by (rule store_ok_put [OF ok])
  have but: "rows_but (destination logical pl_local st) logical st st'" using rows by (simp add: rows_but_def)
  have other: "row_at (s_index st') s q = row_at (s_index st) s q" if "s \<notin> ours (s_index st)" for s q
    using rows_but_row [OF but, of s q] destination_ours [of logical st] that by auto
  have alive: "live (row_at (s_index st') s q) \<noteq> None" if "live (row_at (s_index st) s q) \<noteq> None" for s q
    using rows rows_but_row [OF but, of s q] that by (cases "(s, q) = (destination logical pl_local st, logical)") auto
  have "written {logical} st st'"
    using but ok' other alive by (auto simp: written_def rows_but_def)
  moreover have "in_folder (s_index st') logical \<noteq> None"
    using rows destination_ours [of logical st] but ok'
    by (auto simp: in_folder_def folder_row_eq ours_def rows_but_def split: option.splits)
  ultimately show ?thesis using rows but by blast
qed

lemma store_all_rows:
  assumes "store_ok st" and "fold (store_one k now now_ns disk) es (stats, st) = (stats', st')"
  shows "written (se_logical ` set es) st st'
    \<and> (\<forall>e \<in> set es. disk (se_path e) \<noteq> None \<longrightarrow> in_folder (s_index st') (se_logical e) \<noteq> None)"
  using assms
proof (induction es arbitrary: stats st)
  case (Cons e es)
  obtain r st1 where put: "put_found k now now_ns disk (se_logical e) (se_path e) st = (r, st1)" by fastforce
  obtain stats1 where one: "store_one k now now_ns disk e (stats, st) = (stats1, st1)"
    by (cases r) (auto simp: store_one_def put)
  have later: "fold (store_one k now now_ns disk) es (stats1, st1) = (stats', st')"
    using Cons.prems(2) one by simp
  note one = put_found_rows [OF Cons.prems(1) put]
  have ok1: "store_ok st1" using one by (simp add: written_def)
  note rest = Cons.IH [OF ok1 later]
  have "written (se_logical ` set (e # es)) st st'"
    using written_trans [of "{se_logical e}" st st1 "se_logical ` set es" st'] one rest by simp
  moreover have "disk (se_path e) \<noteq> None \<longrightarrow> in_folder (s_index st') (se_logical e) \<noteq> None"
    using one written_in_folder [OF conjunct1 [OF rest] ok1] by blast
  ultimately show ?case using rest by simp
qed (simp add: written_refl)

lemma store_many_rows:
  assumes "store_ok st" and "store_many k now now_ns disk wanted es st = (stats, st')"
  shows "written (se_logical ` set es) st st'
    \<and> (\<forall>e \<in> set es. disk (se_path e) \<noteq> None \<longrightarrow> in_folder (s_index st') (se_logical e) \<noteq> None)"
proof (cases "max (min wanted (length es)) 1 = 1")
  case True
  then show ?thesis using store_all_rows [OF assms(1)] assms(2) by (simp add: store_many_def Let_def)
next
  case False
  obtain stats1 st1 where f: "fold (store_one k now now_ns disk) es (stats_default, worker_store st) = (stats1, st1)"
    by fastforce
  have st': "st' = st1\<lparr>s_new_private := s_new_private st\<rparr>"
    using assms(2) False f by (auto simp: store_many_def Let_def split: if_splits)
  have "store_ok (worker_store st)" using assms(1) by (simp add: worker_store_def)
  from store_all_rows [OF this f] show ?thesis by (simp add: st' written_def worker_store_def)
qed

lemma delete_gone_rows:
  assumes "store_ok st" and "delete_gone now on_disk p (stats, st) = (stats', st')"
  shows "store_ok st' \<and> me (s_index st') = me (s_index st)
    \<and> (\<forall>q. q \<noteq> p \<or> p \<in> set on_disk \<or> is_materialised (s_index st) p = Some False
         \<longrightarrow> path_rows (s_index st') q = path_rows (s_index st) q)
    \<and> (\<forall>s. s \<notin> ours (s_index st) \<longrightarrow> row_at (s_index st') s p = row_at (s_index st) s p)
    \<and> (p \<notin> set on_disk \<and> is_materialised (s_index st) p \<noteq> Some False \<longrightarrow>
         (\<forall>row s. folder_row (s_index st) p = Some (row, s) \<longrightarrow> tombstoned (row_at (s_index st') s p)))"
proof (cases "p \<in> set on_disk \<or> is_materialised (s_index st) p = Some False")
  case True
  then have "st' = st" using assms(2) by (auto simp: delete_gone_def split: if_splits)
  then show ?thesis using assms(1) True by auto
next
  case False
  show ?thesis
  proof (cases "folder_row (s_index st) p")
    case None
    then have "st' = st" using assms(2) False by (auto simp: delete_gone_def delete_file_def)
    then show ?thesis using assms(1) None by simp
  next
    case (Some rs)
    obtain row s where rs: "rs = (row, s)" by (cases rs)
    obtain st1 where d: "delete_file now p st = Inr st1" "store_ok st1" "rows_but s p st st1"
      "tombstoned (row_at (s_index st1) s p)" "s \<in> {None, Some (me (s_index st))}"
      using delete_file_rows [OF assms(1) Some [unfolded rs]] by blast
    have "st' = st1" using assms(2) False by (auto simp: delete_gone_def d(1))
    then show ?thesis using False d(2-5) Some by (auto simp: rs rows_but_def ours_def)
  qed
qed

lemma folder_row_path_rows:
  assumes "index_ok ix" and "index_ok ix'" and "path_rows ix' p = path_rows ix p" and "me ix' = me ix"
  shows "folder_row ix' p = folder_row ix p"
  by (simp add: folder_row_eq [OF assms(1)] folder_row_eq [OF assms(2)] row_at_path_rows assms(3,4) cong: option.case_cong)

lemma is_materialised_same:
  "path_rows ix' p = path_rows ix p \<Longrightarrow> me ix' = me ix \<Longrightarrow> is_materialised ix' p = is_materialised ix p"
  by (simp add: is_materialised_path_rows folder_scope_def)

lemma delete_all_rows:
  assumes "store_ok st" and "fold (delete_gone now on_disk) ps (stats, st) = (stats', st')" and "distinct ps"
  shows "store_ok st' \<and> me (s_index st') = me (s_index st)
    \<and> (\<forall>q. q \<notin> set ps \<or> q \<in> set on_disk \<or> is_materialised (s_index st) q = Some False
         \<longrightarrow> path_rows (s_index st') q = path_rows (s_index st) q)
    \<and> (\<forall>s q. s \<notin> ours (s_index st) \<longrightarrow> row_at (s_index st') s q = row_at (s_index st) s q)
    \<and> (\<forall>q \<in> set ps. q \<notin> set on_disk \<longrightarrow> is_materialised (s_index st) q \<noteq> Some False \<longrightarrow>
         (\<forall>row s. folder_row (s_index st) q = Some (row, s) \<longrightarrow> tombstoned (row_at (s_index st') s q)))"
  using assms
proof (induction ps arbitrary: stats st)
  case (Cons p ps)
  obtain stats1 st1 where g: "delete_gone now on_disk p (stats, st) = (stats1, st1)" by fastforce
  have later: "fold (delete_gone now on_disk) ps (stats1, st1) = (stats', st')" using Cons.prems(2) g by simp
  note one = delete_gone_rows [OF Cons.prems(1) g]
  have ok1: "store_ok st1" and me1: "me (s_index st1) = me (s_index st)" using one by blast+
  have p: "p \<notin> set ps" "distinct ps" using Cons.prems(3) by auto
  note rest = Cons.IH [OF ok1 later p(2)]
  have other: "path_rows (s_index st1) q = path_rows (s_index st) q" if "q \<noteq> p" for q
    using one that by blast
  have mat: "is_materialised (s_index st1) q = is_materialised (s_index st) q" if "q \<noteq> p" for q
    by (rule is_materialised_same [OF other [OF that] me1])
  have row: "folder_row (s_index st1) q = folder_row (s_index st) q" if "q \<noteq> p" for q
    by (rule folder_row_path_rows [OF Cons.prems(1) ok1 other [OF that] me1])
  have ours: "ours (s_index st1) = ours (s_index st)" by (simp add: ours_def me1)
  have p_rest: "path_rows (s_index st') p = path_rows (s_index st1) p" using rest p(1) by blast
  have 1: "path_rows (s_index st') q = path_rows (s_index st) q"
    if "q \<notin> set (p # ps) \<or> q \<in> set on_disk \<or> is_materialised (s_index st) q = Some False" for q
    using that one rest p_rest other mat by (cases "q = p") (auto simp del: p_rest)
  have 2: "row_at (s_index st') s q = row_at (s_index st) s q" if "s \<notin> ours (s_index st)" for s q
    using that one rest other by (cases "q = p") (auto simp: row_at_path_rows ours)
  have 3: "tombstoned (row_at (s_index st') s q)"
    if "q \<in> set (p # ps)" "q \<notin> set on_disk" "is_materialised (s_index st) q \<noteq> Some False"
      "folder_row (s_index st) q = Some (r, s)" for q r s
  proof (cases "q = p")
    case True
    then show ?thesis using one that p_rest by (simp add: row_at_path_rows)
  next
    case False
    then show ?thesis using rest that by (simp add: mat row)
  qed
  have 0: "store_ok st'" "me (s_index st') = me (s_index st)" using rest me1 by simp_all
  show ?case by (intro conjI allI ballI impI) (use 0 1 2 3 in blast)+
qed simp

lemma distinct_sorted_remdups: "distinct (remdups_adj (sort xs))"
proof -
  have "sorted (remdups_adj (sort xs))" and "distinct_adj (remdups_adj (sort xs))" by simp_all
  moreover have "sorted ys \<Longrightarrow> distinct_adj ys \<Longrightarrow> distinct ys" for ys :: "'a list"
  proof (induction ys)
    case (Cons a ys)
    then show ?case by (cases ys) (auto simp: distinct_adj_Cons)
  qed simp
  ultimately show ?thesis by blast
qed

lemma distinct_folder_paths: "distinct (folder_paths ix)"
  by (simp add: folder_paths_def distinct_sorted_remdups)

lemma folder_paths_mem:
  "p \<in> set (folder_paths ix) \<longleftrightarrow>
     (\<exists>f \<in> set (path_rows ix p). f_deleted f = None \<and> folder_scope ix f) \<and> take 14 p \<noteq> ''.qurb-outside/''"
  by (auto simp: folder_paths_def path_rows_def)

lemma folder_paths_same:
  "path_rows ix' p = path_rows ix p \<Longrightarrow> me ix' = me ix \<Longrightarrow> p \<in> set (folder_paths ix') \<longleftrightarrow> p \<in> set (folder_paths ix)"
  by (simp add: folder_paths_mem folder_scope_def)

lemma folder_paths_row: "index_ok ix \<Longrightarrow> p \<in> set (folder_paths ix) \<Longrightarrow> folder_row ix p \<noteq> None"
proof -
  assume ok: "index_ok ix" and "p \<in> set (folder_paths ix)"
  then obtain f where "f \<in> set (files ix)" "f_path f = p" "f_deleted f = None" "f_scope f = None \<or> f_scope f = Some (me ix)"
    by (auto simp: folder_paths_mem path_rows_def folder_scope_def)
  then have "live (row_at ix (f_scope f) p) = Some f" "f_scope f = None \<or> f_scope f = Some (me ix)"
    using row_at_mem [OF ok, of f] by (auto simp: live_def)
  then show ?thesis by (auto simp: folder_row_eq [OF ok] split: option.splits)
qed

definition brought :: "codec \<Rightarrow> disk \<Rightarrow> store \<Rightarrow> store \<Rightarrow> scan_entry \<Rightarrow> bool" where
  \<comment> \<open>a file of the walk after it was stored: by its bytes, or as it was when it could not be read\<close>
  "brought k disk st st' e \<longleftrightarrow>
     (case disk (se_path e) of
        None \<Rightarrow> path_rows (s_index st') (se_logical e) = path_rows (s_index st) (se_logical e)
      | Some (data, _) \<Rightarrow>
          (case in_folder (s_index st') (se_logical e) of None \<Rightarrow> False | Some f \<Rightarrow> f_hash f = k_hash k data))"

lemma destination_row_is_found:
  assumes "store_ok st" and "store_ok st'" and "rows_but s p st st'" and "s = destination p pl_local st"
    and "live (row_at (s_index st') s p) = Some f"
  shows "in_folder (s_index st') p = Some f"
  using assms(3-5)
  by (auto simp: in_folder_def folder_row_eq [OF assms(2)] destination_def pl_local_def folder_row_eq [OF assms(1)]
      rows_but_def live_row_row_at file_by_path_def simp flip: row_at_def split: option.splits if_splits)

lemma put_found_brings:
  assumes "store_ok st" and "put_found k now now_ns disk (se_logical e) (se_path e) st = (r, st')" and "cdc_ok (k_cdc k)"
  shows "brought k disk st st' e"
proof (cases "disk (se_path e)")
  case None
  then show ?thesis using assms(2) by (simp add: brought_def put_found_def)
next
  case (Some dm)
  obtain data mtime where dm: "dm = (data, mtime)" by (cases dm)
  let ?p = "se_logical e" and ?m = "chunk_bytes (k_hash k) (k_cdc k) data"
  let ?st = "st\<lparr>s_racy := (s_racy st)(?p := too_recent now_ns mtime)\<rparr>"
  let ?put = "put_manifest (k_sealed k) now ?p ?m data mtime pl_local ?st"
  have st': "st' = snd ?put" using assms(2) Some by (auto simp: put_found_def dm put_file_def Let_def split: prod.splits)
  have ok: "store_ok ?st" using assms(1) by simp
  have dest: "destination ?p pl_local ?st = destination ?p pl_local st"
    by (simp add: destination_def pl_local_def cong: option.case_cong)
  have "?put = (fst ?put, st')" using st' by simp
  note put = put_rows [OF ok _ this, unfolded dest]
  let ?s = "destination ?p pl_local st"
  have about: "about ?p pl_local" by (simp add: about_def pl_local_def)
  note says = conjunct1 [OF conjunct2 [OF conjunct2 [OF put [OF about]]]]
  obtain f where f: "row_at (s_index st') ?s ?p = Some f"
    using conjunct2 [OF row_says_live [OF says]] by blast
  have hash: "f_hash f = m_hash ?m" using says unfolding f by (simp add: row_says_def)
  have lv: "live (row_at (s_index st') ?s ?p) = Some f" using conjunct1 [OF row_says_live [OF says]] f by simp
  have ok': "store_ok st'" unfolding st' by (rule store_ok_put [OF ok])
  have "in_folder (s_index st') ?p = Some f"
    by (rule destination_row_is_found [OF ok ok' conjunct1 [OF put [OF about]] dest [symmetric] lv])
  then show ?thesis using hash assms(3) by (simp add: brought_def Some dm chunk_bytes_def cdc_ok_def)
qed

lemma in_folder_live: "store_ok st \<Longrightarrow> in_folder (s_index st) p = Some f \<Longrightarrow> f_deleted f = None"
  by (auto simp: in_folder_def folder_row_eq live_def split: option.splits if_splits)

lemma brought_later:
  assumes "brought k disk st st1 e" and "path_rows (s_index st') (se_logical e) = path_rows (s_index st1) (se_logical e)"
    and "store_ok st1" and "store_ok st'" and "me (s_index st') = me (s_index st1)"
  shows "brought k disk st st' e"
  using assms(1,2) folder_row_path_rows [OF assms(3,4,2,5)] by (cases "disk (se_path e)") (auto simp: brought_def in_folder_def split: prod.splits option.splits)

lemma store_all_brings:
  assumes "store_ok st" and "fold (store_one k now now_ns disk) es (stats, st) = (stats', st')"
    and "distinct (map se_logical es)" and "cdc_ok (k_cdc k)" and "e \<in> set es"
  shows "brought k disk st st' e"
  using assms
proof (induction es arbitrary: stats st)
  case (Cons a es)
  obtain r st1 where put: "put_found k now now_ns disk (se_logical a) (se_path a) st = (r, st1)" by fastforce
  obtain stats1 where one: "store_one k now now_ns disk a (stats, st) = (stats1, st1)"
    by (cases r) (auto simp: store_one_def put)
  have later: "fold (store_one k now now_ns disk) es (stats1, st1) = (stats', st')"
    using Cons.prems(2) one by simp
  have wrote: "written {se_logical a} st st1" using put_found_rows [OF Cons.prems(1) put] by blast
  then have ok1: "store_ok st1" by (simp add: written_def)
  have rest: "written (se_logical ` set es) st1 st'" using store_all_rows [OF ok1 later] by blast
  show ?case
  proof (cases "e = a")
    case True
    then have "path_rows (s_index st') (se_logical e) = path_rows (s_index st1) (se_logical e)"
      using rest Cons.prems(3) by (auto simp: written_def)
    then show ?thesis
      using brought_later [OF _ _ ok1, of k disk st e st'] put_found_brings [OF Cons.prems(1) put Cons.prems(4)] rest True
      by (simp add: written_def)
  next
    case False
    then have e: "e \<in> set es" using Cons.prems(5) by simp
    then have "se_logical e \<noteq> se_logical a" using Cons.prems(3) by (metis distinct.simps(2) imageI list.simps(9) set_map)
    then have "path_rows (s_index st1) (se_logical e) = path_rows (s_index st) (se_logical e)"
      using wrote by (simp add: written_def)
    then show ?thesis
      using Cons.IH [OF ok1 later _ Cons.prems(4) e] Cons.prems(3) by (simp add: brought_def cong: option.case_cong)
  qed
qed simp

lemma store_many_brings:
  assumes "store_ok st" and "store_many k now now_ns disk wanted es st = (stats, st')"
    and "distinct (map se_logical es)" and "cdc_ok (k_cdc k)" and "e \<in> set es"
  shows "brought k disk st st' e"
proof (cases "max (min wanted (length es)) 1 = 1")
  case True
  then show ?thesis using store_all_brings [OF assms(1) _ assms(3-5)] assms(2) by (simp add: store_many_def Let_def)
next
  case False
  obtain stats1 st1 where f: "fold (store_one k now now_ns disk) es (stats_default, worker_store st) = (stats1, st1)"
    by fastforce
  have st': "st' = st1\<lparr>s_new_private := s_new_private st\<rparr>"
    using assms(2) False f by (auto simp: store_many_def Let_def split: if_splits)
  have "store_ok (worker_store st)" using assms(1) by (simp add: worker_store_def)
  note brings = store_all_brings [OF this f assms(3-5)]
  have "s_index st' = s_index st1" "s_index (worker_store st) = s_index st" by (simp_all add: st' worker_store_def)
  then show ?thesis using brings by (simp only: brought_def)
qed

text \<open>C33: A run over the folder makes the index say what the folder holds, and never turns a freed
  copy into a deletion. On a device that syncs, whatever files can be opened: a file of the walk
  whose size and modification time the index has, and which was not changed moments before it was
  read, or which cannot be opened, stays as it was in the index; every other file of the walk is in
  the folder's area of the index afterwards, under the hash of the bytes it has on disk. Every path
  the index held for the folder, and the walk did not find, is a tombstone, unless its content was
  freed for space; and a row that was live is a tombstone afterwards only if it is in the folder's
  areas, its path was not found, and it was not freed. The walk reports each path once, and the cuts
  a file is chunked at cover it.\<close>

theorem reconcile_follows_the_folder:
  assumes "store_ok (e_store en)" and "e_role en = Syncing" and "cdc_ok (k_cdc k)" and "distinct (map de_path found)"
    and "entries = snd (without_collisions (scan (k_nfc k) (e_root en) (e_ignore en) found))"
    and "reconcile_folder k now now_ns disk found en = (stats, en')"
  shows "store_ok (e_store en')
    \<and> (\<forall>e \<in> set entries.
         (let before = in_folder (s_index (e_store en)) (se_logical e);
              after = in_folder (s_index (e_store en')) (se_logical e);
              as_indexed = (\<not> s_racy (e_store en) (se_logical e)
                \<and> (case before of None \<Rightarrow> False | Some f \<Rightarrow> f_size f = se_size e \<and> f_mtime f = se_mtime e))
          in if as_indexed then after = before
             else case disk (se_path e) of
                    None \<Rightarrow> after = before
                  | Some (data, _) \<Rightarrow> (case after of None \<Rightarrow> False | Some f \<Rightarrow> f_hash f = k_hash k data)))
    \<and> (\<forall>p \<in> set (folder_paths (s_index (e_store en))). p \<notin> se_logical ` set entries \<longrightarrow>
         is_materialised (s_index (e_store en)) p \<noteq> Some False \<longrightarrow>
         (\<exists>row s. folder_row (s_index (e_store en)) p = Some (row, s)
            \<and> tombstoned (row_at (s_index (e_store en')) s p)))
    \<and> (\<forall>s p. live (row_at (s_index (e_store en)) s p) \<noteq> None \<longrightarrow> live (row_at (s_index (e_store en')) s p) = None \<longrightarrow>
         s \<in> {None, Some (me (s_index (e_store en)))} \<and> p \<notin> se_logical ` set entries
         \<and> is_materialised (s_index (e_store en)) p \<noteq> Some False)"
proof -
  let ?st = "e_store en"
  define same where "same e \<longleftrightarrow> looks_unchanged ?st (se_logical e) (se_size e) (se_mtime e)" for e :: scan_entry
  define changed where "changed = filter (\<lambda>e. \<not> same e) entries"
  define disk_paths where "disk_paths = map se_logical entries"
  obtain stored st1 where w:
    "(if changed \<noteq> [] then store_many k now now_ns disk (e_workers en) changed ?st else (stats_default, ?st)) = (stored, st1)"
    by fastforce
  obtain collided where split: "without_collisions (scan (k_nfc k) (e_root en) (e_ignore en) found) = (collided, entries)"
    using assms(5) by (metis prod.collapse)
  obtain stats0 st' where d: "fold (delete_gone now disk_paths) (folder_paths (s_index st1)) (stats0, st1) = (stats, st')"
    and en': "e_store en' = st'"
    using assms(2,6) w [unfolded changed_def same_def]
    by (simp add: reconcile_folder_def is_replica_def split Let_def disk_paths_def)
      (fastforce split: prod.split_asm simp del: fold_simps)
  have apart: "distinct (map se_logical entries)"
    using collisions_are_decided_alike [OF assms(4,4)] assms(5) by simp
  have wrote: "written (se_logical ` set changed) ?st st1 \<and> (\<forall>e \<in> set changed. brought k disk ?st st1 e)"
  proof (cases "changed = []")
    case False
    then have many: "store_many k now now_ns disk (e_workers en) changed ?st = (stored, st1)" using w by simp
    have "distinct (map se_logical changed)" using apart by (simp add: changed_def distinct_map_filter)
    from store_many_brings [OF assms(1) many this assms(3)] store_many_rows [OF assms(1) many] show ?thesis by blast
  qed (use w assms(1) in \<open>auto simp: written_refl\<close>)
  then have ok1: "store_ok st1" and me1: "me (s_index st1) = me (s_index ?st)" by (simp_all add: written_def)
  note del = delete_all_rows [OF ok1 d distinct_folder_paths]
  have kept: "path_rows (s_index st1) p = path_rows (s_index ?st) p" if "p \<notin> set disk_paths" for p
    using wrote that by (auto simp: written_def disk_paths_def changed_def)
  note mat = is_materialised_same [OF kept me1] and row = folder_row_path_rows [OF assms(1) ok1 kept me1]
  have on_disk: "path_rows (s_index st') p = path_rows (s_index st1) p" if "p \<in> set disk_paths" for p
    using del that by blast
  have entry: "if same e then in_folder (s_index (e_store en')) (se_logical e) = in_folder (s_index ?st) (se_logical e)
      else brought k disk ?st st' e" if e: "e \<in> set entries" for e
  proof -
    have "se_logical e \<in> set disk_paths" using e by (simp add: disk_paths_def)
    note later = on_disk [OF this]
    have ok': "store_ok st'" and me': "me (s_index st') = me (s_index st1)" using del by simp_all
    show ?thesis
    proof (cases "same e")
      case True
      then have "e \<notin> set changed" by (simp add: changed_def)
      then have "se_logical e \<notin> se_logical ` set changed"
        using apart e by (auto simp: changed_def distinct_map dest: inj_onD)
      then have "path_rows (s_index st') (se_logical e) = path_rows (s_index ?st) (se_logical e)"
        using wrote later by (simp add: written_def)
      from folder_row_path_rows [OF assms(1) ok' this] me' me1 show ?thesis
        using True by (simp add: in_folder_def en')
    next
      case False
      then show ?thesis using brought_later [OF _ later ok1 ok' me'] wrote e by (simp add: changed_def)
    qed
  qed
  have 1: "let before = in_folder (s_index ?st) (se_logical e); after = in_folder (s_index (e_store en')) (se_logical e);
           as_indexed = (\<not> s_racy ?st (se_logical e)
             \<and> (case before of None \<Rightarrow> False | Some f \<Rightarrow> f_size f = se_size e \<and> f_mtime f = se_mtime e))
         in if as_indexed then after = before
            else case disk (se_path e) of
                   None \<Rightarrow> after = before
                 | Some (data, _) \<Rightarrow> (case after of None \<Rightarrow> False | Some f \<Rightarrow> f_hash f = k_hash k data)"
    if e: "e \<in> set entries" for e
  proof -
    have "same e \<longleftrightarrow> \<not> s_racy ?st (se_logical e) \<and> (case in_folder (s_index ?st) (se_logical e) of None \<Rightarrow> False
        | Some f \<Rightarrow> f_size f = se_size e \<and> f_mtime f = se_mtime e)"
      by (auto simp: same_def looks_unchanged_def dest: in_folder_live [OF assms(1)] split: option.splits)
    moreover have "in_folder (s_index (e_store en')) (se_logical e) = in_folder (s_index ?st) (se_logical e)"
      if "path_rows (s_index st') (se_logical e) = path_rows (s_index ?st) (se_logical e)"
      using folder_row_path_rows [OF assms(1) _ that] del me1 by (simp add: in_folder_def en')
    ultimately show ?thesis
      using entry [OF e] by (auto simp: Let_def brought_def en' split: if_splits option.splits prod.splits)
  qed
  have "\<exists>row s. folder_row (s_index ?st) p = Some (row, s) \<and> tombstoned (row_at (s_index (e_store en')) s p)"
    if p: "p \<in> set (folder_paths (s_index ?st))" "p \<notin> se_logical ` set entries"
      "is_materialised (s_index ?st) p \<noteq> Some False" for p
  proof -
    have off: "p \<notin> set disk_paths" using p(2) by (simp add: disk_paths_def)
    have "p \<in> set (folder_paths (s_index st1))" using folder_paths_same [OF kept [OF off] me1] p(1) by simp
    moreover obtain row s where rs: "folder_row (s_index ?st) p = Some (row, s)"
      using folder_paths_row [OF assms(1) p(1)] by fastforce
    ultimately have "tombstoned (row_at (s_index st') s p)"
      using del off p(3) by (simp add: mat row)
    then show ?thesis using rs en' by blast
  qed
  moreover have "s \<in> {None, Some (me (s_index ?st))} \<and> p \<notin> se_logical ` set entries \<and> is_materialised (s_index ?st) p \<noteq> Some False"
    if lv: "live (row_at (s_index ?st) s p) \<noteq> None" "live (row_at (s_index (e_store en')) s p) = None" for s p
  proof -
    have lv1: "live (row_at (s_index st1) s p) \<noteq> None" using wrote lv(1) by (simp add: written_def)
    have "path_rows (s_index st') p \<noteq> path_rows (s_index st1) p" "s \<in> ours (s_index st1)"
      using lv(2) lv1 del en' by (auto simp: row_at_path_rows)
    then have "p \<notin> set disk_paths" "is_materialised (s_index st1) p \<noteq> Some False" "s \<in> ours (s_index st1)"
      using del by blast+
    then show ?thesis using mat me1 by (simp add: ours_def disk_paths_def)
  qed
  moreover have "store_ok (e_store en')" using del en' by simp
  ultimately show ?thesis using 1 by blast
qed

subsection \<open>The run on a concrete folder\<close>

definition one_piece :: codec where
  "one_piece = \<lparr>k_sealed = length, k_hash = (\<lambda>b. b), k_cdc = whole_file, k_nfc = (\<lambda>s. s)\<rparr>"

definition freed_and_gone :: store where
  \<comment> \<open>the report was freed for space, and \<open>b\<close> has since been deleted from the folder\<close>
  "freed_and_gone = snd (store_put_bytes length (\<lambda>b. b) whole_file 100 ''b'' [1] 0
     ((projr (evict ''r'' with_copy))\<lparr>s_tree := Some [''b'' \<mapsto> [1]]\<rparr>))"

definition laptop_engine :: engine where
  "laptop_engine = \<lparr>e_root = [''home''], e_store = freed_and_gone, e_ignore = ignore_new, e_role = Syncing, e_workers = 4\<rparr>"

definition one_new_file :: "dir_entry list" where
  "one_new_file = [\<lparr>de_path = [''home'', ''n''], de_file = True, de_size = 1, de_mtime = 7\<rparr>]"

abbreviation (input) "new_on_disk \<equiv> [[''home'', ''n''] \<mapsto> ([5], 7)]"

lemma store_ok_freed_and_gone: "store_ok freed_and_gone"
proof -
  have "isl (evict ''r'' with_copy) = False" by code_simp
  then obtain st where st: "evict ''r'' with_copy = Inr st" by (cases "evict ''r'' with_copy") auto
  have "store_ok with_report"
    by (simp add: with_report_def store_put_bytes_def store_ok_put store_new_def)
  then have "store_ok with_copy" by (simp add: with_copy_def index_ok_note_replica)
  from store_ok_evict [OF this st] show ?thesis
    by (simp add: freed_and_gone_def st store_put_bytes_def store_ok_put)
qed

theorem reconcile_follows_the_folder_witness:
  "map_option f_hash (in_folder (s_index (e_store (snd (reconcile_folder one_piece 200 9000000000 new_on_disk one_new_file laptop_engine)))) ''n'') = Some [5]
   \<and> tombstoned (row_at (s_index (e_store (snd (reconcile_folder one_piece 200 9000000000 new_on_disk one_new_file laptop_engine)))) None ''b'')
   \<and> live (row_at (s_index (e_store (snd (reconcile_folder one_piece 200 9000000000 new_on_disk one_new_file laptop_engine)))) None ''r'') \<noteq> None"
proof -
  have scanned: "snd (without_collisions (scan (k_nfc one_piece) [''home''] ignore_new one_new_file)) =
      [\<lparr>se_path = [''home'', ''n''], se_logical = ''n'', se_size = 1, se_mtime = 7\<rparr>]"
    by code_simp
  have at_b: "folder_row (s_index freed_and_gone) ''b'' = Some (the (row_at (s_index freed_and_gone) None ''b''), None)"
    "''b'' \<in> set (folder_paths (s_index freed_and_gone))" "is_materialised (s_index freed_and_gone) ''b'' \<noteq> Some False"
    "live (row_at (s_index freed_and_gone) None ''r'') \<noteq> None" "is_materialised (s_index freed_and_gone) ''r'' = Some False"
    by code_simp+
  have unseen: "in_folder (s_index freed_and_gone) ''n'' = None" "distinct (map de_path one_new_file)" by code_simp+
  have cuts: "cdc_ok (k_cdc one_piece)" using whole_file_ok by (simp add: one_piece_def)
  have named: "k_hash one_piece [5] = [5]" by (simp add: one_piece_def)
  note r = reconcile_follows_the_folder [of laptop_engine one_piece one_new_file
      "snd (without_collisions (scan (k_nfc one_piece) [''home''] ignore_new one_new_file))" 200 9000000000 new_on_disk,
      OF _ _ _ _ _ surjective_pairing]
  define ix where "ix = s_index (e_store (snd (reconcile_folder one_piece 200 9000000000 new_on_disk one_new_file laptop_engine)))"
  have "(case in_folder ix ''n'' of None \<Rightarrow> False | Some f \<Rightarrow> f_hash f = k_hash one_piece [5])
    \<and> (\<forall>p \<in> set (folder_paths (s_index freed_and_gone)). p \<noteq> ''n'' \<longrightarrow> is_materialised (s_index freed_and_gone) p \<noteq> Some False \<longrightarrow>
         (\<exists>row s. folder_row (s_index freed_and_gone) p = Some (row, s) \<and> tombstoned (row_at ix s p)))
    \<and> (\<forall>s p. live (row_at (s_index freed_and_gone) s p) \<noteq> None \<longrightarrow> live (row_at ix s p) = None \<longrightarrow>
         is_materialised (s_index freed_and_gone) p \<noteq> Some False)"
    using r store_ok_freed_and_gone unseen cuts by (simp add: ix_def laptop_engine_def scanned Let_def)
  then have "map_option f_hash (in_folder ix ''n'') = Some [5]" "tombstoned (row_at ix None ''b'')"
    "live (row_at ix None ''r'') \<noteq> None"
    using at_b named by ((simp split: option.splits), (fastforce dest!: bspec [OF _ at_b(2)])+)
  then show ?thesis by (simp add: ix_def)
qed

subsection \<open>Where a run files a new file\<close>

lemma destination_same:
  assumes "store_ok st" and "store_ok st'" and "path_rows (s_index st') p = path_rows (s_index st) p"
    and "me (s_index st') = me (s_index st)" and "s_new_private st' = s_new_private st"
  shows "destination p pl_local st' = destination p pl_local st"
  using folder_row_path_rows [OF assms(1-4)] assms(3-5)
  by (simp add: destination_def pl_local_def file_by_path_def row_at_path_rows flip: row_at_def cong: option.case_cong)

lemma store_all_destination:
  assumes "store_ok st" and "fold (store_one k now now_ns disk) es (stats, st) = (stats', st')"
    and "distinct (map se_logical es)" and "e \<in> set es" and "disk (se_path e) \<noteq> None"
  shows "live (row_at (s_index st') (destination (se_logical e) pl_local st) (se_logical e)) \<noteq> None
    \<and> (\<forall>s. s \<noteq> destination (se_logical e) pl_local st \<longrightarrow>
         row_at (s_index st') s (se_logical e) = row_at (s_index st) s (se_logical e))"
  using assms
proof (induction es arbitrary: stats st)
  case (Cons a es)
  obtain r st1 where put: "put_found k now now_ns disk (se_logical a) (se_path a) st = (r, st1)" by fastforce
  obtain stats1 where one: "store_one k now now_ns disk a (stats, st) = (stats1, st1)"
    by (cases r) (auto simp: store_one_def put)
  have later: "fold (store_one k now now_ns disk) es (stats1, st1) = (stats', st')"
    using Cons.prems(2) one by simp
  note rows = put_found_rows [OF Cons.prems(1) put]
  have ok1: "store_ok st1" and but: "rows_but (destination (se_logical a) pl_local st) (se_logical a) st st1"
    using rows by (simp_all add: written_def)
  have rest: "written (se_logical ` set es) st1 st'" using store_all_rows [OF ok1 later] by blast
  show ?case
  proof (cases "e = a")
    case True
    then have "path_rows (s_index st') (se_logical e) = path_rows (s_index st1) (se_logical e)"
      using rest Cons.prems(3) by (auto simp: written_def)
    then show ?thesis using rows Cons.prems(5) True but by (simp add: row_at_path_rows rows_but_def)
  next
    case False
    then have e1: "e \<in> set es" using Cons.prems(4) by simp
    then have in_es: "se_logical e \<in> se_logical ` set es" by (rule imageI)
    have "se_logical a \<notin> se_logical ` set es" using Cons.prems(3) by simp
    with in_es e1 have e: "e \<in> set es" "se_logical e \<noteq> se_logical a" by metis+
    have same: "path_rows (s_index st1) (se_logical e) = path_rows (s_index st) (se_logical e)"
      using but e(2) by (simp add: rows_but_def)
    have "destination (se_logical e) pl_local st1 = destination (se_logical e) pl_local st"
      using but by (intro destination_same [OF Cons.prems(1) ok1 same]) (simp_all add: rows_but_def)
    with Cons.IH [OF ok1 later _ e(1) Cons.prems(5)] Cons.prems(3) same show ?thesis
      by (simp add: row_at_path_rows)
  qed
qed simp

text \<open>Where a run files a new file depends on how many other files changed. On a device whose new
  files are its own, a file the index has nothing of goes to the device's own vault when the run
  stores one file, or has one worker; when several files are stored by several workers it goes to
  the area shared with every device, and nothing of it to the vault.\<close>

lemma bulk_runs_share_private_files:
  assumes "store_ok st" and "s_new_private st" and "distinct (map se_logical es)"
    and "e \<in> set es" and "disk (se_path e) \<noteq> None" and "path_rows (s_index st) (se_logical e) = []"
    and "store_many k now now_ns disk workers es st = (stats, st')"
  shows "(min workers (length es) \<le> 1 \<longrightarrow>
       live (row_at (s_index st') (Some (me (s_index st))) (se_logical e)) \<noteq> None
       \<and> row_at (s_index st') None (se_logical e) = None)
    \<and> (min workers (length es) > 1 \<longrightarrow>
       live (row_at (s_index st') None (se_logical e)) \<noteq> None
       \<and> row_at (s_index st') (Some (me (s_index st))) (se_logical e) = None)"
proof -
  have none: "folder_row (s_index st) (se_logical e) = None" "row_at (s_index st) s (se_logical e) = None" for s
    using assms(1,6) by (simp_all add: folder_row_eq row_at_path_rows live_def)
  have dest: "destination (se_logical e) pl_local (st\<lparr>s_new_private := b\<rparr>) = (if b then Some (me (s_index st)) else None)" for b
    using none(2) [of None] by (simp add: destination_def pl_local_def none file_by_path_def flip: row_at_def)
  show ?thesis
  proof (cases "min workers (length es) \<le> 1")
    case True
    then have one: "fold (store_one k now now_ns disk) es (stats_default, st) = (stats, st')"
      using assms(7) by (simp add: store_many_def Let_def)
    have st: "st\<lparr>s_new_private := True\<rparr> = st" using assms(2) by simp
    from store_all_destination [OF assms(1) one assms(3-5)] dest [of True] none True show ?thesis
      by (auto simp: st min_le_iff_disj)
  next
    case False
    obtain stats1 st1 where f: "fold (store_one k now now_ns disk) es (stats_default, worker_store st) = (stats1, st1)"
      by fastforce
    have "st' = st1\<lparr>s_new_private := s_new_private st\<rparr>"
      using assms(7) False f by (auto simp: store_many_def Let_def split: if_splits)
    with store_all_destination [OF _ f assms(3-5)] assms(1) dest [of False] none False show ?thesis
      by (simp add: worker_store_def)
  qed
qed

definition new_photos :: "scan_entry list" where
  "new_photos = map (\<lambda>n. \<lparr>se_path = [''home'', n], se_logical = n, se_size = 1, se_mtime = 7\<rparr>) [''p1'', ''p2'']"

definition private_store :: store where
  "private_store = (store_new phone (Some (\<lambda>_. None)))\<lparr>s_new_private := True\<rparr>"

lemma bulk_runs_share_private_files_witness:
  "live (row_at (s_index (snd (store_many one_piece 100 9000000000 (\<lambda>_. Some ([5], 7)) 4 new_photos private_store))) None ''p1'') \<noteq> None
   \<and> live (row_at (s_index (snd (store_many one_piece 100 9000000000 (\<lambda>_. Some ([5], 7)) 4 [hd new_photos] private_store)))
       (Some phone) ''p1'') \<noteq> None"
proof -
  have p1: "hd new_photos \<in> set new_photos" "se_logical (hd new_photos) = ''p1''" "distinct (map se_logical new_photos)"
    "length new_photos = 2"
    by (simp_all add: new_photos_def)
  have "store_ok (store_new phone (Some (\<lambda>_. None)))" by (simp add: store_new_def)
  then have new: "store_ok private_store" "s_new_private private_store" "path_rows (s_index private_store) ''p1'' = []"
    "me (s_index private_store) = phone"
    by (simp_all add: private_store_def) (simp_all add: store_new_def index_new_def path_rows_def)
  note bulk = bulk_runs_share_private_files [OF new(1,2) _ _ _ _ surjective_pairing, where e = "hd new_photos"
      and disk = "\<lambda>_. Some ([5], 7)" and k = one_piece and now = 100 and now_ns = 9000000000 and workers = 4]
  show ?thesis
    using bulk [where es = new_photos] bulk [where es = "[hd new_photos]"]
    by (simp add: p1 new)
qed

subsection \<open>What a removal takes with it\<close>

lemma like_escaped:
  "like (escape_chars ps @ rest) t \<longleftrightarrow>
     length ps \<le> length t \<and> map to_ascii_lowercase (take (length ps) t) = map to_ascii_lowercase ps
     \<and> like rest (drop (length ps) t)"
proof (induction ps arbitrary: t)
  case (Cons c ps)
  have "escape_chars (c # ps) @ rest =
      (if c \<in> {CHR ''%'', CHR ''_'', CHR 0x5C} then CHR 0x5C # c # escape_chars ps @ rest else c # escape_chars ps @ rest)"
    by (simp add: escape_chars_def)
  then show ?case using Cons.IH by (cases t) auto
qed (simp add: escape_chars_def)

lemma like_percent: "like ''%'' t"
  by (induction t) auto

lemma like_slash: "like ''/%'' t \<longleftrightarrow> t \<noteq> [] \<and> to_ascii_lowercase (hd t) = to_ascii_lowercase CHR ''/''"
  by (cases t) (auto simp del: like.simps simp add: like.simps(2) [of "CHR ''/''"] like_percent)

definition lies_beneath :: "string \<Rightarrow> string \<Rightarrow> bool" where
  \<comment> \<open>the path itself, or a path below a directory of that name in any case\<close>
  "lies_beneath dir p \<longleftrightarrow> p = dir \<or> (length dir < length p
     \<and> map to_ascii_lowercase (take (Suc (length dir)) p) = map to_ascii_lowercase (dir @ ''/''))"

lemma lies_beneath_like: "p = dir \<or> like (escape_like (dir @ ''/%'')) p \<longleftrightarrow> lies_beneath dir p"
proof -
  have "ends_with (dir @ ''/%'') ''/%''" by (simp add: ends_with_def)
  then have "like (escape_like (dir @ ''/%'')) p \<longleftrightarrow> like (escape_chars dir @ ''/%'') p"
    by (simp add: escape_like_def)
  also have "\<dots> \<longleftrightarrow> length dir < length p
     \<and> map to_ascii_lowercase (take (Suc (length dir)) p) = map to_ascii_lowercase (dir @ ''/'')"
    by (cases "length dir < length p")
      (auto simp: like_escaped like_slash take_Suc_conv_app_nth hd_drop_conv_nth simp del: like.simps)
  finally show ?thesis by (simp add: lies_beneath_def)
qed

lemma folder_paths_under_mem:
  "p \<in> set (folder_paths_under ix dir) \<longleftrightarrow>
     (\<exists>f \<in> set (path_rows ix p). f_deleted f = None \<and> folder_scope ix f) \<and> lies_beneath (trim_slashes dir) p"
  by (auto simp: folder_paths_under_def path_rows_def Let_def lies_beneath_like)

lemma removal_is_delete_gone:
  "\<exists>stats1. fold (removal_step now) ps (Inr stats, st) = (Inr stats1, snd (fold (delete_gone now []) ps (stats', st)))"
proof (induction ps arbitrary: stats stats' st)
  case (Cons p ps)
  have "\<exists>stats1 stats2 st1. removal_step now p (Inr stats, st) = (Inr stats1, st1)
      \<and> delete_gone now [] p (stats', st) = (stats2, st1)"
    by (auto simp: removal_step_def delete_gone_def delete_file_def split: option.splits)
  then show ?case using Cons.IH by fastforce
qed simp

text \<open>C34: A removal the watcher reports tombstones what the index holds for the folder at that path
  and beneath it, freed copies apart, and leaves every other path as it was; it never fails. Which
  paths lie beneath is decided without regard to the case of ASCII letters: on a file system that
  distinguishes \<open>Docs\<close> and \<open>docs\<close>, removing one of the two directories tombstones the files of
  both.\<close>

theorem removal_takes_what_lies_beneath:
  assumes "store_ok st" and "apply_removal now dir st = (r, st')"
  shows "\<not> isl r \<and> store_ok st'
    \<and> (\<forall>p. lies_beneath (trim_slashes dir) p \<longrightarrow> is_materialised (s_index st) p = Some True \<longrightarrow>
         (\<exists>row s. folder_row (s_index st) p = Some (row, s) \<and> tombstoned (row_at (s_index st') s p)))
    \<and> (\<forall>p. \<not> lies_beneath (trim_slashes dir) p \<or> is_materialised (s_index st) p \<noteq> Some True \<longrightarrow>
         path_rows (s_index st') p = path_rows (s_index st) p)"
proof -
  let ?ps = "folder_paths_under (s_index st) dir"
  obtain stats1 stats2 where r: "r = Inr stats1" and d: "fold (delete_gone now []) ?ps (stats_default, st) = (stats2, st')"
    using removal_is_delete_gone [of now ?ps stats_default st stats_default] assms(2)
    by (metis apply_removal_def prod.collapse prod.inject)
  have "distinct ?ps" by (simp add: folder_paths_under_def Let_def distinct_sorted_remdups)
  note del = delete_all_rows [OF assms(1) d this]
  have live: "folder_row (s_index st) p \<noteq> None" "p \<in> set ?ps"
    if "lies_beneath (trim_slashes dir) p" "is_materialised (s_index st) p = Some True" for p
  proof -
    have "\<exists>f \<in> set (path_rows (s_index st) p). f_deleted f = None \<and> folder_scope (s_index st) f"
      using that(2) by (auto simp: is_materialised_path_rows dest: find_SomeD)
    then show "p \<in> set ?ps" using that(1) by (simp add: folder_paths_under_mem)
    from \<open>\<exists>f \<in> _. _\<close> obtain f where "f \<in> set (files (s_index st))" "f_path f = p" "f_deleted f = None"
      "f_scope f = None \<or> f_scope f = Some (me (s_index st))"
      by (auto simp: path_rows_def folder_scope_def)
    then show "folder_row (s_index st) p \<noteq> None"
      using row_at_mem [OF assms(1), of f] by (auto simp: folder_row_eq [OF assms(1)] live_def split: option.splits)
  qed
  have "\<exists>row s. folder_row (s_index st) p = Some (row, s) \<and> tombstoned (row_at (s_index st') s p)"
    if p: "lies_beneath (trim_slashes dir) p" "is_materialised (s_index st) p = Some True" for p
  proof -
    obtain row s where rs: "folder_row (s_index st) p = Some (row, s)" using live(1) [OF p] by fastforce
    then show ?thesis using del live(2) [OF p] p(2) by auto
  qed
  moreover have "path_rows (s_index st') p = path_rows (s_index st) p"
    if p: "\<not> lies_beneath (trim_slashes dir) p \<or> is_materialised (s_index st) p \<noteq> Some True" for p
  proof (cases "p \<in> set ?ps")
    case True
    then have "is_materialised (s_index st) p \<noteq> None" 
      by (auto simp: folder_paths_under_mem is_materialised_path_rows find_None_iff)
    moreover have "is_materialised (s_index st) p \<noteq> Some True" using p True by (auto simp: folder_paths_under_mem)
    ultimately have "is_materialised (s_index st) p = Some False" by auto
    then show ?thesis using del by blast
  qed (use del in blast)
  ultimately show ?thesis using r del by simp
qed

definition two_cases :: store where
  \<comment> \<open>a folder with \<open>Docs/a\<close> and \<open>docs/b\<close>\<close>
  "two_cases =
     (let tree = Some [''Docs/a'' \<mapsto> [1], ''docs/b'' \<mapsto> [2]];
          put = (\<lambda>p b st. snd (store_put_bytes length (\<lambda>b. b) whole_file 100 p b 0 st))
      in put ''docs/b'' [2] (put ''Docs/a'' [1] (store_new laptop tree)))"

theorem removal_takes_what_lies_beneath_witness:
  "tombstoned (row_at (s_index (snd (apply_removal 200 ''Docs'' two_cases))) None ''docs/b'')"
proof -
  have ok: "store_ok two_cases"
    by (simp add: two_cases_def Let_def store_put_bytes_def store_ok_put store_new_def)
  have b: "lies_beneath (trim_slashes ''Docs'') ''docs/b''" "is_materialised (s_index two_cases) ''docs/b'' = Some True"
    "map_option snd (folder_row (s_index two_cases) ''docs/b'') = Some None"
    by code_simp+
  from removal_takes_what_lies_beneath [OF ok surjective_pairing, of 200 "''Docs''"] b show ?thesis by auto
qed

text \<open>A pin of nothing is dropped, and no pins at all want everything: a list holding only the empty
  prefix pins the whole folder.\<close>

lemma empty_pin_wants_everything:
  "role_wants (Replica (pins_under [[], ''/''])) p \<and> \<not> role_wants (Replica (pins_under [[], ''a''])) ''b''"
  by (simp add: role_wants_def pins_under_def trim_slashes_def pins_want_def strip_prefix_def starts_with_def)

end
