(* ===== verification/Plan.thy ===== *)
theory Plan imports Reconcile Audience Folder
begin

section \<open>What to do about another device's list (\<open>crates/engine/src/peer.rs\<close>)\<close>

text \<open>
  Planning: what this device takes of the list another device shows it, what it offers, what it
  keeps for that device, and what it asks back. Nothing is changed. The state is the engine, the
  paired devices, and the records of sends taken, with what
  applying a plan needs besides; the sharing rules are read from the share tables
  as they stand. A plan is None where the code panics, naming a conflict copy.
\<close>

record trashed =
  tr_id :: nat
  tr_path :: string
  tr_scope :: "device_id option"
  tr_content :: hash
  tr_size :: nat
  tr_at :: int
  tr_by :: "device_id option"
  tr_why :: "string option"

record node =
  n_engine :: engine
  n_peers :: peers_db \<comment> \<open>its index is the store's: \<open>db_of\<close>\<close>
  n_shared_area :: bool
  n_deliveries :: "(device_id \<times> string \<times> bytes \<times> string) list"
  n_taken :: "(hash \<times> device_id option \<times> int) list"
  n_fold_case :: bool
  n_downloads :: "(string \<Rightarrow> bytes option) option" \<comment> \<open>the files in the directory deliveries go to\<close>
  n_remote :: "string list" \<comment> \<open>\<open>remote_folders\<close>\<close>
  n_trash :: "trashed list"
  n_trash_files :: "nat \<Rightarrow> bytes option" \<comment> \<open>the directory \<open>trash\<close>\<close>

definition n_index :: "node \<Rightarrow> index" where "n_index n = s_index (e_store (n_engine n))"

definition db_of :: "node \<Rightarrow> peers_db" where "db_of n = (n_peers n)\<lparr>a_index := n_index n\<rparr>"

definition engine_tree :: "node \<Rightarrow> file_version list" where
  \<comment> \<open>\<open>Engine::tree\<close>\<close>
  "engine_tree n = shared_versions (n_index n)"

subsection \<open>Sends\<close>

definition delivery_taken :: "node \<Rightarrow> file_version \<Rightarrow> bool" where
  "delivery_taken n version \<longleftrightarrow>
     (case content_hash (content version) of
        None \<Rightarrow> False
      | Some hash \<Rightarrow>
          list_ex (\<lambda>(sender, p, v, _). sender = modified_by version \<and> p = path version
            \<and> v = vv_encode (vector version)) (n_deliveries n)
          \<or> list_ex (\<lambda>(h, sender, at). h = hash \<and> (sender = None \<or> sender = Some (modified_by version))
            \<and> at \<ge> sint (modified_at version)) (n_taken n))"

definition note_taken :: "file_version \<Rightarrow> string \<Rightarrow> node \<Rightarrow> node" where
  \<comment> \<open>\<open>INSERT OR IGNORE\<close>\<close>
  "note_taken version filed_as n =
     (if content_hash (content version) = None
         \<or> list_ex (\<lambda>(sender, p, v, _). sender = modified_by version \<and> p = path version
             \<and> v = vv_encode (vector version)) (n_deliveries n)
      then n
      else n\<lparr>n_deliveries := n_deliveries n @ [(modified_by version, path version, vv_encode (vector version), filed_as)]\<rparr>)"

definition deliveries :: "node \<Rightarrow> file_version list \<Rightarrow> action list" where
  "deliveries n sends =
     map Adopt (filter (\<lambda>version. \<not> (content_is_deleted (content version) \<or> delivery_taken n version)) sends)"

subsection \<open>Planning\<close>

definition plan_against :: "node \<Rightarrow> file_version list \<Rightarrow> action list option" where
  "plan_against n remote =
     (let shared = (if n_shared_area n then filter (\<lambda>v. area v = Shared) remote else []);
          sends = filter (\<lambda>v. area v = Sent) remote
      in map_option (\<lambda>actions. actions @ deliveries n sends) (reconcile (engine_tree n) shared))"

definition taken_by_rules :: "node \<Rightarrow> file_version list \<Rightarrow> device_id option \<Rightarrow> file_version list" where
  \<comment> \<open>\<open>Engine::shared_with\<close>\<close>
  "taken_by_rules n remote peer =
     (let rs = shares (db_of n)
      in if rule_map rs = [] \<and> \<not> list_ex (\<lambda>v. is_rule_path (path v)) remote then remote
         else filter (\<lambda>version.
           if area version \<noteq> Shared then True
           else case rule_folder (path version) of
                  Some folder \<Rightarrow> (case peer of None \<Rightarrow> False | Some p \<Rightarrow> may_change rs folder p)
                | None \<Rightarrow>
                    (case covering rs (path version) of
                       None \<Rightarrow> True
                     | Some (_, members) \<Rightarrow> me (n_index n) \<in> set members
                         \<and> (case peer of None \<Rightarrow> False | Some p \<Rightarrow> p \<in> set members))) remote)"

definition hold_needed :: "index \<Rightarrow> device_id \<Rightarrow> file_version \<Rightarrow> bool" where
  "hold_needed ix owner version \<longleftrightarrow>
     (case (content version, live_row_in ix (path version) (Some owner)) of
        (Deleted, None) \<Rightarrow> False
      | (Deleted, Some row) \<Rightarrow> vv_compare (f_vector row) (vector version) \<noteq> After
      | (File hash _, Some row) \<Rightarrow> f_hash row \<noteq> hash \<or> \<not> is_held ix (path version) owner
      | (File _ _, None) \<Rightarrow> True)"

definition holding :: "node \<Rightarrow> file_version list \<Rightarrow> device_id \<Rightarrow> action list" where
  "holding n remote owner =
     map (AHold owner) (filter (\<lambda>v. area v = Hold \<and> hold_needed (n_index n) owner v) remote)"

definition wanted_paths :: "index \<Rightarrow> string list" where
  "wanted_paths ix =
     sort (map f_path (filter (\<lambda>f. f_wanted f \<and> \<not> f_here f \<and> f_deleted f = None \<and> folder_scope ix f) (files ix)))"

definition own_wanted :: "node \<Rightarrow> file_version list \<Rightarrow> action list" where
  "own_wanted n remote =
     (let wanted = set (wanted_paths (n_index n))
      in map Adopt (filter (\<lambda>version. area version = Held \<and> path version \<in> wanted
           \<and> (case content_hash (content version) of
                None \<Rightarrow> False
              | Some hash \<Rightarrow>
                  (case own_vault_row (n_index n) (path version) of
                     None \<Rightarrow> False
                   | Some mine \<Rightarrow> f_hash mine = hash))) remote))"

definition deleted_row_in :: "index \<Rightarrow> string \<Rightarrow> device_id \<Rightarrow> hash \<Rightarrow> file_row option" where
  "deleted_row_in ix p owner hash =
     find (\<lambda>f. f_path f = p \<and> f_scope f = Some owner \<and> f_deleted f \<noteq> None \<and> f_hash f = hash) (files ix)"

definition own_deleted_paths :: "index \<Rightarrow> string set" where
  "own_deleted_paths ix =
     set (map f_path (filter (\<lambda>f. f_scope f = Some (me ix) \<and> f_deleted f \<noteq> None
       \<and> \<not> list_ex (\<lambda>l. f_path l = f_path f \<and> f_scope l = Some (me ix) \<and> f_deleted l = None) (files ix))
       (files ix)))"

definition restored_elsewhere :: "index \<Rightarrow> file_version \<Rightarrow> bool" where
  "restored_elsewhere ix version \<longleftrightarrow>
     (case content version of
        Deleted \<Rightarrow> False
      | File hash _ \<Rightarrow>
          is_safe_path (path version) \<and> \<not> starts_with (path version) ''.qurb-outside/''
          \<and> live_row_in ix (path version) (Some (me ix)) = None
          \<and> (case deleted_row_in ix (path version) (me ix) hash of
               None \<Rightarrow> False
             | Some row \<Rightarrow> vv_compare (vector version) (f_vector row) = After))"

definition own_restored :: "node \<Rightarrow> file_version list \<Rightarrow> action list" where
  "own_restored n remote =
     map Restored (filter (\<lambda>v. area v = Held \<and> path v \<in> own_deleted_paths (n_index n)
       \<and> restored_elsewhere (n_index n) v) remote)"

definition wanted_actions :: "node \<Rightarrow> action list" where
  "wanted_actions n =
     map Adopt (filter (\<lambda>v. \<not> content_is_deleted (content v) \<and> path v \<in> set (wanted_paths (n_index n))) (engine_tree n))"

definition plan_ours :: "node \<Rightarrow> file_version list \<Rightarrow> device_id option \<Rightarrow> action list option" where
  \<comment> \<open>\<open>plan_with\<close> from the sharing rules on: another device of this person, or one unknown\<close>
  "plan_ours n remote peer =
     (let remote = taken_by_rules n remote peer
      in map_option (\<lambda>actions. actions
           @ (case peer of None \<Rightarrow> [] | Some owner \<Rightarrow> holding n remote owner)
           @ own_wanted n remote @ own_restored n remote @ wanted_actions n)
         (plan_against n remote))"

definition plan_with :: "node \<Rightarrow> file_version list \<Rightarrow> device_id option \<Rightarrow> action list option" where
  "plan_with n remote peer =
     (case peer of
        Some p \<Rightarrow>
          (case relation_of (db_of n) p of
             Some r \<Rightarrow>
               (if is_other_person r
                then map_option (\<lambda>actions. actions
                    @ (if r = Guest then holding n (filter (\<lambda>v. area v = Hold) remote) (person_or_self (db_of n) p) else []))
                  (plan_against n (filter (\<lambda>v. area v = Sent) remote))
                else plan_ours n remote peer)
           | None \<Rightarrow> plan_ours n remote peer)
      | None \<Rightarrow> plan_ours n remote peer)"

subsection \<open>What a plan may hold\<close>

lemma reconcile_loop_from:
  assumes "reconcile_loop l r ps acc = Some plan" and "a \<in> set plan"
  shows "a \<in> set acc \<or> (\<exists>p \<in> set ps. \<exists>acts. path_action l r p = Some acts \<and> a \<in> set acts)"
  using assms
  by (induction ps arbitrary: acc) (auto split: option.splits, fastforce)

lemma reconcile_from:
  assumes "reconcile local remote = Some plan" and "a \<in> set plan"
  shows "\<exists>p acts. path_action (by_path local) (by_path remote) p = Some acts \<and> a \<in> set acts \<and> action_path a = p"
proof -
  obtain p acts where "path_action (by_path local) (by_path remote) p = Some acts" "a \<in> set acts"
    using reconcile_loop_from [OF assms(1) [unfolded reconcile_eq] assms(2)] by auto
  then show ?thesis using path_action_path by fastforce
qed

lemma by_path_none: "(\<And>v. v \<in> set vs \<Longrightarrow> path v \<noteq> p) \<Longrightarrow> bm_get (by_path vs) p = None"
  using by_path_get by (metis not_None_eq)

lemma reconcile_unseen:
  \<comment> \<open>a path the other list does not have is offered\<close>
  assumes "reconcile local remote = Some plan" and "a \<in> set plan" and "\<And>v. v \<in> set remote \<Longrightarrow> path v \<noteq> action_path a"
  shows "\<exists>v \<in> set local. a = Offer v"
  using reconcile_from [OF assms(1,2)] by_path_none [OF assms(3)]
  by (auto simp: path_action_def dest: by_path_get split: option.splits)

lemma reconcile_nothing: "\<exists>plan. reconcile vs [] = Some plan"
proof -
  have none: "bm_get (by_path []) p = None" for p by (rule by_path_none) simp
  have "\<exists>plan. reconcile_loop (by_path vs) (by_path []) ps acc = Some plan"
    if "\<forall>p \<in> set ps. bm_get (by_path vs) p \<noteq> None" for ps acc
    using that by (induction ps arbitrary: acc) (auto simp: path_action_def none)
  then show ?thesis by (simp add: reconcile_eq all_paths_set none)
qed

text \<open>C35: Another person's device is a source of deliveries and of nothing else. Whatever list a
  guest's or a host's device shows, the plan is made, and every action of it is a send to take that
  was not taken before, an offer, or, with a guest, a file of its own vault to keep for its person;
  nothing of the list enters this person's shared area.\<close>

theorem strangers_only_deliver:
  assumes "relation_of (db_of n) p = Some r" and "is_other_person r"
  shows "\<exists>plan. plan_with n remote (Some p) = Some plan
    \<and> (\<forall>a \<in> set plan.
         (\<exists>v \<in> set remote. a = Adopt v \<and> area v = Sent \<and> \<not> content_is_deleted (content v) \<and> \<not> delivery_taken n v)
         \<or> (\<exists>v \<in> set (engine_tree n). a = Offer v)
         \<or> (r = Guest \<and> (\<exists>v \<in> set remote. a = AHold (person_or_self (db_of n) p) v \<and> area v = Hold)))"
proof -
  let ?sends = "filter (\<lambda>v. area v = Sent) remote"
  have shared: "(if n_shared_area n then filter (\<lambda>v. area v = Shared) ?sends else []) = []"
    by (simp add: filter_empty_conv)
  obtain offers where offers: "reconcile (engine_tree n) [] = Some offers" using reconcile_nothing by blast
  have plan: "plan_with n remote (Some p) = Some (offers @ deliveries n ?sends
      @ (if r = Guest then holding n (filter (\<lambda>v. area v = Hold) remote) (person_or_self (db_of n) p) else []))"
    using assms by (simp add: plan_with_def plan_against_def Let_def shared offers)
  have "\<exists>v \<in> set (engine_tree n). a = Offer v" if "a \<in> set offers" for a
    by (rule reconcile_unseen [OF offers that]) simp
  then show ?thesis unfolding plan by (auto simp: deliveries_def holding_def)
qed



subsection \<open>A laptop, a guest and a shut folder\<close>

definition visited_laptop :: "rules \<Rightarrow> relation \<Rightarrow> node" where
  "visited_laptop rs r =
     \<lparr>n_engine = laptop_engine,
      n_peers = replace_shares rs
        \<lparr>a_index = index_new laptop,
         a_peers = [\<lparr>tp_id = phone, tp_fingerprint = [1], tp_name = ''p'', tp_paired = 1, tp_seen = None, tp_relation = r\<rparr>],
         a_kind = (\<lambda>_. None), a_install = (\<lambda>_. None), a_said = (\<lambda>_. Unsaid), a_person = (\<lambda>_. None),
         a_holders = [], a_outside = False, a_shares = [], a_members = []\<rparr>,
      n_shared_area = True, n_deliveries = [], n_taken = [], n_fold_case = False, n_downloads = None,
      n_remote = [], n_trash = [], n_trash_files = (\<lambda>_. None)\<rparr>"

definition from_phone :: "string \<Rightarrow> area \<Rightarrow> file_version" where
  "from_phone p a = \<lparr>path = p, content = File [5] 1, vector = VersionVector [(phone, 1)],
     modified_by = phone, modified_at = 60, area = a\<rparr>"

theorem strangers_only_deliver_witness:
  "\<exists>plan. plan_with (visited_laptop (Rules []) Guest) [from_phone ''b'' Shared, from_phone ''s'' Sent] (Some phone) = Some plan
     \<and> Adopt (from_phone ''b'' Shared) \<notin> set plan"
proof -
  have "relation_of (db_of (visited_laptop (Rules []) Guest)) phone = Some Guest" by code_simp
  from strangers_only_deliver [OF this, of "[from_phone ''b'' Shared, from_phone ''s'' Sent]"]
  show ?thesis by (auto simp: is_other_person_def from_phone_def)
qed


end
