(* ===== verification/Apply.thy ===== *)
theory Apply imports Plan
begin

section \<open>Carrying out a plan (\<open>crates/engine/src/peer.rs\<close>, \<open>crates/storage/src/store.rs\<close>)\<close>

text \<open>
  The local half of a plan: files fetched and put in place, deletions, conflict copies, files kept
  for another device, deliveries filed. The folder is the store's tree, by logical path; a file is
  staged beside its place and renamed over it, which is one step here, and what an attempt that
  was cut off leaves in the staging file is left out, as are directories. The source of content is
  a parameter: what it answers to its n-th question, and whether it has gone after so many; what it
  is told is a list. A step is None where the code panics, naming a file that was sent here.
\<close>

datatype plan_error =
    UnsafePath string
  | TakenPrivately string
  | CaseCollision string string
  | ContentUnavailable hash
  | SourceError
  | NameTaken string
  | InStore store_error

datatype told = Coming "(hash \<times> u64) list" | Received hash | NotHeld hash | Finished

record source =
  src_fetch :: "nat \<Rightarrow> hash \<Rightarrow> u64 \<Rightarrow> plan_error + bytes"
  src_gone :: "nat \<Rightarrow> bool"

record plan_stats =
  ps_adopted :: nat
  ps_merged :: nat
  ps_conflicts :: nat
  ps_resurrected :: nat
  ps_held :: nat
  ps_offered :: nat
  ps_fetched :: nat
  ps_left :: nat
  ps_failures :: "(string \<times> plan_error) list"
  ps_told :: "told list"

definition plan_stats_default :: plan_stats where
  "plan_stats_default = \<lparr>ps_adopted = 0, ps_merged = 0, ps_conflicts = 0, ps_resurrected = 0, ps_held = 0,
     ps_offered = 0, ps_fetched = 0, ps_left = 0, ps_failures = [], ps_told = []\<rparr>"

definition tell :: "told \<Rightarrow> plan_stats \<Rightarrow> plan_stats" where
  "tell t s = s\<lparr>ps_told := ps_told s @ [t]\<rparr>"

definition asks_source :: "action \<Rightarrow> bool" where
  "asks_source a =
     (let is_file = (\<lambda>v. \<not> content_is_deleted (content v))
      in case a of
           Adopt remote \<Rightarrow> is_file remote
         | AHold _ remote \<Rightarrow> is_file remote
         | AResurrect resolved \<Rightarrow> is_file resolved
         | AConflict keeps other \<Rightarrow> is_file keeps \<or> is_file other
         | _ \<Rightarrow> False)"

subsection \<open>The store and the folder\<close>

definition the_store :: "node \<Rightarrow> store" where "the_store n = e_store (n_engine n)"

definition on_store :: "(store \<Rightarrow> store) \<Rightarrow> node \<Rightarrow> node" where
  "on_store g n = n\<lparr>n_engine := (n_engine n)\<lparr>e_store := g (e_store (n_engine n))\<rparr>\<rparr>"

definition on_disk :: "node \<Rightarrow> string \<Rightarrow> bytes option" where
  "on_disk n p = (case s_tree (the_store n) of None \<Rightarrow> None | Some tree \<Rightarrow> tree p)"

definition put_on_disk :: "string \<Rightarrow> bytes option \<Rightarrow> node \<Rightarrow> node" where
  "put_on_disk p b = on_store (\<lambda>st. st\<lparr>s_tree := map_option (\<lambda>tree. tree(p := b)) (s_tree st)\<rparr>)"

definition any_file_with_content :: "index \<Rightarrow> hash \<Rightarrow> nat option" where
  \<comment> \<open>whose links add up to its size, a live one first\<close>
  "any_file_with_content ix h =
     (let fits = sort_key f_id (filter (\<lambda>f. f_hash f = h
            \<and> f_size f = sum_list (map (\<lambda>c. case chunks ix c of Some r \<Rightarrow> c_size r | None \<Rightarrow> 0) (chunk_hashes_for ix (f_id f))))
          (files ix))
      in map_option f_id (case find (\<lambda>f. f_deleted f = None) fits of Some f \<Rightarrow> Some f | None \<Rightarrow> find (\<lambda>_. True) fits))"

definition readable_chunks :: "blake3 \<Rightarrow> store \<Rightarrow> hash \<Rightarrow> hash list option" where
  "readable_chunks H st h =
     (case any_file_with_content (s_index st) h of
        None \<Rightarrow> None
      | Some fid \<Rightarrow>
          (let hs = chunk_hashes_for (s_index st) fid
           in if list_all (has_chunk H st) hs then Some hs else None))"

definition read_content :: "blake3 \<Rightarrow> store \<Rightarrow> hash \<Rightarrow> store_error + bytes option" where
  "read_content H st h =
     (case readable_chunks H st h of
        None \<Rightarrow> Inr None
      | Some hs \<Rightarrow>
          and_then (read_chunks H st hs) (\<lambda>out. if H out \<noteq> h then Inl (ChunkCorrupt h) else Inr (Some out)))"

definition bring_in :: "blake3 \<Rightarrow> source \<Rightarrow> hash \<Rightarrow> u64 \<Rightarrow> store \<Rightarrow> plan_stats \<Rightarrow> (plan_error + bytes) \<times> plan_stats" where
  \<comment> \<open>also a replica's own lookup before it fetches, which asks the same questions\<close>
  "bring_in H src h sz st stats =
     (case read_content H st h of
        Inl e \<Rightarrow> (Inl (InStore e), stats)
      | Inr (Some out) \<Rightarrow> (Inr out, stats)
      | Inr None \<Rightarrow> (src_fetch src (ps_fetched stats) h sz, stats\<lparr>ps_fetched := ps_fetched stats + 1\<rparr>))"

definition kept_remotely :: "node \<Rightarrow> string \<Rightarrow> bool" where
  "kept_remotely n p \<longleftrightarrow>
     list_ex (\<lambda>folder. p = folder \<or> take (length folder + 1) p = folder @ ''/'') (n_remote n)"

definition is_wanted :: "index \<Rightarrow> string \<Rightarrow> bool" where
  "is_wanted ix p \<longleftrightarrow> list_ex (\<lambda>f. f_path f = p \<and> f_wanted f \<and> f_deleted f = None \<and> folder_scope ix f) (files ix)"

definition live_path_colliding_with :: "index \<Rightarrow> string \<Rightarrow> string option" where
  "live_path_colliding_with ix p =
     map_option f_path (find (\<lambda>f. f_deleted f = None \<and> f_scope f = None
       \<and> map to_ascii_lowercase (f_path f) = map to_ascii_lowercase p \<and> f_path f \<noteq> p) (files ix))"

definition add_trash :: "trashed \<Rightarrow> node \<Rightarrow> nat \<times> node" where
  \<comment> \<open>the id is one more than the largest\<close>
  "add_trash entry n =
     (let i = Suc (fold max (map tr_id (n_trash n)) 0)
      in (i, n\<lparr>n_trash := n_trash n @ [entry\<lparr>tr_id := i\<rparr>]\<rparr>))"

definition move_to_trash :: "string \<Rightarrow> trashed \<Rightarrow> node \<Rightarrow> nat option \<times> node" where
  "move_to_trash p entry n =
     (case on_disk n p of
        None \<Rightarrow> (None, n)
      | Some bytes \<Rightarrow>
          (case add_trash (entry\<lparr>tr_size := length bytes\<rparr>) n of
             (i, n) \<Rightarrow> (Some i, put_on_disk p None (n\<lparr>n_trash_files := (n_trash_files n)(i \<mapsto> bytes)\<rparr>))))"

subsection \<open>Taking a version\<close>

record apply_env =
  env_codec :: codec
  env_now :: int
  env_mtime :: "file_version \<Rightarrow> int" \<comment> \<open>the time the file put in place ends up with\<close>
  env_source :: source

definition private_here :: "node \<Rightarrow> file_version \<Rightarrow> bool" where
  \<comment> \<open>the file at this path is one of this device's own\<close>
  "private_here n version \<longleftrightarrow> area version = Shared
     \<and> (case folder_row (n_index n) (path version) of Some (_, Some _) \<Rightarrow> True | _ \<Rightarrow> False)"

definition filed :: "node \<Rightarrow> file_version \<Rightarrow> file_version option" where
  \<comment> \<open>under which name a file sent here is filed\<close>
  "filed n version =
     (if area version = Sent \<and> \<not> content_is_deleted (content version) \<and> live_path_anywhere (n_index n) (path version)
      then map_option (\<lambda>p. version\<lparr>path := p\<rparr>) (received_path version)
      else Some version)"

definition take_deleted :: "apply_env \<Rightarrow> file_version \<Rightarrow> node \<Rightarrow> node" where
  "take_deleted env version n =
     (let removes = \<not> is_replica (e_role (n_engine n)) \<and> \<not> private_here n version;
          n = (if removes \<and> is_rule_path (path version) then put_on_disk (path version) None n
               else if removes then
                 snd (move_to_trash (path version)
                   \<lparr>tr_id = 0, tr_path = path version, tr_scope = None,
                    tr_content = (case folder_row (n_index n) (path version) of Some (row, _) \<Rightarrow> f_hash row | None \<Rightarrow> replicate 32 0),
                    tr_size = 0, tr_at = env_now env, tr_by = Some (modified_by version), tr_why = None\<rparr> n)
               else n)
      in on_store (tombstone_row (env_now env) (path version) (RemoteStamp version) None) n)"

definition record_arrival :: "apply_env \<Rightarrow> file_version \<Rightarrow> file_version \<Rightarrow> bytes \<Rightarrow> node \<Rightarrow> node" where
  \<comment> \<open>\<open>adopt_file\<close> or \<open>adopt_file_privately\<close> on the file just put in place\<close>
  "record_arrival env sent version data n =
     (let k = env_codec env;
          adopt_as = (\<lambda>vault. on_store (\<lambda>st. snd (adopt_file_scoped (k_sealed k) (k_hash k) (k_cdc k) (env_now env) version
            data (env_mtime env version) vault st)))
      in if area version \<in> {Sent, Held}
         then (let n = note_taken version (path version) (adopt_as (Some (me (n_index n))) n)
               in if path sent \<noteq> path version then note_taken sent (path version) n else n)
         else adopt_as None n)"

definition note_author :: "file_version \<Rightarrow> hash \<Rightarrow> node \<Rightarrow> node" where
  \<comment> \<open>the device that made a version has its bytes; a sender only until they are taken\<close>
  "note_author version hash n =
     (if modified_by version \<noteq> me (n_index n)
      then on_store (\<lambda>st. st\<lparr>s_index := note_replica hash (modified_by version) (area version = Sent) (s_index st)\<rparr>) n
      else n)"

definition take_file ::
  "apply_env \<Rightarrow> file_version \<Rightarrow> file_version \<Rightarrow> hash \<Rightarrow> u64 \<Rightarrow> plan_stats \<Rightarrow> node \<Rightarrow> (plan_error + unit) \<times> plan_stats \<times> node"
where
  "take_file env sent version hash sz stats n =
     (let k = env_codec env; p = path version; private = private_here n version; n = note_author version hash n;
          elsewhere = on_store (know_elsewhere (env_now env) version) n
      in if private then (Inl (TakenPrivately p), stats, n)
         else case (if n_fold_case n then live_path_colliding_with (n_index n) p else None) of
           Some existing \<Rightarrow> (Inl (CaseCollision p existing), stats, n)
         | None \<Rightarrow>
             if is_replica (e_role (n_engine n)) then
               (case bring_in (k_hash k) (env_source env) hash sz (the_store n) stats of
                  (Inl e, stats) \<Rightarrow> (Inl e, stats, n)
                | (Inr data, stats) \<Rightarrow>
                    (Inr (), tell (Received hash) stats,
                     on_store (\<lambda>st. case adopt (k_sealed k) (k_hash k) (k_cdc k) (env_now env) version
                       (Some data) (sint (modified_at version)) st of Inr (_, st) \<Rightarrow> st | Inl _ \<Rightarrow> st) n))
             else if area version = Shared \<and> is_materialised (n_index n) p \<noteq> Some True
                     \<and> kept_remotely n p \<and> \<not> is_wanted (n_index n) p
             then (Inr (), stats, elsewhere)
             else
               (case bring_in (k_hash k) (env_source env) hash sz (the_store n) stats of
                  (Inl e, stats) \<Rightarrow>
                    (if (case e of ContentUnavailable _ \<Rightarrow> True | _ \<Rightarrow> False) \<and> area version = Shared
                        \<and> is_materialised (n_index n) p \<noteq> Some True \<and> \<not> is_wanted (n_index n) p
                     then (Inr (), tell (NotHeld hash) stats, elsewhere)
                     else (Inl e, stats, n))
                | (Inr data, stats) \<Rightarrow>
                    (Inr (), tell (Received hash) stats,
                     record_arrival env sent version data (put_on_disk p (Some data) n))))"

definition take_into_downloads ::
  "apply_env \<Rightarrow> file_version \<Rightarrow> (string \<Rightarrow> bytes option) \<Rightarrow> hash \<Rightarrow> u64 \<Rightarrow> plan_stats \<Rightarrow> node \<Rightarrow>
   ((plan_error + unit) \<times> plan_stats \<times> node) option"
where
  "take_into_downloads env version dir hash sz stats n =
     (let k = env_codec env;
          done = (\<lambda>p stats n. (Inr (), tell (Received hash) stats, note_taken version p n));
          fill = (\<lambda>target. case bring_in (k_hash k) (env_source env) hash sz (the_store n) stats of
              (Inl e, stats) \<Rightarrow> (Inl e, stats, n)
            | (Inr data, stats) \<Rightarrow> done target stats (n\<lparr>n_downloads := Some (dir(target \<mapsto> data))\<rparr>));
          holds_it = (\<lambda>p. case dir p of None \<Rightarrow> False | Some b \<Rightarrow> k_hash k b = hash)
      in case received_path version of
           None \<Rightarrow> None
         | Some second \<Rightarrow> Some
             (if dir (path version) = None then fill (path version)
              else if holds_it (path version) then done (path version) stats n
              else if dir second = None then fill second
              else if holds_it second then done second stats n
              else (Inl (NameTaken (path version)), stats, n)))"

definition take_version ::
  "apply_env \<Rightarrow> file_version \<Rightarrow> plan_stats \<Rightarrow> node \<Rightarrow> ((plan_error + unit) \<times> plan_stats \<times> node) option"
where
  \<comment> \<open>\<open>Engine::take\<close>\<close>
  "take_version env version stats n =
     (if \<not> is_safe_path (path version)
         \<or> is_ignored (e_ignore (n_engine n)) (e_root (n_engine n) @ split_on CHR ''/'' (path version))
      then Some (Inl (UnsafePath (path version)), stats, n)
      else case content version of
        Deleted \<Rightarrow> Some (Inr (), stats, take_deleted env version n)
      | File hash sz \<Rightarrow>
          (case (if area version = Sent then n_downloads n else None) of
             Some dir \<Rightarrow> take_into_downloads env version dir hash sz stats n
           | None \<Rightarrow> map_option (\<lambda>v. take_file env version v hash sz stats n) (filed n version)))"

subsection \<open>Another device's files, and the plan\<close>

definition take_hold ::
  "apply_env \<Rightarrow> device_id \<Rightarrow> file_version \<Rightarrow> plan_stats \<Rightarrow> node \<Rightarrow> (plan_error + unit) \<times> plan_stats \<times> node"
where
  "take_hold env owner version stats n =
     (let k = env_codec env
      in if \<not> is_safe_path (path version) then (Inl (UnsafePath (path version)), stats, n)
         else case content version of
           Deleted \<Rightarrow> (Inr (), stats, on_store (unhold (env_now env) version owner) n)
         | File hash sz \<Rightarrow>
             (case bring_in (k_hash k) (env_source env) hash sz (the_store n) stats of
                (Inl e, stats) \<Rightarrow> (Inl e, stats, n)
              | (Inr data, stats) \<Rightarrow>
                  (Inr (), tell (Received hash) stats,
                   on_store (\<lambda>st. snd (hold_file (k_sealed k) (k_hash k) (k_cdc k) (env_now env) version owner data st)) n)))"

definition listed_manifest :: "index \<Rightarrow> file_row \<Rightarrow> manifest option" where
  "listed_manifest ix row =
     (let hs = chunk_hashes_for ix (f_id row)
      in if list_all (\<lambda>h. chunks ix h \<noteq> None) hs
         then Some \<lparr>m_hash = f_hash row, m_size = f_size row,
                m_chunks = snd (fold (\<lambda>h (off, cs). case chunks ix h of
                    Some c \<Rightarrow> (off + c_size c, cs @ [\<lparr>ref_hash = h, ref_offset = off, ref_len = c_size c\<rparr>])
                  | None \<Rightarrow> (off, cs)) hs (0, []))\<rparr>
         else None)"

definition trash_of :: "node \<Rightarrow> string \<Rightarrow> device_id \<Rightarrow> hash \<Rightarrow> trashed list" where
  "trash_of n p owner hash =
     rev (sort_key (\<lambda>e. (tr_at e, tr_id e))
       (filter (\<lambda>e. tr_path e = p \<and> tr_scope e = Some owner \<and> tr_content e = hash) (n_trash n)))"

definition forget_entry :: "trashed \<Rightarrow> node \<Rightarrow> node" where
  \<comment> \<open>the file under \<open>trash\<close>, then the row\<close>
  "forget_entry e n = n\<lparr>n_trash_files := (n_trash_files n)(tr_id e := None),
     n_trash := filter (\<lambda>e'. tr_id e' \<noteq> tr_id e) (n_trash n)\<rparr>"

definition take_back_restored :: "apply_env \<Rightarrow> file_version \<Rightarrow> node \<Rightarrow> (plan_error + bool) \<times> node" where
  "take_back_restored env version n =
     (case content version of
        Deleted \<Rightarrow> (Inr False, n)
      | File hash sz \<Rightarrow>
          (if \<not> restored_elsewhere (n_index n) version \<or> s_tree (the_store n) = None then (Inr False, n)
           else
             let k = env_codec env; p = path version; entries = trash_of n p (me (n_index n)) hash;
                 clear = (\<lambda>n. (Inr True, fold forget_entry entries n))
             in case find (\<lambda>e. n_trash_files n (tr_id e) \<noteq> None) entries of
                  Some kept \<Rightarrow>
                    (if on_disk n p \<noteq> None then (Inl (NameTaken p), n)
                     else let data = the (n_trash_files n (tr_id kept));
                              n = put_on_disk p (Some data) (n\<lparr>n_trash_files := (n_trash_files n)(tr_id kept := None)\<rparr>)
                          in clear (on_store (\<lambda>st. snd (adopt_file_scoped (k_sealed k) (k_hash k) (k_cdc k) (env_now env) version
                               data (env_mtime env version) (Some (me (n_index n))) st)) n))
                | None \<Rightarrow>
                    (case deleted_row_in (n_index n) p (me (n_index n)) hash of
                       None \<Rightarrow> (Inl (InStore (NotFound p)), n)
                     | Some row \<Rightarrow>
                         (case listed_manifest (n_index n) row of
                            None \<Rightarrow> (Inl (InStore (NotFound p)), n)
                          | Some m \<Rightarrow>
                              clear (on_store (\<lambda>st.
                                let st = snd (put_manifest (k_sealed k) (env_now env) p m [] (f_mtime row)
                                      ((pl_remote version)\<lparr>pl_vault := Some (me (n_index n)), pl_by_reference := True\<rparr>) st)
                                in st\<lparr>s_index := set_materialised p False (s_index st)\<rparr>) n)))))"

definition carry_out ::
  "apply_env \<Rightarrow> action \<Rightarrow> plan_stats \<Rightarrow> node \<Rightarrow> ((plan_error + unit) \<times> plan_stats \<times> node) option"
where
  \<comment> \<open>the match on an action that is not an offer\<close>
  "carry_out env a stats n =
     (case a of
        Offer _ \<Rightarrow> Some (Inr (), stats\<lparr>ps_offered := ps_offered stats + 1\<rparr>, n)
      | AMerge resolved \<Rightarrow> Some (Inr (), stats\<lparr>ps_merged := ps_merged stats + 1\<rparr>, on_store (merge_version resolved) n)
      | Adopt remote \<Rightarrow> take_version env remote (stats\<lparr>ps_adopted := ps_adopted stats + 1\<rparr>) n
      | AResurrect resolved \<Rightarrow> take_version env resolved (stats\<lparr>ps_resurrected := ps_resurrected stats + 1\<rparr>) n
      | AHold owner remote \<Rightarrow> Some (take_hold env owner remote (stats\<lparr>ps_held := ps_held stats + 1\<rparr>) n)
      | Restored remote \<Rightarrow>
          (case take_back_restored env remote n of
             (r, n) \<Rightarrow> Some (and_then r (\<lambda>_. Inr ()), stats\<lparr>ps_adopted := ps_adopted stats + 1\<rparr>, n))
      | AConflict keeps other \<Rightarrow>
          (case take_version env other (stats\<lparr>ps_conflicts := ps_conflicts stats + 1\<rparr>) n of
             None \<Rightarrow> None
           | Some (Inl e, stats, n) \<Rightarrow> Some (Inl e, stats, n)
           | Some (Inr _, stats, n) \<Rightarrow> take_version env keeps stats n))"

definition plan_step :: "apply_env \<Rightarrow> action \<Rightarrow> (plan_stats \<times> node) option \<Rightarrow> (plan_stats \<times> node) option" where
  "plan_step env a s =
     (case s of
        None \<Rightarrow> None
      | Some (stats, n) \<Rightarrow>
          (if asks_source a \<and> src_gone (env_source env) (ps_fetched stats)
           then Some (stats\<lparr>ps_left := ps_left stats + 1\<rparr>, n)
           else case carry_out env a stats n of
                  None \<Rightarrow> None
                | Some (Inr _, stats, n) \<Rightarrow> Some (stats, n)
                | Some (Inl e, stats, n) \<Rightarrow> Some (stats\<lparr>ps_failures := ps_failures stats @ [(action_path a, e)]\<rparr>, n)))"

definition removals_last :: "action \<Rightarrow> nat" where
  "removals_last a =
     (case a of
        Adopt remote \<Rightarrow> if content_is_deleted (content remote) then 1 else 0
      | AHold _ remote \<Rightarrow> if content_is_deleted (content remote) then 1 else 0
      | _ \<Rightarrow> 0)"

definition ordered_plan :: "role \<Rightarrow> action list \<Rightarrow> action list" where
  "ordered_plan r actions = sort_key removals_last (filter (\<lambda>a. role_wants r (action_path a)) actions)"

definition coming_contents :: "action list \<Rightarrow> (hash \<times> u64) list" where
  "coming_contents ordered =
     List.map_filter (\<lambda>a. case a of
         Adopt remote \<Rightarrow> (case content remote of File hash sz \<Rightarrow> Some (hash, sz) | Deleted \<Rightarrow> None)
       | AHold _ remote \<Rightarrow> (case content remote of File hash sz \<Rightarrow> Some (hash, sz) | Deleted \<Rightarrow> None)
       | _ \<Rightarrow> None) ordered"

definition apply_plan :: "apply_env \<Rightarrow> action list \<Rightarrow> node \<Rightarrow> (plan_stats \<times> node) option" where
  "apply_plan env actions n =
     (let acts = ordered_plan (e_role (n_engine n)) actions
      in map_option (\<lambda>(stats, n). (tell Finished stats, n))
           (fold (plan_step env) acts (Some (tell (Coming (coming_contents acts)) plan_stats_default, n))))"

subsection \<open>What a step does to the rows\<close>

lemma on_store_simps [simp]:
  "the_store (on_store g n) = g (the_store n)" "n_index (on_store g n) = s_index (g (the_store n))"
  "e_role (n_engine (on_store g n)) = e_role (n_engine n)" "e_root (n_engine (on_store g n)) = e_root (n_engine n)"
  "e_ignore (n_engine (on_store g n)) = e_ignore (n_engine n)"
  "n_fold_case (on_store g n) = n_fold_case n" "n_downloads (on_store g n) = n_downloads n"
  "n_remote (on_store g n) = n_remote n" "n_trash (on_store g n) = n_trash n"
  "n_trash_files (on_store g n) = n_trash_files n" "n_deliveries (on_store g n) = n_deliveries n"
  by (simp_all add: on_store_def the_store_def n_index_def)

lemma n_index_store: "n_index n = s_index (the_store n)"
  by (simp add: n_index_def the_store_def)

lemma put_on_disk_simps [simp]:
  "n_index (put_on_disk p b n) = n_index n" "s_tree (the_store (put_on_disk p b n)) = map_option (\<lambda>tree. tree(p := b)) (s_tree (the_store n))"
  "e_role (n_engine (put_on_disk p b n)) = e_role (n_engine n)"
  "n_trash (put_on_disk p b n) = n_trash n" "n_trash_files (put_on_disk p b n) = n_trash_files n"
  by (simp_all add: put_on_disk_def n_index_store)

lemma on_disk_put: "on_disk (put_on_disk p b n) q = (if q = p \<and> s_tree (the_store n) \<noteq> None then b else on_disk n q)"
  by (auto simp: on_disk_def split: option.splits)

definition ix_but :: "device_id option \<Rightarrow> string \<Rightarrow> index \<Rightarrow> index \<Rightarrow> bool" where
  \<comment> \<open>the index is well formed, and only the row of that key may differ\<close>
  "ix_but s p ix ix' \<longleftrightarrow> index_ok ix' \<and> me ix' = me ix
     \<and> (\<forall>s' p'. (s', p') \<noteq> (s, p) \<longrightarrow> row_at ix' s' p' = row_at ix s' p')"

lemma ix_but_rows: "rows_but s p st st' \<Longrightarrow> store_ok st' \<Longrightarrow> ix_but s p (s_index st) (s_index st')"
  using rows_but_row [of s p st st'] by (auto simp: ix_but_def rows_but_def)

lemma ix_but_same: "index_ok ix' \<Longrightarrow> files ix' = files ix \<Longrightarrow> me ix' = me ix \<Longrightarrow> ix_but s p ix ix'"
  by (simp add: ix_but_def row_at_def)

lemma ix_but_trans: "ix_but s p ix ix1 \<Longrightarrow> ix_but s p ix1 ix2 \<Longrightarrow> ix_but s p ix ix2"
  by (simp add: ix_but_def)

definition says :: "file_version \<Rightarrow> file_row option \<Rightarrow> bool" where
  "says v r \<longleftrightarrow> map_option row_to_version r = Some (v\<lparr>area := Shared\<rparr>)"

definition live_sizes :: "(hash \<Rightarrow> u64) \<Rightarrow> index \<Rightarrow> bool" where
  \<comment> \<open>contents with one hash have one length, which every row and version gives\<close>
  "live_sizes len ix \<longleftrightarrow> (\<forall>s p f. row_at ix s p = Some f \<longrightarrow> f_deleted f = None \<longrightarrow> word_of_nat (f_size f) = len (f_hash f))"

definition sized :: "(hash \<Rightarrow> u64) \<Rightarrow> file_version \<Rightarrow> bool" where
  "sized len v \<longleftrightarrow> (case content v of File h sz \<Rightarrow> sz = len h | Deleted \<Rightarrow> True)"

lemma live_sizes_says:
  assumes "live_sizes len ix" and "ix_but None p ix ix'" and "says v (row_at ix' None p)" and "sized len v"
  shows "live_sizes len ix'"
proof -
  have "word_of_nat (f_size f) = len (f_hash f)" if "row_at ix' s q = Some f" "f_deleted f = None" for s q f
  proof (cases "(s, q) = (None, p)")
    case True
    then have "row_to_version f = v\<lparr>area := Shared\<rparr>" using assms(3) that(1) by (simp add: says_def)
    then have "content v = File (f_hash f) (word_of_nat (f_size f))"
      using that(2) by (auto simp: row_to_version_def dest: arg_cong [where f = content])
    then show ?thesis using assms(4) by (simp add: sized_def)
  next
    case False
    then have "row_at ix s q = Some f" using assms(2) that(1) by (metis ix_but_def)
    then show ?thesis using assms(1) that(2) by (simp add: live_sizes_def)
  qed
  then show ?thesis by (simp add: live_sizes_def)
qed

lemma row_to_version_says:
  assumes "row_at ix None (path v) = Some f" and "f_vector f = vector v" and "f_by f = modified_by v"
    and "f_updated f = sint (modified_at v)"
    and "(if f_deleted f \<noteq> None then Deleted else File (f_hash f) (word_of_nat (f_size f))) = content v"
  shows "says v (row_at ix None (path v))"
  using assms row_at_SomeD [OF assms(1)] by (simp add: says_def row_to_version_def)

lemma tombstone_remote:
  assumes "store_ok st" and "content v = Deleted"
  shows "ix_but None (path v) (s_index st) (s_index (tombstone_row now (path v) (RemoteStamp v) None st))
    \<and> says v (row_at (s_index (tombstone_row now (path v) (RemoteStamp v) None st)) None (path v))
    \<and> s_tree (tombstone_row now (path v) (RemoteStamp v) None st) = s_tree st"
proof -
  let ?st' = "tombstone_row now (path v) (RemoteStamp v) None st"
  note t = tombstone_rows [OF assms(1), of None "path v" now "RemoteStamp v"]
  then obtain f where f: "row_at (s_index ?st') None (path v) = Some f" "f_deleted f \<noteq> None"
    "(f_vector f, f_by f, f_updated f) = (vector v, modified_by v, sint (modified_at v))"
    by (auto simp: tombstone_says_def stamped_def split: option.splits)
  then have "says v (row_at (s_index ?st') None (path v))"
    using assms(2) by (intro row_to_version_says [OF f(1)]) auto
  then show ?thesis using t ix_but_rows store_ok_tombstone [OF assms(1)] by (simp add: rows_but_def)
qed

lemma know_elsewhere_remote:
  assumes "store_ok st" and "content v = File h sz"
  shows "ix_but None (path v) (s_index st) (s_index (know_elsewhere now v st))
    \<and> says v (row_at (s_index (know_elsewhere now v st)) None (path v))
    \<and> s_tree (know_elsewhere now v st) = s_tree st"
proof -
  define new where "new = \<lparr>f_id = 0, f_path = path v, f_size = unat sz, f_hash = h,
    f_mtime = sat_i64 (sint (modified_at v) * 10 ^ 9), f_updated = sint (modified_at v),
    f_deleted = None, f_vector = vector v, f_by = modified_by v, f_here = False,
    f_touched = 0, f_wanted = False, f_scope = None, f_held = False\<rparr>"
  define upd where "upd = (\<lambda>f :: file_row. f\<lparr>f_size := unat sz, f_hash := h,
    f_mtime := sat_i64 (sint (modified_at v) * 10 ^ 9), f_updated := sint (modified_at v), f_deleted := None,
    f_vector := vector v, f_by := modified_by v, f_here := False\<rparr>)"
  obtain fid ix where up: "upsert_file new upd (s_index st) = (fid, ix)" by fastforce
  let ?ix' = "note_replica h (modified_by v) False (delete_links now (\<lambda>(i, _). i = fid) ix)"
  have k: "know_elsewhere now v st = st\<lparr>s_index := ?ix'\<rparr>"
    using up by (simp add: know_elsewhere_def assms(2) Let_def new_def upd_def)
  have key: "f_scope new = None" "f_path new = path v" by (simp_all add: new_def)
  have same: "files ?ix' = files ix" "me ?ix' = me ix" by (simp_all add: note_replica_def)
  then have rows: "row_at ?ix' s p = row_at ix s p" for s p by (simp add: row_at_def)
  have "index_ok ?ix'"
    using index_ok_upsert(1) [OF assms(1) up] by (intro index_ok_note_replica index_ok_delete_links)
  then have "ix_but None (path v) (s_index st) ?ix'"
    using row_at_upsert [OF assms(1) up] by (auto simp: ix_but_def rows same(2) key)
  moreover obtain f where f: "row_at ?ix' None (path v) = Some f"
      "f_vector f = vector v" "f_by f = modified_by v" "f_updated f = sint (modified_at v)"
      "f_deleted f = None" "f_hash f = h" "f_size f = unat sz"
    using row_at_upsert(1) [OF assms(1) up, of None "path v"]
    by (cases "row_at (s_index st) None (path v)") (auto simp: rows key, auto simp: new_def upd_def)
  then have "says v (row_at ?ix' None (path v))"
    using assms(2) by (intro row_to_version_says [OF f(1)]) auto
  ultimately show ?thesis by (simp add: k)
qed

lemma adopted_remote:
  assumes "store_ok st" and "content v = File (k_hash k data) sz" and "cdc_ok (k_cdc k)"
    and "live_sizes len (s_index st)" and "sized len v" and "word_of_nat (length data) = len (k_hash k data)"
    and "adopt_file_scoped (k_sealed k) (k_hash k) (k_cdc k) now v data mtime None st = (stats, st')"
  shows "ix_but None (path v) (s_index st) (s_index st') \<and> says v (row_at (s_index st') None (path v))
    \<and> s_tree st' = s_tree st"
proof -
  let ?m = "chunk_bytes (k_hash k) (k_cdc k) data" and ?pl = "pl_remote v"
  have put: "put_manifest (k_sealed k) now (path v) ?m data mtime ?pl st = (stats, st')"
    using assms(7) by (simp add: adopt_file_scoped_def pl_remote_def)
  have m: "m_hash ?m = k_hash k data" "m_size ?m = length data"
    using assms(3) by (simp_all add: chunk_bytes_def cdc_ok_def)
  have dest: "destination (path v) ?pl st = None" by (simp add: destination_def pl_remote_def)
  have about: "about (path v) ?pl" by (simp add: about_def pl_remote_def)
  note r = put_rows [OF assms(1) about put, unfolded dest]
  have stamp: "put_stamp now (path v) ?pl st = (vector v, modified_by v, sint (modified_at v))"
    by (simp add: put_stamp_def stamped_def pl_remote_def)
  have "word_of_nat (f_size old) = len (k_hash k data)" if "same_as_before (path v) ?m ?pl None st = Some old" for old
  proof -
    have "live_row_in (s_index st) (path v) None = Some old" "f_hash old = k_hash k data"
      using that by (auto simp: same_as_before_def m split: option.splits if_splits)
    then have "row_at (s_index st) None (path v) = Some old" "f_deleted old = None"
      by (auto simp: live_row_row_at [OF assms(1)] live_def split: option.splits if_splits)
    then show ?thesis using assms(4) \<open>f_hash old = _\<close> by (auto simp: live_sizes_def)
  qed
  then have size: "word_of_nat (case same_as_before (path v) ?m ?pl None st of None \<Rightarrow> m_size ?m | Some old \<Rightarrow> f_size old) = len (k_hash k data)"
    using assms(6) by (simp add: m split: option.splits)
  have "pl_stamp ?pl \<noteq> LocalStamp" by (simp add: pl_remote_def)
  then obtain f where f: "row_at (s_index st') None (path v) = Some f" "f_vector f = vector v" "f_by f = modified_by v"
      "f_updated f = sint (modified_at v)" "f_deleted f = None" "f_hash f = k_hash k data"
      "word_of_nat (f_size f) = len (k_hash k data)"
    using r size by (auto simp: row_says_def stamp m split: option.splits)
  have "len (k_hash k data) = sz" using assms(2,5) by (simp add: sized_def)
  then have "says v (row_at (s_index st') None (path v))"
    using f assms(2) by (intro row_to_version_says [OF f(1)]) auto
  moreover have "store_ok st'" using store_ok_put [OF assms(1), of "k_sealed k" now "path v" ?m data mtime ?pl] put by simp
  ultimately show ?thesis using r ix_but_rows by (auto simp: rows_but_def)
qed

subsection \<open>Taking a version is taking it in the tree\<close>

definition shared_tree :: "node \<Rightarrow> tree" where
  \<comment> \<open>the abstraction: the version the shared area holds at each path\<close>
  "shared_tree n p = map_option row_to_version (row_at (n_index n) None p)"

definition env_ok :: "(hash \<Rightarrow> u64) \<Rightarrow> apply_env \<Rightarrow> bool" where
  \<comment> \<open>a source answers with bytes of the hash it was asked for; the cuts of a content make it up;
    contents of one hash have one length\<close>
  "env_ok len env \<longleftrightarrow>
     (\<forall>i h sz data. src_fetch (env_source env) i h sz = Inr data \<longrightarrow> k_hash (env_codec env) data = h)
     \<and> cdc_ok (k_cdc (env_codec env)) \<and> (\<forall>data. word_of_nat (length data) = len (k_hash (env_codec env) data))"

definition node_ok :: "(hash \<Rightarrow> u64) \<Rightarrow> node \<Rightarrow> bool" where
  "node_ok len n \<longleftrightarrow> store_ok (the_store n) \<and> live_sizes len (n_index n)"

lemma bring_in_honest:
  assumes "bring_in (k_hash (env_codec env)) (env_source env) h sz st stats = (Inr data, stats')" and "env_ok len env"
  shows "k_hash (env_codec env) data = h"
  using assms
  by (auto simp: bring_in_def env_ok_def read_content_def and_then_Inr_iff split: sum.splits option.splits if_splits)

lemma note_author_simps [simp]:
  "s_tree (the_store (note_author v h n)) = s_tree (the_store n)" "on_disk (note_author v h n) = on_disk n"
  "files (n_index (note_author v h n)) = files (n_index n)" "me (n_index (note_author v h n)) = me (n_index n)"
  "n_fold_case (note_author v h n) = n_fold_case n" "e_role (n_engine (note_author v h n)) = e_role (n_engine n)"
  by (auto simp: note_author_def on_disk_def note_replica_def n_index_store split: option.splits)

lemma note_author_ok: "store_ok (the_store n) \<Longrightarrow> store_ok (the_store (note_author v h n))"
  by (simp add: note_author_def index_ok_note_replica)

lemma row_at_note_author [simp]: "row_at (n_index (note_author v h n)) s p = row_at (n_index n) s p"
  by (rule row_at_files) simp

definition took :: "(hash \<Rightarrow> u64) \<Rightarrow> file_version \<Rightarrow> node \<Rightarrow> node \<Rightarrow> bool" where
  \<comment> \<open>the shared row of the version's path now says the version, and no other row has changed\<close>
  "took len v n n' \<longleftrightarrow> ix_but None (path v) (n_index n) (n_index n') \<and> says v (row_at (n_index n') None (path v))
     \<and> e_role (n_engine n') = e_role (n_engine n) \<and> (s_tree (the_store n') = None \<longleftrightarrow> s_tree (the_store n) = None)"

lemma took_ok: "took len v n n' \<Longrightarrow> node_ok len n \<Longrightarrow> sized len v \<Longrightarrow> node_ok len n'"
  using live_sizes_says [of len "n_index n" "path v" "n_index n'" v]
  by (auto simp: took_def node_ok_def n_index_store ix_but_def)

lemma took_tree:
  assumes "took len v n n'" and "area v = Shared"
  shows "shared_tree n' = (shared_tree n)(path v \<mapsto> v)"
proof
  fix p
  have "v\<lparr>area := Shared\<rparr> = v" using assms(2) by simp
  then show "shared_tree n' p = ((shared_tree n)(path v \<mapsto> v)) p"
    using assms(1) by (auto simp: took_def shared_tree_def says_def ix_but_def)
qed

lemma other_fields [simp]:
  "the_store (n\<lparr>n_trash := x\<rparr>) = the_store n" "the_store (n\<lparr>n_trash_files := y\<rparr>) = the_store n"
  "the_store (n\<lparr>n_deliveries := z\<rparr>) = the_store n" "the_store (n\<lparr>n_downloads := w\<rparr>) = the_store n"
  "n_index (n\<lparr>n_trash := x\<rparr>) = n_index n" "n_index (n\<lparr>n_trash_files := y\<rparr>) = n_index n"
  "n_index (n\<lparr>n_deliveries := z\<rparr>) = n_index n" "n_index (n\<lparr>n_downloads := w\<rparr>) = n_index n"
  "on_disk (n\<lparr>n_trash := x\<rparr>) = on_disk n" "on_disk (n\<lparr>n_trash_files := y\<rparr>) = on_disk n"
  "on_disk (n\<lparr>n_deliveries := z\<rparr>) = on_disk n" "on_disk (n\<lparr>n_downloads := w\<rparr>) = on_disk n"
  by (auto simp: the_store_def n_index_def on_disk_def)

lemma move_to_trash_keeps:
  assumes "move_to_trash p entry n = (i, n')"
  shows "n_index n' = n_index n \<and> e_role (n_engine n') = e_role (n_engine n)
    \<and> (s_tree (the_store n') = None \<longleftrightarrow> s_tree (the_store n) = None) \<and> (\<forall>q. q \<noteq> p \<longrightarrow> on_disk n' q = on_disk n q)
    \<and> (\<forall>b. on_disk n p = Some b \<longrightarrow> on_disk n' p = None
         \<and> (\<exists>e \<in> set (n_trash n'). tr_path e = tr_path entry \<and> n_trash_files n' (tr_id e) = Some b))"
proof (cases "on_disk n p")
  case (Some b)
  then have "s_tree (the_store n) \<noteq> None" by (auto simp: on_disk_def split: option.splits)
  then show ?thesis using assms Some by (auto simp: move_to_trash_def add_trash_def Let_def on_disk_put)
qed (use assms in \<open>simp add: move_to_trash_def\<close>)

lemma take_deleted_took:
  assumes "node_ok len n" and "content v = Deleted"
  shows "took len v n (take_deleted env v n)
    \<and> (\<forall>p. p \<noteq> path v \<or> private_here n v \<longrightarrow> on_disk (take_deleted env v n) p = on_disk n p)"
proof -
  define cleared where "cleared = (if \<not> is_replica (e_role (n_engine n)) \<and> \<not> private_here n v \<and> is_rule_path (path v)
      then put_on_disk (path v) None n
      else if \<not> is_replica (e_role (n_engine n)) \<and> \<not> private_here n v then
        snd (move_to_trash (path v)
          \<lparr>tr_id = 0, tr_path = path v, tr_scope = None,
           tr_content = (case folder_row (n_index n) (path v) of Some (row, _) \<Rightarrow> f_hash row | None \<Rightarrow> replicate 32 0),
           tr_size = 0, tr_at = env_now env, tr_by = Some (modified_by v), tr_why = None\<rparr> n)
      else n)"
  have t: "take_deleted env v n = on_store (tombstone_row (env_now env) (path v) (RemoteStamp v) None) cleared"
    by (simp add: take_deleted_def Let_def cleared_def)
  have c: "n_index cleared = n_index n \<and> e_role (n_engine cleared) = e_role (n_engine n)
    \<and> (s_tree (the_store cleared) = None \<longleftrightarrow> s_tree (the_store n) = None)
    \<and> (\<forall>p. p \<noteq> path v \<or> private_here n v \<longrightarrow> on_disk cleared p = on_disk n p)"
    using move_to_trash_keeps [OF surjective_pairing] by (auto simp: cleared_def on_disk_put)
  have ok: "store_ok (the_store cleared)" using assms(1) c by (simp add: node_ok_def flip: n_index_store)
  have "on_disk (take_deleted env v n) p = on_disk cleared p" for p
    using tombstone_remote [OF ok assms(2)] by (simp add: t on_disk_def)
  then show ?thesis
    using tombstone_remote [OF ok assms(2), of "env_now env"] c
    by (simp add: t took_def flip: n_index_store)
qed

lemma tookI:
  assumes "ix_but None (path v) (n_index n) (n_index mid)" and "ix_but None (path v) (n_index mid) (n_index n')"
    and "says v (row_at (n_index n') None (path v))" and "e_role (n_engine n') = e_role (n_engine n)"
    and "s_tree (the_store n') = None \<longleftrightarrow> s_tree (the_store n) = None"
  shows "took len v n n'"
  using assms ix_but_trans by (auto simp: took_def)

lemma note_author_ix: "node_ok len n \<Longrightarrow> ix_but s p (n_index n) (n_index (note_author v h n))"
  using note_author_ok [of n v h] by (intro ix_but_same) (simp_all add: node_ok_def flip: n_index_store)

lemma note_author_node_ok: "node_ok len n \<Longrightarrow> node_ok len (note_author v h n)"
  using note_author_ok by (simp add: node_ok_def live_sizes_def)

lemma elsewhere_took:
  assumes "node_ok len n" and "content v = File h sz"
  shows "took len v n (on_store (know_elsewhere now v) (note_author v h n))
    \<and> on_disk (on_store (know_elsewhere now v) (note_author v h n)) = on_disk n"
proof -
  let ?n1 = "note_author v h n"
  have ok: "store_ok (the_store ?n1)" using note_author_node_ok [OF assms(1)] by (simp add: node_ok_def)
  note k = know_elsewhere_remote [OF ok assms(2), of now]
  have "took len v n (on_store (know_elsewhere now v) ?n1)"
    using k note_author_ix [OF assms(1)] by (intro tookI [where mid = ?n1]) (auto simp flip: n_index_store)
  moreover have "on_disk (on_store (know_elsewhere now v) ?n1) = on_disk ?n1"
    using k by (simp add: on_disk_def fun_eq_iff)
  ultimately show ?thesis by simp
qed

lemma arrival_took:
  assumes "node_ok len n" and "env_ok len env" and "area v = Shared" and "content v = File (k_hash (env_codec env) data) sz"
    and "sized len v"
  shows "took len v n (record_arrival env v v data (put_on_disk (path v) (Some data) (note_author v h n)))
    \<and> on_disk (record_arrival env v v data (put_on_disk (path v) (Some data) (note_author v h n)))
        = (on_disk n)(path v := if s_tree (the_store n) = None then None else Some data)"
proof -
  let ?k = "env_codec env"
  let ?n1 = "put_on_disk (path v) (Some data) (note_author v h n)"
  let ?adopt = "\<lambda>st. snd (adopt_file_scoped (k_sealed ?k) (k_hash ?k) (k_cdc ?k) (env_now env) v data (env_mtime env v) None st)"
  have n': "record_arrival env v v data ?n1 = on_store ?adopt ?n1"
    using assms(3) by (simp add: record_arrival_def Let_def)
  have ok: "store_ok (the_store ?n1)" "live_sizes len (s_index (the_store ?n1))"
    using note_author_node_ok [OF assms(1), of v h] by (auto simp: node_ok_def simp flip: n_index_store)
  have a: "ix_but None (path v) (s_index (the_store ?n1)) (s_index (?adopt (the_store ?n1)))
      \<and> says v (row_at (s_index (?adopt (the_store ?n1))) None (path v)) \<and> s_tree (?adopt (the_store ?n1)) = s_tree (the_store ?n1)"
    using assms(2) by (intro adopted_remote [OF ok(1) assms(4) _ ok(2) assms(5) _ surjective_pairing]) (auto simp: env_ok_def)
  have "took len v n (on_store ?adopt ?n1)"
    using a note_author_ix [OF assms(1)] by (intro tookI [where mid = ?n1]) (auto simp flip: n_index_store)
  moreover have "on_disk (on_store ?adopt ?n1) = on_disk ?n1" using a by (simp add: on_disk_def fun_eq_iff)
  moreover have "on_disk ?n1 = (on_disk n)(path v := if s_tree (the_store n) = None then None else Some data)"
    by (auto simp: fun_eq_iff on_disk_put) (auto simp: on_disk_def)
  ultimately show ?thesis by (simp add: n')
qed

definition left_alone :: "node \<Rightarrow> node \<Rightarrow> bool" where
  \<comment> \<open>a step that failed: at most a word about who has the bytes was recorded\<close>
  "left_alone n n' \<longleftrightarrow> index_ok (n_index n') \<and> files (n_index n') = files (n_index n) \<and> me (n_index n') = me (n_index n)
     \<and> on_disk n' = on_disk n \<and> e_role (n_engine n') = e_role (n_engine n)
     \<and> (s_tree (the_store n') = None \<longleftrightarrow> s_tree (the_store n) = None)"

lemma left_alone_refl: "node_ok len n \<Longrightarrow> left_alone n n"
  by (simp add: left_alone_def node_ok_def n_index_store)

lemma left_alone_author: "node_ok len n \<Longrightarrow> left_alone n (note_author v h n)"
  using note_author_node_ok [of len n v h] by (simp add: left_alone_def node_ok_def n_index_store [symmetric])

lemma left_alone_rows: "left_alone n n' \<Longrightarrow> row_at (n_index n') s p = row_at (n_index n) s p"
  by (rule row_at_files) (simp add: left_alone_def)

lemma left_alone_ok: "left_alone n n' \<Longrightarrow> node_ok len n \<Longrightarrow> node_ok len n'"
  using left_alone_rows [of n n'] by (simp add: left_alone_def node_ok_def live_sizes_def flip: n_index_store)

definition arrived :: "apply_env \<Rightarrow> file_version \<Rightarrow> node \<Rightarrow> node \<Rightarrow> bool" where
  \<comment> \<open>what the folder holds afterwards: as before, or at the path the version's bytes\<close>
  "arrived env v n n' \<longleftrightarrow> on_disk n' = on_disk n
     \<or> (\<not> private_here n v \<and> (\<exists>data sz. content v = File (k_hash (env_codec env) data) sz
          \<and> on_disk n' = (on_disk n)(path v := if s_tree (the_store n) = None then None else Some data)))"

lemma take_file_took:
  assumes "env_ok len env" and "node_ok len n" and "area v = Shared" and "sized len v" and "content v = File h sz"
    and "take_file env v v h sz stats n = (r, stats', n')"
  shows "if isl r then left_alone n n' else took len v n n' \<and> arrived env v n n'"
proof -
  let ?n1 = "note_author v h n"
  have else_where: "took len v n (on_store (know_elsewhere (env_now env) v) ?n1)
      \<and> arrived env v n (on_store (know_elsewhere (env_now env) v) ?n1)"
    using elsewhere_took [OF assms(2,5)] by (simp add: arrived_def)
  note alone = left_alone_author [OF assms(2), of v h]
  show ?thesis
  proof (cases "private_here n v \<or> (if n_fold_case n then live_path_colliding_with (n_index ?n1) (path v) else None) \<noteq> None")
    case True
    then show ?thesis using assms(6) alone
      by (auto simp: take_file_def Let_def split: option.splits if_splits)
  next
    case False
    obtain b stats1 where b: "bring_in (k_hash (env_codec env)) (env_source env) h sz (the_store ?n1) stats = (b, stats1)"
      by fastforce
    show ?thesis
    proof (cases b)
      case (Inl e)
      then show ?thesis using assms(6) False b alone else_where
        by (auto simp: take_file_def Let_def split: option.splits if_splits)
    next
      case (Inr data)
      have h: "content v = File (k_hash (env_codec env) data) sz"
        using bring_in_honest [OF b [unfolded Inr] assms(1)] assms(5) by simp
      have arr: "took len v n (record_arrival env v v data (put_on_disk (path v) (Some data) ?n1))
          \<and> arrived env v n (record_arrival env v v data (put_on_disk (path v) (Some data) ?n1))"
        using arrival_took [OF assms(2,1,3) h assms(4), of h] h False by (auto simp: arrived_def)
      let ?k = "env_codec env"
      let ?adopt = "\<lambda>st. case adopt (k_sealed ?k) (k_hash ?k) (k_cdc ?k) (env_now env) v (Some data) (sint (modified_at v)) st of
          Inr (_, st) \<Rightarrow> st | Inl _ \<Rightarrow> st"
      have "?adopt st = snd (adopt_file_scoped (k_sealed ?k) (k_hash ?k) (k_cdc ?k) (env_now env) v data (sint (modified_at v)) None st)" for st
        using h by (simp add: adopt_def adopt_file_scoped_def pl_remote_def split: prod.splits)
      moreover have ok: "store_ok (the_store ?n1)" "live_sizes len (s_index (the_store ?n1))"
        using note_author_node_ok [OF assms(2), of v h] by (auto simp: node_ok_def simp flip: n_index_store)
      ultimately have a: "ix_but None (path v) (s_index (the_store ?n1)) (s_index (?adopt (the_store ?n1)))
          \<and> says v (row_at (s_index (?adopt (the_store ?n1))) None (path v)) \<and> s_tree (?adopt (the_store ?n1)) = s_tree (the_store ?n1)"
        using assms(1) adopted_remote [OF ok(1) h _ ok(2) assms(4) _ surjective_pairing, of "env_now env" "sint (modified_at v)"]
        by (simp add: env_ok_def)
      have rep: "took len v n (on_store ?adopt ?n1) \<and> arrived env v n (on_store ?adopt ?n1)"
      proof
        show "took len v n (on_store ?adopt ?n1)"
          using a note_author_ix [OF assms(2)] by (intro tookI [where mid = ?n1]) (auto simp flip: n_index_store)
        have "on_disk (on_store ?adopt ?n1) = on_disk ?n1" using a by (simp add: on_disk_def fun_eq_iff)
        then show "arrived env v n (on_store ?adopt ?n1)" by (simp add: arrived_def)
      qed
      show ?thesis using assms(6) False b Inr arr rep else_where
        by (auto simp: take_file_def Let_def split: option.splits if_splits)
    qed
  qed
qed

lemma take_version_took:
  assumes "env_ok len env" and "node_ok len n" and "area v = Shared" and "sized len v"
    and "take_version env v stats n = Some (r, stats', n')"
  shows "if isl r then left_alone n n'
    else took len v n n' \<and> (if content v = Deleted then (\<forall>p. p \<noteq> path v \<or> private_here n v \<longrightarrow> on_disk n' p = on_disk n p)
      else arrived env v n n')"
proof (cases "\<not> is_safe_path (path v) \<or> is_ignored (e_ignore (n_engine n)) (e_root (n_engine n) @ split_on CHR ''/'' (path v))")
  case True
  then show ?thesis using assms(5) left_alone_refl [OF assms(2)] by (auto simp: take_version_def)
next
  case False
  show ?thesis
  proof (cases "content v")
    case Deleted
    then show ?thesis using assms(5) False take_deleted_took [OF assms(2) Deleted] by (auto simp: take_version_def)
  next
    case (File h sz)
    then have "take_file env v v h sz stats n = (r, stats', n')"
      using assms(3,5) False by (simp add: take_version_def filed_def)
    from take_file_took [OF assms(1-4) File this] File show ?thesis by simp
  qed
qed

text \<open>C37: Taking a shared version is adopting it in the tree, whatever way it is taken: written to the
  folder, kept by a replica, listed without its bytes, or a deletion. When taking succeeds, the
  shared area says exactly the version at its path and what it said elsewhere; when it fails, what
  it says and what is on disk are as before. Either way no row of a vault changes, no file at
  another path changes, a file of the device's own at that path is not touched, and the file put in
  place has the hash the version names.\<close>

theorem take_refines_adoption:
  assumes "env_ok len env" and "node_ok len n" and "area v = Shared" and "sized len v"
    and "take_version env v stats n = Some (r, stats', n')"
  shows "shared_tree n' = (if isl r then shared_tree n else apply_action (shared_tree n) (Adopt v))
    \<and> node_ok len n' \<and> (isl r \<longrightarrow> on_disk n' = on_disk n)
    \<and> (\<forall>d p. row_at (n_index n') (Some d) p = row_at (n_index n) (Some d) p)
    \<and> (\<forall>p. p \<noteq> path v \<or> private_here n v \<longrightarrow> on_disk n' p = on_disk n p)
    \<and> (\<forall>h sz data. content v = File h sz \<and> on_disk n' (path v) = Some data \<longrightarrow>
         on_disk n (path v) = Some data \<or> k_hash (env_codec env) data = h)"
proof -
  note t = take_version_took [OF assms]
  show ?thesis
  proof (cases "isl r")
    case True
    then have alone: "left_alone n n'" using t by simp
    then show ?thesis using True left_alone_rows [OF alone] left_alone_ok [OF alone assms(2)]
      by (simp add: shared_tree_def fun_eq_iff left_alone_def)
  next
    case False
    then have tk: "took len v n n'" using t by simp
    have "row_at (n_index n') (Some d) p = row_at (n_index n) (Some d) p" for d p
      using tk by (simp add: took_def ix_but_def)
    then show ?thesis
      using False t took_tree [OF tk assms(3)] took_ok [OF tk assms(2,4)]
      by (auto simp: arrived_def fun_upd_def split: if_splits content.splits)
  qed
qed

subsection \<open>Files kept for another device\<close>

lemma is_held_row:
  assumes "index_ok ix"
  shows "is_held ix p owner \<longleftrightarrow> (case live (row_at ix (Some owner) p) of None \<Rightarrow> False | Some f \<Rightarrow> f_held f)"
proof
  assume "is_held ix p owner"
  then obtain f where f: "f \<in> set (files ix)" "f_path f = p" "f_scope f = Some owner" "f_held f" "f_deleted f = None"
    by (auto simp: is_held_def list_ex_iff)
  then have "row_at ix (Some owner) p = Some f" using row_at_mem [OF assms f(1)] by simp
  then show "case live (row_at ix (Some owner) p) of None \<Rightarrow> False | Some f \<Rightarrow> f_held f" using f by (simp add: live_def)
next
  assume "case live (row_at ix (Some owner) p) of None \<Rightarrow> False | Some f \<Rightarrow> f_held f"
  then obtain f where "row_at ix (Some owner) p = Some f" "f_deleted f = None" "f_held f"
    by (auto simp: live_def split: option.splits if_splits)
  then show "is_held ix p owner" using row_at_SomeD [of ix "Some owner" p f] by (auto simp: is_held_def list_ex_iff)
qed

lemma hold_needed_rows:
  assumes "index_ok ix" and "index_ok ix'" and "row_at ix' (Some owner) (path v) = row_at ix (Some owner) (path v)"
  shows "hold_needed ix' owner v = hold_needed ix owner v"
  using assms by (simp add: hold_needed_def is_held_row live_row_row_at split: content.splits option.splits)

lemma take_hold_rows:
  assumes "env_ok len env" and "store_ok (the_store n)" and "take_hold env owner v stats n = (Inr u, stats', n')"
  shows "ix_but (Some owner) (path v) (n_index n) (n_index n') \<and> on_disk n' = on_disk n \<and> \<not> hold_needed (n_index n') owner v"
proof (cases "content v")
  case Deleted
  then have n': "n' = on_store (unhold (env_now env) v owner) n"
    using assms(3) by (auto simp: take_hold_def Let_def split: if_splits)
  show ?thesis
  proof (cases "live_row_in (s_index (the_store n)) (path v) (Some owner)")
    case None
    then have "n' = on_store (\<lambda>st. st) n" "n_index n' = n_index n" by (simp_all add: n' unhold_def on_store_def n_index_store the_store_def)
    then show ?thesis
      using None Deleted assms(2) by (auto simp: hold_needed_def ix_but_def n_index_store on_disk_def)
  next
    case (Some row)
    let ?st' = "tombstone_row (env_now env) (path v) (RemoteStamp v) (Some owner) (the_store n)"
    have st': "the_store n' = ?st'" "n_index n' = s_index ?st'" using Some by (simp_all add: n' unhold_def)
    note t = tombstone_rows [OF assms(2), of "Some owner" "path v" "env_now env" "RemoteStamp v"]
    have ok: "store_ok ?st'" by (rule store_ok_tombstone [OF assms(2)])
    have "live (row_at (s_index ?st') (Some owner) (path v)) = None"
      using t tombstone_says_tombstoned tombstoned_live by blast
    then have "\<not> hold_needed (s_index ?st') owner v"
      using Deleted by (simp add: hold_needed_def live_row_row_at [OF ok])
    then show ?thesis
      using t ix_but_rows [OF conjunct1 [OF t] ok] by (simp add: st' on_disk_def fun_eq_iff rows_but_def n_index_store)
  qed
next
  case (File h sz)
  then obtain data stats1 where b: "bring_in (k_hash (env_codec env)) (env_source env) h sz (the_store n) stats = (Inr data, stats1)"
    and n': "n' = on_store (\<lambda>st. snd (hold_file (k_sealed (env_codec env)) (k_hash (env_codec env)) (k_cdc (env_codec env))
      (env_now env) v owner data st)) n"
    using assms(3) by (auto simp: take_hold_def Let_def split: if_splits sum.splits prod.splits)
  let ?k = "env_codec env"
  let ?m = "chunk_bytes (k_hash ?k) (k_cdc ?k) data" and ?pl = "(pl_remote v)\<lparr>pl_vault := Some owner, pl_held := True\<rparr>"
  obtain stats2 st' where put: "put_manifest (k_sealed ?k) (env_now env) (path v) ?m data 0 ?pl (the_store n) = (stats2, st')"
    by fastforce
  have st': "the_store n' = st'" "n_index n' = s_index st'" using put by (simp_all add: n' hold_file_def)
  have dest: "destination (path v) ?pl (the_store n) = Some owner" by (simp add: destination_def)
  have about: "about (path v) ?pl" by (simp add: about_def pl_remote_def)
  note r = put_rows [OF assms(2) about put, unfolded dest]
  have ok: "store_ok st'" using store_ok_put [OF assms(2), of "k_sealed ?k" "env_now env" "path v" ?m data 0 ?pl] put by simp
  have "m_hash ?m = h"
    using bring_in_honest [OF b assms(1)] assms(1) by (simp add: chunk_bytes_def cdc_ok_def env_ok_def)
  then obtain f where "row_at (s_index st') (Some owner) (path v) = Some f" "f_deleted f = None" "f_hash f = h" "f_held f"
    using r by (auto simp: row_says_def split: option.splits)
  then have "\<not> hold_needed (s_index st') owner v"
    using File by (simp add: hold_needed_def live_row_row_at [OF ok] is_held_row [OF ok] live_def)
  then show ?thesis
    using r ix_but_rows [OF conjunct1 [OF r] ok] by (simp add: st' on_disk_def fun_eq_iff rows_but_def n_index_store)
qed

text \<open>What a plan asks to keep for another device, once done, is not asked again: after a file is
  kept for its owner, or dropped on the owner's deletion, the owner's entry calls for nothing, what
  the other entries of its list call for is as before, and neither the folder nor a row of another
  area or path has changed.\<close>

lemma keeping_settles:
  assumes "env_ok len env" and "store_ok (the_store n)" and "take_hold env owner v stats n = (Inr u, stats', n')"
  shows "AHold owner v \<notin> set (holding n' vs owner)
    \<and> (\<forall>w. path w \<noteq> path v \<longrightarrow> (AHold owner w \<in> set (holding n' vs owner) \<longleftrightarrow> AHold owner w \<in> set (holding n vs owner)))
    \<and> on_disk n' = on_disk n \<and> shared_tree n' = shared_tree n
    \<and> (\<forall>s p. (s, p) \<noteq> (Some owner, path v) \<longrightarrow> row_at (n_index n') s p = row_at (n_index n) s p)"
proof -
  note r = take_hold_rows [OF assms]
  have ok: "index_ok (n_index n)" "index_ok (n_index n')" using assms(2) r by (auto simp: n_index_store ix_but_def)
  have "hold_needed (n_index n') owner w = hold_needed (n_index n) owner w" if "path w \<noteq> path v" for w
    using that r by (intro hold_needed_rows [OF ok]) (simp add: ix_but_def)
  moreover have "shared_tree n' = shared_tree n" using r by (simp add: shared_tree_def ix_but_def fun_eq_iff)
  ultimately show ?thesis using r by (auto simp: holding_def ix_but_def)
qed

subsection \<open>A file from the phone\<close>

definition open_env :: apply_env where
  "open_env = \<lparr>env_codec = one_piece, env_now = 200, env_mtime = (\<lambda>_. 7),
     env_source = \<lparr>src_fetch = (\<lambda>_ h _. Inr h), src_gone = (\<lambda>_. False)\<rparr>\<rparr>"

definition fresh_laptop :: "(string \<Rightarrow> bytes option) option \<Rightarrow> node" where
  "fresh_laptop tree = (let n = visited_laptop (Rules []) Own
     in n\<lparr>n_engine := (n_engine n)\<lparr>e_store := store_new laptop tree\<rparr>\<rparr>)"

lemma open_env_ok: "env_ok (word_of_nat \<circ> length) open_env"
  using whole_file_ok by (simp add: env_ok_def open_env_def one_piece_def)

lemma fresh_laptop_ok: "node_ok len (fresh_laptop tree)"
  by (simp add: node_ok_def live_sizes_def fresh_laptop_def Let_def the_store_def n_index_def store_new_def row_at_def
      index_new_def index_ok_new [unfolded index_new_def])

theorem take_refines_adoption_witness:
  "\<exists>stats' n'. take_version open_env (from_phone ''b'' Shared) plan_stats_default (fresh_laptop (Some [''b'' \<mapsto> [9], ''c'' \<mapsto> [8]])) = Some (Inr (), stats', n')
     \<and> shared_tree n' ''b'' = Some (from_phone ''b'' Shared) \<and> on_disk n' ''b'' = Some [5] \<and> on_disk n' ''c'' = Some [8]"
proof -
  let ?n = "fresh_laptop (Some [''b'' \<mapsto> [9], ''c'' \<mapsto> [8]])" and ?v = "from_phone ''b'' Shared"
  let ?t = "take_version open_env ?v plan_stats_default ?n"
  have t: "case ?t of None \<Rightarrow> False | Some (r, _, n') \<Rightarrow> \<not> isl r \<and> on_disk n' ''b'' = Some [5]" by code_simp
  then obtain r stats' n' where r: "?t = Some (r, stats', n')" "\<not> isl r" by (auto split: option.splits)
  then have n': "?t = Some (Inr (), stats', n')" by (cases r) auto
  have "area ?v = Shared" "sized (word_of_nat \<circ> length) ?v" by (simp_all add: from_phone_def sized_def)
  note took = take_refines_adoption [OF open_env_ok fresh_laptop_ok this n']
  have "on_disk ?n ''c'' = Some [8]" by code_simp
  then show ?thesis
    using took n' t by (auto simp: from_phone_def)
qed

lemma keeping_settles_witness:
  "\<exists>stats' n'. take_hold open_env phone (from_phone ''b'' Hold) plan_stats_default (fresh_laptop None) = (Inr (), stats', n')
     \<and> AHold phone (from_phone ''b'' Hold) \<notin> set (holding n' [from_phone ''b'' Hold] phone)
     \<and> AHold phone (from_phone ''c'' Hold) \<in> set (holding n' [from_phone ''c'' Hold] phone)"
proof -
  let ?v = "from_phone ''b'' Hold" and ?w = "from_phone ''c'' Hold"
  let ?t = "take_hold open_env phone ?v plan_stats_default (fresh_laptop None)"
  have "\<not> isl (fst ?t)" by code_simp
  then obtain u stats' n' where n': "?t = (Inr u, stats', n')" by (cases ?t, cases "fst ?t") auto
  have ok: "store_ok (the_store (fresh_laptop None))" using fresh_laptop_ok by (simp add: node_ok_def)
  have w: "AHold phone ?w \<in> set (holding (fresh_laptop None) [?w] phone)" by code_simp
  show ?thesis
    using keeping_settles [OF open_env_ok ok n'] w n' by (simp add: from_phone_def)
qed

end
