(* ===== verification/Converge.thy ===== *)
theory Converge imports Apply
begin

section \<open>Two devices settle\<close>

text \<open>
  Carrying out a plan against the specification of \<open>Reconcile\<close>: on a device whose rows and
  versions are well formed, every step that does not fail does to the shared area what its action
  says, so a run without failures takes the shared area to the tree the plan describes, whatever
  order removals are put in. With the theorem on plans this gives the convergence of two devices.
\<close>

subsection \<open>The shared area and its list\<close>

lemma by_path_get_iff:
  assumes "\<And>v w. v \<in> set vs \<Longrightarrow> w \<in> set vs \<Longrightarrow> path v = path w \<Longrightarrow> v = w"
  shows "bm_get (by_path vs) p = Some v \<longleftrightarrow> v \<in> set vs \<and> path v = p"
proof
  assume "v \<in> set vs \<and> path v = p"
  then have "bm_get (by_path vs) p \<noteq> None"
    by (auto simp: by_path_def bm_get_collect rev_map map_of_eq_None_iff image_iff)
  then obtain w where "bm_get (by_path vs) p = Some w" by blast
  with by_path_get [OF this] \<open>v \<in> set vs \<and> path v = p\<close> assms show "bm_get (by_path vs) p = Some v" by auto
qed (rule by_path_get)

lemma engine_tree_mem:
  assumes "index_ok (n_index n)"
  shows "v \<in> set (engine_tree n) \<longleftrightarrow> shared_tree n (path v) = Some v"
proof
  assume "v \<in> set (engine_tree n)"
  then obtain f where "f \<in> set (files (n_index n))" "f_scope f = None" "v = row_to_version f"
    by (auto simp: engine_tree_def shared_versions_def)
  then show "shared_tree n (path v) = Some v"
    using row_at_mem [OF assms, of f] by (simp add: shared_tree_def) (simp add: row_to_version_def)
next
  assume "shared_tree n (path v) = Some v"
  then obtain f where "row_at (n_index n) None (path v) = Some f" "v = row_to_version f"
    by (auto simp: shared_tree_def)
  then show "v \<in> set (engine_tree n)"
    using row_at_SomeD by (auto simp: engine_tree_def shared_versions_def)
qed

lemma shared_tree_path: "shared_tree n p = Some v \<Longrightarrow> path v = p \<and> area v = Shared"
  using row_at_SomeD by (auto simp: shared_tree_def row_to_version_def)

lemma engine_tree_by_path:
  assumes "index_ok (n_index n)"
  shows "bm_get (by_path (engine_tree n)) = shared_tree n"
proof
  fix p
  have "bm_get (by_path (engine_tree n)) p = Some v \<longleftrightarrow> shared_tree n p = Some v" for v
    using by_path_get_iff [of "engine_tree n" p v] engine_tree_mem [OF assms] shared_tree_path [of n p v]
    by (auto dest: engine_tree_mem [OF assms, THEN iffD1])
  then show "bm_get (by_path (engine_tree n)) p = shared_tree n p" by (metis not_None_eq)
qed

lemma equal_trees_settled:
  assumes "index_ok (n_index a)" and "index_ok (n_index b)" and "shared_tree a = shared_tree b"
  shows "reconcile (engine_tree a) (engine_tree b) = Some []"
proof -
  have "by_path (engine_tree a) = by_path (engine_tree b)"
    by (rule bm_ext) (simp_all add: by_path_ok engine_tree_by_path assms)
  then show ?thesis using reconcile_self [of "engine_tree a"] by (simp add: reconcile_def)
qed

lemma engine_tree_sized: "node_ok len n \<Longrightarrow> v \<in> set (engine_tree n) \<Longrightarrow> sized len v \<and> area v = Shared"
  using engine_tree_mem [of n v]
  by (auto simp: node_ok_def n_index_store shared_tree_def live_sizes_def sized_def row_to_version_def)

subsection \<open>A step is its action\<close>

definition footprint :: "action \<Rightarrow> string set" where
  "footprint a = (case a of Offer _ \<Rightarrow> {} | AHold _ _ \<Rightarrow> {} | AConflict keeps other \<Rightarrow> {path keeps, path other} | _ \<Rightarrow> {action_path a})"

definition fits :: "(hash \<Rightarrow> u64) \<Rightarrow> tree \<Rightarrow> action \<Rightarrow> bool" where
  \<comment> \<open>an action on the shared area; a merge finds the content it converges on in place\<close>
  "fits len t a =
     (let good = (\<lambda>v. area v = Shared \<and> sized len v)
      in case a of
           Adopt v \<Rightarrow> good v
         | AResurrect v \<Rightarrow> good v
         | AConflict keeps other \<Rightarrow> good keeps \<and> good other \<and> path keeps \<noteq> path other
         | AMerge v \<Rightarrow> area v = Shared \<and> map_option content (t (path v)) = Some (content v)
         | Offer v \<Rightarrow> True
         | _ \<Rightarrow> False)"

lemma apply_action_outside: "p \<notin> footprint a \<Longrightarrow> apply_action t a p = t p"
  by (cases a) (auto simp: footprint_def)

lemma apply_actions_swap:
  assumes "footprint a \<inter> footprint b = {}"
  shows "apply_action (apply_action t a) b = apply_action (apply_action t b) a"
  using assms by (cases a; cases b) (auto simp: footprint_def fun_eq_iff)

lemma apply_actions_insort:
  assumes "\<forall>y \<in> set ys. f y < f x \<longrightarrow> footprint x \<inter> footprint y = {}"
  shows "apply_actions t (insort_key f x ys) = apply_actions t (x # ys)"
  using assms by (induction ys arbitrary: t) (auto simp: apply_actions_Cons apply_actions_swap)

lemma apply_actions_sorted:
  assumes "\<forall>x \<in> set acts. \<forall>y \<in> set acts. f y < f x \<longrightarrow> footprint x \<inter> footprint y = {}"
  shows "apply_actions t (sort_key f acts) = apply_actions t acts"
  using assms
proof (induction acts arbitrary: t)
  case (Cons x acts)
  then have "apply_actions t (insort_key f x (sort_key f acts)) = apply_actions t (x # sort_key f acts)"
    by (intro apply_actions_insort) auto
  then show ?case using Cons by (simp add: apply_actions_Cons)
qed simp

lemma take_version_tree:
  assumes "env_ok len env" and "node_ok len n" and "area v = Shared \<and> sized len v"
    and "take_version env v stats n = Some (Inr u, stats', n')"
  shows "shared_tree n' = (shared_tree n)(path v \<mapsto> v) \<and> node_ok len n'"
  using take_version_took [OF assms(1,2) _ _ assms(4)] took_tree took_ok [OF _ assms(2)] assms(3) by auto

lemma merge_version_tree:
  assumes "node_ok len n" and "area v = Shared" and "map_option content (shared_tree n (path v)) = Some (content v)"
  shows "shared_tree (on_store (merge_version v) n) = (shared_tree n)(path v \<mapsto> v) \<and> node_ok len (on_store (merge_version v) n)"
proof -
  let ?n' = "on_store (merge_version v) n"
  let ?g = "\<lambda>f. if f_path f = path v \<and> f_scope f = None
      then f\<lparr>f_vector := vector v, f_by := modified_by v, f_updated := sint (modified_at v)\<rparr> else f"
  have rows: "row_at (s_index (merge_version v (the_store n))) s p = map_option ?g (row_at (n_index n) s p)" for s p
    unfolding merge_version_def set_version_def n_index_store by (simp add: row_at_map [of ?g])
  have "live_sizes len (n_index ?n')"
    using assms(1) by (auto simp: live_sizes_def rows node_ok_def split: if_splits)
  moreover have "store_ok (the_store ?n')"
    using assms(1) store_ok_merge by (simp add: node_ok_def)
  moreover have "shared_tree ?n' = (shared_tree n)(path v \<mapsto> v)"
  proof
    fix p
    obtain f where f: "row_at (n_index n) None (path v) = Some f" "content (row_to_version f) = content v"
      using assms(3) by (auto simp: shared_tree_def)
    show "shared_tree ?n' p = ((shared_tree n)(path v \<mapsto> v)) p"
    proof (cases "p = path v")
      case True
      then show ?thesis
        using f row_at_SomeD [OF f(1)] assms(2)
        by (simp add: shared_tree_def rows) (auto simp: row_to_version_def intro!: file_version.equality)
    next
      case False
      have "map_option row_to_version (map_option ?g (row_at (n_index n) None p)) = map_option row_to_version (row_at (n_index n) None p)"
        using row_at_SomeD [of "n_index n" None p] False by (cases "row_at (n_index n) None p") auto
      then show ?thesis using False by (simp add: shared_tree_def rows)
    qed
  qed
  ultimately show ?thesis by (simp add: node_ok_def)
qed

lemma carry_out_tree:
  assumes "env_ok len env" and "node_ok len n" and "fits len (shared_tree n) a"
    and "carry_out env a stats n = Some (Inr u, stats', n')"
  shows "shared_tree n' = apply_action (shared_tree n) a \<and> node_ok len n'"
proof (cases a)
  case (AConflict keeps other)
  then obtain u' stats1 n1 where one: "take_version env other (stats\<lparr>ps_conflicts := ps_conflicts stats + 1\<rparr>) n = Some (Inr u', stats1, n1)"
    and two: "take_version env keeps stats1 n1 = Some (Inr u, stats', n')"
    using assms(4) by (auto simp: carry_out_def split: option.splits sum.splits)
  have good: "area other = Shared \<and> sized len other" "area keeps = Shared \<and> sized len keeps"
    using assms(3) AConflict by (auto simp: fits_def Let_def)
  note t1 = take_version_tree [OF assms(1,2) good(1) one]
  note t2 = take_version_tree [OF assms(1) conjunct2 [OF t1] good(2) two]
  have "path keeps \<noteq> path other" using assms(3) AConflict by (simp add: fits_def Let_def)
  then show ?thesis using t1 t2 AConflict by (simp add: fun_upd_twist)
qed (use assms take_version_tree merge_version_tree in \<open>auto simp: carry_out_def fits_def Let_def\<close>)

subsection \<open>A run without failures is the plan\<close>

lemma tell_counts [simp]: "ps_failures (tell t s) = ps_failures s" "ps_left (tell t s) = ps_left s"
  by (simp_all add: tell_def)

lemma bring_in_counts:
  "bring_in H src h sz st stats = (r, stats') \<Longrightarrow> ps_failures stats' = ps_failures stats \<and> ps_left stats' = ps_left stats"
  by (auto simp: bring_in_def split: sum.splits option.splits)

lemma take_file_counts:
  "take_file env sent v h sz stats n = (r, stats', n') \<Longrightarrow> ps_failures stats' = ps_failures stats \<and> ps_left stats' = ps_left stats"
  unfolding take_file_def Let_def
  by (auto split: if_splits option.splits sum.splits prod.splits dest!: bring_in_counts)

lemma take_into_downloads_counts:
  "take_into_downloads env v dir h sz stats n = Some (r, stats', n') \<Longrightarrow> ps_failures stats' = ps_failures stats \<and> ps_left stats' = ps_left stats"
  unfolding take_into_downloads_def Let_def
  by (auto split: if_splits option.splits sum.splits prod.splits dest!: bring_in_counts)

lemma take_version_counts:
  "take_version env v stats n = Some (r, stats', n') \<Longrightarrow> ps_failures stats' = ps_failures stats \<and> ps_left stats' = ps_left stats"
  unfolding take_version_def
  by (auto split: if_splits option.splits content.splits dest: take_file_counts take_into_downloads_counts)

lemma take_hold_counts:
  "take_hold env owner v stats n = (r, stats', n') \<Longrightarrow> ps_failures stats' = ps_failures stats \<and> ps_left stats' = ps_left stats"
  unfolding take_hold_def Let_def
  by (auto split: if_splits content.splits sum.splits prod.splits dest!: bring_in_counts)

lemma carry_out_counts:
  assumes "carry_out env a stats n = Some (r, stats', n')"
  shows "ps_failures stats' = ps_failures stats \<and> ps_left stats' = ps_left stats"
  using assms
  by (cases a) (auto simp: carry_out_def split: option.splits prod.splits sum.splits
      dest!: take_version_counts take_hold_counts)

definition clean :: "plan_stats \<Rightarrow> bool" where
  "clean stats \<longleftrightarrow> ps_failures stats = [] \<and> ps_left stats = 0"

lemma plan_step_clean:
  assumes "plan_step env a (Some (stats, n)) = Some (stats', n')" and "clean stats'"
  shows "clean stats \<and> (\<exists>u. carry_out env a stats n = Some (Inr u, stats', n'))"
  using assms by (auto simp: plan_step_def clean_def split: if_splits option.splits sum.splits dest!: carry_out_counts)

lemma plan_steps_stuck: "fold (plan_step env) acts None = None"
  by (induction acts) (simp_all add: plan_step_def)

lemma plan_steps_tree:
  assumes "env_ok len env" and "node_ok len n" and "\<forall>a \<in> set acts. fits len (shared_tree n) a"
    and "sorted_wrt (\<lambda>a b. \<forall>v. b = AMerge v \<longrightarrow> path v \<notin> footprint a) acts"
    and "fold (plan_step env) acts (Some (stats, n)) = Some (stats', n')" and "clean stats'"
  shows "clean stats \<and> shared_tree n' = apply_actions (shared_tree n) acts \<and> node_ok len n'"
  using assms(2-6)
proof (induction acts arbitrary: stats n)
  case Nil
  then show ?case by (simp add: apply_actions_def)
next
  case (Cons a acts)
  then obtain stats1 n1 where one: "plan_step env a (Some (stats, n)) = Some (stats1, n1)"
    and rest: "fold (plan_step env) acts (Some (stats1, n1)) = Some (stats', n')"
    by (cases "plan_step env a (Some (stats, n))") (auto simp: plan_steps_stuck)
  have step: "shared_tree n1 = apply_action (shared_tree n) a \<and> node_ok len n1" if "clean stats1"
    using plan_step_clean [OF one that] carry_out_tree [OF assms(1) Cons.prems(1)] Cons.prems(2) by auto
  have fits: "\<forall>b \<in> set acts. fits len (shared_tree n1) b" if "clean stats1"
  proof
    fix b assume b: "b \<in> set acts"
    then have "fits len (shared_tree n) b" using Cons.prems(2) by simp
    moreover have "shared_tree n1 (path v) = shared_tree n (path v)" if "b = AMerge v" for v
      using Cons.prems(3) b that step [OF \<open>clean stats1\<close>] by (simp add: apply_action_outside)
    ultimately show "fits len (shared_tree n1) b" by (cases b) (simp_all add: fits_def Let_def)
  qed
  have "clean stats1"
    using rest Cons.prems(5) proof (induction acts arbitrary: stats1 n1)
    case (Cons b acts)
    then show ?case
      by (cases "plan_step env b (Some (stats1, n1))") (auto simp: plan_steps_stuck dest: plan_step_clean)
  qed simp
  moreover have "sorted_wrt (\<lambda>a b. \<forall>v. b = AMerge v \<longrightarrow> path v \<notin> footprint a) acts" using Cons.prems(3) by simp
  ultimately show ?case
    using Cons.IH [OF _ _ _ rest Cons.prems(5)] step fits plan_step_clean [OF one] by (simp add: apply_actions_Cons)
qed

subsection \<open>The plan of two lists\<close>

lemma reconcile_fits:
  assumes "node_ok len n" and "\<And>v. v \<in> set remote \<Longrightarrow> sized len v \<and> area v = Shared"
    and "reconcile (engine_tree n) remote = Some acts" and "renames_fresh (shared_tree n) (bm_get (by_path remote)) acts"
    and "a \<in> set acts"
  shows "fits len (shared_tree n) a"
proof -
  have tree: "bm_get (by_path (engine_tree n)) = shared_tree n"
    using assms(1) by (intro engine_tree_by_path) (simp add: node_ok_def n_index_store)
  obtain p as where p: "path_action (by_path (engine_tree n)) (by_path remote) p = Some as" "a \<in> set as" "action_path a = p"
    using reconcile_from [OF assms(3,5)] by blast
  have local: "path l = p \<and> sized len l \<and> area l = Shared" if "shared_tree n p = Some l" for l
    using by_path_get [of "engine_tree n" p l] that engine_tree_sized [OF assms(1)] by (simp add: tree)
  have other: "path r = p \<and> sized len r \<and> area r = Shared" if "bm_get (by_path remote) p = Some r" for r
    using by_path_get [OF that] assms(2) by blast
  show ?thesis
  proof (cases "shared_tree n p")
    case None
    then obtain r where r: "bm_get (by_path remote) p = Some r" and "a = Adopt r"
      using p by (auto simp: path_action_def tree split: option.splits)
    then show ?thesis using other [OF r] by (simp add: fits_def)
  next
    case l: (Some l)
    show ?thesis
    proof (cases "bm_get (by_path remote) p")
      case None
      then show ?thesis using p l by (auto simp: path_action_def tree fits_def)
    next
      case r: (Some r)
      then have "resolve_action l r = Some as" using p(1) l by (simp add: path_action_def tree)
      then obtain res where res: "resolve l r = Some res" by (auto simp: resolve_action_def)
      note as = \<open>resolve_action l r = Some as\<close> [unfolded resolve_action_def res option.map option.inject, symmetric]
      show ?thesis
      proof (cases "outcome res")
        case Merge
        then show ?thesis
          using p(2) as l local [OF l] other [OF r] resolve_Merge_content [OF res Merge]
          by (auto simp: fits_def Let_def)
      next
        case (Conflict s name)
        then obtain k v where a: "a = AConflict k v" "path v = name" using p(2) as by (cases s) auto
        then have "shared_tree n (path v) = None" using assms(4,5) by (auto simp: renames_fresh_def)
        then have "name \<noteq> p" using l a(2) by auto
        then show ?thesis
          using p(2) as Conflict local [OF l] other [OF r] by (cases s) (auto simp: fits_def sized_def)
      next
        case (Resurrect s)
        then show ?thesis
          using p(2) as local [OF l] other [OF r] by (cases s) (auto simp: fits_def sized_def)
      qed (use p(2) as other [OF r] in \<open>auto simp: fits_def\<close>)
    qed
  qed
qed

lemma reconcile_footprints:
  assumes "reconcile local remote = Some acts" and "renames_fresh (bm_get (by_path local)) (bm_get (by_path remote)) acts"
    and "a \<in> set acts" and "b \<in> set acts" and "a \<noteq> b" and "\<And>k v. b \<noteq> AConflict k v"
  shows "action_path b \<notin> footprint a"
proof -
  have sorted: "sorted_wrt (<) (map action_path acts)" using reconcile_orders_by_path [OF assms(1)] by simp
  then have "distinct (map action_path acts)" by (simp add: strict_sorted_iff)
  then have ne: "action_path a \<noteq> action_path b" using assms(3-5) by (auto simp: distinct_map inj_on_def)
  obtain as where "path_action (by_path local) (by_path remote) (action_path b) = Some as" "b \<in> set as"
    using reconcile_from [OF assms(1,4)] by blast
  then have "bm_get (by_path local) (action_path b) \<noteq> None \<or> bm_get (by_path remote) (action_path b) \<noteq> None"
    by (auto simp: path_action_def split: option.splits)
  moreover have "bm_get (by_path local) (path v) = None \<and> bm_get (by_path remote) (path v) = None" if "a = AConflict k v" for k v
    using assms(2,3) that by (auto simp: renames_fresh_def)
  ultimately show ?thesis using ne by (cases a) (auto simp: footprint_def)
qed

lemma distinct_sorted_wrt: "distinct xs \<Longrightarrow> sorted_wrt (\<noteq>) xs"
  by (induction xs) auto

lemma apply_plan_tree:
  assumes "env_ok len env" and "node_ok len n" and "\<And>p. role_wants (e_role (n_engine n)) p"
    and "\<And>v. v \<in> set remote \<Longrightarrow> sized len v \<and> area v = Shared"
    and "reconcile (engine_tree n) remote = Some acts" and "renames_fresh (shared_tree n) (bm_get (by_path remote)) acts"
    and "apply_plan env acts n = Some (stats, n')" and "clean stats"
  shows "shared_tree n' = apply_actions (shared_tree n) acts \<and> node_ok len n'"
proof -
  let ?sorted = "sort_key removals_last acts"
  have tree: "bm_get (by_path (engine_tree n)) = shared_tree n"
    using assms(2) by (intro engine_tree_by_path) (simp add: node_ok_def n_index_store)
  note apart = reconcile_footprints [OF assms(5) assms(6) [folded tree]]
  have ordered: "ordered_plan (e_role (n_engine n)) acts = ?sorted" by (simp add: ordered_plan_def assms(3))
  obtain s1 s2 where run: "fold (plan_step env) ?sorted (Some (s1, n)) = Some (s2, n')" and s2: "clean s2"
    using assms(7,8) by (auto simp: apply_plan_def Let_def ordered clean_def)
  have "distinct (map action_path acts)"
    using reconcile_orders_by_path [OF assms(5)] by (simp add: strict_sorted_iff)
  then have "sorted_wrt (\<noteq>) ?sorted" by (intro distinct_sorted_wrt) (simp add: distinct_map)
  then have "sorted_wrt (\<lambda>a b. \<forall>v. b = AMerge v \<longrightarrow> path v \<notin> footprint a) ?sorted"
    by (rule sorted_wrt_mono_rel [rotated]) (use apart in \<open>fastforce\<close>)
  then have run_tree: "shared_tree n' = apply_actions (shared_tree n) ?sorted \<and> node_ok len n'"
    using plan_steps_tree [OF assms(1,2) _ _ run s2] reconcile_fits [OF assms(2,4,5,6)] by simp
  have "footprint x \<inter> footprint y = {}" if "x \<in> set acts" "y \<in> set acts" "removals_last y < removals_last x" for x y
  proof -
    have x: "(\<exists>v. x = Adopt v) \<or> (\<exists>d v. x = AHold d v)" using that(3) by (cases x) (auto simp: removals_last_def)
    moreover have "x \<noteq> y" using that(3) by auto
    ultimately have "action_path x \<notin> footprint y" using apart [OF that(2,1)] by auto
    then show ?thesis using x by (auto simp: footprint_def)
  qed
  then show ?thesis using run_tree apply_actions_sorted [of acts removals_last] by simp
qed

subsection \<open>Two devices\<close>

definition takes_everything :: "node \<Rightarrow> file_version list \<Rightarrow> device_id \<Rightarrow> bool" where
  \<comment> \<open>nothing stands between the list of a person's own device and the shared area: it is on, no
    rule covers a folder, nothing freed is asked back, and the role takes every path\<close>
  "takes_everything n remote p \<longleftrightarrow> n_shared_area n \<and> rule_map (shares (db_of n)) = []
     \<and> list_all (\<lambda>v. \<not> is_rule_path (path v) \<and> area v = Shared) remote \<and> wanted_paths (n_index n) = []
     \<and> relation_of (db_of n) p \<notin> {Some Guest, Some Host} \<and> (\<forall>q. role_wants (e_role (n_engine n)) q)"

lemma takes_everything_plan:
  assumes "takes_everything n remote p"
  shows "plan_with n remote (Some p) = reconcile (engine_tree n) remote"
proof -
  have shared: "area v = Shared" if "v \<in> set remote" for v using assms that by (auto simp: takes_everything_def list_all_iff)
  then have areas: "filter (\<lambda>v. area v = Shared) remote = remote" "filter (\<lambda>v. area v = Sent) remote = []"
    by (auto simp: filter_empty_conv filter_id_conv)
  have none: "deliveries n [] = []" by (simp add: deliveries_def)
  have "taken_by_rules n remote (Some p) = remote"
    using assms by (auto simp: takes_everything_def taken_by_rules_def list_all_iff list_ex_iff)
  moreover have "plan_with n remote (Some p) = plan_ours n remote (Some p)"
    using assms by (cases "relation_of (db_of n) p") (auto simp: takes_everything_def plan_with_def is_other_person_def intro: relation.exhaust)
  moreover have "holding n remote p = []" "own_restored n remote = []" "own_wanted n remote = []"
    using shared by (auto simp: holding_def own_restored_def own_wanted_def Let_def filter_empty_conv)
  ultimately show ?thesis
    using assms by (simp add: plan_ours_def plan_against_def Let_def areas none wanted_actions_def
        takes_everything_def option.map_ident)
qed

lemma mirror_conflict: "AConflict k v = mirror_action x \<longleftrightarrow> x = AConflict k v"
  by (cases x) auto

text \<open>C1: Two devices of a person settle in one exchange, where nothing stands between them: the
  shared area is on, no folder has a sharing rule, nothing freed is asked back and both roles take every path
  (\<open>takes_everything\<close>); where one author recorded one content of a path on both sides, it did so at
  one time and in one area (\<open>trees_comparable\<close>); one vector names one version of a path; and no
  conflict copy's name is taken.
  Each plans against the list the other has of its shared area and carries its whole plan out, every
  file fetched, read, written and indexed and removals put last. When both runs end without a failure
  or a file left for later, the two shared areas are the same, every path either had is still
  accounted for, and comparing the two lists again (\<open>reconcile\<close>) plans nothing. Without the
  condition on authors the two areas can end apart (\<open>merge_by_one_author_differs\<close>), and a file asked
  back can undo an edit (\<open>wanted_file_goes_back\<close>).\<close>

theorem two_devices_converge:
  assumes "env_ok len ea" and "env_ok len eb" and "node_ok len a" and "node_ok len b"
    and "takes_everything a (engine_tree b) (me (n_index b))" and "takes_everything b (engine_tree a) (me (n_index a))"
    and "trees_comparable (engine_tree a) (engine_tree b)"
    and "\<forall>v \<in> set (engine_tree a). \<forall>w \<in> set (engine_tree b). vector_names_version v w"
    and "plan_with a (engine_tree b) (Some (me (n_index b))) = Some pa"
    and "plan_with b (engine_tree a) (Some (me (n_index a))) = Some pb"
    and "renames_fresh (shared_tree a) (shared_tree b) pa"
    and "apply_plan ea pa a = Some (sa, a')" and "clean sa" and "apply_plan eb pb b = Some (sb, b')" and "clean sb"
  shows "shared_tree a' = shared_tree b' \<and> node_ok len a' \<and> node_ok len b'
    \<and> (\<forall>p. shared_tree a p \<noteq> None \<or> shared_tree b p \<noteq> None \<longrightarrow> shared_tree a' p \<noteq> None)
    \<and> reconcile (engine_tree a') (engine_tree b') = Some []"
proof -
  have ok: "index_ok (n_index n)" if "node_ok len n" for n using that by (simp add: node_ok_def n_index_store)
  note trees = engine_tree_by_path [OF ok [OF assms(3)]] engine_tree_by_path [OF ok [OF assms(4)]]
  note pa = assms(9) [unfolded takes_everything_plan [OF assms(5)]]
  have pb: "pb = map mirror_action pa"
    using assms(10) reconcile_mirror [OF assms(7)] pa by (simp add: takes_everything_plan [OF assms(6)])
  have fresh: "renames_fresh (shared_tree b) (shared_tree a) pb"
    using assms(11) by (simp add: pb renames_fresh_def image_iff mirror_conflict)
  have a': "shared_tree a' = apply_actions (shared_tree a) pa \<and> node_ok len a'"
    using assms(5) by (intro apply_plan_tree [OF assms(1,3) _ engine_tree_sized [OF assms(4)] pa _ assms(12,13)])
      (auto simp: trees takes_everything_def assms(11))
  have b': "shared_tree b' = apply_actions (shared_tree b) pb \<and> node_ok len b'"
    using assms(6,10) fresh by (intro apply_plan_tree [OF assms(2,4) _ engine_tree_sized [OF assms(3)] _ _ assms(14,15)])
      (auto simp: trees takes_everything_def takes_everything_plan [OF assms(6)])
  have same: "apply_actions (shared_tree a) pa = apply_actions (shared_tree b) pb"
    using reconcile_settles [OF pa assms(7,8)] assms(11) by (simp add: trees pb)
  have kept: "apply_action t x p \<noteq> None" if "t p \<noteq> None" for t x p using that by (cases x) auto
  then have "apply_actions t acts p \<noteq> None" if "t p \<noteq> None" for t acts p
    using that by (induction acts arbitrary: t) (auto simp: apply_actions_def)
  then show ?thesis using a' b' same equal_trees_settled [OF ok ok] by metis
qed

subsection \<open>A laptop and a phone\<close>

lemma live_sizes_files:
  "list_all (\<lambda>f. f_deleted f = None \<longrightarrow> word_of_nat (f_size f) = len (f_hash f)) (files ix) \<Longrightarrow> live_sizes len ix"
  using row_at_SomeD by (fastforce simp: live_sizes_def list_all_iff)

lemma renames_fresh_list:
  "renames_fresh l r acts \<longleftrightarrow> list_all (\<lambda>a. case a of AConflict k n \<Rightarrow> l (path n) = None \<and> r (path n) = None | _ \<Rightarrow> True) acts"
  by (auto simp: renames_fresh_def list_all_iff split: action.splits)

definition node_of :: "store \<Rightarrow> node" where
  "node_of st = (let n = visited_laptop (Rules []) Own in n\<lparr>n_engine := (n_engine n)\<lparr>e_store := st\<rparr>\<rparr>)"

definition edited_laptop :: node where
  "edited_laptop = node_of (snd (store_put_bytes length (\<lambda>b. b) whole_file 100 ''a'' [1] 0 (store_new laptop (Some [''a'' \<mapsto> [1]]))))"

definition edited_phone :: node where
  "edited_phone = node_of (snd (store_put_bytes length (\<lambda>b. b) whole_file 90 ''b'' [3, 3] 0
     (snd (store_put_bytes length (\<lambda>b. b) whole_file 90 ''a'' [2] 0 (store_new phone (Some [''a'' \<mapsto> [2], ''b'' \<mapsto> [3, 3]]))))))"

lemma edited_ok: "node_ok (word_of_nat \<circ> length) edited_laptop" "node_ok (word_of_nat \<circ> length) edited_phone"
proof -
  have "live_sizes (word_of_nat \<circ> length) (n_index edited_laptop)" "live_sizes (word_of_nat \<circ> length) (n_index edited_phone)"
    by (rule live_sizes_files, code_simp)+
  then show "node_ok (word_of_nat \<circ> length) edited_laptop" "node_ok (word_of_nat \<circ> length) edited_phone"
    by (simp_all add: node_ok_def edited_laptop_def edited_phone_def node_of_def Let_def the_store_def store_put_bytes_def
        store_ok_put store_new_def)
qed

lemma edited_open:
  "takes_everything edited_laptop (engine_tree edited_phone) phone"
  "takes_everything edited_phone (engine_tree edited_laptop) laptop"
proof -
  have roles: "e_role (n_engine edited_laptop) = Syncing" "e_role (n_engine edited_phone) = Syncing" by code_simp+
  have "n_shared_area edited_laptop \<and> rule_map (shares (db_of edited_laptop)) = []
      \<and> list_all (\<lambda>v. \<not> is_rule_path (path v) \<and> area v = Shared) (engine_tree edited_phone) \<and> wanted_paths (n_index edited_laptop) = []
      \<and> relation_of (db_of edited_laptop) phone \<notin> {Some Guest, Some Host}"
    "n_shared_area edited_phone \<and> rule_map (shares (db_of edited_phone)) = []
      \<and> list_all (\<lambda>v. \<not> is_rule_path (path v) \<and> area v = Shared) (engine_tree edited_laptop) \<and> wanted_paths (n_index edited_phone) = []
      \<and> relation_of (db_of edited_phone) laptop \<notin> {Some Guest, Some Host}"
    by code_simp+
  then show "takes_everything edited_laptop (engine_tree edited_phone) phone"
    "takes_everything edited_phone (engine_tree edited_laptop) laptop"
    by (simp_all add: takes_everything_def roles role_wants_def)
qed

lemma edited_phone_b: "shared_tree edited_phone ''b'' \<noteq> None"
  by code_simp

theorem two_devices_converge_witness:
  "\<exists>pa pb sa sb a' b'. plan_with edited_laptop (engine_tree edited_phone) (Some phone) = Some pa
     \<and> plan_with edited_phone (engine_tree edited_laptop) (Some laptop) = Some pb
     \<and> apply_plan open_env pa edited_laptop = Some (sa, a') \<and> apply_plan open_env pb edited_phone = Some (sb, b')
     \<and> shared_tree a' = shared_tree b' \<and> shared_tree a' ''b'' \<noteq> None \<and> ps_conflicts sa = 1"
proof -
  have me: "me (n_index edited_laptop) = laptop" "me (n_index edited_phone) = phone" by code_simp+
  have "case plan_with edited_laptop (engine_tree edited_phone) (Some phone) of None \<Rightarrow> False
    | Some p \<Rightarrow> renames_fresh (shared_tree edited_laptop) (shared_tree edited_phone) p
        \<and> (case apply_plan open_env p edited_laptop of None \<Rightarrow> False | Some (s, _) \<Rightarrow> clean s \<and> ps_conflicts s = 1)"
    unfolding renames_fresh_list by code_simp
  then obtain pa sa a' where a: "plan_with edited_laptop (engine_tree edited_phone) (Some phone) = Some pa"
      "renames_fresh (shared_tree edited_laptop) (shared_tree edited_phone) pa"
      "apply_plan open_env pa edited_laptop = Some (sa, a')" "clean sa" "ps_conflicts sa = 1"
    by (auto split: option.splits)
  have "case plan_with edited_phone (engine_tree edited_laptop) (Some laptop) of None \<Rightarrow> False
    | Some p \<Rightarrow> (case apply_plan open_env p edited_phone of None \<Rightarrow> False | Some (s, _) \<Rightarrow> clean s)"
    by code_simp
  then obtain pb sb b' where b: "plan_with edited_phone (engine_tree edited_laptop) (Some laptop) = Some pb"
      "apply_plan open_env pb edited_phone = Some (sb, b')" "clean sb"
    by (auto split: option.splits)
  have "trees_comparable (engine_tree edited_laptop) (engine_tree edited_phone)"
    "\<forall>v \<in> set (engine_tree edited_laptop). \<forall>w \<in> set (engine_tree edited_phone). vector_names_version v w" by code_simp+
  then have "shared_tree a' = shared_tree b' \<and> shared_tree a' ''b'' \<noteq> None"
    using two_devices_converge [OF open_env_ok open_env_ok edited_ok, unfolded me, OF edited_open _ _ a(1) b(1) a(2,3,4) b(2,3)]
      edited_phone_b by metis
  then show ?thesis using a b by blast
qed

subsection \<open>A file asked back that has changed meanwhile\<close>

text \<open>
  The report was freed on the laptop and asked back; meanwhile the phone has a newer version of it,
  and still the old bytes, under another name.
\<close>

definition asked_back :: node where
  "asked_back = (let st = projr (evict ''r'' with_copy) in node_of (st\<lparr>s_index := want ''r'' (s_index st)\<rparr>))"

definition newer_report :: file_version where
  "newer_report = \<lparr>path = ''r'', content = File [9] 1, vector = VersionVector [(laptop, 1), (phone, 1)],
     modified_by = phone, modified_at = 150, area = Shared\<rparr>"

definition asked_plan :: "action list" where
  "asked_plan = [Adopt newer_report, Adopt (newer_report\<lparr>content := File report 3, vector := VersionVector [(laptop, 1)], modified_by := laptop, modified_at := 100\<rparr>)]"

text \<open>The plan takes the phone's version and then the one the laptop asked for, which is the old one:
  the run ends without a failure with the old version back in the shared area and in the folder,
  and the phone told that the newer one, which no row of the laptop names any more, was received.\<close>

lemma wanted_file_is_planned_twice: "plan_with asked_back [newer_report] (Some phone) = Some asked_plan"
  by code_simp

lemma wanted_file_goes_back:
  "case apply_plan open_env asked_plan asked_back of
     None \<Rightarrow> False
   | Some (stats, n) \<Rightarrow> ps_failures stats = [] \<and> on_disk n ''r'' = Some report
       \<and> map_option vector (shared_tree n ''r'') = Some (VersionVector [(laptop, 1)])
       \<and> ps_told stats = [Coming [([9], 1), (report, 3)], Received [9], Received report, Finished]
       \<and> list_all (\<lambda>f. f_hash f \<noteq> [9]) (files (n_index n))"
  by code_simp

end
