(* ===== verification/Trash.thy ===== *)
theory Trash imports Apply
begin

section \<open>Recently deleted (\<open>crates/storage/src/store.rs\<close>)\<close>

text \<open>
  What the person does to files here: deleting into Recently deleted, putting back, emptying. The
  file under \<open>trash\<close> an entry names is the map \<open>n_trash_files\<close> at its id. Looking for a free name
  is a search without an end of its own, so what rests on it is None where it does not return.
\<close>

datatype refusal =
    Refused string \<comment> \<open>\<open>Error::Sharing\<close>\<close>
  | Missing string
  | NotHere string
  | NotAConflict string
  | CannotMove string
  | InIndex store_error

record desk =
  d_codec :: codec
  d_now :: int
  d_now_ns :: int
  d_mtime :: "string \<Rightarrow> int" \<comment> \<open>the modification time of the file at a path\<close>

subsection \<open>The list\<close>

definition trash_list :: "node \<Rightarrow> trashed list" where
  \<comment> \<open>most recently deleted first\<close>
  "trash_list n = rev (sort_key (\<lambda>e. (tr_at e, tr_id e)) (n_trash n))"

definition recently_deleted :: "node \<Rightarrow> trashed list" where
  "recently_deleted n = filter (\<lambda>e. \<not> is_rule_path (tr_path e)) (trash_list n)"

definition trash_before :: "int \<Rightarrow> node \<Rightarrow> trashed list" where
  "trash_before cutoff n = filter (\<lambda>e. tr_at e < cutoff) (trash_list n)"

definition trash_entry :: "nat \<Rightarrow> node \<Rightarrow> trashed option" where
  "trash_entry i n = find (\<lambda>e. tr_id e = i) (n_trash n)"

definition remove_trash :: "nat \<Rightarrow> node \<Rightarrow> node" where
  "remove_trash i n = n\<lparr>n_trash := filter (\<lambda>e. tr_id e \<noteq> i) (n_trash n)\<rparr>"

subsection \<open>Deleting\<close>

definition delete_to_trash_by :: "desk \<Rightarrow> string \<Rightarrow> string option \<Rightarrow> device_id \<Rightarrow> node \<Rightarrow> (refusal + nat option) \<times> node" where
  "delete_to_trash_by env p why by_device n =
     (case folder_row (n_index n) p of
        None \<Rightarrow> (Inl (Missing p), n)
      | Some (row, scope) \<Rightarrow>
          (let entry = \<lparr>tr_id = 0, tr_path = p, tr_scope = scope, tr_content = f_hash row, tr_size = 0,
                 tr_at = d_now env, tr_by = Some by_device, tr_why = why\<rparr>;
               (i, n) = (if s_tree (the_store n) = None then (None, n) else move_to_trash p entry n);
               (i, n) = (case i of
                   Some i \<Rightarrow> (Some i, n)
                 | None \<Rightarrow>
                     if s_tree (the_store n) \<noteq> None \<and> scope = Some (me (n_index n))
                     then (case add_trash entry n of (i, n) \<Rightarrow> (Some i, n)) else (None, n))
           in case delete_file (d_now env) p (the_store n) of
                Inl e \<Rightarrow> (Inl (InIndex e), n)
              | Inr st \<Rightarrow> (Inr i, on_store (\<lambda>_. st) n)))"

definition delete_to_trash :: "desk \<Rightarrow> string \<Rightarrow> string option \<Rightarrow> node \<Rightarrow> (refusal + nat option) \<times> node" where
  "delete_to_trash env p why n = delete_to_trash_by env p why (me (n_index n)) n"

subsection \<open>A free name\<close>

definition name_taken :: "node \<Rightarrow> string \<Rightarrow> bool" where
  "name_taken n p \<longleftrightarrow> folder_row (n_index n) p \<noteq> None \<or> on_disk n p \<noteq> None"

definition stem_ext :: "string \<Rightarrow> string \<times> string" where
  \<comment> \<open>\<open>name.get(1..).and_then(|rest| rest.rfind('.'))\<close>\<close>
  "stem_ext name =
     (case Option.bind (str_from name 1) (\<lambda>rest. rfind rest ''.'') of
        Some i \<Rightarrow> (take (i + 1) name, drop (i + 1) name)
      | None \<Rightarrow> (name, ''''))"

definition labelled :: "string \<Rightarrow> string \<Rightarrow> nat \<Rightarrow> string" where
  "labelled p label k =
     (case split_dir p of (dir, name) \<Rightarrow> case stem_ext name of (stem, ext) \<Rightarrow>
        dir @ stem @ '' ('' @ (if k = 1 then label else label @ '' '' @ show_nat k) @ '')'' @ ext)"

partial_function (option) first_free :: "(string \<Rightarrow> bool) \<Rightarrow> (nat \<Rightarrow> string) \<Rightarrow> nat \<Rightarrow> string option" where
  "first_free taken name k = (if taken (name k) then first_free taken name (Suc k) else Some (name k))"

declare first_free.simps [code]

definition free_path_near :: "node \<Rightarrow> string \<Rightarrow> string option" where
  "free_path_near n p =
     (if \<not> name_taken n p then Some p else first_free (name_taken n) (labelled p ''restored'') 1)"

fun label_chars :: "string \<Rightarrow> string" where
  \<comment> \<open>without separators and control characters, which are one byte, or two from \<open>0xC2\<close> on\<close>
  "label_chars [] = []"
| "label_chars (c # s) =
     (if c = CHR ''/'' \<or> c = CHR 0x5C \<or> of_char c < (32 :: nat) \<or> of_char c = (127 :: nat) then label_chars s
      else case s of
        [] \<Rightarrow> [c]
      | d # t \<Rightarrow>
          if of_char c = (0xC2 :: nat) \<and> of_char d \<in> {0x80 :: nat..0x9F} then label_chars t
          else c # label_chars s)"

definition free_path_labelled :: "node \<Rightarrow> string \<Rightarrow> string \<Rightarrow> string option" where
  "free_path_labelled n p label =
     (let label = label_chars label; label = (if trim label = [] then ''other version'' else label)
      in first_free (name_taken n) (labelled p label) 1)"

subsection \<open>Putting back\<close>

definition put_file_in :: "desk \<Rightarrow> string \<Rightarrow> device_id option \<Rightarrow> node \<Rightarrow> (refusal + put_stats) \<times> node" where
  \<comment> \<open>a file of the folder as a change made here, in the area given\<close>
  "put_file_in env p scope n =
     (if scope \<notin> {None, Some (me (n_index n))}
      then (Inl (Refused ''another device's vault is not written through this device's folder''), n)
      else
        (let retire = (case folder_row (n_index n) p of
               Some (_, current) \<Rightarrow> if current \<noteq> scope then tombstone_row (d_now env) p LocalStamp current else (\<lambda>st. st)
             | None \<Rightarrow> (\<lambda>st. st));
             n = on_store retire n
         in case on_disk n p of
              None \<Rightarrow> (Inl (CannotMove p), n)
            | Some data \<Rightarrow>
                (let k = d_codec env; st = the_store n;
                     (stats, st') = put_file (k_sealed k) (k_hash k) (k_cdc k) (d_now env) (d_now_ns env) p data (d_mtime env p)
                       (st\<lparr>s_new_private := scope \<noteq> None\<rparr>)
                 in (Inr stats, on_store (\<lambda>_. st'\<lparr>s_new_private := s_new_private st\<rparr>) n))))"

definition put_listed :: "desk \<Rightarrow> string \<Rightarrow> file_row \<Rightarrow> manifest \<Rightarrow> node \<Rightarrow> node" where
  \<comment> \<open>a version of this device's vault pointing at chunks listed already, its bytes elsewhere\<close>
  "put_listed env p row m n =
     on_store (\<lambda>st.
       let st = snd (put_manifest (k_sealed (d_codec env)) (d_now env) p m [] (f_mtime row)
             (pl_local\<lparr>pl_vault := Some (me (n_index n)), pl_by_reference := True\<rparr>) st)
       in st\<lparr>s_index := set_materialised p False (s_index st)\<rparr>) n"

definition restore_freed :: "desk \<Rightarrow> trashed \<Rightarrow> node \<Rightarrow> ((refusal + string) \<times> node) option" where
  "restore_freed env entry n =
     (case deleted_row_in (n_index n) (tr_path entry) (me (n_index n)) (tr_content entry) of
        None \<Rightarrow> Some (Inl (NotHere (tr_path entry)), n)
      | Some row \<Rightarrow>
          (case listed_manifest (n_index n) row of
             None \<Rightarrow> Some (Inl (NotHere (tr_path entry)), n)
           | Some m \<Rightarrow>
               map_option (\<lambda>target. (Inr target, put_listed env target row m n))
                 (free_path_near n
                   (if starts_with (tr_path entry) ''.qurb-outside/'' then last (split_on CHR ''/'' (tr_path entry)) else tr_path entry))))"

definition restore_held :: "desk \<Rightarrow> trashed \<Rightarrow> device_id \<Rightarrow> node \<Rightarrow> (refusal + string) \<times> node" where
  "restore_held env entry owner n =
     (let p = tr_path entry; ix = n_index n
      in if live_row_in ix p (Some owner) \<noteq> None then (Inl (Refused p), n)
         else case deleted_row_in ix p owner (tr_content entry) of
           None \<Rightarrow> (Inl (NotHere p), n)
         | Some row \<Rightarrow>
             (case listed_manifest ix row of
                None \<Rightarrow> (Inl (NotHere p), n)
              | Some m \<Rightarrow>
                  if \<not> list_all (\<lambda>c. s_cas (the_store n) (ref_hash c) \<noteq> None) (m_chunks m) then (Inl (NotHere p), n)
                  else
                    (let version = file_of p (f_hash row) (word_of_nat (f_size row)) (increment (f_vector row) (me ix))
                           (me ix) (word_of_int (d_now env))
                     in (Inr p, on_store (\<lambda>st. snd (put_manifest (k_sealed (d_codec env)) (d_now env) p m [] (f_mtime row)
                          ((pl_remote version)\<lparr>pl_vault := Some owner, pl_held := True\<rparr>) st)) n))))"

definition restore_file_kept :: "desk \<Rightarrow> trashed \<Rightarrow> bytes \<Rightarrow> node \<Rightarrow> ((refusal + string) \<times> node) option" where
  \<comment> \<open>the file under \<open>trash\<close> moved back, to a name that is free\<close>
  "restore_file_kept env entry data n =
     map_option (\<lambda>target.
       let n = put_on_disk target (Some data) (n\<lparr>n_trash_files := (n_trash_files n)(tr_id entry := None)\<rparr>)
       in case put_file_in env target (if tr_scope entry = Some (me (n_index n)) then tr_scope entry else None) n of
            (Inl e, n) \<Rightarrow> (Inl e, n)
          | (Inr _, n) \<Rightarrow> (Inr target, n))
       (free_path_near n (tr_path entry))"

definition restore_from_trash :: "desk \<Rightarrow> nat \<Rightarrow> node \<Rightarrow> ((refusal + string) \<times> node) option" where
  "restore_from_trash env i n =
     (if s_tree (the_store n) = None then Some (Inl (Missing ''a replica has no folder''), n)
      else case trash_entry i n of
        None \<Rightarrow> Some (Inl (Missing ''trash''), n)
      | Some entry \<Rightarrow>
          if is_rule_path (tr_path entry) then Some (Inl (Refused (tr_path entry)), n)
          else map_option (\<lambda>(r, n). case r of Inl e \<Rightarrow> (Inl e, n) | Inr target \<Rightarrow> (Inr target, remove_trash i n))
            (case (n_trash_files n i, tr_scope entry) of
               (None, Some owner) \<Rightarrow>
                 (if owner = me (n_index n) then restore_freed env entry n else Some (restore_held env entry owner n))
             | (None, None) \<Rightarrow> map_option (\<lambda>_. (Inl (CannotMove (tr_path entry)), n)) (free_path_near n (tr_path entry))
             | (Some data, _) \<Rightarrow> restore_file_kept env entry data n))"

subsection \<open>Emptying\<close>

definition forget_deleted :: "desk \<Rightarrow> nat \<Rightarrow> node \<Rightarrow> node" where
  "forget_deleted env i n =
     (let n = n\<lparr>n_trash_files := (n_trash_files n)(i := None)\<rparr>;
          n = (case trash_entry i n of
                 None \<Rightarrow> n
               | Some entry \<Rightarrow>
                   (case tr_scope entry of
                      None \<Rightarrow> n
                    | Some owner \<Rightarrow>
                        if owner = me (n_index n) then n
                        else case deleted_row_in (n_index n) (tr_path entry) owner (tr_content entry) of
                          None \<Rightarrow> n
                        | Some row \<Rightarrow> on_store (\<lambda>st. st\<lparr>s_index := forget_row (d_now env) (f_id row) (s_index st)\<rparr>) n))
      in remove_trash i n)"

definition empty_trash :: "desk \<Rightarrow> nat \<Rightarrow> node \<Rightarrow> (nat \<times> nat) \<times> node" where
  "empty_trash env retention n =
     (let old = (if retention = 0 then trash_list n else trash_before (d_now env - int retention) n)
      in fold (\<lambda>e ((files, bytes), n). ((files + 1, bytes + tr_size e), forget_deleted env (tr_id e) n)) old ((0, 0), n))"

definition empty_trash_step :: "desk \<Rightarrow> nat \<Rightarrow> trashed \<Rightarrow> nat \<times> node \<Rightarrow> nat \<times> node" where
  "empty_trash_step env bytes e = (\<lambda>(freed, n).
     if freed \<ge> bytes \<or> tr_size e = 0 then (freed, n)
     else (freed + tr_size e, forget_deleted env (tr_id e) n))"

definition empty_trash_by :: "desk \<Rightarrow> nat \<Rightarrow> node \<Rightarrow> nat \<times> node" where
  \<comment> \<open>oldest first, until enough is freed\<close>
  "empty_trash_by env bytes n = fold (empty_trash_step env bytes) (rev (trash_list n)) (0, n)"

subsection \<open>The search for a name ends\<close>

lemma first_free_next: "taken (name k) \<Longrightarrow> first_free taken name k = first_free taken name (Suc k)"
  by (subst first_free.simps) simp

lemma first_free_skips: "\<forall>j < d. taken (name (k + j)) \<Longrightarrow> first_free taken name k = first_free taken name (k + d)"
  by (induction d) (auto simp: first_free_next)

lemma first_free_finds:
  assumes "finite {q. taken q}" and "inj_on name {k..}"
  shows "\<exists>d. first_free taken name k = Some (name (k + d)) \<and> \<not> taken (name (k + d)) \<and> d \<le> card {q. taken q}"
proof -
  have "\<exists>d \<le> card {q. taken q}. \<not> taken (name (k + d))"
  proof (rule ccontr)
    assume "\<not> ?thesis"
    then have sub: "name ` {k..k + card {q. taken q}} \<subseteq> {q. taken q}"
      by (auto simp: image_subset_iff) (metis add_le_cancel_left le_iff_add)
    have "inj_on name {k..k + card {q. taken q}}" using assms(2) by (rule inj_on_subset) auto
    then have "card (name ` {k..k + card {q. taken q}}) = Suc (card {q. taken q})" by (simp add: card_image)
    then show False using card_mono [OF assms(1) sub] by simp
  qed
  then obtain d where d: "\<not> taken (name (k + d))" "\<forall>j < d. taken (name (k + j))" "d \<le> card {q. taken q}"
    using exists_least_iff [of "\<lambda>d. \<not> taken (name (k + d))"] by (metis le_trans not_less)
  have "first_free taken name k = first_free taken name (k + d)" by (rule first_free_skips) (use d in simp)
  also have "\<dots> = Some (name (k + d))" using d(1) by (subst first_free.simps) simp
  finally show ?thesis using d by blast
qed

lemma show_nat_last: "\<exists>s. show_nat n = s @ [char_of (48 + n mod 10)] \<and> (n < 10 \<longleftrightarrow> s = []) \<and> (n \<ge> 10 \<longrightarrow> s = show_nat (n div 10))"
proof (cases "n < 10")
  case True
  then show ?thesis by (subst show_nat.simps) simp
next
  case False
  have "show_nat (n div 10) \<noteq> []" by (subst show_nat.simps) simp
  then show ?thesis using False by (subst (1) show_nat.simps) auto
qed

lemma show_nat_inj: "show_nat m = show_nat n \<Longrightarrow> m = n"
proof (induction m arbitrary: n rule: less_induct)
  case (less m)
  obtain s where s: "show_nat m = s @ [char_of (48 + m mod 10)]" "m < 10 \<longleftrightarrow> s = []" "m \<ge> 10 \<longrightarrow> s = show_nat (m div 10)"
    using show_nat_last [of m] by blast
  obtain t where t: "show_nat n = t @ [char_of (48 + n mod 10)]" "n < 10 \<longleftrightarrow> t = []" "n \<ge> 10 \<longrightarrow> t = show_nat (n div 10)"
    using show_nat_last [of n] by blast
  have "s = t" and "char_of (48 + m mod 10) = (char_of (48 + n mod 10) :: char)" using less.prems s(1) t(1) by simp_all
  moreover from this(2) have "of_char (char_of (48 + m mod 10) :: char) = (of_char (char_of (48 + n mod 10) :: char) :: nat)"
    by simp
  ultimately have digit: "m mod 10 = n mod 10" by simp
  show ?case
  proof (cases "m < 10")
    case True
    then show ?thesis using digit \<open>s = t\<close> s(2) t(2) by simp
  next
    case False
    then have "m div 10 = n div 10" using less.IH [of "m div 10" "n div 10"] \<open>s = t\<close> s t by simp
    then show ?thesis using digit by (metis div_mult_mod_eq)
  qed
qed

lemma labelled_inj: "inj_on (labelled p label) {1..}"
proof (rule inj_onI)
  fix i j :: nat
  assume "i \<in> {1..}" "j \<in> {1..}" "labelled p label i = labelled p label j"
  then have "(if i = 1 then [] else '' '' @ show_nat i) = (if j = 1 then [] else '' '' @ show_nat j)"
    by (auto simp: labelled_def split: prod.splits if_splits)
  then show "i = j" using show_nat_inj by (auto split: if_splits)
qed

lemma str_from_1_drop: "str_from name 1 = Some rest \<Longrightarrow> rest = drop 1 name"
  by (auto simp: str_from_def split: if_splits)

lemma stem_ext_append: "stem_ext name = (stem, ext) \<Longrightarrow> stem @ ext = name"
  by (auto simp: stem_ext_def split: option.splits)

lemma show_nat_no_slash: "CHR ''/'' \<notin> set (show_nat n)"
proof (induction n rule: less_induct)
  case (less n)
  have digit: "char_of (48 + d :: nat) \<noteq> CHR ''/''" if "d < 10" for d
    using digit_facts [OF digit_char [OF that]] by simp
  obtain s where s: "show_nat n = s @ [char_of (48 + n mod 10)]" "n < 10 \<longleftrightarrow> s = []" "n \<ge> 10 \<longrightarrow> s = show_nat (n div 10)"
    using show_nat_last [of n] by blast
  have "CHR ''/'' \<notin> set s" using s(2,3) less.IH [of "n div 10"] by (cases "n < 10") auto
  then show ?case using digit [of "n mod 10"] by (auto simp: s(1) eq_commute)
qed

lemma labelled_dir:
  assumes "CHR ''/'' \<notin> set label"
  shows "fst (split_dir (labelled p label k)) = fst (split_dir p)"
proof -
  obtain dir name where d: "split_dir p = (dir, name)" by fastforce
  obtain stem ext where e: "stem_ext name = (stem, ext)" by fastforce
  have "CHR ''/'' \<notin> set (stem @ ext)" using split_dir_name [OF d] stem_ext_append [OF e] by simp
  then have "CHR ''/'' \<notin> set (stem @ '' ('' @ (if k = 1 then label else label @ '' '' @ show_nat k) @ '')'' @ ext)"
    using assms show_nat_no_slash by auto
  from split_dir_join [OF split_dir_dir [OF d] this] show ?thesis by (simp add: labelled_def d e)
qed

lemma label_chars_no_slash: "CHR ''/'' \<notin> set (label_chars s)"
  by (induction s rule: label_chars.induct) (auto split: list.splits)

lemma first_free_labelled:
  assumes "finite {q. name_taken n q}" and "CHR ''/'' \<notin> set label"
  shows "\<exists>k. first_free (name_taken n) (labelled p label) 1 = Some (labelled p label k) \<and> \<not> name_taken n (labelled p label k)
    \<and> 1 \<le> k \<and> k \<le> Suc (card {q. name_taken n q}) \<and> fst (split_dir (labelled p label k)) = fst (split_dir p)"
proof -
  obtain d where "first_free (name_taken n) (labelled p label) 1 = Some (labelled p label (1 + d))"
    "\<not> name_taken n (labelled p label (1 + d))" "d \<le> card {q. name_taken n q}"
    using first_free_finds [OF assms(1) labelled_inj] by blast
  then show ?thesis using labelled_dir [OF assms(2)] by (intro exI [of _ "1 + d"]) auto
qed

lemma name_taken_finite: "finite {q. on_disk n q \<noteq> None} \<Longrightarrow> finite {q. name_taken n q}"
proof -
  assume "finite {q. on_disk n q \<noteq> None}"
  moreover have "{q. folder_row (n_index n) q \<noteq> None} \<subseteq> f_path ` set (files (n_index n))"
    by (auto simp: folder_row_def live_row_in_def file_by_path_def own_vault_row_def split: option.splits if_splits dest!: find_SomeD)
  then have "finite {q. folder_row (n_index n) q \<noteq> None}" by (rule finite_subset) simp
  ultimately show ?thesis by (simp add: name_taken_def Collect_disj_eq)
qed

text \<open>C40: Looking for a free name ends. On a folder with finitely many files, both searches, beside a
  file put back and for the other version of a conflict, whatever the label, return a name no file
  and no row has, in the directory of the name looked for, after at most one try more than there
  are names taken.\<close>

theorem search_for_a_name_ends:
  assumes "finite {q. on_disk n q \<noteq> None}"
  shows "(\<exists>q. free_path_near n p = Some q \<and> \<not> name_taken n q \<and> fst (split_dir q) = fst (split_dir p)
      \<and> (q = p \<or> (\<exists>k \<le> Suc (card {q. name_taken n q}). q = labelled p ''restored'' k)))
    \<and> (\<exists>q. free_path_labelled n p label = Some q \<and> \<not> name_taken n q \<and> fst (split_dir q) = fst (split_dir p)
      \<and> (\<exists>k \<le> Suc (card {q. name_taken n q}). \<exists>l. q = labelled p l k))"
proof -
  note fin = name_taken_finite [OF assms]
  let ?label = "if trim (label_chars label) = [] then ''other version'' else label_chars label"
  have "CHR ''/'' \<notin> set ?label" using label_chars_no_slash by simp
  then obtain k where k: "first_free (name_taken n) (labelled p ?label) 1 = Some (labelled p ?label k)"
    "\<not> name_taken n (labelled p ?label k)" "k \<le> Suc (card {q. name_taken n q})"
    "fst (split_dir (labelled p ?label k)) = fst (split_dir p)"
    using first_free_labelled [OF fin, of ?label p] by blast
  have "free_path_labelled n p label = Some (labelled p ?label k)"
    using k(1) by (simp only: free_path_labelled_def Let_def)
  moreover have "\<exists>q. free_path_near n p = Some q \<and> \<not> name_taken n q \<and> fst (split_dir q) = fst (split_dir p)
      \<and> (q = p \<or> (\<exists>k \<le> Suc (card {q. name_taken n q}). q = labelled p ''restored'' k))"
    using first_free_labelled [OF fin, of "''restored''" p] by (cases "name_taken n p") (auto simp: free_path_near_def)
  ultimately show ?thesis using k(2-4) by blast
qed

subsection \<open>What was deleted comes back\<close>

subsection \<open>What was deleted comes back\<close>

lemma put_file_in_rows:
  assumes "store_ok (the_store n)" and "folder_row (n_index n) p = None" and "scope \<in> {None, Some (me (n_index n))}"
    and "on_disk n p = Some b" and "cdc_ok (k_cdc (d_codec env))"
  shows "\<exists>stats st'. put_file_in env p scope n = (Inr stats, on_store (\<lambda>_. st') n) \<and> store_ok st'
    \<and> ix_but scope p (n_index n) (s_index st') \<and> s_tree st' = s_tree (the_store n)
    \<and> (\<exists>row. folder_row (s_index st') p = Some (row, scope) \<and> f_hash row = k_hash (d_codec env) b
         \<and> (f_vector row, f_by row, f_updated row) = fst (stamped (d_now env) p LocalStamp (the_store n)))"
proof -
  let ?k = "d_codec env"
  let ?st = "(the_store n)\<lparr>s_new_private := scope \<noteq> None, s_racy := (s_racy (the_store n))(p := too_recent (d_now_ns env) (d_mtime env p))\<rparr>"
  let ?m = "chunk_bytes (k_hash ?k) (k_cdc ?k) b"
  obtain stats st' where put: "put_manifest (k_sealed ?k) (d_now env) p ?m b (d_mtime env p) pl_local ?st = (stats, st')" by fastforce
  have ok: "store_ok ?st" using assms(1) by simp
  have none: "live (row_at (n_index n) None p) = None" "live (row_at (n_index n) (Some (me (n_index n))) p) = None"
    using assms(1,2) by (auto simp: folder_row_eq n_index_store split: option.splits)
  then have by_path: "case file_by_path (n_index n) p of None \<Rightarrow> True | Some f \<Rightarrow> f_deleted f \<noteq> None"
    by (auto simp: file_by_path_def row_at_def live_def split: option.splits if_splits)
  have dest: "destination p pl_local ?st = scope"
    using assms(2,3) by_path by (auto simp: destination_def pl_local_def n_index_store)
  have fresh: "same_as_before p ?m pl_local scope ?st = None"
    using none assms(3) by (auto simp: same_as_before_def live_row_row_at [OF assms(1)] n_index_store split: option.splits)
  have about: "about p pl_local" by (simp add: about_def pl_local_def)
  note r = put_rows [OF ok about put, unfolded dest]
  have hash: "m_hash ?m = k_hash ?k b" using assms(5) by (simp add: chunk_bytes_def cdc_ok_def)
  let ?st' = "st'\<lparr>s_new_private := s_new_private (the_store n)\<rparr>"
  have ok': "store_ok ?st'" using store_ok_put [OF ok, of "k_sealed ?k" "d_now env" p ?m b "d_mtime env p" pl_local] put by simp
  obtain row where row: "row_at (s_index st') scope p = Some row" "f_deleted row = None" "f_hash row = k_hash ?k b"
    "(f_vector row, f_by row, f_updated row) = put_stamp (d_now env) p pl_local ?st"
    using r fresh by (auto simp: row_says_def hash split: option.splits)
  have but: "ix_but scope p (n_index n) (s_index ?st')"
    using r ok' rows_but_row [of scope p ?st st'] by (auto simp: ix_but_def rows_but_def n_index_store)
  then have "folder_row (s_index ?st') p = Some (row, scope)"
    using row(1,2) none assms(3) ok' by (auto simp: folder_row_eq ix_but_def live_def split: option.splits if_splits)
  moreover have "put_stamp (d_now env) p pl_local ?st = fst (stamped (d_now env) p LocalStamp (the_store n))"
    by (simp add: put_stamp_def pl_local_def stamped_def next_local_vector_def Let_def)
  moreover have "put_file_in env p scope n = (Inr stats, on_store (\<lambda>_. ?st') n)"
    using assms(2-4) put by (auto simp: put_file_in_def Let_def put_file_def on_store_def the_store_def)
  ultimately show ?thesis
    using r ok' but row(3,4) by (intro exI [of _ stats] exI [of _ ?st']) (auto simp: rows_but_def)
qed

lemma trash_fields [simp]:
  "n_trash (on_store g n) = n_trash n" "n_trash_files (on_store g n) = n_trash_files n"
  "n_trash (put_on_disk p b n) = n_trash n" "n_trash_files (put_on_disk p b n) = n_trash_files n"
  "the_store (remove_trash i n) = the_store n" "n_index (remove_trash i n) = n_index n" "on_disk (remove_trash i n) = on_disk n"
  "n_trash_files (remove_trash i n) = n_trash_files n" "trash_entry i (remove_trash i n) = None"
  by (auto simp: remove_trash_def trash_entry_def find_None_iff)

lemma on_disk_store: "s_tree (g (the_store n)) = s_tree (the_store n) \<Longrightarrow> on_disk (on_store g n) = on_disk n"
  by (simp add: on_disk_def fun_eq_iff)

lemma restore_kept:
  assumes "store_ok (the_store n)" and "s_tree (the_store n) \<noteq> None" and "cdc_ok (k_cdc (d_codec env))"
    and "trash_entry i n = Some e" and "tr_id e = i" and "n_trash_files n i = Some b" and "\<not> is_rule_path (tr_path e)"
    and "tr_scope e \<in> {None, Some (me (n_index n))}" and "\<not> name_taken n (tr_path e)"
  shows "\<exists>n'. restore_from_trash env i n = Some (Inr (tr_path e), n') \<and> on_disk n' = (on_disk n)(tr_path e \<mapsto> b)
    \<and> trash_entry i n' = None \<and> ix_but (tr_scope e) (tr_path e) (n_index n) (n_index n')
    \<and> (\<exists>row. folder_row (n_index n') (tr_path e) = Some (row, tr_scope e) \<and> f_hash row = k_hash (d_codec env) b
         \<and> (f_vector row, f_by row, f_updated row) = fst (stamped (d_now env) (tr_path e) LocalStamp (the_store n)))"
proof -
  let ?p = "tr_path e"
  let ?n1 = "put_on_disk ?p (Some b) (n\<lparr>n_trash_files := (n_trash_files n)(i := None)\<rparr>)"
  have tree: "s_tree (the_store n) \<noteq> None" by (rule assms(2))
  have free: "folder_row (n_index n) ?p = None" "on_disk n ?p = None" using assms(9) by (auto simp only: name_taken_def)
  then have ok: "store_ok (the_store ?n1)" and here: "on_disk ?n1 ?p = Some b" and none: "folder_row (n_index ?n1) ?p = None"
    using assms(1) tree by (simp_all add: on_disk_put flip: n_index_store)
  obtain stats st' where put: "put_file_in env ?p (tr_scope e) ?n1 = (Inr stats, on_store (\<lambda>_. st') ?n1)" "store_ok st'"
      "ix_but (tr_scope e) ?p (n_index ?n1) (s_index st')" "s_tree st' = s_tree (the_store ?n1)"
      "\<exists>row. folder_row (s_index st') ?p = Some (row, tr_scope e) \<and> f_hash row = k_hash (d_codec env) b
         \<and> (f_vector row, f_by row, f_updated row) = fst (stamped (d_now env) ?p LocalStamp (the_store ?n1))"
    using put_file_in_rows [OF ok none _ here assms(3), of "tr_scope e"] assms(8) by auto
  have stamp: "fst (stamped (d_now env) ?p LocalStamp (the_store ?n1)) = fst (stamped (d_now env) ?p LocalStamp (the_store n))"
    by (simp add: stamped_def next_local_vector_def Let_def flip: n_index_store)
  have near: "free_path_near n ?p = Some ?p" using assms(9) by (simp add: free_path_near_def)
  have "restore_file_kept env e b n = Some (Inr ?p, on_store (\<lambda>_. st') ?n1)"
    using put(1) assms(5,8) by (auto simp: restore_file_kept_def near)
  then have "restore_from_trash env i n = Some (Inr ?p, remove_trash i (on_store (\<lambda>_. st') ?n1))"
    using assms(2,4,6,7) by (auto simp: restore_from_trash_def split: option.splits)
  moreover have "on_disk (remove_trash i (on_store (\<lambda>_. st') ?n1)) = (on_disk n)(?p \<mapsto> b)"
    using put(4) tree by (auto simp: on_disk_store fun_eq_iff on_disk_put)
  ultimately show ?thesis using put(3,5) stamp by auto
qed

lemma find_last: "\<forall>x \<in> set xs. \<not> P x \<Longrightarrow> find P (xs @ [e]) = (if P e then Some e else None)"
  by (induction xs) auto

lemma move_to_trash_entry:
  assumes "on_disk n p = Some b"
  shows "\<exists>i. i \<notin> tr_id ` set (n_trash n) \<and> move_to_trash p entry n =
    (Some i, put_on_disk p None (n\<lparr>n_trash := n_trash n @ [entry\<lparr>tr_size := length b, tr_id := i\<rparr>],
       n_trash_files := (n_trash_files n)(i \<mapsto> b)\<rparr>))"
proof -
  define i where "i = Suc (fold max (map tr_id (n_trash n)) 0)"
  have "tr_id t \<noteq> i" if "t \<in> set (n_trash n)" for t
  proof -
    have "tr_id t \<le> Max (set (0 # map tr_id (n_trash n)))" using that by (intro Max_ge) auto
    then show ?thesis unfolding i_def Max.set_eq_fold [symmetric] by linarith
  qed
  then have "i \<notin> tr_id ` set (n_trash n)" by (auto simp: image_iff)
  then show ?thesis using assms by (intro exI [of _ i]) (simp add: move_to_trash_def add_trash_def Let_def flip: i_def)
qed

lemma delete_kept:
  assumes "store_ok (the_store n)" and "folder_row (n_index n) p = Some (row, scope)" and "on_disk n p = Some b"
  shows "\<exists>i n' e. delete_to_trash_by env p why by_device n = (Inr (Some i), n') \<and> trash_entry i n' = Some e \<and> tr_id e = i
    \<and> tr_path e = p \<and> tr_scope e = scope \<and> n_trash_files n' i = Some b \<and> on_disk n' = (on_disk n)(p := None)
    \<and> store_ok (the_store n') \<and> ix_but scope p (n_index n) (n_index n') \<and> s_tree (the_store n') \<noteq> None
    \<and> tombstone_says (fst (stamped (d_now env) p LocalStamp (the_store n))) (row_at (n_index n') scope p)
    \<and> counter (n_index n') = counter (n_index n) + 1"
proof -
  let ?entry = "\<lparr>tr_id = 0, tr_path = p, tr_scope = scope, tr_content = f_hash row, tr_size = 0,
      tr_at = d_now env, tr_by = Some by_device, tr_why = why\<rparr>"
  obtain i where i: "i \<notin> tr_id ` set (n_trash n)" "move_to_trash p ?entry n =
      (Some i, put_on_disk p None (n\<lparr>n_trash := n_trash n @ [?entry\<lparr>tr_size := length b, tr_id := i\<rparr>], n_trash_files := (n_trash_files n)(i \<mapsto> b)\<rparr>))"
    using move_to_trash_entry [OF assms(3)] by blast
  then have fresh: "\<forall>t \<in> set (n_trash n). tr_id t \<noteq> i" by auto
  define e where "e = ?entry\<lparr>tr_size := length b, tr_id := i\<rparr>"
  define n1 where "n1 = put_on_disk p None (n\<lparr>n_trash := n_trash n @ [e], n_trash_files := (n_trash_files n)(i \<mapsto> b)\<rparr>)"
  have tree: "s_tree (the_store n) \<noteq> None" using assms(3) by (cases "s_tree (the_store n)") (auto simp: on_disk_def)
  have move: "move_to_trash p ?entry n = (Some i, n1)" using i(2) by (simp add: n1_def e_def)
  let ?t = "tombstone_row (d_now env) p LocalStamp scope (the_store n1)"
  define st' where "st' = release_unbacked (d_now env) (f_id row) ?t"
  have row1: "folder_row (n_index n1) p = Some (row, scope)" using assms(2) by (simp add: n1_def)
  then have d: "delete_file (d_now env) p (the_store n1) = Inr st'"
    by (simp add: delete_file_def st'_def flip: n_index_store)
  have "delete_to_trash_by env p why by_device n = (Inr (Some i), on_store (\<lambda>_. st') n1)"
    using tree move d by (auto simp: delete_to_trash_by_def assms(2) Let_def)
  moreover have "trash_entry i (on_store (\<lambda>_. st') n1) = Some e"
    using fresh find_last [of "n_trash n" "\<lambda>e. tr_id e = i" e] by (simp add: trash_entry_def n1_def) (simp add: e_def)
  moreover have ok1: "store_ok (the_store n1)" using assms(1) by (simp add: n1_def flip: n_index_store)
  moreover have files: "files (s_index st') = files (s_index ?t)" "me (s_index st') = me (s_index ?t)"
    "s_tree st' = s_tree ?t" "counter (s_index st') = counter (s_index ?t)" by (simp_all add: st'_def release_unbacked_def)
  moreover have rows: "row_at (s_index st') s q = row_at (s_index ?t) s q" for s q by (rule row_at_files) (rule files(1))
  moreover have "store_ok st'" using store_ok_delete [OF ok1 d] .
  moreover note t = tombstone_rows [OF ok1, of scope p "d_now env" LocalStamp]
  moreover have "ix_but scope p (s_index (the_store n1)) (s_index st')"
    using t rows_but_row [of scope p "the_store n1" ?t] \<open>store_ok st'\<close> by (simp add: ix_but_def rows files(2) rows_but_def)
  moreover have "fst (stamped (d_now env) p LocalStamp (the_store n1)) = fst (stamped (d_now env) p LocalStamp (the_store n))"
    by (simp add: stamped_def next_local_vector_def Let_def n1_def flip: n_index_store)
  moreover have "counter (s_index ?t) = counter (n_index n) + 1"
    by (simp add: tombstone_row_def stamped_def next_local_vector_def Let_def upsert_file_def n1_def flip: n_index_store split: option.splits)
  moreover have "on_disk (on_store (\<lambda>_. st') n1) = (on_disk n)(p := None)"
    using t files(3) tree by (simp add: on_disk_store rows_but_def) (auto simp: n1_def fun_eq_iff on_disk_put)
  ultimately show ?thesis
    using t tree by (intro exI [of _ i] exI [of _ "on_store (\<lambda>_. st') n1"] exI [of _ e])
      (auto simp: e_def n1_def rows_but_def simp flip: n_index_store)
qed

lemma local_stamp_shared:
  "fst (stamped now p LocalStamp st) =
     (vv_set (case row_at (s_index st) None p of Some f \<Rightarrow> f_vector f | None \<Rightarrow> vv_new) (me (s_index st)) (counter (s_index st) + 1),
      me (s_index st), now)"
  by (simp add: stamped_def next_local_vector_def Let_def file_by_path_def row_at_def)

lemma vv_set_after:
  assumes "vv_ok v" and "a < b"
  shows "vv_compare (vv_set (vv_set v d a) d b) (vv_set v d a) = After"
proof -
  have ok: "vv_ok (vv_set v d a)" by (rule vv_ok_set [OF assms(1)])
  have "vv_le (vv_set v d a) (vv_set (vv_set v d a) d b)"
    using assms(2) by (auto simp: vv_le_def vv_get_set [OF ok] vv_get_set [OF assms(1)])
  moreover have "\<not> vv_le (vv_set (vv_set v d a) d b) (vv_set v d a)"
    using assms(2) by (auto simp: vv_le_def vv_get_set [OF ok] vv_get_set [OF assms(1)] not_le intro!: exI [of _ d])
  ultimately show ?thesis by (simp add: vv_compare_eq causality_of_def)
qed

text \<open>C39: A deletion can be undone. A file deleted into Recently deleted is gone from the folder and the
  index, and put back from there it is at its path with the bytes it had, in the area it was in,
  with every other file as it was; a shared file's new version follows the deletion, so that it
  replaces it on every other device, unless the device's counter is at the end of its 64 bits.\<close>

theorem deletion_is_undone:
  assumes "store_ok (the_store n)" and "cdc_ok (k_cdc (d_codec later))" and "folder_row (n_index n) p = Some (row, scope)"
    and "on_disk n p = Some b" and "\<not> is_rule_path p"
    and "\<forall>s \<in> {None, Some (me (n_index n))} - {scope}. live (row_at (n_index n) s p) = None"
  shows "\<exists>i n1 n2 gone new. delete_to_trash_by env p why by_device n = (Inr (Some i), n1)
    \<and> on_disk n1 p = None \<and> folder_row (n_index n1) p = None \<and> row_at (n_index n1) scope p = Some gone
    \<and> restore_from_trash later i n1 = Some (Inr p, n2) \<and> on_disk n2 = on_disk n \<and> trash_entry i n2 = None
    \<and> folder_row (n_index n2) p = Some (new, scope) \<and> f_hash new = k_hash (d_codec later) b
    \<and> (scope = None \<and> vv_ok (f_vector row) \<and> counter (n_index n) \<noteq> - 2 \<longrightarrow> vv_compare (f_vector new) (f_vector gone) = After)"
proof -
  obtain i n1 e where d: "delete_to_trash_by env p why by_device n = (Inr (Some i), n1)" "trash_entry i n1 = Some e" "tr_id e = i"
      "tr_path e = p" "tr_scope e = scope" "n_trash_files n1 i = Some b" "on_disk n1 = (on_disk n)(p := None)"
      "store_ok (the_store n1)" "ix_but scope p (n_index n) (n_index n1)" "s_tree (the_store n1) \<noteq> None"
      "tombstone_says (fst (stamped (d_now env) p LocalStamp (the_store n))) (row_at (n_index n1) scope p)"
      "counter (n_index n1) = counter (n_index n) + 1"
    using delete_kept [OF assms(1,3,4), of env why by_device] by blast
  obtain gone where gone: "row_at (n_index n1) scope p = Some gone" "f_deleted gone \<noteq> None"
      "f_vector gone = fst (fst (stamped (d_now env) p LocalStamp (the_store n)))"
    using d(11) by (auto simp: tombstone_says_def prod_eq_iff split: option.splits)
  have me: "me (n_index n1) = me (n_index n)" using d(9) by (simp add: ix_but_def)
  have scope: "scope \<in> {None, Some (me (n_index n))}"
    using assms(3) by (auto simp: folder_row_def own_vault_row_def split: option.splits)
  have "row_at (n_index n1) s p = row_at (n_index n) s p" if "s \<noteq> scope" for s using d(9) that by (simp add: ix_but_def)
  then have "live (row_at (n_index n1) s p) = None" if "s \<in> {None, Some (me (n_index n))}" for s
    using that assms(6) gone by (cases "s = scope") (auto simp: live_def)
  then have none: "folder_row (n_index n1) p = None"
    using d(8) by (simp add: folder_row_eq n_index_store me [unfolded n_index_store])
  then have free: "\<not> name_taken n1 (tr_path e)" using d(4,7) by (simp add: name_taken_def)
  obtain n2 new where r: "restore_from_trash later i n1 = Some (Inr p, n2)" "on_disk n2 = (on_disk n1)(p \<mapsto> b)"
      "trash_entry i n2 = None" "folder_row (n_index n2) p = Some (new, scope)" "f_hash new = k_hash (d_codec later) b"
      "f_vector new = fst (fst (stamped (d_now later) p LocalStamp (the_store n1)))"
    using restore_kept [OF d(8,10) assms(2) d(2,3,6) _ _ free] d(4,5) assms(5) scope me by (auto simp: prod_eq_iff)
  have after: "vv_compare (f_vector new) (f_vector gone) = After" if "scope = None" "vv_ok (f_vector row)" "counter (n_index n) \<noteq> - 2"
  proof -
    let ?c = "counter (n_index n)"
    have "row_at (n_index n) None p = Some row"
      using assms(1,3) that(1) by (auto simp: folder_row_eq n_index_store live_def split: option.splits if_splits)
    then have g: "f_vector gone = vv_set (f_vector row) (me (n_index n)) (?c + 1)"
      using gone(3) by (simp add: local_stamp_shared flip: n_index_store)
    then have w: "f_vector new = vv_set (f_vector gone) (me (n_index n)) (?c + 1 + 1)"
      using r(6) gone(1) that(1) by (simp add: local_stamp_shared me d(12) flip: n_index_store)
    have "1 + (?c + 1) \<noteq> 0" using that(3) by (auto simp: eq_neg_iff_add_eq_0 ac_simps)
    then have "?c + 1 < ?c + 1 + 1" using unatSuc [of "?c + 1"] by (simp add: word_less_nat_alt add.commute)
    then show ?thesis unfolding w g by (rule vv_set_after [OF that(2)])
  qed
  have "on_disk n2 = on_disk n" using r(2) d(7) assms(4) by (simp add: fun_eq_iff)
  then show ?thesis using d(1,7) none gone(1) r after by auto
qed

lemma says_deleted: "says v r \<Longrightarrow> content v = Deleted \<Longrightarrow> live r = None"
proof -
  assume "says v r" "content v = Deleted"
  then obtain f where r: "r = Some f" "row_to_version f = v\<lparr>area := Shared\<rparr>" by (auto simp: says_def)
  from r(2) have "content (row_to_version f) = Deleted" by (simp add: \<open>content v = Deleted\<close>)
  then show ?thesis using r(1) by (simp add: live_def row_to_version_def split: if_splits)
qed

text \<open>A file another device deleted can be put back here. When a shared deletion is taken on a
  device with a folder, the bytes the folder had at the path are in Recently deleted, under the
  device that deleted them, and every entry before it has kept its bytes. Put back from there the
  folder is as it was before the deletion arrived.\<close>

lemma deleted_elsewhere_can_be_put_back:
  assumes "store_ok (the_store n)" and "cdc_ok (k_cdc (d_codec later))" and "content v = Deleted" and "area v = Shared"
    and "\<not> is_replica (e_role (n_engine n))" and "on_disk n (path v) = Some b" and "\<not> is_rule_path (path v)"
    and "live (row_at (n_index n) (Some (me (n_index n))) (path v)) = None"
    and "take_version env v stats n = Some (Inr u, stats', n1)"
  shows "on_disk n1 = (on_disk n)(path v := None)
    \<and> (\<forall>t \<in> set (n_trash n). t \<in> set (n_trash n1) \<and> n_trash_files n1 (tr_id t) = n_trash_files n (tr_id t))
    \<and> (\<exists>e n2. e \<in> set (n_trash n1) \<and> tr_by e = Some (modified_by v) \<and> n_trash_files n1 (tr_id e) = Some b
         \<and> restore_from_trash later (tr_id e) n1 = Some (Inr (path v), n2) \<and> on_disk n2 = on_disk n)"
proof -
  let ?p = "path v"
  have n1: "n1 = take_deleted env v n"
    using assms(3,9) by (auto simp: take_version_def split: if_splits)
  have not_private: "\<not> private_here n v"
    using assms(1,8) by (auto simp: private_here_def folder_row_eq n_index_store split: option.splits)
  define entry where "entry = \<lparr>tr_id = 0, tr_path = ?p, tr_scope = None,
      tr_content = (case folder_row (n_index n) ?p of Some (row, _) \<Rightarrow> f_hash row | None \<Rightarrow> replicate 32 0),
      tr_size = 0, tr_at = env_now env, tr_by = Some (modified_by v), tr_why = None\<rparr>"
  obtain i where i: "i \<notin> tr_id ` set (n_trash n)" and move: "move_to_trash ?p entry n =
      (Some i, put_on_disk ?p None (n\<lparr>n_trash := n_trash n @ [entry\<lparr>tr_size := length b, tr_id := i\<rparr>],
         n_trash_files := (n_trash_files n)(i \<mapsto> b)\<rparr>))"
    using move_to_trash_entry [OF assms(6)] by blast
  define e where "e = entry\<lparr>tr_size := length b, tr_id := i\<rparr>"
  define mid where "mid = put_on_disk ?p None (n\<lparr>n_trash := n_trash n @ [e], n_trash_files := (n_trash_files n)(i \<mapsto> b)\<rparr>)"
  have n1': "n1 = on_store (tombstone_row (env_now env) ?p (RemoteStamp v) None) mid"
    using n1 not_private assms(5,7) move by (simp add: take_deleted_def Let_def mid_def e_def flip: entry_def)
  have tree: "s_tree (the_store n) \<noteq> None" using assms(6) by (cases "s_tree (the_store n)") (auto simp: on_disk_def)
  have okm: "store_ok (the_store mid)" using assms(1) by (simp add: mid_def flip: n_index_store)
  note t = tombstone_remote [OF okm assms(3), of "env_now env"]
  have disk: "on_disk n1 = (on_disk n)(?p := None)"
    using t tree by (simp add: n1' on_disk_store) (auto simp: mid_def fun_eq_iff on_disk_put)
  have ok1: "store_ok (the_store n1)" by (simp add: n1' store_ok_tombstone [OF okm])
  have rows: "live (row_at (n_index n1) None ?p) = None" "live (row_at (n_index n1) (Some (me (n_index n1))) ?p) = None"
    using t assms(3,8) says_deleted by (auto simp: n1' ix_but_def mid_def simp flip: n_index_store)
  have kept: "trash_entry i n1 = Some e" "n_trash_files n1 i = Some b"
    using i find_last [of "n_trash n" "\<lambda>t. tr_id t = i" e] by (simp_all add: n1' mid_def trash_entry_def) (auto simp: e_def)
  have e: "tr_id e = i" "tr_path e = ?p" "tr_scope e = None" "tr_by e = Some (modified_by v)" by (simp_all add: e_def entry_def)
  have "folder_row (n_index n1) ?p = None" using rows ok1 by (simp add: folder_row_eq n_index_store)
  then have free: "\<not> name_taken n1 (tr_path e)" using disk e(2) by (simp add: name_taken_def)
  have "s_tree (the_store n1) \<noteq> None" using t tree by (simp add: n1' mid_def)
  then obtain n2 where r: "restore_from_trash later i n1 = Some (Inr ?p, n2)" "on_disk n2 = (on_disk n1)(?p \<mapsto> b)"
    using restore_kept [OF ok1 _ assms(2) kept(1) e(1) kept(2) _ _ free] e assms(7) by auto
  have "on_disk n2 = on_disk n" using r(2) disk assms(6) by (simp add: fun_eq_iff)
  moreover have "\<forall>t \<in> set (n_trash n). t \<in> set (n_trash n1) \<and> n_trash_files n1 (tr_id t) = n_trash_files n (tr_id t)" "e \<in> set (n_trash n1)"
    using i by (auto simp: n1' mid_def image_iff)
  ultimately show ?thesis using disk kept r e by blast
qed

subsection \<open>A note deleted by mistake\<close>

definition noted :: node where
  "noted = on_store (\<lambda>st. snd (store_put_bytes length (\<lambda>b. b) whole_file 100 ''a.txt'' [1] 0 st)) (fresh_laptop (Some [''a.txt'' \<mapsto> [1]]))"

definition desk_at :: "int \<Rightarrow> desk" where
  "desk_at now = \<lparr>d_codec = one_piece, d_now = now, d_now_ns = now * 10 ^ 9, d_mtime = (\<lambda>_. 0)\<rparr>"

lemma noted_ok: "store_ok (the_store noted)" "cdc_ok (k_cdc (d_codec (desk_at now)))"
  using whole_file_ok fresh_laptop_ok [of undefined "Some [''a.txt'' \<mapsto> [1]]"]
  by (simp_all add: noted_def store_put_bytes_def store_ok_put node_ok_def desk_at_def one_piece_def)

lemma noted_disk: "on_disk noted = [''a.txt'' \<mapsto> [1]]"
proof -
  have "s_tree (the_store noted) = s_tree (the_store (fresh_laptop (Some [''a.txt'' \<mapsto> [1]])))"
    using put_rows [OF fresh_laptop_ok [unfolded node_ok_def, THEN conjunct1] _ surjective_pairing]
    by (simp add: noted_def store_put_bytes_def about_def pl_local_def rows_but_def)
  then show ?thesis
    by (auto simp: on_disk_def fresh_laptop_def Let_def the_store_def store_new_def)
qed

theorem search_for_a_name_ends_witness:
  "\<exists>q. free_path_near noted ''a.txt'' = Some q \<and> on_disk noted q = None"
proof -
  have "{q. on_disk noted q \<noteq> None} = {''a.txt''}" by (auto simp: noted_disk)
  then have "finite {q. on_disk noted q \<noteq> None}" by simp
  from search_for_a_name_ends [OF this, of "''a.txt''"] obtain q where "free_path_near noted ''a.txt'' = Some q" "\<not> name_taken noted q"
    by blast
  then show ?thesis by (auto simp: name_taken_def)
qed

theorem deletion_is_undone_witness:
  "\<exists>i n1 n2. delete_to_trash_by (desk_at 200) ''a.txt'' None laptop noted = (Inr (Some i), n1) \<and> on_disk n1 ''a.txt'' = None
     \<and> restore_from_trash (desk_at 300) i n1 = Some (Inr ''a.txt'', n2) \<and> on_disk n2 ''a.txt'' = Some [1]
     \<and> map_option fst (folder_row (n_index n2) ''a.txt'') \<noteq> None"
proof -
  have "case folder_row (n_index noted) ''a.txt'' of None \<Rightarrow> False | Some (row, scope) \<Rightarrow> scope = None" by code_simp
  then obtain row where row: "folder_row (n_index noted) ''a.txt'' = Some (row, None)" by (auto split: option.splits)
  have disk: "on_disk noted ''a.txt'' = Some [1]" by (simp add: noted_disk)
  have rule: "\<not> is_rule_path ''a.txt''" by code_simp
  have "live (row_at (n_index noted) (Some (me (n_index noted))) ''a.txt'') = None" by code_simp
  then have others: "\<forall>s \<in> {None, Some (me (n_index noted))} - {None}. live (row_at (n_index noted) s ''a.txt'') = None" by simp
  from deletion_is_undone [OF noted_ok(1) noted_ok(2) [of 300] row disk rule others, of "desk_at 200" None laptop]
  show ?thesis using disk by auto
qed

lemma deleted_elsewhere_can_be_put_back_witness:
  "\<exists>stats n1 i n2. take_version open_env ((from_phone ''a.txt'' Shared)\<lparr>content := Deleted\<rparr>) plan_stats_default noted = Some (Inr (), stats, n1)
     \<and> on_disk n1 ''a.txt'' = None \<and> restore_from_trash (desk_at 300) i n1 = Some (Inr ''a.txt'', n2) \<and> on_disk n2 ''a.txt'' = Some [1]"
proof -
  let ?v = "(from_phone ''a.txt'' Shared)\<lparr>content := Deleted\<rparr>"
  have v: "content ?v = Deleted" "area ?v = Shared" "path ?v = ''a.txt''" by (simp_all add: from_phone_def)
  have role: "\<not> is_replica (e_role (n_engine noted))" by code_simp
  have disk: "on_disk noted (path ?v) = Some [1]" by (simp add: noted_disk v)
  have rule: "\<not> is_rule_path (path ?v)" by code_simp
  have priv: "live (row_at (n_index noted) (Some (me (n_index noted))) (path ?v)) = None" by code_simp
  have "case take_version open_env ?v plan_stats_default noted of None \<Rightarrow> False | Some (r, _, _) \<Rightarrow> \<not> isl r" by code_simp
  then obtain r stats n1 where n1: "take_version open_env ?v plan_stats_default noted = Some (r, stats, n1)" "\<not> isl r"
    by (auto split: option.splits)
  then have t: "take_version open_env ?v plan_stats_default noted = Some (Inr (), stats, n1)" by (cases r) auto
  from deleted_elsewhere_can_be_put_back [OF noted_ok(1) noted_ok(2) [of 300] v(1,2) role disk rule priv t]
  obtain i n2 where "restore_from_trash (desk_at 300) i n1 = Some (Inr ''a.txt'', n2)" "on_disk n2 = on_disk noted"
    "on_disk n1 = (on_disk noted)(''a.txt'' := None)"
    unfolding v by blast
  then show ?thesis using t disk unfolding v by (metis fun_upd_same)
qed

end
