(* ===== verification/Moves.thy ===== *)
theory Moves imports Trash
begin

section \<open>Renaming, and settling a conflict (\<open>crates/storage/src/store.rs\<close>)\<close>

text \<open>
  Files renamed in the folder as a change made here, and the two versions of a conflict brought back
  to one, or kept under two names. With deleting and putting back these are the operations a
  person has on files; runs of them are lists, and what such a run may not lose is the property.
\<close>

datatype keep = KeepOriginal | KeepCopy | KeepBoth

subsection \<open>Renaming\<close>

definition rename_in_folder :: "desk \<Rightarrow> string \<Rightarrow> string \<Rightarrow> device_id option \<Rightarrow> node \<Rightarrow> (refusal + unit) \<times> node" where
  \<comment> \<open>whatever is on disk under the new name is replaced\<close>
  "rename_in_folder env source target scope n =
     (case on_disk n source of
        None \<Rightarrow> (Inl (CannotMove source), n)
      | Some data \<Rightarrow>
          (case put_file_in env target scope (put_on_disk target (Some data) (put_on_disk source None n)) of
             (Inl e, n) \<Rightarrow> (Inl e, n)
           | (Inr _, n) \<Rightarrow>
               (case delete_file (d_now env) source (the_store n) of
                  Inl e \<Rightarrow> (Inl (InIndex e), n)
                | Inr st \<Rightarrow> (Inr (), on_store (\<lambda>_. st) n))))"

definition rename_freed :: "desk \<Rightarrow> string \<Rightarrow> string \<Rightarrow> node \<Rightarrow> (refusal + unit) \<times> node" where
  "rename_freed env source target n =
     (case in_folder (n_index n) source of
        None \<Rightarrow> (Inl (Missing source), n)
      | Some row \<Rightarrow>
          (case listed_manifest (n_index n) row of
             None \<Rightarrow> (Inl (NotHere source), n)
           | Some m \<Rightarrow>
               (let n = put_listed env target row m n
                in case delete_file (d_now env) source (the_store n) of
                     Inl e \<Rightarrow> (Inl (InIndex e), n)
                   | Inr st \<Rightarrow> (Inr (), on_store (\<lambda>_. st) n))))"

definition trim_both :: "string \<Rightarrow> string" where
  \<comment> \<open>\<open>trim_matches('/')\<close>\<close>
  "trim_both p = dropWhile (\<lambda>c. c = CHR ''/'') (trim_slashes p)"

definition rename_file :: "desk \<Rightarrow> string \<Rightarrow> string \<Rightarrow> node \<Rightarrow> (refusal + unit) \<times> node" where
  "rename_file env source to n =
     (let target = trim_both to
      in if s_tree (the_store n) = None then (Inl (Missing source), n)
         else case folder_row (n_index n) source of
           None \<Rightarrow> (Inl (Missing source), n)
         | Some (_, scope) \<Rightarrow>
             if \<not> is_safe_path target \<or> is_rule_path target \<or> target = [] then (Inl (Refused target), n)
             else if name_taken n target then (Inl (Refused target), n)
             else if is_materialised (n_index n) source \<noteq> Some True \<or> on_disk n source = None
             then (if scope = Some (me (n_index n)) then rename_freed env source target n else (Inl (NotHere source), n))
             else rename_in_folder env source target scope n)"

subsection \<open>Settling a conflict\<close>

definition then_path :: "string \<Rightarrow> (refusal + 'a) \<times> node \<Rightarrow> (refusal + string) \<times> node" where
  "then_path p s = (case s of (Inl e, n) \<Rightarrow> (Inl e, n) | (Inr _, n) \<Rightarrow> (Inr p, n))"

definition settle_conflict :: "desk \<Rightarrow> string \<Rightarrow> keep \<Rightarrow> string \<Rightarrow> node \<Rightarrow> ((refusal + string) \<times> node) option" where
  "settle_conflict env copy keep label n =
     (case conflict_origin copy of
        None \<Rightarrow> Some (Inl (NotAConflict copy), n)
      | Some name \<Rightarrow>
          if s_tree (the_store n) = None then Some (Inl (Missing copy), n)
          else case folder_row (n_index n) copy of
            None \<Rightarrow> Some (Inl (Missing copy), n)
          | Some (_, copy_scope) \<Rightarrow>
              (let why = Some ''the version not kept when a conflict was settled'';
                   here = (is_materialised (n_index n) copy = Some True \<and> on_disk n copy \<noteq> None)
               in case keep of
                    KeepOriginal \<Rightarrow> Some (then_path (original name) (delete_to_trash env copy why n))
                  | KeepCopy \<Rightarrow>
                      if \<not> here then Some (Inl (NotHere copy), n)
                      else (case folder_row (n_index n) (original name) of
                          None \<Rightarrow> Some (then_path (original name) (rename_in_folder env copy (original name) copy_scope n))
                        | Some (_, scope) \<Rightarrow>
                            (case delete_to_trash env (original name) why n of
                               (Inl e, n) \<Rightarrow> Some (Inl e, n)
                             | (Inr _, n) \<Rightarrow> Some (then_path (original name) (rename_in_folder env copy (original name) scope n))))
                  | KeepBoth \<Rightarrow>
                      if \<not> here then Some (Inl (NotHere copy), n)
                      else map_option (\<lambda>target. then_path target (rename_in_folder env copy target copy_scope n))
                        (free_path_labelled n (original name) label)))"

subsection \<open>A person's changes\<close>

datatype change_here =
    Delete string
  | PutBack nat
  | Rename string string
  | Settle string keep string

definition make_change :: "desk \<Rightarrow> change_here \<Rightarrow> node \<Rightarrow> node option" where
  \<comment> \<open>what is left of the folder and the index, whether it was refused or not\<close>
  "make_change env c n =
     (case c of
        Delete p \<Rightarrow> Some (snd (delete_to_trash env p None n))
      | PutBack i \<Rightarrow> map_option snd (restore_from_trash env i n)
      | Rename source to \<Rightarrow> Some (snd (rename_file env source to n))
      | Settle copy keep label \<Rightarrow> map_option snd (settle_conflict env copy keep label n))"

definition make_changes :: "(desk \<times> change_here) list \<Rightarrow> node \<Rightarrow> node option" where
  "make_changes cs n = fold (\<lambda>(env, c) r. Option.bind r (make_change env c)) cs (Some n)"

subsection \<open>Nothing is lost\<close>

definition kept :: "bytes \<Rightarrow> node \<Rightarrow> bool" where
  \<comment> \<open>in the folder, or in Recently deleted under an entry of its list\<close>
  "kept b n \<longleftrightarrow> (\<exists>p. on_disk n p = Some b) \<or> (\<exists>e \<in> set (n_trash n). n_trash_files n (tr_id e) = Some b)"

lemma folder_row_scope: "folder_row ix p = Some (f, s) \<Longrightarrow> s \<in> {None, Some (me ix)}"
  by (auto simp: folder_row_def split: option.splits)

lemma put_manifest_keeps:
  assumes "store_ok st" and "about p pl" and "put_manifest sealed now p m data mtime pl st = (stats, st')"
  shows "store_ok st' \<and> s_tree st' = s_tree st \<and> me (s_index st') = me (s_index st)"
  using put_rows [OF assms] store_ok_put [OF assms(1), of sealed now p m data mtime pl] assms(3)
  by (simp add: rows_but_def)

lemma put_file_in_keeps:
  assumes "store_ok (the_store n)" and "scope \<in> {None, Some (me (n_index n))}" and "on_disk n p = Some b"
  shows "\<exists>stats st'. put_file_in env p scope n = (Inr stats, on_store (\<lambda>_. st') n) \<and> store_ok st'
    \<and> s_tree st' = s_tree (the_store n)"
proof -
  define retire where "retire = (case folder_row (n_index n) p of
      Some (_, current) \<Rightarrow> if current \<noteq> scope then tombstone_row (d_now env) p LocalStamp current else (\<lambda>st. st)
    | None \<Rightarrow> (\<lambda>st. st))"
  let ?st1 = "retire (the_store n)"
  have "retire = (\<lambda>st. st) \<or> (\<exists>s. retire = tombstone_row (d_now env) p LocalStamp s)"
    by (auto simp: retire_def split: option.splits)
  then have st1: "store_ok ?st1 \<and> s_tree ?st1 = s_tree (the_store n)"
    using assms(1) store_ok_tombstone [OF assms(1)] tombstone_rows [OF assms(1)] by (auto simp: rows_but_def)
  let ?k = "d_codec env"
  let ?st2 = "?st1\<lparr>s_new_private := scope \<noteq> None, s_racy := (s_racy ?st1)(p := too_recent (d_now_ns env) (d_mtime env p))\<rparr>"
  obtain stats st3 where put: "put_manifest (k_sealed ?k) (d_now env) p (chunk_bytes (k_hash ?k) (k_cdc ?k) b) b (d_mtime env p) pl_local ?st2 = (stats, st3)"
    by fastforce
  have ok2: "store_ok ?st2" and about: "about p pl_local" using st1 by (simp_all add: about_def pl_local_def)
  have disk: "on_disk (on_store retire n) p = Some b" using assms(3) st1 by (simp add: on_disk_store)
  have "put_file_in env p scope n = (Inr stats, on_store (\<lambda>_. st3\<lparr>s_new_private := s_new_private ?st1\<rparr>) n)"
    using assms(2) put disk unfolding put_file_in_def Let_def retire_def [symmetric]
    by (simp add: put_file_def) (simp add: on_store_def the_store_def)
  then show ?thesis using put_manifest_keeps [OF ok2 about put] st1 by (intro exI conjI) (assumption | simp)+
qed

definition few_files :: "node \<Rightarrow> bool" where
  "few_files n \<longleftrightarrow> finite {q. on_disk n q \<noteq> None}"

lemma few_files_upd: "on_disk n' = (on_disk n)(p := x) \<Longrightarrow> few_files n \<Longrightarrow> few_files n'"
  unfolding few_files_def by (rule finite_subset [of _ "insert p {q. on_disk n q \<noteq> None}"]) auto

lemma few_files_same: "on_disk n' = on_disk n \<Longrightarrow> few_files n' = few_files n"
  by (simp add: few_files_def)

definition safe_change :: "node \<Rightarrow> node \<Rightarrow> bool" where
  "safe_change n n' \<longleftrightarrow> store_ok (the_store n') \<and> (\<forall>b. kept b n \<longrightarrow> kept b n') \<and> (few_files n \<longrightarrow> few_files n')"

lemma safe_change_refl: "store_ok (the_store n) \<Longrightarrow> safe_change n n"
  by (simp add: safe_change_def)

lemma safe_change_trans: "safe_change n n1 \<Longrightarrow> safe_change n1 n2 \<Longrightarrow> safe_change n n2"
  by (simp add: safe_change_def)

lemma kept_same:
  assumes "on_disk n' = on_disk n" and "n_trash_files n' = n_trash_files n" and "n_trash n' = n_trash n"
  shows "kept b n' = kept b n"
  using assms by (simp add: kept_def)

lemma delete_file_keeps:
  assumes "store_ok st" and "delete_file now p st = Inr st'"
  shows "store_ok st' \<and> s_tree st' = s_tree st \<and> me (s_index st') = me (s_index st)"
proof -
  obtain row s where row: "folder_row (s_index st) p = Some (row, s)"
    using assms(2) by (auto simp: delete_file_def split: option.splits)
  show ?thesis using delete_file_rows [OF assms(1) row, of now] assms(2) by (auto simp: rows_but_def)
qed

lemma delete_safe:
  assumes "store_ok (the_store n)" and "delete_to_trash_by env p why d n = (r, n')"
  shows "safe_change n n' \<and> (\<not> isl r \<longrightarrow> on_disk n' p = None) \<and> me (n_index n') = me (n_index n)
    \<and> (s_tree (the_store n') = None \<longleftrightarrow> s_tree (the_store n) = None)"
proof (cases "folder_row (n_index n) p")
  case None
  then show ?thesis using assms by (auto simp: delete_to_trash_by_def safe_change_refl)
next
  case (Some found)
  then obtain row s where row: "folder_row (n_index n) p = Some (row, s)" by (cases found) auto
  define entry where "entry = \<lparr>tr_id = 0, tr_path = p, tr_scope = s, tr_content = f_hash row, tr_size = 0,
      tr_at = d_now env, tr_by = Some d, tr_why = why\<rparr>"
  have mid: "\<exists>i mid. delete_to_trash_by env p why d n = (case delete_file (d_now env) p (the_store mid) of
      Inl e \<Rightarrow> (Inl (InIndex e), mid) | Inr st \<Rightarrow> (Inr i, on_store (\<lambda>_. st) mid))
    \<and> n_index mid = n_index n \<and> on_disk mid = (on_disk n)(p := None) \<and> (\<forall>b. kept b n \<longrightarrow> kept b mid)
    \<and> (s_tree (the_store mid) = None \<longleftrightarrow> s_tree (the_store n) = None)"
  proof (cases "on_disk n p")
    case None
    obtain i1 n1 where a: "add_trash entry n = (i1, n1)" by fastforce
    then have n1: "\<forall>b. kept b n \<longrightarrow> kept b n1" "n_index n1 = n_index n" "on_disk n1 = on_disk n" "the_store n1 = the_store n"
      by (auto simp: kept_def add_trash_def Let_def)
    have disk: "(on_disk n)(p := None) = on_disk n" using None by (simp add: fun_eq_iff)
    show ?thesis
    proof (cases "s_tree (the_store n) \<noteq> None \<and> s = Some (me (n_index n))")
      case True
      then have "delete_to_trash_by env p why d n = (case delete_file (d_now env) p (the_store n1) of
          Inl e \<Rightarrow> (Inl (InIndex e), n1) | Inr st \<Rightarrow> (Inr (Some i1), on_store (\<lambda>_. st) n1))"
        using a None by (auto simp: delete_to_trash_by_def row Let_def move_to_trash_def entry_def)
      then show ?thesis using n1 disk by (intro exI [of _ "Some i1"] exI [of _ n1]) simp
    next
      case False
      then have "delete_to_trash_by env p why d n = (case delete_file (d_now env) p (the_store n) of
          Inl e \<Rightarrow> (Inl (InIndex e), n) | Inr st \<Rightarrow> (Inr None, on_store (\<lambda>_. st) n))"
        using None by (auto simp: delete_to_trash_by_def row Let_def move_to_trash_def)
      then show ?thesis using disk by (intro exI [of _ None] exI [of _ n]) simp
    qed
  next
    case (Some b)
    then have tree: "s_tree (the_store n) \<noteq> None" by (cases "s_tree (the_store n)") (auto simp: on_disk_def)
    obtain i where i: "i \<notin> tr_id ` set (n_trash n)" "move_to_trash p entry n =
        (Some i, put_on_disk p None (n\<lparr>n_trash := n_trash n @ [entry\<lparr>tr_size := length b, tr_id := i\<rparr>],
           n_trash_files := (n_trash_files n)(i \<mapsto> b)\<rparr>))" (is "_ = (_, ?mid)")
      using move_to_trash_entry [OF Some] by blast
    have disk: "on_disk ?mid = (on_disk n)(p := None)" using tree by (auto simp: fun_eq_iff on_disk_put)
    have "kept x ?mid" if x: "kept x n" for x
    proof -
      consider q where "on_disk n q = Some x" | e where "e \<in> set (n_trash n)" "n_trash_files n (tr_id e) = Some x"
        using x by (auto simp: kept_def)
      then show ?thesis
      proof cases
        case (1 q)
        then show ?thesis using disk Some by (cases "q = p") (auto simp: kept_def)
      next
        case (2 e)
        then show ?thesis using i(1) by (auto simp: kept_def image_iff intro!: bexI [of _ e])
      qed
    qed
    moreover have "delete_to_trash_by env p why d n = (case delete_file (d_now env) p (the_store ?mid) of
        Inl e \<Rightarrow> (Inl (InIndex e), ?mid) | Inr st \<Rightarrow> (Inr (Some i), on_store (\<lambda>_. st) ?mid))"
      using tree i(2) by (auto simp: delete_to_trash_by_def row Let_def simp flip: entry_def)
    ultimately show ?thesis using disk by (intro exI [of _ "Some i"] exI [of _ ?mid]) simp
  qed
  then obtain i mid where m: "delete_to_trash_by env p why d n = (case delete_file (d_now env) p (the_store mid) of
      Inl e \<Rightarrow> (Inl (InIndex e), mid) | Inr st \<Rightarrow> (Inr i, on_store (\<lambda>_. st) mid))"
    and mid: "n_index mid = n_index n" "on_disk mid = (on_disk n)(p := None)" "\<forall>b. kept b n \<longrightarrow> kept b mid"
      "s_tree (the_store mid) = None \<longleftrightarrow> s_tree (the_store n) = None"by (elim exE conjE) (rule that)
  have ok: "store_ok (the_store mid)" using assms(1) by (simp add: mid(1) flip: n_index_store)
  have "folder_row (s_index (the_store mid)) p = Some (row, s)" using row by (simp add: mid(1) flip: n_index_store)
  then obtain st where st: "delete_file (d_now env) p (the_store mid) = Inr st" by (auto simp: delete_file_def)
  note k = delete_file_keeps [OF ok st]
  have n': "r = Inr i" "n' = on_store (\<lambda>_. st) mid" using assms(2) m st by auto
  have disk: "on_disk n' = (on_disk n)(p := None)" using k mid(2) by (simp add: n' on_disk_store)
  moreover have "kept b n' = kept b mid" for b by (rule kept_same) (use k in \<open>simp_all add: n' on_disk_store\<close>)
  ultimately show ?thesis using k mid(1,3,4) few_files_upd [OF disk] by (simp add: safe_change_def n' flip: n_index_store)
qed

lemma trashed_bytes_kept: "trash_entry i n = Some e \<Longrightarrow> tr_id e = i"
  by (auto simp: trash_entry_def dest: find_SomeD)

lemma first_free_is_free: "first_free taken name k = Some q \<Longrightarrow> \<not> taken q"
  by (rule first_free.raw_induct [of "\<lambda>taken name k q. \<not> taken q"]) (auto split: if_splits)

lemma free_path_near_free: "free_path_near n p = Some q \<Longrightarrow> \<not> name_taken n q"
  and free_path_labelled_free: "free_path_labelled n p label = Some q \<Longrightarrow> \<not> name_taken n q"
  using first_free_is_free by (auto simp: free_path_near_def free_path_labelled_def Let_def split: if_splits)

lemma store_change_safe:
  assumes "store_ok st'" and "s_tree st' = s_tree (the_store n)"
  shows "safe_change n (on_store (\<lambda>_. st') n)"
proof -
  have disk: "on_disk (on_store (\<lambda>_. st') n) = on_disk n" using assms(2) by (simp add: on_disk_store)
  have "kept b (on_store (\<lambda>_. st') n) = kept b n" for b by (rule kept_same) (simp_all add: disk)
  then show ?thesis using assms few_files_same [OF disk] by (simp add: safe_change_def)
qed

lemma put_listed_safe:
  assumes "store_ok (the_store n)"
  shows "safe_change n (put_listed env p row m n)"
proof -
  let ?pl = "pl_local\<lparr>pl_vault := Some (me (n_index n)), pl_by_reference := True\<rparr>"
  obtain stats st where put: "put_manifest (k_sealed (d_codec env)) (d_now env) p m [] (f_mtime row) ?pl (the_store n) = (stats, st)"
    by fastforce
  have about: "about p ?pl" by (simp add: about_def pl_local_def)
  let ?st' = "st\<lparr>s_index := set_materialised p False (s_index st)\<rparr>"
  have n': "put_listed env p row m n = on_store (\<lambda>_. ?st') n"
    using put by (simp add: put_listed_def Let_def on_store_def the_store_def)
  show ?thesis unfolding n'
    by (rule store_change_safe) (use put_manifest_keeps [OF assms about put] in \<open>simp_all add: index_ok_set_materialised\<close>)
qed

lemma remove_trash_safe: "store_ok (the_store n) \<Longrightarrow> n_trash_files n i = None \<Longrightarrow> safe_change n (remove_trash i n)"
  by (auto simp: safe_change_def kept_def few_files_def) (auto simp: remove_trash_def)

lemma placed_safe:
  \<comment> \<open>a file put in place, and then into the index\<close>
  assumes "store_ok (the_store n)" and "s_tree (the_store n) \<noteq> None" and "scope \<in> {None, Some (me (n_index n))}"
    and "put_file_in env p scope (put_on_disk p (Some data) n) = (r, n')"
  shows "\<not> isl r \<and> store_ok (the_store n') \<and> on_disk n' = (on_disk n)(p \<mapsto> data) \<and> n_trash n' = n_trash n
    \<and> n_trash_files n' = n_trash_files n"
proof -
  let ?n1 = "put_on_disk p (Some data) n"
  have disk: "on_disk ?n1 = (on_disk n)(p \<mapsto> data)" using assms(2) by (auto simp: fun_eq_iff on_disk_put)
  have "store_ok (the_store ?n1)" "on_disk ?n1 p = Some data" using assms(1) disk by (simp_all flip: n_index_store)
  from put_file_in_keeps [OF this(1) _ this(2), of scope env] assms(3,4)
  obtain stats st' where "r = Inr stats" "n' = on_store (\<lambda>_. st') ?n1" "store_ok st'" "s_tree st' = s_tree (the_store ?n1)"
    by auto
  then show ?thesis using disk by (simp add: on_disk_store)
qed

lemma restore_safe:
  assumes "store_ok (the_store n)" and "restore_from_trash env i n = Some (r, n')"
  shows "safe_change n n'"
proof (cases "s_tree (the_store n) = None \<or> trash_entry i n = None \<or> is_rule_path (tr_path (the (trash_entry i n)))")
  case True
  then have "n' = n"
    using assms(2) by (cases "s_tree (the_store n) = None"; cases "trash_entry i n") (auto simp: restore_from_trash_def)
  then show ?thesis using assms(1) by (simp add: safe_change_refl)
next
  case False
  then obtain e where e: "trash_entry i n = Some e" "\<not> is_rule_path (tr_path e)" and tree: "s_tree (the_store n) \<noteq> None" by auto
  have id: "tr_id e = i" by (rule trashed_bytes_kept [OF e(1)])
  note ok = assms(1)
  have finish: "safe_change n n'"
    if q: "safe_change n n1" "n_trash_files n1 i = None" "(r, n') = (case q of Inl e \<Rightarrow> (Inl e, n1) | Inr t \<Rightarrow> (Inr t, remove_trash i n1))"
    for q :: "refusal + string" and n1
    using q remove_trash_safe [of n1 i] by (auto simp: safe_change_def split: sum.splits)
  show ?thesis
  proof (cases "n_trash_files n i")
    case None
    show ?thesis
    proof (cases "tr_scope e")
      case no_owner: None
      then have "n' = n" using assms(2) e tree None by (auto simp: restore_from_trash_def)
      then show ?thesis using assms(1) by (simp add: safe_change_refl)
    next
      case (Some owner)
      show ?thesis
      proof (cases "owner = me (n_index n)")
        case True
        then obtain q n1 where f: "restore_freed env e n = Some (q, n1)"
          and end_: "(r, n') = (case q of Inl e \<Rightarrow> (Inl e, n1) | Inr t \<Rightarrow> (Inr t, remove_trash i n1))"
          using assms(2) e tree None Some by (auto simp: restore_from_trash_def)
        have "safe_change n n1 \<and> n_trash_files n1 i = None"
          using f None assms(1) put_listed_safe [OF assms(1)]
          by (auto simp: restore_freed_def put_listed_def safe_change_refl split: option.splits)
        then show ?thesis using finish end_ by blast
      next
        case False
        then obtain q n1 where f: "restore_held env e owner n = (q, n1)"
          and end_: "(r, n') = (case q of Inl e \<Rightarrow> (Inl e, n1) | Inr t \<Rightarrow> (Inr t, remove_trash i n1))"
          using assms(2) e tree None Some by (cases "restore_held env e owner n") (auto simp: restore_from_trash_def)
        have "safe_change n n1 \<and> n_trash_files n1 i = None"
        proof (cases "n1 = n")
          case True
          then show ?thesis using None assms(1) by (simp add: safe_change_refl)
        next
          case changed: False
          then obtain row m where "deleted_row_in (n_index n) (tr_path e) owner (tr_content e) = Some row"
            "listed_manifest (n_index n) row = Some m"
            using f by (auto simp: restore_held_def Let_def split: option.splits if_splits)
          moreover define v where "v = file_of (tr_path e) (f_hash row) (word_of_nat (f_size row)) (increment (f_vector row) (me (n_index n)))
              (me (n_index n)) (word_of_int (d_now env))"
          ultimately have n1: "n1 = on_store (\<lambda>st. snd (put_manifest (k_sealed (d_codec env)) (d_now env) (tr_path e) m [] (f_mtime row)
              ((pl_remote v)\<lparr>pl_vault := Some owner, pl_held := True\<rparr>) st)) n" and v: "path v = tr_path e"
            using f changed by (auto simp: restore_held_def Let_def file_of_def split: if_splits)
          let ?pl = "(pl_remote v)\<lparr>pl_vault := Some owner, pl_held := True\<rparr>"
          obtain stats st where put: "put_manifest (k_sealed (d_codec env)) (d_now env) (tr_path e) m [] (f_mtime row) ?pl (the_store n) = (stats, st)"
            by fastforce
          have about: "about (tr_path e) ?pl" using v by (simp add: about_def pl_remote_def)
          have n1': "n1 = on_store (\<lambda>_. st) n" using put by (simp add: n1 on_store_def the_store_def)
          show ?thesis
            using store_change_safe [of st n] put_manifest_keeps [OF ok about put] None by (simp add: n1')
        qed
        then show ?thesis using finish end_ by blast
      qed
    qed
  next
    case (Some data)
    then obtain target where free: "free_path_near n (tr_path e) = Some target"
      using assms(2) e tree id by (auto simp: restore_from_trash_def restore_file_kept_def)
    let ?n0 = "n\<lparr>n_trash_files := (n_trash_files n)(i := None)\<rparr>"
    let ?scope = "if tr_scope e = Some (me (n_index n)) then tr_scope e else None"
    obtain q n1 where put: "put_file_in env target ?scope (put_on_disk target (Some data) ?n0) = (q, n1)" by fastforce
    have placed: "\<not> isl q \<and> store_ok (the_store n1) \<and> on_disk n1 = (on_disk n)(target \<mapsto> data) \<and> n_trash n1 = n_trash n
        \<and> n_trash_files n1 = (n_trash_files n)(i := None)"
      using placed_safe [OF _ _ _ put] ok tree by simp
    have "on_disk n target = None" using free_path_near_free [OF free] by (auto simp: name_taken_def)
    then have "kept b n1" if "kept b n" for b
      using that placed Some by (auto simp: kept_def) (metis (no_types) fun_upd_apply option.distinct(1), metis option.inject)
    then have "safe_change n n1" using placed few_files_upd [of n1 n target] by (simp add: safe_change_def)
    moreover have "(r, n') = (case map_sum id (\<lambda>_. target) q of Inl e \<Rightarrow> (Inl e, n1) | Inr t \<Rightarrow> (Inr t, remove_trash i n1))"
      using assms(2) e tree id Some put free by (auto simp: restore_from_trash_def restore_file_kept_def split: sum.splits)
    ultimately show ?thesis using finish placed by auto
  qed
qed

lemma then_delete_safe:
  assumes "safe_change n n1" and "\<And>st. delete_file now p (the_store n1) = Inr st \<Longrightarrow> n' = on_store (\<lambda>_. st) n1"
    and "\<And>e. delete_file now p (the_store n1) = Inl e \<Longrightarrow> n' = n1"
  shows "safe_change n n'"
proof (cases "delete_file now p (the_store n1)")
  case (Inr st)
  have "store_ok (the_store n1)" using assms(1) by (simp add: safe_change_def)
  from delete_file_keeps [OF this Inr] show ?thesis
    using store_change_safe [of st n1] assms(1,2) Inr safe_change_trans by blast
qed (use assms in simp)

lemma rename_in_folder_safe:
  assumes "store_ok (the_store n)" and "s_tree (the_store n) \<noteq> None" and "scope \<in> {None, Some (me (n_index n))}"
    and "on_disk n target = None" and "rename_in_folder env source target scope n = (r, n')"
  shows "safe_change n n'"
proof (cases "on_disk n source")
  case None
  then show ?thesis using assms(1,5) by (auto simp: rename_in_folder_def safe_change_refl)
next
  case (Some data)
  let ?n0 = "put_on_disk source None n"
  have disk0: "on_disk ?n0 = (on_disk n)(source := None)" using assms(2) by (auto simp: fun_eq_iff on_disk_put)
  obtain q n1 where put: "put_file_in env target scope (put_on_disk target (Some data) ?n0) = (q, n1)" by fastforce
  have placed: "\<not> isl q \<and> store_ok (the_store n1) \<and> on_disk n1 = (on_disk ?n0)(target \<mapsto> data) \<and> n_trash n1 = n_trash n
      \<and> n_trash_files n1 = n_trash_files n"
    using placed_safe [OF _ _ _ put] assms(1-3) by (simp flip: n_index_store)
  have "kept b n1" if "kept b n" for b
    using that Some placed disk0 assms(4)
    by (auto simp: kept_def) (metis (no_types) fun_upd_apply option.inject option.distinct(1))
  then have "safe_change n n1"
    using placed few_files_upd [OF disk0] few_files_upd [of n1 ?n0 target] by (simp add: safe_change_def)
  then show ?thesis
    by (rule then_delete_safe [of _ _ "d_now env" source]) (use assms(5) Some put placed in \<open>auto simp: rename_in_folder_def split: sum.splits\<close>)
qed

lemma rename_freed_safe:
  assumes "store_ok (the_store n)" and "rename_freed env source target n = (r, n')"
  shows "safe_change n n'"
proof (cases "n' = n")
  case False
  then obtain row m where rm: "in_folder (n_index n) source = Some row" "listed_manifest (n_index n) row = Some m"
    using assms(2) by (auto simp: rename_freed_def split: option.splits)
  show ?thesis
    by (rule then_delete_safe [OF put_listed_safe [OF assms(1), of env target row m], of "d_now env" source])
      (use assms(2) rm in \<open>auto simp: rename_freed_def Let_def\<close>)
qed (use assms(1) safe_change_refl in simp)

lemma rename_safe:
  assumes "store_ok (the_store n)" and "rename_file env source to n = (r, n')"
  shows "safe_change n n'"
proof (cases "n' = n")
  case False
  then obtain row scope where row: "folder_row (n_index n) source = Some (row, scope)"
    and "s_tree (the_store n) \<noteq> None" "\<not> name_taken n (trim_both to)"
    and "rename_in_folder env source (trim_both to) scope n = (r, n') \<or> rename_freed env source (trim_both to) n = (r, n')"
    using assms(2) by (auto simp: rename_file_def Let_def split: option.splits if_splits)
  then show ?thesis
    using rename_in_folder_safe [OF assms(1) _ folder_row_scope [OF row]] rename_freed_safe [OF assms(1)]
    by (auto simp: name_taken_def)
qed (use assms(1) safe_change_refl in simp)

lemma search_returns:
  assumes "few_files n"
  shows "free_path_near n p \<noteq> None" and "free_path_labelled n p label \<noteq> None"
proof -
  note fin = name_taken_finite [OF assms [unfolded few_files_def]]
  let ?label = "if trim (label_chars label) = [] then ''other version'' else label_chars label"
  have "CHR ''/'' \<notin> set ?label" using label_chars_no_slash by simp
  then show "free_path_labelled n p label \<noteq> None"
    using first_free_labelled [OF fin, of ?label p] unfolding free_path_labelled_def Let_def by fastforce
  show "free_path_near n p \<noteq> None"
    using first_free_labelled [OF fin, of "''restored''" p] by (fastforce simp: free_path_near_def)
qed

lemma then_path_snd: "then_path p s = (r, n') \<Longrightarrow> \<exists>q. s = (q, n')"
  by (auto simp: then_path_def split: prod.splits sum.splits)

definition settles_clear :: "change_here \<Rightarrow> node \<Rightarrow> bool" where
  \<comment> \<open>a file under the original's name is one the index has\<close>
  "settles_clear c n \<longleftrightarrow>
     (case c of
        Settle copy KeepCopy _ \<Rightarrow>
          (case conflict_origin copy of
             None \<Rightarrow> True
           | Some name \<Rightarrow> folder_row (n_index n) (original name) = None \<longrightarrow> on_disk n (original name) = None)
      | _ \<Rightarrow> True)"

lemma settle_safe:
  assumes "store_ok (the_store n)" and "settle_conflict env copy keep label n = Some (r, n')"
    and "settles_clear (Settle copy keep label) n"
  shows "safe_change n n'"
proof (cases "n' = n")
  case False
  let ?why = "Some ''the version not kept when a conflict was settled''"
  obtain name copy_row copy_scope where name: "conflict_origin copy = Some name"
    and row: "folder_row (n_index n) copy = Some (copy_row, copy_scope)" and tree: "s_tree (the_store n) \<noteq> None"
    using assms(2) False by (auto simp: settle_conflict_def split: option.splits if_splits)
  note settle = assms(2) [unfolded settle_conflict_def, simplified name row option.case prod.case]
  show ?thesis
  proof (cases keep)
    case KeepOriginal
    then have "then_path (original name) (delete_to_trash env copy ?why n) = (r, n')" using settle tree by (simp add: Let_def)
    then obtain q where "delete_to_trash env copy ?why n = (q, n')" using then_path_snd by blast
    then show ?thesis using delete_safe [OF assms(1)] by (simp add: delete_to_trash_def)
  next
    case KeepBoth
    then obtain target where "free_path_labelled n (original name) label = Some target"
      and "then_path target (rename_in_folder env copy target copy_scope n) = (r, n')"
      using settle tree False by (auto simp: Let_def split: if_splits)
    moreover from this(2) obtain q where "rename_in_folder env copy target copy_scope n = (q, n')" using then_path_snd by blast
    ultimately show ?thesis
      using rename_in_folder_safe [OF assms(1) tree folder_row_scope [OF row]] free_path_labelled_free
      unfolding name_taken_def by blast
  next
    case KeepCopy
    show ?thesis
    proof (cases "folder_row (n_index n) (original name)")
      case None
      then have "then_path (original name) (rename_in_folder env copy (original name) copy_scope n) = (r, n')"
        using settle tree False KeepCopy by (auto simp: Let_def split: if_splits)
      then obtain q where "rename_in_folder env copy (original name) copy_scope n = (q, n')" using then_path_snd by blast
      moreover have "on_disk n (original name) = None" using assms(3) None name KeepCopy by (simp add: settles_clear_def)
      ultimately show ?thesis using rename_in_folder_safe [OF assms(1) tree folder_row_scope [OF row]] by blast
    next
      case (Some found)
      then obtain orig scope where orig: "folder_row (n_index n) (original name) = Some (orig, scope)" by (cases found) auto
      obtain q n1 where d: "delete_to_trash env (original name) ?why n = (q, n1)" by fastforce
      note gone = delete_safe [OF assms(1) d [unfolded delete_to_trash_def]]
      have "n' = n1 \<or> (\<not> isl q \<and> then_path (original name) (rename_in_folder env copy (original name) scope n1) = (r, n'))"
        using settle tree False KeepCopy orig d by (cases q) (auto simp: Let_def split: if_splits)
      then have "n' = n1 \<or> (\<not> isl q \<and> (\<exists>q'. rename_in_folder env copy (original name) scope n1 = (q', n')))"
        using then_path_snd by blast
      then show ?thesis
        using gone rename_in_folder_safe [of n1 scope "original name" env copy] tree folder_row_scope [OF orig] safe_change_trans
        by (auto simp: safe_change_def)
    qed
  qed
qed (use assms(1) safe_change_refl in simp)

lemma make_change_safe:
  assumes "store_ok (the_store n)" and "settles_clear c n" and "make_change env c n = Some n'"
  shows "safe_change n n'"
proof (cases c)
  case (Delete p)
  then show ?thesis
    using assms(3) delete_safe [OF assms(1) surjective_pairing, of env p None "me (n_index n)"]
    by (auto simp: make_change_def delete_to_trash_def)
next
  case (PutBack i)
  then show ?thesis using assms(1,3) restore_safe by (auto simp: make_change_def)
next
  case (Rename source to)
  then show ?thesis using assms(3) rename_safe [OF assms(1) surjective_pairing, of env source to] by (auto simp: make_change_def)
next
  case (Settle copy keep label)
  then show ?thesis using assms settle_safe by (auto simp: make_change_def)
qed

lemma make_change_returns:
  assumes "few_files n"
  shows "make_change env c n \<noteq> None"
proof -
  note near = search_returns [OF assms]
  have freed: "restore_freed env e n \<noteq> None" for e
    using near(1) by (simp add: restore_freed_def del: not_None_eq split: option.split)
  have kept_file: "restore_file_kept env e b n \<noteq> None" for e b
    using near(1) by (simp add: restore_file_kept_def del: not_None_eq split: option.split)
  have "restore_from_trash env i n \<noteq> None" for i
    using freed kept_file near(1) by (simp add: restore_from_trash_def del: not_None_eq split: option.split)
  moreover have "settle_conflict env copy keep label n \<noteq> None" for copy keep label
    using near(2) by (simp add: settle_conflict_def Let_def del: not_None_eq split: option.split keep.split sum.split prod.split)
  ultimately show ?thesis by (cases c) (simp_all add: make_change_def del: not_None_eq)
qed

fun run_clear :: "(desk \<times> change_here) list \<Rightarrow> node \<Rightarrow> bool" where
  "run_clear [] n = True"
| "run_clear ((env, c) # cs) n = (settles_clear c n \<and> (case make_change env c n of None \<Rightarrow> True | Some n' \<Rightarrow> run_clear cs n'))"

text \<open>C38: Whatever a person does to files here, nothing is lost. On a folder with finitely many files,
  any run of deletions, files put back, renames and settled conflicts, refused ones included, comes to
  an end, and every content that was in the folder or in Recently deleted is then in one of them,
  provided no conflict was settled over a file the index had not seen.\<close>

theorem changes_lose_nothing:
  assumes "store_ok (the_store n)" and "finite {q. on_disk n q \<noteq> None}" and "run_clear cs n"
  shows "\<exists>n'. make_changes cs n = Some n' \<and> (\<forall>b. kept b n \<longrightarrow> kept b n')"
proof -
  have "\<exists>n'. fold (\<lambda>(env, c) r. Option.bind r (make_change env c)) cs (Some n) = Some n' \<and> safe_change n n'"
    using assms(1,3) assms(2) [folded few_files_def]
  proof (induction cs arbitrary: n)
    case Nil
    then show ?case by (simp add: safe_change_refl)
  next
    case (Cons ec cs)
    obtain env c where ec: "ec = (env, c)" by (cases ec)
    obtain n1 where one: "make_change env c n = Some n1" using make_change_returns [OF Cons.prems(3)] by blast
    have s: "safe_change n n1" using make_change_safe [OF Cons.prems(1) _ one] Cons.prems(2) ec by simp
    then have "store_ok (the_store n1)" "few_files n1" using Cons.prems(3) by (simp_all add: safe_change_def)
    then obtain n' where "fold (\<lambda>(env, c) r. Option.bind r (make_change env c)) cs (Some n1) = Some n'" "safe_change n1 n'"
      using Cons.IH [of n1] Cons.prems(2) ec one by auto
    then show ?case using s safe_change_trans ec one by auto
  qed
  then show ?thesis by (auto simp: make_changes_def safe_change_def)
qed

subsection \<open>What a settled conflict can replace\<close>

lemma rename_in_folder_replaces:
  assumes "store_ok (the_store n)" and "s_tree (the_store n) \<noteq> None" and "scope \<in> {None, Some (me (n_index n))}"
    and "on_disk n source = Some data" and "rename_in_folder env source target scope n = (r, n')"
  shows "on_disk n' = (on_disk n)(source := None, target \<mapsto> data) \<and> n_trash n' = n_trash n \<and> n_trash_files n' = n_trash_files n"
proof -
  let ?n0 = "put_on_disk source None n"
  have disk0: "on_disk ?n0 = (on_disk n)(source := None)" using assms(2) by (auto simp: fun_eq_iff on_disk_put)
  obtain q n1 where put: "put_file_in env target scope (put_on_disk target (Some data) ?n0) = (q, n1)" by fastforce
  have placed: "\<not> isl q \<and> store_ok (the_store n1) \<and> on_disk n1 = (on_disk ?n0)(target \<mapsto> data) \<and> n_trash n1 = n_trash n
      \<and> n_trash_files n1 = n_trash_files n"
    using placed_safe [OF _ _ _ put] assms(1-3) by (simp flip: n_index_store)
  show ?thesis
  proof (cases "delete_file (d_now env) source (the_store n1)")
    case (Inl e)
    then show ?thesis using assms(4,5) put placed disk0 by (auto simp: rename_in_folder_def split: sum.splits)
  next
    case (Inr st)
    have "n' = on_store (\<lambda>_. st) n1" using assms(4,5) put placed Inr by (auto simp: rename_in_folder_def split: sum.splits)
    moreover have "s_tree st = s_tree (the_store n1)" using delete_file_keeps [OF _ Inr] placed by blast
    ultimately show ?thesis using placed disk0 by (simp add: on_disk_store)
  qed
qed

text \<open>
  A file that is on disk under the original's name and not yet in the index (a scan has not come round
  since it was saved) is replaced by the copy: \<open>settle_conflict\<close> moves to Recently deleted only what
  the index has under the name, and \<open>rename_in_folder\<close> does not look. This is the case that
  \<open>settles_clear\<close> leaves out of the property above.
\<close>

lemma settling_replaces_an_unseen_file:
  assumes "store_ok (the_store n)" and "s_tree (the_store n) \<noteq> None"
    and "conflict_origin copy = Some name" and "folder_row (n_index n) copy = Some (row, scope)"
    and "is_materialised (n_index n) copy = Some True" and "on_disk n copy = Some data"
    and "folder_row (n_index n) (original name) = None" and "kept unseen n" and "data \<noteq> unseen"
    and "\<forall>q. on_disk n q = Some unseen \<longrightarrow> q = original name" and "\<forall>e \<in> set (n_trash n). n_trash_files n (tr_id e) \<noteq> Some unseen"
  shows "\<exists>r n'. settle_conflict env copy KeepCopy label n = Some (r, n') \<and> \<not> kept unseen n'"
proof -
  obtain r n' where moved: "rename_in_folder env copy (original name) scope n = (r, n')" by fastforce
  have "settle_conflict env copy KeepCopy label n = Some (then_path (original name) (r, n'))"
    using assms(2-7) moved by (auto simp: settle_conflict_def Let_def)
  moreover have "\<not> kept unseen n'"
    using rename_in_folder_replaces [OF assms(1,2) folder_row_scope [OF assms(4)] assms(6) moved] assms(9-11)
    by (auto simp: kept_def split: if_splits)
  ultimately show ?thesis by (cases "then_path (original name) (r, n')") (auto simp: then_path_def split: sum.splits)
qed

theorem changes_lose_nothing_witness:
  "\<exists>n'. make_changes [(desk_at 200, Delete ''a.txt''), (desk_at 250, Rename ''a.txt'' ''b.txt''),
      (desk_at 260, Settle ''a.conflict-0a0a0a0a-2024-01-01T00-00-0.txt'' KeepOriginal ''''), (desk_at 300, PutBack 1)] noted = Some n'
    \<and> kept [1] n'"
proof -
  let ?cs = "[(desk_at 200, Delete ''a.txt''), (desk_at 250, Rename ''a.txt'' ''b.txt''),
      (desk_at 260, Settle ''a.conflict-0a0a0a0a-2024-01-01T00-00-0.txt'' KeepOriginal ''''), (desk_at 300, PutBack 1)]"
  have "{q. on_disk noted q \<noteq> None} = {''a.txt''}" by (auto simp: noted_disk)
  then have fin: "finite {q. on_disk noted q \<noteq> None}" by simp
  have "run_clear ?cs noted" by (simp add: settles_clear_def split: option.split)
  from changes_lose_nothing [OF noted_ok(1) fin this] show ?thesis by (auto simp: kept_def noted_disk)
qed

end
