(* ===== verification/Browse.thy ===== *)
theory Browse imports Moves
begin

section \<open>Folders as they are shown (\<open>person.rs\<close>, \<open>shared_folder.rs\<close> and \<open>db.rs\<close> of \<open>crates/storage/src\<close>)\<close>

text \<open>
  A person's folder as a computer that keeps it draws it, and a computer's shared folder as a phone
  reaches it: one directory at a time, or the results of a search. Both are read from the tables of
  \<open>Audience\<close>; the directories on disk are an argument. What text is in lower case is Unicode's to say,
  and an argument too.
\<close>

subsection \<open>Queries\<close>

definition split_once :: "string \<Rightarrow> (string \<times> string) option" where
  \<comment> \<open>\<open>split_once('/')\<close>\<close>
  "split_once s =
     (let a = takeWhile (\<lambda>c. c \<noteq> CHR ''/'') s
      in if length a = length s then None else Some (a, drop (length a + 1) s))"

definition entries_of :: "file_row list \<Rightarrow> (string \<times> nat \<times> int \<times> hash) list" where
  "entries_of rows = map (\<lambda>f. (f_path f, f_size f, f_mtime f, f_hash f)) (in_order (filter (\<lambda>f. length (f_hash f) = 32) rows))"

definition shared_entries_where :: "peers_db \<Rightarrow> string \<Rightarrow> device_id \<Rightarrow> (file_row \<Rightarrow> bool) \<Rightarrow> (string \<times> nat \<times> int \<times> hash) list" where
  "shared_entries_where db dir d P =
     (let dir = trim_both dir
      in entries_of (filter (\<lambda>f. f_scope f = None \<and> f_deleted f = None \<and> P f
           \<and> (dir = [] \<or> take (length dir + 1) (f_path f) = dir @ ''/'') \<and> shared_with db (f_path f) (Some d)) (files (a_index db))))"

definition shared_entries_under :: "peers_db \<Rightarrow> string \<Rightarrow> device_id \<Rightarrow> (string \<times> nat \<times> int \<times> hash) list" where
  "shared_entries_under db dir d = shared_entries_where db dir d (\<lambda>_. True)"

definition shared_entries_here :: "peers_db \<Rightarrow> string \<Rightarrow> device_id \<Rightarrow> (string \<times> nat \<times> int \<times> hash) list" where
  "shared_entries_here db dir d = shared_entries_where db dir d f_here"

definition shared_path_reachable :: "peers_db \<Rightarrow> string \<Rightarrow> device_id \<Rightarrow> bool" where
  "shared_path_reachable db p d \<longleftrightarrow> shared_with db (trim_both p) (Some d)"

definition held_rows :: "peers_db \<Rightarrow> device_id \<Rightarrow> file_row list" where
  "held_rows db owner = filter (\<lambda>f. f_scope f = Some owner \<and> f_held f \<and> f_deleted f = None) (files (a_index db))"

definition held_entries :: "peers_db \<Rightarrow> device_id \<Rightarrow> (string \<times> nat \<times> int \<times> hash) list" where
  "held_entries db owner = entries_of (held_rows db owner)"

definition held_for :: "peers_db \<Rightarrow> device_id \<Rightarrow> nat \<times> nat" where
  "held_for db owner = (length (held_rows db owner), sum_list (map f_size (held_rows db owner)))"

subsection \<open>A person's folder\<close>

record shown_file =
  sh_name :: string
  sh_path :: string
  sh_owner :: device_id
  sh_content :: hash
  sh_size :: nat
  sh_modified :: int

definition whole_seconds :: "int \<Rightarrow> int" where
  \<comment> \<open>division towards zero\<close>
  "whole_seconds ns = (if ns < 0 then - (- ns div 1000000000) else ns div 1000000000)"

definition shown_as :: "string \<Rightarrow> string option" where
  "shown_as p =
     (case strip_prefix p OUTSIDE_DIR of
        Some rest \<Rightarrow>
          (case split_once rest of
             Some (kind, rest) \<Rightarrow>
               if kind = ''whatsapp'' then Some (''WhatsApp/'' @ rest)
               else if kind = ''storage'' then Some rest
               else if kind = ''folders'' then Some rest
               else None
           | None \<Rightarrow> None)
      | None \<Rightarrow> Some (''Private Vault/'' @ p))"

definition shown_entry :: "string \<Rightarrow> device_id \<Rightarrow> string \<times> nat \<times> int \<times> hash \<Rightarrow> (string \<times> shown_file) option" where
  "shown_entry name owner = (\<lambda>(p, sz, mtime, h).
     map_option (\<lambda>at. (name @ ''/'' @ at,
       \<lparr>sh_name = [], sh_path = p, sh_owner = owner, sh_content = h, sh_size = sz, sh_modified = whole_seconds mtime\<rparr>)) (shown_as p))"

fun first_at_each :: "(string \<times> 'a) list \<Rightarrow> string list \<Rightarrow> (string \<times> 'a) list" where
  \<comment> \<open>the set \<open>seen\<close> as the list of what was pushed\<close>
  "first_at_each [] seen = []"
| "first_at_each ((p, x) # xs) seen =
     (if p \<in> set seen then first_at_each xs seen else (p, x) # first_at_each xs (p # seen))"

definition merged_files :: "peers_db \<Rightarrow> string \<Rightarrow> device_id list \<Rightarrow> (string \<times> shown_file) list" where
  "merged_files db name ids =
     first_at_each (concat (map (\<lambda>owner. List.map_filter (shown_entry name owner) (held_entries db owner)) ids)) []"

type_synonym device_folder = "string \<times> device_id list"

definition person_listing :: "peers_db \<Rightarrow> device_folder list \<Rightarrow> string \<Rightarrow> string list \<times> shown_file list" where
  "person_listing db devs dir =
     (let dir = trim_both dir
      in if dir = [] then (map fst devs, [])
         else (case find (\<lambda>(name, _). name = (case split_once dir of Some (at, _) \<Rightarrow> at | None \<Rightarrow> dir)) devs of
             None \<Rightarrow> ([], [])
           | Some (name, ids) \<Rightarrow>
               (let beneath = List.map_filter (\<lambda>(shown, file). map_option (\<lambda>rest. (rest, file)) (strip_prefix shown (dir @ ''/'')))
                      (merged_files db name ids)
                in (sort (remdups (List.map_filter (\<lambda>(rest, _). map_option fst (split_once rest)) beneath)),
                    sort_key sh_name (List.map_filter
                      (\<lambda>(rest, file). if split_once rest = None then Some (file\<lparr>sh_name := rest\<rparr>) else None) beneath)))))"

definition contains_text :: "string \<Rightarrow> string \<Rightarrow> bool" where
  "contains_text s t \<longleftrightarrow> list_ex (\<lambda>i. starts_with (drop i s) t) [0..<Suc (length s)]"

definition newest_first :: "shown_file list \<Rightarrow> shown_file list" where
  \<comment> \<open>by both keys: both sorts keep the order of equals\<close>
  "newest_first = sort_key (\<lambda>f. - sh_modified f) \<circ> sort_key sh_name"

definition person_search :: "(string \<Rightarrow> string) \<Rightarrow> peers_db \<Rightarrow> device_folder list \<Rightarrow> string \<Rightarrow> nat \<Rightarrow> shown_file list" where
  "person_search lower db devs wanted limit =
     (let wanted = lower (trim wanted)
      in if wanted = [] then []
         else take limit (newest_first (map (\<lambda>(shown, file). file\<lparr>sh_name := shown\<rparr>)
           (filter (\<lambda>(shown, _). contains_text (lower shown) wanted)
             (concat (map (\<lambda>(name, ids). merged_files db name ids) devs))))))"

definition own_phones :: "peers_db \<Rightarrow> device_id \<Rightarrow> device_folder list" where
  "own_phones db asker =
     [(case find (\<lambda>p. tp_id p = asker) (a_peers db) of Some p \<Rightarrow> tp_name p | None \<Rightarrow> '''',
       asker # filter (\<lambda>i. fst (held_for db i) > 0) (earlier_selves db asker))]"

subsection \<open>The shared folder\<close>

definition shared_shown :: "device_id \<Rightarrow> string \<Rightarrow> string \<times> nat \<times> int \<times> hash \<Rightarrow> shown_file" where
  "shared_shown keeper name = (\<lambda>(p, sz, mtime, h).
     \<lparr>sh_name = name, sh_path = p, sh_owner = keeper, sh_content = h, sh_size = sz, sh_modified = whole_seconds mtime\<rparr>)"

definition below :: "string \<Rightarrow> string \<Rightarrow> string" where
  \<comment> \<open>a path without the folder it is in\<close>
  "below dir p = (if dir = [] then p else drop (length dir + 1) p)"

definition in_dir :: "string \<Rightarrow> string \<Rightarrow> string" where
  "in_dir dir name = (if dir = [] then name else dir @ ''/'' @ name)"

definition shared_listing :: "peers_db \<Rightarrow> (string \<Rightarrow> string list) option \<Rightarrow> device_id \<Rightarrow> device_id \<Rightarrow> string \<Rightarrow>
    string list \<times> shown_file list" where
  \<comment> \<open>\<open>disk\<close>: the names of the directories, not links, that lie in one on disk; none if it is not one\<close>
  "shared_listing db disk keeper d dir =
     (let dir = trim_both dir
      in if dir \<noteq> [] \<and> (\<not> is_safe_path dir \<or> \<not> shared_path_reachable db dir d) then ([], [])
         else
           (let rows = filter (\<lambda>(p, _). \<not> is_rule_path p) (shared_entries_here db dir d);
                folders = List.map_filter (\<lambda>(p, _). map_option fst (split_once (below dir p))) rows;
                shown = List.map_filter (\<lambda>r. if split_once (below dir (fst r)) = None then Some (shared_shown keeper (below dir (fst r)) r)
                    else None) rows;
                hidden = list_ex (\<lambda>part. starts_with part ''.'') (split_on CHR ''/'' dir);
                empties = (case disk of
                    Some read_dir \<Rightarrow> if hidden then []
                      else filter (\<lambda>name. \<not> starts_with name ''.'' \<and> shared_path_reachable db (in_dir dir name) d) (read_dir dir)
                  | None \<Rightarrow> [])
            in (sort (remdups (folders @ empties)), shown)))"

definition shared_search :: "(string \<Rightarrow> string) \<Rightarrow> peers_db \<Rightarrow> device_id \<Rightarrow> device_id \<Rightarrow> string \<Rightarrow> nat \<Rightarrow> shown_file list" where
  "shared_search lower db keeper d wanted limit =
     (let wanted = lower (trim wanted)
      in if wanted = [] then []
         else take limit (newest_first (map (\<lambda>r. shared_shown keeper (fst r) r)
           (filter (\<lambda>(p, _). \<not> is_rule_path p \<and> contains_text (lower p) wanted) (shared_entries_here db '''' d)))))"

subsection \<open>What is listed\<close>

lemma split_once_None [simp]: "split_once s = None \<longleftrightarrow> CHR ''/'' \<notin> set s"
proof
  assume "split_once s = None"
  then have "length (takeWhile (\<lambda>c. c \<noteq> CHR ''/'') s) = length s" by (simp add: split_once_def Let_def split: if_splits)
  then have "takeWhile (\<lambda>c. c \<noteq> CHR ''/'') s = s" by (metis order_refl take_all takeWhile_eq_take)
  then show "CHR ''/'' \<notin> set s" unfolding takeWhile_eq_all_conv by blast
next
  assume "CHR ''/'' \<notin> set s"
  then have "takeWhile (\<lambda>c. c \<noteq> CHR ''/'') s = s" unfolding takeWhile_eq_all_conv by blast
  then show "split_once s = None" by (simp add: split_once_def Let_def del: takeWhile_eq_all_conv)
qed

lemma split_once_Some: "split_once s = Some (a, b) \<longleftrightarrow> s = a @ CHR ''/'' # b \<and> CHR ''/'' \<notin> set a"
proof
  assume h: "split_once s = Some (a, b)"
  let ?t = "takeWhile (\<lambda>c. c \<noteq> CHR ''/'') s"
  have a: "a = ?t" "b = drop (Suc (length a)) s" "length ?t \<noteq> length s"
    using h by (auto simp: split_once_def Let_def split: if_splits)
  have less: "length a < length s"
    using a(3) length_takeWhile_le[of "\<lambda>c. c \<noteq> CHR ''/''" s] unfolding a(1) by linarith
  then have "s ! length a = CHR ''/''" using a(1) nth_length_takeWhile[of "\<lambda>c. c \<noteq> CHR ''/''" s] by simp
  moreover have "s = take (length a) s @ s ! length a # drop (Suc (length a)) s" using less by (rule id_take_nth_drop)
  moreover have "take (length a) s = a" unfolding a(1) by (rule takeWhile_eq_take[symmetric])
  ultimately show "s = a @ CHR ''/'' # b \<and> CHR ''/'' \<notin> set a" using a(1,2) set_takeWhileD by fastforce
next
  assume "s = a @ CHR ''/'' # b \<and> CHR ''/'' \<notin> set a"
  moreover from this have "takeWhile (\<lambda>c. c \<noteq> CHR ''/'') (a @ CHR ''/'' # b) = a"
    by (subst takeWhile_append2) auto
  ultimately show "split_once s = Some (a, b)" by (simp add: split_once_def Let_def)
qed

lemma split_once_fst: "map_option fst (split_once s) = Some a \<longleftrightarrow> (\<exists>b. s = a @ CHR ''/'' # b) \<and> CHR ''/'' \<notin> set a"
proof -
  have "map_option fst (split_once s) = Some a \<longleftrightarrow> (\<exists>b. split_once s = Some (a, b))" by (cases "split_once s") auto
  then show ?thesis by (auto simp: split_once_Some)
qed

lemma set_map_filter: "y \<in> set (List.map_filter g xs) \<longleftrightarrow> (\<exists>x \<in> set xs. g x = Some y)"
  by (induction xs) (auto simp: List.map_filter_def)

lemma entries_of_iff:
  "(p, sz, m, h) \<in> set (entries_of rows) \<longleftrightarrow>
     (\<exists>f \<in> set rows. p = f_path f \<and> sz = f_size f \<and> m = f_mtime f \<and> h = f_hash f \<and> length h = 32)"
  by (auto simp: entries_of_def in_order_def)

definition seen_by :: "peers_db \<Rightarrow> device_id \<Rightarrow> file_row \<Rightarrow> bool" where
  \<comment> \<open>a file of the shared folder that the device may be shown\<close>
  "seen_by db d f \<longleftrightarrow> f_scope f = None \<and> f_deleted f = None \<and> f_here f \<and> shared_with db (f_path f) (Some d)
     \<and> length (f_hash f) = 32 \<and> \<not> is_rule_path (f_path f)"

lemma shared_rows_iff:
  assumes "trim_both dir = dir"
  shows "(p, sz, m, h) \<in> set (filter (\<lambda>(p, _). \<not> is_rule_path p) (shared_entries_here db dir d)) \<longleftrightarrow>
     (\<exists>f \<in> set (files (a_index db)). seen_by db d f \<and> (p, sz, m, h) = (f_path f, f_size f, f_mtime f, f_hash f)
        \<and> (dir = [] \<or> (\<exists>rest. f_path f = dir @ CHR ''/'' # rest)))"
proof -
  have "take (Suc (length dir)) q = dir @ ''/'' \<longleftrightarrow> (\<exists>rest. q = dir @ CHR ''/'' # rest)" for q
  proof
    assume "take (Suc (length dir)) q = dir @ ''/''"
    then have "q = (dir @ ''/'') @ drop (Suc (length dir)) q" by (metis append_take_drop_id)
    then show "\<exists>rest. q = dir @ CHR ''/'' # rest" by auto
  qed auto
  then show ?thesis
    by (auto simp: shared_entries_here_def shared_entries_where_def entries_of_iff assms seen_by_def Let_def)
qed

lemma below_in_dir [simp]: "below dir (in_dir dir name) = name"
  by (simp add: below_def in_dir_def)

subsection \<open>Walking down a folder\<close>

definition tidy :: "string \<Rightarrow> bool" where
  "tidy p \<longleftrightarrow> [] \<notin> set (split_on CHR ''/'' p)"

lemma tidy_safe: "is_safe_path p \<Longrightarrow> tidy p"
  using is_safe_pathD(4)[of p] by (auto simp: tidy_def list_all_iff)

lemma tidy_prefix: "tidy (a @ CHR ''/'' # b) \<longleftrightarrow> tidy a \<and> tidy b"
  by (simp add: tidy_def split_on_append_sep)

lemma tidy_not_Nil [simp]: "\<not> tidy []"
  by (simp add: tidy_def)

lemma tidy_ends:
  assumes "tidy p"
  shows "p \<noteq> []" and "hd p \<noteq> CHR ''/''" and "last p \<noteq> CHR ''/''"
proof -
  show ne: "p \<noteq> []" using assms by auto
  show "hd p \<noteq> CHR ''/''"
  proof
    assume "hd p = CHR ''/''"
    then have "p = [] @ CHR ''/'' # tl p" using ne by (cases p) auto
    then show False using assms tidy_prefix[of "[]" "tl p"] by simp
  qed
  show "last p \<noteq> CHR ''/''"
  proof
    assume "last p = CHR ''/''"
    then have "p = butlast p @ CHR ''/'' # []" using ne append_butlast_last_id by metis
    then show False using assms tidy_prefix[of "butlast p" "[]"] by simp
  qed
qed

lemma tidy_trimmed:
  assumes "tidy p"
  shows "trim_both p = p"
proof -
  obtain q x where q: "p = q @ [x]" using tidy_ends(1)[OF assms] by (cases p rule: rev_cases) auto
  then have "trim_slashes p = p" using tidy_ends(3)[OF assms] by (simp add: trim_slashes_def)
  then show ?thesis using tidy_ends[OF assms] by (cases p) (simp_all add: trim_both_def)
qed

lemma safe_prefix:
  assumes "is_safe_path (a @ CHR ''/'' # b)"
  shows "is_safe_path a"
proof -
  have "a \<noteq> []" using is_safe_pathD(2)[OF assms] by (auto simp: starts_with_def)
  moreover have "\<not> starts_with a ''/''" using is_safe_pathD(2)[OF assms] \<open>a \<noteq> []\<close> by (cases a) (auto simp: starts_with_def)
  ultimately show ?thesis
    using is_safe_pathD(3,4)[OF assms] by (auto simp: is_safe_path_def split_on_append_sep)
qed

lemma reachable_above: "shared_with db (a @ CHR ''/'' # b) device \<Longrightarrow> shared_with db a device"
  unfolding shared_with_def list_ex_iff
proof (rule notI)
  assume up: "\<not> (\<exists>s \<in> set (a_shares db). (a @ CHR ''/'' # b = s \<or> take (length s + 1) (a @ CHR ''/'' # b) = s @ ''/'')
      \<and> \<not> (\<exists>x \<in> set (a_members db). case x of (m, d) \<Rightarrow> m = s \<and> Some d = device))"
  assume "\<exists>s \<in> set (a_shares db). (a = s \<or> take (length s + 1) a = s @ ''/'')
      \<and> \<not> (\<exists>x \<in> set (a_members db). case x of (m, d) \<Rightarrow> m = s \<and> Some d = device)"
  then obtain s where s: "s \<in> set (a_shares db)" "a = s \<or> take (length s + 1) a = s @ ''/''"
    "\<not> (\<exists>x \<in> set (a_members db). case x of (m, d) \<Rightarrow> m = s \<and> Some d = device)" by blast
  have "take (length s + 1) (a @ CHR ''/'' # b) = s @ ''/''"
  proof (cases "a = s")
    case False
    then have t: "take (length s + 1) a = s @ ''/''" using s(2) by simp
    then have "length (take (length s + 1) a) = length s + 1" by simp
    then have "length s + 1 \<le> length a" by simp
    then show ?thesis using t by simp
  qed simp
  then show False using up s(1,3) by blast
qed

fun walks :: "(string \<Rightarrow> string list \<times> shown_file list) \<Rightarrow> string \<Rightarrow> string list \<Rightarrow> bool" where
  \<comment> \<open>each folder on the way is listed in the one before\<close>
  "walks l dir [] = True"
| "walks l dir (n # ns) \<longleftrightarrow> n \<in> set (fst (l dir)) \<and> walks l (in_dir dir n) ns"

definition found_in :: "(string \<Rightarrow> string list \<times> shown_file list) \<Rightarrow> string \<Rightarrow> shown_file \<Rightarrow> bool" where
  "found_in l p file \<longleftrightarrow>
     (let parts = split_on CHR ''/'' p
      in walks l [] (butlast parts) \<and> file\<lparr>sh_name := last parts\<rparr> \<in> set (snd (l (join_on ''/'' (butlast parts)))))"

lemma in_dirs_below: "dir \<noteq> [] \<Longrightarrow> \<exists>rest. in_dir (foldl in_dir dir cs) name = dir @ CHR ''/'' # rest"
proof (induction cs arbitrary: dir)
  case (Cons c cs)
  have "in_dir dir c \<noteq> []" using Cons.prems by (simp add: in_dir_def)
  from Cons.IH[OF this] show ?case using Cons.prems by (auto simp: in_dir_def)
qed (simp add: in_dir_def)

lemma join_snoc: "cs \<noteq> [] \<Longrightarrow> join_on sep (cs @ [c]) = join_on sep cs @ sep @ c"
  by (induction cs rule: induct_list012) auto

lemma join_on_Nil: "\<forall>c \<in> set cs. c \<noteq> [] \<Longrightarrow> join_on sep cs = [] \<longleftrightarrow> cs = []"
  by (induction cs rule: induct_list012) auto

lemma in_dirs_join: "\<forall>c \<in> set cs. c \<noteq> [] \<Longrightarrow> foldl in_dir [] cs = join_on ''/'' cs"
proof (induction cs rule: rev_induct)
  case (snoc c cs)
  then have "join_on ''/'' cs = [] \<longleftrightarrow> cs = []" by (simp add: join_on_Nil)
  with snoc show ?case by (cases "cs = []") (simp_all add: in_dir_def join_snoc)
qed simp

locale drawn_folder =
  fixes drawn :: "string \<Rightarrow> shown_file \<Rightarrow> bool"
    and list_dir :: "string \<Rightarrow> string list \<times> shown_file list"
  assumes drawn_tidy: "drawn p x \<Longrightarrow> tidy p"
    and lists_file: "drawn (in_dir dir name) x \<Longrightarrow> CHR ''/'' \<notin> set name \<Longrightarrow> dir = [] \<or> tidy dir \<Longrightarrow>
      x\<lparr>sh_name := name\<rparr> \<in> set (snd (list_dir dir))"
    and lists_folder: "drawn (in_dir dir (name @ CHR ''/'' # rest)) x \<Longrightarrow> CHR ''/'' \<notin> set name \<Longrightarrow> dir = [] \<or> tidy dir \<Longrightarrow>
      name \<in> set (fst (list_dir dir))"
begin

lemma walks_down:
  assumes "drawn (in_dir (foldl in_dir dir cs) name) x" and "\<forall>c \<in> set cs. c \<noteq> [] \<and> CHR ''/'' \<notin> set c"
    and "dir = [] \<or> tidy dir"
  shows "walks list_dir dir cs"
  using assms
proof (induction cs arbitrary: dir)
  case (Cons c cs)
  have "c \<noteq> []" using Cons.prems(2) by simp
  then have n: "in_dir dir c \<noteq> []" by (simp add: in_dir_def)
  obtain rest where rest: "in_dir (foldl in_dir (in_dir dir c) cs) name = in_dir dir c @ CHR ''/'' # rest"
    using in_dirs_below[OF n] by blast
  have "in_dir dir (c @ CHR ''/'' # rest) = in_dir dir c @ CHR ''/'' # rest" by (simp add: in_dir_def)
  then have at: "drawn (in_dir dir (c @ CHR ''/'' # rest)) x"
    using Cons.prems(1) by (simp only: rest foldl_Cons)
  have "tidy (in_dir dir c)"
    using drawn_tidy[OF Cons.prems(1)] rest by (simp add: tidy_prefix)
  then show ?case
    using Cons.IH[of "in_dir dir c"] Cons.prems lists_folder[OF at] by simp
qed simp

lemma drawn_is_found:
  assumes "drawn p x"
  shows "found_in list_dir p x"
proof -
  define parts where "parts = split_on CHR ''/'' p"
  have parts: "parts \<noteq> []" "\<forall>c \<in> set parts. c \<noteq> [] \<and> CHR ''/'' \<notin> set c"
    using drawn_tidy[OF assms] split_on_no_sep[of _ "CHR ''/''" p] by (auto simp: parts_def tidy_def)
  then have b: "\<forall>c \<in> set (butlast parts). c \<noteq> [] \<and> CHR ''/'' \<notin> set c" by (meson in_set_butlastD)
  have p: "p = in_dir (join_on ''/'' (butlast parts)) (last parts)"
  proof (cases "butlast parts = []")
    case True
    then have "parts = [last parts]" using parts(1) by (metis append_Nil append_butlast_last_id)
    then show ?thesis using True join_split[of "CHR ''/''" p] by (metis in_dir_def join_on.simps(1,2) parts_def)
  next
    case False
    have ne: "join_on ''/'' (butlast parts) \<noteq> []"
      using False b by (simp add: join_on_Nil)
    have "p = join_on ''/'' (butlast parts @ [last parts])"
      using join_split[of "CHR ''/''" p] parts(1) by (simp add: parts_def)
    then show ?thesis using join_snoc[OF False, of "''/''" "last parts"] ne by (simp add: in_dir_def)
  qed
  have ok: "join_on ''/'' (butlast parts) = [] \<or> tidy (join_on ''/'' (butlast parts))"
    using drawn_tidy[OF assms] p by (auto simp: in_dir_def tidy_prefix split: if_splits)
  have at: "drawn (in_dir (join_on ''/'' (butlast parts)) (last parts)) x" using assms p by metis
  have dirs: "foldl in_dir [] (butlast parts) = join_on ''/'' (butlast parts)" using b in_dirs_join by blast
  have "walks list_dir [] (butlast parts)"
    by (rule walks_down[of _ _ "last parts" x]) (use at dirs b in simp_all)
  moreover have "x\<lparr>sh_name := last parts\<rparr> \<in> set (snd (list_dir (join_on ''/'' (butlast parts))))"
    by (rule lists_file[OF at _ ok]) (use parts in simp)
  ultimately show ?thesis by (simp add: found_in_def parts_def)
qed

end

subsection \<open>The two folders\<close>

definition row_entry :: "file_row \<Rightarrow> string \<times> nat \<times> int \<times> hash" where
  "row_entry f = (f_path f, f_size f, f_mtime f, f_hash f)"

definition may_open :: "peers_db \<Rightarrow> device_id \<Rightarrow> string \<Rightarrow> bool" where
  "may_open db d dir \<longleftrightarrow> dir = [] \<or> tidy dir \<and> is_safe_path dir \<and> shared_with db dir (Some d)"

lemma may_open_trimmed: "may_open db d dir \<Longrightarrow> trim_both dir = dir"
  unfolding may_open_def using tidy_trimmed by (auto simp: trim_both_def trim_slashes_def)

lemma shared_listing_open:
  assumes "may_open db d dir"
  shows "x \<in> set (snd (shared_listing db disk keeper d dir)) \<longleftrightarrow>
      (\<exists>f \<in> set (files (a_index db)). seen_by db d f \<and> (dir = [] \<or> (\<exists>rest. f_path f = dir @ CHR ''/'' # rest))
         \<and> CHR ''/'' \<notin> set (below dir (f_path f)) \<and> x = shared_shown keeper (below dir (f_path f)) (row_entry f))"
    and "name \<in> set (fst (shared_listing db disk keeper d dir)) \<longleftrightarrow>
      (\<exists>f \<in> set (files (a_index db)). seen_by db d f \<and> (dir = [] \<or> (\<exists>rest. f_path f = dir @ CHR ''/'' # rest))
         \<and> (\<exists>rest. below dir (f_path f) = name @ CHR ''/'' # rest) \<and> CHR ''/'' \<notin> set name)
      \<or> (\<exists>read_dir. disk = Some read_dir \<and> \<not> list_ex (\<lambda>part. starts_with part ''.'') (split_on CHR ''/'' dir)
         \<and> name \<in> set (read_dir dir) \<and> \<not> starts_with name ''.'' \<and> shared_path_reachable db (in_dir dir name) d)"
proof -
  define rows where "rows = filter (\<lambda>(p, _). \<not> is_rule_path p) (shared_entries_here db dir d)"
  have t: "trim_both dir = dir" using assms by (rule may_open_trimmed)
  have rows: "r \<in> set rows \<longleftrightarrow> (\<exists>f \<in> set (files (a_index db)). seen_by db d f \<and> r = row_entry f
      \<and> (dir = [] \<or> (\<exists>rest. f_path f = dir @ CHR ''/'' # rest)))" for r
    using shared_rows_iff[OF t] by (cases r) (auto simp: rows_def row_entry_def)
  have some: "(\<exists>r \<in> set rows. P r) \<longleftrightarrow>
      (\<exists>f \<in> set (files (a_index db)). seen_by db d f \<and> (dir = [] \<or> (\<exists>rest. f_path f = dir @ CHR ''/'' # rest)) \<and> P (row_entry f))" for P
  proof -
    have "set rows = row_entry ` {f \<in> set (files (a_index db)). seen_by db d f \<and> (dir = [] \<or> (\<exists>rest. f_path f = dir @ CHR ''/'' # rest))}"
      by (rule set_eqI, subst rows) blast
    then show ?thesis by (simp add: Bex_def conj_assoc)
  qed
  have fst_row [simp]: "fst (row_entry f) = f_path f" for f by (simp add: row_entry_def)
  have open': "\<not> (dir \<noteq> [] \<and> (\<not> is_safe_path dir \<or> \<not> shared_path_reachable db dir d))"
    using assms t by (auto simp: may_open_def shared_path_reachable_def)
  have "snd (shared_listing db disk keeper d dir) = List.map_filter
      (\<lambda>r. if split_once (below dir (fst r)) = None then Some (shared_shown keeper (below dir (fst r)) r) else None) rows"
    unfolding shared_listing_def t Let_def rows_def by (simp only: if_not_P[OF open'] snd_conv)
  then show "x \<in> set (snd (shared_listing db disk keeper d dir)) \<longleftrightarrow>
      (\<exists>f \<in> set (files (a_index db)). seen_by db d f \<and> (dir = [] \<or> (\<exists>rest. f_path f = dir @ CHR ''/'' # rest))
         \<and> CHR ''/'' \<notin> set (below dir (f_path f)) \<and> x = shared_shown keeper (below dir (f_path f)) (row_entry f))"
    using some[of "\<lambda>r. CHR ''/'' \<notin> set (below dir (fst r)) \<and> x = shared_shown keeper (below dir (fst r)) r"]
    by (auto simp: set_map_filter split: if_splits)
  define empties where "empties = (case disk of
      Some read_dir \<Rightarrow> if list_ex (\<lambda>part. starts_with part ''.'') (split_on CHR ''/'' dir) then []
        else filter (\<lambda>name. \<not> starts_with name ''.'' \<and> shared_path_reachable db (in_dir dir name) d) (read_dir dir)
    | None \<Rightarrow> [])"
  have e: "name \<in> set empties \<longleftrightarrow> (\<exists>read_dir. disk = Some read_dir \<and> \<not> list_ex (\<lambda>part. starts_with part ''.'') (split_on CHR ''/'' dir)
         \<and> name \<in> set (read_dir dir) \<and> \<not> starts_with name ''.'' \<and> shared_path_reachable db (in_dir dir name) d)"
    by (auto simp: empties_def split: option.splits)
  have "fst (shared_listing db disk keeper d dir)
      = sort (remdups (List.map_filter (\<lambda>(p, _). map_option fst (split_once (below dir p))) rows @ empties))"
    unfolding shared_listing_def t Let_def rows_def empties_def by (simp only: if_not_P[OF open'] fst_conv)
  then have "name \<in> set (fst (shared_listing db disk keeper d dir)) \<longleftrightarrow>
      (\<exists>r \<in> set rows. map_option fst (split_once (below dir (fst r))) = Some name) \<or> name \<in> set empties"
    by (simp add: set_map_filter case_prod_beta)
  then show "name \<in> set (fst (shared_listing db disk keeper d dir)) \<longleftrightarrow>
      (\<exists>f \<in> set (files (a_index db)). seen_by db d f \<and> (dir = [] \<or> (\<exists>rest. f_path f = dir @ CHR ''/'' # rest))
         \<and> (\<exists>rest. below dir (f_path f) = name @ CHR ''/'' # rest) \<and> CHR ''/'' \<notin> set name)
      \<or> (\<exists>read_dir. disk = Some read_dir \<and> \<not> list_ex (\<lambda>part. starts_with part ''.'') (split_on CHR ''/'' dir)
         \<and> name \<in> set (read_dir dir) \<and> \<not> starts_with name ''.'' \<and> shared_path_reachable db (in_dir dir name) d)"
    using some[of "\<lambda>r. map_option fst (split_once (below dir (fst r))) = Some name"]
    unfolding split_once_fst e fst_row by blast
qed

definition shared_at :: "peers_db \<Rightarrow> device_id \<Rightarrow> device_id \<Rightarrow> string \<Rightarrow> shown_file \<Rightarrow> bool" where
  "shared_at db keeper d p x \<longleftrightarrow> is_safe_path p
     \<and> (\<exists>f \<in> set (files (a_index db)). seen_by db d f \<and> f_path f = p \<and> x = shared_shown keeper [] (row_entry f))"

lemma shared_at_may_open:
  assumes "shared_at db keeper d (in_dir dir q) x" and "dir = [] \<or> tidy dir"
  shows "may_open db d dir"
proof (cases "dir = []")
  case False
  then have p: "in_dir dir q = dir @ CHR ''/'' # q" by (simp add: in_dir_def)
  from assms(1) obtain f where f: "is_safe_path (in_dir dir q)" "seen_by db d f" "f_path f = in_dir dir q"
    by (auto simp: shared_at_def)
  have "shared_with db (dir @ CHR ''/'' # q) (Some d)" using f(2,3) p by (simp add: seen_by_def)
  then have "shared_with db dir (Some d)" by (rule reachable_above)
  moreover have "is_safe_path dir" using f(1) p safe_prefix by metis
  ultimately show ?thesis using assms(2) False by (simp add: may_open_def)
qed (simp add: may_open_def)

interpretation shared_folder: drawn_folder "shared_at db keeper d" "shared_listing db disk keeper d" for db disk keeper d
proof
  fix p x
  assume "shared_at db keeper d p x"
  then show "tidy p" by (simp add: shared_at_def tidy_safe)
next
  fix dir name x
  assume at: "shared_at db keeper d (in_dir dir name) x" and h: "CHR ''/'' \<notin> set name" "dir = [] \<or> tidy dir"
  from at obtain f where f: "f \<in> set (files (a_index db))" "seen_by db d f" "f_path f = in_dir dir name"
    "x = shared_shown keeper [] (row_entry f)" by (auto simp: shared_at_def)
  have "x\<lparr>sh_name := name\<rparr> = shared_shown keeper (below dir (f_path f)) (row_entry f)"
    by (simp add: f(3,4) shared_shown_def row_entry_def)
  then show "x\<lparr>sh_name := name\<rparr> \<in> set (snd (shared_listing db disk keeper d dir))"
    unfolding shared_listing_open(1)[OF shared_at_may_open[OF at h(2)]]
    using f h(1) by (intro bexI[of _ f]) (auto simp: in_dir_def below_def)
next
  fix dir name rest x
  assume at: "shared_at db keeper d (in_dir dir (name @ CHR ''/'' # rest)) x" and h: "CHR ''/'' \<notin> set name" "dir = [] \<or> tidy dir"
  from at obtain f where f: "f \<in> set (files (a_index db))" "seen_by db d f" "f_path f = in_dir dir (name @ CHR ''/'' # rest)"
    by (auto simp: shared_at_def)
  have "below dir (f_path f) = name @ CHR ''/'' # rest" "dir = [] \<or> (\<exists>rest. f_path f = dir @ CHR ''/'' # rest)"
    using f(3) by (auto simp: in_dir_def below_def)
  then show "name \<in> set (fst (shared_listing db disk keeper d dir))"
    unfolding shared_listing_open(2)[OF shared_at_may_open[OF at h(2)]] using f(1,2) h(1) by blast
qed

lemma first_at_each_subset: "set (first_at_each xs seen) \<subseteq> set xs"
  by (induction xs seen rule: first_at_each.induct) auto

lemma first_at_each_map: "map_of (first_at_each xs seen) p = (if p \<in> set seen then None else map_of xs p)"
  by (induction xs seen rule: first_at_each.induct) auto

lemma first_at_each_distinct:
  "distinct (map fst (first_at_each xs seen)) \<and> fst ` set (first_at_each xs seen) \<inter> set seen = {}"
  by (induction xs seen rule: first_at_each.induct) auto

lemma merged_from:
  assumes "(p, x) \<in> set (merged_files db name ids)"
  shows "\<exists>owner \<in> set ids. \<exists>f \<in> set (held_rows db owner). \<exists>at. shown_as (f_path f) = Some at \<and> p = name @ CHR ''/'' # at
    \<and> length (f_hash f) = 32 \<and> x = \<lparr>sh_name = [], sh_path = f_path f, sh_owner = owner, sh_content = f_hash f,
        sh_size = f_size f, sh_modified = whole_seconds (f_mtime f)\<rparr>"
proof -
  have "(p, x) \<in> set (concat (map (\<lambda>owner. List.map_filter (shown_entry name owner) (held_entries db owner)) ids))"
    using subsetD[OF first_at_each_subset assms[unfolded merged_files_def]] .
  then obtain owner r where o: "owner \<in> set ids" "r \<in> set (held_entries db owner)" "shown_entry name owner r = Some (p, x)"
    by (auto simp: set_map_filter)
  obtain q sz m h where r: "r = (q, sz, m, h)" by (cases r) auto
  obtain f where "f \<in> set (held_rows db owner)" "q = f_path f" "sz = f_size f" "m = f_mtime f" "h = f_hash f" "length h = 32"
    using o(2) r by (auto simp: held_entries_def entries_of_iff)
  then show ?thesis using o(1,3) r by (intro bexI[of _ owner] bexI[of _ f]) (auto simp: shown_entry_def)
qed

definition own_at :: "peers_db \<Rightarrow> string \<Rightarrow> device_id list \<Rightarrow> string \<Rightarrow> shown_file \<Rightarrow> bool" where
  "own_at db name ids p x \<longleftrightarrow> CHR ''/'' \<notin> set name \<and> tidy p \<and> (p, x) \<in> set (merged_files db name ids)"

lemma own_at_dir:
  assumes "own_at db name ids (in_dir dir q) x" and "dir \<noteq> []"
  shows "(case split_once dir of Some (at, _) \<Rightarrow> at | None \<Rightarrow> dir) = name"
proof -
  obtain at where "in_dir dir q = name @ CHR ''/'' # at" and n: "CHR ''/'' \<notin> set name"
    using assms(1) merged_from unfolding own_at_def by blast
  then have p: "split_once (dir @ CHR ''/'' # q) = Some (name, at)" using assms(2) by (simp add: split_once_Some in_dir_def)
  show ?thesis
  proof (cases "split_once dir")
    case None
    then have "split_once (dir @ CHR ''/'' # q) = Some (dir, q)" by (simp add: split_once_Some)
    then have "dir = name" using p by simp
    then show ?thesis unfolding None option.case .
  next
    case (Some ab)
    obtain a b where ab: "ab = (a, b)" by (cases ab)
    then have "split_once (dir @ CHR ''/'' # q) = Some (a, b @ CHR ''/'' # q)" using Some by (simp add: split_once_Some)
    with p Some ab show ?thesis by simp
  qed
qed

lemma own_listing:
  assumes "own_at db name ids (in_dir dir q) x" and "tidy dir"
  shows "name' \<in> set (fst (person_listing db [(name, ids)] dir)) \<longleftrightarrow>
      CHR ''/'' \<notin> set name' \<and> (\<exists>rest x. (dir @ CHR ''/'' # name' @ CHR ''/'' # rest, x) \<in> set (merged_files db name ids))"
    and "y \<in> set (snd (person_listing db [(name, ids)] dir)) \<longleftrightarrow>
      (\<exists>rest x. (dir @ CHR ''/'' # rest, x) \<in> set (merged_files db name ids) \<and> CHR ''/'' \<notin> set rest \<and> y = x\<lparr>sh_name := rest\<rparr>)"
proof -
  have d: "dir \<noteq> []" "trim_both dir = dir" using assms(2) tidy_trimmed by auto
  define beneath where "beneath = List.map_filter (\<lambda>(shown, x). map_option (\<lambda>rest. (rest, x)) (strip_prefix shown (dir @ ''/'')))
      (merged_files db name ids)"
  have b: "(rest, x) \<in> set beneath \<longleftrightarrow> (dir @ CHR ''/'' # rest, x) \<in> set (merged_files db name ids)" for rest x
  proof -
    have "strip_prefix shown (dir @ ''/'') = Some rest \<longleftrightarrow> shown = dir @ CHR ''/'' # rest" for shown rest
      by (auto simp: strip_prefix_def starts_with_iff)
    then show ?thesis unfolding beneath_def set_map_filter
      by (auto intro!: bexI[of _ "(dir @ CHR ''/'' # rest, x)"])
  qed
  have l: "person_listing db [(name, ids)] dir =
      (sort (remdups (List.map_filter (\<lambda>(rest, _). map_option fst (split_once rest)) beneath)),
       sort_key sh_name (List.map_filter (\<lambda>(rest, x). if split_once rest = None then Some (x\<lparr>sh_name := rest\<rparr>) else None) beneath))"
    unfolding person_listing_def d(2) Let_def using d(1) own_at_dir[OF assms(1) d(1)] by (simp add: beneath_def)
  have "name' \<in> set (fst (person_listing db [(name, ids)] dir))
      \<longleftrightarrow> (\<exists>z \<in> set beneath. (\<exists>rest. fst z = name' @ CHR ''/'' # rest) \<and> CHR ''/'' \<notin> set name')"
    unfolding split_once_fst[symmetric] by (simp add: l set_map_filter case_prod_beta)
  also have "\<dots> \<longleftrightarrow> CHR ''/'' \<notin> set name' \<and> (\<exists>rest x. (name' @ CHR ''/'' # rest, x) \<in> set beneath)" by force
  finally show "name' \<in> set (fst (person_listing db [(name, ids)] dir)) \<longleftrightarrow>
      CHR ''/'' \<notin> set name' \<and> (\<exists>rest x. (dir @ CHR ''/'' # name' @ CHR ''/'' # rest, x) \<in> set (merged_files db name ids))"
    by (simp only: b)
  have "y \<in> set (snd (person_listing db [(name, ids)] dir))
      \<longleftrightarrow> (\<exists>z \<in> set beneath. CHR ''/'' \<notin> set (fst z) \<and> y = (snd z)\<lparr>sh_name := fst z\<rparr>)"
    by (auto simp: l set_map_filter case_prod_beta split: if_splits)
  also have "\<dots> \<longleftrightarrow> (\<exists>rest x. (rest, x) \<in> set beneath \<and> CHR ''/'' \<notin> set rest \<and> y = x\<lparr>sh_name := rest\<rparr>)" by force
  finally show "y \<in> set (snd (person_listing db [(name, ids)] dir)) \<longleftrightarrow>
      (\<exists>rest x. (dir @ CHR ''/'' # rest, x) \<in> set (merged_files db name ids) \<and> CHR ''/'' \<notin> set rest \<and> y = x\<lparr>sh_name := rest\<rparr>)"
    by (simp only: b)
qed

lemma own_not_top: "(p, x) \<in> set (merged_files db name ids) \<Longrightarrow> CHR ''/'' \<in> set p"
  using merged_from by fastforce

interpretation own_folder: drawn_folder "own_at db name ids" "person_listing db [(name, ids)]" for db name ids
proof
  fix p x
  assume "own_at db name ids p x"
  then show "tidy p" by (simp add: own_at_def)
next
  fix dir q x
  assume at: "own_at db name ids (in_dir dir q) x" and h: "CHR ''/'' \<notin> set q" "dir = [] \<or> tidy dir"
  have m: "(in_dir dir q, x) \<in> set (merged_files db name ids)" using at by (simp add: own_at_def)
  then have "dir \<noteq> []" using own_not_top h(1) by (fastforce simp: in_dir_def)
  then show "x\<lparr>sh_name := q\<rparr> \<in> set (snd (person_listing db [(name, ids)] dir))"
    using own_listing(2)[OF at] h m by (auto simp: in_dir_def)
next
  fix dir q rest x
  assume at: "own_at db name ids (in_dir dir (q @ CHR ''/'' # rest)) x" and h: "CHR ''/'' \<notin> set q" "dir = [] \<or> tidy dir"
  have m: "(in_dir dir (q @ CHR ''/'' # rest), x) \<in> set (merged_files db name ids)" using at by (simp add: own_at_def)
  show "q \<in> set (fst (person_listing db [(name, ids)] dir))"
  proof (cases "dir = []")
    case True
    obtain at' where "q @ CHR ''/'' # rest = name @ CHR ''/'' # at'" and "CHR ''/'' \<notin> set name"
      using merged_from[OF m] at True by (auto simp: own_at_def in_dir_def)
    then have "split_once (q @ CHR ''/'' # rest) = Some (name, at')" by (simp add: split_once_Some)
    moreover have "split_once (q @ CHR ''/'' # rest) = Some (q, rest)" using h(1) by (simp add: split_once_Some)
    ultimately show ?thesis using True by (simp add: person_listing_def trim_both_def trim_slashes_def)
  next
    case False
    then show ?thesis using own_listing(1)[OF at] h m by (auto simp: in_dir_def)
  qed
qed

subsection \<open>What is shown may be fetched\<close>

lemma shared_entry_reachable:
  assumes "(p, sz, m, h) \<in> set (shared_entries_here db dir d)"
  shows "shared_content_reachable db h d"
  using assms
  by (auto simp: shared_entries_here_def shared_entries_where_def Let_def entries_of_iff shared_content_reachable_def list_ex_iff)

lemma reachable_is_visible: "shared_content_reachable db h d \<Longrightarrow> content_visible_to db h (ToDevice d)"
  by (auto simp: shared_content_reachable_def content_visible_to_def visible_to_def list_ex_iff visible_row_def audience_device_def)

lemma kept_is_visible:
  assumes "owner \<in> set (d # earlier_selves db d)" and "f \<in> set (held_rows db owner)"
  shows "content_visible_to db (f_hash f) (ToDevice d)"
  using assms
  by (auto simp: held_rows_def content_visible_to_def visible_to_def list_ex_iff visible_row_def audience_device_def kept_for_earlier_def)

lemma set_newest_first [simp]: "set (newest_first xs) = set xs"
  by (simp add: newest_first_def)

lemma own_phones_ids:
  assumes "(name, ids) \<in> set (own_phones db d)" and "owner \<in> set ids"
  shows "owner \<in> set (d # earlier_selves db d)"
  using assms by (auto simp: own_phones_def)

lemma merged_is_visible:
  assumes "(name, ids) \<in> set (own_phones db d)" and "(p, x) \<in> set (merged_files db name ids)"
  shows "content_visible_to db (sh_content x) (ToDevice d)"
proof -
  from merged_from[OF assms(2)] obtain owner f where "owner \<in> set ids" "f \<in> set (held_rows db owner)" "sh_content x = f_hash f"
    by auto
  with kept_is_visible own_phones_ids[OF assms(1)] show ?thesis by metis
qed

definition shown_to :: "(string \<Rightarrow> string) \<Rightarrow> peers_db \<Rightarrow> (string \<Rightarrow> string list) option \<Rightarrow> device_id \<Rightarrow> device_id \<Rightarrow> string \<Rightarrow> nat \<Rightarrow> shown_file set" where
  \<comment> \<open>everything the device is listed of the shared folder, by directory or by a search\<close>
  "shown_to lower db disk keeper d q n = set (snd (shared_listing db disk keeper d q)) \<union> set (shared_search lower db keeper d q n)"

definition own_shown_to :: "(string \<Rightarrow> string) \<Rightarrow> peers_db \<Rightarrow> device_id \<Rightarrow> string \<Rightarrow> nat \<Rightarrow> shown_file set" where
  "own_shown_to lower db d q n =
     set (snd (person_listing db (own_phones db d) q)) \<union> set (person_search lower db (own_phones db d) q n)"

lemma shared_shown_from:
  assumes "x \<in> shown_to lower db disk keeper d q n"
  shows "\<exists>p sz m dir. (p, sz, m, sh_content x) \<in> set (shared_entries_here db dir d)"
proof -
  have "\<exists>r \<in> set (shared_entries_here db dir d). \<exists>name. x = shared_shown keeper name r"
    if "x \<in> set (snd (shared_listing db disk keeper d q))" and "dir = trim_both q" for dir
    using that by (auto simp: shared_listing_def Let_def set_map_filter split: if_splits)
  moreover have "\<exists>r \<in> set (shared_entries_here db '''' d). \<exists>name. x = shared_shown keeper name r"
    if "x \<in> set (shared_search lower db keeper d q n)"
    using that by (auto simp: shared_search_def Let_def dest!: in_set_takeD split: if_splits) blast
  ultimately show ?thesis
    using assms by (fastforce simp: shown_to_def shared_shown_def)
qed

lemma own_shown_from:
  assumes "x \<in> own_shown_to lower db d q n"
  shows "\<exists>name ids p y. (name, ids) \<in> set (own_phones db d) \<and> (p, y) \<in> set (merged_files db name ids) \<and> sh_content x = sh_content y"
proof -
  have "\<exists>name ids p y. (name, ids) \<in> set (own_phones db d) \<and> (p, y) \<in> set (merged_files db name ids) \<and> sh_content x = sh_content y"
    if "x \<in> set (snd (person_listing db (own_phones db d) q))"
    using that
    by (fastforce simp: person_listing_def Let_def set_map_filter find_Some_iff split: if_splits option.splits dest: nth_mem)
  moreover have "\<exists>name ids p y. (name, ids) \<in> set (own_phones db d) \<and> (p, y) \<in> set (merged_files db name ids) \<and> sh_content x = sh_content y"
    if "x \<in> set (person_search lower db (own_phones db d) q n)"
    using that by (fastforce simp: person_search_def Let_def dest!: in_set_takeD split: if_splits)
  ultimately show ?thesis using assms unfolding own_shown_to_def by blast
qed

text \<open>C28: every file a device is shown of the shared folder, by listing a directory or by a search, is one
  whose bytes it may fetch: a guest by the rule for guests, one of the person's own devices by the rule
  for those. And so is every file of a device's own folder, whichever earlier self of it the file was
  kept for.
\<close>

theorem what_is_shown_may_be_fetched:
  "(\<forall>x \<in> shown_to lower db disk keeper d q n.
      shared_content_reachable db (sh_content x) d \<and> content_visible_to db (sh_content x) (ToDevice d))
   \<and> (\<forall>x \<in> own_shown_to lower db d q n. content_visible_to db (sh_content x) (ToDevice d))"
  using shared_shown_from own_shown_from shared_entry_reachable reachable_is_visible merged_is_visible by metis

text \<open>C29: a file of the shared folder that a device may be shown, under a path that stays in the
  folder, is found by opening one folder after another from the top, each listed in the one before;
  and so is a file of a person's folder at the place \<open>shown_as\<close> gives it, where that place is a tidy
  path and the device's name has no slash. With a slash in the name the folder opens to nothing
  (\<open>slash_in_a_name_opens_to_nothing\<close>).
\<close>

theorem every_file_shown_is_found:
  "(\<forall>f \<in> set (files (a_index db)). seen_by db d f \<and> is_safe_path (f_path f) \<longrightarrow>
      found_in (shared_listing db disk keeper d) (f_path f) (shared_shown keeper [] (row_entry f)))
   \<and> (\<forall>(p, x) \<in> set (merged_files db name ids). CHR ''/'' \<notin> set name \<and> tidy p \<longrightarrow>
      found_in (person_listing db [(name, ids)]) p x)"
  using shared_folder.drawn_is_found[unfolded shared_at_def] own_folder.drawn_is_found[unfolded own_at_def] by fast

subsection \<open>A folder browsed\<close>

definition row_32 :: "nat \<Rightarrow> string \<Rightarrow> device_id option \<Rightarrow> bool \<Rightarrow> file_row" where
  "row_32 n p s for_it = (plain_row n p s for_it)\<lparr>f_hash := replicate 32 (of_nat n)\<rparr>"

definition browsed_db :: "string \<Rightarrow> peers_db" where
  \<comment> \<open>a computer with two shared files, keeping three files of the phone of the given name\<close>
  "browsed_db name = (home_db name)\<lparr>a_index := (index_new (DeviceId [0]))\<lparr>files :=
     [row_32 1 ''Photos/beach.jpg'' None False, row_32 2 ''notes.txt'' None False,
      row_32 3 ''.qurb-outside/storage/DCIM/a.jpg'' (Some (DeviceId [2])) True,
      row_32 4 ''.qurb-outside/folders/Private Vault/pin.txt'' (Some (DeviceId [2])) True,
      row_32 5 ''pin.txt'' (Some (DeviceId [2])) True]\<rparr>\<rparr>"

abbreviation (input) beach :: file_row where "beach \<equiv> row_32 1 ''Photos/beach.jpg'' None False"

definition dcim :: "string \<times> shown_file" where
  "dcim = (''S23/DCIM/a.jpg'', \<lparr>sh_name = [], sh_path = ''.qurb-outside/storage/DCIM/a.jpg'', sh_owner = DeviceId [2],
     sh_content = replicate 32 3, sh_size = 1, sh_modified = 0\<rparr>)"

theorem every_file_shown_is_found_witness:
  "found_in (shared_listing (browsed_db ''S23'') None (DeviceId [0]) (DeviceId [2])) ''Photos/beach.jpg''
      (shared_shown (DeviceId [0]) [] (row_entry (row_32 1 ''Photos/beach.jpg'' None False)))
   \<and> found_in (person_listing (browsed_db ''S23'') [(''S23'', [DeviceId [2]])]) (fst dcim) (snd dcim)"
proof -
  have "beach \<in> set (files (a_index (browsed_db ''S23'')))" "seen_by (browsed_db ''S23'') (DeviceId [2]) beach"
    "is_safe_path (f_path beach)" "f_path beach = ''Photos/beach.jpg''" by code_simp+
  moreover have "(fst dcim, snd dcim) \<in> set (merged_files (browsed_db ''S23'') ''S23'' [DeviceId [2]])"
    "CHR ''/'' \<notin> set ''S23''" "tidy (fst dcim)" by code_simp+
  ultimately show ?thesis
    using every_file_shown_is_found[of "browsed_db ''S23''" "DeviceId [2]" None "DeviceId [0]" "''S23''" "[DeviceId [2]]"] by auto
qed

theorem what_is_shown_may_be_fetched_witness:
  "shared_content_reachable (browsed_db ''S23'') (replicate 32 2) (DeviceId [2])
   \<and> content_visible_to (browsed_db ''S23'') (replicate 32 4) (ToDevice (DeviceId [2]))"
proof -
  let ?db = "browsed_db ''S23''"
  have "replicate 32 2 \<in> sh_content ` set (snd (shared_listing ?db None (DeviceId [0]) (DeviceId [2]) ''''))"
    "replicate 32 4 \<in> sh_content ` set (snd (person_listing ?db (own_phones ?db (DeviceId [2])) ''S23/Private Vault''))"
    by code_simp+
  then show ?thesis
    using what_is_shown_may_be_fetched[of id ?db None "DeviceId [0]" "DeviceId [2]" "''''" 1]
      what_is_shown_may_be_fetched[of id ?db None "DeviceId [0]" "DeviceId [2]" "''S23/Private Vault''" 1]
    by (auto simp: shown_to_def own_shown_to_def)
qed

text \<open>Two kept files may have one place, and then the first by its path hides the other: here a file of
  the Private Vault by one of a folder of that name. And a name with a slash, which pairing lets
  through, is listed at the top and opens to nothing.\<close>

lemma one_place_hides_a_file:
  "shown_as ''.qurb-outside/folders/Private Vault/pin.txt'' = shown_as ''pin.txt''"
  "map sh_content (snd (person_listing (browsed_db ''S23'') (own_phones (browsed_db ''S23'') (DeviceId [2])) ''S23/Private Vault''))
     = [replicate 32 4]"
  by code_simp+

lemma slash_in_a_name_opens_to_nothing:
  "fst (person_listing (browsed_db ''AC/DC'') (own_phones (browsed_db ''AC/DC'') (DeviceId [2])) '''') = [''AC/DC'']"
  "person_listing (browsed_db ''AC/DC'') (own_phones (browsed_db ''AC/DC'') (DeviceId [2])) ''AC/DC'' = ([], [])"
  by code_simp+

end
