(* ===== verification/Shared_Folder.thy ===== *)
theory Shared_Folder imports Browse
begin

section \<open>Changes asked for by a phone or a guest (\<open>crates/storage/src/shared_folder.rs\<close>)\<close>

text \<open>
  What a computer does to its own shared folder when a phone of its person, or a guest, asks: the one
  exception to serving read-only. Beside the files the state has the directories of the folder, and
  the names a file may have there, by which a directory is searched. An error of input or output is
  \<open>CannotMove\<close> with the path it is about; what is said with a refusal is the path it names.
\<close>

record shared_place =
  sp_node :: node
  sp_dirs :: "string list"
  sp_names :: "string list"

definition on_node :: "(node \<Rightarrow> node) \<Rightarrow> shared_place \<Rightarrow> shared_place" where
  "on_node g sp = sp\<lparr>sp_node := g (sp_node sp)\<rparr>"

definition lies_in :: "string \<Rightarrow> string \<Rightarrow> bool" where
  "lies_in dir p \<longleftrightarrow> starts_with p (dir @ ''/'')"

subsection \<open>The directories\<close>

definition dirs_to :: "string \<Rightarrow> string list" where
  \<comment> \<open>the directories on the way to one, and itself\<close>
  "dirs_to p = (if p = [] then []
     else map (\<lambda>i. join_on ''/'' (take (Suc i) (split_on CHR ''/'' p))) [0..<length (split_on CHR ''/'' p)])"

definition create_dir_all :: "string \<Rightarrow> shared_place \<Rightarrow> shared_place option" where
  "create_dir_all p sp =
     (if list_ex (\<lambda>d. on_disk (sp_node sp) d \<noteq> None) (dirs_to p) then None
      else Some (sp\<lparr>sp_dirs := sp_dirs sp @ filter (\<lambda>d. d \<notin> set (sp_dirs sp)) (dirs_to p)\<rparr>))"

definition parent_dir :: "string \<Rightarrow> string" where
  "parent_dir p = join_on ''/'' (butlast (split_on CHR ''/'' p))"

definition moved_name :: "string \<Rightarrow> string \<Rightarrow> string \<Rightarrow> string" where
  "moved_name source to p = (if p = source then to else if lies_in source p then to @ drop (length source) p else p)"

definition rename_dir :: "string \<Rightarrow> string \<Rightarrow> shared_place \<Rightarrow> shared_place" where
  \<comment> \<open>\<open>fs::rename\<close> of a directory, with all there is in it, to where nothing is\<close>
  "rename_dir source to sp =
     sp\<lparr>sp_node := on_store (\<lambda>st. st\<lparr>s_tree := map_option (\<lambda>tree p.
            if lies_in source p then None
            else if lies_in to p then tree (source @ drop (length to) p)
            else tree p) (s_tree st)\<rparr>) (sp_node sp),
        sp_dirs := map (moved_name source to) (sp_dirs sp),
        sp_names := map (moved_name source to) (sp_names sp)\<rparr>"

definition remove_empty_folders :: "string \<Rightarrow> shared_place \<Rightarrow> shared_place" where
  "remove_empty_folders at sp =
     sp\<lparr>sp_dirs := filter (\<lambda>d. \<not> ((d = at \<or> lies_in at d)
         \<and> \<not> list_ex (\<lambda>p. on_disk (sp_node sp) p \<noteq> None \<and> lies_in d p) (sp_names sp))) (sp_dirs sp)\<rparr>"

subsection \<open>What may be changed\<close>

definition checked_path :: "shared_place \<Rightarrow> device_id \<Rightarrow> string \<Rightarrow> refusal + string" where
  "checked_path sp d p =
     (let p = trim_slashes p
      in if p = [] \<or> starts_with p ''/'' \<or> \<not> is_safe_path p \<or> is_rule_path p
           \<or> list_ex (\<lambda>part. starts_with part ''.'') (split_on CHR ''/'' p) then Inl (Refused p)
         else if \<not> shared_path_reachable (db_of (sp_node sp)) p d then Inl (Refused p)
         else Inr p)"

definition has_folder :: "shared_place \<Rightarrow> bool" where
  "has_folder sp \<longleftrightarrow> s_tree (the_store (sp_node sp)) \<noteq> None"

definition path_taken :: "shared_place \<Rightarrow> string \<Rightarrow> bool" where
  "path_taken sp p \<longleftrightarrow> live_path_anywhere (n_index (sp_node sp)) p \<or> on_disk (sp_node sp) p \<noteq> None \<or> p \<in> set (sp_dirs sp)"

definition is_shared_file :: "shared_place \<Rightarrow> string \<Rightarrow> bool" where
  "is_shared_file sp p \<longleftrightarrow> (case folder_row (n_index (sp_node sp)) p of Some (_, None) \<Rightarrow> True | _ \<Rightarrow> False)"

definition shared_under :: "index \<Rightarrow> string \<Rightarrow> (string \<times> bool) list" where
  "shared_under ix dir =
     map (\<lambda>f. (f_path f, f_here f)) (in_order (filter (\<lambda>f. f_scope f = None \<and> f_deleted f = None
       \<and> like (escape_like (trim_both dir @ ''/%'')) (f_path f)) (files ix)))"

definition rule_inside :: "shared_place \<Rightarrow> string \<Rightarrow> bool" where
  "rule_inside sp dir \<longleftrightarrow> list_ex (\<lambda>(p, _). is_rule_path p) (shared_under (n_index (sp_node sp)) dir)"

subsection \<open>A free name\<close>

definition NUMBERED_UP_TO :: nat where "NUMBERED_UP_TO = 1000"

definition numbered :: "string \<Rightarrow> nat \<Rightarrow> string" where
  "numbered p n =
     (case split_dir p of (dir, name) \<Rightarrow>
        (case rfind name ''.'' of
           Some i \<Rightarrow> if i = 0 then dir @ name @ '' ('' @ show_nat n @ '')''
             else dir @ take i name @ '' ('' @ show_nat n @ '').'' @ drop (i + 1) name
         | None \<Rightarrow> dir @ name @ '' ('' @ show_nat n @ '')''))"

function free_numbered :: "(string \<Rightarrow> bool) \<Rightarrow> string \<Rightarrow> nat \<Rightarrow> string \<Rightarrow> string option" where
  "free_numbered is_taken p n placed =
     (if \<not> is_taken placed then Some placed
      else if n + 1 > NUMBERED_UP_TO then None
      else free_numbered is_taken p (n + 1) (numbered p (n + 1)))"
  by pat_completeness auto
termination by (relation "measure (\<lambda>(_, _, n, _). NUMBERED_UP_TO - n)") auto

declare free_numbered.simps [simp del]

subsection \<open>The changes\<close>

type_synonym 'a changed = "(refusal + 'a) \<times> shared_place"

definition make_folder :: "device_id \<Rightarrow> string \<Rightarrow> shared_place \<Rightarrow> unit changed" where
  "make_folder d p sp =
     (case checked_path sp d p of
        Inl e \<Rightarrow> (Inl e, sp)
      | Inr p \<Rightarrow>
          if \<not> has_folder sp then (Inl (Refused ''''), sp)
          else if path_taken sp p then (Inl (Refused p), sp)
          else (case create_dir_all p sp of None \<Rightarrow> (Inl (Refused p), sp) | Some sp \<Rightarrow> (Inr (), sp)))"

definition rename_one :: "desk \<Rightarrow> string \<Rightarrow> string \<Rightarrow> shared_place \<Rightarrow> unit changed" where
  \<comment> \<open>the folder of the new name made, and \<open>Store::rename_file\<close>\<close>
  "rename_one env source to sp =
     (case create_dir_all (parent_dir to) sp of
        None \<Rightarrow> (Inl (CannotMove (parent_dir to)), sp)
      | Some sp \<Rightarrow>
          (case rename_file env source to (sp_node sp) of
             (r, n) \<Rightarrow> (r, sp\<lparr>sp_node := n, sp_names := to # sp_names sp\<rparr>)))"

fun rename_each :: "desk \<Rightarrow> string \<Rightarrow> string \<Rightarrow> string list \<Rightarrow> shared_place \<Rightarrow> unit changed" where
  "rename_each env source to [] sp = (Inr (), sp)"
| "rename_each env source to (p # ps) sp =
     (case rename_one env p (to @ ''/'' @ drop (length source + 1) p) sp of
        (Inl e, sp) \<Rightarrow> (Inl e, sp)
      | (Inr _, sp) \<Rightarrow> rename_each env source to ps sp)"

definition move_path :: "desk \<Rightarrow> device_id \<Rightarrow> string \<Rightarrow> string \<Rightarrow> shared_place \<Rightarrow> unit changed" where
  "move_path env d source to sp =
     (case (checked_path sp d source, checked_path sp d to) of
        (Inl e, _) \<Rightarrow> (Inl e, sp)
      | (_, Inl e) \<Rightarrow> (Inl e, sp)
      | (Inr source, Inr to) \<Rightarrow>
          if source = to then (Inr (), sp)
          else if \<not> has_folder sp then (Inl (Refused ''''), sp)
          else if lies_in source to then (Inl (Refused source), sp)
          else if path_taken sp to then (Inl (Refused to), sp)
          else
            (case create_dir_all (parent_dir to) sp of
               None \<Rightarrow> (Inl (CannotMove (parent_dir to)), sp)
             | Some sp \<Rightarrow>
                 if is_shared_file sp source then rename_one env source to sp
                 else if source \<notin> set (sp_dirs sp) then (Inl (Missing source), sp)
                 else
                   (let inside = map fst (shared_entries_under (db_of (sp_node sp)) source d)
                    in if rule_inside sp source then (Inl (Refused source), sp)
                       else if inside = [] then (Inr (), rename_dir source to sp)
                       else (case rename_each env source to inside sp of
                           (Inl e, sp) \<Rightarrow> (Inl e, sp)
                         | (Inr _, sp) \<Rightarrow> (Inr (), remove_empty_folders source sp)))))"

definition put_shared :: "desk \<Rightarrow> string \<Rightarrow> bytes \<Rightarrow> shared_place \<Rightarrow> unit changed" where
  \<comment> \<open>the bytes at a place in the folder, indexed as a change made here\<close>
  "put_shared env to data sp =
     (case create_dir_all (parent_dir to) sp of
        None \<Rightarrow> (Inl (CannotMove (parent_dir to)), sp)
      | Some sp \<Rightarrow>
          if to \<in> set (sp_dirs sp) then (Inl (CannotMove to), sp)
          else
            (let k = d_codec env
             in (Inr (), (on_node (\<lambda>n. on_store (\<lambda>st. snd (put_file (k_sealed k) (k_hash k) (k_cdc k) (d_now env) (d_now_ns env) to data (d_mtime env to) st))
                   (put_on_disk to (Some data) n)) sp)\<lparr>sp_names := to # sp_names sp\<rparr>)))"

definition copy_one :: "desk \<Rightarrow> string \<Rightarrow> string \<Rightarrow> shared_place \<Rightarrow> unit changed" where
  "copy_one env source to sp =
     (case create_dir_all (parent_dir to) sp of
        None \<Rightarrow> (Inl (CannotMove (parent_dir to)), sp)
      | Some sp \<Rightarrow>
          (case on_disk (sp_node sp) source of
             None \<Rightarrow> (Inl (CannotMove source), sp)
           | Some data \<Rightarrow> if to \<in> set (sp_dirs sp) then (Inl (CannotMove source), sp) else put_shared env to data sp))"

fun copy_each :: "desk \<Rightarrow> string \<Rightarrow> string \<Rightarrow> string list \<Rightarrow> shared_place \<Rightarrow> unit changed" where
  "copy_each env source to [] sp = (Inr (), sp)"
| "copy_each env source to (p # ps) sp =
     (if is_rule_path p then copy_each env source to ps sp
      else case copy_one env p (to @ ''/'' @ drop (length source + 1) p) sp of
        (Inl e, sp) \<Rightarrow> (Inl e, sp)
      | (Inr _, sp) \<Rightarrow> copy_each env source to ps sp)"

definition copy_path :: "desk \<Rightarrow> device_id \<Rightarrow> string \<Rightarrow> string \<Rightarrow> shared_place \<Rightarrow> string changed" where
  "copy_path env d source to sp =
     (case (checked_path sp d source, checked_path sp d to) of
        (Inl e, _) \<Rightarrow> (Inl e, sp)
      | (_, Inl e) \<Rightarrow> (Inl e, sp)
      | (Inr source, Inr to) \<Rightarrow>
          if \<not> has_folder sp then (Inl (Refused ''''), sp)
          else if lies_in source to then (Inl (Refused source), sp)
          else
            (case free_numbered (path_taken sp) to 1 to of
               None \<Rightarrow> (Inl (Refused to), sp)
             | Some placed \<Rightarrow>
                 if is_shared_file sp source
                 then (if on_disk (sp_node sp) source = None then (Inl (Refused source), sp)
                       else (case copy_one env source placed sp of (Inl e, sp) \<Rightarrow> (Inl e, sp) | (Inr _, sp) \<Rightarrow> (Inr placed, sp)))
                 else if source \<notin> set (sp_dirs sp) then (Inl (Missing source), sp)
                 else
                   (case create_dir_all placed sp of
                      None \<Rightarrow> (Inl (CannotMove placed), sp)
                    | Some sp \<Rightarrow>
                        (case copy_each env source placed (map fst (shared_entries_here (db_of (sp_node sp)) source d)) sp of
                           (Inl e, sp) \<Rightarrow> (Inl e, sp)
                         | (Inr _, sp) \<Rightarrow> (Inr placed, sp)))))"

fun delete_each :: "desk \<Rightarrow> device_id \<Rightarrow> string list \<Rightarrow> shared_place \<Rightarrow> unit changed" where
  "delete_each env d [] sp = (Inr (), sp)"
| "delete_each env d (p # ps) sp =
     (case delete_to_trash_by env p None d (sp_node sp) of
        (Inl e, n) \<Rightarrow> (Inl e, sp\<lparr>sp_node := n\<rparr>)
      | (Inr _, n) \<Rightarrow> delete_each env d ps (sp\<lparr>sp_node := n\<rparr>))"

definition delete_path :: "desk \<Rightarrow> device_id \<Rightarrow> string \<Rightarrow> shared_place \<Rightarrow> unit changed" where
  "delete_path env d p sp =
     (case checked_path sp d p of
        Inl e \<Rightarrow> (Inl e, sp)
      | Inr p \<Rightarrow>
          if \<not> has_folder sp then (Inl (Refused ''''), sp)
          else if is_shared_file sp p then delete_each env d [p] sp
          else if p \<notin> set (sp_dirs sp) then (Inl (Missing p), sp)
          else if rule_inside sp p then (Inl (Refused p), sp)
          else (case delete_each env d (map fst (shared_entries_under (db_of (sp_node sp)) p d)) sp of
              (Inl e, sp) \<Rightarrow> (Inl e, sp)
            | (Inr _, sp) \<Rightarrow> (Inr (), remove_empty_folders p sp)))"

definition place_file :: "desk \<Rightarrow> device_id \<Rightarrow> bytes \<Rightarrow> string \<Rightarrow> hash \<Rightarrow> shared_place \<Rightarrow> string changed" where
  \<comment> \<open>\<open>staged\<close> is what arrived; moving it into place and copying it come to the same\<close>
  "place_file env d staged p h sp =
     (case checked_path sp d p of
        Inl e \<Rightarrow> (Inl e, sp)
      | Inr p \<Rightarrow>
          if \<not> has_folder sp then (Inl (Refused ''''), sp)
          else if k_hash (d_codec env) staged \<noteq> h then (Inl (Refused ''''), sp)
          else
            (case free_numbered (path_taken sp) p 1 p of
               None \<Rightarrow> (Inl (Refused p), sp)
             | Some placed \<Rightarrow>
                 (case put_shared env placed staged sp of (Inl e, sp) \<Rightarrow> (Inl e, sp) | (Inr _, sp) \<Rightarrow> (Inr placed, sp))))"

subsection \<open>What a change touches\<close>

definition same_but :: "string set \<Rightarrow> node \<Rightarrow> node \<Rightarrow> bool" where
  \<comment> \<open>files, rows and devices are as they were, but for the files and rows at the paths given\<close>
  "same_but T n n' \<longleftrightarrow> store_ok (the_store n') \<and> me (n_index n') = me (n_index n) \<and> n_peers n' = n_peers n
     \<and> (s_tree (the_store n') = None \<longleftrightarrow> s_tree (the_store n) = None)
     \<and> (\<forall>q. q \<notin> T \<longrightarrow> on_disk n' q = on_disk n q \<and> (\<forall>s. row_at (n_index n') s q = row_at (n_index n) s q))"

lemma same_but_refl: "store_ok (the_store n) \<Longrightarrow> same_but T n n"
  by (simp add: same_but_def)

lemma same_but_mono: "same_but T n n' \<Longrightarrow> T \<subseteq> U \<Longrightarrow> same_but U n n'"
  by (auto simp: same_but_def)

lemma same_but_trans: "same_but T n n1 \<Longrightarrow> same_but U n1 n2 \<Longrightarrow> same_but (T \<union> U) n n2"
  by (simp add: same_but_def)

lemma same_but_step: "same_but T n n1 \<Longrightarrow> same_but U n1 n2 \<Longrightarrow> U \<subseteq> T \<Longrightarrow> same_but T n n2"
  using same_but_trans same_but_mono by (metis Un_absorb2)

lemma same_but_ok: "same_but T n n' \<Longrightarrow> store_ok (the_store n')"
  by (simp add: same_but_def)

lemma n_peers_on_store [simp]: "n_peers (on_store g n) = n_peers n" "n_peers (put_on_disk p b n) = n_peers n"
  by (simp_all add: on_store_def put_on_disk_def)

lemma same_but_store:
  assumes "store_ok st'" and "rows_but s p (the_store n) st'"
  shows "same_but {p} n (on_store (\<lambda>_. st') n)"
  using assms rows_but_row[OF assms(2)]
  by (auto simp: same_but_def rows_but_def on_disk_store n_index_store)

lemma same_but_disk: "store_ok (the_store n) \<Longrightarrow> same_but {p} n (put_on_disk p b n)"
  by (auto simp: same_but_def on_disk_put simp flip: n_index_store)

lemma delete_file_same:
  assumes "store_ok (the_store n)" and "delete_file now p (the_store n) = Inr st"
  shows "same_but {p} n (on_store (\<lambda>_. st) n)"
proof -
  obtain row s where row: "folder_row (s_index (the_store n)) p = Some (row, s)"
    using assms(2) by (auto simp: delete_file_def split: option.splits)
  from delete_file_rows[OF assms(1) row, of now] assms(2) show ?thesis by (auto intro: same_but_store)
qed

lemma same_but_trash:
  assumes "store_ok (the_store n)" and "the_store n' = the_store n" and "n_peers n' = n_peers n"
  shows "same_but T n n'"
  using assms by (simp add: same_but_def on_disk_def n_index_store)

lemma delete_same:
  assumes "store_ok (the_store n)" and "delete_to_trash_by env p why d n = (r, n')"
  shows "same_but {p} n n'"
proof (cases "folder_row (n_index n) p")
  case None
  then show ?thesis using assms by (auto simp: delete_to_trash_by_def same_but_refl)
next
  case (Some found)
  then obtain row s where row: "folder_row (n_index n) p = Some (row, s)" by (cases found) auto
  define entry where "entry = \<lparr>tr_id = 0, tr_path = p, tr_scope = s, tr_content = f_hash row, tr_size = 0,
      tr_at = d_now env, tr_by = Some d, tr_why = why\<rparr>"
  have add: "same_but {p} m (snd (add_trash x m))" if "store_ok (the_store m)" for x m
    unfolding add_trash_def Let_def snd_conv by (rule same_but_trash[OF that]) (simp_all add: the_store_def)
  have move: "same_but {p} n (snd (move_to_trash p entry n))"
  proof (cases "on_disk n p")
    case (Some bytes)
    obtain i m where a: "add_trash (entry\<lparr>tr_size := length bytes\<rparr>) n = (i, m)" by fastforce
    have m: "same_but {p} n m" using add[OF assms(1), of "entry\<lparr>tr_size := length bytes\<rparr>"] a by simp
    have "same_but {p} m (m\<lparr>n_trash_files := (n_trash_files m)(i \<mapsto> bytes)\<rparr>)"
      by (rule same_but_trash[OF same_but_ok[OF m]]) (simp_all add: the_store_def)
    then have "same_but {p} n (m\<lparr>n_trash_files := (n_trash_files m)(i \<mapsto> bytes)\<rparr>)" using same_but_step[OF m] by blast
    from same_but_step[OF this same_but_disk[OF same_but_ok[OF this]]] show ?thesis
      by (simp add: move_to_trash_def Some a)
  qed (simp add: move_to_trash_def same_but_refl[OF assms(1)])
  obtain i m where m: "same_but {p} n m" and del: "delete_to_trash_by env p why d n = (case delete_file (d_now env) p (the_store m) of
      Inl e \<Rightarrow> (Inl (InIndex e), m) | Inr st \<Rightarrow> (Inr i, on_store (\<lambda>_. st) m))"
  proof -
    obtain i1 n1 where 1: "(if s_tree (the_store n) = None then (None, n) else move_to_trash p entry n) = (i1, n1)" by fastforce
    have n1: "same_but {p} n n1" using 1 move same_but_refl[OF assms(1)] by (metis prod.inject snd_conv)
    obtain i2 n2 where 2: "(case i1 of Some i \<Rightarrow> (Some i, n1)
        | None \<Rightarrow> if s_tree (the_store n1) \<noteq> None \<and> s = Some (me (n_index n1))
            then (case add_trash entry n1 of (i, n) \<Rightarrow> (Some i, n)) else (None, n1)) = (i2, n2)" by fastforce
    have "same_but {p} n1 n2"
      using 2 add[OF same_but_ok[OF n1], of entry] same_but_refl[OF same_but_ok[OF n1]]
      by (auto split: option.splits if_splits prod.splits)
    then have "same_but {p} n n2" using same_but_step[OF n1] by blast
    moreover have "delete_to_trash_by env p why d n = (case delete_file (d_now env) p (the_store n2) of
      Inl e \<Rightarrow> (Inl (InIndex e), n2) | Inr st \<Rightarrow> (Inr i2, on_store (\<lambda>_. st) n2))"
      unfolding delete_to_trash_by_def row option.case prod.case Let_def entry_def[symmetric] 1 2 ..
    ultimately show ?thesis by (rule that)
  qed
  show ?thesis
  proof (cases "delete_file (d_now env) p (the_store m)")
    case (Inr st)
    with assms(2) del same_but_step[OF m delete_file_same[OF same_but_ok[OF m] Inr]] show ?thesis by auto
  qed (use assms(2) del m in auto)
qed

lemma put_manifest_same:
  assumes "store_ok st" and "files (s_index st) = files (s_index (the_store n))" and "me (s_index st) = me (n_index n)"
    and "s_tree st = s_tree (the_store n)" and "about p pl" and "put_manifest sealed now p m data mtime pl st = (stats, st')"
    and "files (s_index st'') = files (s_index st')" and "me (s_index st'') = me (s_index st')" and "s_tree st'' = s_tree st'"
    and "store_ok st' \<Longrightarrow> store_ok st''"
  shows "same_but {p} n (on_store (\<lambda>_. st'') n)"
proof -
  have but: "rows_but (destination p pl st) p st st'" using put_rows[OF assms(1,5,6)] by blast
  have ok: "store_ok st''" using put_manifest_keeps[OF assms(1,5,6)] assms(10) by blast
  have "row_at (s_index st'') s q = row_at (s_index (the_store n)) s q" if "q \<noteq> p" for s q
    using rows_but_row[OF but, of s q] that assms(2,7) by (simp add: row_at_def)
  then show ?thesis
    using ok but assms(3,4,8,9) by (auto simp: same_but_def rows_but_def on_disk_def n_index_store)
qed

lemma put_file_same:
  assumes "store_ok (the_store n)"
  shows "same_but {p} n (on_store (\<lambda>st. snd (put_file sealed H cdc now now_ns p data mtime st)) n)"
proof -
  let ?st = "(the_store n)\<lparr>s_racy := (s_racy (the_store n))(p := too_recent now_ns mtime)\<rparr>"
  obtain stats st' where put: "put_manifest sealed now p (chunk_bytes H cdc data) data mtime pl_local ?st = (stats, st')" by fastforce
  have "same_but {p} n (on_store (\<lambda>_. st') n)"
    by (rule put_manifest_same[OF _ _ _ _ _ put]) (use assms in \<open>simp_all add: about_def pl_local_def n_index_store\<close>)
  moreover have "on_store (\<lambda>st. snd (put_file sealed H cdc now now_ns p data mtime st)) n = on_store (\<lambda>_. st') n"
    using put by (simp add: on_store_def put_file_def the_store_def)
  ultimately show ?thesis by simp
qed

lemma put_file_in_same:
  assumes "store_ok (the_store n)" and "put_file_in env p scope n = (r, n')"
  shows "same_but {p} n n'"
proof (cases "scope \<notin> {None, Some (me (n_index n))}")
  case True
  then show ?thesis using assms by (auto simp: put_file_in_def same_but_refl)
next
  case False
  define n1 where "n1 = on_store (case folder_row (n_index n) p of
      Some (_, current) \<Rightarrow> if current \<noteq> scope then tombstone_row (d_now env) p LocalStamp current else (\<lambda>st. st)
    | None \<Rightarrow> (\<lambda>st. st)) n"
  have "n1 = n \<or> (\<exists>s. n1 = on_store (\<lambda>_. tombstone_row (d_now env) p LocalStamp s (the_store n)) n)"
    by (auto simp: n1_def on_store_def the_store_def split: option.splits)
  then have s1: "same_but {p} n n1"
    using assms(1) same_but_refl same_but_store[OF store_ok_tombstone[OF assms(1)]] tombstone_rows[OF assms(1)] by blast
  show ?thesis
  proof (cases "on_disk n1 p")
    case None
    then show ?thesis using assms(2) s1 unfolding put_file_in_def Let_def n1_def[symmetric] if_not_P[OF False] by simp
  next
    case (Some data)
    let ?k = "d_codec env"
    let ?st = "(the_store n1)\<lparr>s_new_private := scope \<noteq> None, s_racy := (s_racy (the_store n1))(p := too_recent (d_now_ns env) (d_mtime env p))\<rparr>"
    obtain stats st' where put: "put_manifest (k_sealed ?k) (d_now env) p (chunk_bytes (k_hash ?k) (k_cdc ?k) data) data
        (d_mtime env p) pl_local ?st = (stats, st')" by fastforce
    have "same_but {p} n1 (on_store (\<lambda>_. st'\<lparr>s_new_private := s_new_private (the_store n1)\<rparr>) n1)"
      by (rule put_manifest_same[OF _ _ _ _ _ put])
        (use same_but_ok[OF s1] in \<open>simp_all add: about_def pl_local_def n_index_store\<close>)
    moreover have "n' = on_store (\<lambda>_. st'\<lparr>s_new_private := s_new_private (the_store n1)\<rparr>) n1"
      using assms(2) put Some unfolding put_file_in_def Let_def n1_def[symmetric] if_not_P[OF False] by (simp add: put_file_def)
    ultimately show ?thesis using same_but_step[OF s1] by blast
  qed
qed

lemma rename_same:
  assumes "store_ok (the_store n)" and "rename_file env source to n = (r, n')"
  shows "same_but {source, trim_both to} n n'"
proof -
  let ?t = "trim_both to"
  have del: "same_but {source, ?t} n m'"
    if m: "same_but {source, ?t} n m" and "(case delete_file (d_now env) source (the_store m) of
        Inl e \<Rightarrow> (Inl (InIndex e), m) | Inr st \<Rightarrow> (Inr (), on_store (\<lambda>_. st) m)) = (q, m')" for m q m'
  proof (cases "delete_file (d_now env) source (the_store m)")
    case (Inr st)
    then show ?thesis using that same_but_step[OF m delete_file_same[OF same_but_ok[OF m] Inr]] by auto
  qed (use that in auto)
  have folder: "same_but {source, ?t} n n'" if "rename_in_folder env source ?t scope n = (r, n')" for scope
  proof (cases "on_disk n source")
    case None
    then show ?thesis using that assms(1) by (auto simp: rename_in_folder_def same_but_refl)
  next
    case (Some data)
    have 1: "same_but {source, ?t} n (put_on_disk source None n)" using same_but_mono[OF same_but_disk[OF assms(1)]] by blast
    have 2: "same_but {source, ?t} n (put_on_disk ?t (Some data) (put_on_disk source None n))"
      using same_but_step[OF 1 same_but_disk[OF same_but_ok[OF 1]]] by blast
    obtain q n1 where put: "put_file_in env ?t scope (put_on_disk ?t (Some data) (put_on_disk source None n)) = (q, n1)" by fastforce
    have 3: "same_but {source, ?t} n n1" using same_but_step[OF 2 put_file_in_same[OF same_but_ok[OF 2] put]] by blast
    show ?thesis
    proof (cases q)
      case (Inl e)
      then show ?thesis using that 3 Some put by (auto simp: rename_in_folder_def)
    next
      case (Inr x)
      then show ?thesis using del[OF 3] that Some put by (simp add: rename_in_folder_def)
    qed
  qed
  have freed: "same_but {source, ?t} n n'" if h: "rename_freed env source ?t n = (r, n')"
  proof (cases "n' = n")
    case False
    then obtain row m where rm: "in_folder (n_index n) source = Some row" "listed_manifest (n_index n) row = Some m"
      using h by (auto simp: rename_freed_def split: option.splits)
    let ?pl = "pl_local\<lparr>pl_vault := Some (me (n_index n)), pl_by_reference := True\<rparr>"
    obtain stats st where put: "put_manifest (k_sealed (d_codec env)) (d_now env) ?t m [] (f_mtime row) ?pl (the_store n) = (stats, st)"
      by fastforce
    have l: "put_listed env ?t row m n = on_store (\<lambda>_. st\<lparr>s_index := set_materialised ?t False (s_index st)\<rparr>) n"
      using put by (simp add: put_listed_def Let_def on_store_def the_store_def)
    have about: "about ?t ?pl" by (simp add: about_def pl_local_def)
    have st: "store_ok st" "me (s_index st) = me (n_index n)" "s_tree st = s_tree (the_store n)"
      "\<And>s q. q \<noteq> ?t \<Longrightarrow> row_at (s_index st) s q = row_at (n_index n) s q"
      using put_manifest_keeps[OF assms(1) about put] rows_but_row[of _ ?t "the_store n" st] put_rows[OF assms(1) about put]
      by (auto simp: n_index_store)
    have row: "row_at (set_materialised ?t False ix) s q = row_at ix s q" if "q \<noteq> ?t" for ix s q
    proof -
      have "find (\<lambda>f. f_path f = q \<and> f_scope f = s) (map (\<lambda>f. if P f then f\<lparr>f_here := False\<rparr> else f) fs)
          = find (\<lambda>f. f_path f = q \<and> f_scope f = s) fs" if "\<And>f. P f \<Longrightarrow> f_path f \<noteq> q" for P fs
        using that by (induction fs) auto
      from this[of "\<lambda>f. f_path f = ?t \<and> f_deleted f = None \<and> folder_scope ix f" "files ix"] show ?thesis
        using that unfolding row_at_def set_materialised_def by simp
    qed
    have "same_but {?t} n (put_listed env ?t row m n)"
      using st row by (auto simp: same_but_def l n_index_store on_disk_def index_ok_set_materialised) (simp add: set_materialised_def)
    then show ?thesis
      using del[of "put_listed env ?t row m n"] h rm same_but_mono by (fastforce simp: rename_freed_def Let_def)
  qed (use assms(1) same_but_refl in simp)
  show ?thesis
    using assms same_but_refl[OF assms(1)] folder freed
    by (auto simp: rename_file_def Let_def split: option.splits if_splits)
qed

definition at_or_below :: "string \<Rightarrow> string set" where
  "at_or_below p = {q. q = p \<or> lies_in p q}"

lemma lies_in_iff: "lies_in dir p \<longleftrightarrow> (\<exists>r. p = dir @ CHR ''/'' # r)"
  by (auto simp: lies_in_def starts_with_iff)

lemma trimmed_below:
  assumes "tidy to"
  shows "trim_both (to @ CHR ''/'' # rest) \<in> at_or_below to"
proof -
  let ?slash = "\<lambda>c. c = CHR ''/''"
  obtain c t where to: "to = c # t" "c \<noteq> CHR ''/''" using tidy_ends(1,2)[OF assms] by (cases to) auto
  obtain u z where z: "to = u @ [z]" "z \<noteq> CHR ''/''" using tidy_ends(1,3)[OF assms] by (cases to rule: rev_cases) auto
  have r: "rev (to @ CHR ''/'' # rest) = (rev rest @ [CHR ''/'']) @ rev to" by simp
  show ?thesis
  proof (cases "\<forall>x \<in> set rest. ?slash x")
    case True
    then have "dropWhile ?slash (rev (to @ CHR ''/'' # rest)) = dropWhile ?slash (rev to)"
      unfolding r by (intro dropWhile_append2) auto
    moreover have "dropWhile ?slash (rev to) = rev to"
      using z by simp
    ultimately have "trim_slashes (to @ CHR ''/'' # rest) = to" unfolding trim_slashes_def by simp
    then show ?thesis using to by (simp add: trim_both_def at_or_below_def)
  next
    case False
    then obtain y where y: "y \<in> set (rev rest)" "\<not> ?slash y" by auto
    have "dropWhile ?slash (rev (to @ CHR ''/'' # rest)) = dropWhile ?slash (rev rest) @ CHR ''/'' # rev to"
      using dropWhile_append1[of y "rev rest" ?slash, OF y] by simp
    then have "trim_slashes (to @ CHR ''/'' # rest) = to @ CHR ''/'' # rev (dropWhile ?slash (rev rest))"
      unfolding trim_slashes_def by simp
    then show ?thesis using to by (simp add: trim_both_def at_or_below_def lies_in_iff)
  qed
qed

lemma create_dir_node: "create_dir_all p sp = Some sp' \<Longrightarrow> sp_node sp' = sp_node sp"
  by (auto simp: create_dir_all_def split: if_splits)

lemma rename_one_same:
  assumes "store_ok (the_store (sp_node sp))" and "rename_one env source to sp = (r, sp')"
  shows "same_but {source, trim_both to} (sp_node sp) (sp_node sp')"
proof (cases "create_dir_all (parent_dir to) sp")
  case (Some sp1)
  obtain q n where q: "rename_file env source to (sp_node sp1) = (q, n)" by fastforce
  then show ?thesis
    using rename_same[OF assms(1), of env source to q n] assms(2) Some create_dir_node[OF Some] by (simp add: rename_one_def)
      (metis shared_place.ext_inject shared_place.surjective shared_place.update_convs(1,3))
qed (use assms same_but_refl in \<open>auto simp: rename_one_def\<close>)

lemma rename_each_same:
  assumes "store_ok (the_store (sp_node sp))" and "rename_each env source to ps sp = (r, sp')" and "tidy to"
  shows "same_but (set ps \<union> at_or_below to) (sp_node sp) (sp_node sp')"
  using assms(1,2)
proof (induction ps arbitrary: sp)
  case (Cons p ps)
  let ?T = "set (p # ps) \<union> at_or_below to"
  obtain q sp1 where one: "rename_one env p (to @ ''/'' @ drop (length source + 1) p) sp = (q, sp1)" by fastforce
  have "trim_both (to @ ''/'' @ drop (length source + 1) p) \<in> at_or_below to" using trimmed_below[OF assms(3)] by simp
  then have 1: "same_but ?T (sp_node sp) (sp_node sp1)"
    using same_but_mono[OF rename_one_same[OF Cons.prems(1) one], of ?T] by auto
  show ?case
  proof (cases q)
    case (Inr x)
    then have "rename_each env source to ps sp1 = (r, sp')" using Cons.prems(2) one by simp
    from same_but_step[OF 1 Cons.IH[OF same_but_ok[OF 1] this]] show ?thesis by auto
  qed (use Cons.prems(2) one 1 in simp)
qed (auto intro: same_but_refl)

lemma rename_dir_same:
  assumes "store_ok (the_store (sp_node sp))"
  shows "same_but (at_or_below source \<union> at_or_below to) (sp_node sp) (sp_node (rename_dir source to sp))"
proof -
  let ?n = "sp_node (rename_dir source to sp)"
  have "n_index ?n = n_index (sp_node sp)" by (simp add: rename_dir_def n_index_store)
  moreover have "n_peers ?n = n_peers (sp_node sp)" by (simp add: rename_dir_def)
  moreover have "s_tree (the_store ?n) = None \<longleftrightarrow> s_tree (the_store (sp_node sp)) = None"
    by (simp add: rename_dir_def)
  moreover have "on_disk ?n q = on_disk (sp_node sp) q" if "q \<notin> at_or_below source \<union> at_or_below to" for q
    using that by (auto simp: rename_dir_def on_disk_def at_or_below_def split: option.splits)
  ultimately show ?thesis using assms by (simp add: same_but_def flip: n_index_store)
qed

lemma put_shared_same:
  assumes "store_ok (the_store (sp_node sp))" and "put_shared env to data sp = (r, sp')"
  shows "same_but {to} (sp_node sp) (sp_node sp')"
proof (cases "create_dir_all (parent_dir to) sp")
  case (Some sp1)
  have "same_but {to} (sp_node sp) (put_on_disk to (Some data) (sp_node sp))" using same_but_disk[OF assms(1)] .
  from same_but_step[OF this put_file_same[OF same_but_ok[OF this]]] show ?thesis
    using assms(2) Some create_dir_node[OF Some] same_but_refl[OF assms(1)]
    by (auto simp: put_shared_def Let_def on_node_def split: if_splits)
qed (use assms same_but_refl in \<open>auto simp: put_shared_def\<close>)

lemma copy_one_same:
  assumes "store_ok (the_store (sp_node sp))" and "copy_one env source to sp = (r, sp')"
  shows "same_but {to} (sp_node sp) (sp_node sp')"
proof (cases "create_dir_all (parent_dir to) sp")
  case (Some sp1)
  then show ?thesis
    using assms create_dir_node[OF Some] same_but_refl[OF assms(1)] put_shared_same[of sp1 env to _ r sp']
    by (auto simp: copy_one_def split: option.splits if_splits)
qed (use assms same_but_refl in \<open>auto simp: copy_one_def\<close>)

lemma copy_each_same:
  assumes "store_ok (the_store (sp_node sp))" and "copy_each env source to ps sp = (r, sp')"
  shows "same_but (at_or_below to) (sp_node sp) (sp_node sp')"
  using assms
proof (induction ps arbitrary: sp)
  case (Cons p ps)
  show ?case
  proof (cases "is_rule_path p")
    case False
    obtain q sp1 where one: "copy_one env p (to @ ''/'' @ drop (length source + 1) p) sp = (q, sp1)" by fastforce
    have 1: "same_but (at_or_below to) (sp_node sp) (sp_node sp1)"
      by (rule same_but_mono[OF copy_one_same[OF Cons.prems(1) one]]) (auto simp: at_or_below_def lies_in_iff)
    show ?thesis
    proof (cases q)
      case (Inr x)
      then have "copy_each env source to ps sp1 = (r, sp')" using Cons.prems(2) one False by simp
      from same_but_step[OF 1 Cons.IH[OF same_but_ok[OF 1] this]] show ?thesis by simp
    qed (use Cons.prems(2) one 1 False in simp)
  qed (use Cons in simp)
qed (auto intro: same_but_refl)

lemma delete_each_same:
  assumes "store_ok (the_store (sp_node sp))" and "delete_each env d ps sp = (r, sp')"
  shows "same_but (set ps) (sp_node sp) (sp_node sp')"
  using assms
proof (induction ps arbitrary: sp)
  case (Cons p ps)
  obtain q n where one: "delete_to_trash_by env p None d (sp_node sp) = (q, n)" by fastforce
  have 1: "same_but (set (p # ps)) (sp_node sp) (sp_node (sp\<lparr>sp_node := n\<rparr>))"
    using same_but_mono[OF delete_same[OF Cons.prems(1) one]] by simp
  show ?case
  proof (cases q)
    case (Inr x)
    then have "delete_each env d ps (sp\<lparr>sp_node := n\<rparr>) = (r, sp')" using Cons.prems(2) one by simp
    from same_but_step[OF 1 Cons.IH[OF same_but_ok[OF 1] this]] show ?thesis by auto
  next
    case (Inl e)
    then show ?thesis using Cons.prems(2) one 1 by auto
  qed
qed (auto intro: same_but_refl)

lemma checked_pathD:
  assumes "checked_path sp d p = Inr p'"
  shows "p' = trim_slashes p" and "tidy p'" and "shared_with (db_of (sp_node sp)) p' (Some d)" and "\<not> is_rule_path p'"
proof -
  have c: "p' = trim_slashes p" "is_safe_path p'" "shared_path_reachable (db_of (sp_node sp)) p' d" "\<not> is_rule_path p'"
    using assms by (auto simp: checked_path_def Let_def split: if_splits)
  then show "p' = trim_slashes p" "tidy p'" "\<not> is_rule_path p'" by (simp_all add: tidy_safe)
  then show "shared_with (db_of (sp_node sp)) p' (Some d)" using c(3) tidy_trimmed by (simp add: shared_path_reachable_def)
qed

lemma entries_lie_in:
  assumes "tidy dir"
  shows "set (map fst (shared_entries_under db dir d)) \<subseteq> at_or_below dir"
  using tidy_trimmed[OF assms] assms
  by (auto simp: shared_entries_under_def shared_entries_where_def Let_def entries_of_iff at_or_below_def lies_in_def starts_with_def)

lemma make_folder_same:
  "store_ok (the_store (sp_node sp)) \<Longrightarrow> make_folder d p sp = (r, sp') \<Longrightarrow> same_but {} (sp_node sp) (sp_node sp')"
  by (auto simp: make_folder_def create_dir_node same_but_refl split: sum.splits if_splits option.splits)

lemma move_path_same:
  assumes "store_ok (the_store (sp_node sp))" and "move_path env d source to sp = (r, sp')"
  shows "sp_node sp' = sp_node sp \<or>
    (\<exists>a b. checked_path sp d source = Inr a \<and> checked_path sp d to = Inr b
      \<and> same_but (at_or_below a \<union> at_or_below b) (sp_node sp) (sp_node sp'))"
proof (cases "sp_node sp' = sp_node sp")
  case False
  then obtain a b where ab: "checked_path sp d source = Inr a" "checked_path sp d to = Inr b"
    using assms(2) by (cases "checked_path sp d source"; cases "checked_path sp d to") (auto simp: move_path_def)
  have t: "tidy a" "tidy b" using checked_pathD(2) ab by blast+
  let ?T = "at_or_below a \<union> at_or_below b"
  obtain sp1 where sp1: "create_dir_all (parent_dir b) sp = Some sp1"
    using False assms(2) ab by (cases "create_dir_all (parent_dir b) sp") (auto simp: move_path_def split: if_splits)
  have node: "sp_node sp1 = sp_node sp" using create_dir_node[OF sp1] .
  define inside where "inside = map fst (shared_entries_under (db_of (sp_node sp)) a d)"
  have in_T: "set inside \<subseteq> at_or_below a"
    unfolding inside_def by (rule entries_lie_in[OF t(1)])
  have "(r, sp') = rename_one env a b sp1 \<or> sp' = rename_dir a b sp1
      \<or> (\<exists>q sp2. rename_each env a b inside sp1 = (q, sp2) \<and> sp_node sp' = sp_node sp2)"
    using False assms(2) ab sp1 node
    by (auto simp: move_path_def Let_def remove_empty_folders_def simp flip: inside_def split: if_splits sum.splits prod.splits)
  then have "same_but ?T (sp_node sp1) (sp_node sp')"
  proof (elim disjE exE conjE)
    assume "(r, sp') = rename_one env a b sp1"
    then have "same_but {a, trim_both b} (sp_node sp1) (sp_node sp')" using rename_one_same[of sp1 env a b r sp'] assms(1) node by simp
    then show ?thesis by (rule same_but_mono) (use tidy_trimmed[OF t(2)] in \<open>auto simp: at_or_below_def\<close>)
  next
    assume "sp' = rename_dir a b sp1"
    then show ?thesis using rename_dir_same[of sp1 a b] assms(1) node by simp
  next
    fix q sp2
    assume h: "rename_each env a b inside sp1 = (q, sp2)" "sp_node sp' = sp_node sp2"
    have "same_but (set inside \<union> at_or_below b) (sp_node sp1) (sp_node sp2)"
      by (rule rename_each_same[OF _ h(1) t(2)]) (use assms(1) node in simp)
    then have "same_but (at_or_below a \<union> at_or_below b) (sp_node sp1) (sp_node sp2)" by (rule same_but_mono) (use in_T in blast)
    then show ?thesis using h(2) by simp
  qed
  then show ?thesis using ab node by auto
qed simp

lemma free_numbered_from: "free_numbered is_taken p n placed = Some q \<Longrightarrow> \<not> is_taken q \<and> (q = placed \<or> (\<exists>k. q = numbered p k))"
proof (induction is_taken p n placed rule: free_numbered.induct)
  case (1 is_taken p n placed)
  then show ?case by (subst (asm) (2) free_numbered.simps) (auto split: if_splits)
qed

lemma copy_path_same:
  assumes "store_ok (the_store (sp_node sp))" and "copy_path env d source to sp = (r, sp')"
  shows "sp_node sp' = sp_node sp \<or>
    (\<exists>a b. checked_path sp d to = Inr a \<and> (b = a \<or> (\<exists>k. b = numbered a k)) \<and> same_but (at_or_below b) (sp_node sp) (sp_node sp'))"
proof (cases "sp_node sp' = sp_node sp")
  case False
  then obtain s a where sa: "checked_path sp d source = Inr s" "checked_path sp d to = Inr a"
    using assms(2) by (cases "checked_path sp d source"; cases "checked_path sp d to") (auto simp: copy_path_def)
  obtain b where b: "free_numbered (path_taken sp) a 1 a = Some b"
    using False assms(2) sa by (cases "free_numbered (path_taken sp) a 1 a") (auto simp: copy_path_def split: if_splits)
  have "(\<exists>q. copy_one env s b sp = (q, sp')) \<or> (\<exists>ps q sp1. sp_node sp1 = sp_node sp \<and> copy_each env s b ps sp1 = (q, sp'))"
    using False assms(2) sa b create_dir_node[of b sp]
    by (auto simp: copy_path_def split: if_splits sum.splits prod.splits option.splits)
  then have "same_but (at_or_below b) (sp_node sp) (sp_node sp')"
  proof (elim disjE exE conjE)
    fix q assume "copy_one env s b sp = (q, sp')"
    from same_but_mono[OF copy_one_same[OF assms(1) this]] show ?thesis by (simp add: at_or_below_def)
  next
    fix ps q sp1 assume h: "sp_node sp1 = sp_node sp" "copy_each env s b ps sp1 = (q, sp')"
    show ?thesis using copy_each_same[OF _ h(2)] h(1) assms(1) by simp
  qed
  then show ?thesis using sa(2) free_numbered_from[OF b] by blast
qed simp

lemma delete_path_same:
  assumes "store_ok (the_store (sp_node sp))" and "delete_path env d p sp = (r, sp')"
  shows "sp_node sp' = sp_node sp \<or> (\<exists>a. checked_path sp d p = Inr a \<and> same_but (at_or_below a) (sp_node sp) (sp_node sp'))"
proof (cases "sp_node sp' = sp_node sp")
  case False
  then obtain a where a: "checked_path sp d p = Inr a"
    using assms(2) by (cases "checked_path sp d p") (auto simp: delete_path_def)
  let ?inside = "map fst (shared_entries_under (db_of (sp_node sp)) a d)"
  have "set ?inside \<subseteq> at_or_below a"
    by (rule entries_lie_in[OF checked_pathD(2)[OF a]])
  moreover have "(\<exists>q. delete_each env d [a] sp = (q, sp')) \<or> (\<exists>q sp1. delete_each env d ?inside sp = (q, sp1) \<and> sp_node sp' = sp_node sp1)"
    using False assms(2) a
    by (auto simp del: delete_each.simps simp: delete_path_def remove_empty_folders_def split: if_splits sum.splits prod.splits)
  ultimately have "same_but (at_or_below a) (sp_node sp) (sp_node sp')"
  proof (elim disjE exE conjE)
    fix q assume "delete_each env d [a] sp = (q, sp')"
    from same_but_mono[OF delete_each_same[OF assms(1) this]] show ?thesis by (simp add: at_or_below_def)
  next
    fix q sp1 assume "set ?inside \<subseteq> at_or_below a" "delete_each env d ?inside sp = (q, sp1)" "sp_node sp' = sp_node sp1"
    then show ?thesis using same_but_mono[OF delete_each_same[OF assms(1)]] by metis
  qed
  then show ?thesis using a by blast
qed simp

lemma place_file_same:
  assumes "store_ok (the_store (sp_node sp))" and "place_file env d staged p h sp = (r, sp')"
  shows "sp_node sp' = sp_node sp \<or>
    (\<exists>a b. checked_path sp d p = Inr a \<and> (b = a \<or> (\<exists>k. b = numbered a k)) \<and> same_but {b} (sp_node sp) (sp_node sp'))"
proof (cases "sp_node sp' = sp_node sp")
  case False
  then obtain a where a: "checked_path sp d p = Inr a"
    using assms(2) by (cases "checked_path sp d p") (auto simp: place_file_def)
  obtain b where b: "free_numbered (path_taken sp) a 1 a = Some b"
    using False assms(2) a by (cases "free_numbered (path_taken sp) a 1 a") (auto simp: place_file_def split: if_splits)
  obtain q where "put_shared env b staged sp = (q, sp')"
    using False assms(2) a b by (auto simp: place_file_def split: if_splits sum.splits prod.splits)
  from put_shared_same[OF assms(1) this] show ?thesis using a free_numbered_from[OF b] by blast
qed simp

subsection \<open>Runs of changes\<close>

datatype phone_change =
    MakeFolder string
  | MovePath string string
  | CopyPath string string
  | DeletePath string
  | PlaceFile bytes string hash

definition make_phone_change :: "desk \<Rightarrow> device_id \<Rightarrow> phone_change \<Rightarrow> shared_place \<Rightarrow> shared_place" where
  \<comment> \<open>what is left, whether it was refused or not\<close>
  "make_phone_change env d c sp =
     (case c of
        MakeFolder p \<Rightarrow> snd (make_folder d p sp)
      | MovePath source to \<Rightarrow> snd (move_path env d source to sp)
      | CopyPath source to \<Rightarrow> snd (copy_path env d source to sp)
      | DeletePath p \<Rightarrow> snd (delete_path env d p sp)
      | PlaceFile staged p h \<Rightarrow> snd (place_file env d staged p h sp))"

definition make_phone_changes :: "device_id \<Rightarrow> (desk \<times> phone_change) list \<Rightarrow> shared_place \<Rightarrow> shared_place" where
  "make_phone_changes d cs sp = fold (\<lambda>(env, c). make_phone_change env d c) cs sp"

fun paths_named :: "phone_change \<Rightarrow> string list" where
  "paths_named (MakeFolder p) = []"
| "paths_named (MovePath source to) = [source, to]"
| "paths_named (CopyPath source to) = [to]"
| "paths_named (DeletePath p) = [p]"
| "paths_named (PlaceFile staged p h) = [p]"

definition shut_out :: "peers_db \<Rightarrow> device_id \<Rightarrow> string \<Rightarrow> bool" where
  "shut_out db d q \<longleftrightarrow> \<not> shared_with db q (Some d)"

definition clear_of :: "peers_db \<Rightarrow> device_id \<Rightarrow> string \<Rightarrow> bool" where
  \<comment> \<open>no folder the device is left out of lies in this one, or in, or is, one its name may be numbered to\<close>
  "clear_of db d p \<longleftrightarrow> (\<forall>s \<in> set (a_shares db). shut_out db d s \<longrightarrow>
     \<not> lies_in p s \<and> (\<forall>k. numbered p k \<noteq> s \<and> \<not> lies_in (numbered p k) s))"

lemma shut_out_iff:
  "shut_out db d q \<longleftrightarrow> (\<exists>s \<in> set (a_shares db). (q = s \<or> lies_in s q) \<and> (s, d) \<notin> set (a_members db))"
proof -
  have "take (length s + 1) q = s @ ''/'' \<longleftrightarrow> lies_in s q" for s by (auto simp: lies_in_def starts_with_def)
  then show ?thesis unfolding shut_out_def shared_with_def list_ex_iff by auto
qed

lemma lies_in_both:
  assumes "lies_in a q" and "lies_in b q"
  shows "a = b \<or> lies_in a b \<or> lies_in b a"
proof -
  obtain r where "q = a @ CHR ''/'' # r" using assms(1) unfolding lies_in_iff by blast
  moreover obtain t where "q = b @ CHR ''/'' # t" using assms(2) unfolding lies_in_iff by blast
  ultimately have "a @ CHR ''/'' # r = b @ CHR ''/'' # t" by simp
  then obtain us where "(a = b @ us \<and> us @ CHR ''/'' # r = CHR ''/'' # t) \<or> (a @ us = b \<and> CHR ''/'' # r = us @ CHR ''/'' # t)"
    by (auto simp: append_eq_append_conv2)
  then show ?thesis by (cases us) (auto simp: lies_in_iff)
qed

lemma lies_in_trans: "lies_in a b \<Longrightarrow> lies_in b c \<Longrightarrow> lies_in a c"
  by (auto simp: lies_in_iff)

lemma shut_out_below:
  assumes "q \<in> at_or_below p" and "shut_out db d q" and "\<not> shut_out db d p"
  shows "\<exists>s \<in> set (a_shares db). shut_out db d s \<and> lies_in p s"
proof -
  obtain s where s: "s \<in> set (a_shares db)" "q = s \<or> lies_in s q" "(s, d) \<notin> set (a_members db)"
    using assms(2) by (auto simp: shut_out_iff)
  have "lies_in p q" using assms by (auto simp: at_or_below_def)
  then have "lies_in p s \<or> p = s \<or> lies_in s p" using s(2) lies_in_both by blast
  moreover have "p \<noteq> s" "\<not> lies_in s p" using assms(3) s(1,3) by (auto simp: shut_out_iff)
  ultimately show ?thesis using s(1,3) by (auto simp: shut_out_iff)
qed

lemma numbered_beside: "\<exists>name. numbered p k = fst (split_dir p) @ name \<and> CHR ''/'' \<notin> set name"
proof -
  have "CHR ''/'' \<notin> set (show_nat k)" using show_nat_no_slash .
  moreover have "CHR ''/'' \<notin> set (snd (split_dir p))" by (rule split_dir_name[OF prod.collapse[symmetric]])
  ultimately show ?thesis
    by (auto simp: numbered_def case_prod_beta dest: in_set_takeD in_set_dropD split: option.splits)
qed

lemma numbered_lies_in:
  assumes "lies_in s (numbered p k)"
  shows "lies_in s p"
proof -
  obtain name where n: "numbered p k = fst (split_dir p) @ name" "CHR ''/'' \<notin> set name" using numbered_beside by blast
  obtain r where r: "fst (split_dir p) @ name = s @ CHR ''/'' # r" using assms n(1) by (auto simp: lies_in_iff)
  then obtain us where us: "(fst (split_dir p) = s @ us \<and> us @ name = CHR ''/'' # r) \<or> (fst (split_dir p) @ us = s \<and> name = us @ CHR ''/'' # r)"
    unfolding append_eq_append_conv2 by blast
  then have a: "fst (split_dir p) = s @ us" "us @ name = CHR ''/'' # r" using n(2) by auto
  then obtain t where "us = CHR ''/'' # t" using n(2) by (cases us) auto
  then have "p = s @ CHR ''/'' # t @ snd (split_dir p)"
    using a(1) split_dir_append[OF prod.collapse[symmetric], of p] by simp
  then show ?thesis unfolding lies_in_iff by blast
qed

lemma checked_not_hidden:
  assumes "checked_path sp d p = Inr p'"
  shows "p' \<noteq> []" and "hd p' \<noteq> CHR ''.''"
proof -
  have t: "tidy p'" using checked_pathD(2)[OF assms] .
  then show ne: "p' \<noteq> []" by auto
  have no: "\<not> list_ex (\<lambda>part. starts_with part ''.'') (split_on CHR ''/'' p')"
    using assms by (auto simp: checked_path_def Let_def split: if_splits)
  obtain c s where p: "p' = c # s" using ne by (cases p') auto
  then have "c \<noteq> CHR ''/''" using tidy_ends(2)[OF t] by simp
  then obtain r ps where "split_on CHR ''/'' p' = (c # r) # ps"
    using p by (cases "split_on CHR ''/'' s") auto
  then show "hd p' \<noteq> CHR ''.''" using no p by (simp add: starts_with_def)
qed

lemma rule_path_hidden: "is_rule_path q \<Longrightarrow> q \<noteq> [] \<and> hd q = CHR ''.''"
  by (cases q) (auto simp: is_rule_path_def strip_prefix_def starts_with_def SHARING_DIR_def split: if_splits)

lemma numbered_hd:
  assumes "p \<noteq> []"
  shows "numbered p k \<noteq> [] \<and> hd (numbered p k) = hd p"
proof -
  obtain dir name where d: "split_dir p = (dir, name)" by fastforce
  then have p: "dir @ name = p" by (rule split_dir_append)
  have "hd (take i name) = hd name \<and> take i name \<noteq> []" if "rfind name ''.'' = Some i" "i \<noteq> 0" for i
    using rfind_Some_split[OF that(1)] that(2) by (cases name) (auto simp: take_Cons')
  then show ?thesis
    using assms p by (cases "dir = []") (auto simp: numbered_def d split: option.splits)
qed

lemma touched_is_open:
  assumes "checked_path sp d p = Inr a" and "b = a \<or> (\<exists>k. b = numbered a k)" and "clear_of (db_of (sp_node sp)) d a"
    and "q \<in> at_or_below b"
  shows "\<not> shut_out (db_of (sp_node sp)) d q \<and> \<not> is_rule_path q"
proof
  let ?db = "db_of (sp_node sp)"
  have a: "\<not> shut_out ?db d a" using checked_pathD(3)[OF assms(1)] by (simp add: shut_out_def)
  have b: "\<not> shut_out ?db d b"
  proof (cases "b = a")
    case False
    then obtain k where k: "b = numbered a k" using assms(2) by blast
    show ?thesis
    proof
      assume "shut_out ?db d b"
      then obtain s where s: "s \<in> set (a_shares ?db)" "b = s \<or> lies_in s b" "(s, d) \<notin> set (a_members ?db)"
        by (auto simp: shut_out_iff)
      then have so: "shut_out ?db d s" by (auto simp: shut_out_iff)
      then have "lies_in s a" using s(1,2) assms(3) k numbered_lies_in by (auto simp: clear_of_def)
      then show False using a s(1,3) by (auto simp: shut_out_iff)
    qed
  qed (use a in simp)
  have "\<not> lies_in b s" if "s \<in> set (a_shares ?db)" "shut_out ?db d s" for s
    using assms(2,3) that by (auto simp: clear_of_def)
  then show "\<not> shut_out ?db d q" using shut_out_below[OF assms(4) _ b] by blast
  have "b \<noteq> [] \<and> hd b \<noteq> CHR ''.''"
    using checked_not_hidden[OF assms(1)] assms(2) numbered_hd by metis
  then show "\<not> is_rule_path q" using assms(4) rule_path_hidden by (cases b) (fastforce simp: at_or_below_def lies_in_iff)+
qed

lemma phone_change_same:
  assumes "store_ok (the_store (sp_node sp))" and "\<forall>p \<in> set (paths_named c). clear_of (db_of (sp_node sp)) d (trim_slashes p)"
  shows "\<exists>T. same_but T (sp_node sp) (sp_node (make_phone_change env d c sp))
    \<and> (\<forall>q \<in> T. \<not> shut_out (db_of (sp_node sp)) d q \<and> \<not> is_rule_path q)"
proof -
  let ?sp' = "make_phone_change env d c sp"
  have unmoved: "sp_node ?sp' = sp_node sp \<Longrightarrow> ?thesis"
    using same_but_refl[OF assms(1), of "{}"] by auto
  have clear: "clear_of (db_of (sp_node sp)) d a" if "checked_path sp d p = Inr a" "p \<in> set (paths_named c)" for p a
    using that assms(2) checked_pathD(1) by blast
  note open1 = touched_is_open[OF _ disjI1[OF refl]] and opens = touched_is_open
  show ?thesis
  proof (cases c)
    case (MakeFolder p)
    then have "same_but {} (sp_node sp) (sp_node ?sp')"
      using make_folder_same[OF assms(1)] by (simp add: make_phone_change_def) (metis prod.collapse)
    then show ?thesis by blast
  next
    case (MovePath source to)
    then have "move_path env d source to sp = (fst (move_path env d source to sp), ?sp')" by (simp add: make_phone_change_def)
    note same = move_path_same[OF assms(1) this]
    show ?thesis
    proof (cases "sp_node ?sp' = sp_node sp")
      case True
      show ?thesis using unmoved[OF True] .
    next
      case False
      with same obtain a b where h: "checked_path sp d source = Inr a" "checked_path sp d to = Inr b"
        "same_but (at_or_below a \<union> at_or_below b) (sp_node sp) (sp_node ?sp')"
        by blast
      show ?thesis
        by (rule exI, rule conjI[OF h(3)]) (use open1[OF h(1) clear[OF h(1)]] open1[OF h(2) clear[OF h(2)]] MovePath in auto)
    qed
  next
    case (CopyPath source to)
    then have "copy_path env d source to sp = (fst (copy_path env d source to sp), ?sp')" by (simp add: make_phone_change_def)
    note same = copy_path_same[OF assms(1) this]
    show ?thesis
    proof (cases "sp_node ?sp' = sp_node sp")
      case True
      show ?thesis using unmoved[OF True] .
    next
      case False
      with same obtain a b where h: "checked_path sp d to = Inr a" "b = a \<or> (\<exists>k. b = numbered a k)" "same_but (at_or_below b) (sp_node sp) (sp_node ?sp')"
        by blast
      show ?thesis by (rule exI, rule conjI[OF h(3)]) (use opens[OF h(1,2) clear[OF h(1)]] CopyPath in auto)
    qed
  next
    case (DeletePath p)
    then have "delete_path env d p sp = (fst (delete_path env d p sp), ?sp')" by (simp add: make_phone_change_def)
    note same = delete_path_same[OF assms(1) this]
    show ?thesis
    proof (cases "sp_node ?sp' = sp_node sp")
      case True
      show ?thesis using unmoved[OF True] .
    next
      case False
      with same obtain a where h: "checked_path sp d p = Inr a" "same_but (at_or_below a) (sp_node sp) (sp_node ?sp')"
        by blast
      show ?thesis by (rule exI, rule conjI[OF h(2)]) (use open1[OF h(1) clear[OF h(1)]] DeletePath in auto)
    qed
  next
    case (PlaceFile staged p hash)
    then have "place_file env d staged p hash sp = (fst (place_file env d staged p hash sp), ?sp')" by (simp add: make_phone_change_def)
    note same = place_file_same[OF assms(1) this]
    show ?thesis
    proof (cases "sp_node ?sp' = sp_node sp")
      case True
      show ?thesis using unmoved[OF True] .
    next
      case False
      with same obtain a b where h: "checked_path sp d p = Inr a" "b = a \<or> (\<exists>k. b = numbered a k)" "same_but {b} (sp_node sp) (sp_node ?sp')"
        by blast
      show ?thesis
        by (rule exI, rule conjI[OF h(3)]) (use opens[OF h(1,2) clear[OF h(1)], of b] PlaceFile in \<open>auto simp: at_or_below_def\<close>)
    qed
  qed
qed

lemma shares_fixed:
  assumes "n_peers n' = n_peers n"
  shows "shut_out (db_of n') d q = shut_out (db_of n) d q" and "clear_of (db_of n') d p = clear_of (db_of n) d p"
  using assms by (simp_all add: shut_out_def shared_with_def clear_of_def db_of_def)

text \<open>C27: whatever a phone or a guest asks of the shared folder, in a run of changes of any length, the
  files of every folder it is left out of stay as they are, on disk and in the index, and so do the
  sharing rules: as long as no such folder lies within a path it names for moving, deleting or
  putting, nor under a name that one may be numbered to.
\<close>

theorem withheld_folders_are_left_alone:
  assumes "store_ok (the_store (sp_node sp))"
    and "\<forall>(env, c) \<in> set cs. \<forall>p \<in> set (paths_named c). clear_of (db_of (sp_node sp)) d (trim_slashes p)"
    and "shut_out (db_of (sp_node sp)) d q \<or> is_rule_path q"
  shows "on_disk (sp_node (make_phone_changes d cs sp)) q = on_disk (sp_node sp) q
    \<and> (\<forall>s. row_at (n_index (sp_node (make_phone_changes d cs sp))) s q = row_at (n_index (sp_node sp)) s q)"
  using assms
proof (induction cs arbitrary: sp)
  case (Cons e cs)
  obtain env c where e: "e = (env, c)" by (cases e)
  let ?sp1 = "make_phone_change env d c sp"
  obtain T where T: "same_but T (sp_node sp) (sp_node ?sp1)"
    "\<forall>q \<in> T. \<not> shut_out (db_of (sp_node sp)) d q \<and> \<not> is_rule_path q"
    using phone_change_same[OF Cons.prems(1), of c d env] Cons.prems(2) e by auto
  have peers: "n_peers (sp_node ?sp1) = n_peers (sp_node sp)" using T(1) by (simp add: same_but_def)
  have "on_disk (sp_node ?sp1) q = on_disk (sp_node sp) q
      \<and> (\<forall>s. row_at (n_index (sp_node ?sp1)) s q = row_at (n_index (sp_node sp)) s q)"
    using T Cons.prems(3) unfolding same_but_def by blast
  moreover have "on_disk (sp_node (make_phone_changes d cs ?sp1)) q = on_disk (sp_node ?sp1) q
    \<and> (\<forall>s. row_at (n_index (sp_node (make_phone_changes d cs ?sp1))) s q = row_at (n_index (sp_node ?sp1)) s q)"
    by (rule Cons.IH) (use Cons.prems same_but_ok[OF T(1)] shares_fixed[OF peers] in auto)
  ultimately show ?case by (simp add: make_phone_changes_def e)
qed (simp add: make_phone_changes_def)

subsection \<open>The rule that does not refuse\<close>

text \<open>A folder with a folder inside it that is shared with some devices only is not to be moved or deleted
  from a phone. The code looks for a rule file below the folder, but rule files lie below
  \<open>.qurb-sharing\<close> alone, which a phone may not name, so the check lets everything through.\<close>

lemma rule_guard_never_refuses:
  assumes "checked_path sp d p = Inr a"
  shows "\<not> rule_inside sp a"
proof
  assume "rule_inside sp a"
  then obtain q where q: "is_rule_path q" "like (escape_like (a @ ''/%'')) q"
    using tidy_trimmed[OF checked_pathD(2)[OF assms]] by (auto simp: rule_inside_def shared_under_def list_ex_iff in_order_def)
  then have "lies_beneath a q" using lies_beneath_like by blast
  moreover have "q \<noteq> [] \<and> hd q = CHR ''.''" using rule_path_hidden[OF q(1)] .
  moreover obtain c s where a: "a = c # s" using checked_not_hidden(1)[OF assms] by (cases a) auto
  ultimately have "to_ascii_lowercase c = to_ascii_lowercase (CHR ''.'')"
    by (cases q) (auto simp: lies_beneath_def)
  then have lower: "to_ascii_lowercase c = CHR ''.''" by (simp add: to_ascii_lowercase_def is_ascii_uppercase_def)
  have "\<not> is_ascii_uppercase c"
  proof
    assume u: "is_ascii_uppercase c"
    then have "(of_char (char_of ((of_char c :: nat) + 32)) :: nat) = of_char (CHR ''.'')"
      using lower by (simp add: to_ascii_lowercase_def)
    then show False using u by (simp add: is_ascii_uppercase_def)
  qed
  then have "c = CHR ''.''" using lower by (simp add: to_ascii_lowercase_def)
  then show False using checked_not_hidden(2)[OF assms] a by simp
qed

definition family_place :: "string list \<Rightarrow> shared_place" where
  \<comment> \<open>a computer with these files, one byte each, and a folder only it and no other device has\<close>
  "family_place ps =
     (let tree = map_of (map (\<lambda>p. (p, [1])) ps);
          n = fold (\<lambda>p. on_store (\<lambda>st. snd (store_put_bytes length (\<lambda>b. b) whole_file 100 p [1] 0 st))) ps (fresh_laptop (Some tree))
      in \<lparr>sp_node = n\<lparr>n_peers := (n_peers n)\<lparr>a_shares := [''Family/Private''], a_members := [(''Family/Private'', laptop)]\<rparr>\<rparr>,
          sp_dirs = [''Family'', ''Family/Private''], sp_names = ps\<rparr>)"

abbreviation (input) visitor :: device_id where "visitor \<equiv> DeviceId (replicate 32 9)"

lemma moving_around_a_withheld_folder:
  "shut_out (db_of (sp_node (family_place [''Family/Private/will'']))) visitor ''Family/Private/will''
   \<and> (let sp = make_phone_change (desk_at 200) visitor (MovePath ''Family'' ''Open'') (family_place [''Family/Private/will''])
      in on_disk (sp_node sp) ''Open/Private/will'' = Some [1] \<and> on_disk (sp_node sp) ''Family/Private/will'' = None
        \<and> \<not> shut_out (db_of (sp_node sp)) visitor ''Open/Private/will'')"
  by code_simp

lemma clear_of_other_top:
  assumes "p \<noteq> []" and "\<forall>s \<in> set (a_shares db). s \<noteq> [] \<and> hd s \<noteq> hd p"
  shows "clear_of db d p"
proof -
  have "\<not> lies_in q s \<and> q \<noteq> s" if "q \<noteq> [] \<and> hd q = hd p" "s \<in> set (a_shares db)" for q s
    using that assms(2) by (cases q) (auto simp: lies_in_iff)
  then show ?thesis using assms(1) numbered_hd[OF assms(1)] by (auto simp: clear_of_def)
qed

theorem withheld_folders_are_left_alone_witness:
  "on_disk (sp_node (make_phone_changes visitor [(desk_at 200, MovePath ''a.txt'' ''b.txt''), (desk_at 210, CopyPath ''b.txt'' ''b.txt''),
       (desk_at 220, DeletePath ''b.txt'')] (family_place [''a.txt'', ''Family/Private/will'']))) ''Family/Private/will'' = Some [1]"
proof -
  let ?sp = "family_place [''a.txt'', ''Family/Private/will'']"
  let ?cs = "[(desk_at 200, MovePath ''a.txt'' ''b.txt''), (desk_at 210, CopyPath ''b.txt'' ''b.txt''), (desk_at 220, DeletePath ''b.txt'')]"
  let ?tree = "Some (map_of (map (\<lambda>p. (p, [1])) [''a.txt'', ''Family/Private/will'']))"
  have "store_ok (the_store (sp_node ?sp))"
    using fresh_laptop_ok[of undefined ?tree]
    by (simp add: family_place_def store_put_bytes_def store_ok_put node_ok_def the_store_def on_store_def Let_def)
  moreover have "trim_slashes ''a.txt'' = ''a.txt''" "trim_slashes ''b.txt'' = ''b.txt''" by code_simp+
  moreover have "a_shares (db_of (sp_node ?sp)) = [''Family/Private'']" by (simp add: family_place_def Let_def db_of_def)
  moreover have "shut_out (db_of (sp_node ?sp)) visitor ''Family/Private/will''" by code_simp
  moreover have "on_disk (sp_node ?sp) ''Family/Private/will'' = Some [1]" by code_simp
  ultimately show ?thesis
    using withheld_folders_are_left_alone[of ?sp ?cs visitor "''Family/Private/will''"] by (simp add: clear_of_other_top)
qed

end
