(* ===== verification/Base32.thy ===== *)
theory Base32 imports Rust_Str
begin

section \<open>Text a person can read out (\<open>crates/peer/src/base32.rs\<close>)\<close>

text \<open>
  Bytes as capital letters and digits, five bits to a character, and back. Both loops keep the bits
  not yet written in a 16-bit buffer. The specification is the sequence of bits: \<open>low_bits\<close> reads
  the pending ones off the buffer, the highest first, and the two loops are the cutting of one
  sequence into fives and into eights.
\<close>

unbundle bit_operations_syntax

definition ALPHABET :: string where
  "ALPHABET = ''ABCDEFGHIJKLMNOPQRSTUVWXYZ234567''"

subsection \<open>Writing\<close>

fun encode_drain :: "u16 \<Rightarrow> nat \<Rightarrow> string \<times> nat" where
  \<comment> \<open>\<open>while bits >= 5\<close>\<close>
  "encode_drain buffer bits =
     (if bits \<ge> 5
      then (case encode_drain buffer (bits - 5) of (out, left) \<Rightarrow>
        (ALPHABET ! unat (drop_bit (bits - 5) buffer AND 0x1F) # out, left))
      else ([], bits))"

declare encode_drain.simps [simp del]

fun encode_loop :: "bytes \<Rightarrow> u16 \<Rightarrow> nat \<Rightarrow> string" where
  "encode_loop [] buffer bits =
     (if bits > 0 then [ALPHABET ! unat (push_bit (5 - bits) buffer AND 0x1F)] else [])"
| "encode_loop (byte # bs) buffer bits =
     (let buffer = push_bit 8 buffer OR ucast byte
      in case encode_drain buffer (bits + 8) of (out, left) \<Rightarrow> out @ encode_loop bs buffer left)"

definition base32_encode :: "bytes \<Rightarrow> string" where
  "base32_encode bs = encode_loop bs 0 0"

subsection \<open>Reading\<close>

definition char_value :: "char \<Rightarrow> u8 option" where
  \<comment> \<open>\<open>'A'..='Z'\<close> and \<open>'2'..='7'\<close>, by their codes\<close>
  "char_value c =
     (let b = byte_of_char (to_ascii_uppercase c)
      in if 65 \<le> b \<and> b \<le> 90 then Some (b - 65)
         else if 50 \<le> b \<and> b \<le> 55 then Some (b - 50 + 26)
         else None)"

fun decode_loop :: "string \<Rightarrow> u16 \<Rightarrow> nat \<Rightarrow> bytes option" where
  "decode_loop [] buffer bits =
     (if bits \<ge> 5 \<or> buffer AND (push_bit bits 1 - 1) \<noteq> 0 then None else Some [])"
| "decode_loop (c # text) buffer bits =
     (if c = CHR ''-'' \<or> c = CHR '' '' then decode_loop text buffer bits
      else case char_value c of
        None \<Rightarrow> None
      | Some v \<Rightarrow>
          (let buffer = push_bit 5 buffer OR ucast v; bits = bits + 5
           in if bits \<ge> 8
              then map_option ((#) (ucast (drop_bit (bits - 8) buffer))) (decode_loop text buffer (bits - 8))
              else decode_loop text buffer bits))"

definition base32_decode :: "string \<Rightarrow> bytes option" where
  "base32_decode text = decode_loop text 0 0"

subsection \<open>The bits behind the buffer\<close>

definition low_bits :: "nat \<Rightarrow> 'a :: len word \<Rightarrow> bool list" where
  "low_bits n w = rev (map (bit w) [0..<n])"

lemma length_low_bits [simp]: "length (low_bits n w) = n"
  by (simp add: low_bits_def)

lemma low_bits_0 [simp]: "low_bits 0 w = []"
  by (simp add: low_bits_def)

lemma low_bits_split: "k \<le> n \<Longrightarrow> low_bits n w = low_bits (n - k) (drop_bit k w) @ low_bits k w"
proof -
  assume "k \<le> n"
  then have "[0..<n] = [0..<k] @ map (\<lambda>i. i + k) [0..<n - k]"
    by (simp add: map_add_upt) (metis le_add_diff_inverse upt_add_eq_append zero_le)
  then show ?thesis by (simp add: low_bits_def o_def bit_drop_bit_eq add.commute)
qed

lemma low_bits_cong: "(\<And>i. i < n \<Longrightarrow> bit v i = bit w i) \<Longrightarrow> low_bits n v = low_bits n w"
  by (simp add: low_bits_def)

lemma low_bits_shift:
  fixes v :: "'b :: len word"
  assumes "n + k \<le> 16" and "\<forall>i \<ge> k. \<not> bit v i"
  shows "low_bits (n + k) (push_bit k (w :: u16) OR ucast v) = low_bits n w @ low_bits k v"
proof -
  have high: "bit (drop_bit k (push_bit k w OR ucast v)) i = bit w i" if "i < n" for i
    using that assms by (auto simp: bit_simps)
  have low: "bit (push_bit k w OR ucast v) i = bit v i" if "i < k" for i
    using that assms(1) by (auto simp: bit_simps dest: bit_imp_le_length)
  show ?thesis
    using low_bits_split [of k "n + k" "push_bit k w OR ucast v"] low_bits_cong [OF high] low_bits_cong [OF low] by simp
qed

definition bits_num :: "bool list \<Rightarrow> nat" where
  "bits_num bs = horner_sum of_bool 2 (rev bs)"

lemma bits_num_low_bits: "bits_num (low_bits n w) = take_bit n (unat w)"
proof -
  have "map (bit w) [0..<n] = map (bit (unat w)) [0..<n]"
    by (simp add: bit_unsigned_iff)
  then show ?thesis
    unfolding bits_num_def low_bits_def rev_rev_ident by (simp only: horner_sum_bit_eq_take_bit)
qed


lemma five_bits: "(w :: u16) AND 31 = take_bit 5 w"
  by (simp add: take_bit_eq_mask mask_eq_exp_minus_1)

lemma encode_drain_bits:
  assumes "encode_drain buffer bits = (out, left)"
  shows "left < 5 \<and> left \<le> bits \<and> (\<exists>gs. out = map (\<lambda>g. ALPHABET ! bits_num g) gs \<and> (\<forall>g \<in> set gs. length g = 5)
    \<and> low_bits bits buffer = concat gs @ low_bits left buffer)"
  using assms
proof (induction buffer bits arbitrary: out rule: encode_drain.induct)
  case (1 buffer bits)
  show ?case
  proof (cases "bits \<ge> 5")
    case False
    then show ?thesis using 1 by (subst (asm) encode_drain.simps) (auto intro!: exI [of _ "[]"])
  next
    case True
    obtain out1 where rest: "encode_drain buffer (bits - 5) = (out1, left)"
      and out: "out = ALPHABET ! unat (drop_bit (bits - 5) buffer AND 0x1F) # out1"
      using 1(2) True by (subst (asm) encode_drain.simps) (auto split: prod.splits)
    let ?g = "low_bits 5 (drop_bit (bits - 5) buffer)"
    obtain gs where gs: "left < 5" "left \<le> bits - 5" "out1 = map (\<lambda>g. ALPHABET ! bits_num g) gs" "\<forall>g \<in> set gs. length g = 5"
        "low_bits (bits - 5) buffer = concat gs @ low_bits left buffer"
      using 1(1) [OF True rest] by blast
    have "bits_num ?g = unat (drop_bit (bits - 5) buffer AND 0x1F)"
      by (simp add: bits_num_low_bits five_bits unsigned_take_bit_eq)
    moreover have "low_bits bits buffer = ?g @ low_bits (bits - 5) buffer"
      using low_bits_split [of "bits - 5" bits buffer] True by simp
    ultimately show ?thesis using gs out by (intro conjI exI [of _ "?g # gs"]) auto
  qed
qed

subsection \<open>Fives and eights of one sequence\<close>

function five_groups :: "bool list \<Rightarrow> bool list list" where
  "five_groups b =
     (if b = [] then []
      else if length b < 5 then [b @ replicate (5 - length b) False]
      else take 5 b # five_groups (drop 5 b))"
  by pat_completeness auto
termination by (relation "measure length") auto

declare five_groups.simps [simp del]

lemma five_groups_append:
  assumes "\<forall>g \<in> set gs. length g = 5"
  shows "five_groups (concat gs @ b) = gs @ five_groups b"
  using assms
proof (induction gs)
  case (Cons g gs)
  have "five_groups (g @ concat gs @ b) = g # five_groups (concat gs @ b)"
    using Cons.prems by (subst five_groups.simps) (cases g, auto)
  then show ?case using Cons by simp
qed simp

lemma length_concat_groups: "\<forall>g \<in> set gs. length g = n \<Longrightarrow> length (concat gs) = n * length gs"
  by (induction gs) auto

lemma five_groups_iff:
  \<comment> \<open>the groups are the sequence padded to a multiple of five, by less than five\<close>
  "five_groups b = gs \<longleftrightarrow> (\<forall>g \<in> set gs. length g = 5) \<and> (\<exists>k < 5. concat gs = b @ replicate k False)"
proof
  show "(\<forall>g \<in> set gs. length g = 5) \<and> (\<exists>k < 5. concat gs = b @ replicate k False)" if "five_groups b = gs"
    using that
  proof (induction b arbitrary: gs rule: five_groups.induct)
    case (1 b)
    show ?case
    proof (cases "length b < 5")
      case True
      show ?thesis
      proof (cases "b = []")
        case True
        then have "gs = []" using 1(2) by (simp add: five_groups.simps [of "[]"])
        then show ?thesis using True by simp
      next
        case False
        then have "gs = [b @ replicate (5 - length b) False]" using 1(2) \<open>length b < 5\<close> by (simp add: five_groups.simps [of b])
        moreover have "5 - length b < 5" using False by (cases b) auto
        ultimately show ?thesis using \<open>length b < 5\<close> by (intro conjI exI [of _ "5 - length b"]) simp_all
      qed
    next
      case False
      have "b \<noteq> []" using False by auto
      from 1(1) [OF this False refl] obtain k where "\<forall>g \<in> set (five_groups (drop 5 b)). length g = 5" "k < 5"
        "concat (five_groups (drop 5 b)) = drop 5 b @ replicate k False"
        by blast
      moreover have "five_groups b = take 5 b # five_groups (drop 5 b)"
        by (subst five_groups.simps) (simp only: \<open>b \<noteq> []\<close> False if_False)
      then have "gs = take 5 b # five_groups (drop 5 b)" using 1(2) by (simp only:)
      moreover have "length (take 5 b) = 5" "take 5 b @ drop 5 b = b" using False by simp_all
      ultimately show ?thesis by (metis append_assoc concat.simps(2) set_ConsD)
    qed
  qed
next
  assume r: "(\<forall>g \<in> set gs. length g = 5) \<and> (\<exists>k < 5. concat gs = b @ replicate k False)"
  then obtain k where k: "k < 5" "concat gs = b @ replicate k False" by blast
  show "five_groups b = gs"
    using r k
  proof (induction gs arbitrary: b)
    case Nil
    then show ?case by (simp add: five_groups.simps)
  next
    case (Cons g gs)
    have g: "length g = 5" using Cons.prems by simp
    show ?case
    proof (cases "length b < 5")
      case True
      have "length (concat gs) = 5 * length gs" by (rule length_concat_groups) (use Cons.prems(1) in simp)
      then have "5 + 5 * length gs = length b + k" using Cons.prems(3) g by (metis concat.simps(2) length_append length_replicate)
      then have "gs = []" using True Cons.prems(2) by (cases gs) auto
      moreover have "b \<noteq> []" using Cons.prems(2,3) g by (auto dest: arg_cong [of _ _ length])
      moreover have "k = 5 - length b" using \<open>5 + 5 * length gs = length b + k\<close> \<open>gs = []\<close> by simp
      ultimately show ?thesis using True Cons.prems(3) by (simp add: five_groups.simps [of b])
    next
      case False
      then have "take 5 b = g" "concat gs = drop 5 b @ replicate k False"
        using arg_cong [OF Cons.prems(3), of "take 5"] arg_cong [OF Cons.prems(3), of "drop 5"] g by simp_all
      then show ?thesis using Cons.IH [of "drop 5 b"] Cons.prems(1,2) False by (subst five_groups.simps) auto
    qed
  qed
qed

lemma encode_loop_groups:
  "bits < 5 \<Longrightarrow> encode_loop bs buffer bits
     = map (\<lambda>g. ALPHABET ! bits_num g) (five_groups (low_bits bits buffer @ concat (map (low_bits 8) bs)))"
proof (induction bs arbitrary: buffer bits)
  case Nil
  show ?case
  proof (cases "bits = 0")
    case True
    then show ?thesis by (simp add: five_groups.simps)
  next
    case False
    have "low_bits 5 (push_bit (5 - bits) buffer) = low_bits bits buffer @ replicate (5 - bits) False"
    proof -
      have "low_bits bits (drop_bit (5 - bits) (push_bit (5 - bits) buffer)) = low_bits bits buffer"
        using Nil by (intro low_bits_cong) (auto simp: bit_simps)
      moreover have "low_bits (5 - bits) (push_bit (5 - bits) buffer) = replicate (5 - bits) False"
        by (auto simp: low_bits_def bit_simps intro!: replicate_eqI)
      ultimately show ?thesis using low_bits_split [of "5 - bits" 5 "push_bit (5 - bits) buffer"] Nil by simp
    qed
    then have "bits_num (low_bits bits buffer @ replicate (5 - bits) False) = unat (push_bit (5 - bits) buffer AND 31)"
      by (simp add: five_bits unsigned_take_bit_eq flip: bits_num_low_bits)
    then show ?thesis using False Nil by (simp add: five_groups.simps [of "low_bits bits buffer"]) (simp flip: length_0_conv)
  qed
next
  case (Cons byte bs)
  let ?b = "push_bit 8 buffer OR ucast byte :: u16"
  obtain out left where drain: "encode_drain ?b (bits + 8) = (out, left)" by fastforce
  from encode_drain_bits [OF this] obtain gs where gs: "left < 5" "out = map (\<lambda>g. ALPHABET ! bits_num g) gs"
    "\<forall>g \<in> set gs. length g = 5" "low_bits (bits + 8) ?b = concat gs @ low_bits left ?b"
    by blast
  have "low_bits 8 (ucast byte :: u16) = low_bits 8 byte" by (simp add: low_bits_def bit_simps)
  moreover have "low_bits (bits + 8) ?b = low_bits bits buffer @ low_bits 8 (ucast byte :: u16)"
    using Cons.prems by (subst low_bits_shift [symmetric]) (auto simp: bit_simps dest: bit_imp_le_length)
  ultimately have "low_bits bits buffer @ low_bits 8 byte = concat gs @ low_bits left ?b" using gs(4) by simp
  then have "low_bits bits buffer @ concat (map (low_bits 8) (byte # bs)) = concat gs @ (low_bits left ?b @ concat (map (low_bits 8) bs))"
    by (simp flip: append_assoc)
  then have "five_groups (low_bits bits buffer @ concat (map (low_bits 8) (byte # bs)))
      = gs @ five_groups (low_bits left ?b @ concat (map (low_bits 8) bs))"
    by (simp only: five_groups_append [OF gs(3)])
  then show ?case
    using Cons.IH [OF gs(1), of ?b] drain gs(2) by (simp add: Let_def)
qed

subsection \<open>What a character says\<close>

lemma alphabet_codes: "k < 26 \<Longrightarrow> ALPHABET ! k = char_of (65 + k)" "k < 6 \<Longrightarrow> ALPHABET ! (26 + k) = char_of (50 + k)"
proof -
  have "map of_char ALPHABET = [65..<91 :: nat] @ [50..<56]" by (simp add: ALPHABET_def upt_rec)
  then have "map char_of (map (of_char :: _ \<Rightarrow> nat) ALPHABET) = map char_of ([65..<91 :: nat] @ [50..<56])" by (simp only:)
  then have eq: "ALPHABET = map char_of ([65..<91 :: nat] @ [50..<56])" by (simp add: o_def)
  show "k < 26 \<Longrightarrow> ALPHABET ! k = char_of (65 + k)" "k < 6 \<Longrightarrow> ALPHABET ! (26 + k) = char_of (50 + k)"
    unfolding eq by (simp_all add: nth_append del: upt_rec_numeral)
qed

lemma char_value_alphabet:
  assumes "char_value c = Some v"
  shows "unat v < 32" and "ALPHABET ! unat v = to_ascii_uppercase c"
proof -
  let ?c = "to_ascii_uppercase c"
  define n where "n = (of_char ?c :: nat)"
  have n: "byte_of_char ?c = word_of_nat n" "n < 256" "?c = char_of n" by (simp_all add: n_def byte_of_char_def)
  then have nat: "unat (byte_of_char ?c) = n" by (simp add: unat_of_nat)
  consider "65 \<le> n" "n \<le> 90" "v = byte_of_char ?c - 65" | "50 \<le> n" "n \<le> 55" "v = byte_of_char ?c - 50 + 26"
    using assms nat by (auto simp: char_value_def Let_def word_le_nat_alt split: if_splits)
  then have "unat v < 32 \<and> ALPHABET ! unat v = char_of n"
  proof cases
    case 1
    then have "unat v = n - 65" using nat by (simp add: unat_sub_if_size)
    then show ?thesis using 1 alphabet_codes(1) [of "n - 65"] by simp
  next
    case 2
    then have "v = word_of_nat (26 + (n - 50))" using n(1) by (simp add: of_nat_diff)
    then have "unat v = 26 + (n - 50)" using 2 by (simp only: unat_of_nat) simp
    then show ?thesis using 2 alphabet_codes(2) [of "n - 50"] by simp
  qed
  then show "unat v < 32" "ALPHABET ! unat v = ?c" using n(3) by simp_all
qed

lemma alphabet_value: "n < 32 \<Longrightarrow> char_value (ALPHABET ! n) = Some (word_of_nat n)"
proof -
  assume n: "n < 32"
  show ?thesis
  proof (cases "n < 26")
    case True
    then have "to_ascii_uppercase (ALPHABET ! n) = char_of (65 + n)" "byte_of_char (char_of (65 + n)) = word_of_nat (65 + n)"
      by (simp_all add: alphabet_codes to_ascii_uppercase_def is_ascii_lowercase_def byte_of_char_def)
    moreover have "unat (word_of_nat (65 + n) :: u8) = 65 + n" using True by (simp only: unat_of_nat) simp
    ultimately show ?thesis using True by (simp add: char_value_def word_le_nat_alt)
  next
    case False
    define k where "k = n - 26"
    have k: "n = 26 + k" "k < 6" using False n by (simp_all add: k_def)
    then have "to_ascii_uppercase (ALPHABET ! n) = char_of (50 + k)" "byte_of_char (char_of (50 + k)) = word_of_nat (50 + k)"
      by (simp_all add: alphabet_codes(2) to_ascii_uppercase_def is_ascii_lowercase_def byte_of_char_def)
    moreover have "unat (word_of_nat (50 + k) :: u8) = 50 + k" using k by (simp only: unat_of_nat) simp
    ultimately show ?thesis using k by (simp add: char_value_def word_le_nat_alt)
  qed
qed

lemma char_value_upper: "char_value (to_ascii_uppercase c) = char_value c"
proof -
  have "to_ascii_uppercase (to_ascii_uppercase c) = to_ascii_uppercase c"
    by (auto simp: to_ascii_uppercase_def is_ascii_lowercase_def)
  then show ?thesis by (simp add: char_value_def)
qed

definition char_bits :: "char \<Rightarrow> bool list" where
  "char_bits c = (case char_value c of None \<Rightarrow> [] | Some v \<Rightarrow> low_bits 5 v)"

definition read_chars :: "string \<Rightarrow> string" where
  \<comment> \<open>without the separators\<close>
  "read_chars text = filter (\<lambda>c. c \<noteq> CHR ''-'' \<and> c \<noteq> CHR '' '') text"

lemma low_bits_num: "length g = n \<Longrightarrow> n \<le> 8 \<Longrightarrow> low_bits n (word_of_nat (bits_num g) :: u8) = g"
  by (rule nth_equalityI)
    (auto simp: low_bits_def bits_num_def rev_nth bit_of_nat_iff bit_horner_sum_bit_iff)

lemma bits_num_lt: "bits_num g < 2 ^ length g"
  using horner_sum_of_bool_2_less [of "rev g", where ?'a = nat] by (simp add: bits_num_def)

lemma low_bits_inject: "low_bits 8 (v :: u8) = low_bits 8 w \<longleftrightarrow> v = w"
  by (auto simp: low_bits_def intro: bit_word_eqI)

lemma low_bits_replicate: "low_bits n w = replicate n False \<longleftrightarrow> take_bit n w = 0"
proof -
  have "low_bits n w = replicate n False \<longleftrightarrow> (\<forall>i < n. \<not> bit w i)"
  proof -
    have "low_bits n w = replicate n False \<longleftrightarrow> map (bit w) [0..<n] = replicate n False"
      unfolding low_bits_def by (metis rev_replicate rev_rev_ident)
    also have "\<dots> \<longleftrightarrow> (\<forall>i < n. \<not> bit w i)" by (auto simp: list_eq_iff_nth_eq)
    finally show ?thesis .
  qed
  also have "\<dots> \<longleftrightarrow> take_bit n w = 0" by (auto simp: bit_eq_iff bit_simps dest: bit_imp_le_length)
  finally show ?thesis .
qed

lemma decode_loop_bits:
  "bits < 8 \<Longrightarrow> decode_loop t buffer bits = Some bs \<longleftrightarrow>
     (\<forall>c \<in> set (read_chars t). char_value c \<noteq> None)
     \<and> (\<exists>k < 5. low_bits bits buffer @ concat (map char_bits (read_chars t)) = concat (map (low_bits 8) bs) @ replicate k False)"
proof (induction t arbitrary: buffer bits bs)
  case Nil
  have "buffer AND (push_bit bits 1 - 1) = take_bit bits buffer" by (simp add: take_bit_eq_mask mask_eq_exp_minus_1 push_bit_of_1)
  then have "decode_loop [] buffer bits = Some bs \<longleftrightarrow> bs = [] \<and> bits < 5 \<and> low_bits bits buffer = replicate bits False"
    by (auto simp: low_bits_replicate)
  also have "\<dots> \<longleftrightarrow> (\<exists>k < 5. low_bits bits buffer = concat (map (low_bits 8) bs) @ replicate k False)"
  proof
    assume "\<exists>k < 5. low_bits bits buffer = concat (map (low_bits 8) bs) @ replicate k False"
    then obtain k where k: "k < 5" "low_bits bits buffer = concat (map (low_bits 8) bs) @ replicate k False" by blast
    have "bits = length (concat (map (low_bits 8) bs)) + k" using arg_cong [OF k(2), of length] by simp
    moreover have "length (concat (map (low_bits 8) bs)) = 8 * length bs" by (induction bs) auto
    ultimately have "bits = 8 * length bs + k" by simp
    then have "bs = []" "k = bits" using Nil by (cases bs; simp)+
    then show "bs = [] \<and> bits < 5 \<and> low_bits bits buffer = replicate bits False" using k by simp
  qed auto
  finally show ?case by (simp add: read_chars_def)
next
  case (Cons c t)
  show ?case
  proof (cases "c = CHR ''-'' \<or> c = CHR '' '' \<or> char_value c = None")
    case True
    then show ?thesis using Cons by (auto simp: read_chars_def char_value_def)
  next
    case False
    then obtain v where v: "char_value c = Some v" by auto
    let ?b = "push_bit 5 buffer OR ucast v :: u16" and ?rest = "concat (map char_bits (read_chars t))"
    have "take_bit 5 v = v" using char_value_alphabet(1) [OF v] by (simp add: word_unat_eq_iff unsigned_take_bit_eq take_bit_nat_eq_self)
    then have "\<forall>i \<ge> 5. \<not> bit v i" by (metis bit_take_bit_iff not_less)
    then have b: "low_bits (bits + 5) ?b = low_bits bits buffer @ low_bits 5 v"
      using Cons.prems low_bits_shift [of bits 5 "ucast v :: u16" buffer] low_bits_cong [of 5 "ucast v :: u16" v]
      by (simp add: bit_simps)
    have chars: "read_chars (c # t) = c # read_chars t" using False by (simp add: read_chars_def)
    have bits: "char_bits c = low_bits 5 v" by (simp add: char_bits_def v)
    show ?thesis
    proof (cases "bits + 5 < 8")
      case True
      then have "decode_loop (c # t) buffer bits = decode_loop t ?b (bits + 5)" using False v by (simp add: Let_def)
      then show ?thesis using Cons.IH [OF True, of ?b bs] b chars bits v by simp
    next
      case full: False
      let ?w = "ucast (drop_bit (bits - 3) ?b) :: u8"
      have "low_bits (bits + 5) ?b = low_bits 8 (drop_bit (bits - 3) ?b) @ low_bits (bits - 3) ?b"
        using low_bits_split [of "bits - 3" "bits + 5" ?b] full by simp
      moreover have "low_bits 8 (drop_bit (bits - 3) ?b) = low_bits 8 ?w" by (simp add: low_bits_def bit_simps)
      ultimately have w: "low_bits bits buffer @ low_bits 5 v = low_bits 8 ?w @ low_bits (bits - 3) ?b" using b by simp
      have step: "decode_loop (c # t) buffer bits = map_option ((#) ?w) (decode_loop t ?b (bits - 3))"
        using False v full by (simp add: Let_def)
      have rest: "low_bits bits buffer @ concat (map char_bits (read_chars (c # t))) = low_bits 8 ?w @ (low_bits (bits - 3) ?b @ ?rest)"
        using w by (simp add: chars bits flip: append_assoc)
      have IH: "decode_loop t ?b (bits - 3) = Some bs' \<longleftrightarrow> (\<forall>c \<in> set (read_chars t). char_value c \<noteq> None)
          \<and> (\<exists>k < 5. low_bits (bits - 3) ?b @ ?rest = concat (map (low_bits 8) bs') @ replicate k False)" for bs'
        using Cons.IH [of "bits - 3" ?b bs'] Cons.prems by simp
      have cut: "low_bits 8 ?w @ r = concat (map (low_bits 8) bs) @ replicate k False
          \<longleftrightarrow> (\<exists>bs'. bs = ?w # bs' \<and> r = concat (map (low_bits 8) bs') @ replicate k False)" if "k < 5" for r k
      proof (cases bs)
        case Nil
        have "length (low_bits 8 ?w @ r) \<noteq> length (replicate k False)" using that by simp
        then have "low_bits 8 ?w @ r \<noteq> replicate k False" by metis
        then show ?thesis using Nil by simp
      next
        case (Cons w bs')
        then show ?thesis by (auto simp: low_bits_inject)
      qed
      have "decode_loop (c # t) buffer bits = Some bs \<longleftrightarrow> (\<exists>bs'. bs = ?w # bs' \<and> decode_loop t ?b (bits - 3) = Some bs')"
        unfolding step by (cases "decode_loop t ?b (bits - 3)") auto
      also have "\<dots> \<longleftrightarrow> (\<forall>c \<in> set (read_chars t). char_value c \<noteq> None)
          \<and> (\<exists>k < 5. low_bits 8 ?w @ (low_bits (bits - 3) ?b @ ?rest) = concat (map (low_bits 8) bs) @ replicate k False)"
        unfolding IH using cut by blast
      also have "\<dots> \<longleftrightarrow> (\<forall>c \<in> set (read_chars (c # t)). char_value c \<noteq> None)
          \<and> (\<exists>k < 5. low_bits bits buffer @ concat (map char_bits (read_chars (c # t))) = concat (map (low_bits 8) bs) @ replicate k False)"
        unfolding rest by (simp add: chars v)
      finally show ?thesis .
    qed
  qed
qed

text \<open>Reading accepts exactly what is written, however a person spells it. A text is read as some
  bytes just when its characters, without dashes and spaces and in capitals, are the encoding of those
  bytes: nothing else decodes, and two texts that differ in more than their spelling decode apart.\<close>

lemma base32_decoding_is_exact:
  "base32_decode t = Some bs \<longleftrightarrow> map to_ascii_uppercase (read_chars t) = base32_encode bs"
proof -
  let ?B = "concat (map (low_bits 8) bs)" and ?cs = "read_chars t"
  have "base32_decode t = Some bs \<longleftrightarrow> (\<forall>c \<in> set ?cs. char_value c \<noteq> None)
      \<and> (\<exists>k < 5. concat (map char_bits ?cs) = ?B @ replicate k False)"
    unfolding base32_decode_def by (simp add: decode_loop_bits)
  also have "\<dots> \<longleftrightarrow> (\<forall>c \<in> set ?cs. char_value c \<noteq> None) \<and> five_groups ?B = map char_bits ?cs"
  proof -
    have "\<forall>g \<in> set (map char_bits ?cs). length g = 5" if "\<forall>c \<in> set ?cs. char_value c \<noteq> None"
      using that by (force simp: char_bits_def)
    then show ?thesis unfolding five_groups_iff by blast
  qed
  also have "\<dots> \<longleftrightarrow> map to_ascii_uppercase ?cs = map (\<lambda>g. ALPHABET ! bits_num g) (five_groups ?B)"
  proof
    assume l: "(\<forall>c \<in> set ?cs. char_value c \<noteq> None) \<and> five_groups ?B = map char_bits ?cs"
    have "ALPHABET ! bits_num (char_bits c) = to_ascii_uppercase c" if c: "c \<in> set ?cs" for c
    proof -
      obtain v where v: "char_value c = Some v" using bspec [OF conjunct1 [OF l] c] by (cases "char_value c") simp_all
      then show ?thesis
        using char_value_alphabet [OF v] by (simp add: char_bits_def bits_num_low_bits take_bit_nat_eq_self)
    qed
    then show "map to_ascii_uppercase ?cs = map (\<lambda>g. ALPHABET ! bits_num g) (five_groups ?B)" using l by simp
  next
    assume r: "map to_ascii_uppercase ?cs = map (\<lambda>g. ALPHABET ! bits_num g) (five_groups ?B)"
    have five: "\<forall>g \<in> set (five_groups ?B). length g = 5" using five_groups_iff [of ?B] by blast
    have len: "length ?cs = length (five_groups ?B)" using arg_cong [OF r, of length] by simp
    have each: "char_value (?cs ! i) \<noteq> None \<and> char_bits (?cs ! i) = five_groups ?B ! i" if i: "i < length ?cs" for i
    proof -
      let ?g = "five_groups ?B ! i"
      have g: "length ?g = 5" using five i len by simp
      have "to_ascii_uppercase (?cs ! i) = ALPHABET ! bits_num ?g"
        using arg_cong [OF r, of "\<lambda>xs. xs ! i"] i len by simp
      then have "char_value (?cs ! i) = Some (word_of_nat (bits_num ?g))"
        using alphabet_value [of "bits_num ?g"] bits_num_lt [of ?g] g char_value_upper [of "?cs ! i"] by simp
      then show ?thesis using low_bits_num [OF g] by (simp add: char_bits_def)
    qed
    then have "five_groups ?B = map char_bits ?cs" using len by (auto intro: nth_equalityI)
    moreover have "\<forall>c \<in> set ?cs. char_value c \<noteq> None" using each by (metis in_set_conv_nth)
    ultimately show "(\<forall>c \<in> set ?cs. char_value c \<noteq> None) \<and> five_groups ?B = map char_bits ?cs" by blast
  qed
  also have "\<dots> \<longleftrightarrow> map to_ascii_uppercase ?cs = base32_encode bs"
    by (simp add: base32_encode_def encode_loop_groups)
  finally show ?thesis .
qed

lemma alphabet_plain: "n < 32 \<Longrightarrow> to_ascii_uppercase (ALPHABET ! n) = ALPHABET ! n \<and> ALPHABET ! n \<noteq> CHR ''-'' \<and> ALPHABET ! n \<noteq> CHR '' ''"
proof -
  assume n: "n < 32"
  have "unat (word_of_nat n :: u8) = n" using n by (simp add: unat_of_nat)
  then have "to_ascii_uppercase (ALPHABET ! n) = ALPHABET ! n" using char_value_alphabet(2) [OF alphabet_value [OF n]] by simp
  moreover have "char_value CHR ''-'' = None" "char_value CHR '' '' = None" by code_simp+
  ultimately show ?thesis using alphabet_value [OF n] by (metis option.distinct(1))
qed

lemma encoding_plain: "c \<in> set (base32_encode bs) \<Longrightarrow> to_ascii_uppercase c = c \<and> c \<noteq> CHR ''-'' \<and> c \<noteq> CHR '' ''"
proof -
  assume "c \<in> set (base32_encode bs)"
  then obtain g where g: "c = ALPHABET ! bits_num g" "g \<in> set (five_groups (concat (map (low_bits 8) bs)))"
    by (auto simp: base32_encode_def encode_loop_groups)
  then have "length g = 5" using five_groups_iff [of "concat (map (low_bits 8) bs)"] by blast
  then show ?thesis using alphabet_plain [of "bits_num g"] bits_num_lt [of g] g(1) by simp
qed

lemma base32_round_trip: "base32_decode (base32_encode bs) = Some bs"
proof -
  have "read_chars (base32_encode bs) = base32_encode bs" using encoding_plain by (simp add: read_chars_def filter_id_conv)
  then show ?thesis using encoding_plain by (simp add: base32_decoding_is_exact map_idI)
qed

end
