(* ===== verification/Invite.thy ===== *)
theory Invite imports Base32
begin

section \<open>The code two devices pair with (\<open>crates/peer/src/pairing.rs\<close>)\<close>

text \<open>
  What is shown on one device and read or scanned by the other: the inviter's fingerprint, a token of
  one use, when it ends, and where to connect, in base 32 after a prefix that says whom the code is
  for. An invite read out is grouped in fives. The property says which texts are a code, and for what.
\<close>

datatype ip_addr = V4 bytes | V6 bytes

record invite =
  i_fingerprint :: bytes
  i_ip :: ip_addr
  i_port :: u16
  i_token :: bytes
  i_expires :: i64
  i_guest :: bool

datatype bad_invite = NotACode | BadCharacters | CodeTooShort | MalformedAddress

definition PREFIX :: string where
  "PREFIX = ''qurb1-''"

definition GUEST_PREFIX :: string where
  "GUEST_PREFIX = ''qurbg1-''"

definition INVITE_LIFETIME_SECS :: int where
  "INVITE_LIFETIME_SECS = 300"

definition invite_new :: "bytes \<Rightarrow> ip_addr \<times> u16 \<Rightarrow> bytes \<Rightarrow> int \<Rightarrow> invite" where
  "invite_new fingerprint address token now =
     \<lparr>i_fingerprint = fingerprint, i_ip = fst address, i_port = snd address, i_token = token,
      i_expires = word_of_int (now + INVITE_LIFETIME_SECS), i_guest = False\<rparr>"

definition prefix_of :: "bool \<Rightarrow> string" where
  "prefix_of guest = (if guest then GUEST_PREFIX else PREFIX)"

definition is_expired :: "int \<Rightarrow> invite \<Rightarrow> bool" where
  "is_expired now i \<longleftrightarrow> now > sint (i_expires i)"

definition invite_payload :: "invite \<Rightarrow> bytes" where
  "invite_payload i =
     i_fingerprint i @ i_token i @ u64_le (i_expires i)
     @ (case i_ip i of V4 o4 \<Rightarrow> 4 # o4 | V6 o6 \<Rightarrow> 6 # o6)
     @ le_bytes 2 (unat (i_port i))"

definition invite_encode :: "invite \<Rightarrow> string" where
  "invite_encode i = prefix_of (i_guest i) @ base32_encode (invite_payload i)"

definition strip_either :: "string \<Rightarrow> string \<Rightarrow> string option" where
  \<comment> \<open>the prefix, or the prefix in capitals\<close>
  "strip_either trimmed pre =
     (case strip_prefix trimmed pre of
        Some body \<Rightarrow> Some body
      | None \<Rightarrow> strip_prefix trimmed (map to_ascii_uppercase pre))"

definition payload_read :: "bool \<Rightarrow> bytes \<Rightarrow> bad_invite + invite" where
  "payload_read guest payload =
     (if length payload < 59 then Inl CodeTooShort
      else
        (let invite = (\<lambda>ip rest. Inr \<lparr>i_fingerprint = take 32 payload, i_ip = ip, i_port = word_of_nat (le_val rest),
               i_token = take 16 (drop 32 payload), i_expires = u64_of_le (take 8 (drop 48 payload)), i_guest = guest\<rparr>)
         in if payload ! 56 = 4 \<and> length payload = 63 then invite (V4 (take 4 (drop 57 payload))) (take 2 (drop 61 payload))
            else if payload ! 56 = 6 \<and> length payload = 75 then invite (V6 (take 16 (drop 57 payload))) (take 2 (drop 73 payload))
            else Inl MalformedAddress))"

definition invite_parse :: "string \<Rightarrow> bad_invite + invite" where
  "invite_parse code =
     (let trimmed = trim code;
          cut = (case strip_either trimmed GUEST_PREFIX of
              Some body \<Rightarrow> Some (body, True)
            | None \<Rightarrow> map_option (\<lambda>body. (body, False)) (strip_either trimmed PREFIX))
      in case cut of
           None \<Rightarrow> Inl NotACode
         | Some (body, guest) \<Rightarrow>
             (case base32_decode body of
                None \<Rightarrow> Inl BadCharacters
              | Some payload \<Rightarrow> payload_read guest payload))"

function fives :: "string \<Rightarrow> string list" where
  \<comment> \<open>\<open>chunks(5)\<close>\<close>
  "fives s = (if s = [] then [] else take 5 s # fives (drop 5 s))"
  by pat_completeness auto
termination by (relation "measure length") auto

declare fives.simps [simp del]

definition for_humans :: "invite \<Rightarrow> string" where
  "for_humans i =
     (let encoded = invite_encode i;
          body = (case strip_prefix encoded (prefix_of (i_guest i)) of Some body \<Rightarrow> body | None \<Rightarrow> encoded)
      in prefix_of (i_guest i) @ join_on ''-'' (fives body))"

subsection \<open>Which texts are a code\<close>

definition invite_ok :: "invite \<Rightarrow> bool" where
  "invite_ok i \<longleftrightarrow> length (i_fingerprint i) = 32 \<and> length (i_token i) = 16
     \<and> (case i_ip i of V4 o4 \<Rightarrow> length o4 = 4 | V6 o6 \<Rightarrow> length o6 = 16)"

lemma port_bytes: "length r = 2 \<Longrightarrow> le_bytes 2 (unat (word_of_nat (le_val r) :: u16)) = r"
proof -
  assume r: "length r = 2"
  then have "le_val r < 2 ^ 16" using le_val_lt [of r] by simp
  then have "unat (word_of_nat (le_val r) :: u16) = le_val r" by (simp add: unat_of_nat)
  then show ?thesis using le_bytes_le_val [of r] r by simp
qed

lemma port_read: "word_of_nat (le_val (le_bytes 2 (unat (p :: u16)))) = p"
proof -
  have "unat p < 2 ^ LENGTH(16)" by (rule unsigned_less)
  then show ?thesis by (simp add: le_val_le_bytes)
qed

lemma payload_read_iff: "payload_read guest payload = Inr i \<longleftrightarrow> i_guest i = guest \<and> invite_ok i \<and> invite_payload i = payload"
proof
  assume r: "payload_read guest payload = Inr i"
  have long: "59 \<le> length payload" using r by (auto simp: payload_read_def split: if_splits)
  have head: "take 32 payload @ take 16 (drop 32 payload) @ take 8 (drop 48 payload) @ [payload ! 56] @ drop 57 payload = payload"
  proof -
    have "payload ! 56 # drop 57 payload = drop 56 payload" using Cons_nth_drop_Suc [of 56 payload] long by simp
    moreover have "take 8 (drop 48 payload) @ drop 56 payload = drop 48 payload"
      using append_take_drop_id [of 8 "drop 48 payload"] by (simp only: drop_drop) simp
    moreover have "take 16 (drop 32 payload) @ drop 48 payload = drop 32 payload"
      using append_take_drop_id [of 16 "drop 32 payload"] by (simp only: drop_drop) simp
    ultimately show ?thesis by simp
  qed
  have expiry: "u64_le (u64_of_le (take 8 (drop 48 payload))) = take 8 (drop 48 payload)"
    using long by (intro u64_le_u64_of_le) simp
  consider "payload ! 56 = 4" "length payload = 63" | "payload ! 56 = 6" "length payload = 75"
    using r by (auto simp: payload_read_def Let_def split: if_splits)
  then show "i_guest i = guest \<and> invite_ok i \<and> invite_payload i = payload"
  proof cases
    case 1
    then have i: "i = \<lparr>i_fingerprint = take 32 payload, i_ip = V4 (take 4 (drop 57 payload)), i_port = word_of_nat (le_val (drop 61 payload)),
        i_token = take 16 (drop 32 payload), i_expires = u64_of_le (take 8 (drop 48 payload)), i_guest = guest\<rparr>"
      using r by (simp add: payload_read_def)
    have "take 4 (drop 57 payload) @ drop 61 payload = drop 57 payload"
      using append_take_drop_id [of 4 "drop 57 payload"] by (simp only: drop_drop) simp
    then show ?thesis using head expiry 1 port_bytes [of "drop 61 payload"] by (simp add: i invite_ok_def invite_payload_def)
  next
    case 2
    then have i: "i = \<lparr>i_fingerprint = take 32 payload, i_ip = V6 (take 16 (drop 57 payload)), i_port = word_of_nat (le_val (drop 73 payload)),
        i_token = take 16 (drop 32 payload), i_expires = u64_of_le (take 8 (drop 48 payload)), i_guest = guest\<rparr>"
      using r by (simp add: payload_read_def)
    have "take 16 (drop 57 payload) @ drop 73 payload = drop 57 payload"
      using append_take_drop_id [of 16 "drop 57 payload"] by (simp only: drop_drop) simp
    then show ?thesis using head expiry 2 port_bytes [of "drop 73 payload"] by (simp add: i invite_ok_def invite_payload_def)
  qed
next
  assume r: "i_guest i = guest \<and> invite_ok i \<and> invite_payload i = payload"
  have len: "length (le_bytes 2 n) = 2" for n by simp
  show "payload_read guest payload = Inr i"
  proof (cases "i_ip i")
    case (V4 o4)
    then show ?thesis using r by (auto simp: payload_read_def invite_payload_def invite_ok_def nth_append port_read simp del: le_bytes.simps)
  next
    case (V6 o6)
    then show ?thesis using r by (auto simp: payload_read_def invite_payload_def invite_ok_def nth_append port_read simp del: le_bytes.simps)
  qed
qed

lemma strip_prefix_append [simp]: "strip_prefix (p @ r) p = Some r"
  by (simp add: strip_prefix_Some_iff)

lemma strip_either_Some_iff:
  "strip_either s pre = Some body \<longleftrightarrow> s = pre @ body \<or> (s = map to_ascii_uppercase pre @ body \<and> \<not> starts_with s pre)"
proof (cases "strip_prefix s pre")
  case None
  then have "\<not> starts_with s pre" by (auto simp: starts_with_iff)
  then show ?thesis using None by (auto simp: strip_either_def strip_prefix_Some_iff starts_with_iff)
next
  case (Some b)
  then have "s = pre @ b" by (simp add: strip_prefix_Some_iff)
  then show ?thesis by (auto simp: strip_either_def)
qed

lemma prefix_capitals: "map to_ascii_uppercase (prefix_of True) = ''QURBG1-''" "map to_ascii_uppercase (prefix_of False) = ''QURB1-''"
  by code_simp+

lemma prefix_words: "prefix_of True = ''qurbg1-''" "prefix_of False = ''qurb1-''"
  by code_simp+

lemma cut_iff:
  "(case strip_either s GUEST_PREFIX of Some body \<Rightarrow> Some (body, True)
     | None \<Rightarrow> map_option (\<lambda>body. (body, False)) (strip_either s PREFIX)) = Some (body, guest)
   \<longleftrightarrow> s \<in> {prefix_of guest @ body, map to_ascii_uppercase (prefix_of guest) @ body}"
proof -
  have pre: "GUEST_PREFIX = prefix_of True" "PREFIX = prefix_of False" by (simp_all add: prefix_of_def)
  have caps: "\<not> starts_with (map to_ascii_uppercase (prefix_of g) @ b) (prefix_of h)" for g h b
    by (cases g; cases h; simp_all only: prefix_capitals simp_thms; simp_all add: starts_with_def prefix_words)
  have words: "\<not> starts_with (prefix_of False @ b) (prefix_of True)" for b
    by (simp add: starts_with_def prefix_words)
  have apart: "prefix_of False @ b \<noteq> map to_ascii_uppercase (prefix_of True) @ c"
      "map to_ascii_uppercase (prefix_of False) @ b \<noteq> map to_ascii_uppercase (prefix_of True) @ c" for b c
    unfolding prefix_capitals by (simp_all add: prefix_words)
  have none: "strip_either s (prefix_of True) = None"
    if "s = prefix_of False @ b \<or> s = map to_ascii_uppercase (prefix_of False) @ b" for b
  proof (rule ccontr)
    assume "strip_either s (prefix_of True) \<noteq> None"
    then obtain c where "s = prefix_of True @ c \<or> s = map to_ascii_uppercase (prefix_of True) @ c"
      by (auto simp: strip_either_Some_iff)
    moreover have "\<not> starts_with s (prefix_of True)" using that caps words by blast
    ultimately show False using that apart by (metis starts_with_append)
  qed
  have some: "strip_either s (prefix_of g) = Some b \<longleftrightarrow> s \<in> {prefix_of g @ b, map to_ascii_uppercase (prefix_of g) @ b}" for g b
    using caps [of g b g] by (auto simp: strip_either_Some_iff)
  show ?thesis
  proof (cases guest)
    case True
    then show ?thesis unfolding pre some [symmetric] by (auto split: option.splits)
  next
    case False
    have "strip_either s (prefix_of False) = Some body \<Longrightarrow> strip_either s (prefix_of True) = None" using some none by blast
    then show ?thesis using False unfolding pre some [symmetric] by (auto split: option.splits)
  qed
qed

lemma parse_iff:
  "invite_parse t = Inr i \<longleftrightarrow> invite_ok i
     \<and> (\<exists>body. trim t \<in> {prefix_of (i_guest i) @ body, map to_ascii_uppercase (prefix_of (i_guest i)) @ body}
        \<and> map to_ascii_uppercase (read_chars body) = base32_encode (invite_payload i))"
proof -
  have "invite_parse t = Inr i \<longleftrightarrow> (\<exists>body guest payload.
      trim t \<in> {prefix_of guest @ body, map to_ascii_uppercase (prefix_of guest) @ body}
      \<and> base32_decode body = Some payload \<and> payload_read guest payload = Inr i)"
    unfolding invite_parse_def Let_def cut_iff [symmetric] by (auto split: option.splits)
  then show ?thesis by (auto simp: payload_read_iff base32_decoding_is_exact)
qed

lemma fives_dashes: "read_chars (join_on ''-'' (fives s)) = read_chars s"
proof (induction s rule: fives.induct)
  case (1 s)
  have app: "read_chars (a @ b) = read_chars a @ read_chars b" for a b by (simp add: read_chars_def)
  show ?case
  proof (cases "drop 5 s = []")
    case True
    then have "fives s = (if s = [] then [] else [s])" by (simp add: fives.simps [of s] fives.simps [of "[]"])
    then show ?thesis by (simp add: read_chars_def)
  next
    case False
    then have s: "s \<noteq> []" "fives (drop 5 s) \<noteq> []" "fives s = take 5 s # fives (drop 5 s)"
      by (auto simp: fives.simps [of s] fives.simps [of "drop 5 s"])
    then have "join_on ''-'' (fives s) = take 5 s @ ''-'' @ join_on ''-'' (fives (drop 5 s))" by (cases "fives (drop 5 s)") auto
    moreover have "read_chars ''-'' = []" by (simp add: read_chars_def)
    ultimately have "read_chars (join_on ''-'' (fives s)) = read_chars (take 5 s) @ read_chars (join_on ''-'' (fives (drop 5 s)))"
      by (simp only: app append_Nil)
    then show ?thesis using 1 [OF s(1)] by (simp flip: app)
  qed
qed

lemma plain_codes: "(of_char c :: nat) \<ge> 33 \<and> (of_char c :: nat) < 127" if "c \<in> set ALPHABET"
proof -
  have "list_all (\<lambda>c. (of_char c :: nat) \<ge> 33 \<and> (of_char c :: nat) < 127) ALPHABET" by code_simp
  then show ?thesis using that by (simp add: list_all_iff)
qed

lemma encoding_in_alphabet: "set (base32_encode bs) \<subseteq> set ALPHABET"
proof
  fix c
  assume "c \<in> set (base32_encode bs)"
  then obtain g where g: "c = ALPHABET ! bits_num g" "g \<in> set (five_groups (concat (map (low_bits 8) bs)))"
    by (auto simp: base32_encode_def encode_loop_groups)
  then have "length g = 5" using five_groups_iff [of "concat (map (low_bits 8) bs)"] by blast
  then have "bits_num g < length ALPHABET" using bits_num_lt [of g] by (simp add: ALPHABET_def)
  then show "c \<in> set ALPHABET" using g(1) by simp
qed

lemma join_fives_set: "set (join_on ''-'' (fives s)) \<subseteq> set s \<union> {CHR ''-''}"
proof -
  have "set (join_on ''-'' ps) \<subseteq> \<Union> (set ` set ps) \<union> {CHR ''-''}" for ps
    by (induction "''-''" ps rule: join_on.induct) auto
  moreover have "\<Union> (set ` set (fives s)) \<subseteq> set s"
  proof (induction s rule: fives.induct)
    case (1 s)
    then show ?case
      by (cases "s = []") (auto simp: fives.simps [of s] fives.simps [of "[]"] dest: in_set_takeD in_set_dropD)
  qed
  ultimately show ?thesis by blast
qed

lemma trim_code:
  assumes "set body \<subseteq> set ALPHABET \<union> {CHR ''-''}"
  shows "trim (prefix_of g @ body) = prefix_of g @ body"
proof (rule trim_ascii_word, rule ballI)
  fix c
  assume "c \<in> set (prefix_of g @ body)"
  then have "c \<in> set (prefix_of g) \<union> {CHR ''-''} \<union> set ALPHABET" using assms by auto
  moreover have "\<forall>c \<in> set (prefix_of g) \<union> {CHR ''-''}. 33 \<le> (of_char c :: nat) \<and> (of_char c :: nat) < 127"
    by (cases g) (simp_all add: prefix_words)
  ultimately show "33 \<le> (of_char c :: nat) \<and> (of_char c :: nat) < 127" using plain_codes by blast
qed

lemma invite_reads_back:
  assumes ok: "invite_ok i"
  shows "invite_parse (invite_encode i) = Inr i \<and> invite_parse (for_humans i) = Inr i"
proof (intro conjI)
  let ?e = "base32_encode (invite_payload i)"
  have plain: "read_chars ?e = ?e" "map to_ascii_uppercase ?e = ?e"
    using encoding_plain by (simp_all add: read_chars_def filter_id_conv map_idI)
  have "trim (invite_encode i) = prefix_of (i_guest i) @ ?e"
    using trim_code [of ?e "i_guest i"] encoding_in_alphabet [of "invite_payload i"] by (auto simp: invite_encode_def)
  then show "invite_parse (invite_encode i) = Inr i" using ok plain by (auto simp: parse_iff)
  have h: "for_humans i = prefix_of (i_guest i) @ join_on ''-'' (fives ?e)"
    by (simp add: for_humans_def invite_encode_def)
  have "set (join_on ''-'' (fives ?e)) \<subseteq> set ALPHABET \<union> {CHR ''-''}"
    using join_fives_set [of ?e] encoding_in_alphabet [of "invite_payload i"] by blast
  then have "trim (for_humans i) = prefix_of (i_guest i) @ join_on ''-'' (fives ?e)" by (simp add: h trim_code)
  then show "invite_parse (for_humans i) = Inr i"
    using ok plain by (auto simp: parse_iff fives_dashes intro!: exI [of _ "join_on ''-'' (fives ?e)"])
qed

text \<open>C14: A pairing code is read back as the invite it was made from, shown whole or grouped for reading
  out. A text is read as an invite just when, the space around it aside, it is the prefix that says
  whom the code is for, as written or in capitals, and some spelling of the encoding of that invite:
  a guest's code is never read as one for an own device, and no two invites have a code in common.\<close>

theorem invite_parsing_is_exact:
  "(invite_parse t = Inr i \<longleftrightarrow> invite_ok i
     \<and> (\<exists>body. trim t \<in> {prefix_of (i_guest i) @ body, map to_ascii_uppercase (prefix_of (i_guest i)) @ body}
        \<and> map to_ascii_uppercase (read_chars body) = base32_encode (invite_payload i)))
   \<and> (invite_ok i \<longrightarrow> invite_parse (invite_encode i) = Inr i \<and> invite_parse (for_humans i) = Inr i)"
  using parse_iff invite_reads_back by simp

definition sample_invite :: invite where
  "sample_invite = \<lparr>i_fingerprint = replicate 32 7, i_ip = V4 [192, 168, 0, 2], i_port = 47317, i_token = replicate 16 9,
     i_expires = 1700000300, i_guest = False\<rparr>"

theorem invite_parsing_is_exact_witness:
  "invite_parse (invite_encode sample_invite) = Inr sample_invite \<and> invite_parse (for_humans sample_invite) = Inr sample_invite"
proof -
  have "invite_ok sample_invite" by (simp add: invite_ok_def sample_invite_def)
  then show ?thesis using invite_parsing_is_exact [of "''''" sample_invite] by simp
qed

end
