(* ===== verification/Pairing.thy ===== *)
theory Pairing imports Invite Request Response Audience Calendar
begin

section \<open>Deciding which device to trust (\<open>crates/peer/src/pairing.rs\<close>, \<open>short.rs\<close>)\<close>

text \<open>
  The device showing a code serves one connection after another, and each a request at a time, until
  a device has paired; what it trusts, it writes in the tables of \<open>Audience\<close> and four more. What
  the person says to a device asking is a parameter, and so are the library's cryptography (the
  number both screens show, SPAKE2, the keyed hash, sealing) and what the random source gives. A
  connection is the certificate it proved and what its requests decode to; an end by the code's
  lifetime is a run over fewer of them. The other half is what the joining device does with the
  answers.
\<close>

subsection \<open>What is recorded of a device\<close>

record pairing_store =
  ps_db :: peers_db
  ps_meetings :: "device_id \<Rightarrow> bytes option"
  ps_local_kind :: "string option"
  ps_defaulted :: bool

definition on_peers :: "(peers_db \<Rightarrow> peers_db) \<Rightarrow> pairing_store \<Rightarrow> pairing_store" where
  "on_peers f s = s\<lparr>ps_db := f (ps_db s)\<rparr>"

definition trust_peer :: "int \<Rightarrow> device_id \<Rightarrow> bytes \<Rightarrow> string \<Rightarrow> pairing_store \<Rightarrow> pairing_store option" where
  \<comment> \<open>\<open>fingerprint\<close> is unique: None is the statement refused; read in the order of the names\<close>
  "trust_peer now d fp name s =
     (let peers = a_peers (ps_db s)
      in if list_ex (\<lambda>p. tp_fingerprint p = fp \<and> tp_id p \<noteq> d) peers then None
         else Some (on_peers (\<lambda>db. db\<lparr>a_peers := sort_key tp_name
           (if list_ex (\<lambda>p. tp_id p = d) peers
            then map (\<lambda>p. if tp_id p = d then p\<lparr>tp_fingerprint := fp, tp_name := name\<rparr> else p) peers
            else peers @ [\<lparr>tp_id = d, tp_fingerprint = fp, tp_name = name, tp_paired = now, tp_seen = None, tp_relation = Own\<rparr>])\<rparr>) s))"

definition trust_visitor :: "int \<Rightarrow> device_id \<Rightarrow> bytes \<Rightarrow> string \<Rightarrow> relation \<Rightarrow> bytes \<Rightarrow> pairing_store \<Rightarrow> pairing_store option" where
  "trust_visitor now d fp name r secret s =
     map_option (\<lambda>s. (on_peers (\<lambda>db. db\<lparr>a_peers := map (\<lambda>p. if tp_id p = d then p\<lparr>tp_relation := r\<rparr> else p) (a_peers db)\<rparr>) s)
         \<lparr>ps_meetings := (ps_meetings s)(d \<mapsto> secret)\<rparr>)
       (trust_peer now d fp name s)"

definition is_kind :: "string \<Rightarrow> bool" where
  "is_kind kind \<longleftrightarrow> kind \<in> {''phone'', ''computer'', ''replica''}"

definition set_peer_kind :: "device_id \<Rightarrow> string \<Rightarrow> peers_db \<Rightarrow> peers_db" where
  "set_peer_kind d kind db = (if is_kind kind then db\<lparr>a_kind := (a_kind db)(d \<mapsto> kind)\<rparr> else db)"

definition add_holder :: "device_id \<Rightarrow> peers_db \<Rightarrow> peers_db" where
  \<comment> \<open>\<open>INSERT OR IGNORE\<close>, in the order of \<open>since\<close>\<close>
  "add_holder d db = (if is_holder db d then db else db\<lparr>a_holders := a_holders db @ [(d, True)]\<rparr>)"

definition learn_kind :: "device_id \<Rightarrow> string \<Rightarrow> pairing_store \<Rightarrow> bool \<times> pairing_store" where
  "learn_kind d kind s =
     (let s = on_peers (set_peer_kind d kind) s;
          own = (case relation_of (ps_db s) d of Some r \<Rightarrow> \<not> is_other_person r | None \<Rightarrow> True)
      in if ps_local_kind s = Some ''phone'' \<and> own \<and> kind = ''computer'' \<and> \<not> ps_defaulted s \<and> a_holders (ps_db s) = []
         then (True, (on_peers (add_holder d) s)\<lparr>ps_defaulted := True\<rparr>)
         else (False, s))"

definition set_person :: "device_id \<Rightarrow> bytes \<Rightarrow> peers_db \<Rightarrow> peers_db" where
  "set_person d person db = db\<lparr>a_person := (a_person db)(d \<mapsto> DeviceId person)\<rparr>"

subsection \<open>What a device says of itself\<close>

function chars_of :: "string \<Rightarrow> string list" where
  \<comment> \<open>\<open>chars()\<close>: a byte with the continuation bytes after it\<close>
  "chars_of [] = []"
| "chars_of (c # s) = (c # takeWhile cont_byte s) # chars_of (dropWhile cont_byte s)"
  by pat_completeness auto
termination by (relation "measure length") (auto simp: length_dropWhile_le le_imp_less_Suc)

definition is_control :: "string \<Rightarrow> bool" where
  "is_control c \<longleftrightarrow>
     (case c of
        [b] \<Rightarrow> of_char b < (32 :: nat) \<or> of_char b = (127 :: nat)
      | [b, d] \<Rightarrow> of_char b = (0xC2 :: nat) \<and> of_char d < (0xA0 :: nat)
      | _ \<Rightarrow> False)"

definition sanitise :: "string \<Rightarrow> string" where
  "sanitise name =
     (let cleaned = concat (take 64 (filter (\<lambda>c. \<not> is_control c) (chars_of name)))
      in if trim cleaned = [] then ''unnamed device'' else trim cleaned)"

definition known_kind :: "string \<Rightarrow> string option" where
  "known_kind kind = (if is_kind kind then Some kind else None)"

record paired =
  pd_device :: device_id
  pd_fingerprint :: bytes
  pd_name :: string
  pd_kind :: "string option"

record asking =
  ak_name :: string
  ak_kind :: "string option"
  ak_fingerprint :: bytes
  ak_number :: string
  ak_wants_key :: bool
  ak_guest :: bool

subsection \<open>Parameters\<close>

record pairing_crypto =
  pc_number :: "bytes \<Rightarrow> bytes \<Rightarrow> bytes \<Rightarrow> bytes" \<comment> \<open>the digest over host, joiner and token\<close>
  pc_half :: "bool \<Rightarrow> nat \<Rightarrow> string \<Rightarrow> bytes \<Rightarrow> bytes \<Rightarrow> bytes"
    \<comment> \<open>what one side of the exchange sends: shown or typed, its random choice, the digits, the typing and the showing fingerprint\<close>
  pc_key :: "bool \<Rightarrow> nat \<Rightarrow> string \<Rightarrow> bytes \<Rightarrow> bytes \<Rightarrow> bytes \<Rightarrow> bytes option"
    \<comment> \<open>the key that side makes of the other's half, if it is one\<close>
  pc_confirm :: "bytes \<Rightarrow> bool \<Rightarrow> bytes"
  pc_seal :: "nat \<Rightarrow> bytes \<Rightarrow> string \<Rightarrow> bytes"
  pc_open :: "bytes \<Rightarrow> bytes \<Rightarrow> string option"

record hosting_env =
  h_crypto :: pairing_crypto
  h_name :: string
  h_kind :: string
  h_key :: bytes
  h_check :: bytes
  h_device :: device_id
  h_digits :: string
  h_approve :: "(asking \<times> bool) list \<Rightarrow> asking \<Rightarrow> bool"
  h_random :: "nat \<Rightarrow> bytes"
  h_now :: int

definition pairing_number :: "pairing_crypto \<Rightarrow> bytes \<Rightarrow> bytes \<Rightarrow> bytes \<Rightarrow> string" where
  "pairing_number c host joiner token =
     (let n = le_val (take 4 (pc_number c host joiner token)) mod 1000000
      in pad0 3 (show_nat (n div 1000)) @ '' '' @ pad0 3 (show_nat (n mod 1000)))"

definition TRIES :: nat where
  "TRIES = 5"

subsection \<open>Six digits, in place of the code\<close>

record hosting =
  g_tries :: nat
  g_key_given :: bool
  g_asked :: "(asking \<times> bool) list" \<comment> \<open>whom the person was asked about, and what they said\<close>
  g_sent :: "(bytes \<times> response) list"
  g_store :: pairing_store

definition hosting_new :: "pairing_store \<Rightarrow> hosting" where
  "hosting_new s = \<lparr>g_tries = TRIES, g_key_given = False, g_asked = [], g_sent = [], g_store = s\<rparr>"

definition digits_shown :: "hosting_env \<Rightarrow> hosting \<Rightarrow> string option" where
  "digits_shown env g = (if g_tries g > 0 then Some (h_digits env) else None)"

definition say :: "bytes \<Rightarrow> response \<Rightarrow> hosting \<Rightarrow> hosting" where
  "say to r g = g\<lparr>g_sent := g_sent g @ [(to, r)]\<rparr>"

definition digits_answer :: "hosting_env \<Rightarrow> bytes \<Rightarrow> bytes \<Rightarrow> string \<Rightarrow> request \<Rightarrow> bytes option \<Rightarrow> hosting \<Rightarrow>
    response \<times> bytes option \<times> hosting" where
  \<comment> \<open>the key of this exchange comes and goes with the connection; the tries are the code's\<close>
  "digits_answer env ours theirs code request key g =
     (let c = h_crypto env; n = length (g_sent g)
      in case request of
           RqShort spake \<Rightarrow>
             (if key \<noteq> None then (RsNotFound, key, g)
              else if g_tries g = 0 then (RsWithdrawn, key, g)
              else
                (let g = g\<lparr>g_tries := g_tries g - 1\<rparr>
                 in case pc_key c True n (h_digits env) theirs ours spake of
                      None \<Rightarrow> (RsNotFound, key, g)
                    | Some k \<Rightarrow> (RsShort (pc_half c True n (h_digits env) theirs ours) (pc_confirm c k True), Some k, g)))
         | RqShortConfirm confirm \<Rightarrow>
             (case key of
                None \<Rightarrow> (RsNotFound, None, g)
              | Some k \<Rightarrow>
                  if confirm \<noteq> pc_confirm c k False then (RsNotFound, None, g)
                  else (RsSealed (pc_seal c n k code), None, g\<lparr>g_tries := g_tries g + 1\<rparr>))
         | _ \<Rightarrow> (RsNotFound, key, g))"

subsection \<open>Serving a code\<close>

definition approve :: "hosting_env \<Rightarrow> asking \<Rightarrow> hosting \<Rightarrow> bool \<times> hosting" where
  "approve env a g = (let yes = h_approve env (g_asked g) a in (yes, g\<lparr>g_asked := g_asked g @ [(a, yes)]\<rparr>))"

definition asks :: "hosting_env \<Rightarrow> invite \<Rightarrow> bytes \<Rightarrow> string \<Rightarrow> string \<Rightarrow> bool \<Rightarrow> bool \<Rightarrow> asking" where
  "asks env i peer name kind wants_key guest =
     \<lparr>ak_name = sanitise name, ak_kind = known_kind kind, ak_fingerprint = peer,
      ak_number = pairing_number (h_crypto env) (i_fingerprint i) peer (i_token i), ak_wants_key = wants_key, ak_guest = guest\<rparr>"

datatype 'a served =
    GoesOn bool "bytes option" \<comment> \<open>the next request of the connection: approved on it, and its exchange's key\<close>
  | HangsUp
  | Over 'a

definition paired_as :: "bytes \<Rightarrow> bytes \<Rightarrow> string \<Rightarrow> string \<Rightarrow> paired" where
  "paired_as peer device name kind =
     \<lparr>pd_device = DeviceId device, pd_fingerprint = peer, pd_name = sanitise name, pd_kind = known_kind kind\<rparr>"

definition learn :: "paired \<Rightarrow> pairing_store \<Rightarrow> pairing_store" where
  "learn p s = (case pd_kind p of Some kind \<Rightarrow> snd (learn_kind (pd_device p) kind s) | None \<Rightarrow> s)"

definition serve_visit :: "hosting_env \<Rightarrow> invite \<Rightarrow> bytes \<Rightarrow> bytes \<Rightarrow> string \<Rightarrow> string \<Rightarrow> bytes \<Rightarrow> hosting \<Rightarrow>
    (unit + paired) served \<times> hosting" where
  "serve_visit env i peer device name kind person g =
     (case approve env (asks env i peer name kind False True) g of
        (False, g) \<Rightarrow> (HangsUp, say peer RsDeclined g)
      | (True, g) \<Rightarrow>
          (let meeting = h_random env (length (g_sent g)); p = paired_as peer device name kind
           in case trust_visitor (h_now env) (pd_device p) peer (pd_name p) Guest meeting (g_store g) of
                None \<Rightarrow> (Over (Inl ()), g)
              | Some s \<Rightarrow>
                  (Over (Inr p), say peer (RsWelcome (as_bytes (h_device env)) (h_name env) (h_kind env) meeting)
                     (g\<lparr>g_store := on_peers (set_person (pd_device p) person) (learn p s)\<rparr>))))"

definition serve_join :: "hosting_env \<Rightarrow> invite \<Rightarrow> bytes \<Rightarrow> string \<Rightarrow> string \<Rightarrow> bytes option \<Rightarrow> hosting \<Rightarrow>
    (unit + paired) served \<times> hosting" where
  "serve_join env i peer name kind key g =
     (if g_key_given g then (HangsUp, say peer RsNotFound g)
      else case approve env (asks env i peer name kind True False) g of
        (False, g) \<Rightarrow> (HangsUp, say peer RsDeclined g)
      | (True, g) \<Rightarrow> (GoesOn True key, say peer (RsKey (h_key env)) (g\<lparr>g_key_given := True\<rparr>)))"

definition serve_pair :: "hosting_env \<Rightarrow> invite \<Rightarrow> bytes \<Rightarrow> bool \<Rightarrow> bytes \<Rightarrow> string \<Rightarrow> string \<Rightarrow> bytes \<Rightarrow> hosting \<Rightarrow>
    (unit + paired) served \<times> hosting" where
  "serve_pair env i peer approved device name kind theirs g =
     (if theirs \<noteq> h_check env then (HangsUp, say peer RsMismatch g)
      else case (if approved then (True, g) else approve env (asks env i peer name kind False False) g) of
        (False, g) \<Rightarrow> (HangsUp, say peer RsDeclined g)
      | (True, g) \<Rightarrow>
          (let p = paired_as peer device name kind
           in case trust_peer (h_now env) (pd_device p) peer (pd_name p) (g_store g) of
                None \<Rightarrow> (Over (Inl ()), g)
              | Some s \<Rightarrow>
                  (Over (Inr p), say peer (RsPaired (as_bytes (h_device env)) (h_name env) (h_kind env) (h_check env))
                     (g\<lparr>g_store := learn p s\<rparr>))))"

definition serve_digits :: "hosting_env \<Rightarrow> invite \<Rightarrow> bytes \<Rightarrow> request \<Rightarrow> bool \<Rightarrow> bytes option \<Rightarrow> hosting \<Rightarrow>
    (unit + paired) served \<times> hosting" where
  "serve_digits env i peer request approved key g =
     (case digits_answer env (i_fingerprint i) peer (invite_encode i) request key g of
        (reply, key, g) \<Rightarrow>
          ((case reply of RsShort _ _ \<Rightarrow> GoesOn approved key | _ \<Rightarrow> HangsUp), say peer reply g))"

definition serve_ask :: "hosting_env \<Rightarrow> invite \<Rightarrow> bytes \<Rightarrow> request option \<Rightarrow> bool \<Rightarrow> bytes option \<Rightarrow> hosting \<Rightarrow>
    (unit + paired) served \<times> hosting" where
  \<comment> \<open>the turn of the inner loop; None is a message that does not decode\<close>
  "serve_ask env i peer ask approved key g =
     (let refuse = (HangsUp, say peer RsNotFound g); right = (\<lambda>token. token = i_token i)
      in case ask of
           Some (RqVisit token device name kind person) \<Rightarrow>
             (if \<not> i_guest i \<or> \<not> right token then refuse else serve_visit env i peer device name kind person g)
         | Some (RqWho token) \<Rightarrow>
             (if right token then (HangsUp, say peer (RsWho (h_name env) (h_kind env)) g) else refuse)
         | Some (RqJoin token name kind) \<Rightarrow>
             (if i_guest i \<or> approved \<or> \<not> right token then refuse else serve_join env i peer name kind key g)
         | Some (RqPair token device name kind theirs) \<Rightarrow>
             (if i_guest i \<or> \<not> right token then refuse else serve_pair env i peer approved device name kind theirs g)
         | Some (RqShort spake) \<Rightarrow> serve_digits env i peer (RqShort spake) approved key g
         | Some (RqShortConfirm confirm) \<Rightarrow> serve_digits env i peer (RqShortConfirm confirm) approved key g
         | _ \<Rightarrow> refuse)"

fun serve_asks :: "hosting_env \<Rightarrow> invite \<Rightarrow> bytes \<Rightarrow> request option list \<Rightarrow> bool \<Rightarrow> bytes option \<Rightarrow> hosting \<Rightarrow>
    (unit + paired) option \<times> hosting" where
  \<comment> \<open>one connection; None is to wait for the next\<close>
  "serve_asks env i peer [] approved key g = (None, g)"
| "serve_asks env i peer (a # as) approved key g =
     (case serve_ask env i peer a approved key g of
        (GoesOn approved key, g) \<Rightarrow> serve_asks env i peer as approved key g
      | (HangsUp, g) \<Rightarrow> (None, g)
      | (Over r, g) \<Rightarrow> (Some r, g))"

datatype not_paired = InviteExpired | PairingAbandoned | StoreRefused

fun accept_one :: "hosting_env \<Rightarrow> invite \<Rightarrow> (bytes option \<times> request option list) list \<Rightarrow> hosting \<Rightarrow> (not_paired + paired) \<times> hosting" where
  "accept_one env i [] g = (Inl PairingAbandoned, g)"
| "accept_one env i ((cert, as) # conns) g =
     (case cert of
        None \<Rightarrow> accept_one env i conns g
      | Some peer \<Rightarrow>
          (case serve_asks env i peer as False None g of
             (None, g) \<Rightarrow> accept_one env i conns g
           | (Some (Inl _), g) \<Rightarrow> (Inl StoreRefused, g)
           | (Some (Inr p), g) \<Rightarrow> (Inr p, g)))"

definition host_wait :: "hosting_env \<Rightarrow> invite \<Rightarrow> (bytes option \<times> request option list) list \<Rightarrow> pairing_store \<Rightarrow> (not_paired + paired) \<times> hosting" where
  "host_wait env i conns s =
     (if sint (i_expires i) - h_now env \<le> 0 then (Inl InviteExpired, hosting_new s)
      else accept_one env i conns (hosting_new s))"

subsection \<open>What a code gives away\<close>

fun token_of :: "request \<Rightarrow> bytes option" where
  "token_of (RqVisit token _ _ _ _) = Some token"
| "token_of (RqWho token) = Some token"
| "token_of (RqJoin token _ _) = Some token"
| "token_of (RqPair token _ _ _ _) = Some token"
| "token_of _ = None"

fun is_key :: "bytes \<times> response \<Rightarrow> bool" where
  "is_key (_, RsKey _) = True" | "is_key _ = False"

fun is_short :: "bytes \<times> response \<Rightarrow> bool" where
  "is_short (_, RsShort _ _) = True" | "is_short _ = False"

fun is_sealed :: "bytes \<times> response \<Rightarrow> bool" where
  "is_sealed (_, RsSealed _) = True" | "is_sealed _ = False"

abbreviation sent_of :: "(bytes \<times> response \<Rightarrow> bool) \<Rightarrow> hosting \<Rightarrow> nat" where
  "sent_of f g \<equiv> length (filter f (g_sent g))"

definition approved_as :: "hosting_env \<Rightarrow> invite \<Rightarrow> bytes \<Rightarrow> asking \<Rightarrow> bool" where
  \<comment> \<open>what the person was shown of a device: the fingerprint it proved and the number that goes with it\<close>
  "approved_as env i peer a \<longleftrightarrow> ak_fingerprint a = peer \<and> ak_guest a = i_guest i
     \<and> ak_number a = pairing_number (h_crypto env) (i_fingerprint i) peer (i_token i)"

definition hosting_ok :: "hosting_env \<Rightarrow> invite \<Rightarrow> (bytes \<times> request) set \<Rightarrow> hosting \<Rightarrow> bool" where
  \<comment> \<open>over what was asked: by whom, and what\<close>
  "hosting_ok env i heard g \<longleftrightarrow>
     (\<forall>(a, _) \<in> set (g_asked g). approved_as env i (ak_fingerprint a) a
        \<and> (\<exists>q. (ak_fingerprint a, q) \<in> heard \<and> token_of q = Some (i_token i)))
     \<and> (\<forall>(peer, r) \<in> set (g_sent g). is_key (peer, r) \<longrightarrow>
          r = RsKey (h_key env) \<and> \<not> i_guest i \<and> (\<exists>a. (a, True) \<in> set (g_asked g) \<and> ak_fingerprint a = peer \<and> ak_wants_key a))
     \<and> sent_of is_key g = (if g_key_given g then 1 else 0)
     \<and> g_tries g + sent_of is_short g \<le> TRIES + sent_of is_sealed g"

definition has_approved :: "hosting_env \<Rightarrow> invite \<Rightarrow> bytes \<Rightarrow> hosting \<Rightarrow> bool" where
  "has_approved env i peer g \<longleftrightarrow> (\<exists>a. (a, True) \<in> set (g_asked g) \<and> approved_as env i peer a)"

lemma hosting_ok_mono: "hosting_ok env i heard g \<Longrightarrow> heard \<subseteq> heard' \<Longrightarrow> hosting_ok env i heard' g"
  unfolding hosting_ok_def by (elim conjE, intro conjI) (blast, assumption+)

lemma hosting_ok_new: "hosting_ok env i heard (hosting_new s)"
  by (simp add: hosting_ok_def hosting_new_def)

lemma hosting_ok_say:
  assumes "hosting_ok env i heard g" and "\<not> is_key (peer, r)" and "\<not> is_short (peer, r)"
  shows "hosting_ok env i heard (say peer r g)"
  using assms unfolding hosting_ok_def say_def by (auto split: prod.splits)

lemma hosting_ok_store: "hosting_ok env i heard (g\<lparr>g_store := s\<rparr>) = hosting_ok env i heard g"
  by (simp add: hosting_ok_def)

lemma has_approved_more: "has_approved env i peer (say p r g) = has_approved env i peer g"
    "has_approved env i peer (g\<lparr>g_store := s\<rparr>) = has_approved env i peer g"
  by (simp_all add: has_approved_def say_def)

lemma say_store: "g_store (say p r g) = g_store g"
  by (simp add: say_def)

lemma approve_ok:
  assumes "hosting_ok env i heard g" and "approve env (asks env i peer name kind w (i_guest i)) g = (yes, g')"
    and "(peer, q) \<in> heard" and "token_of q = Some (i_token i)"
  shows "hosting_ok env i heard g' \<and> g_store g' = g_store g \<and> g_key_given g' = g_key_given g
    \<and> g_sent g' = g_sent g \<and> (yes \<longrightarrow> has_approved env i peer g' \<and> (\<exists>a. (a, True) \<in> set (g_asked g') \<and> ak_fingerprint a = peer \<and> ak_wants_key a = w))
    \<and> (has_approved env i peer g \<longrightarrow> has_approved env i peer g')"
proof -
  let ?a = "asks env i peer name kind w (i_guest i)"
  have g': "g' = g\<lparr>g_asked := g_asked g @ [(?a, yes)]\<rparr>" using assms(2) by (auto simp: approve_def Let_def)
  have a: "ak_fingerprint ?a = peer" "ak_wants_key ?a = w" "approved_as env i peer ?a"
    by (simp_all add: asks_def approved_as_def)
  have "hosting_ok env i heard g'"
    using assms(1) unfolding hosting_ok_def
  proof (elim conjE, intro conjI)
    show "\<forall>(b, _) \<in> set (g_asked g'). approved_as env i (ak_fingerprint b) b
        \<and> (\<exists>q. (ak_fingerprint b, q) \<in> heard \<and> token_of q = Some (i_token i))"
      if "\<forall>(b, _) \<in> set (g_asked g). approved_as env i (ak_fingerprint b) b
        \<and> (\<exists>q. (ak_fingerprint b, q) \<in> heard \<and> token_of q = Some (i_token i))"
      using that a assms(3,4) by (auto simp: g')
  qed (auto simp: g')
  then show ?thesis using a by (auto simp: g' has_approved_def)
qed

definition served_ok :: "hosting_env \<Rightarrow> invite \<Rightarrow> bytes \<Rightarrow> hosting \<Rightarrow> (unit + paired) served \<times> hosting \<Rightarrow> bool" where
  \<comment> \<open>what serving one request may come to\<close>
  "served_ok env i peer g out \<longleftrightarrow>
     (case out of
        (GoesOn approved _, g') \<Rightarrow> g_store g' = g_store g \<and> (approved \<longrightarrow> has_approved env i peer g')
      | (HangsUp, g') \<Rightarrow> g_store g' = g_store g
      | (Over (Inl _), g') \<Rightarrow> g_store g' = g_store g
      | (Over (Inr p), g') \<Rightarrow> pd_fingerprint p = peer \<and> has_approved env i peer g')"

lemma served_says: "(x, say peer r g') = out \<Longrightarrow> served_ok env i peer g (x, g') \<Longrightarrow> served_ok env i peer g out"
  by (auto simp: served_ok_def say_def has_approved_def split: served.splits sum.splits)

lemma serve_digits_ok:
  assumes "hosting_ok env i heard g" and "approved \<longrightarrow> has_approved env i peer g"
    and "serve_digits env i peer request approved key g = (x, g')"
  shows "hosting_ok env i heard g' \<and> served_ok env i peer g (x, g')"
proof -
  obtain reply key1 g1 where d: "digits_answer env (i_fingerprint i) peer (invite_encode i) request key g = (reply, key1, g1)"
    by (metis prod_cases3)
  have out: "g' = say peer reply g1" "x = (case reply of RsShort _ _ \<Rightarrow> GoesOn approved key1 | _ \<Rightarrow> HangsUp)"
    using assms(3) d by (simp_all add: serve_digits_def)
  have g1: "g_asked g1 = g_asked g" "g_sent g1 = g_sent g" "g_key_given g1 = g_key_given g" "g_store g1 = g_store g"
    and replies: "\<not> is_key (peer, reply)"
      "g_tries g1 + (if is_short (peer, reply) then 1 else 0) \<le> g_tries g + (if is_sealed (peer, reply) then 1 else 0)"
    using d by (auto simp: digits_answer_def Let_def split: request.splits option.splits if_splits)
  have tries: "g_tries g1 + sent_of is_short g' \<le> TRIES + sent_of is_sealed g'"
    using assms(1) replies(2) g1(2) by (auto simp: out say_def hosting_ok_def)
  have "hosting_ok env i heard g'"
    using assms(1) replies(1) g1 tries unfolding hosting_ok_def
  proof (elim conjE, intro conjI)
    show "g_tries g' + sent_of is_short g' \<le> TRIES + sent_of is_sealed g'" using tries by (simp add: out say_def)
  qed (auto simp: out say_def)
  moreover have "served_ok env i peer g (x, g')"
    using assms(2) g1(1,4) by (auto simp: out served_ok_def say_def has_approved_def split: response.splits)
  ultimately show ?thesis by blast
qed

lemma serve_visit_ok:
  assumes "hosting_ok env i heard g" and "i_guest i" and "(peer, q) \<in> heard" and "token_of q = Some (i_token i)"
    and "serve_visit env i peer device name kind person g = (x, g')"
  shows "hosting_ok env i heard g' \<and> served_ok env i peer g (x, g')"
proof -
  obtain yes g1 where a: "approve env (asks env i peer name kind False True) g = (yes, g1)" by fastforce
  note ok = approve_ok [OF assms(1) _ assms(3,4), of name kind False yes g1] a assms(2)
  show ?thesis
    using assms(5) a ok hosting_ok_say [of env i heard g1]
    by (cases yes)
      (auto simp: serve_visit_def Let_def served_ok_def say_def [of _ _ g1] hosting_ok_say hosting_ok_store paired_as_def has_approved_more
        split: option.splits intro!: hosting_ok_say)
qed

lemma hosting_ok_key:
  assumes "hosting_ok env i heard g" and "\<not> g_key_given g" and "\<not> i_guest i"
    and "(a, True) \<in> set (g_asked g)" and "ak_fingerprint a = peer" and "ak_wants_key a"
  shows "hosting_ok env i heard (say peer (RsKey (h_key env)) (g\<lparr>g_key_given := True\<rparr>))"
  using assms(1) unfolding hosting_ok_def
proof (elim conjE, intro conjI)
  assume "\<forall>(p, r) \<in> set (g_sent g). is_key (p, r) \<longrightarrow>
      r = RsKey (h_key env) \<and> \<not> i_guest i \<and> (\<exists>a. (a, True) \<in> set (g_asked g) \<and> ak_fingerprint a = p \<and> ak_wants_key a)"
  then show "\<forall>(p, r) \<in> set (g_sent (say peer (RsKey (h_key env)) (g\<lparr>g_key_given := True\<rparr>))). is_key (p, r) \<longrightarrow>
      r = RsKey (h_key env) \<and> \<not> i_guest i \<and> (\<exists>a. (a, True) \<in> set (g_asked (say peer (RsKey (h_key env)) (g\<lparr>g_key_given := True\<rparr>)))
        \<and> ak_fingerprint a = p \<and> ak_wants_key a)"
    using assms(3-6) by (auto simp: say_def)
qed (use assms(2) in \<open>auto simp: say_def\<close>)

lemma serve_join_ok:
  assumes "hosting_ok env i heard g" and "\<not> i_guest i" and "(peer, q) \<in> heard" and "token_of q = Some (i_token i)"
    and "serve_join env i peer name kind key g = (x, g')"
  shows "hosting_ok env i heard g' \<and> served_ok env i peer g (x, g')"
proof (cases "g_key_given g")
  case True
  then show ?thesis using assms(1,5) by (auto simp: serve_join_def served_ok_def hosting_ok_say) (auto simp: say_def)
next
  case False
  obtain yes g1 where a: "approve env (asks env i peer name kind True False) g = (yes, g1)" by fastforce
  note ok = approve_ok [OF assms(1) _ assms(3,4), of name kind True yes g1]
  then have g1: "hosting_ok env i heard g1" "g_store g1 = g_store g" "\<not> g_key_given g1"
    "yes \<longrightarrow> has_approved env i peer g1 \<and> (\<exists>a. (a, True) \<in> set (g_asked g1) \<and> ak_fingerprint a = peer \<and> ak_wants_key a)"
    using a assms(2) False by simp_all
  show ?thesis
  proof (cases yes)
    case True
    then obtain w where "(w, True) \<in> set (g_asked g1)" "ak_fingerprint w = peer" "ak_wants_key w" using g1(4) by blast
    from hosting_ok_key [OF g1(1,3) assms(2) this]
    have "hosting_ok env i heard (say peer (RsKey (h_key env)) (g1\<lparr>g_key_given := True\<rparr>))" .
    moreover have "x = GoesOn True key" "g' = say peer (RsKey (h_key env)) (g1\<lparr>g_key_given := True\<rparr>)"
      using assms(5) a False True by (simp_all add: serve_join_def)
    ultimately show ?thesis using g1(2,4) True by (auto simp: served_ok_def say_def has_approved_def)
  next
    case no: False
    then have "x = HangsUp" "g' = say peer RsDeclined g1" using assms(5) a False by (simp_all add: serve_join_def)
    then show ?thesis using g1(1,2) by (simp add: served_ok_def hosting_ok_say) (simp add: say_def)
  qed
qed

lemma serve_pair_ok:
  assumes "hosting_ok env i heard g" and "\<not> i_guest i" and "(peer, q) \<in> heard" and "token_of q = Some (i_token i)"
    and "approved \<longrightarrow> has_approved env i peer g" and "serve_pair env i peer approved device name kind theirs g = (x, g')"
  shows "hosting_ok env i heard g' \<and> served_ok env i peer g (x, g')"
proof (cases "theirs = h_check env")
  case False
  then show ?thesis using assms(1,6) by (auto simp: serve_pair_def served_ok_def hosting_ok_say) (auto simp: say_def)
next
  case True
  obtain yes g1 where a: "(if approved then (True, g) else approve env (asks env i peer name kind False False) g) = (yes, g1)" by fastforce
  have g1: "hosting_ok env i heard g1" "g_store g1 = g_store g" "yes \<longrightarrow> has_approved env i peer g1"
    using a assms(1,2,5) approve_ok [OF assms(1) _ assms(3,4), of name kind False yes g1] by (auto split: if_splits)
  then show ?thesis
    using assms(6) a True
    by (cases yes)
      (auto simp: serve_pair_def Let_def served_ok_def say_store hosting_ok_say hosting_ok_store paired_as_def has_approved_more
        split: option.splits intro!: hosting_ok_say)
qed

lemma refuse_ok: "hosting_ok env i heard g \<Longrightarrow> (x, g') = (HangsUp, say peer RsNotFound g) \<Longrightarrow> hosting_ok env i heard g' \<and> served_ok env i peer g (x, g')"
  by (auto simp: served_ok_def hosting_ok_say) (simp add: say_def)

lemma serve_ask_ok:
  assumes "hosting_ok env i heard g" and "approved \<longrightarrow> has_approved env i peer g" and "\<forall>q. ask = Some q \<longrightarrow> (peer, q) \<in> heard"
    and "serve_ask env i peer ask approved key g = (x, g')"
  shows "hosting_ok env i heard g' \<and> served_ok env i peer g (x, g')"
proof (cases "(x, g') = (HangsUp, say peer RsNotFound g)")
  case True
  then show ?thesis using refuse_ok [OF assms(1)] by blast
next
  case False
  then obtain q where q: "ask = Some q" "(peer, q) \<in> heard" using assms(3,4) by (cases ask) (auto simp: serve_ask_def)
  show ?thesis
  proof (cases q)
    case (RqVisit t d n k p)
    then have "i_guest i" "token_of q = Some (i_token i)" "serve_visit env i peer d n k p g = (x, g')"
      using assms(4) False q(1) by (auto simp: serve_ask_def Let_def split: if_splits)
    then show ?thesis using serve_visit_ok [OF assms(1)] q(2) by blast
  next
    case (RqJoin t n k)
    then have "\<not> i_guest i" "token_of q = Some (i_token i)" "serve_join env i peer n k key g = (x, g')"
      using assms(4) False q(1) by (auto simp: serve_ask_def Let_def split: if_splits)
    then show ?thesis using serve_join_ok [OF assms(1)] q(2) by blast
  next
    case (RqPair t d n k c)
    then have "\<not> i_guest i" "token_of q = Some (i_token i)" "serve_pair env i peer approved d n k c g = (x, g')"
      using assms(4) False q(1) by (auto simp: serve_ask_def Let_def split: if_splits)
    then show ?thesis using serve_pair_ok [OF assms(1)] assms(2) q(2) by blast
  next
    case (RqWho t)
    then have "x = HangsUp" "g' = say peer (RsWho (h_name env) (h_kind env)) g"
      using assms(4) False q(1) by (auto simp: serve_ask_def Let_def split: if_splits)
    then show ?thesis using assms(1) by (simp add: served_ok_def hosting_ok_say) (simp add: say_def)
  next
    case (RqShort s)
    then have "serve_digits env i peer q approved key g = (x, g')" using assms(4) q(1) by (simp add: serve_ask_def)
    then show ?thesis using serve_digits_ok [OF assms(1,2)] by blast
  next
    case (RqShortConfirm s)
    then have "serve_digits env i peer q approved key g = (x, g')" using assms(4) q(1) by (simp add: serve_ask_def)
    then show ?thesis using serve_digits_ok [OF assms(1,2)] by blast
  qed (use assms(4) False q(1) in \<open>auto simp: serve_ask_def Let_def\<close>)
qed

lemma serve_asks_ok:
  "hosting_ok env i heard g \<Longrightarrow> approved \<longrightarrow> has_approved env i peer g \<Longrightarrow> \<forall>q. Some q \<in> set qs \<longrightarrow> (peer, q) \<in> heard
   \<Longrightarrow> serve_asks env i peer qs approved key g = (r, g')
   \<Longrightarrow> hosting_ok env i heard g' \<and> (case r of Some (Inr p) \<Rightarrow> pd_fingerprint p = peer \<and> has_approved env i peer g' | _ \<Rightarrow> g_store g' = g_store g)"
proof (induction qs arbitrary: approved key g)
  case (Cons ask qs)
  obtain x g1 where one: "serve_ask env i peer ask approved key g = (x, g1)" by fastforce
  have ok: "hosting_ok env i heard g1" "served_ok env i peer g (x, g1)"
    using serve_ask_ok [OF Cons.prems(1,2) _ one] Cons.prems(3) by auto
  show ?case
  proof (cases x)
    case (GoesOn ap k)
    then have "serve_asks env i peer qs ap k g1 = (r, g')" "ap \<longrightarrow> has_approved env i peer g1" "g_store g1 = g_store g"
      using Cons.prems(4) one ok(2) by (simp_all add: served_ok_def)
    then show ?thesis using Cons.IH [OF ok(1), of ap k] Cons.prems(3) by (auto split: option.splits sum.splits)
  next
    case HangsUp
    then show ?thesis using Cons.prems(4) one ok by (auto simp: served_ok_def)
  next
    case (Over o)
    then show ?thesis using Cons.prems(4) one ok by (auto simp: served_ok_def split: sum.splits)
  qed
qed auto

lemma accept_one_ok:
  "hosting_ok env i heard g \<Longrightarrow> \<forall>peer qs q. (Some peer, qs) \<in> set conns \<longrightarrow> Some q \<in> set qs \<longrightarrow> (peer, q) \<in> heard
   \<Longrightarrow> accept_one env i conns g = (r, g')
   \<Longrightarrow> hosting_ok env i heard g' \<and> (case r of Inr p \<Rightarrow> has_approved env i (pd_fingerprint p) g' | Inl _ \<Rightarrow> g_store g' = g_store g)"
proof (induction conns arbitrary: g)
  case (Cons c conns)
  obtain cert qs where c: "c = (cert, qs)" by (cases c)
  show ?case
  proof (cases cert)
    case None
    then show ?thesis using Cons.IH [OF Cons.prems(1)] Cons.prems(2,3) c by auto
  next
    case (Some peer)
    obtain out1 g1 where one: "serve_asks env i peer qs False None g = (out1, g1)" by fastforce
    have ok: "hosting_ok env i heard g1"
      "case out1 of Some (Inr p) \<Rightarrow> pd_fingerprint p = peer \<and> has_approved env i peer g1 | _ \<Rightarrow> g_store g1 = g_store g"
      using serve_asks_ok [OF Cons.prems(1) _ _ one] Cons.prems(2) c Some by auto
    show ?thesis
    proof (cases out1)
      case None
      then have "accept_one env i conns g1 = (r, g')" "g_store g1 = g_store g" using Cons.prems(3) c Some one ok(2) by simp_all
      moreover have "\<forall>peer qs q. (Some peer, qs) \<in> set conns \<longrightarrow> Some q \<in> set qs \<longrightarrow> (peer, q) \<in> heard"
        using Cons.prems(2) by (meson list.set_intros(2))
      ultimately show ?thesis using Cons.IH [OF ok(1)] by (auto split: sum.splits)
    next
      case (Some out)
      then show ?thesis using Cons.prems(3) c \<open>cert = Some peer\<close> one ok by (cases out) auto
    qed
  qed
qed auto

lemma host_wait_ok:
  assumes "host_wait env i conns s = (r, g)"
  shows "hosting_ok env i {(peer, q). \<exists>qs. (Some peer, qs) \<in> set conns \<and> Some q \<in> set qs} g
    \<and> (case r of Inr p \<Rightarrow> has_approved env i (pd_fingerprint p) g | Inl _ \<Rightarrow> g_store g = s)"
proof (cases "sint (i_expires i) - h_now env \<le> 0")
  case True
  then have "r = Inl InviteExpired" "g = hosting_new s" using assms by (simp_all add: host_wait_def)
  then show ?thesis by (simp add: hosting_ok_new) (simp add: hosting_new_def)
next
  case False
  then have "accept_one env i conns (hosting_new s) = (r, g)" using assms by (simp add: host_wait_def)
  then have "hosting_ok env i {(peer, q). \<exists>qs. (Some peer, qs) \<in> set conns \<and> Some q \<in> set qs} g
     \<and> (case r of Inr p \<Rightarrow> has_approved env i (pd_fingerprint p) g | Inl _ \<Rightarrow> g_store g = g_store (hosting_new s))"
    by (rule accept_one_ok [OF hosting_ok_new, rotated]) fast
  then show ?thesis by (auto simp: hosting_new_def split: sum.splits)
qed

text \<open>C9: Nothing is given or recorded that the person did not approve. Whatever devices connect to the
  one showing a code and whatever they ask, in whatever order: the tables change only when a device
  pairs, and then the person said yes to the certificate that device proved, having been shown the
  number that goes with it and whether it comes as a guest; they are asked only about a device that
  presented the code's token; the key goes to a device the person said yes to as one that asks for it,
  at most once for the code, and never for a guest's.\<close>

theorem pairing_needs_the_person:
  assumes "host_wait env i conns s = (r, g)"
  shows "(case r of Inr p \<Rightarrow> \<exists>a. (a, True) \<in> set (g_asked g) \<and> approved_as env i (pd_fingerprint p) a | Inl _ \<Rightarrow> g_store g = s)
    \<and> (\<forall>(a, _) \<in> set (g_asked g). approved_as env i (ak_fingerprint a) a
        \<and> (\<exists>qs q. (Some (ak_fingerprint a), qs) \<in> set conns \<and> Some q \<in> set qs \<and> token_of q = Some (i_token i)))
    \<and> (\<forall>(peer, reply) \<in> set (g_sent g). is_key (peer, reply) \<longrightarrow> \<not> i_guest i
        \<and> (\<exists>a. (a, True) \<in> set (g_asked g) \<and> ak_fingerprint a = peer \<and> ak_wants_key a))
    \<and> sent_of is_key g \<le> 1"
proof -
  note ok = host_wait_ok [OF assms, unfolded hosting_ok_def]
  have "case r of Inr p \<Rightarrow> \<exists>a. (a, True) \<in> set (g_asked g) \<and> approved_as env i (pd_fingerprint p) a | Inl _ \<Rightarrow> g_store g = s"
    using ok by (auto simp: has_approved_def split: sum.splits)
  moreover have "approved_as env i (ak_fingerprint a) a
      \<and> (\<exists>qs q. (Some (ak_fingerprint a), qs) \<in> set conns \<and> Some q \<in> set qs \<and> token_of q = Some (i_token i))"
    if "(a, yes) \<in> set (g_asked g)" for a yes
    using bspec [OF conjunct1 [OF conjunct1 [OF ok]] that] by auto
  moreover have "\<not> i_guest i \<and> (\<exists>a. (a, True) \<in> set (g_asked g) \<and> ak_fingerprint a = peer \<and> ak_wants_key a)"
    if "(peer, reply) \<in> set (g_sent g)" "is_key (peer, reply)" for peer reply
    using bspec [OF conjunct1 [OF conjunct2 [OF conjunct1 [OF ok]]] that(1)] that(2) by simp
  moreover have "sent_of is_key g \<le> 1" using ok by simp
  ultimately show ?thesis by blast
qed

definition proved_digits :: "hosting_env \<Rightarrow> invite \<Rightarrow> request option list \<Rightarrow> bytes \<Rightarrow> response \<Rightarrow> bool" where
  \<comment> \<open>over the requests of one connection: the key its exchange made of the digits shown and the half it
    sent, the proof of that key it sent, and the code sealed with that key\<close>
  "proved_digits env i qs peer reply \<longleftrightarrow>
     (\<exists>spake m k m'. Some (RqShort spake) \<in> set qs \<and> pc_key (h_crypto env) True m (h_digits env) peer (i_fingerprint i) spake = Some k
        \<and> Some (RqShortConfirm (pc_confirm (h_crypto env) k False)) \<in> set qs
        \<and> reply = RsSealed (pc_seal (h_crypto env) m' k (invite_encode i)))"

definition key_proved :: "hosting_env \<Rightarrow> invite \<Rightarrow> request option list \<Rightarrow> bytes \<Rightarrow> bytes option \<Rightarrow> bool" where
  "key_proved env i qs peer key \<longleftrightarrow> (\<forall>k. key = Some k \<longrightarrow>
     (\<exists>spake m. Some (RqShort spake) \<in> set qs \<and> pc_key (h_crypto env) True m (h_digits env) peer (i_fingerprint i) spake = Some k))"

definition seals_proved :: "hosting_env \<Rightarrow> invite \<Rightarrow> (bytes option \<times> request option list) set \<Rightarrow> hosting \<Rightarrow> bool" where
  "seals_proved env i conns g \<longleftrightarrow> (\<forall>(peer, reply) \<in> set (g_sent g). is_sealed (peer, reply) \<longrightarrow>
     (\<exists>qs. (Some peer, qs) \<in> conns \<and> proved_digits env i qs peer reply))"

lemma serve_digits_seals:
  assumes "serve_digits env i peer q approved key g = (x, g')" and "Some q \<in> set qs" and "key_proved env i qs peer key"
  shows "\<exists>reply. g_sent g' = g_sent g @ [(peer, reply)] \<and> (is_sealed (peer, reply) \<longrightarrow> proved_digits env i qs peer reply)
    \<and> (\<forall>ap key'. x = GoesOn ap key' \<longrightarrow> key_proved env i qs peer key')"
proof -
  obtain reply key1 g1 where d: "digits_answer env (i_fingerprint i) peer (invite_encode i) q key g = (reply, key1, g1)"
    by (metis prod_cases3)
  have "g_sent g1 = g_sent g" "is_sealed (peer, reply) \<longrightarrow> proved_digits env i qs peer reply" "key_proved env i qs peer key1"
    using d assms(2,3)
    by (auto simp: digits_answer_def Let_def key_proved_def proved_digits_def split: request.splits option.splits if_splits)
  then show ?thesis
    using assms(1) d by (auto simp: serve_digits_def say_def split: response.splits)
qed

lemma serve_ask_seals:
  assumes "serve_ask env i peer ask approved key g = (x, g')" and "ask \<in> set qs" and "key_proved env i qs peer key"
  shows "(g_sent g' = g_sent g \<or> (\<exists>reply. g_sent g' = g_sent g @ [(peer, reply)]
      \<and> (is_sealed (peer, reply) \<longrightarrow> proved_digits env i qs peer reply)))
    \<and> (\<forall>ap key'. x = GoesOn ap key' \<longrightarrow> key_proved env i qs peer key')"
proof (cases "\<exists>q. ask = Some q \<and> serve_digits env i peer q approved key g = (x, g')")
  case True
  then show ?thesis using serve_digits_seals [OF _ _ assms(3)] assms(2) by metis
next
  case False
  then have "\<forall>s. ask \<noteq> Some (RqShort s) \<and> ask \<noteq> Some (RqShortConfirm s)" using assms(1) by (auto simp: serve_ask_def)
  then show ?thesis
    using assms(1,3)
    by (auto simp: serve_ask_def Let_def serve_visit_def serve_join_def serve_pair_def approve_def say_def
      split: option.splits request.splits if_splits prod.splits bool.splits)
qed

lemma seals_proved_more:
  assumes "seals_proved env i conns g" and "(Some peer, qs) \<in> conns"
    and "g_sent g' = g_sent g \<or> (\<exists>reply. g_sent g' = g_sent g @ [(peer, reply)]
      \<and> (is_sealed (peer, reply) \<longrightarrow> proved_digits env i qs peer reply))"
  shows "seals_proved env i conns g'"
  using assms unfolding seals_proved_def by (elim disjE exE conjE) auto

lemma serve_asks_seals:
  "serve_asks env i peer as approved key g = (r, g') \<Longrightarrow> set as \<subseteq> set qs \<Longrightarrow> key_proved env i qs peer key
   \<Longrightarrow> seals_proved env i conns g \<Longrightarrow> (Some peer, qs) \<in> conns \<Longrightarrow> seals_proved env i conns g'"
proof (induction as arbitrary: approved key g)
  case (Cons a as)
  obtain x g1 where one: "serve_ask env i peer a approved key g = (x, g1)" by fastforce
  note step = serve_ask_seals [OF one _ Cons.prems(3)]
  have "seals_proved env i conns g1" using seals_proved_more [OF Cons.prems(4,5)] step Cons.prems(2) by simp
  then show ?case using Cons.prems Cons.IH one step by (cases x) auto
qed simp

lemma accept_one_seals:
  "accept_one env i conns g = (r, g') \<Longrightarrow> set conns \<subseteq> all \<Longrightarrow> seals_proved env i all g \<Longrightarrow> seals_proved env i all g'"
proof (induction conns arbitrary: g)
  case (Cons c conns)
  obtain cert qs where c: "c = (cert, qs)" by (cases c)
  show ?case
  proof (cases cert)
    case (Some peer)
    obtain out1 g1 where one: "serve_asks env i peer qs False None g = (out1, g1)" by fastforce
    have "seals_proved env i all g1"
      using serve_asks_seals [OF one subset_refl _ Cons.prems(3)] Cons.prems(2) c Some by (simp add: key_proved_def)
    then show ?thesis using Cons c Some one by (auto split: option.splits sum.splits)
  qed (use Cons c in auto)
qed simp

text \<open>C10: Six digits cannot be guessed for long. A code is sealed, on a connection, only with the key an
  exchange of that connection made of the digits shown, and only where the connection also sent the
  proof that it has that key; and however many devices try and however often, the digits are answered with a half of the
  exchange at most five times more than such a proof was given, and once the tries are spent every
  further one is told the digits are withdrawn.\<close>

theorem digits_are_tried_five_times:
  assumes "host_wait env i conns s = (r, g)"
  shows "(\<forall>(peer, reply) \<in> set (g_sent g). is_sealed (peer, reply) \<longrightarrow>
        (\<exists>qs. (Some peer, qs) \<in> set conns \<and> proved_digits env i qs peer reply))
    \<and> g_tries g + sent_of is_short g \<le> 5 + sent_of is_sealed g
    \<and> (g_tries g = 0 \<longrightarrow> digits_shown env g = None
        \<and> digits_answer env ours theirs code (RqShort spake) None g = (RsWithdrawn, None, g))"
proof -
  have "seals_proved env i (set conns) (hosting_new s)" by (simp add: seals_proved_def hosting_new_def)
  then have "seals_proved env i (set conns) g"
    using assms accept_one_seals [of env i conns "hosting_new s" r g "set conns"] by (auto simp: host_wait_def split: if_splits)
  then show ?thesis
    using host_wait_ok [OF assms]
    by (simp add: hosting_ok_def TRIES_def digits_shown_def digits_answer_def Let_def) (simp add: seals_proved_def)
qed

subsection \<open>The tables afterwards\<close>

definition devices_apart :: "pairing_store \<Rightarrow> bool" where
  \<comment> \<open>one row a device, one device a certificate\<close>
  "devices_apart s \<longleftrightarrow> distinct (map tp_id (a_peers (ps_db s))) \<and> distinct (map tp_fingerprint (a_peers (ps_db s)))"

lemma find_unique: "distinct (map f xs) \<Longrightarrow> x \<in> set xs \<Longrightarrow> find (\<lambda>y. f y = f x) xs = Some x"
  by (induction xs) auto

lemma peers_of:
  assumes "devices_apart s" and "p \<in> set (a_peers (ps_db s))"
  shows "peer_by_fingerprint (ps_db s) (tp_fingerprint p) = Some p" and "relation_of (ps_db s) (tp_id p) = Some (tp_relation p)"
  using assms find_unique [of tp_fingerprint "a_peers (ps_db s)" p] find_unique [of tp_id "a_peers (ps_db s)" p]
  by (simp_all add: devices_apart_def peer_by_fingerprint_def relation_of_def)

lemma distinct_map_update:
  assumes "distinct (map f xs)" and "\<forall>x \<in> set xs. u x \<noteq> x \<longrightarrow> f (u x) \<notin> f ` (set xs - {x})" and "\<forall>x \<in> set xs. \<forall>y \<in> set xs. u x \<noteq> x \<longrightarrow> u y \<noteq> y \<longrightarrow> x = y"
  shows "distinct (map f (map u xs))"
proof -
  have "inj_on (f \<circ> u) (set xs)"
  proof (rule inj_onI)
    fix x y
    assume xy: "x \<in> set xs" "y \<in> set xs" "(f \<circ> u) x = (f \<circ> u) y"
    have off: "f (u a) \<noteq> f b" if "a \<in> set xs" "b \<in> set xs" "u a \<noteq> a" "a \<noteq> b" for a b
      using assms(2) that by (metis DiffI imageI singletonD)
    consider "u x = x" "u y = y" | "u x \<noteq> x" "u y = y" | "u x = x" "u y \<noteq> y" | "u x \<noteq> x" "u y \<noteq> y" by blast
    then show "x = y"
    proof cases
      case 1
      then show ?thesis using xy inj_onD [of f "set xs" x y] assms(1) by (simp add: distinct_map)
    next
      case 2
      then show ?thesis using off [OF xy(1,2)] xy(3) by auto
    next
      case 3
      then show ?thesis using off [OF xy(2,1)] xy(3) by auto
    next
      case 4
      then show ?thesis using assms(3) xy(1,2) by blast
    qed
  qed
  then have "distinct (map (f \<circ> u) xs)" using assms(1) by (simp only: distinct_map)
  then show ?thesis by simp
qed

lemma distinct_sort_map: "distinct (map f (sort_key k xs)) = distinct (map f xs)"
  by (simp add: distinct_map)

lemma trust_peer_rows:
  assumes "devices_apart s" and "trust_peer now d fp name s = Some s'"
  shows "devices_apart s'
    \<and> (\<exists>q. q \<in> set (a_peers (ps_db s')) \<and> tp_id q = d \<and> tp_fingerprint q = fp \<and> tp_name q = name
        \<and> tp_relation q = (case relation_of (ps_db s) d of Some r \<Rightarrow> r | None \<Rightarrow> Own))
    \<and> {q \<in> set (a_peers (ps_db s')). tp_id q \<noteq> d} = {q \<in> set (a_peers (ps_db s)). tp_id q \<noteq> d}
    \<and> ps_db s' = (ps_db s)\<lparr>a_peers := a_peers (ps_db s')\<rparr> \<and> ps_meetings s' = ps_meetings s
    \<and> ps_local_kind s' = ps_local_kind s \<and> ps_defaulted s' = ps_defaulted s"
proof -
  let ?ps = "a_peers (ps_db s)"
  let ?up = "\<lambda>p. if tp_id p = d then p\<lparr>tp_fingerprint := fp, tp_name := name\<rparr> else p"
  let ?new = "\<lparr>tp_id = d, tp_fingerprint = fp, tp_name = name, tp_paired = now, tp_seen = None, tp_relation = Own\<rparr>"
  define rows where "rows = (if list_ex (\<lambda>p. tp_id p = d) ?ps then map ?up ?ps else ?ps @ [?new])"
  have free: "\<forall>p \<in> set ?ps. tp_fingerprint p = fp \<longrightarrow> tp_id p = d" and s': "s' = on_peers (\<lambda>db. db\<lparr>a_peers := sort_key tp_name rows\<rparr>) s"
    using assms(2) by (auto simp: trust_peer_def Let_def rows_def list_ex_iff split: if_splits)
  have apart: "distinct (map tp_id ?ps)" "distinct (map tp_fingerprint ?ps)" using assms(1) by (simp_all add: devices_apart_def)
  have "distinct (map tp_id rows) \<and> distinct (map tp_fingerprint rows)
      \<and> (\<exists>q \<in> set rows. tp_id q = d \<and> tp_fingerprint q = fp \<and> tp_name q = name
          \<and> tp_relation q = (case relation_of (ps_db s) d of Some r \<Rightarrow> r | None \<Rightarrow> Own))
      \<and> {q \<in> set rows. tp_id q \<noteq> d} = {q \<in> set ?ps. tp_id q \<noteq> d}"
  proof (cases "list_ex (\<lambda>p. tp_id p = d) ?ps")
    case True
    then obtain p where p: "p \<in> set ?ps" "tp_id p = d" by (auto simp: list_ex_iff)
    have one: "tp_id x = d \<Longrightarrow> x \<in> set ?ps \<Longrightarrow> x = p" for x
      using apart(1) p by (auto simp: distinct_map inj_on_def)
    have rows: "rows = map ?up ?ps" using True by (simp add: rows_def)
    have ids: "map tp_id rows = map tp_id ?ps" by (simp add: rows)
    have fps: "distinct (map tp_fingerprint rows)"
      unfolding rows
    proof (rule distinct_map_update [OF apart(2)])
      show "\<forall>x \<in> set ?ps. ?up x \<noteq> x \<longrightarrow> tp_fingerprint (?up x) \<notin> tp_fingerprint ` (set ?ps - {x})"
        using one free by (auto simp: image_iff)
      show "\<forall>x \<in> set ?ps. \<forall>y \<in> set ?ps. ?up x \<noteq> x \<longrightarrow> ?up y \<noteq> y \<longrightarrow> x = y"
        using one by (auto split: if_splits)
    qed
    have "?up p \<in> set rows" using p by (auto simp: rows)
    moreover have "relation_of (ps_db s) d = Some (tp_relation p)" using peers_of(2) [OF assms(1) p(1)] p(2) by simp
    moreover have "{q \<in> set rows. tp_id q \<noteq> d} = {q \<in> set ?ps. tp_id q \<noteq> d}" by (auto simp: rows)
    ultimately show ?thesis using ids apart(1) fps p(2) by (intro conjI bexI [of _ "?up p"]) simp_all
  next
    case False
    then have rows: "rows = ?ps @ [?new]" and none: "d \<notin> tp_id ` set ?ps" by (auto simp: rows_def list_ex_iff)
    have "relation_of (ps_db s) d = None" using none by (auto simp: relation_of_def find_None_iff)
    moreover have "fp \<notin> tp_fingerprint ` set ?ps" using free none by auto
    moreover have "{q \<in> set rows. tp_id q \<noteq> d} = {q \<in> set ?ps. tp_id q \<noteq> d}" by (auto simp: rows)
    ultimately show ?thesis using none apart by (intro conjI bexI [of _ ?new]) (simp_all add: rows)
  qed
  then show ?thesis by (auto simp: s' on_peers_def devices_apart_def distinct_sort_map)
qed

definition recorded :: "invite \<Rightarrow> pairing_store \<Rightarrow> paired \<Rightarrow> pairing_store \<Rightarrow> bool" where
  \<comment> \<open>the row of the device that paired is as it proved and said, and no other row has changed\<close>
  "recorded i s p s' \<longleftrightarrow> devices_apart s'
     \<and> (\<exists>q \<in> set (a_peers (ps_db s')). tp_id q = pd_device p \<and> tp_fingerprint q = pd_fingerprint p \<and> tp_name q = pd_name p
        \<and> tp_relation q = (if i_guest i then Guest else case relation_of (ps_db s) (pd_device p) of Some r \<Rightarrow> r | None \<Rightarrow> Own))
     \<and> {q \<in> set (a_peers (ps_db s')). tp_id q \<noteq> pd_device p} = {q \<in> set (a_peers (ps_db s)). tp_id q \<noteq> pd_device p}"

lemma recordedI:
  assumes "devices_apart s'" and "q \<in> set (a_peers (ps_db s'))" and "tp_id q = pd_device p" and "tp_fingerprint q = pd_fingerprint p"
    and "tp_name q = pd_name p"
    and "tp_relation q = (if i_guest i then Guest else case relation_of (ps_db s) (pd_device p) of Some r \<Rightarrow> r | None \<Rightarrow> Own)"
    and "{q \<in> set (a_peers (ps_db s')). tp_id q \<noteq> pd_device p} = {q \<in> set (a_peers (ps_db s)). tp_id q \<noteq> pd_device p}"
  shows "recorded i s p s'"
  unfolding recorded_def using assms by blast

lemma learn_peers: "a_peers (ps_db (learn p s)) = a_peers (ps_db s)"
  by (simp add: learn_def learn_kind_def Let_def on_peers_def set_peer_kind_def add_holder_def split: option.split)

lemma recorded_same_peers: "a_peers (ps_db s2) = a_peers (ps_db s1) \<Longrightarrow> recorded i s p s2 = recorded i s p s1"
  by (simp add: recorded_def devices_apart_def)

lemma serve_pair_records:
  assumes "devices_apart (g_store g)" and "\<not> i_guest i" and "serve_pair env i peer approved device name kind theirs g = (Over (Inr p), g')"
  shows "recorded i (g_store g) p (g_store g')"
proof -
  let ?p = "paired_as peer device name kind"
  obtain yes g1 where a: "(if approved then (True, g) else approve env (asks env i peer name kind False False) g) = (yes, g1)" by fastforce
  have g1: "g_store g1 = g_store g" using a by (auto simp: approve_def Let_def split: if_splits)
  obtain s where s: "trust_peer (h_now env) (pd_device ?p) peer (pd_name ?p) (g_store g) = Some s" and p: "p = ?p"
    and g': "g_store g' = learn ?p s"
    using assms(3) a g1 by (cases yes) (auto simp: serve_pair_def Let_def say_store split: if_splits option.splits)
  have fp: "pd_fingerprint ?p = peer" by (simp add: paired_as_def)
  note rows = trust_peer_rows [OF assms(1) s]
  from conjunct1 [OF conjunct2 [OF rows]] obtain q where q: "q \<in> set (a_peers (ps_db s))" "tp_id q = pd_device ?p" "tp_fingerprint q = peer" "tp_name q = pd_name ?p"
    "tp_relation q = (case relation_of (ps_db (g_store g)) (pd_device ?p) of Some r \<Rightarrow> r | None \<Rightarrow> Own)"
    by blast
  have others: "devices_apart s" "{q \<in> set (a_peers (ps_db s)). tp_id q \<noteq> pd_device ?p} = {q \<in> set (a_peers (ps_db (g_store g))). tp_id q \<noteq> pd_device ?p}"
    by (rule conjunct1 [OF rows], rule conjunct1 [OF conjunct2 [OF conjunct2 [OF rows]]])
  have "recorded i (g_store g) ?p s"
    by (rule recordedI [OF others(1) q(1,2) _ q(4) _ others(2)]) (simp_all only: fp q(3,5) assms(2) if_False)
  then show ?thesis using recorded_same_peers [OF learn_peers, of i _ ?p ?p s] by (simp add: g' p)
qed

lemma serve_visit_records:
  assumes "devices_apart (g_store g)" and "i_guest i" and "serve_visit env i peer device name kind person g = (Over (Inr p), g')"
  shows "recorded i (g_store g) p (g_store g')"
proof -
  let ?p = "paired_as peer device name kind"
  obtain yes g1 where a: "approve env (asks env i peer name kind False True) g = (yes, g1)" by fastforce
  have g1: "g_store g1 = g_store g" using a by (auto simp: approve_def Let_def)
  have yes using assms(3) a by (cases yes) (auto simp: serve_visit_def)
  define meeting where "meeting = h_random env (length (g_sent g1))"
  have out: "(Over (Inr p), g') = (case trust_visitor (h_now env) (pd_device ?p) peer (pd_name ?p) Guest meeting (g_store g) of
      None \<Rightarrow> (Over (Inl ()), g1)
    | Some s \<Rightarrow> (Over (Inr ?p), say peer (RsWelcome (as_bytes (h_device env)) (h_name env) (h_kind env) meeting)
        (g1\<lparr>g_store := on_peers (set_person (pd_device ?p) person) (learn ?p s)\<rparr>)))"
    using assms(3) [symmetric] unfolding serve_visit_def a meeting_def by (simp add: \<open>yes\<close> Let_def g1)
  obtain s where s: "trust_visitor (h_now env) (pd_device ?p) peer (pd_name ?p) Guest meeting (g_store g) = Some s"
    using out by (cases "trust_visitor (h_now env) (pd_device ?p) peer (pd_name ?p) Guest meeting (g_store g)") simp_all
  have p: "p = ?p" and g': "g_store g' = on_peers (set_person (pd_device ?p) person) (learn ?p s)"
    using out by (simp_all add: s say_store)
  obtain s1 where s1: "trust_peer (h_now env) (pd_device ?p) peer (pd_name ?p) (g_store g) = Some s1"
    and peers: "a_peers (ps_db s) = map (\<lambda>q. if tp_id q = pd_device ?p then q\<lparr>tp_relation := Guest\<rparr> else q) (a_peers (ps_db s1))"
    using s by (auto simp: trust_visitor_def on_peers_def)
  have same: "map tp_id (a_peers (ps_db s)) = map tp_id (a_peers (ps_db s1))"
      "map tp_fingerprint (a_peers (ps_db s)) = map tp_fingerprint (a_peers (ps_db s1))"
    by (simp_all add: peers)
  note rows = trust_peer_rows [OF assms(1) s1]
  have apart: "devices_apart s" using conjunct1 [OF rows] same by (simp add: devices_apart_def)
  have others: "{q \<in> set (a_peers (ps_db s1)). tp_id q \<noteq> pd_device ?p} = {q \<in> set (a_peers (ps_db (g_store g))). tp_id q \<noteq> pd_device ?p}"
    by (rule conjunct1 [OF conjunct2 [OF conjunct2 [OF rows]]])
  have fp: "pd_fingerprint ?p = peer" by (simp add: paired_as_def)
  have now: "a_peers (ps_db (g_store g')) = a_peers (ps_db s)" by (simp add: g' on_peers_def set_person_def learn_peers)
  obtain q where q: "q \<in> set (a_peers (ps_db s1))" "tp_id q = pd_device ?p" "tp_fingerprint q = peer" "tp_name q = pd_name ?p"
    using conjunct1 [OF conjunct2 [OF rows]] by blast
  then have "q\<lparr>tp_relation := Guest\<rparr> \<in> set (a_peers (ps_db s))" by (auto simp: peers)
  moreover have "{q \<in> set (a_peers (ps_db s)). tp_id q \<noteq> pd_device ?p} = {q \<in> set (a_peers (ps_db s1)). tp_id q \<noteq> pd_device ?p}"
    by (auto simp: peers)
  ultimately have "recorded i (g_store g) p s"
    unfolding p others
    by (intro recordedI [OF apart, of "q\<lparr>tp_relation := Guest\<rparr>"]) (simp_all add: q fp assms(2))
  then show ?thesis using recorded_same_peers [OF now] by blast
qed

lemma serve_ask_records:
  assumes "devices_apart (g_store g)" and "serve_ask env i peer ask approved key g = (Over (Inr p), g')"
  shows "recorded i (g_store g) p (g_store g')"
proof -
  obtain q where q: "ask = Some q" using assms(2) by (cases ask) (auto simp: serve_ask_def)
  show ?thesis
  proof (cases q)
    case (RqVisit t d n k c)
    then have "i_guest i" "serve_visit env i peer d n k c g = (Over (Inr p), g')"
      using assms(2) q by (auto simp: serve_ask_def Let_def split: if_splits)
    then show ?thesis using serve_visit_records [OF assms(1)] by blast
  next
    case (RqPair t d n k c)
    then have "\<not> i_guest i" "serve_pair env i peer approved d n k c g = (Over (Inr p), g')"
      using assms(2) q by (auto simp: serve_ask_def Let_def split: if_splits)
    then show ?thesis using serve_pair_records [OF assms(1)] by blast
  next
    case (RqJoin t n k)
    then show ?thesis
      using assms(2) q by (auto simp: serve_ask_def serve_join_def Let_def split: if_splits prod.splits bool.splits)
  qed (use assms(2) q in \<open>auto simp: serve_ask_def serve_digits_def Let_def split: if_splits prod.splits response.splits\<close>)
qed

lemma serve_ask_store:
  assumes "serve_ask env i peer ask approved key g = (x, g')" and "\<And>p. x \<noteq> Over (Inr p)"
  shows "g_store g' = g_store g"
proof (cases "g' = say peer RsNotFound g")
  case False
  then obtain q where q: "ask = Some q" using assms by (cases ask) (auto simp: serve_ask_def)
  have approve_store: "g_store (snd (approve env a g)) = g_store g" for a by (simp add: approve_def Let_def)
  have digits: "serve_digits env i peer q approved key g = (x, g') \<Longrightarrow> g_store g' = g_store g"
    by (cases q) (auto simp: serve_digits_def digits_answer_def Let_def say_store split: option.splits if_splits prod.splits)
  show ?thesis
  proof (cases q)
    case (RqVisit t d n k c)
    then show ?thesis
      using assms False q approve_store [of "asks env i peer n k False True"]
      by (auto simp: serve_ask_def serve_visit_def Let_def say_store split: if_splits prod.splits bool.splits option.splits)
  next
    case (RqJoin t n k)
    then show ?thesis
      using assms False q approve_store [of "asks env i peer n k True False"]
      by (auto simp: serve_ask_def serve_join_def Let_def say_store split: if_splits prod.splits bool.splits)
  next
    case (RqPair t d n k c)
    then show ?thesis
      using assms False q approve_store [of "asks env i peer n k False False"]
      by (auto simp: serve_ask_def serve_pair_def Let_def say_store split: if_splits prod.splits bool.splits option.splits)
  next
    case (RqShort s)
    then show ?thesis using assms(1) q digits by (simp add: serve_ask_def)
  next
    case (RqShortConfirm s)
    then show ?thesis using assms(1) q digits by (simp add: serve_ask_def)
  qed (use assms(1) q in \<open>auto simp: serve_ask_def Let_def say_store split: if_splits\<close>)
qed (simp add: say_store)

lemma serve_asks_records:
  "devices_apart (g_store g) \<Longrightarrow> serve_asks env i peer qs approved key g = (r, g')
   \<Longrightarrow> (case r of Some (Inr p) \<Rightarrow> recorded i (g_store g) p (g_store g') | _ \<Rightarrow> g_store g' = g_store g)"
proof (induction qs arbitrary: approved key g)
  case (Cons ask qs)
  obtain x g1 where one: "serve_ask env i peer ask approved key g = (x, g1)" by fastforce
  show ?case
  proof (cases x)
    case (GoesOn ap k)
    then have "g_store g1 = g_store g" using serve_ask_store [OF one] by simp
    moreover have "serve_asks env i peer qs ap k g1 = (r, g')" using Cons.prems(2) one GoesOn by simp
    ultimately show ?thesis using Cons.IH [of g1 ap k] Cons.prems(1) by (auto split: option.splits sum.splits)
  next
    case HangsUp
    then show ?thesis using serve_ask_store [OF one] Cons.prems(2) one by auto
  next
    case (Over out1)
    then have "r = Some out1" "g' = g1" using Cons.prems(2) one by simp_all
    moreover have "g_store g1 = g_store g" if "out1 = Inl u" for u using serve_ask_store [OF one] Over that by simp
    moreover have "recorded i (g_store g) p (g_store g1)" if "out1 = Inr p" for p
      using serve_ask_records [OF Cons.prems(1)] one Over that by blast
    ultimately show ?thesis by (cases out1) simp_all
  qed
qed auto

lemma accept_one_records:
  "devices_apart (g_store g) \<Longrightarrow> accept_one env i conns g = (Inr p, g') \<Longrightarrow> recorded i (g_store g) p (g_store g')"
proof (induction conns arbitrary: g)
  case (Cons c conns)
  obtain cert qs where c: "c = (cert, qs)" by (cases c)
  show ?case
  proof (cases cert)
    case None
    then show ?thesis using Cons c by simp
  next
    case (Some peer)
    obtain out1 g1 where one: "serve_asks env i peer qs False None g = (out1, g1)" by fastforce
    note rec = serve_asks_records [OF Cons.prems(1) one]
    show ?thesis
    proof (cases out1)
      case None
      then have "g_store g1 = g_store g" using rec by simp
      then show ?thesis using Cons.IH [of g1] Cons.prems c Some one None by simp
    next
      case (Some o1)
      then show ?thesis using Cons.prems(2) c \<open>cert = Some peer\<close> one rec by (cases o1) auto
    qed
  qed
qed simp

text \<open>C11: A pairing writes one row. When a device has paired, no two devices share an id or a certificate
  if none did before, the certificate the device proved leads to the id it gave, under the name it
  gave: as a guest if the code was a guest's, and otherwise as what that id was recorded as before, or
  as an own device if it was not recorded. Every other device is recorded as it was.\<close>

theorem pairing_records_one_device:
  assumes "devices_apart s" and "host_wait env i conns s = (Inr p, g)"
  shows "devices_apart (g_store g)
    \<and> (\<exists>q. peer_by_fingerprint (ps_db (g_store g)) (pd_fingerprint p) = Some q \<and> tp_id q = pd_device p \<and> tp_name q = pd_name p
        \<and> tp_relation q = (if i_guest i then Guest else case relation_of (ps_db s) (pd_device p) of Some rel \<Rightarrow> rel | None \<Rightarrow> Own))
    \<and> (\<forall>q. tp_id q \<noteq> pd_device p \<longrightarrow> q \<in> set (a_peers (ps_db (g_store g))) \<longleftrightarrow> q \<in> set (a_peers (ps_db s)))"
proof -
  have "accept_one env i conns (hosting_new s) = (Inr p, g)" using assms(2) by (auto simp: host_wait_def split: if_splits)
  from accept_one_records [OF _ this] assms(1) have rec: "recorded i s p (g_store g)" by (simp add: hosting_new_def)
  then obtain q where q: "q \<in> set (a_peers (ps_db (g_store g)))" "tp_id q = pd_device p" "tp_fingerprint q = pd_fingerprint p"
      "tp_name q = pd_name p" "tp_relation q = (if i_guest i then Guest else case relation_of (ps_db s) (pd_device p) of Some r \<Rightarrow> r | None \<Rightarrow> Own)"
    and apart: "devices_apart (g_store g)"
    and others: "{q \<in> set (a_peers (ps_db (g_store g))). tp_id q \<noteq> pd_device p} = {q \<in> set (a_peers (ps_db s)). tp_id q \<noteq> pd_device p}"
    unfolding recorded_def by blast
  have "peer_by_fingerprint (ps_db (g_store g)) (pd_fingerprint p) = Some q" using peers_of(1) [OF apart q(1)] q(3) by simp
  then show ?thesis using apart q(2,4,5) others by auto
qed

text \<open>
  The id a device gives is its own word: only its certificate is proved. A guest that gives the id of
  a device already trusted takes that device's row over, whose own certificate then leads nowhere.
\<close>

lemma guest_takes_over_a_device:
  assumes "devices_apart s" and "own \<in> set (a_peers (ps_db s))" and "tp_relation own = Own" and "tp_fingerprint own \<noteq> peer"
    and "\<forall>q \<in> set (a_peers (ps_db s)). tp_fingerprint q \<noteq> peer"
    and "trust_visitor now (tp_id own) peer name Guest secret s = Some s'"
  shows "peer_by_fingerprint (ps_db s') (tp_fingerprint own) = None
    \<and> (\<exists>q. peer_by_fingerprint (ps_db s') peer = Some q \<and> tp_id q = tp_id own \<and> tp_relation q = Guest)"
proof -
  let ?guest = "\<lambda>q. if tp_id q = tp_id own then q\<lparr>tp_relation := Guest\<rparr> else q"
  obtain s1 where s1: "trust_peer now (tp_id own) peer name s = Some s1"
    and peers: "a_peers (ps_db s') = map ?guest (a_peers (ps_db s1))"
    using assms(6) by (auto simp: trust_visitor_def on_peers_def)
  note rows = trust_peer_rows [OF assms(1) s1]
  obtain q where q: "q \<in> set (a_peers (ps_db s1))" "tp_id q = tp_id own" "tp_fingerprint q = peer"
    using conjunct1 [OF conjunct2 [OF rows]] by blast
  have apart: "devices_apart s'"
    using conjunct1 [OF rows] by (simp add: devices_apart_def peers) (simp add: distinct_map comp_def if_distrib cong: if_cong)
  have "tp_fingerprint x \<noteq> tp_fingerprint own" if x: "x \<in> set (a_peers (ps_db s1))" for x
  proof (cases "tp_id x = tp_id own")
    case True
    have "inj_on tp_id (set (a_peers (ps_db s1)))" using conjunct1 [OF rows] by (simp add: devices_apart_def distinct_map)
    then have "x = q" using True q x by (metis inj_onD)
    then show ?thesis using q(3) assms(4) by simp
  next
    case False
    then have "x \<in> set (a_peers (ps_db s))" using conjunct1 [OF conjunct2 [OF conjunct2 [OF rows]]] x by blast
    moreover have "inj_on tp_fingerprint (set (a_peers (ps_db s)))" using assms(1) by (simp add: devices_apart_def distinct_map)
    ultimately show ?thesis using False assms(2) by (metis inj_onD)
  qed
  then have "peer_by_fingerprint (ps_db s') (tp_fingerprint own) = None"
    by (auto simp: peer_by_fingerprint_def find_None_iff peers)
  moreover have "?guest q \<in> set (a_peers (ps_db s'))" using q(1) by (auto simp: peers)
  from peers_of(1) [OF apart this] have "peer_by_fingerprint (ps_db s') peer = Some (?guest q)" using q by simp
  ultimately show ?thesis using q(2) by auto
qed

subsection \<open>The device joining\<close>

datatype join_error = Expired | DifferentKey | Declined | PairingRefused | NoKeyGiven | Unexpected response | NotAVisit | StoreRefusedHere
  | SetUpFailed | WrongDigits | DigitsWithdrawn | NotOpened | BadInvite bad_invite | AnotherDevice

record joining_env =
  j_crypto :: pairing_crypto
  j_fingerprint :: bytes
  j_name :: string
  j_kind :: string
  j_now :: int

definition pair_request :: "joining_env \<Rightarrow> invite \<Rightarrow> device_id \<Rightarrow> bytes \<Rightarrow> request" where
  "pair_request env i device check = RqPair (i_token i) (as_bytes device) (j_name env) (j_kind env) check"

definition pair_reply :: "joining_env \<Rightarrow> invite \<Rightarrow> bytes \<Rightarrow> response \<Rightarrow> pairing_store \<Rightarrow> (join_error + paired) \<times> pairing_store" where
  \<comment> \<open>\<open>pair_on\<close>, from the answer on\<close>
  "pair_reply env i check reply s =
     (case reply of
        RsPaired device name kind key_check \<Rightarrow>
          (if key_check \<noteq> check then (Inl DifferentKey, s)
           else
             (let host = paired_as (i_fingerprint i) device name kind
              in case trust_peer (j_now env) (pd_device host) (pd_fingerprint host) (pd_name host) s of
                   None \<Rightarrow> (Inl StoreRefusedHere, s)
                 | Some s \<Rightarrow> (Inr host, learn host s)))
      | RsMismatch \<Rightarrow> (Inl DifferentKey, s)
      | RsDeclined \<Rightarrow> (Inl Declined, s)
      | RsNotFound \<Rightarrow> (Inl PairingRefused, s)
      | other \<Rightarrow> (Inl (Unexpected other), s))"

definition join_request :: "joining_env \<Rightarrow> invite \<Rightarrow> request" where
  "join_request env i = RqJoin (i_token i) (j_name env) (j_kind env)"

definition join_reply :: "response \<Rightarrow> join_error + bytes" where
  \<comment> \<open>the key, before this device is set up with it\<close>
  "join_reply reply =
     (case reply of
        RsKey key \<Rightarrow> Inr key
      | RsDeclined \<Rightarrow> Inl Declined
      | RsNotFound \<Rightarrow> Inl NoKeyGiven
      | other \<Rightarrow> Inl (Unexpected other))"

definition visit_request :: "joining_env \<Rightarrow> invite \<Rightarrow> device_id \<Rightarrow> bytes \<Rightarrow> join_error + request" where
  "visit_request env i device person =
     (if \<not> i_guest i then Inl NotAVisit
      else if is_expired (j_now env) i then Inl Expired
      else Inr (RqVisit (i_token i) (as_bytes device) (j_name env) (j_kind env) person))"

definition visit_reply :: "joining_env \<Rightarrow> invite \<Rightarrow> response \<Rightarrow> pairing_store \<Rightarrow> (join_error + paired) \<times> pairing_store" where
  "visit_reply env i reply s =
     (case reply of
        RsWelcome device name kind meeting \<Rightarrow>
          (let host = paired_as (i_fingerprint i) device name kind
           in case trust_visitor (j_now env) (pd_device host) (pd_fingerprint host) (pd_name host) Host meeting s of
                None \<Rightarrow> (Inl StoreRefusedHere, s)
              | Some s \<Rightarrow> (Inr host, learn host s))
      | RsDeclined \<Rightarrow> (Inl Declined, s)
      | RsNotFound \<Rightarrow> (Inl PairingRefused, s)
      | other \<Rightarrow> (Inl (Unexpected other), s))"

definition as_digits :: "string \<Rightarrow> string option" where
  \<comment> \<open>without spaces, the no-break one included, and dashes\<close>
  "as_digits typed =
     (let digits = concat (filter (\<lambda>c. c \<notin> {'' '', ''-'', [CHR 0xC2, CHR 0xA0]}) (chars_of typed))
      in if length digits = 6 \<and> list_all is_ascii_digit digits then Some digits else None)"

definition spaced :: "string \<Rightarrow> string" where
  "spaced digits = (if length digits = 6 then take 3 digits @ '' '' @ drop 3 digits else digits)"

definition short_request :: "joining_env \<Rightarrow> nat \<Rightarrow> string \<Rightarrow> bytes \<Rightarrow> request" where
  \<comment> \<open>the exchange of \<open>short.rs\<close>, as the device whose person typed the digits\<close>
  "short_request env n digits showing = RqShort (pc_half (j_crypto env) False n digits (j_fingerprint env) showing)"

definition short_reply :: "joining_env \<Rightarrow> nat \<Rightarrow> string \<Rightarrow> bytes \<Rightarrow> response \<Rightarrow> join_error + bytes \<times> request" where
  "short_reply env n digits showing reply =
     (let c = j_crypto env
      in case reply of
           RsShort spake confirm \<Rightarrow>
             (case pc_key c False n digits (j_fingerprint env) showing spake of
                None \<Rightarrow> Inl WrongDigits
              | Some k \<Rightarrow> if confirm \<noteq> pc_confirm c k True then Inl WrongDigits else Inr (k, RqShortConfirm (pc_confirm c k False)))
         | RsWithdrawn \<Rightarrow> Inl DigitsWithdrawn
         | _ \<Rightarrow> Inl WrongDigits)"

definition sealed_reply :: "joining_env \<Rightarrow> bytes \<Rightarrow> bytes \<Rightarrow> response \<Rightarrow> join_error + invite" where
  "sealed_reply env showing k reply =
     (case reply of
        RsSealed sealed \<Rightarrow>
          (case pc_open (j_crypto env) k sealed of
             None \<Rightarrow> Inl NotOpened
           | Some code \<Rightarrow>
               (case invite_parse code of
                  Inl e \<Rightarrow> Inl (BadInvite e)
                | Inr i \<Rightarrow> if i_fingerprint i \<noteq> showing then Inl AnotherDevice else Inr i))
      | _ \<Rightarrow> Inl WrongDigits)"

subsection \<open>The two ends together\<close>

definition nobody_else :: "device_id \<Rightarrow> bytes \<Rightarrow> pairing_store \<Rightarrow> bool" where
  \<comment> \<open>no other device is known by the certificate\<close>
  "nobody_else d fp s \<longleftrightarrow> (\<forall>q \<in> set (a_peers (ps_db s)). tp_fingerprint q = fp \<longrightarrow> tp_id q = d)"

lemma trust_peer_some: "nobody_else d fp s \<Longrightarrow> \<exists>s'. trust_peer now d fp name s = Some s'"
  by (auto simp: nobody_else_def trust_peer_def Let_def list_ex_iff)

lemma trusts:
  assumes "devices_apart s" and "trust_peer now d fp name s = Some s'" and "a_peers (ps_db s2) = a_peers (ps_db s')"
  shows "map_option tp_id (peer_by_fingerprint (ps_db s2) fp) = Some d"
proof -
  note rows = trust_peer_rows [OF assms(1,2)]
  obtain q where q: "q \<in> set (a_peers (ps_db s'))" "tp_id q = d" "tp_fingerprint q = fp"
    using conjunct1 [OF conjunct2 [OF rows]] by blast
  have "peer_by_fingerprint (ps_db s') fp = Some q" using peers_of(1) [OF conjunct1 [OF rows] q(1)] q(3) by simp
  then show ?thesis using q(2) assms(3) by (simp add: peer_by_fingerprint_def)
qed

text \<open>C12: Pairing is mutual. A device that reads a code, whether it has the key already or asks for it
  first, and one whose person approves it, end each with the other recorded under the certificate the
  other proved and the id it gave; the person who approved was shown the very number the joining
  device shows; and a device that asked for the key was given it on the way.\<close>

theorem pairing_is_mutual:
  fixes asks_key :: bool
  assumes "devices_apart hs" and "devices_apart js" and "\<not> i_guest i" and "h_now he < sint (i_expires i)"
    and "pd = paired_as (j_fingerprint je) (as_bytes jd) (j_name je) (j_kind je)"
    and "h_approve he [] (asks he i (j_fingerprint je) (j_name je) (j_kind je) asks_key False)"
    and "nobody_else jd (j_fingerprint je) hs" and "nobody_else (h_device he) (i_fingerprint i) js"
  shows "\<exists>g reply host js'.
    host_wait he i [(Some (j_fingerprint je),
      (if asks_key then [Some (join_request je i)] else []) @ [Some (pair_request je i jd (h_check he))])] hs = (Inr pd, g)
    \<and> map (\<lambda>(a, yes). (ak_number a, yes)) (g_asked g) = [(pairing_number (h_crypto he) (i_fingerprint i) (j_fingerprint je) (i_token i), True)]
    \<and> map snd (g_sent g) = (if asks_key then [RsKey (h_key he)] else []) @ [reply] \<and> join_reply (RsKey (h_key he)) = Inr (h_key he)
    \<and> pair_reply je i (h_check he) reply js = (Inr host, js')
    \<and> pd_device pd = jd \<and> pd_device host = h_device he
    \<and> map_option tp_id (peer_by_fingerprint (ps_db (g_store g)) (j_fingerprint je)) = Some jd
    \<and> map_option tp_id (peer_by_fingerprint (ps_db js') (i_fingerprint i)) = Some (h_device he)"
proof -
  let ?jf = "j_fingerprint je" and ?a = "asks he i (j_fingerprint je) (j_name je) (j_kind je) asks_key False"
  let ?reply = "RsPaired (as_bytes (h_device he)) (h_name he) (h_kind he) (h_check he)"
  have ids: "DeviceId (as_bytes d) = d" for d by simp
  have pd: "pd_device pd = jd" "pd_fingerprint pd = ?jf" by (simp_all add: assms(5) paired_as_def)
  obtain hs1 where hs1: "trust_peer (h_now he) jd ?jf (pd_name pd) hs = Some hs1" using trust_peer_some [OF assms(7)] by blast
  let ?host = "paired_as (i_fingerprint i) (as_bytes (h_device he)) (h_name he) (h_kind he)"
  have host: "pd_device ?host = h_device he" "pd_fingerprint ?host = i_fingerprint i" by (simp_all add: paired_as_def)
  obtain js1 where js1: "trust_peer (j_now je) (h_device he) (i_fingerprint i) (pd_name ?host) js = Some js1"
    using trust_peer_some [OF assms(8)] by blast
  let ?sent = "(if asks_key then [(?jf, RsKey (h_key he))] else []) @ [(?jf, ?reply)]"
  define g where "g = (hosting_new hs)\<lparr>g_key_given := asks_key, g_asked := [(?a, True)], g_sent := ?sent, g_store := learn pd hs1\<rparr>"
  have "host_wait he i [(Some ?jf, (if asks_key then [Some (join_request je i)] else []) @ [Some (pair_request je i jd (h_check he))])] hs
      = (Inr pd, g)"
    using assms(3,4,6) hs1 pd(1)
    by (cases asks_key) (simp_all add: host_wait_def serve_ask_def join_request_def pair_request_def serve_join_def serve_pair_def
        approve_def Let_def hosting_new_def say_def g_def flip: assms(5))
  moreover have "pair_reply je i (h_check he) ?reply js = (Inr ?host, learn ?host js1)"
    using js1 host by (simp add: pair_reply_def Let_def)
  moreover have "map_option tp_id (peer_by_fingerprint (ps_db (g_store g)) ?jf) = Some jd"
    by (rule trusts [OF assms(1) hs1]) (simp add: g_def learn_peers)
  moreover have "map_option tp_id (peer_by_fingerprint (ps_db (learn ?host js1)) (i_fingerprint i)) = Some (h_device he)"
    by (rule trusts [OF assms(2) js1]) (simp add: learn_peers)
  moreover have "map (\<lambda>(a, yes). (ak_number a, yes)) (g_asked g) = [(pairing_number (h_crypto he) (i_fingerprint i) ?jf (i_token i), True)]"
    by (simp add: g_def asks_def)
  moreover have "map snd (g_sent g) = (if asks_key then [RsKey (h_key he)] else []) @ [?reply]" by (simp add: g_def)
  ultimately show ?thesis using pd(1) host(1) by (simp add: join_reply_def)
qed

definition pake_agrees :: "pairing_crypto \<Rightarrow> bool" where
  \<comment> \<open>SPAKE2 with the same password and identities, and sealing\<close>
  "pake_agrees c \<longleftrightarrow>
     (\<forall>n m digits typing showing. \<exists>k. pc_key c True n digits typing showing (pc_half c False m digits typing showing) = Some k
        \<and> pc_key c False m digits typing showing (pc_half c True n digits typing showing) = Some k)
     \<and> (\<forall>n k code. pc_open c k (pc_seal c n k code) = Some code)"

lemma chars_of_ascii: "\<forall>c \<in> set s. \<not> cont_byte c \<Longrightarrow> chars_of s = map (\<lambda>c. [c]) s"
proof (induction s)
  case (Cons c s)
  then have "takeWhile cont_byte s = []" "dropWhile cont_byte s = s" by (cases s; simp)+
  then show ?case using Cons by simp
qed simp

lemma as_digits_spaced:
  assumes "length d = 6" and "list_all is_ascii_digit d"
  shows "as_digits (spaced d) = Some d"
proof -
  have digit: "48 \<le> (of_char c :: nat) \<and> (of_char c :: nat) \<le> 57" if "c \<in> set d" for c
    using assms(2) that by (simp add: list_all_iff is_ascii_digit_def)
  let ?Q = "\<lambda>c. [c] \<notin> {'' '', ''-'', [CHR 0xC2, CHR 0xA0]}"
  have parts: "set (take 3 d) \<subseteq> set d" "set (drop 3 d) \<subseteq> set d" by (rule set_take_subset, rule set_drop_subset)
  have space: "\<not> cont_byte CHR '' ''" by (rule cont_byte_not_ascii) simp
  have ascii: "\<not> cont_byte c \<and> ?Q c" if "c \<in> set d" for c
    using digit [OF that] cont_byte_not_ascii [of c] by auto
  have plain: "\<forall>c \<in> set (spaced d). \<not> cont_byte c"
    using assms(1) parts ascii space by (auto simp: spaced_def)
  have "filter ?Q (take 3 d) = take 3 d" "filter ?Q (drop 3 d) = drop 3 d"
    using parts ascii by (simp_all only: filter_id_conv) blast+
  then have "filter ?Q (spaced d) = take 3 d @ drop 3 d"
    using assms(1) by (simp add: spaced_def)
  moreover have "concat (filter P (map (\<lambda>c. [c]) s)) = filter (\<lambda>c. P [c]) s" for P and s :: string
    by (induction s) auto
  ultimately show ?thesis
    using assms chars_of_ascii [OF plain] by (simp add: as_digits_def)
qed

text \<open>C13: Six digits stand for the code. While tries are left, a device that is given the digits shown
  and sees the certificate of the device showing them gets in two requests the invite that device
  shows, whole, and is turned away from nothing: the try it spent is given back.\<close>

theorem digits_fetch_the_code:
  assumes "pake_agrees (h_crypto he)" and "j_crypto je = h_crypto he" and "digits_shown he g = Some digits"
    and "length digits = 6" and "list_all is_ascii_digit digits" and "invite_ok i"
  shows "as_digits (spaced digits) = Some digits \<and> (\<exists>reply k confirm sealed g'.
    serve_asks he i (j_fingerprint je) [Some (short_request je n digits (i_fingerprint i)), Some confirm] False None g = (None, g')
    \<and> g_sent g' = g_sent g @ [(j_fingerprint je, reply), (j_fingerprint je, sealed)]
    \<and> short_reply je n digits (i_fingerprint i) reply = Inr (k, confirm)
    \<and> sealed_reply je (i_fingerprint i) k sealed = Inr i \<and> g_tries g' = g_tries g)"
proof -
  let ?c = "h_crypto he" and ?jf = "j_fingerprint je" and ?hf = "i_fingerprint i" and ?m = "length (g_sent g)"
  have digits: "h_digits he = digits" "g_tries g > 0" using assms(3) by (auto simp: digits_shown_def split: if_splits)
  obtain k where k: "pc_key ?c True ?m digits ?jf ?hf (pc_half ?c False n digits ?jf ?hf) = Some k"
      "pc_key ?c False n digits ?jf ?hf (pc_half ?c True ?m digits ?jf ?hf) = Some k"
    using assms(1) unfolding pake_agrees_def by blast
  let ?reply = "RsShort (pc_half ?c True ?m digits ?jf ?hf) (pc_confirm ?c k True)"
  let ?sealed = "RsSealed (pc_seal ?c (Suc ?m) k (invite_encode i))"
  let ?g1 = "say ?jf ?reply (g\<lparr>g_tries := g_tries g - 1\<rparr>)"
  have one: "serve_ask he i ?jf (Some (short_request je n digits ?hf)) False None g = (GoesOn False (Some k), ?g1)"
    using digits k(1) by (simp add: serve_ask_def short_request_def serve_digits_def digits_answer_def assms(2) Let_def)
  have two: "serve_ask he i ?jf (Some (RqShortConfirm (pc_confirm ?c k False))) False (Some k) ?g1
      = (HangsUp, say ?jf ?sealed (?g1\<lparr>g_tries := g_tries g\<rparr>))"
    using digits(2) by (simp add: serve_ask_def serve_digits_def digits_answer_def Let_def say_def)
  have "short_reply je n digits ?hf ?reply = Inr (k, RqShortConfirm (pc_confirm ?c k False))"
    using k(2) by (simp add: short_reply_def assms(2))
  moreover have "sealed_reply je ?hf k ?sealed = Inr i"
  proof -
    have "pc_open ?c k (pc_seal ?c (Suc ?m) k (invite_encode i)) = Some (invite_encode i)" using assms(1) by (simp add: pake_agrees_def)
    moreover have "invite_parse (invite_encode i) = Inr i" using invite_reads_back [OF assms(6)] by blast
    ultimately show ?thesis by (simp add: sealed_reply_def assms(2))
  qed
  ultimately show ?thesis
    using one two
    by (intro conjI [OF as_digits_spaced [OF assms(4,5)]], intro exI [of _ ?reply], intro exI [of _ k],
        intro exI [of _ "RqShortConfirm (pc_confirm ?c k False)"], intro exI [of _ ?sealed],
        intro exI [of _ "say ?jf ?sealed (?g1\<lparr>g_tries := g_tries g\<rparr>)"]) (simp add: say_def)
qed

subsection \<open>A laptop shows a code to a phone\<close>

definition plain_crypto :: pairing_crypto where
  "plain_crypto = \<lparr>pc_number = (\<lambda>h j t. h @ j @ t), pc_half = (\<lambda>_ _ d _ _. str_bytes d), pc_key = (\<lambda>_ _ d _ _ _. Some (str_bytes d)),
     pc_confirm = (\<lambda>k b. of_bool b # k), pc_seal = (\<lambda>_ _ code. str_bytes code), pc_open = (\<lambda>_ b. Some (bytes_str b))\<rparr>"

definition nobody_known :: "device_id \<Rightarrow> pairing_store" where
  "nobody_known self = \<lparr>ps_db = \<lparr>a_index = index_new self, a_peers = [], a_kind = (\<lambda>_. None), a_install = (\<lambda>_. None), a_said = (\<lambda>_. Unsaid),
      a_person = (\<lambda>_. None), a_holders = [], a_outside = False, a_shares = [], a_members = []\<rparr>,
     ps_meetings = (\<lambda>_. None), ps_local_kind = None, ps_defaulted = False\<rparr>"

definition laptop_hosts :: hosting_env where
  "laptop_hosts = \<lparr>h_crypto = plain_crypto, h_name = ''Laptop'', h_kind = ''computer'', h_key = [3], h_check = [4], h_device = DeviceId [1],
     h_digits = ''482913'', h_approve = (\<lambda>_ _. True), h_random = (\<lambda>_. [5]), h_now = 1700000000\<rparr>"

definition phone_joins :: joining_env where
  "phone_joins = \<lparr>j_crypto = plain_crypto, j_fingerprint = [8], j_name = ''Phone'', j_kind = ''phone'', j_now = 1700000000\<rparr>"

definition joining_run :: "(bytes option \<times> request option list) list" where
  \<comment> \<open>a stranger without the token, one whose message does not decode, and the phone\<close>
  "joining_run = [(Some [6], [Some (RqJoin [0] ''x'' ''phone'')]), (None, []), (Some [7], [None]),
     (Some [8], [Some (join_request phone_joins sample_invite), Some (pair_request phone_joins sample_invite (DeviceId [2]) [4])])]"

lemma nobody_apart: "devices_apart (nobody_known self)"
  by (simp add: devices_apart_def nobody_known_def)

lemma sample_unexpired: "h_now laptop_hosts < sint (i_expires sample_invite)" "\<not> i_guest sample_invite" "invite_ok sample_invite"
  by (simp_all add: laptop_hosts_def sample_invite_def invite_ok_def)

lemma joining_run_pairs: "\<exists>p g. host_wait laptop_hosts sample_invite joining_run (nobody_known (DeviceId [1])) = (Inr p, g)
    \<and> pd_device p = DeviceId [2] \<and> pd_fingerprint p = [8] \<and> length (g_asked g) = 1"
proof -
  have "sint (i_expires sample_invite) - h_now laptop_hosts > 0" using sample_unexpired by simp
  then show ?thesis
    by (simp add: host_wait_def joining_run_def serve_ask_def join_request_def pair_request_def serve_join_def serve_pair_def trust_peer_def
        approve_def Let_def hosting_new_def say_def nobody_known_def paired_as_def laptop_hosts_def phone_joins_def sample_invite_def
        Cons_replicate_eq)
qed

theorem pairing_needs_the_person_witness:
  "\<exists>p g. host_wait laptop_hosts sample_invite joining_run (nobody_known (DeviceId [1])) = (Inr p, g) \<and> sent_of is_key g \<le> 1
     \<and> (\<exists>a. (a, True) \<in> set (g_asked g) \<and> approved_as laptop_hosts sample_invite [8] a)"
proof -
  obtain p g where run: "host_wait laptop_hosts sample_invite joining_run (nobody_known (DeviceId [1])) = (Inr p, g)" "pd_fingerprint p = [8]"
    using joining_run_pairs by blast
  from pairing_needs_the_person [OF run(1)] show ?thesis using run by auto
qed

definition digits_run :: "(bytes option \<times> request option list) list" where
  \<comment> \<open>two devices type digits: one guesses, the other has read them\<close>
  "digits_run = map (\<lambda>(peer, typed). (Some peer, [Some (RqShort []), Some (RqShortConfirm (pc_confirm plain_crypto (str_bytes typed) False))]))
     [([9], ''111111''), ([8], ''482913'')]"

lemma digits_run_seals: "\<exists>g reply. host_wait laptop_hosts sample_invite digits_run (nobody_known (DeviceId [1])) = (Inl PairingAbandoned, g)
    \<and> g_tries g = 4 \<and> sent_of is_short g = 2 \<and> sent_of is_sealed g = 1 \<and> ([8], reply) \<in> set (g_sent g) \<and> is_sealed ([8], reply)"
proof -
  have "str_bytes ''111111'' \<noteq> str_bytes ''482913''" by code_simp
  moreover have "sint (i_expires sample_invite) - h_now laptop_hosts > 0" using sample_unexpired by simp
  ultimately show ?thesis
    by (simp add: host_wait_def digits_run_def serve_ask_def serve_digits_def digits_answer_def Let_def hosting_new_def say_def TRIES_def
        laptop_hosts_def plain_crypto_def) (blast intro: is_sealed.simps(1) [THEN iffD2, OF TrueI])
qed

theorem digits_are_tried_five_times_witness:
  "\<exists>g reply qs. host_wait laptop_hosts sample_invite digits_run (nobody_known (DeviceId [1])) = (Inl PairingAbandoned, g)
     \<and> g_tries g = 4 \<and> g_tries g + sent_of is_short g \<le> 5 + sent_of is_sealed g
     \<and> ([8], reply) \<in> set (g_sent g) \<and> (Some [8], qs) \<in> set digits_run \<and> proved_digits laptop_hosts sample_invite qs [8] reply"
proof -
  obtain g reply where run: "host_wait laptop_hosts sample_invite digits_run (nobody_known (DeviceId [1])) = (Inl PairingAbandoned, g)"
    "g_tries g = 4" "([8], reply) \<in> set (g_sent g)" "is_sealed ([8], reply)"
    using digits_run_seals by blast
  from digits_are_tried_five_times [OF run(1)] show ?thesis using run by blast
qed

theorem pairing_records_one_device_witness:
  "\<exists>p g q. host_wait laptop_hosts sample_invite joining_run (nobody_known (DeviceId [1])) = (Inr p, g) \<and> devices_apart (g_store g)
     \<and> peer_by_fingerprint (ps_db (g_store g)) [8] = Some q \<and> tp_id q = DeviceId [2]"
proof -
  obtain p g where run: "host_wait laptop_hosts sample_invite joining_run (nobody_known (DeviceId [1])) = (Inr p, g)"
    "pd_device p = DeviceId [2]" "pd_fingerprint p = [8]"
    using joining_run_pairs by blast
  from pairing_records_one_device [OF nobody_apart run(1)] show ?thesis using run by auto
qed

theorem pairing_is_mutual_witness:
  "\<exists>g reply host js'.
    host_wait laptop_hosts sample_invite [(Some [8], [Some (join_request phone_joins sample_invite),
        Some (pair_request phone_joins sample_invite (DeviceId [2]) [4])])] (nobody_known (DeviceId [1]))
      = (Inr (paired_as [8] [2] ''Phone'' ''phone''), g)
    \<and> map snd (g_sent g) = [RsKey [3], reply]
    \<and> pair_reply phone_joins sample_invite [4] reply (nobody_known (DeviceId [2])) = (Inr host, js') \<and> pd_device host = DeviceId [1]"
proof -
  have free: "nobody_else d fp (nobody_known self)" for d fp self by (simp add: nobody_else_def nobody_known_def)
  have env: "j_fingerprint phone_joins = [8]" "j_name phone_joins = ''Phone''" "j_kind phone_joins = ''phone''" "h_check laptop_hosts = [4]"
    "h_key laptop_hosts = [3]" "h_device laptop_hosts = DeviceId [1]" "\<And>x y. h_approve laptop_hosts x y"
    by (simp_all add: phone_joins_def laptop_hosts_def)
  from pairing_is_mutual [where je = phone_joins and jd = "DeviceId [2]" and asks_key = True,
      OF nobody_apart nobody_apart sample_unexpired(2,1) refl _ free free, of "DeviceId [1]" "DeviceId [2]"]
  show ?thesis unfolding env by (auto simp: env)
qed

theorem digits_fetch_the_code_witness:
  "as_digits (spaced ''482913'') = Some ''482913'' \<and> (\<exists>reply k confirm sealed g'.
    serve_asks laptop_hosts sample_invite [8] [Some (short_request phone_joins 0 ''482913'' (i_fingerprint sample_invite)), Some confirm] False None
        (hosting_new (nobody_known (DeviceId [1]))) = (None, g')
    \<and> short_reply phone_joins 0 ''482913'' (i_fingerprint sample_invite) reply = Inr (k, confirm)
    \<and> sealed_reply phone_joins (i_fingerprint sample_invite) k sealed = Inr sample_invite \<and> g_tries g' = 5)"
proof -
  have "pake_agrees (h_crypto laptop_hosts)" by (simp add: pake_agrees_def laptop_hosts_def plain_crypto_def)
  moreover have "j_crypto phone_joins = h_crypto laptop_hosts" by (simp add: phone_joins_def laptop_hosts_def)
  moreover have "digits_shown laptop_hosts (hosting_new (nobody_known (DeviceId [1]))) = Some ''482913''"
    by (simp add: digits_shown_def hosting_new_def TRIES_def laptop_hosts_def)
  moreover have "length ''482913'' = 6" "list_all is_ascii_digit ''482913''" by (simp_all add: is_ascii_digit_def)
  moreover have "g_tries (hosting_new (nobody_known (DeviceId [1]))) = 5" "j_fingerprint phone_joins = [8]"
    by (simp_all add: hosting_new_def TRIES_def phone_joins_def)
  ultimately show ?thesis using digits_fetch_the_code [OF _ _ _ _ _ sample_unexpired(3), of laptop_hosts phone_joins _ _ 0] by metis
qed

end
