(* ===== verification/Sealed.thy ===== *)
theory Sealed imports Rust_Str Version "HOL-Library.Monad_Syntax"
begin

section \<open>A vault sealed for another person's computer (\<open>crates/storage/src/sealed.rs\<close>)\<close>

text \<open>
  A guest's file as the computer that keeps it sees it: a sealed name for a path, and a stream of a
  sealed header and sealed chunks, read back from pieces cut anywhere. The keyed hash (BLAKE3) and
  the cipher (XChaCha20-Poly1305) are parameters; sealing in memory does not fail. The header's
  length is a \<open>u32\<close>, and what a file says of itself is read back only under the guest's key.
\<close>

unbundle bit_operations_syntax

subsection \<open>base64url\<close>

definition URL_ALPHABET :: string where
  "URL_ALPHABET = ''ABCDEFGHIJKLMNOPQRSTUVWXYZabcdefghijklmnopqrstuvwxyz0123456789-_''"

function chunks_of :: "nat \<Rightarrow> 'a list \<Rightarrow> 'a list list" where
  \<comment> \<open>\<open>chunks(n)\<close>\<close>
  "chunks_of n xs = (if xs = [] \<or> n = 0 then [] else take n xs # chunks_of n (drop n xs))"
  by pat_completeness auto
termination by (relation "measure (length \<circ> snd)") auto

declare chunks_of.simps [simp del]

definition group_number :: "bytes \<Rightarrow> u32" where
  "group_number g3 = fold (\<lambda>(i, b) n. n OR push_bit (16 - 8 * i) (ucast b)) (enumerate 0 g3) 0"

definition url_values :: "bytes \<Rightarrow> u32 list" where
  "url_values g3 =
     (let n = group_number g3 in map (\<lambda>i. drop_bit (18 - 6 * i) n AND 63) [0..<Suc (length g3)])"

definition base64_encode :: "bytes \<Rightarrow> string" where
  "base64_encode bs = concat (map (\<lambda>g3. map (\<lambda>v. URL_ALPHABET ! unat v) (url_values g3)) (chunks_of 3 bs))"

fun position :: "'a list \<Rightarrow> 'a \<Rightarrow> nat option" where
  "position [] c = None"
| "position (a # as) c = (if a = c then Some 0 else map_option Suc (position as c))"

definition url_bytes :: "u32 list \<Rightarrow> bytes" where
  "url_bytes g3 =
     (let n = fold (\<lambda>(i, v) n. n OR push_bit (18 - 6 * i) v) (enumerate 0 g3) 0
      in map (\<lambda>i. ucast (drop_bit (16 - 8 * i) n)) [0..<length g3 - 1])"

definition base64_decode :: "string \<Rightarrow> bytes option" where
  "base64_decode text =
     (case those (map (\<lambda>c. map_option word_of_nat (position URL_ALPHABET c)) text) of
        None \<Rightarrow> None
      | Some values \<Rightarrow>
          if length values mod 4 = 1 then None else Some (concat (map url_bytes (chunks_of 4 values))))"

lemma byte_eqI:
  fixes v w :: u8
  assumes "bit v 0 = bit w 0" "bit v 1 = bit w 1" "bit v 2 = bit w 2" "bit v 3 = bit w 3"
    "bit v 4 = bit w 4" "bit v 5 = bit w 5" "bit v 6 = bit w 6" "bit v 7 = bit w 7"
  shows "v = w"
proof (rule bit_word_eqI)
  fix n assume "n < LENGTH(8)"
  then have "n \<in> {0, 1, 2, 3, 4, 5, 6, 7}" by auto
  then show "bit v n = bit w n" using assms by blast
qed

lemma url_group_back:
  assumes "g \<noteq> []" and "length g \<le> 3"
  shows "url_bytes (url_values g) = g"
proof -
  have low: "bit (63 :: u32) i \<longleftrightarrow> i < 6" for i
    using bit_mask_iff [where ?'a = u32, of 6 i] by (auto simp: mask_eq_exp_minus_1)
  have high: "\<not> bit (b :: u8) (numeral k)" if "8 \<le> (numeral k :: nat)" for b k
    using that bit_imp_le_length [of b "numeral k"] by auto
  note defs = url_bytes_def url_values_def group_number_def Let_def enumerate_eq_zip upt_rec
  consider a where "g = [a]" | a b where "g = [a, b]" | a b c where "g = [a, b, c]"
    using assms by (cases g; cases "tl g"; cases "tl (tl g)") auto
  then show ?thesis
    by cases (simp_all add: defs, (intro conjI byte_eqI; simp add: bit_simps low high)+)
qed

lemma url_value_lt: "v \<in> set (url_values g) \<Longrightarrow> unat v < 64"
proof -
  assume "v \<in> set (url_values g)"
  then obtain w :: u32 where v: "v = w AND 63" by (auto simp: url_values_def Let_def)
  have "v = take_bit 6 w" by (simp add: v take_bit_eq_mask mask_eq_exp_minus_1)
  then have "unat v = take_bit 6 (unat w)" by (simp add: unsigned_take_bit_eq)
  then show ?thesis using take_bit_nat_less_exp [of 6 "unat w"] by simp
qed

lemma length_url_values [simp]: "length (url_values g) = Suc (length g)"
  by (simp add: url_values_def Let_def)

lemma position_nth: "distinct as \<Longrightarrow> k < length as \<Longrightarrow> position as (as ! k) = Some k"
  by (induction as arbitrary: k) (auto simp: nth_Cons split: nat.splits)

lemma url_alphabet: "distinct URL_ALPHABET" "length URL_ALPHABET = 64"
  unfolding URL_ALPHABET_def by simp_all

lemma position_url: "unat (v :: u32) < 64 \<Longrightarrow> map_option word_of_nat (position URL_ALPHABET (URL_ALPHABET ! unat v)) = Some v"
  using position_nth [OF url_alphabet(1), of "unat v"] by (simp add: url_alphabet(2))

lemma those_map: "(\<And>x. x \<in> set xs \<Longrightarrow> f x = Some (h x)) \<Longrightarrow> those (map f xs) = Some (map h xs)"
  by (induction xs) auto

lemma chunks_of_cut:
  assumes "n > 0"
  shows "chunks_of n [] = []" and "xs \<noteq> [] \<Longrightarrow> length xs \<le> n \<Longrightarrow> chunks_of n xs = [xs]"
    and "length ys = n \<Longrightarrow> chunks_of n (ys @ xs) = ys # chunks_of n xs"
  using assms by (auto simp: chunks_of.simps [of n "[]"] chunks_of.simps [of n xs] chunks_of.simps [of n "ys @ xs"])

lemma url_groups_back:
  "let values = concat (map url_values (chunks_of 3 bs))
   in length values mod 4 \<noteq> 1 \<and> concat (map url_bytes (chunks_of 4 values)) = bs"
proof (induction "3 :: nat" bs rule: chunks_of.induct)
  case (1 bs)
  show ?case
  proof (cases "length bs \<le> 3")
    case True
    show ?thesis
    proof (cases "bs = []")
      case False
      have "url_values bs \<noteq> []" using length_url_values [of bs] by (metis length_0_conv nat.simps(3))
      then have "chunks_of 4 (url_values bs) = [url_values bs]" using True by (intro chunks_of_cut(2)) simp_all
      moreover have "Suc (length bs) mod 4 \<noteq> 1" using True False
        by (cases bs; cases "tl bs"; cases "tl (tl bs)") auto
      ultimately show ?thesis using False True by (simp add: chunks_of_cut(2) Let_def url_group_back)
    qed (simp add: chunks_of_cut(1))
  next
    case False
    then have cut: "chunks_of 3 bs = take 3 bs # chunks_of 3 (drop 3 bs)" by (subst chunks_of.simps) auto
    have group: "length (take 3 bs) = 3" "take 3 bs \<noteq> []" "bs \<noteq> []" using False by auto
    let ?rest = "concat (map url_values (chunks_of 3 (drop 3 bs)))"
    have "length ?rest mod 4 \<noteq> 1" "concat (map url_bytes (chunks_of 4 ?rest)) = drop 3 bs"
      using 1 group(3) by (auto simp: Let_def)
    moreover have "chunks_of 4 (url_values (take 3 bs) @ ?rest) = url_values (take 3 bs) # chunks_of 4 ?rest"
      by (rule chunks_of_cut(3)) (use group in simp_all)
    ultimately show ?thesis
      using group by (simp add: cut Let_def url_group_back)
  qed
qed

lemma base64_round_trip: "base64_decode (base64_encode bs) = Some bs"
proof -
  let ?vs = "concat (map url_values (chunks_of 3 bs))"
  have coded: "base64_encode bs = map (\<lambda>v. URL_ALPHABET ! unat v) ?vs"
    by (simp add: base64_encode_def map_concat o_def)
  have "those (map (\<lambda>c. map_option word_of_nat (position URL_ALPHABET c)) (base64_encode bs)) = Some (map id ?vs)"
    unfolding coded map_map
  proof (rule those_map)
    fix v assume "v \<in> set ?vs"
    then have "unat v < 64" using url_value_lt by auto
    then show "((\<lambda>c. map_option word_of_nat (position URL_ALPHABET c)) \<circ> (\<lambda>v. URL_ALPHABET ! unat v)) v = Some (id v)"
      using position_url [of v] by simp
  qed
  then show ?thesis using url_groups_back [of bs] by (simp add: base64_decode_def Let_def)
qed

subsection \<open>Sealing under a key\<close>

record folder_crypto =
  fc_hash :: "bytes \<Rightarrow> bytes \<Rightarrow> bytes" \<comment> \<open>keyed: the key, the input\<close>
  fc_encrypt :: "bytes \<Rightarrow> bytes \<Rightarrow> bytes \<Rightarrow> bytes" \<comment> \<open>the key, the nonce, the plain text\<close>
  fc_decrypt :: "bytes \<Rightarrow> bytes \<Rightarrow> bytes \<Rightarrow> bytes option"

definition NONCE_LEN :: nat where "NONCE_LEN = 24"

definition MARK :: char where "MARK = CHR ''~''"

definition MAX_SEALED_PATH :: nat where "MAX_SEALED_PATH = 2000"

definition SEAL_OVERHEAD :: nat where "SEAL_OVERHEAD = NONCE_LEN + 16"

definition for_host :: "folder_crypto \<Rightarrow> bytes \<Rightarrow> device_id \<Rightarrow> bytes" where
  "for_host c chunk_key host = fc_hash c chunk_key (str_bytes ''qurb/sealed-folder/v1'' @ as_bytes host)"

definition sub_key :: "folder_crypto \<Rightarrow> bytes \<Rightarrow> string \<Rightarrow> bytes" where
  "sub_key c key label = fc_hash c key (str_bytes label)"

definition seal_with :: "folder_crypto \<Rightarrow> bytes \<Rightarrow> string \<Rightarrow> bytes \<Rightarrow> bytes" where
  "seal_with c key label plain =
     (let nonce = take NONCE_LEN (fc_hash c (sub_key c key label) plain)
      in nonce @ fc_encrypt c (sub_key c key ''cipher'') nonce plain)"

definition open_with :: "folder_crypto \<Rightarrow> bytes \<Rightarrow> bytes \<Rightarrow> bytes option" where
  "open_with c key sealed =
     (if length sealed < NONCE_LEN then None
      else fc_decrypt c (sub_key c key ''cipher'') (take NONCE_LEN sealed) (drop NONCE_LEN sealed))"

definition seal_chunk :: "folder_crypto \<Rightarrow> bytes \<Rightarrow> bytes \<Rightarrow> bytes" where
  "seal_chunk c key plain = seal_with c key ''nonce'' plain"

definition open_chunk :: "folder_crypto \<Rightarrow> bytes \<Rightarrow> bytes \<Rightarrow> bytes option" where
  "open_chunk c key sealed = open_with c key sealed"

definition seal_name :: "folder_crypto \<Rightarrow> bytes \<Rightarrow> string \<Rightarrow> string option" where
  "seal_name c key logical =
     (if length logical > MAX_SEALED_PATH then None
      else Some (MARK # base64_encode (seal_with c key ''name-nonce'' (str_bytes logical))))"

definition open_name :: "folder_crypto \<Rightarrow> bytes \<Rightarrow> string \<Rightarrow> string option" where
  "open_name c key sealed =
     do {
       coded \<leftarrow> strip_prefix sealed [MARK];
       bytes \<leftarrow> base64_decode coded;
       plain \<leftarrow> open_with c key bytes;
       from_utf8 plain
     }"

definition is_sealed_name :: "string \<Rightarrow> bool" where
  "is_sealed_name logical \<longleftrightarrow> starts_with logical [MARK] \<and> CHR ''/'' \<notin> set logical"

subsection \<open>The header\<close>

record sealed_meta =
  sm_path :: string
  sm_size :: u64
  sm_content :: bytes
  sm_modified :: i64
  sm_chunks :: "u32 list"

definition header_plain :: "sealed_meta \<Rightarrow> bytes" where
  "header_plain m =
     str_bytes ''QRBH'' @ u32_le (length (sm_path m)) @ str_bytes (sm_path m) @ u64_le (sm_size m) @ sm_content m
     @ u64_le (sm_modified m) @ u32_le (length (sm_chunks m)) @ concat (map (\<lambda>len. u32_le (unat len)) (sm_chunks m))"

definition seal_header :: "folder_crypto \<Rightarrow> bytes \<Rightarrow> sealed_meta \<Rightarrow> bytes" where
  "seal_header c key m = (let sealed = seal_chunk c key (header_plain m) in u32_le (length sealed) @ sealed)"

definition bite :: "bytes \<Rightarrow> nat \<Rightarrow> (bytes \<times> bytes) option" where
  "bite r n = (if length r < n then None else Some (take n r, drop n r))"

fun bite_lengths :: "nat \<Rightarrow> bytes \<Rightarrow> (u32 list \<times> bytes) option" where
  "bite_lengths 0 r = Some ([], r)"
| "bite_lengths (Suc n) r =
     do {
       (w, r) \<leftarrow> bite r 4;
       (ws, r) \<leftarrow> bite_lengths n r;
       Some (word_of_nat (le_val w) # ws, r)
     }"

definition header_read :: "bytes \<Rightarrow> sealed_meta option" where
  "header_read r =
     do {
       (w, r) \<leftarrow> bite r 4;
       (logical, r) \<leftarrow> bite r (le_val w);
       logical \<leftarrow> from_utf8 logical;
       (sz, r) \<leftarrow> bite r 8;
       (hash, r) \<leftarrow> bite r 32;
       (time, r) \<leftarrow> bite r 8;
       (w, r) \<leftarrow> bite r 4;
       if le_val w > length r div 4 then None
       else do {
         (chunks, r) \<leftarrow> bite_lengths (le_val w) r;
         if r = []
         then Some \<lparr>sm_path = logical, sm_size = u64_of_le sz, sm_content = hash, sm_modified = u64_of_le time, sm_chunks = chunks\<rparr>
         else None
       }
     }"

definition open_header :: "folder_crypto \<Rightarrow> bytes \<Rightarrow> bytes \<Rightarrow> sealed_meta option" where
  "open_header c key start =
     do {
       (w, r) \<leftarrow> bite start 4;
       (sealed, _) \<leftarrow> bite r (le_val w);
       plain \<leftarrow> open_chunk c key sealed;
       if take 4 plain = str_bytes ''QRBH'' then header_read (drop 4 plain) else None
     }"

subsection \<open>Reading a sealed file back\<close>

datatype unseal_error = HeaderDoesNotOpen | ChunkDoesNotOpen

record unsealer =
  un_key :: bytes
  un_pending :: bytes
  un_meta :: "sealed_meta option"
  un_next :: nat

definition unsealer_new :: "bytes \<Rightarrow> unsealer" where
  "unsealer_new key = \<lparr>un_key = key, un_pending = [], un_meta = None, un_next = 0\<rparr>"

function open_ready :: "folder_crypto \<Rightarrow> sealed_meta \<Rightarrow> unsealer \<Rightarrow> unseal_error + bytes list \<times> unsealer" where
  "open_ready c m u =
     (if un_next u \<ge> length (sm_chunks m) then Inr ([], u)
      else
        (let sealed = unat (sm_chunks m ! un_next u) + SEAL_OVERHEAD
         in if length (un_pending u) < sealed then Inr ([], u)
            else case open_chunk c (un_key u) (take sealed (un_pending u)) of
                None \<Rightarrow> Inl ChunkDoesNotOpen
              | Some plain \<Rightarrow>
                  and_then (open_ready c m (u\<lparr>un_pending := drop sealed (un_pending u), un_next := un_next u + 1\<rparr>))
                    (\<lambda>(out, u). Inr (plain # out, u))))"
  by pat_completeness auto
termination by (relation "measure (\<lambda>(c, m, u). length (sm_chunks m) - un_next u)") auto

declare open_ready.simps [simp del]

definition push :: "folder_crypto \<Rightarrow> unsealer \<Rightarrow> bytes \<Rightarrow> unseal_error + bytes list \<times> unsealer" where
  "push c u piece =
     (let u = u\<lparr>un_pending := un_pending u @ piece\<rparr>; pending = un_pending u
      in case un_meta u of
           Some m \<Rightarrow> open_ready c m u
         | None \<Rightarrow>
             (if length pending < 4 then Inr ([], u)
              else
                (let fin = 4 + le_val (take 4 pending)
                 in if length pending < fin then Inr ([], u)
                    else case open_header c (un_key u) (take fin pending) of
                        None \<Rightarrow> Inl HeaderDoesNotOpen
                      | Some m \<Rightarrow> open_ready c m (u\<lparr>un_pending := drop fin pending, un_meta := Some m\<rparr>))))"

definition unseal_finished :: "unsealer \<Rightarrow> bool" where
  "unseal_finished u \<longleftrightarrow>
     (case un_meta u of Some m \<Rightarrow> un_next u = length (sm_chunks m) | None \<Rightarrow> False) \<and> un_pending u = []"

fun push_all :: "folder_crypto \<Rightarrow> unsealer \<Rightarrow> bytes list \<Rightarrow> unseal_error + bytes list \<times> unsealer" where
  \<comment> \<open>the pieces of a file, one after another\<close>
  "push_all c u [] = Inr ([], u)"
| "push_all c u (p # ps) = and_then (push c u p) (\<lambda>(out, u). and_then (push_all c u ps) (\<lambda>(more, u). Inr (out @ more, u)))"

subsection \<open>A name read back\<close>

definition crypto_ok :: "folder_crypto \<Rightarrow> bool" where
  \<comment> \<open>BLAKE3 gives 32 bytes; the cipher adds a tag of 16 and opens what it sealed\<close>
  "crypto_ok c \<longleftrightarrow> (\<forall>k x. length (fc_hash c k x) = 32)
     \<and> (\<forall>k n x. length (fc_encrypt c k n x) = length x + 16 \<and> fc_decrypt c k n (fc_encrypt c k n x) = Some x)"

lemma seal_with_opens:
  assumes "crypto_ok c"
  shows "open_with c key (seal_with c key label plain) = Some plain"
    and "length (seal_with c key label plain) = length plain + SEAL_OVERHEAD"
  using assms by (simp_all add: crypto_ok_def open_with_def seal_with_def Let_def NONCE_LEN_def SEAL_OVERHEAD_def)

lemma chunk_opens:
  assumes "crypto_ok c"
  shows "open_chunk c key (seal_chunk c key plain) = Some plain"
    and "length (seal_chunk c key plain) = length plain + SEAL_OVERHEAD"
  using assms by (simp_all add: open_chunk_def seal_chunk_def seal_with_opens)

lemma length_base64: "length (base64_encode bs) \<le> 2 * length bs"
proof (induction "3 :: nat" bs rule: chunks_of.induct)
  case (1 bs)
  show ?case
  proof (cases "bs = []")
    case False
    then have "chunks_of 3 bs = take 3 bs # chunks_of 3 (drop 3 bs)" by (subst chunks_of.simps) auto
    then have "length (base64_encode bs) = Suc (length (take 3 bs)) + length (base64_encode (drop 3 bs))"
      by (simp add: base64_encode_def)
    moreover have "length (base64_encode (drop 3 bs)) \<le> 2 * length (drop 3 bs)" using 1 False by simp
    moreover have "length (take 3 bs) + length (drop 3 bs) = length bs" "length (take 3 bs) \<ge> 1"
      using False by (simp_all add: Suc_le_eq)
    ultimately show ?thesis by linarith
  qed (simp add: base64_encode_def chunks_of.simps)
qed

lemma base64_chars: "set (base64_encode bs) \<subseteq> set URL_ALPHABET"
proof -
  have "URL_ALPHABET ! unat v \<in> set URL_ALPHABET" if "v \<in> set (url_values g)" for v g
    using url_value_lt [OF that] url_alphabet(2) by (simp add: nth_mem)
  then show ?thesis by (auto simp: base64_encode_def)
qed

lemma url_plain: "CHR ''/'' \<notin> set URL_ALPHABET" "CHR ''.'' \<notin> set URL_ALPHABET" "CHR 0x00 \<notin> set URL_ALPHABET"
  unfolding URL_ALPHABET_def by simp_all

lemma name_opens:
  assumes "crypto_ok c" and "valid_str q" and "seal_name c key q = Some name"
  shows "open_name c key name = Some q"
  using assms(2,3)
  by (auto simp: seal_name_def open_name_def strip_prefix_def starts_with_def base64_round_trip seal_with_opens(1) [OF assms(1)] split: if_splits)

text \<open>A path is hidden in a name the other computer can keep. Every path short enough is sealed, to
  a path that is safe on the wire and fits its limit, without a directory; the guest's key reads it
  back, so that no two paths have one name; and nothing without the mark is read as one.\<close>

lemma sealed_names_read_back:
  assumes "crypto_ok c" and "length p \<le> 2000" and "valid_str p"
  shows "\<exists>name. seal_name c key p = Some name \<and> open_name c key name = Some p
    \<and> is_sealed_name name \<and> is_safe_path name \<and> length name \<le> 4 * 2 ^ 10
    \<and> (\<forall>q. valid_str q \<and> seal_name c key q = Some name \<longrightarrow> q = p)
    \<and> (\<forall>other. \<not> is_sealed_name other \<and> CHR ''/'' \<notin> set other \<longrightarrow> open_name c key other = None)"
proof -
  let ?name = "\<lambda>p. MARK # base64_encode (seal_with c key ''name-nonce'' (str_bytes p))"
  have opens: "open_name c key (?name q) = Some q" if "valid_str q" for q
    using that by (simp add: open_name_def strip_prefix_def starts_with_def base64_round_trip seal_with_opens(1) [OF assms(1)])
  have seals: "seal_name c key p = Some (?name p)" using assms(2) by (simp add: seal_name_def MAX_SEALED_PATH_def)
  have chars: "c \<noteq> CHR ''/'' \<and> c \<noteq> CHR ''.'' \<and> c \<noteq> CHR 0x00" if "c \<in> set (?name p)" for c
  proof (cases "c = MARK")
    case False
    then have "c \<in> set URL_ALPHABET" using that base64_chars [THEN subsetD] by (simp only: list.set insert_iff) blast
    then show ?thesis using url_plain by metis
  qed (simp add: MARK_def)
  have "CHR ''/'' \<notin> set (?name p)" using chars by blast
  then have "is_sealed_name (?name p)" by (simp add: is_sealed_name_def starts_with_def)
  moreover have "is_safe_path (?name p)"
  proof -
    have "split_on CHR ''/'' (?name p) = [?name p]" using \<open>CHR ''/'' \<notin> set (?name p)\<close> by (rule split_on_absent)
    moreover have "MARK \<noteq> CHR ''/''" "MARK \<noteq> CHR ''.''" by (simp_all add: MARK_def)
    moreover have "CHR 0x00 \<notin> set (?name p)" using chars by blast
    ultimately show ?thesis by (simp add: is_safe_path_def starts_with_def)
  qed
  moreover have "length (?name p) \<le> 4 * 2 ^ 10"
    using length_base64 [of "seal_with c key ''name-nonce'' (str_bytes p)"] assms(2) seal_with_opens(2) [OF assms(1), of key "''name-nonce''" "str_bytes p"]
    by (simp add: SEAL_OVERHEAD_def NONCE_LEN_def)
  moreover have "q = p" if "valid_str q" "seal_name c key q = Some (?name p)" for q
  proof -
    have "?name q = ?name p" using that(2) by (simp add: seal_name_def split: if_splits)
    then have "open_name c key (?name q) = open_name c key (?name p)" by (rule arg_cong)
    then show ?thesis unfolding opens [OF that(1)] opens [OF assms(3)] by (rule option.inject [THEN iffD1])
  qed
  moreover have "open_name c key other = None" if "\<not> is_sealed_name other" "CHR ''/'' \<notin> set other" for other
    using that by (simp add: is_sealed_name_def open_name_def strip_prefix_def)
  ultimately show ?thesis using seals opens [OF assms(3)] by blast
qed

subsection \<open>A file read back, however it is cut\<close>

lemma and_then_assoc: "and_then (and_then r f) g = and_then r (\<lambda>x. and_then (f x) g)"
  by (cases r) simp_all

lemma open_ready_append:
  "open_ready c m (u\<lparr>un_pending := un_pending u @ b\<rparr>)
     = and_then (open_ready c m u) (\<lambda>(out, u). and_then (open_ready c m (u\<lparr>un_pending := un_pending u @ b\<rparr>)) (\<lambda>(more, u). Inr (out @ more, u)))"
proof (induction c m u rule: open_ready.induct)
  case (1 c m u)
  let ?k = "unat (sm_chunks m ! un_next u) + SEAL_OVERHEAD"
  show ?case
  proof (cases "un_next u \<ge> length (sm_chunks m) \<or> length (un_pending u) < ?k")
    case True
    then have "open_ready c m u = Inr ([], u)" by (subst open_ready.simps) (auto simp: Let_def)
    then show ?thesis by (cases "open_ready c m (u\<lparr>un_pending := un_pending u @ b\<rparr>)") auto
  next
    case False
    show ?thesis
    proof (cases "open_chunk c (un_key u) (take ?k (un_pending u))")
      case None
      then show ?thesis using False
        by (subst (1 2) open_ready.simps) (simp add: Let_def)
    next
      case (Some plain)
      let ?u = "u\<lparr>un_pending := drop ?k (un_pending u), un_next := un_next u + 1\<rparr>"
      have later: "?u\<lparr>un_pending := un_pending ?u @ b\<rparr> = u\<lparr>un_pending := drop ?k (un_pending u) @ b, un_next := un_next u + 1\<rparr>"
        by (cases u) simp
      have "open_ready c m u = and_then (open_ready c m ?u) (\<lambda>(out, u). Inr (plain # out, u))"
        using False Some by (subst open_ready.simps) (simp add: Let_def)
      moreover have "open_ready c m (u\<lparr>un_pending := un_pending u @ b\<rparr>)
          = and_then (open_ready c m (?u\<lparr>un_pending := un_pending ?u @ b\<rparr>)) (\<lambda>(out, u). Inr (plain # out, u))"
        using False Some unfolding later by (subst open_ready.simps) (simp add: Let_def)
      moreover have "open_ready c m (?u\<lparr>un_pending := un_pending ?u @ b\<rparr>)
          = and_then (open_ready c m ?u) (\<lambda>(out, u). and_then (open_ready c m (u\<lparr>un_pending := un_pending u @ b\<rparr>)) (\<lambda>(more, u). Inr (out @ more, u)))"
        using 1 False Some by (simp add: Let_def)
      ultimately show ?thesis
        by (simp only: and_then_assoc split_beta and_then.simps append_Cons fst_conv snd_conv)
    qed
  qed
qed

lemma open_ready_keeps: "open_ready c m u = Inr (out, u') \<Longrightarrow> un_meta u' = un_meta u \<and> un_key u' = un_key u"
proof (induction c m u arbitrary: out rule: open_ready.induct)
  case (1 c m u)
  from 1(2) [unfolded open_ready.simps [of c m u]] 1(1) show ?case
    by (fastforce simp: Let_def and_then_Inr_iff split: if_splits option.splits)
qed

lemma open_ready_then_push:
  assumes "un_meta v = Some m"
  shows "open_ready c m (v\<lparr>un_pending := un_pending v @ b\<rparr>)
    = and_then (open_ready c m v) (\<lambda>(out, u). and_then (push c u b) (\<lambda>(more, u). Inr (out @ more, u)))"
proof -
  have "and_then (open_ready c m v) (\<lambda>(out, u). and_then (push c u b) (\<lambda>(more, u). Inr (out @ more, u)))
      = and_then (open_ready c m v)
          (\<lambda>(out, u). and_then (open_ready c m (u\<lparr>un_pending := un_pending u @ b\<rparr>)) (\<lambda>(more, u). Inr (out @ more, u)))"
  proof (cases "open_ready c m v")
    case (Inr r)
    obtain out u where r: "r = (out, u)" by fastforce
    then have "un_meta u = Some m" using open_ready_keeps [of c m v out u] Inr assms by simp
    then show ?thesis by (simp add: Inr r push_def)
  qed simp
  then show ?thesis by (simp only: open_ready_append [symmetric])
qed

lemma push_append:
  "push c u (a @ b) = and_then (push c u a) (\<lambda>(out, u). and_then (push c u b) (\<lambda>(more, u). Inr (out @ more, u)))"
proof (cases "un_meta u")
  case (Some m)
  then show ?thesis
    using open_ready_then_push [of "u\<lparr>un_pending := un_pending u @ a\<rparr>" m c b] by (simp add: push_def)
next
  case None
  let ?P = "un_pending u @ a"
  let ?fin = "4 + le_val (take 4 ?P)"
  show ?thesis
  proof (cases "length ?P < ?fin")
    case True
    then have "push c u a = Inr ([], u\<lparr>un_pending := ?P\<rparr>)" using None by (simp add: push_def Let_def)
    moreover have "push c (u\<lparr>un_pending := ?P\<rparr>) b = push c u (a @ b)" by (simp add: push_def)
    ultimately show ?thesis by (cases "push c u (a @ b)") auto
  next
    case False
    then have four: "take 4 (un_pending u @ a @ b) = take 4 ?P" "4 \<le> length ?P" by simp_all
    have fin: "take ?fin (un_pending u @ a @ b) = take ?fin ?P" "drop ?fin (un_pending u @ a @ b) = drop ?fin ?P @ b"
      using False by (simp_all flip: append_assoc del: append_assoc)
    show ?thesis
    proof (cases "open_header c (un_key u) (take ?fin ?P)")
      case n: None
      then show ?thesis using None False four fin(1) by (simp add: push_def Let_def)
    next
      case (Some m)
      let ?v = "u\<lparr>un_pending := drop ?fin ?P, un_meta := Some m\<rparr>"
      have "push c u a = open_ready c m ?v" using None False Some by (simp add: push_def Let_def)
      moreover have "push c u (a @ b) = open_ready c m (?v\<lparr>un_pending := un_pending ?v @ b\<rparr>)"
      proof -
        have "?v\<lparr>un_pending := un_pending ?v @ b\<rparr> = u\<lparr>un_pending := drop ?fin ?P @ b, un_meta := Some m\<rparr>" by (cases u) simp
        moreover have "push c u (a @ b) = open_ready c m (u\<lparr>un_pending := drop ?fin ?P @ b, un_meta := Some m\<rparr>)"
          using None False Some four fin by (simp add: push_def Let_def)
        ultimately show ?thesis by (simp only:)
      qed
      ultimately show ?thesis using open_ready_then_push [of ?v m c b] by simp
    qed
  qed
qed

lemma push_all_concat:
  "push c u [] = Inr ([], u) \<Longrightarrow> push_all c u ps = push c u (concat ps)"
proof (induction ps arbitrary: u)
  case (Cons p ps)
  have "push_all c u' ps = push c u' (concat ps)" if "push c u p = Inr (out, u')" for out u'
  proof (rule Cons.IH)
    show "push c u' [] = Inr ([], u')" using push_append [of c u p "[]"] that by (auto simp: and_then_Inr_iff dest: sym)
  qed
  then show ?case by (cases "push c u p") (auto simp: push_append)
qed simp

definition meta_ok :: "sealed_meta \<Rightarrow> bool" where
  \<comment> \<open>a path that is sealed, a hash, and fewer chunks than a \<open>u32\<close> header can hold\<close>
  "meta_ok m \<longleftrightarrow> valid_str (sm_path m) \<and> length (sm_path m) \<le> MAX_SEALED_PATH \<and> length (sm_content m) = 32
     \<and> length (sm_chunks m) < 2 ^ 29"

lemma bite_append [simp]: "length a = n \<Longrightarrow> bite (a @ r) n = Some (a, r)" "length a = n \<Longrightarrow> bite a n = Some (a, [])"
  by (simp_all add: bite_def)

lemma bite_lengths_put: "bite_lengths (length ws) (concat (map (\<lambda>len. u32_le (unat len)) ws) @ r) = Some (ws, r)"
proof (induction ws)
  case (Cons w ws)
  have "unat w < 2 ^ LENGTH(32)" by (rule unsigned_less)
  then show ?case using Cons by (simp add: byte_simps)
qed simp

lemma length_lengths: "length (concat (map (\<lambda>len. u32_le (unat len)) ws)) = 4 * length ws"
  by (induction ws) auto

lemma header_reads_back:
  assumes "meta_ok m"
  shows "take 4 (header_plain m) = str_bytes ''QRBH''" and "header_read (drop 4 (header_plain m)) = Some m"
proof -
  have magic: "length (str_bytes ''QRBH'') = 4" by simp
  show "take 4 (header_plain m) = str_bytes ''QRBH''" using magic by (simp add: header_plain_def)
  have bounds: "length (sm_path m) < 2 ^ 32" "length (sm_chunks m) < 2 ^ 32" "length (sm_content m) = 32" "valid_str (sm_path m)"
    using assms by (auto simp: meta_ok_def MAX_SEALED_PATH_def)
  have "drop 4 (header_plain m) = u32_le (length (sm_path m)) @ str_bytes (sm_path m) @ u64_le (sm_size m) @ sm_content m
      @ u64_le (sm_modified m) @ u32_le (length (sm_chunks m)) @ concat (map (\<lambda>len. u32_le (unat len)) (sm_chunks m)) @ []"
    using magic by (simp add: header_plain_def)
  then show "header_read (drop 4 (header_plain m)) = Some m"
    using bounds by (simp only: header_read_def bite_append length_u32_le length_u64_le length_str_bytes le_val_u32_le
      from_utf8_str_bytes bind.bind_lunit prod.case bite_lengths_put u64_of_le_u64_le) (simp add: length_lengths)
qed

lemma header_opens:
  assumes "crypto_ok c" and "meta_ok m"
  shows "open_header c key (seal_header c key m) = Some m"
    and "take 4 (seal_header c key m @ r) = u32_le (length (seal_header c key m) - 4)"
    and "length (seal_header c key m) < 2 ^ 32" and "4 \<le> length (seal_header c key m)"
proof -
  let ?sealed = "seal_chunk c key (header_plain m)"
  have "length (header_plain m) \<le> 4 + 4 + 2000 + 8 + 32 + 8 + 4 + 4 * (2 ^ 29 - 1)"
    using assms(2) by (auto simp: header_plain_def meta_ok_def MAX_SEALED_PATH_def length_lengths)
  then have short: "length ?sealed + 4 < 2 ^ 32"
    using chunk_opens(2) [OF assms(1), of key "header_plain m"] by (simp add: SEAL_OVERHEAD_def NONCE_LEN_def)
  have header: "seal_header c key m = u32_le (length ?sealed) @ ?sealed" by (simp add: seal_header_def Let_def)
  show "take 4 (seal_header c key m @ r) = u32_le (length (seal_header c key m) - 4)" by (simp add: header)
  show "length (seal_header c key m) < 2 ^ 32" "4 \<le> length (seal_header c key m)" using short by (simp_all add: header)
  have "le_val (u32_le (length ?sealed)) = length ?sealed" using short by (simp add: le_val_u32_le)
  then show "open_header c key (seal_header c key m) = Some m"
    using header_reads_back [OF assms(2)] chunk_opens(1) [OF assms(1)] by (simp add: open_header_def header)
qed

lemma chunks_open:
  assumes "crypto_ok c" and "un_key u = key" and "map length plains = map unat (drop (un_next u) (sm_chunks m))"
    and "un_pending u = concat (map (seal_chunk c key) plains)"
  shows "open_ready c m u = Inr (plains, u\<lparr>un_pending := [], un_next := un_next u + length plains\<rparr>)"
  using assms(2-4)
proof (induction plains arbitrary: u)
  case Nil
  then show ?case by (subst open_ready.simps) simp
next
  case (Cons plain plains)
  have left: "un_next u < length (sm_chunks m)" using Cons.prems(2) by (cases "un_next u < length (sm_chunks m)") auto
  then have rest: "length plain = unat (sm_chunks m ! un_next u)" "map length plains = map unat (drop (Suc (un_next u)) (sm_chunks m))"
    using Cons.prems(2) by (auto simp flip: Cons_nth_drop_Suc)
  let ?k = "unat (sm_chunks m ! un_next u) + SEAL_OVERHEAD"
  have k: "length (seal_chunk c key plain) = ?k" using chunk_opens(2) [OF assms(1)] rest(1) by simp
  have "open_ready c m (u\<lparr>un_pending := concat (map (seal_chunk c key) plains), un_next := un_next u + 1\<rparr>)
      = Inr (plains, u\<lparr>un_pending := [], un_next := un_next u + 1 + length plains\<rparr>)"
    using Cons.IH [of "u\<lparr>un_pending := concat (map (seal_chunk c key) plains), un_next := un_next u + 1\<rparr>"] Cons.prems(1) rest(2)
    by simp
  then show ?case
    using left k Cons.prems(1,3) chunk_opens(1) [OF assms(1)] by (subst open_ready.simps) simp
qed

lemma whole_file_opens:
  assumes "crypto_ok c" and "meta_ok m" and "map length plains = map unat (sm_chunks m)"
  shows "push c (unsealer_new key) (seal_header c key m @ concat (map (seal_chunk c key) plains))
    = Inr (plains, \<lparr>un_key = key, un_pending = [], un_meta = Some m, un_next = length plains\<rparr>)"
proof -
  let ?header = "seal_header c key m" and ?body = "concat (map (seal_chunk c key) plains)"
  note h = header_opens [OF assms(1,2), of key]
  have "le_val (take 4 (?header @ ?body)) = length ?header - 4" using h by (simp add: le_val_u32_le)
  then show ?thesis
    using h(1,4) chunks_open [OF assms(1), of "\<lparr>un_key = key, un_pending = ?body, un_meta = Some m, un_next = 0\<rparr>" key plains m] assms(3)
    by (simp add: push_def unsealer_new_def Let_def)
qed

lemma push_all_new: "push_all c (unsealer_new key) pieces = push c (unsealer_new key) (concat pieces)"
  by (rule push_all_concat) (simp add: push_def unsealer_new_def)

text \<open>C16: A sealed file is read back however it was cut. Whatever pieces the computer keeping it cuts the
  file into, the guest reads back every chunk and the header, and is finished exactly when the last
  byte has come: a file cut short gives the chunks that are whole and is never taken for complete.\<close>

theorem sealed_file_reads_back:
  assumes "crypto_ok c" and "meta_ok m" and "map length plains = map unat (sm_chunks m)"
    and "concat pieces @ rest = seal_header c key m @ concat (map (seal_chunk c key) plains)"
  shows "\<exists>out u. push_all c (unsealer_new key) pieces = Inr (out, u) \<and> (\<exists>more. out @ more = plains)
    \<and> (unseal_finished u \<longleftrightarrow> rest = []) \<and> (rest = [] \<longrightarrow> out = plains \<and> un_meta u = Some m)"
proof -
  let ?new = "unsealer_new key" and ?header = "seal_header c key m" and ?body = "concat (map (seal_chunk c key) plains)"
  let ?fin = "\<lparr>un_key = key, un_pending = [], un_meta = Some m, un_next = length plains\<rparr>"
  have count: "length plains = length (sm_chunks m)" using assms(3) by (metis length_map)
  have whole: "push c ?new (?header @ ?body) = Inr (plains, ?fin)" by (rule whole_file_opens [OF assms(1-3)])
  have "push c ?new (concat pieces @ rest) = Inr (plains, ?fin)" using whole assms(4) by (simp only:)
  then obtain out u more where first: "push c ?new (concat pieces) = Inr (out, u)" and later: "push c u rest = Inr (more, ?fin)"
    and plains: "plains = out @ more"
    by (auto simp: push_append and_then_Inr_iff)
  have "push_all c ?new pieces = Inr (out, u)"
    using first by (simp add: push_all_new)
  moreover have empty: "more = [] \<and> u = ?fin" if "rest = []"
  proof -
    have "push c u [] = Inr ([], u)" using push_append [of c ?new "concat pieces" "[]"] first by (auto simp: and_then_Inr_iff dest: sym)
    then show ?thesis using later that by simp
  qed
  moreover have "rest = []" if over: "unseal_finished u"
  proof -
    obtain m' where "un_meta u = Some m'" "un_next u = length (sm_chunks m')" "un_pending u = []"
      using over by (auto simp: unseal_finished_def split: option.splits)
    then have "push c u rest = Inr ([], u\<lparr>un_pending := rest\<rparr>)" by (subst push_def) (simp, subst open_ready.simps, simp)
    then have "u\<lparr>un_pending := rest\<rparr> = ?fin" using later by simp
    then have "un_pending (u\<lparr>un_pending := rest\<rparr>) = un_pending ?fin" by (rule arg_cong)
    then show ?thesis by simp
  qed
  moreover have "unseal_finished ?fin" using count by (simp add: unseal_finished_def)
  ultimately show ?thesis using plains by (intro exI [of _ out] exI [of _ u]) auto
qed

text \<open>A guest's note of five characters, in two chunks, sealed by a stand-in for the cipher.\<close>

definition plain_folder_crypto :: folder_crypto where
  "plain_folder_crypto = \<lparr>fc_hash = (\<lambda>k x. replicate 32 0), fc_encrypt = (\<lambda>k n x. x @ replicate 16 7),
     fc_decrypt = (\<lambda>k n x. if length x < 16 then None else Some (take (length x - 16) x))\<rparr>"

definition sample_meta :: sealed_meta where
  "sample_meta = \<lparr>sm_path = ''Notes/a.md'', sm_size = 5, sm_content = replicate 32 1, sm_modified = 7, sm_chunks = [2, 3]\<rparr>"

lemma plain_folder_crypto_ok: "crypto_ok plain_folder_crypto"
  by (simp add: crypto_ok_def plain_folder_crypto_def)

lemma sample_names: "valid_str ''Notes/a.md''"
  by code_simp

lemma sealed_names_read_back_witness:
  "\<exists>name. seal_name plain_folder_crypto [1] ''Notes/a.md'' = Some name \<and> open_name plain_folder_crypto [1] name = Some ''Notes/a.md''"
  using sealed_names_read_back [OF plain_folder_crypto_ok _ sample_names, of "[1]"] by auto

theorem sealed_file_reads_back_witness:
  "\<exists>out u. push_all plain_folder_crypto (unsealer_new [1])
      [take 3 (seal_header plain_folder_crypto [1] sample_meta),
       drop 3 (seal_header plain_folder_crypto [1] sample_meta) @ seal_chunk plain_folder_crypto [1] [104, 101],
       seal_chunk plain_folder_crypto [1] [108, 108, 111]] = Inr (out, u)
    \<and> unseal_finished u \<and> out = [[104, 101], [108, 108, 111]]"
proof -
  let ?h = "seal_header plain_folder_crypto [1] sample_meta" and ?s = "seal_chunk plain_folder_crypto [1]"
  have "meta_ok sample_meta" using sample_names by (simp add: meta_ok_def sample_meta_def MAX_SEALED_PATH_def)
  moreover have "map length [[104, 101], [108, 108, 111 :: u8]] = map unat (sm_chunks sample_meta)" by (simp add: sample_meta_def)
  moreover have "concat [take 3 ?h, drop 3 ?h @ ?s [104, 101], ?s [108, 108, 111]] @ [] = ?h @ concat (map ?s [[104, 101], [108, 108, 111]])"
    by simp
  ultimately show ?thesis using sealed_file_reads_back [OF plain_folder_crypto_ok] by blast
qed

end
