(* ===== verification/Keeper.thy ===== *)
theory Keeper imports Sealed Apply
begin

section \<open>A vault kept by another person's computer (\<open>store.rs\<close>, \<open>db.rs\<close> of \<open>crates/storage/src\<close>)\<close>

text \<open>
  What the guest's device shows the computer that keeps its vault: each file sealed once a version,
  its parts recorded so that they can be served again, and the list of them under sealed names. And
  what that computer does with the folder when it is given the key. The store is the one of \<open>Store\<close>;
  the tables \<open>sealed_views\<close> and \<open>sealed_parts\<close> are lists of rows. The clock and the staging file are
  left to the operations that fetch.
\<close>

datatype sealed_part = Header bytes | Piece hash

record sealed_view =
  v_holder :: device_id
  v_path :: string
  v_content :: hash
  v_sealed :: hash
  v_size :: nat

record part_row =
  p_holder :: device_id
  p_sealed :: hash
  p_id :: hash
  p_part :: sealed_part

record keeping =
  k_store :: store
  k_views :: "sealed_view list"
  k_parts :: "part_row list"
  k_opened :: "string \<Rightarrow> int option"

record sealing =
  se_hash :: blake3
  se_crypto :: folder_crypto
  se_key :: bytes \<comment> \<open>this device's chunk key\<close>

definition own_vault_rows :: "index \<Rightarrow> file_row list" where
  "own_vault_rows ix = sort_key f_path (filter (\<lambda>f. f_scope f = Some (me ix) \<and> \<not> f_held f) (files ix))"

definition sealed_view_of :: "keeping \<Rightarrow> device_id \<Rightarrow> string \<Rightarrow> sealed_view option" where
  "sealed_view_of k holder p = find (\<lambda>v. v_holder v = holder \<and> v_path v = p) (k_views k)"

definition unsealed :: "keeping \<Rightarrow> device_id \<Rightarrow> hash \<Rightarrow> (string \<times> hash) option" where
  "unsealed k holder sealed =
     map_option (\<lambda>v. (v_path v, v_content v)) (find (\<lambda>v. v_holder v = holder \<and> v_sealed v = sealed) (k_views k))"

definition put_sealed_view :: "sealed_view \<Rightarrow> (hash \<times> sealed_part) list \<Rightarrow> keeping \<Rightarrow> keeping" where
  "put_sealed_view v ps k =
     (let same = (\<lambda>w. v_holder w = v_holder v \<and> v_path w = v_path v);
          views = (if list_ex same (k_views k) then map (\<lambda>w. if same w then v else w) (k_views k) else k_views k @ [v]);
          rows = filter (\<lambda>r. \<not> (p_holder r = v_holder v \<and> p_sealed r = v_sealed v)) (k_parts k)
            @ map (\<lambda>(i, part). \<lparr>p_holder = v_holder v, p_sealed = v_sealed v, p_id = i, p_part = part\<rparr>) ps
      in k\<lparr>k_views := views,
           k_parts := filter (\<lambda>r. p_holder r = v_holder v
             \<longrightarrow> list_ex (\<lambda>w. v_holder w = v_holder v \<and> v_sealed w = p_sealed r) views) rows\<rparr>)"

definition sealed_manifest :: "keeping \<Rightarrow> device_id \<Rightarrow> hash \<Rightarrow> hash list option" where
  "sealed_manifest k holder sealed =
     (let ids = map p_id (filter (\<lambda>r. p_holder r = holder \<and> p_sealed r = sealed) (k_parts k))
      in if ids = [] then None else Some ids)"

definition sealed_part_of :: "keeping \<Rightarrow> device_id \<Rightarrow> hash \<Rightarrow> sealed_part option" where
  "sealed_part_of k holder i = map_option p_part (find (\<lambda>r. p_holder r = holder \<and> p_id r = i) (k_parts k))"

definition chunks_with_sizes :: "index \<Rightarrow> nat \<Rightarrow> (hash \<times> nat) list" where
  \<comment> \<open>joined with the chunks' own rows\<close>
  "chunks_with_sizes ix fid = List.map_filter (\<lambda>h. map_option (\<lambda>r. (h, c_size r)) (chunks ix h)) (chunk_hashes_for ix fid)"

subsection \<open>Sealing what has not been shown\<close>

fun seal_pieces :: "sealing \<Rightarrow> bytes \<Rightarrow> store \<Rightarrow> hash list \<Rightarrow> nat \<Rightarrow> (bytes \<times> hash) list option \<times> nat" where
  \<comment> \<open>each chunk sealed, with its hash, and the bytes read\<close>
  "seal_pieces se key st [] read = (Some [], read)"
| "seal_pieces se key st (h # hs) read =
     (case read_chunk (se_hash se) st h of
        Inl _ \<Rightarrow> (None, read)
      | Inr plain \<Rightarrow>
          (case seal_pieces se key st hs (read + length plain) of
             (None, read) \<Rightarrow> (None, read)
           | (Some ps, read) \<Rightarrow> (Some ((seal_chunk (se_crypto se) key plain, h) # ps), read)))"

definition view_made :: "sealing \<Rightarrow> device_id \<Rightarrow> file_row \<Rightarrow> bytes \<Rightarrow> (bytes \<times> hash) list \<Rightarrow> sealed_view \<times> (hash \<times> sealed_part) list" where
  "view_made se holder row header ps =
     (let whole = header @ concat (map fst ps)
      in (\<lparr>v_holder = holder, v_path = f_path row, v_content = f_hash row, v_sealed = se_hash se whole, v_size = length whole\<rparr>,
          (se_hash se header, Header header) # map (\<lambda>(bs, h). (se_hash se bs, Piece h)) ps))"

definition prepare_row :: "sealing \<Rightarrow> device_id \<Rightarrow> nat \<Rightarrow> file_row \<Rightarrow> nat \<times> nat \<times> keeping \<Rightarrow> nat \<times> nat \<times> keeping" where
  "prepare_row se holder budget row = (\<lambda>(read, sealed, k).
     let key = for_host (se_crypto se) (se_key se) holder; chunks = chunks_with_sizes (s_index (k_store k)) (f_id row)
     in if f_deleted row \<noteq> None \<or> read \<ge> budget then (read, sealed, k)
        else if (case sealed_view_of k holder (f_path row) of Some v \<Rightarrow> v_content v = f_hash row | None \<Rightarrow> False) then (read, sealed, k)
        else if chunks = [] \<and> f_size row > 0 then (read, sealed, k)
        else if seal_name (se_crypto se) key (f_path row) = None then (read, sealed, k)
        else
          (let m = \<lparr>sm_path = f_path row, sm_size = word_of_nat (f_size row), sm_content = f_hash row,
                 sm_modified = word_of_int (f_updated row), sm_chunks = map (\<lambda>(_, n). word_of_nat n) chunks\<rparr>;
               header = seal_header (se_crypto se) key m
           in case seal_pieces se key (k_store k) (map fst chunks) read of
                (None, read) \<Rightarrow> (read, sealed, k)
              | (Some ps, read) \<Rightarrow>
                  (case view_made se holder row header ps of (v, parts) \<Rightarrow> (read, sealed + 1, put_sealed_view v parts k))))"

definition prepare_sealed :: "sealing \<Rightarrow> device_id \<Rightarrow> nat \<Rightarrow> keeping \<Rightarrow> nat \<times> keeping" where
  "prepare_sealed se holder budget k =
     snd (fold (prepare_row se holder budget) (own_vault_rows (s_index (k_store k))) (0, 0, k))"

subsection \<open>Showing it\<close>

definition sealed_version :: "sealing \<Rightarrow> keeping \<Rightarrow> device_id \<Rightarrow> file_row \<Rightarrow> file_version option" where
  "sealed_version se k holder row =
     (case seal_name (se_crypto se) (for_host (se_crypto se) (se_key se) holder) (f_path row) of
        None \<Rightarrow> None
      | Some name \<Rightarrow>
          (let version = (row_to_version row)\<lparr>path := name, area := Hold\<rparr>
           in if f_deleted row \<noteq> None then Some version
              else case sealed_view_of k holder (f_path row) of
                  Some v \<Rightarrow>
                    if v_content v = f_hash row then Some (version\<lparr>content := File (v_sealed v) (word_of_nat (v_size v))\<rparr>) else None
                | None \<Rightarrow> None))"

definition sealed_tree_for :: "sealing \<Rightarrow> keeping \<Rightarrow> device_id \<Rightarrow> file_version list" where
  "sealed_tree_for se k holder = List.map_filter (sealed_version se k holder) (own_vault_rows (s_index (k_store k)))"

definition sealed_chunk :: "sealing \<Rightarrow> keeping \<Rightarrow> device_id \<Rightarrow> hash \<Rightarrow> bytes option" where
  "sealed_chunk se k holder i =
     (case sealed_part_of k holder i of
        None \<Rightarrow> None
      | Some (Header header) \<Rightarrow> Some header
      | Some (Piece h) \<Rightarrow>
          (case read_chunk (se_hash se) (k_store k) h of
             Inl _ \<Rightarrow> None
           | Inr plain \<Rightarrow>
               (let sealed = seal_chunk (se_crypto se) (for_host (se_crypto se) (se_key se) holder) plain
                in if se_hash se sealed = i then Some sealed else None)))"

definition note_kept_sealed :: "device_id \<Rightarrow> hash \<Rightarrow> keeping \<Rightarrow> bool \<times> keeping" where
  "note_kept_sealed holder sealed k =
     (case unsealed k holder sealed of
        None \<Rightarrow> (False, k)
      | Some (_, hash) \<Rightarrow>
          (True, k\<lparr>k_store := (k_store k)\<lparr>s_index := note_replica hash holder False (s_index (k_store k))\<rparr>\<rparr>))"

subsection \<open>Letting go of what is kept, and fetching it back\<close>

definition KEPT_OPENED_FOR :: int where "KEPT_OPENED_FOR = 24 * 3600"

definition kept_by_hosts :: "peers_db \<Rightarrow> int \<Rightarrow> keeping \<Rightarrow> string list" where
  "kept_by_hosts db now k =
     (let ix = s_index (k_store k)
      in sort (map f_path (filter (\<lambda>f. f_scope f = Some (me ix) \<and> \<not> f_held f \<and> f_deleted f = None \<and> f_here f
            \<and> list_ex (\<lambda>(h, d, private). h = f_hash f \<and> \<not> private \<and> is_holder db d \<and> relation_of db d = Some Host) (replicas ix)
            \<and> (case k_opened k (f_path f) of Some at \<Rightarrow> at \<le> now - KEPT_OPENED_FOR | None \<Rightarrow> True))
          (files ix))))"

definition free_kept_by_hosts :: "peers_db \<Rightarrow> int \<Rightarrow> keeping \<Rightarrow> nat \<times> keeping" where
  "free_kept_by_hosts db now k =
     fold (\<lambda>p (freed, k). case evict p (k_store k) of Inl _ \<Rightarrow> (freed, k) | Inr st \<Rightarrow> (freed + 1, k\<lparr>k_store := st\<rparr>))
       (kept_by_hosts db now k) (0, k)"

definition note_kept_opened :: "int \<Rightarrow> string \<Rightarrow> keeping \<Rightarrow> keeping" where
  "note_kept_opened now p k =
     k\<lparr>k_opened := (\<lambda>q. case ((k_opened k)(p \<mapsto> now)) q of
         Some at \<Rightarrow> if at \<le> now - KEPT_OPENED_FOR then None else Some at | None \<Rightarrow> None)\<rparr>"

definition restore_kept :: "(bytes \<Rightarrow> nat) \<Rightarrow> blake3 \<Rightarrow> (bytes \<Rightarrow> (nat \<times> nat) list) \<Rightarrow> int \<Rightarrow> string \<Rightarrow> bytes \<Rightarrow> int \<Rightarrow> keeping \<Rightarrow>
    store_error + keeping" where
  \<comment> \<open>\<open>staged\<close> is what was unsealed, and \<open>mtime\<close> what its place in the folder says of it then\<close>
  "restore_kept sealed H cdc now p staged mtime k =
     (case (s_tree (k_store k), own_vault_row (s_index (k_store k)) p) of
        (Some tree, Some row) \<Rightarrow>
          (if H staged \<noteq> f_hash row then Inl (ChunkCorrupt (f_hash row))
           else
             (let st = (k_store k)\<lparr>s_tree := Some (tree(p \<mapsto> staged))\<rparr>;
                  placed = (pl_remote (row_to_version row))\<lparr>pl_vault := Some (me (s_index st)), pl_rewrite := True\<rparr>
              in Inr (note_kept_opened now p (k\<lparr>k_store := snd (put_manifest sealed now p (chunk_bytes H cdc staged) staged mtime placed st)\<rparr>))))
      | _ \<Rightarrow> Inl (NotFound p))"

subsection \<open>At the computer that keeps it\<close>

definition kept_entries :: "index \<Rightarrow> device_id \<Rightarrow> (string \<times> hash \<times> nat) list" where
  "kept_entries ix person =
     map (\<lambda>f. (f_path f, f_hash f, f_size f))
       (sort_key f_path (filter (\<lambda>f. f_scope f = Some person \<and> f_held f \<and> f_deleted f = None) (files ix)))"

definition kept_names :: "index \<Rightarrow> device_id \<Rightarrow> string list" where
  "kept_names ix person = map fst (kept_entries ix person)"

record kept_file =
  kf_path :: string
  kf_size :: u64
  kf_modified :: i64
  kf_sealed :: hash

definition meta_seen :: "folder_crypto \<Rightarrow> unsealer \<Rightarrow> bytes \<Rightarrow> sealed_meta option" where
  \<comment> \<open>the header a reader has after a push, one that failed on a chunk after it included\<close>
  "meta_seen c u got =
     (let pending = un_pending u @ got; fin = 4 + le_val (take 4 pending)
      in case un_meta u of
           Some m \<Rightarrow> Some m
         | None \<Rightarrow> if length pending < 4 \<or> length pending < fin then None else open_header c (un_key u) (take fin pending))"

fun read_meta :: "blake3 \<Rightarrow> folder_crypto \<Rightarrow> store \<Rightarrow> hash list \<Rightarrow> unsealer \<Rightarrow> sealed_meta option" where
  \<comment> \<open>the loop of \<open>open_kept\<close>, which stops once the header is read\<close>
  "read_meta H c st [] u = un_meta u"
| "read_meta H c st (h # hs) u =
     (case read_chunk H st h of
        Inl _ \<Rightarrow> un_meta u
      | Inr got \<Rightarrow>
          (case push c u got of
             Inl _ \<Rightarrow> meta_seen c u got
           | Inr (_, u) \<Rightarrow> if un_meta u \<noteq> None then un_meta u else read_meta H c st hs u))"

definition open_kept :: "blake3 \<Rightarrow> folder_crypto \<Rightarrow> store \<Rightarrow> device_id \<Rightarrow> bytes \<Rightarrow> kept_file list" where
  "open_kept H c st person key =
     sort_key kf_path (List.map_filter (\<lambda>(name, sealed, _).
       case open_name c key name of
         None \<Rightarrow> None
       | Some p \<Rightarrow>
           (case any_file_with_content (s_index st) sealed of
              None \<Rightarrow> None
            | Some fid \<Rightarrow>
                (case read_meta H c st (chunk_hashes_for (s_index st) fid) (unsealer_new key) of
                   None \<Rightarrow> None
                 | Some m \<Rightarrow>
                     if sm_path m = p
                     then Some \<lparr>kf_path = p, kf_size = sm_size m, kf_modified = sm_modified m, kf_sealed = sealed\<rparr>
                     else None)))
       (kept_entries (s_index st) person))"

definition kept_file_of :: "folder_crypto \<Rightarrow> index \<Rightarrow> device_id \<Rightarrow> bytes \<Rightarrow> string \<Rightarrow> hash option" where
  "kept_file_of c ix person key p =
     (case seal_name c key p of
        None \<Rightarrow> None
      | Some name \<Rightarrow> map_option (\<lambda>(_, sealed, _). sealed) (find (\<lambda>(n, _). n = name) (kept_entries ix person)))"

fun unseal_loop :: "blake3 \<Rightarrow> folder_crypto \<Rightarrow> store \<Rightarrow> hash \<Rightarrow> hash list \<Rightarrow> unsealer \<Rightarrow> store_error + bytes \<times> unsealer" where
  "unseal_loop H c st sealed [] u = Inr ([], u)"
| "unseal_loop H c st sealed (h # hs) u =
     and_then (read_chunk H st h) (\<lambda>got.
       case push c u got of
         Inl _ \<Rightarrow> Inl (ChunkCorrupt sealed)
       | Inr (opened, u) \<Rightarrow>
           and_then (unseal_loop H c st sealed hs u) (\<lambda>(rest, u). Inr (concat opened @ rest, u)))"

definition unseal_kept :: "blake3 \<Rightarrow> folder_crypto \<Rightarrow> store \<Rightarrow> bytes \<Rightarrow> hash \<Rightarrow> string \<Rightarrow> store_error + bytes" where
  \<comment> \<open>what is left in the file: nothing, where it is removed again\<close>
  "unseal_kept H c st key sealed p =
     (case any_file_with_content (s_index st) sealed of
        None \<Rightarrow> Inl (NotFound (to_hex (DeviceId sealed)))
      | Some fid \<Rightarrow>
          and_then (unseal_loop H c st sealed (chunk_hashes_for (s_index st) fid) (unsealer_new key)) (\<lambda>(whole, u).
            if \<not> unseal_finished u
               \<or> (case un_meta u of Some m \<Rightarrow> if sm_path m = p then Some (sm_content m) else None | None \<Rightarrow> None) \<noteq> Some (H whole)
            then Inl (ChunkCorrupt sealed) else Inr whole))"

subsection \<open>What is recorded opens\<close>

lemma read_chunk_hash: "read_chunk H st h = Inr b \<Longrightarrow> H b = h"
  by (auto simp: read_chunk_def stored_chunk_def chunk_from_tree_def chunk_from_outside_def split: if_splits option.splits)

abbreviation key_for :: "sealing \<Rightarrow> device_id \<Rightarrow> bytes" where
  "key_for se holder \<equiv> for_host (se_crypto se) (se_key se) holder"

definition sealed_file :: "sealing \<Rightarrow> device_id \<Rightarrow> sealed_meta \<Rightarrow> bytes list \<Rightarrow> bytes" where
  "sealed_file se holder m plains =
     seal_header (se_crypto se) (key_for se holder) m @ concat (map (seal_chunk (se_crypto se) (key_for se holder)) plains)"

definition parts_of :: "keeping \<Rightarrow> device_id \<Rightarrow> hash \<Rightarrow> (hash \<times> sealed_part) list" where
  "parts_of k holder sealed =
     map (\<lambda>r. (p_id r, p_part r)) (filter (\<lambda>r. p_holder r = holder \<and> p_sealed r = sealed) (k_parts k))"

definition parts_made :: "sealing \<Rightarrow> device_id \<Rightarrow> sealed_meta \<Rightarrow> bytes list \<Rightarrow> (hash \<times> sealed_part) list" where
  "parts_made se holder m plains =
     (let header = seal_header (se_crypto se) (key_for se holder) m
      in (se_hash se header, Header header)
         # map (\<lambda>b. (se_hash se (seal_chunk (se_crypto se) (key_for se holder) b), Piece (se_hash se b))) plains)"

definition view_seals :: "sealing \<Rightarrow> sealed_view \<Rightarrow> sealed_meta \<Rightarrow> bytes list \<Rightarrow> bool" where
  "view_seals se v m plains \<longleftrightarrow> meta_ok m \<and> sm_path m = v_path v \<and> sm_content m = v_content v
     \<and> map length plains = map unat (sm_chunks m) \<and> se_hash se (concat plains) = v_content v
     \<and> v_size v = length (sealed_file se (v_holder v) m plains) \<and> v_sealed v = se_hash se (sealed_file se (v_holder v) m plains)"

definition part_ok :: "sealing \<Rightarrow> part_row \<Rightarrow> bool" where
  "part_ok se r \<longleftrightarrow>
     (case p_part r of
        Header b \<Rightarrow> p_id r = se_hash se b
      | Piece h \<Rightarrow> \<exists>b. h = se_hash se b \<and> p_id r = se_hash se (seal_chunk (se_crypto se) (key_for se (p_holder r)) b))"

definition keep_ok :: "sealing \<Rightarrow> keeping \<Rightarrow> bool" where
  "keep_ok se k \<longleftrightarrow>
     (\<forall>v \<in> set (k_views k). \<exists>m plains. view_seals se v m plains
        \<and> parts_of k (v_holder v) (v_sealed v) = parts_made se (v_holder v) m plains)
     \<and> distinct (map (\<lambda>v. (v_holder v, v_path v)) (k_views k))
     \<and> (\<forall>r \<in> set (k_parts k). part_ok se r)"

definition store_fits :: "blake3 \<Rightarrow> store \<Rightarrow> bool" where
  \<comment> \<open>a file's chunk list is its content, and a chunk's row has its length\<close>
  "store_fits H st \<longleftrightarrow> index_ok (s_index st)
     \<and> (\<forall>f \<in> set (files (s_index st)). valid_str (f_path f) \<and> length (f_hash f) = 32
          \<and> length (chunk_hashes_for (s_index st) (f_id f)) < 2 ^ 29
          \<and> (\<forall>data. read_chunks H st (chunk_hashes_for (s_index st) (f_id f)) = Inr data \<longrightarrow> H data = f_hash f))
     \<and> (\<forall>h r b. chunks (s_index st) h = Some r \<and> read_chunk H st h = Inr b \<longrightarrow> length b = c_size r \<and> c_size r < 2 ^ 32)"

lemma sealed_file_determines:
  assumes "crypto_ok (se_crypto se)" and "view_seals se v m plains" and "view_seals se w m' plains'"
    and "v_holder v = v_holder w" and "v_sealed v = v_sealed w" and "inj (se_hash se)"
  shows "v_path v = v_path w"
proof -
  have ok: "meta_ok m" "map length plains = map unat (sm_chunks m)" "meta_ok m'" "map length plains' = map unat (sm_chunks m')"
    using assms(2,3) by (simp_all add: view_seals_def)
  have "se_hash se (sealed_file se (v_holder v) m plains) = se_hash se (sealed_file se (v_holder v) m' plains')"
    using assms(2-5) by (simp add: view_seals_def)
  then have same: "sealed_file se (v_holder v) m plains = sealed_file se (v_holder v) m' plains'" by (rule injD [OF assms(6)])
  have opens: "push (se_crypto se) (unsealer_new key) (sealed_file se d m plains)
      = Inr (plains, \<lparr>un_key = key, un_pending = [], un_meta = Some m, un_next = length plains\<rparr>)"
    if "meta_ok m" "map length plains = map unat (sm_chunks m)" "key = key_for se d" for m plains d key
    unfolding sealed_file_def that(3) by (rule whole_file_opens [OF assms(1) that(1,2)])
  have "m = m'"
    using opens [OF ok(1,2) refl, of "v_holder v"] opens [OF ok(3,4) refl, of "v_holder v"] unfolding same by simp
  then show ?thesis using assms(2,3) by (simp add: view_seals_def)
qed

lemma put_sealed_view_ok:
  assumes "crypto_ok (se_crypto se)" and "inj (se_hash se)" and "keep_ok se k" and "view_seals se v m plains"
  shows "keep_ok se (put_sealed_view v (parts_made se (v_holder v) m plains) k)"
proof -
  let ?same = "\<lambda>w. v_holder w = v_holder v \<and> v_path w = v_path v"
  let ?views = "if list_ex ?same (k_views k) then map (\<lambda>w. if ?same w then v else w) (k_views k) else k_views k @ [v]"
  let ?parts = "parts_made se (v_holder v) m plains"
  let ?k = "put_sealed_view v ?parts k"
  have views: "k_views ?k = ?views" by (simp add: put_sealed_view_def Let_def)
  have of_v: "v \<in> set ?views" by (auto simp: list_ex_iff)
  have other: "w \<in> set (k_views k) \<and> \<not> ?same w" if "w \<in> set ?views" "w \<noteq> v" for w
    using that by (auto split: if_splits simp: list_ex_iff)
  define V where "V = set ?views"
  define Q :: "part_row \<Rightarrow> bool" where "Q = (\<lambda>r. p_holder r = v_holder v \<longrightarrow> (\<exists>w \<in> V. v_holder w = v_holder v \<and> v_sealed w = p_sealed r))"
  define new where "new = map (\<lambda>(i, part). \<lparr>p_holder = v_holder v, p_sealed = v_sealed v, p_id = i, p_part = part\<rparr>) ?parts"
  let ?mine = "\<lambda>r :: part_row. p_holder r = v_holder v \<and> p_sealed r = v_sealed v"
  have kp: "k_parts ?k = filter Q (filter (\<lambda>r. \<not> ?mine r) (k_parts k) @ new)"
    by (simp add: put_sealed_view_def Let_def Q_def V_def new_def list_ex_iff)
  have new: "?mine r \<and> Q r" if "r \<in> set new" for r
    using that of_v by (auto simp: new_def Q_def V_def)
  have rows: "filter P (k_parts ?k) = filter P (k_parts k)"
    if "\<And>r. P r \<Longrightarrow> \<not> ?mine r" "\<And>r. P r \<Longrightarrow> Q r" for P
  proof -
    have "filter (\<lambda>r. Q r \<and> P r) new = []" using new that(1) by (auto simp: filter_empty_conv)
    moreover have "filter (\<lambda>r. \<not> ?mine r \<and> Q r \<and> P r) (k_parts k) = filter P (k_parts k)"
      using that by (intro filter_cong) auto
    ultimately show ?thesis by (simp add: kp)
  qed
  have mine: "parts_of ?k (v_holder v) (v_sealed v) = ?parts"
  proof -
    have "filter (\<lambda>r. Q r \<and> ?mine r) new = new" using new by (auto simp: filter_id_conv)
    moreover have "filter (\<lambda>r. \<not> ?mine r \<and> Q r \<and> ?mine r) (k_parts k) = []" by (simp add: filter_empty_conv)
    ultimately have "filter ?mine (k_parts ?k) = new" by (simp add: kp)
    then show ?thesis by (simp add: parts_of_def new_def comp_def split_beta)
  qed
  have seals: "\<exists>m plains. view_seals se w m plains \<and> parts_of ?k (v_holder w) (v_sealed w) = parts_made se (v_holder w) m plains"
    if w: "w \<in> set (k_views ?k)" for w
  proof (cases "w = v")
    case True
    then show ?thesis using assms(4) mine by blast
  next
    case False
    then have old: "w \<in> set (k_views k)" "\<not> ?same w" using other w unfolding views by blast+
    then obtain m' plains' where w': "view_seals se w m' plains'"
        "parts_of k (v_holder w) (v_sealed w) = parts_made se (v_holder w) m' plains'"
      using assms(3) unfolding keep_ok_def by blast
    have "w \<in> V" using w unfolding V_def views .
    have apart: "\<not> (v_holder w = v_holder v \<and> v_sealed w = v_sealed v)"
      using sealed_file_determines [OF assms(1) w'(1) assms(4) _ _ assms(2)] old(2) by blast
    have "filter (\<lambda>r. p_holder r = v_holder w \<and> p_sealed r = v_sealed w) (k_parts ?k)
        = filter (\<lambda>r. p_holder r = v_holder w \<and> p_sealed r = v_sealed w) (k_parts k)"
    proof (rule rows)
      show "Q r" if "p_holder r = v_holder w \<and> p_sealed r = v_sealed w" for r
        using that \<open>w \<in> V\<close> by (auto simp: Q_def)
    qed (use apart in metis)
    then have "parts_of ?k (v_holder w) (v_sealed w) = parts_of k (v_holder w) (v_sealed w)" by (simp only: parts_of_def)
    then show ?thesis using w' by metis
  qed
  moreover have "distinct (map (\<lambda>v. (v_holder v, v_path v)) (k_views ?k))"
  proof -
    have apart: "distinct (map (\<lambda>v. (v_holder v, v_path v)) (k_views k))" using assms(3) by (simp add: keep_ok_def)
    have "map ((\<lambda>v. (v_holder v, v_path v)) \<circ> (\<lambda>w. if ?same w then v else w)) (k_views k) = map (\<lambda>v. (v_holder v, v_path v)) (k_views k)"
      by (rule map_cong) auto
    then have replaced: "distinct (map (\<lambda>v. (v_holder v, v_path v)) (map (\<lambda>w. if ?same w then v else w) (k_views k)))"
      unfolding map_map using apart by (simp only:)
    show ?thesis
    proof (cases "list_ex ?same (k_views k)")
      case True
      then show ?thesis using replaced by (simp only: views if_True)
    next
      case False
      then show ?thesis using apart by (auto simp: views list_ex_iff)
    qed
  qed
  moreover have "part_ok se r" if "r \<in> set (k_parts ?k)" for r
  proof (cases "r \<in> set new")
    case True
    then show ?thesis by (auto simp: new_def parts_made_def part_ok_def Let_def)
  next
    case False
    then have "r \<in> set (k_parts k)" using that by (auto simp: kp)
    then show ?thesis using assms(3) unfolding keep_ok_def by blast
  qed
  ultimately show ?thesis unfolding keep_ok_def by blast
qed

lemma seal_pieces_made:
  assumes "seal_pieces se key st hs read = (Some ps, read')"
  shows "\<exists>plains. map (se_hash se) plains = hs \<and> ps = map (\<lambda>b. (seal_chunk (se_crypto se) key b, se_hash se b)) plains
    \<and> read_chunks (se_hash se) st hs = Inr (concat plains) \<and> read \<le> read'
    \<and> (\<forall>b \<in> set plains. read_chunk (se_hash se) st (se_hash se b) = Inr b)"
  using assms
proof (induction hs arbitrary: read ps)
  case (Cons h hs)
  from Cons.prems obtain plain ps' where b: "read_chunk (se_hash se) st h = Inr plain"
      and rest: "seal_pieces se key st hs (read + length plain) = (Some ps', read')"
      and ps: "ps = (seal_chunk (se_crypto se) key plain, h) # ps'"
    by (auto split: sum.splits prod.splits option.splits)
  have h: "se_hash se plain = h" using b by (rule read_chunk_hash)
  obtain plains where plains: "map (se_hash se) plains = hs" "ps' = map (\<lambda>b. (seal_chunk (se_crypto se) key b, se_hash se b)) plains"
      "read_chunks (se_hash se) st hs = Inr (concat plains)" "read + length plain \<le> read'"
      "\<forall>b \<in> set plains. read_chunk (se_hash se) st (se_hash se b) = Inr b"
    using Cons.IH [OF rest] by blast
  show ?case using b h ps plains by (intro exI [of _ "plain # plains"]) simp
qed simp

lemma chunks_with_sizes_listed:
  assumes "index_ok ix"
  shows "map fst (chunks_with_sizes ix fid) = chunk_hashes_for ix fid"
    and "map snd (chunks_with_sizes ix fid) = map (\<lambda>h. c_size (the (chunks ix h))) (chunk_hashes_for ix fid)"
proof -
  have row: "chunks ix h \<noteq> None" if "h \<in> set (chunk_hashes_for ix fid)" for h
  proof
    assume "chunks ix h = None"
    then have "count_in (links ix) h = 0" using index_okD(1) [OF assms, of h] by (simp add: chunk_ok_def)
    moreover have "h \<in> snd ` set (links ix)" using that by (auto simp: chunk_hashes_for_def)
    ultimately show False by (simp add: count_in_zero_iff)
  qed
  then have "chunks_with_sizes ix fid = map (\<lambda>h. (h, c_size (the (chunks ix h)))) (chunk_hashes_for ix fid)"
    unfolding chunks_with_sizes_def List.map_filter_def by (intro map_cong) (simp_all add: filter_id_conv option.map_sel)
  then show "map fst (chunks_with_sizes ix fid) = chunk_hashes_for ix fid"
    "map snd (chunks_with_sizes ix fid) = map (\<lambda>h. c_size (the (chunks ix h))) (chunk_hashes_for ix fid)"
    by (simp_all add: o_def)
qed

definition shown :: "keeping \<Rightarrow> device_id \<Rightarrow> file_row \<Rightarrow> bool" where
  \<comment> \<open>sealed for the holder, as it is now\<close>
  "shown k holder row \<longleftrightarrow> (\<exists>v. sealed_view_of k holder (f_path row) = Some v \<and> v_content v = f_hash row)"

definition can_be_shown :: "sealing \<Rightarrow> store \<Rightarrow> file_row \<Rightarrow> bool" where
  \<comment> \<open>its path is not too long and its bytes are here\<close>
  "can_be_shown se st row \<longleftrightarrow> f_deleted row = None \<and> length (f_path row) \<le> MAX_SEALED_PATH
     \<and> (chunk_hashes_for (s_index st) (f_id row) = [] \<longrightarrow> f_size row = 0)
     \<and> (\<exists>data. read_chunks (se_hash se) st (chunk_hashes_for (s_index st) (f_id row)) = Inr data)"

lemma seal_pieces_reads: "read_chunks (se_hash se) st hs = Inr data \<Longrightarrow> fst (seal_pieces se key st hs read) \<noteq> None"
proof (induction hs arbitrary: read data)
  case (Cons h hs)
  then obtain b rest where "read_chunk (se_hash se) st h = Inr b" "read_chunks (se_hash se) st hs = Inr rest"
    by (auto simp: and_then_Inr_iff)
  then show ?case using Cons.IH [of rest "read + length b"] by (auto split: prod.splits option.splits)
qed simp

lemma seal_pieces_more: "seal_pieces se key st hs read = (ps, read') \<Longrightarrow> read \<le> read'"
  by (induction hs arbitrary: read ps) (force split: sum.splits prod.splits option.splits)+

lemma put_view_of: "sealed_view_of (put_sealed_view v ps k) holder p =
    (if holder = v_holder v \<and> p = v_path v then Some v else sealed_view_of k holder p)"
proof -
  have find: "find (\<lambda>w. v_holder w = holder \<and> v_path w = p) (map (\<lambda>w. if v_holder w = v_holder v \<and> v_path w = v_path v then v else w) ws)
      = (if holder = v_holder v \<and> p = v_path v
         then (if list_ex (\<lambda>w. v_holder w = v_holder v \<and> v_path w = v_path v) ws then Some v else None)
         else find (\<lambda>w. v_holder w = holder \<and> v_path w = p) ws)" for ws holder p
    by (induction ws) auto
  have append: "find P (ws @ [v]) = (case find P ws of Some w \<Rightarrow> Some w | None \<Rightarrow> if P v then Some v else None)" for P ws
    by (induction ws) auto
  have absent: "\<not> list_ex (\<lambda>w. v_holder w = holder \<and> v_path w = p) ws \<Longrightarrow> find (\<lambda>w. v_holder w = holder \<and> v_path w = p) ws = None" for ws holder p
    by (auto simp: find_None_iff list_ex_iff)
  show ?thesis
    using absent [of holder p "k_views k"]
    by (auto simp: sealed_view_of_def put_sealed_view_def Let_def find append split: option.splits)
qed

lemma prepare_row_ok:
  assumes "crypto_ok (se_crypto se)" and "inj (se_hash se)" and "store_fits (se_hash se) (k_store k)" and "keep_ok se k"
    and "row \<in> set (files (s_index (k_store k)))" and "prepare_row se holder budget row (read, n, k) = (read', n', k')"
  shows "keep_ok se k' \<and> k_store k' = k_store k \<and> read \<le> read'
    \<and> (\<forall>p. p \<noteq> f_path row \<longrightarrow> sealed_view_of k' holder p = sealed_view_of k holder p)
    \<and> (read < budget \<and> can_be_shown se (k_store k) row \<longrightarrow> shown k' holder row)"
proof -
  let ?ix = "s_index (k_store k)" and ?key = "key_for se holder" and ?H = "se_hash se"
  let ?hs = "chunk_hashes_for ?ix (f_id row)"
  have ix: "index_ok ?ix" using assms(3) by (simp add: store_fits_def)
  note listed = chunks_with_sizes_listed [OF ix, of "f_id row"]
  have none: "chunks_with_sizes ?ix (f_id row) = [] \<longleftrightarrow> ?hs = []" using listed(1) by (metis map_is_Nil_conv)
  let ?m = "\<lparr>sm_path = f_path row, sm_size = word_of_nat (f_size row), sm_content = f_hash row,
      sm_modified = word_of_int (f_updated row), sm_chunks = map (\<lambda>(_, n). word_of_nat n) (chunks_with_sizes ?ix (f_id row))\<rparr>"
  let ?skip = "f_deleted row \<noteq> None \<or> read \<ge> budget \<or> shown k holder row \<or> (?hs = [] \<and> f_size row > 0) \<or> length (f_path row) > MAX_SEALED_PATH"
  let ?made = "\<lambda>ps. case view_made se holder row (seal_header (se_crypto se) ?key ?m) ps of (v, parts) \<Rightarrow> put_sealed_view v parts k"
  have shown: "(case sealed_view_of k holder (f_path row) of Some v \<Rightarrow> v_content v = f_hash row | None \<Rightarrow> False) = shown k holder row"
    by (simp add: shown_def split: option.split)
  have long: "(seal_name (se_crypto se) ?key (f_path row) = None) = (length (f_path row) > MAX_SEALED_PATH)" by (simp add: seal_name_def)
  have "prepare_row se holder budget row (read, n, k) = (if ?skip then (read, n, k) else
      (case seal_pieces se ?key (k_store k) ?hs read of (None, read) \<Rightarrow> (read, n, k) | (Some ps, read) \<Rightarrow> (read, n + 1, ?made ps)))"
    unfolding prepare_row_def Let_def prod.case shown long none listed(1)
    by (simp add: split_beta split: option.split)
  then consider (skip) "?skip" "(read', n', k') = (read, n, k)"
    | (unread) "seal_pieces se ?key (k_store k) ?hs read = (None, read')" "k' = k"
    | (sealed) ps where "seal_pieces se ?key (k_store k) ?hs read = (Some ps, read')" "length (f_path row) \<le> MAX_SEALED_PATH" "k' = ?made ps"
    using assms(6) by (cases ?skip; cases "seal_pieces se ?key (k_store k) ?hs read"; cases "fst (seal_pieces se ?key (k_store k) ?hs read)") auto
  then show ?thesis
  proof cases
    case skip
    then show ?thesis using assms(4) by (auto simp: can_be_shown_def)
  next
    case unread
    have "\<not> can_be_shown se (k_store k) row"
      using seal_pieces_reads [of se "k_store k" ?hs _ ?key read] unread(1) by (auto simp: can_be_shown_def)
    then show ?thesis using unread(2) assms(4) seal_pieces_more [OF unread(1)] by auto
  next
    case sealed
    obtain plains where plains: "map ?H plains = ?hs" "ps = map (\<lambda>b. (seal_chunk (se_crypto se) ?key b, ?H b)) plains"
        "read_chunks ?H (k_store k) ?hs = Inr (concat plains)" "read \<le> read'"
        "\<forall>b \<in> set plains. read_chunk ?H (k_store k) (?H b) = Inr b"
      using seal_pieces_made [OF sealed(1)] by blast
    let ?v = "\<lparr>v_holder = holder, v_path = f_path row, v_content = f_hash row,
        v_sealed = ?H (sealed_file se holder ?m plains), v_size = length (sealed_file se holder ?m plains)\<rparr>"
    have k': "k' = put_sealed_view ?v (parts_made se holder ?m plains) k"
      unfolding sealed(3) plains(2) by (simp add: view_made_def sealed_file_def parts_made_def Let_def o_def)
    have row: "valid_str (f_path row)" "length (f_hash row) = 32" "length ?hs < 2 ^ 29" "?H (concat plains) = f_hash row"
      using assms(3,5) plains(3) by (auto simp: store_fits_def)
    have "length (chunks_with_sizes ?ix (f_id row)) = length ?hs" using listed(1) by (metis length_map)
    moreover have "map length plains = map unat (sm_chunks ?m)"
    proof -
      have size: "unat (word_of_nat (c_size (the (chunks ?ix (?H b)))) :: u32) = length b" if b: "b \<in> set plains" for b
      proof -
        have "?H b \<in> set ?hs" using b plains(1) by (metis image_eqI list.set_map)
        then have "count_in (links ?ix) (?H b) \<noteq> 0" by (auto simp: count_in_zero_iff chunk_hashes_for_def)
        then obtain r where "chunks ?ix (?H b) = Some r" using index_okD(1) [OF ix, of "?H b"] by (auto simp: chunk_ok_def split: option.splits)
        moreover from this have "length b = c_size r \<and> c_size r < 2 ^ 32" using assms(3) plains(5) b unfolding store_fits_def by blast
        ultimately show ?thesis by (simp add: unat_of_nat)
      qed
      have "sm_chunks ?m = map word_of_nat (map snd (chunks_with_sizes ?ix (f_id row)))" by (simp add: split_beta o_def)
      also have "\<dots> = map (\<lambda>b. word_of_nat (c_size (the (chunks ?ix (?H b))))) plains" unfolding listed(2) plains(1) [symmetric] by simp
      finally show ?thesis using size by simp
    qed
    ultimately have seals: "view_seals se ?v ?m plains"
      using row sealed(2) by (simp add: view_seals_def meta_ok_def)
    have "keep_ok se k'" using put_sealed_view_ok [OF assms(1,2,4) seals] by (simp add: k')
    moreover have "k_store k' = k_store k" by (simp add: k' put_sealed_view_def Let_def)
    moreover have "shown k' holder row" by (simp add: shown_def k' put_view_of)
    ultimately show ?thesis using plains(4) by (simp add: k' put_view_of)
  qed
qed

lemma prepare_all:
  assumes "crypto_ok (se_crypto se)" and "inj (se_hash se)" and "store_fits (se_hash se) (k_store k)" and "keep_ok se k"
    and "set rows \<subseteq> set (files (s_index (k_store k)))" and "distinct (map f_path rows)"
    and "fold (prepare_row se holder budget) rows (read, n, k) = (read', n', k')"
  shows "keep_ok se k' \<and> k_store k' = k_store k \<and> read \<le> read'
    \<and> (\<forall>p. p \<notin> f_path ` set rows \<longrightarrow> sealed_view_of k' holder p = sealed_view_of k holder p)
    \<and> (read' < budget \<longrightarrow> (\<forall>row \<in> set rows. can_be_shown se (k_store k) row \<longrightarrow> shown k' holder row))"
  using assms(3-7)
proof (induction rows arbitrary: read n k)
  case (Cons row rows)
  obtain read1 n1 k1 where one: "prepare_row se holder budget row (read, n, k) = (read1, n1, k1)" by (metis prod_cases3)
  note step = prepare_row_ok [OF assms(1,2) Cons.prems(1,2) _ one]
  have row: "keep_ok se k1" "k_store k1 = k_store k" "read \<le> read1"
      "\<And>p. p \<noteq> f_path row \<Longrightarrow> sealed_view_of k1 holder p = sealed_view_of k holder p"
      "read < budget \<Longrightarrow> can_be_shown se (k_store k) row \<Longrightarrow> shown k1 holder row"
    using step Cons.prems(3) by auto
  have rest: "keep_ok se k'" "k_store k' = k_store k1" "read1 \<le> read'"
      "\<And>p. p \<notin> f_path ` set rows \<Longrightarrow> sealed_view_of k' holder p = sealed_view_of k1 holder p"
      "\<And>r. read' < budget \<Longrightarrow> r \<in> set rows \<Longrightarrow> can_be_shown se (k_store k1) r \<Longrightarrow> shown k' holder r"
    using Cons.IH [of k1 read1 n1] Cons.prems row(1,2) one by auto
  have "shown k' holder row = shown k1 holder row" using rest(4) [of "f_path row"] Cons.prems(4) by (simp add: shown_def)
  moreover have "sealed_view_of k' holder p = sealed_view_of k holder p" if "p \<notin> f_path ` set (row # rows)" for p
    using that rest(4) [of p] row(4) [of p] by simp
  moreover have "shown k' holder r" if "read' < budget" "r \<in> set (row # rows)" "can_be_shown se (k_store k) r" for r
    using that rest(5) [of r] row(2,3,5) rest(3) \<open>shown k' holder row = shown k1 holder row\<close> by auto
  moreover have "k_store k' = k_store k" "read \<le> read'" using row(2,3) rest(2,3) by simp_all
  ultimately show ?case using rest(1) by blast
qed simp

definition parts_readable :: "sealing \<Rightarrow> keeping \<Rightarrow> device_id \<Rightarrow> hash \<Rightarrow> bool" where
  \<comment> \<open>the chunks behind the ids of one sealed file\<close>
  "parts_readable se k holder sealed \<longleftrightarrow>
     (\<forall>r \<in> set (k_parts k). \<forall>h. p_holder r = holder \<and> p_part r = Piece h \<and> p_id r \<in> fst ` set (parts_of k holder sealed) \<longrightarrow>
        (\<exists>b. read_chunk (se_hash se) (k_store k) h = Inr b))"

lemma sealed_chunk_served:
  assumes "crypto_ok (se_crypto se)" and "inj (se_hash se)" and "keep_ok se k"
    and "parts_readable se k holder sealed" and "r \<in> set (k_parts k)" and "p_holder r = holder" and "p_id r = se_hash se x"
    and "p_id r \<in> fst ` set (parts_of k holder sealed)"
  shows "sealed_chunk se k holder (p_id r) = Some x"
proof -
  obtain q where q: "find (\<lambda>q. p_holder q = holder \<and> p_id q = p_id r) (k_parts k) = Some q"
    using assms(5,6) by (cases "find (\<lambda>q. p_holder q = holder \<and> p_id q = p_id r) (k_parts k)") (auto simp: find_None_iff)
  then have q': "q \<in> set (k_parts k)" "p_holder q = holder" "p_id q = p_id r" by (auto simp: find_Some_iff)
  then have ok: "part_ok se q" using assms(3) unfolding keep_ok_def by blast
  show ?thesis
  proof (cases "p_part q")
    case (Header b)
    then have "se_hash se b = se_hash se x" using ok q'(3) assms(7) by (simp add: part_ok_def)
    then have "b = x" by (rule injD [OF assms(2)])
    then show ?thesis using q Header by (simp add: sealed_chunk_def sealed_part_of_def)
  next
    case (Piece h)
    then obtain b where b: "h = se_hash se b" "p_id q = se_hash se (seal_chunk (se_crypto se) (key_for se holder) b)"
      using ok q'(2) by (auto simp: part_ok_def)
    obtain b' where read: "read_chunk (se_hash se) (k_store k) h = Inr b'" using assms(4) [unfolded parts_readable_def, rule_format, of q h] assms(8) q' Piece by auto
    then have "se_hash se b' = se_hash se b" using read_chunk_hash b(1) by blast
    then have "b' = b" by (rule injD [OF assms(2)])
    have "se_hash se (seal_chunk (se_crypto se) (key_for se holder) b) = se_hash se x" using b(2) q'(3) assms(7) by simp
    then have "seal_chunk (se_crypto se) (key_for se holder) b = x" by (rule injD [OF assms(2)])
    then have "seal_chunk (se_crypto se) (key_for se holder) b' = x" using \<open>b' = b\<close> by simp
    then show ?thesis using q Piece read assms(7) by (simp add: sealed_chunk_def sealed_part_of_def Let_def)
  qed
qed

lemma view_served:
  assumes "crypto_ok (se_crypto se)" and "inj (se_hash se)" and "keep_ok se k" and "w \<in> set (k_views k)"
    and "parts_readable se k (v_holder w) (v_sealed w)"
  shows "\<exists>ids pieces. sealed_manifest k (v_holder w) (v_sealed w) = Some ids
    \<and> map (sealed_chunk se k (v_holder w)) ids = map Some pieces \<and> se_hash se (concat pieces) = v_sealed w
    \<and> (\<forall>cut. concat cut = concat pieces \<longrightarrow>
        (\<exists>out u. push_all (se_crypto se) (unsealer_new (key_for se (v_holder w))) cut = Inr (out, u) \<and> unseal_finished u
          \<and> map_option sm_path (un_meta u) = Some (v_path w) \<and> se_hash se (concat out) = v_content w))"
proof -
  let ?c = "se_crypto se" and ?key = "key_for se (v_holder w)" and ?H = "se_hash se"
  obtain m plains where seals: "view_seals se w m plains" and made: "parts_of k (v_holder w) (v_sealed w) = parts_made se (v_holder w) m plains"
    using assms(3,4) unfolding keep_ok_def by blast
  have m: "meta_ok m" "map length plains = map unat (sm_chunks m)" "sm_path m = v_path w" "?H (concat plains) = v_content w"
      "v_sealed w = ?H (sealed_file se (v_holder w) m plains)"
    using seals by (simp_all add: view_seals_def)
  let ?pieces = "seal_header ?c ?key m # map (seal_chunk ?c ?key) plains"
  have whole: "concat ?pieces = sealed_file se (v_holder w) m plains" by (simp add: sealed_file_def)
  have ids: "map fst (parts_of k (v_holder w) (v_sealed w)) = map ?H ?pieces"
    by (simp add: made parts_made_def Let_def o_def)
  then have "sealed_manifest k (v_holder w) (v_sealed w) = Some (map ?H ?pieces)"
    by (simp add: sealed_manifest_def parts_of_def o_def Let_def)
  moreover have "sealed_chunk se k (v_holder w) (?H x) = Some x" if x: "x \<in> set ?pieces" for x
  proof -
    have "?H x \<in> fst ` set (parts_of k (v_holder w) (v_sealed w))" using x ids by (metis image_eqI list.set_map)
    moreover from this obtain r where "r \<in> set (k_parts k)" "p_holder r = v_holder w" "p_id r = ?H x" by (auto simp: parts_of_def)
    ultimately show ?thesis using sealed_chunk_served [OF assms(1-3,5)] by metis
  qed
  then have "map (sealed_chunk se k (v_holder w)) (map ?H ?pieces) = map Some ?pieces" unfolding map_map by (intro map_cong) simp_all
  moreover have "?H (concat ?pieces) = v_sealed w" unfolding whole m(5) ..
  moreover have "\<exists>out u. push_all ?c (unsealer_new ?key) cut = Inr (out, u) \<and> unseal_finished u
      \<and> map_option sm_path (un_meta u) = Some (v_path w) \<and> ?H (concat out) = v_content w" if "concat cut = concat ?pieces" for cut
  proof -
    have "length plains = length (sm_chunks m)" using m(2) by (metis length_map)
    then show ?thesis
      using whole_file_opens [OF assms(1) m(1,2), of ?key] m(3,4)
      unfolding push_all_new that whole sealed_file_def by (simp add: unseal_finished_def)
  qed
  ultimately show ?thesis by blast
qed

text \<open>C15: A keeper is shown the vault, sealed. After any preparation the tables still hold what was sealed;
  unless the budget ran out, every file whose path is not too long (\<open>MAX_SEALED_PATH\<close>) and whose bytes
  are here is in the list; and a file of the list, as long as the chunks it was sealed from can still
  be read here -- one freed since stays listed and is not served -- is served whole: its pieces hash to
  what the list says, and, however the keeper cuts them, they open with the guest's key to the file of
  that path with the content the index has.\<close>

theorem keeper_is_shown_the_vault:
  fixes se :: sealing and holder :: device_id
  defines "c \<equiv> se_crypto se" and "key \<equiv> for_host (se_crypto se) (se_key se) holder"
  assumes "crypto_ok c" and "inj (se_hash se)" and "store_fits (se_hash se) (k_store k)" and "keep_ok se k"
    and "fold (prepare_row se holder budget) (own_vault_rows (s_index (k_store k))) (0, 0, k) = (read, n, k')"
  shows "prepare_sealed se holder budget k = (n, k') \<and> keep_ok se k' \<and> k_store k' = k_store k
    \<and> (read < budget \<longrightarrow> (\<forall>row \<in> set (own_vault_rows (s_index (k_store k))). can_be_shown se (k_store k) row \<longrightarrow>
        (\<exists>v \<in> set (sealed_tree_for se k' holder). open_name c key (path v) = Some (f_path row) \<and> \<not> is_deleted v)))
    \<and> (\<forall>v \<in> set (sealed_tree_for se k' holder). \<forall>sealed sz. content v = File sealed sz
        \<and> parts_readable se k' holder sealed \<longrightarrow>
      (\<exists>row ids pieces. row \<in> set (own_vault_rows (s_index (k_store k))) \<and> open_name c key (path v) = Some (f_path row)
        \<and> sealed_manifest k' holder sealed = Some ids \<and> map (sealed_chunk se k' holder) ids = map Some pieces
        \<and> se_hash se (concat pieces) = sealed
        \<and> (\<forall>cut. concat cut = concat pieces \<longrightarrow> (\<exists>out u. push_all c (unsealer_new key) cut = Inr (out, u) \<and> unseal_finished u
            \<and> map_option sm_path (un_meta u) = Some (f_path row) \<and> se_hash se (concat out) = f_hash row))))"
proof -
  let ?ix = "s_index (k_store k)" and ?H = "se_hash se"
  let ?rows = "own_vault_rows ?ix"
  have own: "set ?rows \<subseteq> set (files ?ix)" by (auto simp: own_vault_rows_def)
  have ix: "index_ok ?ix" and fits: "\<And>f. f \<in> set (files ?ix) \<Longrightarrow> valid_str (f_path f)"
    using assms(5) by (auto simp: store_fits_def)
  have "distinct (map f_path (filter (\<lambda>f. f_scope f = Some (me ?ix) \<and> \<not> f_held f) (files ?ix)))"
    using index_okD(4) [OF ix] by (auto simp: distinct_map inj_on_def)
  then have "distinct (map f_path ?rows)" unfolding own_vault_rows_def by (simp add: distinct_map)
  from prepare_all [OF assms(3) [unfolded c_def] assms(4-6) own this assms(7)]
  have k': "keep_ok se k'" "k_store k' = k_store k" and all: "\<And>row. read < budget \<Longrightarrow> row \<in> set ?rows \<Longrightarrow> can_be_shown se (k_store k) row \<Longrightarrow> shown k' holder row"
    by auto
  have "\<exists>v \<in> set (sealed_tree_for se k' holder). open_name c key (path v) = Some (f_path row) \<and> \<not> is_deleted v"
    if row: "read < budget" "row \<in> set ?rows" "can_be_shown se (k_store k) row" for row
  proof -
    obtain w where w: "sealed_view_of k' holder (f_path row) = Some w" "v_content w = f_hash row"
      using all [OF row] by (auto simp: shown_def)
    have "length (f_path row) \<le> MAX_SEALED_PATH" "f_deleted row = None" using row(3) by (simp_all add: can_be_shown_def)
    then obtain name where name: "seal_name c key (f_path row) = Some name" by (simp add: seal_name_def)
    let ?v = "(row_to_version row)\<lparr>path := name, area := Hold, content := File (v_sealed w) (word_of_nat (v_size w))\<rparr>"
    have "sealed_version se k' holder row = Some ?v"
      using w name \<open>f_deleted row = None\<close> by (simp add: sealed_version_def c_def key_def)
    then have "?v \<in> set (sealed_tree_for se k' holder)"
      using row(2) k'(2) by (force simp: sealed_tree_for_def List.map_filter_def)
    moreover have "open_name c key name = Some (f_path row)" using name_opens [OF assms(3) fits name] own row(2) by blast
    ultimately show ?thesis by (intro bexI [of _ ?v]) (simp_all add: is_deleted_def content_is_deleted_def)
  qed
  moreover have "prepare_sealed se holder budget k = (n, k')" using assms(7) by (simp add: prepare_sealed_def)
  moreover have "\<exists>row ids pieces. row \<in> set ?rows \<and> open_name c key (path v) = Some (f_path row)
        \<and> sealed_manifest k' holder sealed = Some ids \<and> map (sealed_chunk se k' holder) ids = map Some pieces
        \<and> ?H (concat pieces) = sealed
        \<and> (\<forall>cut. concat cut = concat pieces \<longrightarrow> (\<exists>out u. push_all c (unsealer_new key) cut = Inr (out, u) \<and> unseal_finished u
            \<and> map_option sm_path (un_meta u) = Some (f_path row) \<and> ?H (concat out) = f_hash row))"
    if v: "v \<in> set (sealed_tree_for se k' holder)" "content v = File sealed sz"
      and here: "parts_readable se k' holder sealed"
    for v sealed sz
  proof -
    obtain row where row: "row \<in> set ?rows" "sealed_version se k' holder row = Some v"
      using v(1) k'(2) by (auto simp: sealed_tree_for_def List.map_filter_def)
    then obtain name w where name: "seal_name c key (f_path row) = Some name" "path v = name"
        and w: "sealed_view_of k' holder (f_path row) = Some w" "v_content w = f_hash row" "v_sealed w = sealed"
      using v(2) by (auto simp: sealed_version_def Let_def row_to_version_def c_def key_def split: option.splits if_splits)
    have w': "w \<in> set (k_views k')" "v_holder w = holder" "v_path w = f_path row"
      using w(1) by (auto simp: sealed_view_of_def find_Some_iff)
    have "open_name c key (path v) = Some (f_path row)" using name_opens [OF assms(3) fits name(1)] own row(1) name(2) by blast
    then show ?thesis
      using view_served [OF assms(3) [unfolded c_def] assms(4) k'(1) w'(1)] here row(1)
      unfolding w(2,3) w'(2,3) k'(2) c_def key_def by blast
  qed
  ultimately show ?thesis using k' by blast
qed

subsection \<open>Opened where it is kept\<close>

lemma read_chunks_pieces:
  assumes "read_chunks H st hs = Inr data"
  shows "\<exists>ps. concat ps = data \<and> map (read_chunk H st) hs = map Inr ps"
  using assms
proof (induction hs arbitrary: data)
  case (Cons h hs)
  then obtain b rest where b: "read_chunk H st h = Inr b" "read_chunks H st hs = Inr rest" "data = b @ rest"
    by (auto simp: and_then_Inr_iff)
  then obtain ps where "concat ps = rest" "map (read_chunk H st) hs = map Inr ps" using Cons.IH by blast
  then show ?case using b by (intro exI [of _ "b # ps"]) simp
qed simp

lemma unseal_loop_pushes:
  assumes "map (read_chunk H st) hs = map Inr ps" and "push_all c u ps = Inr (out, u')"
  shows "unseal_loop H c st sealed hs u = Inr (concat out, u')"
  using assms
proof (induction hs arbitrary: ps u out)
  case (Cons h hs)
  then obtain p ps' where ps: "ps = p # ps'" "read_chunk H st h = Inr p" "map (read_chunk H st) hs = map Inr ps'" by (cases ps) auto
  then obtain o1 u1 o2 where "push c u p = Inr (o1, u1)" "push_all c u1 ps' = Inr (o2, u')" "out = o1 @ o2"
    using Cons.prems(2) by (auto simp: and_then_Inr_iff)
  then show ?case using ps Cons.IH by simp
qed (auto simp: push_def)

lemma push_keeps: "push c u b = Inr (out, u') \<Longrightarrow> un_meta u = Some m \<Longrightarrow> un_meta u' = Some m"
  by (auto simp: push_def dest!: open_ready_keeps)

lemma read_meta_opens:
  assumes "map (read_chunk H st) hs = map Inr ps" and "push c u [] = Inr ([], u)" and "un_meta u = None"
    and "push c u (concat ps) = Inr (out, u')" and "un_meta u' = Some m"
  shows "read_meta H c st hs u = Some m"
  using assms
proof (induction hs arbitrary: ps u out)
  case (Cons h hs)
  then obtain p ps' where ps: "ps = p # ps'" "read_chunk H st h = Inr p" "map (read_chunk H st) hs = map Inr ps'" by (cases ps) auto
  then obtain o1 u1 o2 where one: "push c u p = Inr (o1, u1)" and rest: "push c u1 (concat ps') = Inr (o2, u')"
    using Cons.prems(4) by (auto simp: push_append and_then_Inr_iff)
  have settled: "push c u1 [] = Inr ([], u1)" using push_append [of c u p "[]"] one by (auto simp: and_then_Inr_iff dest: sym)
  show ?case
  proof (cases "un_meta u1")
    case None
    then show ?thesis using Cons.IH [OF ps(3) settled None rest Cons.prems(5)] ps(2) one by simp
  next
    case (Some m1)
    then have "m1 = m" using push_keeps [OF rest] Cons.prems(5) by simp
    then show ?thesis using Some ps(2) one by simp
  qed
qed auto

text \<open>C17: The folder opens where it is kept. Given the guest's key, the computer lists each file it keeps of
  the guest under its real path, with its size and time, finds it by that path, and writes it out as
  it was; asked for it as another path it writes nothing and says the file is damaged.\<close>

theorem kept_folder_opens:
  assumes "crypto_ok c" and "meta_ok m" and "map length plains = map unat (sm_chunks m)" and "H (concat plains) = sm_content m"
    and "(name, sealed, sz) \<in> set (kept_entries (s_index st) person)" and "seal_name c key (sm_path m) = Some name"
    and "distinct (map fst (kept_entries (s_index st) person))"
    and "any_file_with_content (s_index st) sealed = Some fid"
    and "read_chunks H st (chunk_hashes_for (s_index st) fid) = Inr (seal_header c key m @ concat (map (seal_chunk c key) plains))"
  shows "\<lparr>kf_path = sm_path m, kf_size = sm_size m, kf_modified = sm_modified m, kf_sealed = sealed\<rparr> \<in> set (open_kept H c st person key)
    \<and> kept_file_of c (s_index st) person key (sm_path m) = Some sealed
    \<and> unseal_kept H c st key sealed (sm_path m) = Inr (concat plains)
    \<and> (\<forall>p. p \<noteq> sm_path m \<longrightarrow> unseal_kept H c st key sealed p = Inl (ChunkCorrupt sealed))"
proof -
  let ?hs = "chunk_hashes_for (s_index st) fid" and ?fin = "\<lparr>un_key = key, un_pending = [], un_meta = Some m, un_next = length plains\<rparr>"
  have count: "length plains = length (sm_chunks m)" using assms(3) by (metis length_map)
  obtain ps where ps: "concat ps = seal_header c key m @ concat (map (seal_chunk c key) plains)" "map (read_chunk H st) ?hs = map Inr ps"
    using read_chunks_pieces [OF assms(9)] by blast
  have whole: "push c (unsealer_new key) (concat ps) = Inr (plains, ?fin)" unfolding ps(1) by (rule whole_file_opens [OF assms(1-3)])
  have "unseal_loop H c st sealed ?hs (unsealer_new key) = Inr (concat plains, ?fin)"
    by (rule unseal_loop_pushes [OF ps(2)]) (simp only: push_all_new whole)
  then have unseal: "unseal_kept H c st key sealed p = (if p = sm_path m then Inr (concat plains) else Inl (ChunkCorrupt sealed))" for p
    using assms(4,8) count by (auto simp: unseal_kept_def unseal_finished_def)
  have "read_meta H c st ?hs (unsealer_new key) = Some m"
    by (rule read_meta_opens [OF ps(2) _ _ whole]) (simp_all add: push_def unsealer_new_def)
  moreover have "open_name c key name = Some (sm_path m)"
    using name_opens [OF assms(1) _ assms(6)] assms(2) by (simp add: meta_ok_def)
  ultimately have "\<lparr>kf_path = sm_path m, kf_size = sm_size m, kf_modified = sm_modified m, kf_sealed = sealed\<rparr> \<in> set (open_kept H c st person key)"
    using assms(5,8) by (force simp: open_kept_def List.map_filter_def)
  moreover have "kept_file_of c (s_index st) person key (sm_path m) = Some sealed"
  proof -
    obtain e where e: "find (\<lambda>(n, _). n = name) (kept_entries (s_index st) person) = Some e"
      using assms(5) by (cases "find (\<lambda>(n, _). n = name) (kept_entries (s_index st) person)") (auto simp: find_None_iff)
    then have "e \<in> set (kept_entries (s_index st) person)" "fst e = name" by (auto simp: find_Some_iff split_beta)
    then have "snd e = (sealed, sz)" using eq_key_imp_eq_value [OF assms(7), of name "snd e"] assms(5) by (metis prod.collapse)
    then show ?thesis using assms(6) e by (simp add: kept_file_of_def split_beta)
  qed
  ultimately show ?thesis using unseal by simp
qed

lemma fetched_back_stays:
  \<comment> \<open>a file fetched back is the one the index has, changes no other, and is not let go of for a day\<close>
  assumes "store_ok (k_store k)" and "restore_kept sealed H cdc now p staged mtime k = Inr k'"
  shows "(\<exists>row. own_vault_row (s_index (k_store k)) p = Some row \<and> H staged = f_hash row)
    \<and> s_tree (k_store k') = map_option (\<lambda>tree. tree(p \<mapsto> staged)) (s_tree (k_store k))
    \<and> (now' < now + KEPT_OPENED_FOR \<longrightarrow> p \<notin> set (kept_by_hosts db now' k'))"
proof -
  obtain tree row where tree: "s_tree (k_store k) = Some tree" and row: "own_vault_row (s_index (k_store k)) p = Some row"
      and hash: "H staged = f_hash row"
      and k': "k' = note_kept_opened now p (k\<lparr>k_store := snd (put_manifest sealed now p (chunk_bytes H cdc staged) staged mtime
        ((pl_remote (row_to_version row))\<lparr>pl_vault := Some (me (s_index (k_store k))), pl_rewrite := True\<rparr>)
        ((k_store k)\<lparr>s_tree := Some (tree(p \<mapsto> staged))\<rparr>))\<rparr>)"
    using assms(2) by (auto simp: restore_kept_def Let_def split: option.splits if_splits)
  let ?pl = "(pl_remote (row_to_version row))\<lparr>pl_vault := Some (me (s_index (k_store k))), pl_rewrite := True\<rparr>"
  have "f_path row = p" using row by (auto simp: own_vault_row_def live_row_in_def find_Some_iff)
  then have "about p ?pl" by (simp add: about_def pl_remote_def row_to_version_def)
  moreover have "store_ok ((k_store k)\<lparr>s_tree := Some (tree(p \<mapsto> staged))\<rparr>)" using assms(1) by simp
  ultimately have "s_tree (k_store k') = Some (tree(p \<mapsto> staged))"
    using put_rows [of "(k_store k)\<lparr>s_tree := Some (tree(p \<mapsto> staged))\<rparr>" p ?pl sealed now "chunk_bytes H cdc staged" staged mtime]
    by (simp add: k' note_kept_opened_def rows_but_def) (metis prod.collapse)
  moreover have "p \<notin> set (kept_by_hosts db now' k')" if "now' < now + KEPT_OPENED_FOR"
    using that by (auto simp: kept_by_hosts_def k' note_kept_opened_def KEPT_OPENED_FOR_def Let_def split: if_splits)
  ultimately show ?thesis using tree row hash by simp
qed

subsection \<open>A note on a phone and at the computer it visits\<close>

definition one_file :: "device_id \<Rightarrow> string \<Rightarrow> bytes \<Rightarrow> bool \<Rightarrow> device_id \<Rightarrow> store" where
  \<comment> \<open>one file of one chunk, in a vault; a chunk's hash is the chunk\<close>
  "one_file who p data kept d =
     \<lparr>s_index = (index_new d)\<lparr>
        chunks := [data \<mapsto> \<lparr>c_size = length data, c_stored = length data, c_refs = 1, c_since = None\<rparr>],
        files := [\<lparr>f_id = 0, f_path = p, f_size = length data, f_hash = data, f_mtime = 0, f_updated = 7, f_deleted = None,
          f_vector = vv_new, f_by = d, f_here = True, f_touched = 0, f_wanted = False, f_scope = Some who, f_held = kept\<rparr>],
        links := [(0, data)]\<rparr>,
      s_cas = [data \<mapsto> data], s_tree = None, s_outside = (\<lambda>_. None), s_new_private = False, s_racy = (\<lambda>_. False)\<rparr>"

lemma one_file_read: "H data = data \<Longrightarrow> read_chunks H (one_file who p data kept d) [data] = Inr data"
  by (simp add: read_chunk_def stored_chunk_def one_file_def)

lemma one_file_listed: "chunk_hashes_for (s_index (one_file who p data kept d)) 0 = [data]"
  by (simp add: one_file_def chunk_hashes_for_def index_new_def)

lemma one_file_fits:
  assumes "valid_str p" and "length data = 32"
  shows "store_fits (\<lambda>x. x) (one_file who p data kept d)"
proof -
  have "index_ok (s_index (one_file who p data kept d))"
    by (auto simp: index_ok_def one_file_def index_new_def chunk_ok_def)
  moreover have "length b = c_size r \<and> c_size r < 2 ^ 32"
    if "chunks (s_index (one_file who p data kept d)) h = Some r" "read_chunk (\<lambda>x. x) (one_file who p data kept d) h = Inr b" for h r b
    using that(1) read_chunk_hash [OF that(2)] assms(2) by (auto simp: one_file_def split: if_splits)
  ultimately show ?thesis
    using assms one_file_listed [of who p data kept d] one_file_read [of "\<lambda>x. x" data who p kept d]
    by (auto simp: store_fits_def one_file_def)
qed

definition note_data :: bytes where
  "note_data = replicate 32 5"

definition phone_sealing :: sealing where
  "phone_sealing = \<lparr>se_hash = (\<lambda>x. x), se_crypto = plain_folder_crypto, se_key = [1]\<rparr>"

definition phone_keeping :: keeping where
  "phone_keeping = \<lparr>k_store = one_file (DeviceId [1]) ''Notes/a.md'' note_data False (DeviceId [1]), k_views = [], k_parts = [], k_opened = (\<lambda>_. None)\<rparr>"

lemma phone_rows: "own_vault_rows (s_index (k_store phone_keeping)) = files (s_index (k_store phone_keeping))"
    "fst (fold (prepare_row phone_sealing (DeviceId [2]) 1000) (own_vault_rows (s_index (k_store phone_keeping))) (0, 0, phone_keeping)) \<le> 32"
proof -
  have rows: "own_vault_rows (s_index (k_store phone_keeping)) = files (s_index (k_store phone_keeping))"
    by (simp add: own_vault_rows_def phone_keeping_def one_file_def index_new_def)
  then show "own_vault_rows (s_index (k_store phone_keeping)) = files (s_index (k_store phone_keeping))" .
  let ?row = "hd (files (s_index (k_store phone_keeping)))"
  have one: "files (s_index (k_store phone_keeping)) = [?row]" by (simp add: phone_keeping_def one_file_def)
  have "fst (prepare_row phone_sealing (DeviceId [2]) 1000 ?row (0, 0, phone_keeping)) \<le> 32"
  proof -
    have "chunks_with_sizes (s_index (k_store phone_keeping)) (f_id ?row) = [(note_data, 32)]"
      by (simp add: chunks_with_sizes_def phone_keeping_def one_file_def chunk_hashes_for_def index_new_def List.map_filter_def note_data_def)
    moreover have "seal_pieces phone_sealing key (k_store phone_keeping) [note_data] 0 = (Some [(seal_chunk plain_folder_crypto key note_data, note_data)], 32)" for key
      by (simp add: phone_sealing_def phone_keeping_def read_chunk_def stored_chunk_def one_file_def note_data_def)
    ultimately show ?thesis
      by (simp add: prepare_row_def Let_def view_made_def split: option.split del: seal_pieces.simps)
  qed
  then show "fst (fold (prepare_row phone_sealing (DeviceId [2]) 1000) (own_vault_rows (s_index (k_store phone_keeping))) (0, 0, phone_keeping)) \<le> 32"
    unfolding rows by (subst one) simp
qed

theorem keeper_is_shown_the_vault_witness:
  "\<exists>n k'. prepare_sealed phone_sealing (DeviceId [2]) 1000 phone_keeping = (n, k') \<and> keep_ok phone_sealing k'
    \<and> (\<exists>v \<in> set (sealed_tree_for phone_sealing k' (DeviceId [2])).
        open_name plain_folder_crypto (for_host plain_folder_crypto [1] (DeviceId [2])) (path v) = Some ''Notes/a.md'')"
proof -
  obtain read n k' where run: "fold (prepare_row phone_sealing (DeviceId [2]) 1000) (own_vault_rows (s_index (k_store phone_keeping)))
      (0, 0, phone_keeping) = (read, n, k')"
    by (metis prod_cases3)
  then have "read < 1000" using phone_rows(2) by simp
  let ?row = "hd (files (s_index (k_store phone_keeping)))"
  have crypto: "crypto_ok (se_crypto phone_sealing)" using plain_folder_crypto_ok by (simp add: phone_sealing_def)
  have inj: "inj (se_hash phone_sealing)" by (simp add: phone_sealing_def)
  have fits: "store_fits (se_hash phone_sealing) (k_store phone_keeping)"
    using one_file_fits [OF sample_names] by (simp add: phone_sealing_def phone_keeping_def note_data_def)
  have ok: "keep_ok phone_sealing phone_keeping" by (simp add: keep_ok_def phone_keeping_def)
  have row: "?row \<in> set (own_vault_rows (s_index (k_store phone_keeping)))" "f_path ?row = ''Notes/a.md''"
    unfolding phone_rows(1) by (simp_all add: phone_keeping_def one_file_def)
  have "read_chunks (\<lambda>x. x) (k_store phone_keeping) [note_data] = Inr note_data"
    using one_file_read [of "\<lambda>x. x" note_data "DeviceId [1]" "''Notes/a.md''" False "DeviceId [1]"] by (simp add: phone_keeping_def)
  then have "can_be_shown phone_sealing (k_store phone_keeping) ?row"
    using one_file_listed [of "DeviceId [1]" "''Notes/a.md''" note_data False "DeviceId [1]"]
    by (auto simp: can_be_shown_def phone_sealing_def phone_keeping_def one_file_def MAX_SEALED_PATH_def)
  note shown = keeper_is_shown_the_vault [OF crypto inj fits ok run]
  have "\<exists>v \<in> set (sealed_tree_for phone_sealing k' (DeviceId [2])).
      open_name (se_crypto phone_sealing) (for_host (se_crypto phone_sealing) (se_key phone_sealing) (DeviceId [2])) (path v) = Some (f_path ?row)"
    using shown \<open>read < 1000\<close> row(1) \<open>can_be_shown phone_sealing (k_store phone_keeping) ?row\<close> by blast
  then show ?thesis using shown row(2) by (simp add: phone_sealing_def)
qed

definition greeting_hash :: blake3 where
  "greeting_hash x = (if length x = 5 then replicate 32 1 else x)"

definition sample_file :: bytes where
  "sample_file = seal_header plain_folder_crypto [1] sample_meta
     @ concat (map (seal_chunk plain_folder_crypto [1]) [[104, 101], [108, 108, 111]])"

definition sample_name :: string where
  "sample_name = the (seal_name plain_folder_crypto [1] ''Notes/a.md'')"

theorem kept_folder_opens_witness:
  "unseal_kept greeting_hash plain_folder_crypto (one_file (DeviceId [9]) sample_name sample_file True (DeviceId [2])) [1] sample_file
     ''Notes/a.md'' = Inr [104, 101, 108, 108, 111]"
proof -
  let ?st = "one_file (DeviceId [9]) sample_name sample_file True (DeviceId [2])"
  have m: "meta_ok sample_meta" using sample_names by (simp add: meta_ok_def sample_meta_def MAX_SEALED_PATH_def)
  have lens: "map length [[104, 101], [108, 108, 111 :: u8]] = map unat (sm_chunks sample_meta)" by (simp add: sample_meta_def)
  have hash: "greeting_hash (concat [[104, 101], [108, 108, 111]]) = sm_content sample_meta" by (simp add: greeting_hash_def sample_meta_def)
  have long: "length sample_file > 5"
    using chunk_opens(2) [OF plain_folder_crypto_ok, of "[1]"] by (simp add: sample_file_def SEAL_OVERHEAD_def NONCE_LEN_def)
  have entries: "kept_entries (s_index ?st) (DeviceId [9]) = [(sample_name, sample_file, length sample_file)]"
    by (simp add: kept_entries_def one_file_def)
  have name: "seal_name plain_folder_crypto [1] (sm_path sample_meta) = Some sample_name"
    by (simp add: sample_name_def sample_meta_def seal_name_def MAX_SEALED_PATH_def)
  have fid: "any_file_with_content (s_index ?st) sample_file = Some 0"
    by (simp add: any_file_with_content_def one_file_def chunk_hashes_for_def index_new_def)
  have reads: "read_chunks greeting_hash ?st (chunk_hashes_for (s_index ?st) 0) = Inr sample_file"
    using one_file_read [of greeting_hash sample_file] long by (simp add: one_file_listed greeting_hash_def)
  have opens: "read_chunks greeting_hash ?st (chunk_hashes_for (s_index ?st) 0)
      = Inr (seal_header plain_folder_crypto [1] sample_meta @ concat (map (seal_chunk plain_folder_crypto [1]) [[104, 101], [108, 108, 111]]))"
    unfolding reads by (simp only: sample_file_def)
  have "(sample_name, sample_file, length sample_file) \<in> set (kept_entries (s_index ?st) (DeviceId [9]))"
    "distinct (map fst (kept_entries (s_index ?st) (DeviceId [9])))" by (simp_all add: entries)
  from kept_folder_opens [OF plain_folder_crypto_ok m lens hash this(1) name this(2) fid opens]
  show ?thesis by (simp add: sample_meta_def)
qed

end
