(* ===== verification/Openings.thy ===== *)
theory Openings imports Device
begin

section \<open>Folders opened with the phone's approval (\<open>crates/peer/src/openings.rs\<close>)\<close>

text \<open>
  The registry of the folders a computer has asked to open, and of those open here with their keys,
  which it holds in memory alone. A moment is read on two clocks: the monotonic one may stand still
  while the computer sleeps, and the wall clock may be set back. The random nonce of an ask is an
  argument. Times are in nanoseconds.
\<close>

record moment =
  mo_mono :: nat
  mo_wall :: nat

definition DURATION_MAX :: nat where
  "DURATION_MAX = (2 ^ 64 - 1) * 1000000000 + 999999999"

definition since_elapsed :: "moment \<Rightarrow> moment \<Rightarrow> nat" where
  \<comment> \<open>a wall clock set back counts as the time being up\<close>
  "since_elapsed now at = max (mo_mono now - mo_mono at) (if mo_wall at \<le> mo_wall now then mo_wall now - mo_wall at else DURATION_MAX)"

definition IDLE :: nat where "IDLE = 10 * 60 * 1000000000"

definition ASK_LIFETIME :: nat where "ASK_LIFETIME = 5 * 60 * 1000000000"

record registry =
  r_asks :: "device_id \<Rightarrow> (bytes \<times> moment) option"
  r_open :: "device_id \<Rightarrow> (bytes \<times> moment) option"

definition no_openings :: registry where
  "no_openings = \<lparr>r_asks = (\<lambda>_. None), r_open = (\<lambda>_. None)\<rparr>"

definition ask_to_open :: "moment \<Rightarrow> bytes \<Rightarrow> device_id \<Rightarrow> registry \<Rightarrow> registry" where
  "ask_to_open now nonce person r = r\<lparr>r_asks := (r_asks r)(person \<mapsto> (nonce, now))\<rparr>"

definition ask_waiting :: "moment \<Rightarrow> device_id \<Rightarrow> registry \<Rightarrow> bytes option \<times> registry" where
  "ask_waiting now person r =
     (case r_asks r person of
        Some (nonce, at) \<Rightarrow>
          if since_elapsed now at < ASK_LIFETIME then (Some nonce, r) else (None, r\<lparr>r_asks := (r_asks r)(person := None)\<rparr>)
      | None \<Rightarrow> (None, r))"

definition unlock_folder :: "moment \<Rightarrow> device_id \<Rightarrow> bytes \<Rightarrow> bytes \<Rightarrow> (bytes \<Rightarrow> bool) \<Rightarrow> registry \<Rightarrow> bool \<times> registry" where
  "unlock_folder now person nonce k fits r =
     (let asked = (case r_asks r person of Some (n, at) \<Rightarrow> n = nonce \<and> since_elapsed now at < ASK_LIFETIME | None \<Rightarrow> False)
      in if \<not> asked \<or> \<not> fits k then (False, r)
         else (True, r\<lparr>r_asks := (r_asks r)(person := None), r_open := (r_open r)(person \<mapsto> (k, now))\<rparr>))"

definition open_key :: "moment \<Rightarrow> device_id \<Rightarrow> registry \<Rightarrow> bytes option \<times> registry" where
  \<comment> \<open>a use: the idle time starts again\<close>
  "open_key now person r =
     (case r_open r person of
        Some (k, used) \<Rightarrow>
          if since_elapsed now used < IDLE then (Some k, r\<lparr>r_open := (r_open r)(person \<mapsto> (k, now))\<rparr>)
          else (None, r\<lparr>r_open := (r_open r)(person := None)\<rparr>)
      | None \<Rightarrow> (None, r))"

definition is_open :: "moment \<Rightarrow> device_id \<Rightarrow> registry \<Rightarrow> bool" where
  "is_open now person r = (case r_open r person of Some (_, used) \<Rightarrow> since_elapsed now used < IDLE | None \<Rightarrow> False)"

definition lock_folder :: "device_id \<Rightarrow> registry \<Rightarrow> registry" where
  "lock_folder person r = r\<lparr>r_open := (r_open r)(person := None), r_asks := (r_asks r)(person := None)\<rparr>"

subsection \<open>Runs\<close>

datatype opening_event =
    Asked device_id bytes
  | Looked device_id
  | Answered device_id bytes bytes "bytes \<Rightarrow> bool"
  | Used device_id
  | Locked device_id

fun opening_step :: "moment \<times> opening_event \<Rightarrow> registry \<Rightarrow> registry" where
  "opening_step (now, Asked p n) r = ask_to_open now n p r"
| "opening_step (now, Looked p) r = snd (ask_waiting now p r)"
| "opening_step (now, Answered p n k fits) r = snd (unlock_folder now p n k fits r)"
| "opening_step (now, Used p) r = snd (open_key now p r)"
| "opening_step (now, Locked p) r = lock_folder p r"

definition openings_after :: "(moment \<times> opening_event) list \<Rightarrow> registry" where
  "openings_after evs = fold opening_step evs no_openings"

lemma openings_after_simps [simp]:
  "openings_after [] = no_openings"
  "openings_after (evs @ [e]) = opening_step e (openings_after evs)"
  by (simp_all add: openings_after_def)

definition quiet :: "(opening_event \<Rightarrow> bool) \<Rightarrow> (moment \<times> opening_event) list \<Rightarrow> bool" where
  "quiet P evs \<longleftrightarrow> list_all (\<lambda>(_, e). \<not> P e) evs"

fun asks_or_locks :: "device_id \<Rightarrow> opening_event \<Rightarrow> bool" where
  "asks_or_locks p (Asked q _) = (q = p)"
| "asks_or_locks p (Locked q) = (q = p)"
| "asks_or_locks p _ = False"

fun locks :: "device_id \<Rightarrow> opening_event \<Rightarrow> bool" where
  "locks p (Locked q) = (q = p)"
| "locks p _ = False"

definition asked_for :: "device_id \<Rightarrow> bytes \<Rightarrow> moment \<Rightarrow> (moment \<times> opening_event) list \<Rightarrow> bool" where
  \<comment> \<open>the last ask for the folder, and it was not closed since\<close>
  "asked_for p n at evs \<longleftrightarrow> (\<exists>before after. evs = before @ (at, Asked p n) # after \<and> quiet (asks_or_locks p) after)"

fun uses :: "device_id \<Rightarrow> opening_event \<Rightarrow> bool" where
  "uses p (Used q) = (q = p)"
| "uses p _ = False"

definition use_times :: "device_id \<Rightarrow> (moment \<times> opening_event) list \<Rightarrow> moment list" where
  "use_times p evs = map fst (filter (\<lambda>(_, e). uses p e) evs)"

fun never_idle :: "moment \<Rightarrow> moment list \<Rightarrow> bool" where
  \<comment> \<open>each within the idle time of the one before\<close>
  "never_idle t [] = True"
| "never_idle t (u # us) \<longleftrightarrow> since_elapsed u t < IDLE \<and> never_idle u us"

definition approved :: "device_id \<Rightarrow> bytes \<Rightarrow> moment \<Rightarrow> (moment \<times> opening_event) list \<Rightarrow> bool" where
  \<comment> \<open>opened with the key by an answer to the ask waiting then, not closed since, never left unused for
    the idle time since, and last used at \<open>used\<close>\<close>
  "approved p k used evs \<longleftrightarrow>
     (\<exists>before n asked at fits after. evs = before @ (at, Answered p n k fits) # after
        \<and> asked_for p n asked before \<and> since_elapsed at asked < ASK_LIFETIME \<and> fits k
        \<and> quiet (locks p) after \<and> never_idle at (use_times p after) \<and> used = last (at # use_times p after))"

lemma use_times_simps [simp]:
  "use_times p [] = []" "use_times p (evs @ [(t, e)]) = use_times p evs @ (if uses p e then [t] else [])"
  by (simp_all add: use_times_def)

lemma never_idle_snoc [simp]: "never_idle t (us @ [u]) \<longleftrightarrow> never_idle t us \<and> since_elapsed u (last (t # us)) < IDLE"
  by (induction us arbitrary: t) auto

lemma quiet_snoc [simp]: "quiet P (evs @ [(t, e)]) \<longleftrightarrow> quiet P evs \<and> \<not> P e"
  by (auto simp: quiet_def)

lemma asked_for_snoc:
  assumes "asked_for p n at evs" and "\<not> asks_or_locks p e"
  shows "asked_for p n at (evs @ [(t, e)])"
  using assms unfolding asked_for_def by (metis append_Cons append_assoc quiet_snoc)

lemma asked_for_now: "asked_for p n t (evs @ [(t, Asked p n)])"
  unfolding asked_for_def quiet_def by (rule exI[of _ evs], rule exI[of _ "[]"]) simp

lemma approved_snoc:
  assumes "approved p k used evs" and "\<not> locks p e" and "uses p e \<longrightarrow> since_elapsed t used < IDLE"
  shows "approved p k (if uses p e then t else used) (evs @ [(t, e)])"
proof -
  from assms(1) obtain before n asked at fits after where
    "evs = before @ (at, Answered p n k fits) # after" "asked_for p n asked before" "since_elapsed at asked < ASK_LIFETIME"
    "fits k" "quiet (locks p) after" "never_idle at (use_times p after)" "used = last (at # use_times p after)"
    unfolding approved_def by blast
  then show ?thesis
    unfolding approved_def using assms(2,3)
    by (intro exI[of _ before] exI[of _ n] exI[of _ asked] exI[of _ at] exI[of _ fits] exI[of _ "after @ [(t, e)]"]) auto
qed

lemma approved_other: "approved p k used evs \<Longrightarrow> \<not> locks p e \<Longrightarrow> \<not> uses p e \<Longrightarrow> approved p k used (evs @ [(t, e)])"
  using approved_snoc[of p k used evs e t] by simp

lemma approved_used: "approved p k used evs \<Longrightarrow> since_elapsed t used < IDLE \<Longrightarrow> approved p k t (evs @ [(t, Used p)])"
  using approved_snoc[of p k used evs "Used p" t] by simp

lemma approved_now:
  assumes "asked_for p n asked evs" and "since_elapsed t asked < ASK_LIFETIME" and "fits k"
  shows "approved p k t (evs @ [(t, Answered p n k fits)])"
  unfolding approved_def quiet_def using assms
  by (intro exI[of _ evs] exI[of _ n] exI[of _ asked] exI[of _ t] exI[of _ fits] exI[of _ "[]"]) auto

definition registry_ok :: "(moment \<times> opening_event) list \<Rightarrow> registry \<Rightarrow> bool" where
  "registry_ok evs r \<longleftrightarrow> (\<forall>p n at. r_asks r p = Some (n, at) \<longrightarrow> asked_for p n at evs)
     \<and> (\<forall>p k used. r_open r p = Some (k, used) \<longrightarrow> approved p k used evs)"

lemma registry_ok_step:
  assumes ok: "registry_ok evs r"
  shows "registry_ok (evs @ [(t, e)]) (opening_step (t, e) r)"
proof (cases e)
  case (Asked q n)
  then show ?thesis using ok
    by (auto simp: registry_ok_def ask_to_open_def asked_for_now intro: asked_for_snoc approved_other split: if_splits)
next
  case (Looked q)
  then show ?thesis using ok
    by (auto simp: registry_ok_def ask_waiting_def intro: asked_for_snoc approved_other split: if_splits option.splits)
next
  case (Answered q n k fits)
  then show ?thesis using ok
    by (auto simp: registry_ok_def unlock_folder_def Let_def intro: asked_for_snoc approved_other approved_now
        split: if_splits option.splits)
next
  case (Used q)
  have "approved q a t (evs @ [(t, Used q)])" if "r_open r q = Some (a, b)" "since_elapsed t b < IDLE" for a b
    using ok that approved_used unfolding registry_ok_def by blast
  then show ?thesis using ok Used
    by (auto simp: registry_ok_def open_key_def intro: asked_for_snoc approved_other split: if_splits option.splits)
next
  case (Locked q)
  then show ?thesis using ok
    by (auto simp: registry_ok_def lock_folder_def intro: asked_for_snoc approved_other split: if_splits)
qed

lemma registry_ok_after: "registry_ok evs (openings_after evs)"
proof (induction evs rule: rev_induct)
  case Nil
  show ?case by (simp add: registry_ok_def no_openings_def)
next
  case (snoc e evs)
  then show ?case using registry_ok_step by (cases e) (auto simp del: opening_step.simps)
qed

fun opens :: "device_id \<Rightarrow> moment \<times> opening_event \<Rightarrow> registry \<Rightarrow> bool" where
  "opens p (now, Answered q n k fits) r \<longleftrightarrow> q = p \<and> fst (unlock_folder now q n k fits r)"
| "opens p _ r \<longleftrightarrow> False"

fun asks_for :: "device_id \<Rightarrow> moment \<times> opening_event \<Rightarrow> bool" where
  "asks_for p (_, Asked q _) \<longleftrightarrow> q = p"
| "asks_for p _ \<longleftrightarrow> False"

definition times_opened :: "device_id \<Rightarrow> (moment \<times> opening_event) list \<Rightarrow> nat" where
  "times_opened p evs =
     snd (fold (\<lambda>e (r, m). (opening_step e r, if opens p e r then Suc m else m)) evs (no_openings, 0))"

lemma times_opened_fold:
  "fold (\<lambda>e (r, m). (opening_step e r, if opens p e r then Suc m else m)) evs (no_openings, 0)
     = (openings_after evs, times_opened p evs)"
proof -
  have "fst (fold (\<lambda>e (r, m). (opening_step e r, if opens p e r then Suc m else m)) evs (r, m)) = fold opening_step evs r" for r m
    by (induction evs arbitrary: r m) auto
  then show ?thesis by (simp add: times_opened_def openings_after_def prod_eq_iff)
qed

lemma times_opened_simps [simp]:
  "times_opened p [] = 0"
  "times_opened p (evs @ [e]) = (if opens p e (openings_after evs) then Suc (times_opened p evs) else times_opened p evs)"
proof -
  show "times_opened p [] = 0" by (simp add: times_opened_def)
  have "times_opened p (evs @ [e])
      = snd (case (openings_after evs, times_opened p evs) of (r, m) \<Rightarrow> (opening_step e r, if opens p e r then Suc m else m))"
    by (simp add: times_opened_def[of p "evs @ [e]"] times_opened_fold)
  then show "times_opened p (evs @ [e]) = (if opens p e (openings_after evs) then Suc (times_opened p evs) else times_opened p evs)"
    by simp
qed

lemma opened_within_asked:
  "times_opened p evs + (if r_asks (openings_after evs) p = None then 0 else 1) \<le> length (filter (asks_for p) evs)"
proof (induction evs rule: rev_induct)
  case Nil
  show ?case by (simp add: no_openings_def)
next
  case (snoc e evs)
  obtain t x where e: "e = (t, x)" by (cases e)
  show ?case
  proof (cases x)
    case (Answered q n k fits)
    then show ?thesis using snoc e by (auto simp: unlock_folder_def Let_def split: option.splits if_splits)
  qed (use snoc e in \<open>auto simp: ask_to_open_def ask_waiting_def open_key_def lock_folder_def split: option.splits if_splits\<close>)
qed

lemma open_was_opened: "r_open (openings_after evs) p \<noteq> None \<Longrightarrow> 0 < times_opened p evs"
proof (induction evs rule: rev_induct)
  case Nil
  then show ?case by (simp add: no_openings_def)
next
  case (snoc e evs)
  obtain t x where e: "e = (t, x)" by (cases e)
  show ?case
  proof (cases x)
    case (Answered q n k fits)
    then show ?thesis using snoc e by (auto simp: unlock_folder_def Let_def split: option.splits if_splits)
  qed (use snoc e in \<open>auto simp: ask_to_open_def ask_waiting_def open_key_def lock_folder_def split: option.splits if_splits\<close>)
qed

text \<open>C30: a guest's folder is open with a key only when it was asked for here, the phone answered that
  ask, by its nonce, within five minutes and before another ask or a closing, the key opened one of the
  folder's names, it was not closed since, and from then on every use, and now, came less than ten
  minutes after the use before: once it has lapsed it stays shut until it is asked for and approved
  again. And it is opened no more times than it was asked for: an ask is answered once.\<close>

theorem folder_opens_as_approved:
  assumes "fst (open_key now p (openings_after evs)) = Some k"
  shows "(\<exists>used. approved p k used evs \<and> since_elapsed now used < IDLE)
     \<and> 0 < times_opened p evs \<and> times_opened p evs \<le> length (filter (asks_for p) evs)"
proof -
  obtain used where used: "r_open (openings_after evs) p = Some (k, used)" "since_elapsed now used < IDLE"
    using assms by (auto simp: open_key_def split: option.splits if_splits)
  then have "\<exists>used. approved p k used evs \<and> since_elapsed now used < IDLE"
    using registry_ok_after[of evs] unfolding registry_ok_def by blast
  moreover have "0 < times_opened p evs \<and> times_opened p evs \<le> length (filter (asks_for p) evs)"
    using opened_within_asked[of p evs] open_was_opened[of evs p] used(1) by auto
  ultimately show ?thesis by blast
qed

definition at_second :: "nat \<Rightarrow> moment" where
  "at_second s = \<lparr>mo_mono = s * 1000000000, mo_wall = s * 1000000000\<rparr>"

abbreviation (input) guest :: device_id where "guest \<equiv> DeviceId (replicate 32 7)"

definition evening :: "(moment \<times> opening_event) list" where
  \<comment> \<open>an answer that fits nothing, the right one, and two uses nine minutes apart\<close>
  "evening =
     [(at_second 0, Asked guest [1]), (at_second 20, Looked guest), (at_second 30, Answered guest [1] [8] (\<lambda>k. k = [9])),
          (at_second 40, Answered guest [1] [9] (\<lambda>k. k = [9])), (at_second 580, Used guest), (at_second 1120, Used guest)]"

lemmas evening_simps = evening_def openings_after_def no_openings_def ask_to_open_def ask_waiting_def unlock_folder_def
  open_key_def at_second_def since_elapsed_def IDLE_def ASK_LIFETIME_def DURATION_MAX_def times_opened_def

lemma evening_is_open: "fst (open_key (at_second 1700) guest (openings_after evening)) = Some [9]"
  by (simp add: evening_simps)

theorem folder_opens_as_approved_witness:
  "fst (open_key (at_second 1700) guest (openings_after evening)) = Some [9]
     \<and> (\<exists>used. approved guest [9] used evening \<and> since_elapsed (at_second 1700) used < IDLE)"
  using folder_opens_as_approved[OF evening_is_open] evening_is_open by blast

lemma asleep_is_locked:
  \<comment> \<open>eleven minutes asleep, the monotonic clock standing still\<close>
  "\<not> is_open \<lparr>mo_mono = mo_mono (at_second 1120), mo_wall = mo_wall (at_second 1780)\<rparr> guest (openings_after evening)"
  by (simp add: evening_simps is_open_def)

end
