(* ===== verification/Freeing.thy ===== *)
theory Freeing imports Keeper
begin

section \<open>Freeing a file, and who is told what\<close>

text \<open>
  \<open>Store::evict\<close> against the answers other devices get: the versions each is sent (\<open>versions_for\<close>,
  and \<open>sealed_tree_for\<close> for a computer that keeps this vault), and the contents and chunks it may
  ask for. Freeing a file clears \<open>materialised\<close> on its row, and none of these reads that column.
\<close>

subsection \<open>A column nobody else reads\<close>

lemma set_materialised_map: "\<exists>g. set_materialised p b ix = ix\<lparr>files := map g (files ix)\<rparr> \<and> (\<forall>f. \<exists>h. g f = f\<lparr>f_here := h\<rparr>)"
proof (intro exI conjI allI)
  let ?g = "\<lambda>f. if f_path f = p \<and> f_deleted f = None \<and> folder_scope ix f then f\<lparr>f_here := b\<rparr> else f"
  show "set_materialised p b ix = ix\<lparr>files := map ?g (files ix)\<rparr>" by (simp add: set_materialised_def)
  show "?g f = f\<lparr>f_here := if f_path f = p \<and> f_deleted f = None \<and> folder_scope ix f then b else f_here f\<rparr>" for f by simp
qed

definition here_only :: "(file_row \<Rightarrow> file_row) \<Rightarrow> bool" where
  \<comment> \<open>a change of the column \<open>materialised\<close> alone\<close>
  "here_only g \<longleftrightarrow> (\<forall>f. \<exists>h. g f = f\<lparr>f_here := h\<rparr>)"

lemma here_only_fields:
  assumes "here_only g"
  shows "f_id (g f) = f_id f" and "f_path (g f) = f_path f" and "f_hash (g f) = f_hash f"
    and "f_scope (g f) = f_scope f" and "f_held (g f) = f_held f" and "f_deleted (g f) = f_deleted f"
    and "row_to_version (g f) = row_to_version f"
proof -
  obtain h where "g f = f\<lparr>f_here := h\<rparr>" using assms unfolding here_only_def by blast
  then show "f_id (g f) = f_id f" and "f_path (g f) = f_path f" and "f_hash (g f) = f_hash f"
    and "f_scope (g f) = f_scope f" and "f_held (g f) = f_held f" and "f_deleted (g f) = f_deleted f"
    and "row_to_version (g f) = row_to_version f" by (simp_all add: row_to_version_def)
qed

lemma rows_shown_same:
  assumes "here_only g" and "\<And>f. P (g f) = P f" and "\<And>f. t (g f) = t f"
  shows "map t (sort_key f_path (filter P (map g rows))) = map t (sort_key f_path (filter P rows))"
proof -
  have "filter P (map g rows) = map g (filter P rows)" by (simp add: filter_map o_def assms(2))
  then show ?thesis
    by (simp add: sort_key_map [of f_path g, OF here_only_fields(2) [OF assms(1)]] o_def assms(3))
qed

lemma devices_same:
  "earlier_selves (db\<lparr>a_index := ix\<rparr>) d = earlier_selves db d"
  "shared_with (db\<lparr>a_index := ix\<rparr>) p o' = shared_with db p o'"
  "person_or_self (db\<lparr>a_index := ix\<rparr>) d = person_or_self db d"
  "is_holder (db\<lparr>a_index := ix\<rparr>) d = is_holder db d"
  "holds_vault_files (db\<lparr>a_index := ix\<rparr>) d = holds_vault_files db d"
proof -
  have "fits_as_later (db\<lparr>a_index := ix\<rparr>) = fits_as_later db" by (intro ext) (simp add: fits_as_later_def)
  then have "became (db\<lparr>a_index := ix\<rparr>) = became db"
    by (intro ext) (simp add: became_def split: option.split same.split)
  then show "earlier_selves (db\<lparr>a_index := ix\<rparr>) d = earlier_selves db d" by (simp add: earlier_selves_def)
qed (simp_all add: shared_with_def person_or_self_def is_holder_def holds_vault_files_def)

lemma versions_for_here:
  assumes "here_only g"
  shows "versions_for (db\<lparr>a_index := ix\<lparr>files := map g (files ix)\<rparr>\<rparr>) a = versions_for (db\<lparr>a_index := ix\<rparr>) a"
  by (cases a)
    (simp_all add: versions_for_def Let_def in_order_def devices_same offered_to_holder_def vault_area_def
      here_only_fields [OF assms] rows_shown_same [OF assms]
      rows_shown_same [OF assms, of "\<lambda>_. True", simplified])

lemma visible_to_here:
  assumes "here_only g" and "\<And>f. hit (g f) = hit f"
  shows "visible_to (db\<lparr>a_index := ix\<lparr>files := map g (files ix)\<rparr>\<rparr>) hit a = visible_to (db\<lparr>a_index := ix\<rparr>) hit a"
  by (cases a)
    (simp_all add: visible_to_def visible_row_def kept_for_earlier_def devices_same list_ex_iff
      audience_device_def here_only_fields [OF assms(1)] assms(2))

lemma sealed_version_as: "sealed_version se (k\<lparr>k_store := st\<rparr>) holder = sealed_version se k holder"
  by (intro ext) (simp add: sealed_version_def sealed_view_of_def Let_def split: option.split)

lemma sealed_tree_here:
  assumes "here_only g"
  shows "sealed_tree_for se (k\<lparr>k_store := st\<lparr>s_index := ix\<lparr>files := map g (files ix)\<rparr>\<rparr>\<rparr>) holder
    = sealed_tree_for se (k\<lparr>k_store := st\<lparr>s_index := ix\<rparr>\<rparr>) holder"
proof -
  have t: "sealed_version se k' holder (g f) = sealed_version se k' holder f" for k' f
    by (simp add: sealed_version_def Let_def here_only_fields [OF assms] split: option.split)
  have "List.map_filter s xs = map the (filter (\<lambda>y. y \<noteq> None) (map s xs))" for s :: "file_row \<Rightarrow> file_version option" and xs
    by (induction xs) (auto simp: List.map_filter_simps split: option.split)
  then show ?thesis
    using rows_shown_same [OF assms, of "\<lambda>f. f_scope f = Some (me ix) \<and> \<not> f_held f" "sealed_version se k holder"]
    by (simp add: sealed_tree_for_def own_vault_rows_def sealed_version_as t here_only_fields [OF assms])
qed

subsection \<open>What freeing needs and leaves\<close>

text \<open>C25: a file is freed only where it can be had again, and freeing it is not deleting it.
  \<open>evict\<close> goes ahead only when a device that is no phone is known to hold the same bytes where this
  one can ask for them; afterwards the path is known as not here, every device -- of this person,
  a guest, one that is not known, and a computer keeping this vault sealed -- is sent the versions it
  was sent before, of the shared area and of vaults alike, and may ask for the same contents and
  chunks; and no chunk, link or payload has gone.\<close>

theorem evict_needs_another_copy:
  assumes "evict p st = Inr st'"
  shows "(\<exists>f d. in_folder (s_index st) p = Some f \<and> (f_hash f, d, False) \<in> set (replicas (s_index st))
      \<and> d \<notin> set (phones (s_index st)))
    \<and> is_materialised (s_index st') p = Some False
    \<and> versions_for (db\<lparr>a_index := s_index st'\<rparr>) a = versions_for (db\<lparr>a_index := s_index st\<rparr>) a
    \<and> content_visible_to (db\<lparr>a_index := s_index st'\<rparr>) h a = content_visible_to (db\<lparr>a_index := s_index st\<rparr>) h a
    \<and> chunk_visible_to (db\<lparr>a_index := s_index st'\<rparr>) h a = chunk_visible_to (db\<lparr>a_index := s_index st\<rparr>) h a
    \<and> sealed_tree_for se (k\<lparr>k_store := st'\<rparr>) holder = sealed_tree_for se (k\<lparr>k_store := st\<rparr>) holder
    \<and> links (s_index st') = links (s_index st) \<and> chunks (s_index st') = chunks (s_index st) \<and> s_cas st' = s_cas st
    \<and> (\<forall>q. q \<noteq> p \<longrightarrow> supplies st' q = supplies st q)"
proof -
  obtain tree f where tree: "s_tree st = Some tree" and f: "in_folder (s_index st) p = Some f"
    and safe: "safe_copies_elsewhere (s_index st) (f_hash f) \<noteq> 0"
    and st': "st' = st\<lparr>s_index := set_materialised p False (s_index st), s_tree := Some (tree(p := None))\<rparr>"
    using assms by (auto simp: evict_def split: option.splits if_splits)
  obtain g where ix: "s_index st' = (s_index st)\<lparr>files := map g (files (s_index st))\<rparr>" and g: "here_only g"
    using set_materialised_map [of p False "s_index st"] by (auto simp: st' here_only_def)
  have copy: "\<exists>d. (f_hash f, d, False) \<in> set (replicas (s_index st)) \<and> d \<notin> set (phones (s_index st))"
    using safe by (auto simp: safe_copies_elsewhere_def filter_empty_conv)
  have gone: "is_materialised (s_index st') p = Some False"
    using in_folder_row [OF f] by (auto simp: st' intro: is_materialised_set)
  have uses: "uses_chunk ((s_index st)\<lparr>files := map g (files (s_index st))\<rparr>) h = uses_chunk (s_index st) h"
    by (intro ext) (simp add: uses_chunk_def)
  have seen: "content_visible_to (db\<lparr>a_index := s_index st'\<rparr>) h a = content_visible_to (db\<lparr>a_index := s_index st\<rparr>) h a"
    "chunk_visible_to (db\<lparr>a_index := s_index st'\<rparr>) h a = chunk_visible_to (db\<lparr>a_index := s_index st\<rparr>) h a"
    by (simp_all add: ix content_visible_to_def chunk_visible_to_def uses visible_to_here [OF g]
        here_only_fields [OF g] uses_chunk_def)
  have "sealed_tree_for se (k\<lparr>k_store := st'\<rparr>) holder
      = sealed_tree_for se (k\<lparr>k_store := st'\<lparr>s_index := s_index st\<rparr>\<rparr>) holder"
    using sealed_tree_here [OF g, where se = se and k = k and st = st' and ix = "s_index st" and holder = holder] by (simp flip: ix)
  also have "\<dots> = sealed_tree_for se (k\<lparr>k_store := st\<rparr>) holder"
    by (simp add: sealed_tree_for_def sealed_version_as)
  finally have sealed: "sealed_tree_for se (k\<lparr>k_store := st'\<rparr>) holder = sealed_tree_for se (k\<lparr>k_store := st\<rparr>) holder" .
  have same: "links (s_index st') = links (s_index st)" "chunks (s_index st') = chunks (s_index st)" "s_cas st' = s_cas st"
    "\<forall>q. q \<noteq> p \<longrightarrow> supplies st' q = supplies st q"
    by (simp_all add: ix) (simp_all add: st' supplies_def tree)
  show ?thesis using copy f gone seen sealed same versions_for_here [OF g, where db = db and ix = "s_index st" and a = a] by (simp add: ix)
qed

theorem evict_needs_another_copy_witness:
  "is_materialised (s_index (projr (evict ''r'' with_copy))) ''r'' = Some False
   \<and> isl (evict ''r'' with_report)
   \<and> versions_for ((home_db ''S23'')\<lparr>a_index := s_index (projr (evict ''r'' with_copy))\<rparr>) (ToDevice phone)
     = versions_for ((home_db ''S23'')\<lparr>a_index := s_index with_copy\<rparr>) (ToDevice phone)"
proof -
  have "isl (evict ''r'' with_copy) = False" by code_simp
  then have "evict ''r'' with_copy = Inr (projr (evict ''r'' with_copy))" by simp
  note t = evict_needs_another_copy [OF this]
  have "isl (evict ''r'' with_report)" by code_simp
  with t [THEN conjunct2, THEN conjunct1] t [THEN conjunct2, THEN conjunct2, THEN conjunct1, of "home_db ''S23''" "ToDevice phone"]
  show ?thesis by blast
qed

end
