(* ===== verification/Server.thy ===== *)
theory Server imports Shared_Folder Keeper Openings Tree_List
begin

section \<open>Answering another device (\<open>crates/peer/src/server.rs\<close>)\<close>

text \<open>
  What a device answers to each request, by what the connection proves the asker to be. The state has
  the shared folder with the node beneath it, the sealed copies shown to keepers, the registry of
  openings, the uploads still arriving, and the facts and tables that are only read here. The state
  of a request is changed under the store's lock, one request at a time; a chunk is read, and a document
  converted, after the lock is let go. Arguments: BLAKE3 and sealing, lower case, the time, the space
  the computer is given, the sum of the chunks' stored sizes, and the converter.
\<close>

record profile =
  pf_name :: string
  pf_picture :: "bytes option"
  pf_changed :: i64

record serving =
  sv_place :: shared_place
  sv_views :: "sealed_view list"
  sv_parts :: "part_row list"
  sv_opened :: "string \<Rightarrow> int option"
  sv_openings :: registry
  sv_staged :: "bytes \<times> bytes \<Rightarrow> (bytes \<times> int) option" \<comment> \<open>the files in \<open>incoming\<close>, with their times\<close>
  sv_stamp :: "string option" \<comment> \<open>\<open>shares_stamp\<close>\<close>
  sv_kind :: "string option"
  sv_install :: "bytes option"
  sv_profile :: "profile option"
  sv_folders :: "folder_summary list"
  sv_chosen_here :: "choice list"
  sv_chosen :: "device_id \<Rightarrow> choice list"
  sv_mark :: u64
  sv_listed :: "(nat \<times> u64) list" \<comment> \<open>the table \<open>listed\<close>, which triggers keep\<close>

record server_env =
  ve_desk :: desk
  ve_sealing :: sealing
  ve_moment :: moment
  ve_lower :: "string \<Rightarrow> string"
  ve_given :: nat
  ve_waited :: "u64 \<Rightarrow> u64" \<comment> \<open>the generation \<open>wait_past\<close> comes back with\<close>
  ve_stored :: "index \<Rightarrow> nat"
  ve_pdf :: "hash \<Rightarrow> bytes \<Rightarrow> string \<Rightarrow> bytes option"

abbreviation sv_node :: "serving \<Rightarrow> node" where "sv_node sv \<equiv> sp_node (sv_place sv)"

abbreviation sv_db :: "serving \<Rightarrow> peers_db" where "sv_db sv \<equiv> db_of (sv_node sv)"

abbreviation sv_store :: "serving \<Rightarrow> store" where "sv_store sv \<equiv> the_store (sv_node sv)"

definition on_sv_node :: "(node \<Rightarrow> node) \<Rightarrow> serving \<Rightarrow> serving" where
  "on_sv_node g sv = sv\<lparr>sv_place := on_node g (sv_place sv)\<rparr>"

definition keeping_of :: "serving \<Rightarrow> keeping" where
  "keeping_of sv = \<lparr>k_store = sv_store sv, k_views = sv_views sv, k_parts = sv_parts sv, k_opened = sv_opened sv\<rparr>"

definition with_keeping :: "keeping \<Rightarrow> serving \<Rightarrow> serving" where
  "with_keeping k sv = (on_sv_node (on_store (\<lambda>_. k_store k)) sv)\<lparr>sv_views := k_views k, sv_parts := k_parts k, sv_opened := k_opened k\<rparr>"

definition set_peers :: "(peers_db \<Rightarrow> peers_db) \<Rightarrow> serving \<Rightarrow> serving" where
  "set_peers g = on_sv_node (\<lambda>n. n\<lparr>n_peers := g (n_peers n)\<rparr>)"

subsection \<open>Who is asking\<close>

record standing =
  st_owner :: "device_id option"
  st_other :: bool
  st_audience :: audience
  st_guest_here :: bool
  st_reaches :: bool \<comment> \<open>\<open>reaches_shared\<close>\<close>
  st_keeps :: bool \<comment> \<open>\<open>keeps_mine\<close>\<close>

definition known_peer :: "peers_db \<Rightarrow> bytes option \<Rightarrow> trusted_peer option" where
  "known_peer db asker = Option.bind asker (peer_by_fingerprint db)"

definition standing_of :: "peers_db \<Rightarrow> bytes option \<Rightarrow> standing" where
  "standing_of db asker =
     (let known = known_peer db asker; owner = map_option tp_id known;
          other = (case known of Some p \<Rightarrow> is_other_person (tp_relation p) | None \<Rightarrow> False);
          guest = (case known of Some p \<Rightarrow> tp_relation p = Guest | None \<Rightarrow> False)
      in \<lparr>st_owner = owner, st_other = other,
          st_audience = (case owner of Some d \<Rightarrow> if other then ToGuest d else ToDevice d | None \<Rightarrow> Unplaced),
          st_guest_here = guest,
          st_reaches = (case owner of Some d \<Rightarrow> if guest then True else if \<not> other then a_kind db d = Some ''phone'' else False
            | None \<Rightarrow> False),
          st_keeps = (case owner of Some d \<Rightarrow> other \<and> is_holder db d | None \<Rightarrow> False)\<rparr>)"

definition owners_phone :: "peers_db \<Rightarrow> bytes option \<Rightarrow> trusted_peer option" where
  "owners_phone db asker =
     (case known_peer db asker of
        None \<Rightarrow> None
      | Some p \<Rightarrow> if tp_relation p = Own \<and> a_kind db (tp_id p) = Some ''phone'' then Some p else None)"

subsection \<open>The sharing rules as the rule files say now\<close>

definition rule_rows :: "index \<Rightarrow> file_row list" where
  \<comment> \<open>a range of paths, in the order of their bytes\<close>
  "rule_rows ix = in_order (filter (\<lambda>f. f_scope f = None \<and> ''.qurb-sharing/'' \<le> f_path f \<and> f_path f < ''.qurb-sharing0'') (files ix))"

definition hex_upper :: "bytes \<Rightarrow> string" where
  "hex_upper bs = map to_ascii_uppercase (concat (map hex_byte bs))"

definition show_int :: "int \<Rightarrow> string" where
  "show_int i = (if i < 0 then ''-'' @ show_nat (nat (- i)) else show_nat (nat i))"

definition sharing_stamp :: "index \<Rightarrow> string" where
  "sharing_stamp ix = join_on ''|'' (map (\<lambda>f. f_path f @ '':'' @ hex_upper (f_hash f) @ '':''
     @ (case f_deleted f of None \<Rightarrow> '''' | Some at \<Rightarrow> show_int at)) (rule_rows ix))"

definition read_rule :: "blake3 \<Rightarrow> store \<Rightarrow> string \<Rightarrow> device_id list" where
  \<comment> \<open>closed if it cannot be read; what is not UTF-8 in it is no device id either way\<close>
  "read_rule H st p = (case read_file H st p of Inr bs \<Rightarrow> parse_members (bytes_str bs) | Inl _ \<Rightarrow> [])"

definition rules_now :: "blake3 \<Rightarrow> store \<Rightarrow> rules" where
  "rules_now H st =
     Rules (fold (\<lambda>f m. case rule_folder (f_path f) of None \<Rightarrow> m | Some folder \<Rightarrow> bm_insert folder (read_rule H st (f_path f)) m)
       (filter (\<lambda>f. f_deleted f = None) (rule_rows (s_index st))) [])"

definition refresh_shares :: "blake3 \<Rightarrow> serving \<Rightarrow> serving" where
  "refresh_shares H sv =
     (let stamp = sharing_stamp (n_index (sv_node sv))
      in if sv_stamp sv = Some stamp then sv
         else (set_peers (replace_shares (rules_now H (sv_store sv))) sv)\<lparr>sv_stamp := Some stamp\<rparr>)"

subsection \<open>Lists\<close>

datatype answered =
    Now response
  | Converting hash bytes string
  | Reading hash
  | Failing refusal

definition SEALING_BUDGET :: nat where "SEALING_BUDGET = 256 * 2 ^ 20"

definition DELTA_MOST :: nat where "DELTA_MOST = 20000"

definition SEARCH_MOST :: nat where "SEARCH_MOST = 500"

definition CONVERT_MOST :: nat where "CONVERT_MOST = 50 * 2 ^ 20"

definition whole_tree_answer :: "server_env \<Rightarrow> standing \<Rightarrow> serving \<Rightarrow> file_version list \<times> serving" where
  "whole_tree_answer env st sv =
     (let sv = refresh_shares (se_hash (ve_sealing env)) sv; tree = versions_for (sv_db sv) (st_audience st)
      in case (st_keeps st, st_owner st) of
           (True, Some holder) \<Rightarrow>
             (let k = snd (prepare_sealed (ve_sealing env) holder SEALING_BUDGET (keeping_of sv))
              in (tree @ sealed_tree_for (ve_sealing env) k holder, with_keeping k sv))
         | _ \<Rightarrow> (tree, sv))"

definition listed_since :: "serving \<Rightarrow> u64 \<Rightarrow> (u8 \<times> string) list" where
  "listed_since sv since =
     (let ix = n_index (sv_node sv)
      in List.map_filter (\<lambda>(fid, changed). if changed > min since (2 ^ 63 - 1)
           then map_option (\<lambda>f. ((case f_scope f of None \<Rightarrow> 0 | Some d \<Rightarrow> if d = me ix then 2 else 1), f_path f))
             (find (\<lambda>f. f_id f = fid) (files ix))
           else None) (sv_listed sv))"

definition tree_since_answer :: "server_env \<Rightarrow> standing \<Rightarrow> u64 \<Rightarrow> serving \<Rightarrow> response \<times> serving" where
  "tree_since_answer env st since sv =
     (if st_keeps st then (RsNotFound, sv)
      else
        (let sv = refresh_shares (se_hash (ve_sealing env)) sv; tree = versions_for (sv_db sv) (st_audience st);
             changed = listed_since sv since; delta = filter (\<lambda>v. listed_order v \<in> set changed) tree
         in (if length delta > DELTA_MOST \<or> (length delta > 64 \<and> length delta * 2 > length tree) then RsNotFound
             else RsTreeDelta (sv_mark sv) (tree_digest (se_hash (ve_sealing env)) tree) delta, sv)))"

subsection \<open>Contents and chunks\<close>

definition may_read_content :: "peers_db \<Rightarrow> standing \<Rightarrow> hash \<Rightarrow> bool" where
  "may_read_content db st h \<longleftrightarrow>
     (st_guest_here st \<and> (case st_owner st of Some d \<Rightarrow> shared_content_reachable db h d | None \<Rightarrow> False))
     \<or> content_visible_to db h (st_audience st)"

definition held_chunks :: "store \<Rightarrow> hash \<Rightarrow> hash list option" where
  \<comment> \<open>by the chunk store and the index; \<open>s_outside\<close> is what a send's file, or one outside the folder, supplies\<close>
  "held_chunks st h =
     (case any_file_with_content (s_index st) h of
        None \<Rightarrow> None
      | Some fid \<Rightarrow>
          (let hs = chunk_hashes_for (s_index st) fid
           in if list_all (\<lambda>c. s_cas st c \<noteq> None
                  \<or> (s_tree st \<noteq> None \<and> list_ex (\<lambda>(i, c'). c' = c \<and> list_ex (\<lambda>f. f_id f = i \<and> f_deleted f = None \<and> f_here f)
                        (files (s_index st))) (links (s_index st)))
                  \<or> s_outside st c \<noteq> None) hs
              then Some hs else None))"

definition held_layout :: "store \<Rightarrow> hash \<Rightarrow> (hash \<times> u32) list option" where
  "held_layout st h =
     (case held_chunks st h of
        None \<Rightarrow> None
      | Some hs \<Rightarrow>
          if list_all (has_chunk_row (s_index st)) hs
          then Some (map (\<lambda>c. (c, case chunks (s_index st) c of Some r \<Rightarrow> word_of_nat (c_size r) | None \<Rightarrow> 0)) hs)
          else None)"

definition OFFICE :: "string list" where
  "OFFICE = [''doc'', ''docx'', ''odt'', ''rtf'', ''xls'', ''xlsx'', ''ods'', ''ppt'', ''pptx'', ''odp'']"

definition ending :: "string \<Rightarrow> string" where
  \<comment> \<open>\<open>rsplit_once('.')\<close>, in lower case\<close>
  "ending name = (case rfind name ''.'' of Some i \<Rightarrow> map to_ascii_lowercase (drop (i + 1) name) | None \<Rightarrow> '''')"

definition convert_answer :: "server_env \<Rightarrow> standing \<Rightarrow> hash \<Rightarrow> string \<Rightarrow> serving \<Rightarrow> answered" where
  "convert_answer env st h name sv =
     (if ending name \<notin> set OFFICE \<or> (\<not> st_keeps st \<and> \<not> may_read_content (sv_db sv) st h) then Now RsNotFound
      else case read_content (se_hash (ve_sealing env)) (sv_store sv) h of
        Inl e \<Rightarrow> Failing (InIndex e)
      | Inr (Some bs) \<Rightarrow> if length bs \<le> CONVERT_MOST then Converting h bs (ending name) else Now RsNotFound
      | Inr None \<Rightarrow> Now RsNotFound)"

definition manifest_answer :: "standing \<Rightarrow> hash \<Rightarrow> serving \<Rightarrow> response" where
  "manifest_answer st h sv =
     (case (case (st_keeps st, st_owner st) of (True, Some holder) \<Rightarrow> sealed_manifest (keeping_of sv) holder h | _ \<Rightarrow> None) of
        Some ids \<Rightarrow> RsManifest ids
      | None \<Rightarrow>
          if \<not> may_read_content (sv_db sv) st h then RsNotFound
          else (case held_chunks (sv_store sv) h of Some hs \<Rightarrow> RsManifest hs | None \<Rightarrow> RsNotFound))"

definition layout_answer :: "standing \<Rightarrow> hash \<Rightarrow> serving \<Rightarrow> response" where
  "layout_answer st h sv =
     (if \<not> may_read_content (sv_db sv) st h then RsNotFound
      else (case held_layout (sv_store sv) h of Some cs \<Rightarrow> RsLayout cs | None \<Rightarrow> RsNotFound))"

definition chunk_answer :: "server_env \<Rightarrow> standing \<Rightarrow> hash \<Rightarrow> serving \<Rightarrow> answered" where
  "chunk_answer env st h sv =
     (case (case (st_keeps st, st_owner st) of (True, Some holder) \<Rightarrow> sealed_chunk (ve_sealing env) (keeping_of sv) holder h | _ \<Rightarrow> None) of
        Some sealed \<Rightarrow> Now (RsChunk sealed)
      | None \<Rightarrow>
          if \<not> (st_guest_here st \<and> (case st_owner st of Some d \<Rightarrow> shared_chunk_reachable (sv_db sv) h d | None \<Rightarrow> False))
             \<and> \<not> chunk_visible_to (sv_db sv) h (st_audience st) then Now RsNotFound
          else Reading h)"

subsection \<open>Folders opened, and browsed\<close>

definition asks_answer :: "server_env \<Rightarrow> standing \<Rightarrow> serving \<Rightarrow> response \<times> serving" where
  "asks_answer env st sv =
     (case st_owner st of
        None \<Rightarrow> (RsNotFound, sv)
      | Some d \<Rightarrow>
          (case ask_waiting (ve_moment env) (if st_other st then person_or_self (sv_db sv) d else me (n_index (sv_node sv))) (sv_openings sv) of
             (opening, r) \<Rightarrow> (RsAsks opening, sv\<lparr>sv_openings := r\<rparr>)))"

definition unlock_answer :: "server_env \<Rightarrow> standing \<Rightarrow> bytes \<Rightarrow> bytes \<Rightarrow> serving \<Rightarrow> response \<times> serving" where
  \<comment> \<open>a guest's key has to open one of its person's kept names; the owner's folder is not sealed\<close>
  "unlock_answer env st nonce k sv =
     (case st_owner st of
        None \<Rightarrow> (RsNotFound, sv)
      | Some d \<Rightarrow>
          (case (if st_other st
                 then (let person = person_or_self (sv_db sv) d
                       in unlock_folder (ve_moment env) person nonce k
                            (\<lambda>k. list_ex (\<lambda>name. open_name (se_crypto (ve_sealing env)) k name \<noteq> None)
                               (kept_names (n_index (sv_node sv)) person)) (sv_openings sv))
                 else unlock_folder (ve_moment env) (me (n_index (sv_node sv))) nonce (replicate 32 0) (\<lambda>_. True) (sv_openings sv)) of
             (opened, r) \<Rightarrow> (if opened then RsNoted else RsNotFound, sv\<lparr>sv_openings := r\<rparr>)))"

definition kept_entry_of :: "shown_file \<Rightarrow> kept_entry" where
  "kept_entry_of f = \<lparr>ke_name = sh_name f, ke_path = sh_path f, ke_owner = as_bytes (sh_owner f), ke_content = sh_content f,
     ke_size = word_of_nat (sh_size f), ke_modified_at = word_of_int (sh_modified f)\<rparr>"

definition kept_response :: "string list \<times> shown_file list \<Rightarrow> response" where
  "kept_response found = RsKept (fst found) (map kept_entry_of (snd found))"

definition dirs_in :: "shared_place \<Rightarrow> string \<Rightarrow> string list" where
  \<comment> \<open>the directories that lie in one\<close>
  "dirs_in sp dir = List.map_filter (\<lambda>d. if parent_dir d = dir then Some (snd (split_dir d)) else None) (sp_dirs sp)"

definition shared_answer :: "standing \<Rightarrow> string \<Rightarrow> serving \<Rightarrow> response" where
  "shared_answer st dir sv =
     (case st_owner st of
        Some d \<Rightarrow>
          if st_reaches st
          then kept_response (shared_listing (sv_db sv) (if has_folder (sv_place sv) then Some (dirs_in (sv_place sv)) else None)
            (me (n_index (sv_node sv))) d dir)
          else RsNotFound
      | None \<Rightarrow> RsNotFound)"

definition kept_answer :: "standing \<Rightarrow> string \<Rightarrow> serving \<Rightarrow> response" where
  "kept_answer st dir sv =
     (case st_owner st of
        Some d \<Rightarrow> if \<not> st_other st then kept_response (person_listing (sv_db sv) (own_phones (sv_db sv) d) dir) else RsNotFound
      | None \<Rightarrow> RsNotFound)"

definition search_answer :: "server_env \<Rightarrow> standing \<Rightarrow> within \<Rightarrow> string \<Rightarrow> serving \<Rightarrow> response" where
  "search_answer env st place wanted sv =
     (case (place, st_owner st) of
        (InShared, Some d) \<Rightarrow>
          if st_reaches st
          then kept_response ([], shared_search (ve_lower env) (sv_db sv) (me (n_index (sv_node sv))) d wanted SEARCH_MOST)
          else RsNotFound
      | (InKept, Some d) \<Rightarrow>
          if \<not> st_other st
          then kept_response ([], person_search (ve_lower env) (sv_db sv) (own_phones (sv_db sv) d) wanted SEARCH_MOST)
          else RsNotFound
      | _ \<Rightarrow> RsNotFound)"

subsection \<open>Changes to the shared folder\<close>

definition refused_answer :: "refusal \<Rightarrow> answered" where
  \<comment> \<open>a reason a person can read, here without the words around the path; anything else is this device's failure\<close>
  "refused_answer e =
     (case e of
        Refused why \<Rightarrow> Now (RsRefused why)
      | Missing p \<Rightarrow> Now (RsRefused (''nothing is called '' @ p))
      | NotHere p \<Rightarrow> Now (RsRefused (p @ '' is not on this computer yet''))
      | _ \<Rightarrow> Failing e)"

definition made :: "refusal + unit \<Rightarrow> answered" where
  "made r = (case r of Inr _ \<Rightarrow> Now RsNoted | Inl e \<Rightarrow> refused_answer e)"

definition placed_answer :: "refusal + string \<Rightarrow> answered" where
  "placed_answer r = (case r of Inr p \<Rightarrow> Now (RsPlaced p) | Inl e \<Rightarrow> refused_answer e)"

definition change_shared :: "standing \<Rightarrow> (device_id \<Rightarrow> shared_place \<Rightarrow> answered \<times> shared_place) \<Rightarrow> serving \<Rightarrow> answered \<times> serving" where
  "change_shared st change sv =
     (case st_owner st of
        Some d \<Rightarrow> if st_reaches st then (case change d (sv_place sv) of (r, sp) \<Rightarrow> (r, sv\<lparr>sv_place := sp\<rparr>)) else (Now RsNotFound, sv)
      | None \<Rightarrow> (Now RsNotFound, sv))"

definition INCOMING_KEPT :: int where "INCOMING_KEPT = 24 * 3600"

definition staging :: "device_id \<Rightarrow> bytes \<Rightarrow> bytes \<times> bytes" where
  \<comment> \<open>what the name of the file is made of\<close>
  "staging d i = (take 8 (as_bytes d), i)"

definition upload_piece :: "int \<Rightarrow> device_id \<Rightarrow> bytes \<Rightarrow> u64 \<Rightarrow> bytes \<Rightarrow> serving \<Rightarrow> response \<times> serving" where
  "upload_piece now d i offset data sv =
     (let at = staging d i;
          staged = (if offset = 0
            then (\<lambda>k. case sv_staged sv k of Some (b, time) \<Rightarrow> if now - time > INCOMING_KEPT then None else Some (b, time) | None \<Rightarrow> None)
            else sv_staged sv);
          old = (case staged at of Some (b, _) \<Rightarrow> b | None \<Rightarrow> [])
      in if offset \<noteq> 0 \<and> unat offset \<noteq> length old
         then (RsRefused ''a piece of the file went missing; send it again'', sv\<lparr>sv_staged := staged\<rparr>)
         else (RsNoted, sv\<lparr>sv_staged := staged(at \<mapsto> (if offset \<noteq> 0 then old @ data else data, now))\<rparr>))"

definition upload_answer :: "server_env \<Rightarrow> standing \<Rightarrow> bytes \<Rightarrow> u64 \<Rightarrow> bytes \<Rightarrow> serving \<Rightarrow> response \<times> serving" where
  "upload_answer env st i offset data sv =
     (case st_owner st of
        Some d \<Rightarrow> if st_reaches st then upload_piece (d_now (ve_desk env)) d i offset data sv else (RsNotFound, sv)
      | None \<Rightarrow> (RsNotFound, sv))"

definition upload_done :: "server_env \<Rightarrow> standing \<Rightarrow> bytes \<Rightarrow> string \<Rightarrow> hash \<Rightarrow> serving \<Rightarrow> answered \<times> serving" where
  \<comment> \<open>what arrived is gone afterwards, whether it was placed or refused\<close>
  "upload_done env st i p h sv =
     (case st_owner st of
        None \<Rightarrow> (Now RsNotFound, sv)
      | Some d \<Rightarrow>
          if \<not> st_reaches st then (Now RsNotFound, sv)
          else (case sv_staged sv (staging d i) of
             None \<Rightarrow> (Now (RsRefused ''nothing of that file arrived; send it again''), sv)
           | Some (staged, _) \<Rightarrow>
               (case place_file (ve_desk env) d staged p h (sv_place sv) of
                  (r, sp) \<Rightarrow> (placed_answer r, sv\<lparr>sv_place := sp, sv_staged := (sv_staged sv)(staging d i := None)\<rparr>))))"

subsection \<open>What is kept here, and for whom\<close>

definition trusted_peers :: "peers_db \<Rightarrow> trusted_peer list" where
  "trusted_peers db = sort_key tp_name (a_peers db)"

definition places_answer :: "peers_db \<Rightarrow> bytes option \<Rightarrow> response" where
  "places_answer db asker =
     (case known_peer db asker of
        None \<Rightarrow> RsNotFound
      | Some p \<Rightarrow>
          RsPlaces ((''Shared'', PlShared) #
            (if tp_relation p = Own
             then map (\<lambda>(name, _). (name, PlMine)) (own_phones db (tp_id p))
               @ map (\<lambda>n. (n, PlLocked)) (sort (remdups (map tp_name
                   (filter (\<lambda>q. tp_relation q = Guest \<and> became db (tp_id q) = None) (trusted_peers db)))))
             else [])))"

definition held_outside_for :: "peers_db \<Rightarrow> device_id \<Rightarrow> string \<Rightarrow> nat \<times> nat" where
  "held_outside_for db owner prefix =
     (let rows = filter (\<lambda>f. like (escape_like (trim_slashes prefix @ ''/%'')) (f_path f)) (held_rows db owner)
      in (length rows, sum_list (map f_size rows)))"

definition materialised_bytes :: "index \<Rightarrow> nat" where
  "materialised_bytes ix = sum_list (map f_size (filter (\<lambda>f. f_deleted f = None \<and> f_here f \<and> folder_scope ix f) (files ix)))"

definition count_ids :: "peers_db \<Rightarrow> device_id list \<Rightarrow> device_id list \<Rightarrow> nat \<times> nat \<times> device_id list" where
  \<comment> \<open>backups and all, each identity once\<close>
  "count_ids db ids seen =
     fold (\<lambda>i (backups, kept_all, seen).
       if i \<in> set seen then (backups, kept_all, seen)
       else (backups + snd (held_outside_for db i ''.qurb-outside/whatsapp'') + snd (held_outside_for db i ''.qurb-outside/storage''),
             kept_all + snd (held_for db i), i # seen)) ids (0, 0, seen)"

definition phone_parts :: "peers_db \<Rightarrow> trusted_peer \<Rightarrow> (part \<times> string \<times> u64) list \<times> device_id list \<Rightarrow>
    (part \<times> string \<times> u64) list \<times> device_id list" where
  "phone_parts db p = (\<lambda>(parts, seen).
     if tp_relation p \<noteq> Own \<or> a_kind db (tp_id p) \<noteq> Some ''phone'' \<or> became db (tp_id p) \<noteq> None then (parts, seen)
     else fold (\<lambda>(name, ids) (parts, seen).
       case count_ids db ids seen of
         (backups, kept_all, seen) \<Rightarrow>
           (if kept_all > 0 then parts @ [(PtBackups, name, word_of_nat backups), (PtVault, name, word_of_nat (kept_all - backups))]
            else parts, seen)) (own_phones db (tp_id p)) (parts, seen))"

definition storage_answer :: "server_env \<Rightarrow> bytes option \<Rightarrow> serving \<Rightarrow> response" where
  "storage_answer env asker sv =
     (let db = sv_db sv; ix = n_index (sv_node sv); in_files = (if has_folder (sv_place sv) then materialised_bytes ix else 0)
      in if owners_phone db asker = None then RsNotFound
         else RsStorage (word_of_nat (ve_given env)) (word_of_nat (in_files + ve_stored env ix))
           ((PtShared, '''', word_of_nat in_files)
            # fst (fold (phone_parts db) (trusted_peers db) ([], []))
            @ List.map_filter (\<lambda>p. if tp_relation p = Guest \<and> became db (tp_id p) = None \<and> snd (held_for db (tp_id p)) > 0
                then Some (PtGuest, tp_name p, word_of_nat (snd (held_for db (tp_id p)))) else None) (trusted_peers db)
            @ [(PtDeleted, '''', word_of_nat (sum_list (map tr_size (recently_deleted (sv_node sv)))))]))"

definition empty_deleted_answer :: "server_env \<Rightarrow> bytes option \<Rightarrow> serving \<Rightarrow> response \<times> serving" where
  "empty_deleted_answer env asker sv =
     (if owners_phone (sv_db sv) asker = None then (RsNotFound, sv)
      else (RsNoted, on_sv_node (\<lambda>n. snd (empty_trash (ve_desk env) 0 n)) sv))"

subsection \<open>Identities, and what was delivered\<close>

definition become_answer :: "server_env \<Rightarrow> bytes option \<Rightarrow> bytes \<Rightarrow> serving \<Rightarrow> response \<times> serving" where
  "become_answer env asker cert sv =
     (case known_peer (sv_db sv) asker of
        None \<Rightarrow> (RsNotFound, sv)
      | Some p \<Rightarrow>
          if tp_relation p \<noteq> Own then (RsRefused ''only one of your own devices can say what it is'', sv)
          else
            (let permanent = se_hash (ve_sealing env) cert
             in case peer_by_fingerprint (sv_db sv) permanent of
                  Some known \<Rightarrow>
                    if tp_id known = tp_id p then (RsBecame (as_bytes (tp_id p)), sv)
                    else if tp_relation known = Own
                    then (RsBecame (as_bytes (tp_id known)), set_peers (\<lambda>db. db\<lparr>a_said := (a_said db)(tp_id p := Is (tp_id known))\<rparr>) sv)
                    else (RsRefused ''that identity is another person's device'', sv)
                | None \<Rightarrow>
                    (RsBecame (as_bytes (tp_id p)),
                     set_peers (\<lambda>db. db\<lparr>a_peers := map (\<lambda>q. if tp_id q = tp_id p then q\<lparr>tp_fingerprint := permanent\<rparr> else q) (a_peers db)\<rparr>) sv)))"

definition delivery_is_vault_only :: "index \<Rightarrow> hash \<Rightarrow> device_id \<Rightarrow> bool" where
  "delivery_is_vault_only ix h d \<longleftrightarrow>
     \<not> list_ex (\<lambda>f. f_hash f = h \<and> f_deleted f = None \<and> f_scope f = None) (files ix)
     \<and> list_ex (\<lambda>f. f_hash f = h \<and> f_deleted f = None \<and> f_scope f = Some d) (files ix)"

definition holds_for :: "index \<Rightarrow> hash \<Rightarrow> device_id \<Rightarrow> bool" where
  "holds_for ix h d \<longleftrightarrow> list_ex (\<lambda>f. f_hash f = h \<and> f_scope f = Some d \<and> f_held f \<and> f_deleted f = None) (files ix)"

definition note_delivery :: "standing \<Rightarrow> device_id \<Rightarrow> hash \<Rightarrow> serving \<Rightarrow> serving" where
  \<comment> \<open>the copy is private to the device that has it, or one that may be asked for back\<close>
  "note_delivery st d h sv =
     (let ix = n_index (sv_node sv);
          held = holds_for ix h d \<or> (case a_person (sv_db sv) d of Some p \<Rightarrow> holds_for ix h p | None \<Rightarrow> False);
          private = held \<or> delivery_is_vault_only ix h d \<or> st_other st
      in on_sv_node (on_store (\<lambda>s. s\<lparr>s_index := note_replica h d private (s_index s)\<rparr>)) sv)"

definition got_answer :: "standing \<Rightarrow> hash \<Rightarrow> serving \<Rightarrow> response \<times> serving" where
  "got_answer st h sv =
     (RsNoted,
      case st_owner st of
        None \<Rightarrow> sv
      | Some d \<Rightarrow>
          (case (if st_keeps st then note_kept_sealed d h (keeping_of sv) else (False, keeping_of sv)) of
             (True, k) \<Rightarrow> with_keeping k sv
           | (False, _) \<Rightarrow> note_delivery st d h sv))"

subsection \<open>Every request\<close>

definition now_sv :: "response \<times> serving \<Rightarrow> answered \<times> serving" where
  "now_sv = (\<lambda>(r, sv). (Now r, sv))"

definition answer :: "server_env \<Rightarrow> request \<Rightarrow> bytes option \<Rightarrow> serving \<Rightarrow> answered \<times> serving" where
  \<comment> \<open>\<open>Changes\<close>, which waits, is answered without the store, and does not get here\<close>
  "answer env rq asker sv =
     (let st = standing_of (sv_db sv) asker; desk = ve_desk env
      in case rq of
           RqTree \<Rightarrow> (case whole_tree_answer env st sv of (tree, sv) \<Rightarrow> (Now (RsTree tree), sv))
         | RqTreeStream \<Rightarrow> (case whole_tree_answer env st sv of (tree, sv) \<Rightarrow> (Now (RsTree tree), sv))
         | RqTreeDigest \<Rightarrow> (case whole_tree_answer env st sv of (tree, sv) \<Rightarrow> (Now (RsDigest (tree_digest (se_hash (ve_sealing env)) tree)), sv))
         | RqTreeSince since \<Rightarrow> now_sv (tree_since_answer env st since sv)
         | RqConvert h name \<Rightarrow> (convert_answer env st h name sv, sv)
         | RqManifest h \<Rightarrow> (Now (manifest_answer st h sv), sv)
         | RqPair _ _ _ _ _ \<Rightarrow> (Now RsNotFound, sv)
         | RqJoin _ _ _ \<Rightarrow> (Now RsNotFound, sv)
         | RqVisit _ _ _ _ _ \<Rightarrow> (Now RsNotFound, sv)
         | RqWho _ \<Rightarrow> (Now RsNotFound, sv)
         | RqShort _ \<Rightarrow> (Now RsNotFound, sv)
         | RqShortConfirm _ \<Rightarrow> (Now RsNotFound, sv)
         | RqAsks \<Rightarrow> now_sv (asks_answer env st sv)
         | RqUnlock nonce k \<Rightarrow> now_sv (unlock_answer env st nonce k sv)
         | RqLayout h \<Rightarrow> (Now (layout_answer st h sv), sv)
         | RqShared dir \<Rightarrow> (Now (shared_answer st dir sv), sv)
         | RqSharedMkdir p \<Rightarrow> change_shared st (\<lambda>d sp. map_prod made id (make_folder d p sp)) sv
         | RqSharedMove a b \<Rightarrow> change_shared st (\<lambda>d sp. map_prod made id (move_path desk d a b sp)) sv
         | RqSharedCopy a b \<Rightarrow> change_shared st (\<lambda>d sp. map_prod placed_answer id (copy_path desk d a b sp)) sv
         | RqSharedDelete p \<Rightarrow> change_shared st (\<lambda>d sp. map_prod made id (delete_path desk d p sp)) sv
         | RqUpload i offset data \<Rightarrow> now_sv (upload_answer env st i offset data sv)
         | RqUploadDone i p h \<Rightarrow> upload_done env st i p h sv
         | RqSearch place wanted \<Rightarrow> (Now (search_answer env st place wanted sv), sv)
         | RqKept dir \<Rightarrow> (Now (kept_answer st dir sv), sv)
         | RqAbout \<Rightarrow> (Now (case sv_kind sv of Some kind \<Rightarrow> RsAbout kind | None \<Rightarrow> RsNotFound), sv)
         | RqPlaces \<Rightarrow> (Now (places_answer (sv_db sv) asker), sv)
         | RqStorage \<Rightarrow> (Now (storage_answer env asker sv), sv)
         | RqEmptyDeleted \<Rightarrow> now_sv (empty_deleted_answer env asker sv)
         | RqBecome cert \<Rightarrow> now_sv (become_answer env asker cert sv)
         | RqInstall \<Rightarrow> (Now (case sv_install sv of Some m \<Rightarrow> RsInstall m | None \<Rightarrow> RsNotFound), sv)
         | RqProfile since \<Rightarrow>
             (Now (case sv_profile sv of
                Some p \<Rightarrow> if sint (pf_changed p) > sint since
                  then RsProfile (pf_name p) (case pf_picture p of Some b \<Rightarrow> b | None \<Rightarrow> []) (pf_changed p) else RsNotFound
              | None \<Rightarrow> RsNotFound), sv)
         | RqFolders \<Rightarrow>
             (Now (case st_owner st of
                Some d \<Rightarrow> if \<not> st_other st \<and> is_holder (sv_db sv) d then RsFolders (sv_folders sv) (sv_chosen_here sv) else RsNotFound
              | None \<Rightarrow> RsNotFound), sv)
         | RqChosen \<Rightarrow>
             (Now (case st_owner st of Some d \<Rightarrow> if \<not> st_other st then RsChosen (sv_chosen sv d) else RsNotFound | None \<Rightarrow> RsNotFound), sv)
         | RqGot h \<Rightarrow> now_sv (got_answer st h sv)
         | RqChunk h \<Rightarrow> (chunk_answer env st h sv, sv)
         | RqChanges since \<Rightarrow> (Now RsNotFound, sv))"

definition finish :: "server_env \<Rightarrow> answered \<Rightarrow> serving \<Rightarrow> response option" where
  \<comment> \<open>once the store is let go; None: the request fails, and nothing is sent\<close>
  "finish env a sv =
     (case a of
        Now r \<Rightarrow> Some r
      | Converting h bs kind \<Rightarrow>
          (case ve_pdf env h bs kind of
             Some pdf \<Rightarrow> if length pdf < MAX_MESSAGE - 64 then Some (RsConverted pdf) else Some RsNotFound
           | None \<Rightarrow> Some RsNotFound)
      | Reading h \<Rightarrow>
          (case read_chunk (se_hash (ve_sealing env)) (sv_store sv) h of
             Inr bs \<Rightarrow> Some (RsChunk bs)
           | Inl (ChunkMissing _) \<Rightarrow> Some RsNotFound
           | Inl _ \<Rightarrow> None)
      | Failing _ \<Rightarrow> None)"

definition tells_others :: "request \<Rightarrow> answered \<Rightarrow> bool" where
  \<comment> \<open>whether devices waiting to hear of a change hear now\<close>
  "tells_others rq a \<longleftrightarrow>
     (case rq of RqSharedMkdir _ \<Rightarrow> True | RqSharedMove _ _ \<Rightarrow> True | RqSharedCopy _ _ \<Rightarrow> True | RqSharedDelete _ \<Rightarrow> True
       | RqUploadDone _ _ _ \<Rightarrow> True | _ \<Rightarrow> False)
     \<and> (case a of Now RsNoted \<Rightarrow> True | Now (RsPlaced _) \<Rightarrow> True | _ \<Rightarrow> False)"

definition serve_request :: "server_env \<Rightarrow> request \<Rightarrow> bytes option \<Rightarrow> serving \<Rightarrow> response option \<times> serving" where
  "serve_request env rq asker sv =
     (case rq of
        RqChanges since \<Rightarrow> (Some (RsChanged (ve_waited env since)), sv)
      | _ \<Rightarrow> (case answer env rq asker sv of (a, sv) \<Rightarrow> (finish env a sv, sv)))"

section \<open>Properties\<close>

subsection \<open>What each device is given\<close>

definition granted :: "peers_db \<Rightarrow> standing \<Rightarrow> file_row \<Rightarrow> bool" where
  \<comment> \<open>the specification: whether the asker may have the bytes of a file\<close>
  "granted db st f \<longleftrightarrow> entitled db (st_audience st) f
     \<or> (st_guest_here st \<and> f_scope f = None \<and> f_deleted f = None
         \<and> (\<exists>d. st_owner st = Some d \<and> shared_with db (f_path f) (Some d)))"

definition granted_content :: "peers_db \<Rightarrow> standing \<Rightarrow> hash \<Rightarrow> bool" where
  "granted_content db st h \<longleftrightarrow> (\<exists>f \<in> set (files (a_index db)). granted db st f \<and> f_hash f = h)"

definition sealed_for :: "server_env \<Rightarrow> standing \<Rightarrow> serving \<Rightarrow> hash \<Rightarrow> bytes \<Rightarrow> bool" where
  \<comment> \<open>a part of a file sealed for this keeper: its header, or a chunk sealed with the keeper's key\<close>
  "sealed_for env st sv h bs \<longleftrightarrow> st_keeps st \<and> (\<exists>r \<in> set (sv_parts sv). st_owner st = Some (p_holder r) \<and> p_id r = h
     \<and> (p_part r = Header bs \<or> (\<exists>c plain. p_part r = Piece c
          \<and> bs = seal_chunk (se_crypto (ve_sealing env)) (key_for (ve_sealing env) (p_holder r)) plain)))"

definition listed_for :: "server_env \<Rightarrow> standing \<Rightarrow> serving \<Rightarrow> file_version \<Rightarrow> bool" where
  "listed_for env st sv v \<longleftrightarrow>
     (\<exists>f \<in> set (files (a_index (sv_db sv))). entitled (sv_db sv) (st_audience st) f \<and> path v = f_path f
        \<and> content v = content (row_to_version f))
     \<or> (st_keeps st \<and> (\<exists>d. st_owner st = Some d \<and> (\<exists>f \<in> set (own_vault_rows (a_index (sv_db sv))).
          seal_name (se_crypto (ve_sealing env)) (key_for (ve_sealing env) d) (f_path f) = Some (path v))))"

definition meant_for :: "server_env \<Rightarrow> request \<Rightarrow> bytes option \<Rightarrow> standing \<Rightarrow> serving \<Rightarrow> response \<Rightarrow> bool" where
  "meant_for env rq asker st sv r \<longleftrightarrow>
     (let db = sv_db sv
      in case r of
           RsChunk bs \<Rightarrow> (\<exists>h. rq = RqChunk h \<and> (sealed_for env st sv h bs
             \<or> (se_hash (ve_sealing env) bs = h
                 \<and> (\<exists>f \<in> set (files (a_index db)). granted db st f \<and> (f_id f, h) \<in> set (links (a_index db))))))
         | RsManifest hs \<Rightarrow> (\<exists>c. rq = RqManifest c \<and> (granted_content db st c
             \<or> (st_keeps st \<and> (\<forall>h \<in> set hs. \<exists>q \<in> set (sv_parts sv). st_owner st = Some (p_holder q) \<and> p_sealed q = c \<and> p_id q = h))))
         | RsLayout cs \<Rightarrow> (\<exists>c. rq = RqLayout c \<and> granted_content db st c)
         | RsConverted pdf \<Rightarrow> (\<exists>c name. rq = RqConvert c name \<and> (granted_content db st c \<or> st_keeps st))
         | RsTree vs \<Rightarrow> (\<forall>v \<in> set vs. listed_for env st sv v)
         | RsTreeDelta _ _ vs \<Rightarrow> (\<forall>v \<in> set vs. listed_for env st sv v)
         | RsKept _ fs \<Rightarrow> (\<forall>e \<in> set fs. granted_content db st (ke_content e))
         | RsStorage _ _ _ \<Rightarrow> owners_phone db asker \<noteq> None
         | RsFolders _ _ \<Rightarrow> \<not> st_other st \<and> (\<exists>d. st_owner st = Some d \<and> is_holder db d)
         | RsChosen cs \<Rightarrow> \<not> st_other st \<and> (\<exists>d. st_owner st = Some d \<and> cs = sv_chosen sv d)
         | _ \<Rightarrow> True)"

lemma serve_request_answer:
  "(\<And>since. rq \<noteq> RqChanges since) \<Longrightarrow>
     serve_request env rq asker sv = (case answer env rq asker sv of (a, sv) \<Rightarrow> (finish env a sv, sv))"
  by (cases rq) (auto simp: serve_request_def)

lemma db_of_index [simp]: "a_index (db_of n) = n_index n" by (simp add: db_of_def)

lemma standing_not_ourselves [simp]: "st_audience (standing_of db asker) \<noteq> Ourselves"
  by (auto simp: standing_of_def Let_def split: option.splits)

lemma guest_granted: "shared_content_reachable db h d \<Longrightarrow> st_guest_here st \<Longrightarrow> st_owner st = Some d \<Longrightarrow> granted_content db st h"
  unfolding shared_content_reachable_def granted_content_def granted_def list_ex_iff by blast

lemma visible_granted: "content_visible_to db h (st_audience st) \<Longrightarrow> st_audience st \<noteq> Ourselves \<Longrightarrow> granted_content db st h"
  unfolding content_visible_to_def by (auto simp: visible_to_iff granted_content_def granted_def)

lemma may_read_granted: "may_read_content db st h \<Longrightarrow> st_audience st \<noteq> Ourselves \<Longrightarrow> granted_content db st h"
  by (auto simp: may_read_content_def split: option.splits dest: guest_granted visible_granted)

lemma chunk_granted:
  assumes "st_guest_here st \<and> (case st_owner st of Some d \<Rightarrow> shared_chunk_reachable db h d | None \<Rightarrow> False)
     \<or> chunk_visible_to db h (st_audience st)" and "st_audience st \<noteq> Ourselves"
  shows "\<exists>f \<in> set (files (a_index db)). granted db st f \<and> (f_id f, h) \<in> set (links (a_index db))"
  using assms
  by (fastforce simp: shared_chunk_reachable_def chunk_visible_to_def visible_to_iff granted_def uses_chunk_def list_ex_iff
    split: option.splits)

lemma kept_meant:
  "\<forall>x \<in> set (snd found). granted_content (sv_db sv) st (sh_content x) \<Longrightarrow> meant_for env rq asker st sv (kept_response found)"
  by (auto simp: kept_response_def meant_for_def Let_def kept_entry_of_def)

lemma not_found_meant [simp]: "meant_for env rq asker st sv RsNotFound"
  by (simp add: meant_for_def Let_def)

lemma standing_ours: "st_owner (standing_of db asker) = Some d \<Longrightarrow> \<not> st_other (standing_of db asker)
    \<Longrightarrow> st_audience (standing_of db asker) = ToDevice d"
  by (auto simp: standing_of_def Let_def split: option.splits)

lemma standing_guest: "st_guest_here (standing_of db asker) \<Longrightarrow> st_other (standing_of db asker)"
  by (auto simp: standing_of_def Let_def is_other_person_def split: option.splits)

lemma standing_reaches: "st_reaches (standing_of db asker) \<Longrightarrow> \<not> st_guest_here (standing_of db asker) \<Longrightarrow> \<not> st_other (standing_of db asker)"
  by (auto simp: standing_of_def Let_def split: option.splits if_splits)

lemma reached_granted:
  assumes "x \<in> shown_to lower db disk keeper d q n" and "st = standing_of db asker" and "st_owner st = Some d" and "st_reaches st"
  shows "granted_content db st (sh_content x)"
proof (cases "st_guest_here st")
  case True
  then show ?thesis
    using assms shared_shown_from[OF assms(1)] shared_entry_reachable guest_granted by metis
next
  case False
  then have "st_audience st = ToDevice d" using assms standing_reaches standing_ours by blast
  then show ?thesis
    using shared_shown_from[OF assms(1)] shared_entry_reachable reachable_is_visible visible_granted[of db _ st] by fastforce
qed

lemma own_granted:
  assumes "x \<in> own_shown_to lower db d q n" and "st_audience st = ToDevice d"
  shows "granted_content db st (sh_content x)"
  using own_shown_from[OF assms(1)] merged_is_visible visible_granted[of db _ st] assms(2) by fastforce

lemma listing_granted:
  assumes "st = standing_of db asker" and "st_owner st = Some d" and "st_reaches st"
  shows "x \<in> set (snd (shared_listing db disk keeper d q)) \<Longrightarrow> granted_content db st (sh_content x)"
    and "x \<in> set (shared_search lower db keeper d q n) \<Longrightarrow> granted_content db st (sh_content x)"
  using reached_granted[OF _ assms] unfolding shown_to_def by blast+

lemma own_listing_granted:
  assumes "st_audience st = ToDevice d"
  shows "x \<in> set (snd (person_listing db (own_phones db d) q)) \<Longrightarrow> granted_content db st (sh_content x)"
    and "x \<in> set (person_search lower db (own_phones db d) q n) \<Longrightarrow> granted_content db st (sh_content x)"
  using own_granted[OF _ assms] unfolding own_shown_to_def by blast+

lemma shared_meant: "st = standing_of (sv_db sv) asker \<Longrightarrow> meant_for env rq asker st sv (shared_answer st dir sv)"
  by (auto simp: shared_answer_def intro!: kept_meant intro: listing_granted(1) split: option.split)

lemma kept_answer_meant: "st = standing_of (sv_db sv) asker \<Longrightarrow> meant_for env rq asker st sv (kept_answer st dir sv)"
  by (auto simp: kept_answer_def intro!: kept_meant intro: own_listing_granted(1) standing_ours split: option.split)

lemma search_meant: "st = standing_of (sv_db sv) asker \<Longrightarrow> meant_for env rq asker st sv (search_answer env st place wanted sv)"
proof (cases place; cases "st_owner st")
  fix d
  assume st: "st = standing_of (sv_db sv) asker" and "place = InShared" "st_owner st = Some d"
  then show ?thesis using listing_granted(2)[OF st]
    by (auto simp: search_answer_def intro!: kept_meant)
next
  fix d
  assume st: "st = standing_of (sv_db sv) asker" and "place = InKept" "st_owner st = Some d"
  then show ?thesis using own_listing_granted(2)[OF standing_ours, of "sv_db sv" asker d]
    by (auto simp: search_answer_def intro!: kept_meant)
qed (auto simp: search_answer_def split: within.split)

lemma chunk_meant:
  assumes "finish env (chunk_answer env st h sv) sv = Some r" and "st_audience st \<noteq> Ourselves"
  shows "meant_for env (RqChunk h) asker st sv r"
proof (cases "chunk_answer env st h sv")
  case (Now r')
  have "r' = RsNotFound \<or> (\<exists>bs. r' = RsChunk bs \<and> sealed_for env st sv h bs)"
    using Now
    by (fastforce simp: chunk_answer_def sealed_chunk_def sealed_part_of_def keeping_of_def sealed_for_def find_Some_iff Let_def
      split: option.splits bool.splits sealed_part.splits sum.splits if_splits dest: nth_mem)
  then show ?thesis using assms(1) Now by (auto simp: finish_def meant_for_def Let_def)
next
  case (Reading h')
  then have "h' = h" and "\<exists>f \<in> set (files (a_index (sv_db sv))). granted (sv_db sv) st f \<and> (f_id f, h) \<in> set (links (a_index (sv_db sv)))"
    using chunk_granted[OF _ assms(2), of "sv_db sv" h] by (auto simp: chunk_answer_def split: option.splits if_splits)
  then show ?thesis
    using assms(1) Reading by (auto simp: finish_def meant_for_def Let_def dest: read_chunk_hash split: sum.splits store_error.splits)
qed (auto simp: chunk_answer_def split: option.splits if_splits)

lemma manifest_meant:
  assumes "st_audience st \<noteq> Ourselves"
  shows "meant_for env (RqManifest c) asker st sv (manifest_answer st c sv)"
proof -
  have "\<forall>i \<in> set ids. \<exists>q \<in> set (sv_parts sv). p_holder q = holder \<and> p_sealed q = c \<and> p_id q = i"
    if "sealed_manifest (keeping_of sv) holder c = Some ids" for holder ids
    using that by (auto simp: sealed_manifest_def keeping_of_def Let_def split: if_splits)
  then show ?thesis
    using may_read_granted[OF _ assms, of "sv_db sv" c]
    by (fastforce simp: manifest_answer_def meant_for_def Let_def split: option.split bool.split)
qed

lemma layout_meant: "st_audience st \<noteq> Ourselves \<Longrightarrow> meant_for env (RqLayout c) asker st sv (layout_answer st c sv)"
  using may_read_granted[of "sv_db sv" st c] by (auto simp: layout_answer_def meant_for_def Let_def split: option.split)

lemma convert_meant:
  assumes "finish env (convert_answer env st c name sv) sv = Some r" and "st_audience st \<noteq> Ourselves"
  shows "meant_for env (RqConvert c name) asker st sv r"
  using assms may_read_granted[of "sv_db sv" st c]
  by (auto simp: convert_answer_def finish_def meant_for_def Let_def split: if_splits sum.splits option.splits)

lemma with_keeping_same: "k_store k = sv_store sv \<Longrightarrow> sv_node (with_keeping k sv) = sv_node sv"
  by (simp add: with_keeping_def on_sv_node_def on_node_def on_store_def the_store_def)

lemma prepare_row_store: "k_store (snd (snd (prepare_row se holder budget row x))) = k_store (snd (snd x))"
  by (cases x) (auto simp: prepare_row_def put_sealed_view_def Let_def split: option.split prod.split)

lemma prepare_sealed_store: "k_store (snd (prepare_sealed se holder budget k)) = k_store k"
proof -
  have "k_store (snd (snd (fold (prepare_row se holder budget) rows x))) = k_store (snd (snd x))" for rows x
    by (induction rows arbitrary: x) (simp_all add: prepare_row_store)
  then show ?thesis by (simp add: prepare_sealed_def)
qed

lemma listed_meant: "v \<in> set (versions_for (sv_db sv) (st_audience st)) \<Longrightarrow> listed_for env st sv v"
  unfolding listed_for_def by (blast dest: listed_is_entitled)

lemma sealed_version_name:
  "sealed_version se k d row = Some v \<Longrightarrow> seal_name (se_crypto se) (key_for se d) (f_path row) = Some (path v)"
  by (auto simp: sealed_version_def Let_def split: option.splits if_splits)

lemma sealed_listed:
  assumes "v \<in> set (sealed_tree_for (ve_sealing env) k d)" and "k_store k = sv_store sv" and "st_keeps st" and "st_owner st = Some d"
  shows "listed_for env st sv v"
proof -
  obtain row where "row \<in> set (own_vault_rows (a_index (sv_db sv)))" "sealed_version (ve_sealing env) k d row = Some v"
    using assms(1,2) by (auto simp: sealed_tree_for_def set_map_filter n_index_def the_store_def)
  then show ?thesis using sealed_version_name assms(3,4) unfolding listed_for_def by blast
qed

lemma tree_meant:
  assumes "whole_tree_answer env st sv = (tree, sv')" and "v \<in> set tree"
  shows "listed_for env st sv' v"
proof (cases "st_keeps st \<and> st_owner st \<noteq> None")
  case True
  let ?sv = "refresh_shares (se_hash (ve_sealing env)) sv"
  obtain d where d: "st_keeps st" "st_owner st = Some d" using True by auto
  let ?k = "snd (prepare_sealed (ve_sealing env) d SEALING_BUDGET (keeping_of ?sv))"
  have k: "k_store ?k = sv_store ?sv" by (simp add: prepare_sealed_store keeping_of_def)
  have sv': "sv' = with_keeping ?k ?sv" and tree: "tree = versions_for (sv_db ?sv) (st_audience st) @ sealed_tree_for (ve_sealing env) ?k d"
    using assms(1) d by (auto simp: whole_tree_answer_def Let_def)
  have "sv_node sv' = sv_node ?sv" using with_keeping_same[OF k] sv' by simp
  then show ?thesis using assms(2) tree k d listed_meant[of v sv' st env] sealed_listed[of v env ?k d sv' st] by auto
next
  case False
  then show ?thesis using assms listed_meant by (auto simp: whole_tree_answer_def Let_def split: option.splits bool.splits)
qed

lemma delta_meant: "tree_since_answer env st since sv = (r, sv') \<Longrightarrow> meant_for env rq asker st sv' r"
  by (auto simp: tree_since_answer_def Let_def meant_for_def intro: listed_meant split: if_splits)

definition tells_nothing :: "response \<Rightarrow> bool" where
  "tells_nothing r \<longleftrightarrow> (case r of RsNoted \<Rightarrow> True | RsNotFound \<Rightarrow> True | RsRefused _ \<Rightarrow> True | RsPlaced _ \<Rightarrow> True | RsAsks _ \<Rightarrow> True
     | RsBecame _ \<Rightarrow> True | RsPlaces _ \<Rightarrow> True | RsDigest _ \<Rightarrow> True | _ \<Rightarrow> False)"

lemma tells_nothing_simps [simp]:
  "tells_nothing RsNoted" "tells_nothing RsNotFound" "tells_nothing (RsRefused why)" "tells_nothing (RsPlaced p)"
  "tells_nothing (RsAsks n)" "tells_nothing (RsBecame i)" "tells_nothing (RsPlaces ps)" "tells_nothing (RsDigest h)"
  by (simp_all add: tells_nothing_def)

lemma tells_nothing_meant: "tells_nothing r \<Longrightarrow> meant_for env rq asker st sv r"
  by (cases r) (simp_all add: tells_nothing_def meant_for_def Let_def)

lemma finish_Now [simp]: "finish env (Now r) sv = Some r" by (simp add: finish_def)

lemma refused_tells_nothing: "finish env (refused_answer e) sv = Some r \<Longrightarrow> tells_nothing r"
  by (cases e) (auto simp: refused_answer_def finish_def)

lemma made_tells_nothing: "finish env (made x) sv = Some r \<Longrightarrow> tells_nothing r"
  by (auto simp: made_def dest: refused_tells_nothing split: sum.splits)

lemma placed_tells_nothing: "finish env (placed_answer x) sv = Some r \<Longrightarrow> tells_nothing r"
  by (auto simp: placed_answer_def dest: refused_tells_nothing split: sum.splits)

lemma change_tells_nothing:
  assumes "change_shared st (\<lambda>d sp. map_prod ans id (f d sp)) sv = (a, sv')" and "finish env a sv'' = Some r"
    and "\<And>x. finish env (ans x) sv'' = Some r \<Longrightarrow> tells_nothing r"
  shows "tells_nothing r"
  using assms by (auto simp: change_shared_def map_prod_def split: option.splits if_splits prod.splits)

lemma upload_done_tells_nothing:
  "upload_done env st i p h sv = (a, sv') \<Longrightarrow> finish env a sv'' = Some r \<Longrightarrow> tells_nothing r"
  by (auto simp: upload_done_def dest: placed_tells_nothing split: option.splits if_splits prod.splits)

lemma told_tells_nothing:
  "asks_answer env st sv = (r, sv') \<Longrightarrow> tells_nothing r"
  "unlock_answer env st nonce k sv = (r, sv') \<Longrightarrow> tells_nothing r"
  "upload_answer env st i offset data sv = (r, sv') \<Longrightarrow> tells_nothing r"
  "empty_deleted_answer env asker sv = (r, sv') \<Longrightarrow> tells_nothing r"
  "become_answer env asker cert sv = (r, sv') \<Longrightarrow> tells_nothing r"
  "got_answer st h sv = (r, sv') \<Longrightarrow> tells_nothing r"
  "tells_nothing (places_answer db asker)"
  by (auto simp: asks_answer_def unlock_answer_def upload_answer_def upload_piece_def empty_deleted_answer_def become_answer_def
    got_answer_def places_answer_def Let_def split: option.splits if_splits prod.splits)

definition changes_the_folder :: "request \<Rightarrow> bool" where
  "changes_the_folder rq \<longleftrightarrow> (case rq of RqSharedMkdir _ \<Rightarrow> True | RqSharedMove _ _ \<Rightarrow> True | RqSharedCopy _ _ \<Rightarrow> True
     | RqSharedDelete _ \<Rightarrow> True | RqUploadDone _ _ _ \<Rightarrow> True | _ \<Rightarrow> False)"

lemma changes_tell_nothing:
  assumes "changes_the_folder rq" and "answer env rq asker sv = (a, sv')" and "finish env a sv' = Some r"
  shows "tells_nothing r"
proof -
  note made = change_tells_nothing[OF _ assms(3) made_tells_nothing] and placed = change_tells_nothing[OF _ assms(3) placed_tells_nothing]
    and upload = upload_done_tells_nothing[OF _ assms(3)]
  show ?thesis
    using assms(1,2)
    by (cases rq) (simp_all add: changes_the_folder_def answer_def Let_def, (elim made placed upload, assumption?)+)
qed

text \<open>Whatever another device asks, what it is answered of files is meant for it, by what its
  certificate proves it to be. A chunk is of a file granted to it, and hashes to what was asked for, or
  is a part sealed for it; lists of chunks, layouts and what it is listed or finds in a folder are of
  contents granted to it; each version it is listed is of a file it is entitled to, or bears a name
  sealed for it; only the person's own phones are told what is kept here, and only a computer of the
  person's that keeps the vault is told the folders. A document is converted for who is granted it --
  or for any computer that keeps this device's vault sealed.\<close>

theorem answers_are_meant_for_the_asker:
  assumes "serve_request env rq asker sv = (Some r, sv')"
  shows "meant_for env rq asker (standing_of (sv_db sv) asker) sv' r"
proof -
  let ?st = "standing_of (sv_db sv) asker"
  show ?thesis
  proof (cases "\<exists>since. rq = RqChanges since")
    case True
    then show ?thesis using assms by (auto simp: serve_request_def meant_for_def Let_def)
  next
    case False
    then obtain a where a: "answer env rq asker sv = (a, sv')" and r: "finish env a sv' = Some r"
      using assms by (auto simp: serve_request_answer split: prod.splits)
    show ?thesis
    proof (cases rq)
      case (RqChunk h)
      then show ?thesis using a r chunk_meant[of env ?st h sv r asker] by (auto simp: answer_def Let_def)
    next
      case (RqConvert h name)
      then show ?thesis using a r convert_meant[of env ?st h name sv r asker] by (auto simp: answer_def Let_def)
    next
      case RqTree
      then show ?thesis using a r tree_meant[of env ?st sv] by (auto simp: answer_def Let_def meant_for_def split: prod.splits)
    next
      case RqTreeStream
      then show ?thesis using a r tree_meant[of env ?st sv] by (auto simp: answer_def Let_def meant_for_def split: prod.splits)
    next
      case (RqTreeSince since)
      then show ?thesis using a r delta_meant[of env ?st since sv] by (auto simp: answer_def Let_def now_sv_def split: prod.splits)
    next
      case (RqManifest h)
      then show ?thesis using a r manifest_meant[of ?st env h asker sv] by (auto simp: answer_def Let_def)
    next
      case (RqLayout h)
      then show ?thesis using a r layout_meant[of ?st env h asker sv] by (auto simp: answer_def Let_def)
    next
      case (RqShared dir)
      then show ?thesis using a r shared_meant[of ?st sv asker] by (auto simp: answer_def Let_def)
    next
      case (RqKept dir)
      then show ?thesis using a r kept_answer_meant[of ?st sv asker] by (auto simp: answer_def Let_def)
    next
      case (RqSearch place wanted)
      then show ?thesis using a r search_meant[of ?st sv asker] by (auto simp: answer_def Let_def)
    qed (use a r False tells_nothing_meant told_tells_nothing changes_tell_nothing[OF _ a r] in
        \<open>auto simp: changes_the_folder_def answer_def Let_def now_sv_def meant_for_def storage_answer_def
          split: prod.splits option.splits if_splits\<close>)
  qed
qed

subsection \<open>What asking can change\<close>

definition same_files :: "serving \<Rightarrow> serving \<Rightarrow> bool" where
  "same_files sv sv' \<longleftrightarrow>
     s_tree (sv_store sv') = s_tree (sv_store sv) \<and> s_cas (sv_store sv') = s_cas (sv_store sv)
     \<and> files (n_index (sv_node sv')) = files (n_index (sv_node sv)) \<and> links (n_index (sv_node sv')) = links (n_index (sv_node sv))
     \<and> chunks (n_index (sv_node sv')) = chunks (n_index (sv_node sv))
     \<and> n_trash (sv_node sv') = n_trash (sv_node sv) \<and> n_trash_files (sv_node sv') = n_trash_files (sv_node sv)
     \<and> sp_dirs (sv_place sv') = sp_dirs (sv_place sv)"

abbreviation copies :: "serving \<Rightarrow> hash \<Rightarrow> nat" where "copies sv \<equiv> safe_copies_elsewhere (n_index (sv_node sv))"

lemma same_files_refl [simp]: "same_files sv sv" by (simp add: same_files_def)

lemmas sv_defs = same_files_def on_sv_node_def on_node_def on_store_def the_store_def n_index_def

lemma refresh_same: "same_files sv (refresh_shares H sv)" "copies (refresh_shares H sv) = copies sv"
  by (simp_all add: refresh_shares_def set_peers_def sv_defs Let_def)

lemma keeping_same:
  assumes "k_store k = sv_store sv"
  shows "same_files sv (with_keeping k sv) \<and> copies (with_keeping k sv) = copies sv"
  using with_keeping_same[OF assms] by (simp add: same_files_def with_keeping_def on_sv_node_def on_node_def)

lemma whole_tree_same:
  assumes "whole_tree_answer env st sv = (tree, sv')"
  shows "same_files sv sv' \<and> copies sv' = copies sv"
proof -
  let ?sv = "refresh_shares (se_hash (ve_sealing env)) sv"
  have "sv' = ?sv \<or> (\<exists>d. sv' = with_keeping (snd (prepare_sealed (ve_sealing env) d SEALING_BUDGET (keeping_of ?sv))) ?sv)"
    using assms by (auto simp: whole_tree_answer_def Let_def split: option.splits bool.splits)
  moreover have "k_store (snd (prepare_sealed (ve_sealing env) d SEALING_BUDGET (keeping_of ?sv))) = sv_store ?sv" for d
    by (simp add: prepare_sealed_store keeping_of_def)
  ultimately show ?thesis using keeping_same[of _ ?sv] refresh_same(1)[of sv] refresh_same(2)[of _ sv] unfolding same_files_def by metis
qed

lemma note_replica_copies:
  assumes "safe_copies_elsewhere ix h < safe_copies_elsewhere (note_replica g d private ix) h"
  shows "g = h \<and> \<not> private"
proof (rule ccontr)
  assume no: "\<not> (g = h \<and> \<not> private)"
  let ?P = "\<lambda>(h', d', b). h' = h \<and> \<not> b \<and> d' \<notin> set (phones ix)"
  let ?f = "\<lambda>(h', d', b). if h' = g \<and> d' = d then (h', d', b \<and> private) else (h', d', b)"
  have "length (filter ?P (map ?f rs)) = length (filter ?P rs)" for rs
    using no by (induction rs) (auto split: if_splits)
  moreover have "filter ?P [(g, d, private)] = []" using no by auto
  ultimately have "safe_copies_elsewhere (note_replica g d private ix) h = safe_copies_elsewhere ix h"
    by (simp add: safe_copies_elsewhere_def note_replica_def)
  then show False using assms by simp
qed

lemma note_replica_same:
  "same_files sv (on_sv_node (on_store (\<lambda>s. s\<lparr>s_index := note_replica h d private (s_index s)\<rparr>)) sv)"
  "copies (on_sv_node (on_store (\<lambda>s. s\<lparr>s_index := note_replica h d private (s_index s)\<rparr>)) sv)
     = safe_copies_elsewhere (note_replica h d private (n_index (sv_node sv)))"
  by (simp_all add: sv_defs note_replica_def)

definition told_of_copy :: "standing \<Rightarrow> request \<Rightarrow> serving \<Rightarrow> hash \<Rightarrow> bool" where
  \<comment> \<open>one of the person's devices has the content, or a keeper the sealed file it was shown of it\<close>
  "told_of_copy st rq sv h \<longleftrightarrow> (\<exists>g. rq = RqGot g
     \<and> ((g = h \<and> \<not> st_other st)
        \<or> (st_keeps st \<and> (\<exists>v \<in> set (sv_views sv). st_owner st = Some (v_holder v) \<and> v_sealed v = g \<and> v_content v = h))))"

lemma got_same:
  assumes "got_answer st g sv = (r, sv')"
  shows "same_files sv sv' \<and> (\<forall>h. copies sv h < copies sv' h \<longrightarrow> told_of_copy st (RqGot g) sv h)"
proof (cases "st_owner st")
  case (Some d)
  have delivered: "same_files sv (note_delivery st d g sv)
      \<and> (\<forall>h. copies sv h < copies (note_delivery st d g sv) h \<longrightarrow> told_of_copy st (RqGot g) sv h)"
    using note_replica_same(1)[of sv g d] note_replica_same(2)[of g d _ sv] by (auto simp: note_delivery_def Let_def told_of_copy_def dest: note_replica_copies)
  show ?thesis
  proof (cases "st_keeps st \<and> unsealed (keeping_of sv) d g \<noteq> None")
    case True
    then obtain v where v: "v \<in> set (sv_views sv)" "v_holder v = d" "v_sealed v = g"
        "unsealed (keeping_of sv) d g = Some (v_path v, v_content v)"
      by (auto simp: unsealed_def keeping_of_def find_Some_iff dest: nth_mem)
    let ?k = "snd (note_kept_sealed d g (keeping_of sv))"
    have "sv' = with_keeping ?k sv" using assms Some True v(4) by (simp add: got_answer_def note_kept_sealed_def)
    moreover have "k_store ?k = (sv_store sv)\<lparr>s_index := note_replica (v_content v) d False (s_index (sv_store sv))\<rparr>"
      using v(4) by (simp add: note_kept_sealed_def keeping_of_def)
    ultimately have "same_files sv sv'" "copies sv' = safe_copies_elsewhere (note_replica (v_content v) d False (n_index (sv_node sv)))"
      by (simp_all add: with_keeping_def sv_defs note_replica_def)
    then show ?thesis using True v(1-3) Some by (auto simp: told_of_copy_def dest: note_replica_copies)
  next
    case False
    then have "sv' = note_delivery st d g sv" using assms Some
      by (cases "unsealed (keeping_of sv) d g") (auto simp: got_answer_def note_kept_sealed_def split: if_splits)
    then show ?thesis using delivered by simp
  qed
qed (use assms in \<open>auto simp: got_answer_def\<close>)

lemma node_same: "sv_place sv' = sv_place sv \<Longrightarrow> same_files sv sv' \<and> copies sv' = copies sv"
  by (simp add: same_files_def)

lemma peers_same: "same_files sv (set_peers g sv) \<and> copies (set_peers g sv) = copies sv"
  by (simp add: set_peers_def sv_defs)

text \<open>A device serves read-only. Whatever another device asks, the files, chunks, links and Recently
  deleted of the one asked stay as they are, on disk and in the index, except where one that may
  reach the shared folder, a guest or a phone of the person, asks for a change of it, and where the
  person's own phone empties Recently deleted. And a content is counted as safe elsewhere, which is what
  freeing it asks, only when one of the person's devices says it has it, or a keeper that it has a
  sealed file it was shown of it.\<close>

theorem serving_is_read_only:
  assumes "serve_request env rq asker sv = (r, sv')"
  shows "(changes_the_folder rq \<and> st_reaches (standing_of (sv_db sv) asker))
     \<or> (rq = RqEmptyDeleted \<and> owners_phone (sv_db sv) asker \<noteq> None)
     \<or> (same_files sv sv'
         \<and> (\<forall>h. copies sv h < copies sv' h \<longrightarrow> told_of_copy (standing_of (sv_db sv) asker) rq sv h))"
proof -
  let ?st = "standing_of (sv_db sv) asker"
  have unchanged: "same_files sv sv' \<and> copies sv' = copies sv \<Longrightarrow> ?thesis" by simp
  show ?thesis
  proof (cases "\<exists>since. rq = RqChanges since")
    case True
    then show ?thesis using assms unchanged by (auto simp: serve_request_def)
  next
    case False
    then obtain a where a: "answer env rq asker sv = (a, sv')"
      using assms by (auto simp: serve_request_answer split: prod.splits)
    show ?thesis
    proof (cases rq)
      case RqTree
      then show ?thesis using a whole_tree_same[of env ?st sv] unchanged by (auto simp: answer_def Let_def split: prod.splits)
    next
      case RqTreeStream
      then show ?thesis using a whole_tree_same[of env ?st sv] unchanged by (auto simp: answer_def Let_def split: prod.splits)
    next
      case RqTreeDigest
      then show ?thesis using a whole_tree_same[of env ?st sv] unchanged by (auto simp: answer_def Let_def split: prod.splits)
    next
      case (RqTreeSince since)
      then have "sv' = sv \<or> sv' = refresh_shares (se_hash (ve_sealing env)) sv"
        using a by (auto simp: answer_def now_sv_def tree_since_answer_def Let_def split: if_splits)
      then show ?thesis using refresh_same(1)[of sv] refresh_same(2)[of _ sv] unchanged by auto
    next
      case (RqGot g)
      then show ?thesis using a got_same[of ?st g sv] by (auto simp: answer_def Let_def now_sv_def split: prod.splits)
    next
      case (RqBecome cert)
      then have "sv' = sv \<or> (\<exists>g. sv' = set_peers g sv)"
        using a by (auto simp: answer_def now_sv_def become_answer_def Let_def split: prod.splits option.splits if_splits)
      then show ?thesis using peers_same[of sv] unchanged by auto
    qed (use a False node_same[of sv' sv] unchanged in \<open>auto simp: answer_def Let_def now_sv_def changes_the_folder_def
        asks_answer_def unlock_answer_def upload_answer_def upload_piece_def change_shared_def upload_done_def
        empty_deleted_answer_def split: prod.splits option.splits if_splits\<close>)
  qed
qed

subsection \<open>A laptop asked\<close>

definition asked_laptop :: "(string \<times> bytes) list \<Rightarrow> relation \<Rightarrow> bool \<Rightarrow> serving" where
  \<comment> \<open>these files in the shared folder; a device \<open>9\<close> of this relation is paired, and may keep the vault\<close>
  "asked_laptop ps rel keeps =
     (let n = fold (\<lambda>(p, b). on_store (\<lambda>st. snd (store_put_bytes length (\<lambda>b. b) whole_file 100 p b 0 st))) ps
            (fresh_laptop (Some (map_of ps)));
          peers = (n_peers n)\<lparr>a_peers := [(phone_named 9 ''Visitor'' 10)\<lparr>tp_relation := rel\<rparr>],
            a_holders := (if keeps then [(DeviceId [9], False)] else [])\<rparr>
      in \<lparr>sv_place = \<lparr>sp_node = n\<lparr>n_peers := peers\<rparr>, sp_dirs = [], sp_names = map fst ps\<rparr>, sv_views = [], sv_parts = [],
          sv_opened = (\<lambda>_. None), sv_openings = no_openings, sv_staged = (\<lambda>_. None), sv_stamp = None, sv_kind = None,
          sv_install = None, sv_profile = None, sv_folders = [], sv_chosen_here = [], sv_chosen = (\<lambda>_. []), sv_mark = 0,
          sv_listed = []\<rparr>)"

definition asked_env :: server_env where
  "asked_env = \<lparr>ve_desk = desk_at 200, ve_sealing = \<lparr>se_hash = (\<lambda>b. b), se_crypto = plain_folder_crypto, se_key = [7]\<rparr>,
     ve_moment = at_second 0, ve_lower = (\<lambda>s. s), ve_given = 0, ve_waited = (\<lambda>n. n), ve_stored = (\<lambda>_. 0), ve_pdf = (\<lambda>_ bs _. Some bs)\<rparr>"

abbreviation (input) served :: "request \<Rightarrow> serving \<Rightarrow> response option \<times> serving" where
  "served rq \<equiv> serve_request asked_env rq (Some [9])"

lemma served_chunk:
  "served (RqChunk h) sv = (finish asked_env (chunk_answer asked_env (standing_of (sv_db sv) (Some [9])) h sv) sv, sv)"
  by (simp add: serve_request_def answer_def Let_def)

lemma guest_reads_live: "fst (served (RqChunk [1]) (asked_laptop [(''a.txt'', [1])] Guest False)) = Some (RsChunk [1])"
  unfolding served_chunk fst_conv by code_simp

theorem answers_are_meant_for_the_asker_witness:
  "meant_for asked_env (RqChunk [1]) (Some [9]) (standing_of (sv_db (asked_laptop [(''a.txt'', [1])] Guest False)) (Some [9]))
     (snd (served (RqChunk [1]) (asked_laptop [(''a.txt'', [1])] Guest False))) (RsChunk [1])"
  by (rule answers_are_meant_for_the_asker) (simp add: prod_eq_iff guest_reads_live)

lemma visited_is_another: "st_other (standing_of (sv_db (asked_laptop [(''a.txt'', [1])] Host False)) (Some [9]))"
  "\<not> st_reaches (standing_of (sv_db (asked_laptop [(''a.txt'', [1])] Host False)) (Some [9]))"
  "\<not> st_keeps (standing_of (sv_db (asked_laptop [(''a.txt'', [1])] Host False)) (Some [9]))"
  by code_simp+

theorem serving_is_read_only_witness:
  "let sv = asked_laptop [(''a.txt'', [1])] Host False; sv' = snd (served (RqGot [1]) sv)
   in same_files sv sv' \<and> \<not> copies sv [1] < copies sv' [1]"
  using serving_is_read_only[of asked_env "RqGot [1]" "Some [9]" "asked_laptop [(''a.txt'', [1])] Host False", OF surjective_pairing]
    visited_is_another by (simp add: Let_def told_of_copy_def)


subsection \<open>Where the answers are not what they mean to be\<close>

text \<open>A computer that keeps this device's vault sealed has any Office document of it converted, though it
  is not given the document: \<open>Convert\<close> takes being a keeper for being allowed to read.\<close>

lemma keeper_has_documents_converted:
  "let sv = asked_laptop [(''will.doc'', [1])] Host True
   in \<not> may_read_content (sv_db sv) (standing_of (sv_db sv) (Some [9])) [1]
      \<and> fst (served (RqChunk [1]) sv) = Some RsNotFound
      \<and> fst (served (RqConvert [1] ''will.doc'') sv) = Some (RsConverted [1])"
  by code_simp

text \<open>A rule that has arrived holds once some list is answered, and not before: until then what lies in
  the folder it closes is still given to those it shuts out.\<close>

lemma db_of_replace: "db_of (n\<lparr>n_peers := replace_shares rs (n_peers n)\<rparr>) = replace_shares rs (db_of n)"
  by (simp add: db_of_def replace_shares_def n_index_def the_store_def)

lemma rules_wait_for_a_list:
  "let sv = asked_laptop [(''Family/will'', [1]), (''.qurb-sharing/Family'', [2])] Guest False
   in shared_chunk_reachable (sv_db sv) [1] (DeviceId [9])
      \<and> \<not> shared_chunk_reachable (sv_db (refresh_shares (\<lambda>b. b) sv)) [1] (DeviceId [9])"
proof -
  let ?sv = "asked_laptop [(''Family/will'', [1]), (''.qurb-sharing/Family'', [2])] Guest False"
  have "rules_now (\<lambda>b. b) (sv_store ?sv) = Rules [(''Family'', [])]" by code_simp
  moreover have "shared_chunk_reachable (sv_db ?sv) [1] (DeviceId [9])" by code_simp
  moreover have "\<not> shared_chunk_reachable (replace_shares (Rules [(''Family'', [])]) (sv_db ?sv)) [1] (DeviceId [9])" by code_simp
  moreover have "sv_stamp ?sv = None" by (simp add: asked_laptop_def Let_def)
  ultimately show ?thesis
    by (simp add: Let_def refresh_shares_def set_peers_def on_sv_node_def on_node_def db_of_replace)
qed

end
