(* ===== verification/Spec2Isabelle.thy ===== *)
theory Spec2Isabelle imports Reconcile Sharing Request Response Tree_List Relay Debounce Converge Shared_Folder Pairing Keeper Openings Freeing Server
begin

text \<open>
  Verification of Qurb, a private sync of files between one person's devices, with guests and
  friends to send to (Rust, under \<open>src/crates\<close>). A device keeps a folder, an index of it in SQLite
  and a store of chunks; it shows the other devices a list of file versions, takes from theirs what
  it lacks, and never overwrites what it has not seen.

  \<^bold>\<open>The parts and the theories.\<close> \<open>Prelude\<close>, \<open>Ordered_Map\<close> and \<open>Rust_Str\<close> hold the shared types, the
  \<open>BTreeMap\<close> of the standard library (an interface of laws, interpreted on the sorted association
  list the model uses) and string operations over UTF-8 bytes. Then, each over the ones before:
  \<^item> \<open>Device\<close>, \<open>Clock\<close>, \<open>Version\<close>, \<open>Calendar\<close>, \<open>Resolve\<close>, \<open>Reconcile\<close>, \<open>Sharing\<close>: the crate \<open>sync\<close>. Device ids,
    version vectors with their \<open>u64\<close> counters, file versions, the decision on two versions of a path,
    the names of conflict copies, the plan of two trees (\<open>reconcile\<close>, the abstract specification of
    the engine), and the rules that keep folders from devices. State: none; every operation is a
    function, with None or an error where the code panics or refuses.
  \<^item> \<open>Reader\<close>, \<open>Entry\<close>, \<open>Request\<close>, \<open>Response\<close>, \<open>Tree_List\<close>: \<open>peer/src/wire.rs\<close>, \<open>trees.rs\<close> and the keeping of
    lists in \<open>client.rs\<close>. Every message with its caps, and file lists in frames, kept between syncs.
  \<^item> \<open>Base32\<close>, \<open>Invite\<close>, \<open>Pairing\<close>: \<open>peer/src/base32.rs\<close>, \<open>pairing.rs\<close>, \<open>short.rs\<close> and what \<open>db.rs\<close> and \<open>store.rs\<close>
    record of a device. State: \<open>hosting\<close>, which holds the tries left of the six digits, whether the key
    has gone, whom the person was asked about, what was sent to whom, and the tables.
  \<^item> \<open>Relay\<close>: \<open>relay/src/frame.rs\<close>, \<open>server.rs\<close> and the addresses of \<open>socket.rs\<close>. State: the registry, the
    connections and their outboxes; steps of many connections interleave in an inductive relation.
  \<^item> \<open>Debounce\<close>, \<open>Scan\<close>: \<open>watcher/src/debounce.rs\<close>, the watcher's loop, \<open>ignore.rs\<close> and \<open>scan.rs\<close>. State: the
    pending paths with their first and last event.
  \<^item> \<open>Index\<close>, \<open>Store\<close>, \<open>Store_Cases\<close>, \<open>Rows\<close>: the files and chunks of \<open>storage/src/db.rs\<close> with the triggers,
    and writing, adopting, keeping, freeing, reading and collecting in \<open>store.rs\<close>, \<open>gc.rs\<close>, \<open>chunker.rs\<close>
    and \<open>cas.rs\<close>. State: the tables as lists and maps of rows, the payloads, the folder. The relation
    \<open>store_step\<close> has every statement that writes to these tables, the two halves of a write apart.
  \<^item> \<open>Audience\<close>: the queries of \<open>db.rs\<close> that answer another device, the share tables and the devices
    another one was before.
  \<^item> \<open>Folder\<close>, \<open>Plan\<close>, \<open>Apply\<close>, \<open>Converge\<close>: \<open>engine/src\<close>. A run over the folder and what the watcher
    reports; planning from another device's list; carrying a plan out; and its refinement of
    \<open>reconcile\<close>. State: \<open>node\<close>, the engine with the store and the tables below it.
  \<^item> \<open>Trash\<close>, \<open>Moves\<close>: Recently deleted, renaming and settling conflicts, in \<open>store.rs\<close>.
  \<^item> \<open>Browse\<close>, \<open>Shared_Folder\<close>: \<open>storage/src/person.rs\<close>, \<open>shared_folder.rs\<close>. The folder of a person and the shared
    folder as a device may list and search them, and the changes of the shared folder a phone or a
    guest asks for. State: \<open>shared_place\<close>, a node with the directories and names on disk.
  \<^item> \<open>Sealed\<close>, \<open>Keeper\<close>: \<open>storage/src/sealed.rs\<close>, what \<open>db.rs\<close> and \<open>store.rs\<close> remember of sealed files, showing
    the vault sealed to a keeper, and fetching it back. State: \<open>keeping\<close>, the sealed views and parts over
    the store; \<open>unsealer\<close>, the bytes pushed and not yet opened.
  \<^item> \<open>Freeing\<close>: \<open>Store::evict\<close> against what every other device is sent and may ask for.
  \<^item> \<open>Openings\<close>: \<open>peer/src/openings.rs\<close>. State: \<open>registry\<close>, what was asked for, for whom, and the folders open, each
    on the clock that stops in sleep and the one that does not.
  \<^item> \<open>Server\<close>: \<open>peer/src/server.rs\<close>, every request answered by what the store says of the asker, with the
    sharing rules as they are refreshed. State: \<open>serving\<close>, all of the above that a device answers from.

  \<^bold>\<open>What the lemmas show.\<close> Of the decisions: the comparison of vectors is the order of their counters,
  merging is the least upper bound, resolving loses no edit and is the same on both sides, and one
  exchange of plans makes two comparable trees equal: what one author recorded of a path with one
  content has one time and area, one vector names one version, and no conflict copy's name is taken.
  Of the engine: taking a version is adopting it in the
  abstract tree, whatever way it is taken and wherever it fails (\<open>take_refines_adoption\<close>), from which two
  devices that carry out whole plans converge (\<open>two_devices_converge\<close>, with nothing between them: no
  sharing rules, nothing asked back, both roles taking every path); and a run over the folder indexes
  what changed under the hash of its bytes. Of the store: reference counts
  are the numbers of links in every state that interleaved connections reach, collection takes
  nothing live, a write into the chunk store is not undone by a collection in between, and freeing
  a file changes nothing other devices are sent or may ask for. Of who is told what: one entitlement
  for contents and chunks, the part of it lists show, the share tables as a refinement of rules that
  do not nest, what strangers can do; every file shown may be fetched and is found by opening folders;
  changes asked for leave withheld folders alone; what a request is answered is meant for who asked,
  and serving is read-only but for the requests that are changes. Of folders opened: only as approved,
  each use within the idle limit of the one before. Of pairing: nothing is given or recorded without the person's word, the digits are tried five
  times and the code is sealed only after a proof on the same connection, both ends record each other. Of sealing: names and files read back as they were, and a keeper
  is shown the vault's own files, at their own versions and under their own names, and nothing else.
  Of messages: decoding is exact or bounded. Of what a person
  does: runs of deletions, renames and settled conflicts keep every content somewhere. Where the
  code does otherwise than it says, a lemma exhibits it beside the definitions.

  \<^bold>\<open>Numbers, loops and ends.\<close> Counters, sizes and buffers are words of their width where wrapping or
  cutting matters (\<open>increment\<close>, frame lengths, the 16-bit buffer of base32); elsewhere times and sizes
  are integers, with the bound stated. No fuel is used: loops over lists are structural recursions,
  reads of counted lists recurse on the count, the search for earlier selves has a measure, and the
  unbounded search for a free name is a partial function into an option, which is shown to end
  (\<open>search_for_a_name_ends\<close>).

  \<^bold>\<open>Parameters.\<close> What is not code of the repository is an argument: BLAKE3 (without collisions where said), FastCDC's cuts, the
  composed form and the lower case of Unicode, the length of a sealed payload, SPAKE2 and sealing (with the hypothesis
  that two sides with the same digits and identities agree, and that what is sealed opens), the keyed hash and the
  cipher of sealed copies (that what is encrypted opens under the same key, nonce and data, and a tag
  of its length), the
  random source, the certificate a connection proves, the person who approves, the clocks, what the
  disk holds when it is looked at, the converter of documents, the space the computer is given and
  the sum of the chunks' stored sizes, and the source of a file's bytes, which may fail at any question.

  \<^bold>\<open>Not modelled.\<close> The history of activity and progress shown, which nothing modelled reads; empty
  directories, but for the shared folder's; the scope id of an IPv6 address; frames a relay still
  writes out for a connection that has ended; SQLite's migrations, journal and errors of input and output other than those named;
  enforcing the storage limit; profiles and folders outside the vault; sockets, QUIC, TLS, X.509, hole
  punching, discovery on the network, and the rendezvous and push services (\<open>signal\<close>), which are
  effects of libraries; key derivation and key stores (\<open>keys\<close>); the command line, daemon, tray and windows (\<open>qurb\<close>, \<open>desktop\<close>, \<open>tray\<close>) and the interface of
  the Android application (\<open>mobile-ffi\<close>), which call the crates modelled here.
\<close>

end
